(* ===== verification/Prelude.thy ===== *)
theory Prelude
  imports Main "HOL-Library.Word"
begin

unbundle bit_operations_syntax

text \<open>
  The prelude of the development: the machine types of the C code (64-bit \<open>size_t\<close>, as on the
  arm64 and x86-64 targets of the application), the type of a C operation that
  updates a structure through a pointer and may fail, the allocator the code calls, and the lemmas
  on words and byte lists that the component theories share.
\<close>

named_theorems refine_intros \<open>introduction rules of the refinement relation, one per operation\<close>
named_theorems op_simps \<open>rewrite rules for operations on a concrete state\<close>

section \<open>Machine types\<close>

type_synonym u8 = "8 word"
type_synonym u16 = "16 word"
type_synonym u32 = "32 word"
type_synonym u64 = "64 word"
type_synonym size_t = "64 word"
type_synonym bytes = "u8 list"

abbreviation SIZE_MAX :: size_t where "SIZE_MAX \<equiv> - 1"

section \<open>Operations that may fail\<close>

text \<open>
  A C function \<open>int f(T *s, A *out)\<close> returns 0 or 1, and may have changed \<open>*s\<close> in either case. It is
  a function from the state to \<open>None\<close> (returned 0) or \<open>Some\<close> of the out-parameters (returned 1),
  paired with the state it leaves.
\<close>

type_synonym ('s, 'a) op = "'s \<Rightarrow> 'a option \<times> 's"

definition succeed :: "'a \<Rightarrow> ('s, 'a) op" where
  "succeed a = (\<lambda>s. (Some a, s))"

definition failure :: "('s, 'a) op" where
  "failure = (\<lambda>s. (None, s))"

text \<open>\<open>if (!m(s)) return 0; f(...)\<close>\<close>

definition chk :: "('s, 'a) op \<Rightarrow> ('a \<Rightarrow> ('s, 'b) op) \<Rightarrow> ('s, 'b) op" where
  "chk m f = (\<lambda>s. case m s of (None, s') \<Rightarrow> (None, s') | (Some a, s') \<Rightarrow> f a s')"

text \<open>\<open>if (!b) return 0;\<close>\<close>

definition require :: "bool \<Rightarrow> ('s, unit) op" where
  "require b = (if b then succeed () else failure)"

text \<open>A loop whose body may return 0 early.\<close>

fun for_op :: "('b \<Rightarrow> ('s, unit) op) \<Rightarrow> 'b list \<Rightarrow> ('s, unit) op" where
  "for_op f [] = succeed ()"
| "for_op f (x # xs) = chk (f x) (\<lambda>_. for_op f xs)"

lemma succeed_apply [simp]: "succeed a s = (Some a, s)"
  by (simp add: succeed_def)

lemma failure_apply [simp]: "failure s = (None, s)"
  by (simp add: failure_def)

lemma require_apply [simp]: "require b s = (if b then Some () else None, s)"
  by (simp add: require_def)

lemma chk_Some [simp]: "m s = (Some a, s') \<Longrightarrow> chk m f s = f a s'"
  by (simp add: chk_def)

lemma chk_None [simp]: "m s = (None, s') \<Longrightarrow> chk m f s = (None, s')"
  by (simp add: chk_def)

lemma chk_succeed [simp]: "chk (succeed a) f = f a"
  by (rule ext) (simp add: chk_def)

lemma chk_assoc: "chk (chk m f) g = chk m (\<lambda>a. chk (f a) g)"
  by (rule ext) (simp add: chk_def split: prod.splits option.splits)

lemma chk_eq_Some_iff:
  "chk m f s = (Some b, s'') \<longleftrightarrow> (\<exists>a s'. m s = (Some a, s') \<and> f a s' = (Some b, s''))"
  by (auto simp: chk_def split: prod.splits option.splits)

lemma chk_SomeE:
  assumes "chk m f s = (Some b, s'')"
  obtains a s' where "m s = (Some a, s')" "f a s' = (Some b, s'')"
  using assms by (auto simp: chk_eq_Some_iff)

lemma chk_cong [fundef_cong]:
  assumes "m s = m' s'" and "\<And>a t. m' s' = (Some a, t) \<Longrightarrow> f a t = f' a t" and "s = s'"
  shows "chk m f s = chk m' f' s'"
  using assms by (auto simp: chk_def split: prod.splits option.splits)

section \<open>The allocator\<close>

text \<open>
  \<open>OPENSSL_malloc\<close> and \<open>OPENSSL_realloc\<close> end in the \<open>malloc\<close> of the C library, which may return
  NULL and whose blocks hold unspecified bytes. Both choices are a parameter: \<open>alloc_ok n\<close> says
  whether a request for \<open>n\<close> bytes succeeds, \<open>fresh n\<close> is what a new block of \<open>n\<close> bytes holds.
\<close>

record allocator =
  alloc_ok :: "size_t \<Rightarrow> bool"
  junk :: "nat \<Rightarrow> u8"

definition fresh :: "allocator \<Rightarrow> nat \<Rightarrow> bytes" where
  "fresh A n = map (junk A) [0..<n]"

lemma length_fresh [simp]: "length (fresh A n) = n"
  by (simp add: fresh_def)

text \<open>An allocator that never fails, for the witnesses.\<close>

definition malloc_total :: allocator where
  "malloc_total = \<lparr>alloc_ok = (\<lambda>_. True), junk = (\<lambda>_. 0)\<rparr>"

lemma malloc_total_simps [simp]:
  "alloc_ok malloc_total n" "junk malloc_total i = 0"
  by (simp_all add: malloc_total_def)

section \<open>Lists\<close>

lemma take_eq_append_drop:
  "n \<le> length xs \<Longrightarrow> take n xs = ys \<Longrightarrow> xs = ys @ drop n xs"
  by auto

lemma fold_upt_take:
  "n \<le> length xs \<Longrightarrow> fold (\<lambda>i. f (xs ! i)) [0..<n] a = fold f (take n xs) a"
proof (induction n)
  case 0
  then show ?case by simp
next
  case (Suc n)
  then have "n < length xs" by simp
  then have "take (Suc n) xs = take n xs @ [xs ! n]"
    by (simp add: take_Suc_conv_app_nth)
  with Suc show ?case by simp
qed

section \<open>Words\<close>

lemma unat_lt_size_max: "unat (x :: size_t) < 2 ^ 64"
  using unsigned_less [of x] by simp

lemma unat_of_nat_size: "n < 2 ^ 64 \<Longrightarrow> unat (of_nat n :: size_t) = n"
  by (simp add: unat_of_nat)

lemma unat_sub_le: "(n::'a::len word) \<le> m \<Longrightarrow> unat (m - n) = unat m - unat n"
  by (rule unat_sub)

lemma size_less_iff: "(a::size_t) < b \<longleftrightarrow> unat a < unat b"
  by (rule word_less_nat_alt)

lemma size_le_iff: "(a::size_t) \<le> b \<longleftrightarrow> unat a \<le> unat b"
  by (rule word_le_nat_alt)

lemma unat_ucast_up:
  assumes "LENGTH('a) \<le> LENGTH('b)"
  shows "unat (ucast (x :: 'a::len word) :: 'b::len word) = unat x"
proof -
  have "unat x < 2 ^ LENGTH('a)" by (rule unsigned_less)
  also have "(2::nat) ^ LENGTH('a) \<le> 2 ^ LENGTH('b)" using assms by (intro power_increasing) auto
  finally show ?thesis by (simp add: unsigned_ucast_eq take_bit_nat_eq_self)
qed

lemma u8_cases_lt: "unat (b :: u8) < 256"
  using unsigned_less [of b] by simp

text \<open>Or of a multiple of a power of two and a smaller number.\<close>

lemma nat_or_low: "n < 2 ^ k \<Longrightarrow> (2 ^ k * c OR n) = 2 ^ k * c + (n :: nat)"
proof -
  assume "n < 2 ^ k"
  then have "take_bit k n = n" by (rule take_bit_nat_eq_self)
  then have n: "bit n i \<Longrightarrow> i < k" for i by (metis bit_take_bit_iff)
  have "push_bit k c AND n = 0"
  proof (rule bit_eqI)
    fix i
    show "bit (push_bit k c AND n) i = bit 0 i"
      using n [of i] by (auto simp: bit_and_iff bit_push_bit_iff)
  qed
  then show ?thesis by (simp add: disjunctive_add_eq_or push_bit_eq_mult mult.commute)
qed

text \<open>Equality of words of at most 32 bits, bit by bit with every index a numeral.\<close>

lemma bit_u8_beyond [simp]: "8 \<le> n \<Longrightarrow> \<not> bit (b :: u8) n"
  using bit_imp_le_length [of b n] by auto

lemma upt_32: "[0..<32] =
   [0, 1, 2, 3, 4, 5, 6, 7, 8, 9, 10, 11, 12, 13, 14, 15,
    16, 17, 18, 19, 20, 21, 22, 23, 24, 25, 26, 27, 28, 29, 30, 31]"
  by code_simp

lemma all_lt_32: "(\<forall>n < (32::nat). P n) \<longleftrightarrow> (\<forall>n \<in> set
   [0, 1, 2, 3, 4, 5, 6, 7, 8, 9, 10, 11, 12, 13, 14, 15,
    16, 17, 18, 19, 20, 21, 22, 23, 24, 25, 26, 27, 28, 29, 30, 31]. P n)"
  unfolding upt_32 [symmetric] by auto

text \<open>Facts about the masks of one byte, by comparison of its eight bits.\<close>

lemma u8_eqI:
  fixes a b :: u8
  assumes "\<And>n. n \<in> {0, 1, 2, 3, 4, 5, 6, 7} \<Longrightarrow> bit a n = bit b n"
  shows "a = b"
proof (rule bit_word_eqI)
  fix n
  assume "n < LENGTH(8)"
  then have "n \<in> {0, 1, 2, 3, 4, 5, 6, 7}" by auto
  then show "bit a n = bit b n" by (rule assms)
qed

lemma unat_take_bit: "unat (take_bit n (w :: 'a::len word)) = unat w mod 2 ^ n"
  by (simp only: unsigned_take_bit_eq) (simp only: take_bit_eq_mod)

lemma unat_drop_bit: "unat (drop_bit n (w :: 'a::len word)) = unat w div 2 ^ n"
  by (simp only: unat_drop_bit_eq) (simp only: drop_bit_eq_div)

lemma unat_and_7f: "unat (b AND 0x7f :: u8) = unat b mod 128"
proof -
  have "b AND 0x7f = take_bit 7 b" by (rule u8_eqI) (auto simp: bit_simps)
  then show ?thesis by (simp add: unat_take_bit)
qed

lemma unat_and_1f: "unat (b AND 0x1f :: u8) = unat b mod 32"
proof -
  have "b AND 0x1f = take_bit 5 b" by (rule u8_eqI) (auto simp: bit_simps)
  then show ?thesis by (simp add: unat_take_bit)
qed

lemma bit_7_iff: "bit (b :: u8) 7 \<longleftrightarrow> 128 \<le> unat b"
proof -
  have "bit b 7 \<longleftrightarrow> bit (unat b) 7"
    by (simp only: bit_unsigned_iff) auto
  then have "bit b 7 \<longleftrightarrow> odd (unat b div 128)"
    by (simp only: bit_iff_odd) simp
  moreover have "unat b div 128 = (if 128 \<le> unat b then 1 else 0)"
    using u8_cases_lt [of b] by auto
  ultimately show ?thesis by simp
qed

lemma and_80_eq_0: "b AND 0x80 = (0 :: u8) \<longleftrightarrow> unat b < 128"
proof -
  have "b AND 0x80 = 0 \<longleftrightarrow> \<not> bit b 7"
  proof
    assume "b AND 0x80 = 0"
    then have "\<not> bit (b AND 0x80) 7" by simp
    then show "\<not> bit b 7" by (simp add: bit_simps)
  next
    assume "\<not> bit b 7"
    then show "b AND 0x80 = 0" by (intro u8_eqI) (auto simp: bit_simps)
  qed
  then show ?thesis by (simp add: bit_7_iff not_le)
qed

lemma unat_or_80: "unat (b OR 0x80 :: u8) = (if unat b < 128 then unat b + 128 else unat b)"
proof (cases "unat b < 128")
  case True
  then have "b OR 0x80 = b + 0x80"
    by (intro disjunctive_add_eq_or [symmetric]) (simp add: and_80_eq_0)
  with True show ?thesis by (simp add: unat_word_ariths)
next
  case False
  then have "b OR 0x80 = b"
    by (intro u8_eqI) (auto simp: bit_simps bit_7_iff)
  with False show ?thesis by simp
qed

lemma unat_and_e0: "unat (b AND 0xe0 :: u8) = unat b div 32 * 32"
proof -
  have "b AND 0xe0 = push_bit 5 (drop_bit 5 b)"
    by (rule u8_eqI) (auto simp: bit_simps)
  then have "unat (b AND 0xe0) = (unat b div 32 * 32) mod 256"
    by (simp add: push_bit_eq_mult unat_word_ariths unat_drop_bit)
  also have "\<dots> = unat b div 32 * 32"
    using u8_cases_lt [of b] by (intro mod_less) (meson div_times_less_eq_dividend le_less_trans)
  finally show ?thesis .
qed

lemmas u8_masks = unat_and_7f and_80_eq_0 unat_or_80 unat_and_1f unat_and_e0

end
