(* ===== verification/Mem.thy ===== *)
theory Mem
  imports Prelude
begin

text \<open>
  \<open>crypto/mem.c\<close>: the allocator wrappers and the string helpers of BoringSSL. A pointer to bytes is
  the list of the bytes from it to the end of its block; \<open>NULL\<close> is \<open>None\<close>. A \<open>char *\<close> string is such
  a list with a zero byte in it.
\<close>

section \<open>Allocation\<close>

definition OPENSSL_MALLOC_PREFIX :: size_t where
  "OPENSSL_MALLOC_PREFIX = 8"

text \<open>
  The block \<open>OPENSSL_malloc\<close> hands out: \<open>malloc\<close> is asked for \<open>sz + 8\<close> bytes, a \<open>size_t\<close> sum that
  may wrap, and the caller gets what follows the 8-byte header.
\<close>

definition OPENSSL_malloc :: "allocator \<Rightarrow> size_t \<Rightarrow> bytes option" where
  "OPENSSL_malloc A sz =
     (let n = sz + OPENSSL_MALLOC_PREFIX in
      if \<not> alloc_ok A n then None else Some (fresh A (unat n - unat OPENSSL_MALLOC_PREFIX)))"

definition OPENSSL_realloc :: "allocator \<Rightarrow> bytes option \<Rightarrow> size_t \<Rightarrow> bytes option" where
  "OPENSSL_realloc A orig new_size =
     (case orig of
        None \<Rightarrow> OPENSSL_malloc A new_size
      | Some old \<Rightarrow>
          (case OPENSSL_malloc A new_size of
             None \<Rightarrow> None
           | Some ret \<Rightarrow>
               (let to_copy = min (length old) (unat new_size)
                in Some (take to_copy old @ drop to_copy ret))))"

definition OPENSSL_memdup :: "allocator \<Rightarrow> bytes \<Rightarrow> size_t \<Rightarrow> bytes option" where
  "OPENSSL_memdup A data sz =
     (if sz = 0 then None
      else case OPENSSL_malloc A sz of
             None \<Rightarrow> None
           | Some ret \<Rightarrow> Some (take (unat sz) data @ drop (unat sz) ret))"

section \<open>Comparison and hashing\<close>

definition CRYPTO_memcmp :: "bytes \<Rightarrow> bytes \<Rightarrow> size_t \<Rightarrow> int" where
  "CRYPTO_memcmp a b len = uint (fold (\<lambda>i x. x OR (a ! i XOR b ! i)) [0..<unat len] (0 :: u8))"

definition OPENSSL_hash32 :: "bytes \<Rightarrow> size_t \<Rightarrow> u32" where
  "OPENSSL_hash32 ptr len =
     fold (\<lambda>i h. (h XOR ucast (ptr ! i)) * 16777619) [0..<unat len] 2166136261"

section \<open>C strings\<close>

definition strlen :: "bytes \<Rightarrow> nat" where
  "strlen s = length (takeWhile (\<lambda>c. c \<noteq> 0) s)"

definition c_string :: "bytes \<Rightarrow> bool" where
  "c_string s \<longleftrightarrow> 0 \<in> set s"

fun strnlen_loop :: "bytes \<Rightarrow> nat \<Rightarrow> nat \<Rightarrow> nat" where
  "strnlen_loop s i 0 = i"
| "strnlen_loop s i (Suc k) = (if s ! i = 0 then i else strnlen_loop s (Suc i) k)"

definition OPENSSL_strnlen :: "bytes \<Rightarrow> size_t \<Rightarrow> size_t" where
  "OPENSSL_strnlen s len = of_nat (strnlen_loop s 0 (unat len))"

definition OPENSSL_strdup :: "allocator \<Rightarrow> bytes option \<Rightarrow> bytes option" where
  "OPENSSL_strdup A s =
     (case s of
        None \<Rightarrow> None
      | Some str \<Rightarrow>
          (let len = of_nat (strlen str) + 1 in
           case OPENSSL_malloc A len of
             None \<Rightarrow> None
           | Some ret \<Rightarrow> Some (take (unat len) str @ drop (unat len) ret)))"

definition OPENSSL_strndup :: "allocator \<Rightarrow> bytes option \<Rightarrow> size_t \<Rightarrow> bytes option" where
  "OPENSSL_strndup A s sz0 =
     (case s of
        None \<Rightarrow> None
      | Some str \<Rightarrow>
          (let sz = OPENSSL_strnlen str sz0;
               alloc_size = sz + 1 in
           if alloc_size < sz then None
           else case OPENSSL_malloc A alloc_size of
                  None \<Rightarrow> None
                | Some ret \<Rightarrow> Some ((take (unat sz) str @ drop (unat sz) ret)[unat sz := 0])))"

text \<open>A \<open>char\<close> is signed on the targets, and promoted to \<open>int\<close> when compared.\<close>

definition OPENSSL_tolower :: "int \<Rightarrow> int" where
  "OPENSSL_tolower c = (if 65 \<le> c \<and> c \<le> 90 then c + (97 - 65) else c)"

text \<open>
  The loops read \<open>a[i]\<close> and \<open>b[i]\<close> until a difference or a zero byte; both arguments are strings, so
  the equations for an exhausted list are not reached (\<open>strcasecmp_zero_iff\<close> below).
\<close>

fun OPENSSL_strcasecmp :: "bytes \<Rightarrow> bytes \<Rightarrow> int" where
  "OPENSSL_strcasecmp (a # as) (b # bs) =
     (let aa = OPENSSL_tolower (sint a); bb = OPENSSL_tolower (sint b) in
      if aa < bb then -1
      else if aa > bb then 1
      else if aa = 0 then 0
      else OPENSSL_strcasecmp as bs)"
| "OPENSSL_strcasecmp _ _ = 0"

fun OPENSSL_strncasecmp :: "bytes \<Rightarrow> bytes \<Rightarrow> nat \<Rightarrow> int" where
  "OPENSSL_strncasecmp (a # as) (b # bs) (Suc n) =
     (let aa = OPENSSL_tolower (sint a); bb = OPENSSL_tolower (sint b) in
      if aa < bb then -1
      else if aa > bb then 1
      else if aa = 0 then 0
      else OPENSSL_strncasecmp as bs n)"
| "OPENSSL_strncasecmp _ _ _ = 0"

text \<open>
  \<open>*dst++ = *src++\<close> steps both lists; the result is what the destination block holds afterwards and
  the returned length.
\<close>

fun OPENSSL_strlcpy :: "bytes \<Rightarrow> bytes \<Rightarrow> nat \<Rightarrow> bytes \<times> nat" where
  "OPENSSL_strlcpy dst src dst_size =
     (if dst_size > 1 \<and> src \<noteq> [] \<and> hd src \<noteq> 0 then
        (case OPENSSL_strlcpy (tl dst) (tl src) (dst_size - 1) of
           (dst', l) \<Rightarrow> (hd src # dst', Suc l))
      else if dst_size \<noteq> 0 then (0 # tl dst, strlen src)
      else (dst, strlen src))"

declare OPENSSL_strlcpy.simps [simp del]

fun OPENSSL_strlcat :: "bytes \<Rightarrow> bytes \<Rightarrow> nat \<Rightarrow> bytes \<times> nat" where
  "OPENSSL_strlcat (d # dst) src (Suc n) =
     (if d \<noteq> 0 then (case OPENSSL_strlcat dst src n of (dst', l) \<Rightarrow> (d # dst', Suc l))
      else OPENSSL_strlcpy (d # dst) src (Suc n))"
| "OPENSSL_strlcat dst src n = OPENSSL_strlcpy dst src n"

section \<open>Lemmas\<close>

lemma malloc_length:
  assumes "OPENSSL_malloc A n = Some b" and "unat n < 2 ^ 64 - 8"
  shows "length b = unat n"
proof -
  have "unat (n + 8) = unat n + 8"
    using assms(2) by (subst unat_add_lem [THEN iffD1]) auto
  with assms(1) show ?thesis
    by (auto simp: OPENSSL_malloc_def OPENSSL_MALLOC_PREFIX_def Let_def split: if_splits)
qed

lemma malloc_Some:
  "alloc_ok A (n + 8) \<Longrightarrow> OPENSSL_malloc A n = Some (fresh A (unat (n + 8) - 8))"
  by (simp add: OPENSSL_malloc_def OPENSSL_MALLOC_PREFIX_def)

lemma malloc_total [simp]: "OPENSSL_malloc malloc_total n \<noteq> None"
  by (simp add: OPENSSL_malloc_def Let_def)

lemma realloc_Some:
  assumes "OPENSSL_realloc A (Some old) n = Some b" and "unat n < 2 ^ 64 - 8"
  shows "length b = unat n" and "take (min (length old) (unat n)) b = take (min (length old) (unat n)) old"
proof -
  obtain r where r: "OPENSSL_malloc A n = Some r"
    and b: "b = take (min (length old) (unat n)) old @ drop (min (length old) (unat n)) r"
    using assms(1) by (auto simp: OPENSSL_realloc_def Let_def split: option.splits)
  from malloc_length [OF r assms(2)] show "length b = unat n" by (auto simp: b)
  show "take (min (length old) (unat n)) b = take (min (length old) (unat n)) old"
    by (simp add: b)
qed

lemma memdup_Some:
  assumes "OPENSSL_memdup A data n = Some b" and "unat n < 2 ^ 64 - 8" and "unat n \<le> length data"
  shows "b = take (unat n) data"
proof -
  obtain r where "OPENSSL_malloc A n = Some r" and "b = take (unat n) data @ drop (unat n) r"
    using assms(1) by (auto simp: OPENSSL_memdup_def split: if_splits option.splits)
  with malloc_length [of A n r] assms(2) show ?thesis by simp
qed

lemma word_xor_eq_0: "(a :: u8) XOR b = 0 \<longleftrightarrow> a = b"
proof
  assume "a XOR b = 0"
  then have "(a XOR b) XOR b = b" by simp
  then show "a = b" by (simp add: xor.assoc)
qed simp

lemma memcmp_fold_eq_0:
  "fold (\<lambda>i x. x OR (a ! i XOR b ! i)) is x = 0 \<longleftrightarrow> x = 0 \<and> (\<forall>i \<in> set is. a ! i = (b ! i :: u8))"
  by (induction "is" arbitrary: x) (auto simp: or_eq_0_iff word_xor_eq_0)

lemma CRYPTO_memcmp_eq_0_iff:
  assumes "unat n \<le> length a" and "unat n \<le> length b"
  shows "CRYPTO_memcmp a b n = 0 \<longleftrightarrow> take (unat n) a = take (unat n) b"
proof -
  have "CRYPTO_memcmp a b n = 0 \<longleftrightarrow> (\<forall>i < unat n. a ! i = b ! i)"
    by (auto simp: CRYPTO_memcmp_def memcmp_fold_eq_0 unsigned_eq_0_iff)
  with assms show ?thesis by (auto simp: list_eq_iff_nth_eq)
qed

lemma strnlen_loop_eq:
  "strnlen_loop s i k = i + length (takeWhile (\<lambda>j. s ! j \<noteq> 0) [i..<i + k])"
proof (induction s i k rule: strnlen_loop.induct)
  case (2 s i k)
  have "[i..<i + Suc k] = i # [Suc i..<Suc i + k]"
    using upt_conv_Cons [of i "i + Suc k"] by simp
  with 2 show ?case by (simp del: upt_Suc)
qed simp

lemma strnlen_loop_take:
  assumes "k \<le> length s"
  shows "strnlen_loop s 0 k = length (takeWhile (\<lambda>c. c \<noteq> 0) (take k s))"
proof -
  have "take k s = map ((!) s) [0..<k]"
    using assms by (auto simp: list_eq_iff_nth_eq)
  then show ?thesis by (simp add: strnlen_loop_eq takeWhile_map comp_def)
qed

lemma OPENSSL_strnlen_eq:
  assumes "unat n \<le> length s"
  shows "unat (OPENSSL_strnlen s n) = strlen (take (unat n) s)"
proof -
  have "strlen (take (unat n) s) \<le> unat n"
    using length_takeWhile_le [of "\<lambda>c. c \<noteq> 0" "take (unat n) s"] by (simp add: strlen_def)
  then have "strlen (take (unat n) s) < 2 ^ 64"
    using unat_lt_size_max [of n] by simp
  then show ?thesis
    using assms by (simp add: OPENSSL_strnlen_def strnlen_loop_take unat_of_nat_size flip: strlen_def)
qed

lemma OPENSSL_strlcpy_eq:
  assumes "n \<le> length dst"
  shows "OPENSSL_strlcpy dst src n =
    (if n = 0 then dst
     else (let k = min (strlen src) (n - 1) in take k src @ 0 # drop (Suc k) dst), strlen src)"
  using assms
proof (induction dst src n rule: OPENSSL_strlcpy.induct)
  case (1 dst src n)
  show ?case
  proof (cases "n > 1 \<and> src \<noteq> [] \<and> hd src \<noteq> 0")
    case True
    then obtain c cs d ds m where eqs: "src = c # cs" "dst = d # ds" "n = Suc m" "0 < m" "c \<noteq> 0"
      using "1.prems" by (cases src; cases dst; cases n) auto
    have "OPENSSL_strlcpy (tl dst) (tl src) (n - 1) =
        (let k = min (strlen cs) (m - 1) in take k cs @ 0 # drop (Suc k) ds, strlen cs)"
      using "1.IH" [OF True] "1.prems" eqs by simp
    moreover have "min (Suc (strlen cs)) m = Suc (min (strlen cs) (m - 1))"
      using eqs by simp
    ultimately show ?thesis
      using eqs True by (subst OPENSSL_strlcpy.simps) (simp add: strlen_def Let_def)
  next
    case False
    then have z: "n \<noteq> 0 \<Longrightarrow> min (strlen src) (n - 1) = 0"
      by (cases src) (auto simp: strlen_def)
    have "n \<noteq> 0 \<Longrightarrow> drop (Suc 0) dst = tl dst" by (simp add: drop_Suc)
    with z False show ?thesis
      by (subst OPENSSL_strlcpy.simps) (auto simp: Let_def)
  qed
qed

lemma strcasecmp_zero_iff:
  assumes "c_string a" and "c_string b"
  shows "OPENSSL_strcasecmp a b = 0 \<longleftrightarrow>
    map (OPENSSL_tolower \<circ> sint) (takeWhile (\<lambda>c. c \<noteq> 0) a) =
    map (OPENSSL_tolower \<circ> sint) (takeWhile (\<lambda>c. c \<noteq> 0) b)"
  using assms
proof (induction a b rule: OPENSSL_strcasecmp.induct)
  case (1 a as b bs)
  have low: "OPENSSL_tolower (sint c) = 0 \<longleftrightarrow> c = 0" for c :: u8
    by (auto simp: OPENSSL_tolower_def signed_eq_0_iff)
  show ?case
  proof (cases "OPENSSL_tolower (sint a) = OPENSSL_tolower (sint b)")
    case False
    then have "a \<noteq> b" by auto
    with False low show ?thesis by (auto simp: Let_def)
  next
    case True
    with low have "a = 0 \<longleftrightarrow> b = 0" by metis
    with True "1.IH" [OF refl refl] "1.prems" low show ?thesis by (auto simp: Let_def c_string_def)
  qed
qed (simp_all add: c_string_def)

end
