(* ===== verification/Parsing.thy ===== *)
theory Parsing
  imports Prelude
begin

text \<open>
  The abstract side of the readers: parsers over byte lists, encodings with their laws (a locale,
  interpreted by every component that defines a wire encoding), and the relation that says a
  C reader, working on a pointer and a length, refines such a parser.
\<close>

section \<open>Parsers over byte lists\<close>

type_synonym 'a parser = "bytes \<Rightarrow> ('a \<times> bytes) option"

definition p_return :: "'a \<Rightarrow> 'a parser" where
  "p_return a = (\<lambda>xs. Some (a, xs))"

definition p_fail :: "'a parser" where
  "p_fail = (\<lambda>xs. None)"

definition p_bind :: "'a parser \<Rightarrow> ('a \<Rightarrow> 'b parser) \<Rightarrow> 'b parser" where
  "p_bind p f = (\<lambda>xs. case p xs of None \<Rightarrow> None | Some (a, ys) \<Rightarrow> f a ys)"

definition p_guard :: "bool \<Rightarrow> unit parser" where
  "p_guard b = (if b then p_return () else p_fail)"

definition p_take :: "nat \<Rightarrow> bytes parser" where
  "p_take n = (\<lambda>xs. if length xs < n then None else Some (take n xs, drop n xs))"

lemma p_return_apply [simp]: "p_return a xs = Some (a, xs)"
  by (simp add: p_return_def)

lemma p_fail_apply [simp]: "p_fail xs = None"
  by (simp add: p_fail_def)

lemma p_guard_apply [simp]: "p_guard b xs = (if b then Some ((), xs) else None)"
  by (simp add: p_guard_def)

lemma p_bind_Some [simp]: "p xs = Some (a, ys) \<Longrightarrow> p_bind p f xs = f a ys"
  by (simp add: p_bind_def)

lemma p_bind_None [simp]: "p xs = None \<Longrightarrow> p_bind p f xs = None"
  by (simp add: p_bind_def)

lemma p_bind_eq_Some_iff:
  "p_bind p f xs = Some r \<longleftrightarrow> (\<exists>a ys. p xs = Some (a, ys) \<and> f a ys = Some r)"
  by (auto simp: p_bind_def split: option.splits prod.splits)

lemma p_take_eq_Some_iff:
  "p_take n xs = Some (ys, zs) \<longleftrightarrow> xs = ys @ zs \<and> length ys = n"
  by (auto simp: p_take_def)

lemma p_take_append [simp]: "length xs = n \<Longrightarrow> p_take n (xs @ ys) = Some (xs, ys)"
  by (simp add: p_take_def)

section \<open>Big-endian numbers\<close>

definition be_nat :: "bytes \<Rightarrow> nat" where
  "be_nat bs = foldl (\<lambda>v b. 256 * v + unat b) 0 bs"

primrec be_bytes :: "nat \<Rightarrow> nat \<Rightarrow> bytes" where
  "be_bytes 0 n = []"
| "be_bytes (Suc k) n = be_bytes k (n div 256) @ [of_nat n]"

lemma length_be_bytes [simp]: "length (be_bytes k n) = k"
  by (induction k arbitrary: n) auto

lemma be_nat_snoc [simp]: "be_nat (bs @ [b]) = 256 * be_nat bs + unat b"
  by (simp add: be_nat_def)

lemma be_nat_Nil [simp]: "be_nat [] = 0"
  by (simp add: be_nat_def)

lemma be_nat_lt: "be_nat bs < 256 ^ length bs"
proof (induction bs rule: rev_induct)
  case (snoc b bs)
  then have "be_nat bs + 1 \<le> 256 ^ length bs" by simp
  then have "256 * be_nat bs + 256 \<le> 256 * 256 ^ length bs" by linarith
  with u8_cases_lt [of b] show ?case by simp
qed simp

lemma unat_u8_of_nat [simp]: "unat (of_nat n :: u8) = n mod 256"
  by (simp add: unat_of_nat)

lemma be_nat_be_bytes: "be_nat (be_bytes k n) = n mod 256 ^ k"
proof (induction k arbitrary: n)
  case (Suc k)
  have "n mod (256 * 256 ^ k) = 256 * (n div 256 mod 256 ^ k) + n mod 256"
    by (rule mod_mult2_eq)
  with Suc show ?case by simp
qed simp

lemma be_nat_be_bytes_id: "n < 256 ^ k \<Longrightarrow> be_nat (be_bytes k n) = n"
  by (simp add: be_nat_be_bytes)

lemma be_bytes_be_nat: "be_bytes (length bs) (be_nat bs) = bs"
proof (induction bs rule: rev_induct)
  case (snoc b bs)
  have "(256 * be_nat bs + unat b) div 256 = be_nat bs"
    using u8_cases_lt [of b] by simp
  moreover have "(256 :: u8) = 0" by simp
  then have "(of_nat (256 * be_nat bs + unat b) :: u8) = b"
    by (simp only: of_nat_add of_nat_mult of_nat_numeral mult_zero_left add_0) simp
  ultimately show ?case using snoc by (simp del: of_nat_add of_nat_mult)
qed simp

lemma be_nat_append: "be_nat (xs @ ys) = be_nat xs * 256 ^ length ys + be_nat ys"
  by (induction ys rule: rev_induct) (simp_all add: algebra_simps flip: append_assoc)

lemma of_nat_be_nat:
  "fold (\<lambda>b r. push_bit 8 r OR ucast b) bs 0 = (of_nat (be_nat bs) :: 'a::len word)"
proof (induction bs rule: rev_induct)
  case (snoc b bs)
  have "push_bit 8 (of_nat (be_nat bs)) AND ucast b = (0 :: 'a word)"
    by (rule bit_word_eqI) (auto simp: bit_simps dest: bit_imp_le_length)
  then have "push_bit 8 (of_nat (be_nat bs)) OR ucast b = push_bit 8 (of_nat (be_nat bs)) + (ucast b :: 'a word)"
    by (rule disjunctive_add_eq_or [symmetric])
  also have "\<dots> = of_nat (be_nat (bs @ [b]))"
    by (simp add: push_bit_eq_mult mult.commute)
  finally show ?case using snoc by simp
qed simp

definition p_be :: "nat \<Rightarrow> nat parser" where
  "p_be k = p_bind (p_take k) (\<lambda>bs. p_return (be_nat bs))"

lemma p_be_eq_Some_iff: "p_be k xs = Some (n, ys) \<longleftrightarrow> n < 256 ^ k \<and> xs = be_bytes k n @ ys"
proof
  assume "p_be k xs = Some (n, ys)"
  then obtain bs where "xs = bs @ ys" "length bs = k" "n = be_nat bs"
    by (auto simp: p_be_def p_bind_eq_Some_iff p_take_eq_Some_iff)
  then show "n < 256 ^ k \<and> xs = be_bytes k n @ ys"
    using be_nat_lt [of bs] be_bytes_be_nat [of bs] by metis
next
  assume "n < 256 ^ k \<and> xs = be_bytes k n @ ys"
  then show "p_be k xs = Some (n, ys)"
    by (simp add: p_be_def be_nat_be_bytes_id p_bind_Some [where p = "p_take k", OF p_take_append])
qed

section \<open>Encodings and their laws\<close>

text \<open>
  An encoding of the values that satisfy \<open>ok\<close>, with its parser: the parser inverts the encoder in
  front of any input, and accepts nothing else (so the encoding of a value is unique).
\<close>

locale codec =
  fixes enc :: "'a \<Rightarrow> bytes" and dec :: "'a parser" and ok :: "'a \<Rightarrow> bool"
  assumes dec_enc: "ok a \<Longrightarrow> dec (enc a @ rest) = Some (a, rest)"
    and enc_dec: "dec xs = Some (a, rest) \<Longrightarrow> ok a \<and> xs = enc a @ rest"
begin

lemma dec_iff: "dec xs = Some (a, rest) \<longleftrightarrow> ok a \<and> xs = enc a @ rest"
  using dec_enc enc_dec by blast

lemma enc_prefix_free:
  assumes "ok a" and "ok b" and "enc a @ xs = enc b @ ys"
  shows "a = b" and "xs = ys"
proof -
  have "Some (a, xs) = Some (b, ys)"
    using dec_enc [OF assms(1), of xs] dec_enc [OF assms(2), of ys] unfolding assms(3) by simp
  then show "a = b" and "xs = ys" by simp_all
qed

lemma enc_inj: "ok a \<Longrightarrow> ok b \<Longrightarrow> enc a = enc b \<Longrightarrow> a = b"
  using enc_prefix_free(1) [of a b "[]" "[]"] by simp

lemma dec_consumes: "dec xs = Some (a, rest) \<Longrightarrow> length xs = length (enc a) + length rest"
  using enc_dec [of xs a rest] by simp

lemma dec_None_iff: "dec xs = None \<longleftrightarrow> (\<nexists>a rest. ok a \<and> xs = enc a @ rest)"
  using dec_iff by (metis not_None_eq surj_pair)

end

text \<open>When no encoding is empty, a sequence of encodings parses back, element by element.\<close>

fun p_many :: "'a parser \<Rightarrow> nat \<Rightarrow> bytes \<Rightarrow> 'a list option" where
  "p_many dec fuel [] = Some []"
| "p_many dec 0 (x # xs) = None"
| "p_many dec (Suc fuel) (x # xs) =
     (case dec (x # xs) of None \<Rightarrow> None
      | Some (a, rest) \<Rightarrow> map_option (Cons a) (p_many dec fuel rest))"

locale nonempty_codec = codec +
  assumes enc_nonempty: "ok a \<Longrightarrow> enc a \<noteq> []"
begin

lemma dec_shorter: "dec xs = Some (a, rest) \<Longrightarrow> length rest < length xs"
  using enc_dec [of xs a rest] enc_nonempty [of a] by auto

lemma dec_Nil: "dec [] = None"
  using dec_shorter by (metis length_0_conv list.size(3) not_None_eq not_less_zero surj_pair)

lemma p_many_enc:
  "\<forall>a \<in> set as. ok a \<Longrightarrow> length as \<le> fuel \<Longrightarrow> p_many dec fuel (concat (map enc as)) = Some as"
proof (induction as arbitrary: fuel)
  case (Cons a as)
  then obtain k where "fuel = Suc k" by (cases fuel) auto
  moreover have "dec (enc a @ concat (map enc as)) = Some (a, concat (map enc as))"
    using Cons.prems by (simp add: dec_enc)
  moreover obtain x xs where "enc a = x # xs"
    using Cons.prems enc_nonempty [of a] by (cases "enc a") auto
  ultimately show ?case using Cons by simp
qed simp

lemma p_many_dec:
  "p_many dec fuel xs = Some as \<Longrightarrow> xs = concat (map enc as) \<and> (\<forall>a \<in> set as. ok a)"
proof (induction fuel arbitrary: xs as)
  case 0
  then show ?case by (cases xs) auto
next
  case (Suc fuel)
  show ?case
  proof (cases xs)
    case Nil
    with Suc.prems show ?thesis by simp
  next
    case (Cons x ys)
    with Suc.prems obtain a rest bs where d: "dec xs = Some (a, rest)"
      and bs: "p_many dec fuel rest = Some bs" "as = a # bs"
      by (auto split: option.splits prod.splits)
    from enc_dec [OF d] Suc.IH [OF bs(1)] bs(2) show ?thesis by simp
  qed
qed

end

section \<open>Refinement of a parser by a reader\<close>

text \<open>
  \<open>refines rep R m p\<close>: on every state \<open>s\<close> that represents the unread input \<open>xs\<close>, the reader \<open>m\<close>
  fails exactly where the parser \<open>p\<close> fails, and otherwise returns an \<open>R\<close>-related value and leaves a
  state that represents the input the parser leaves. The result of a reader is then a function of
  the represented input alone: no byte outside it is ever looked at.
\<close>

definition refines ::
  "('s \<Rightarrow> bytes \<Rightarrow> bool) \<Rightarrow> ('a \<Rightarrow> 'b \<Rightarrow> bool) \<Rightarrow> ('s, 'a) op \<Rightarrow> 'b parser \<Rightarrow> bool" where
  "refines rep R m p \<longleftrightarrow>
     (\<forall>s xs. rep s xs \<longrightarrow>
        (case p xs of
           None \<Rightarrow> fst (m s) = None
         | Some (b, ys) \<Rightarrow> \<exists>a s'. m s = (Some a, s') \<and> R a b \<and> rep s' ys))"

lemma refinesI:
  assumes "\<And>s xs. rep s xs \<Longrightarrow> p xs = None \<Longrightarrow> fst (m s) = None"
    and "\<And>s xs b ys. rep s xs \<Longrightarrow> p xs = Some (b, ys) \<Longrightarrow> \<exists>a s'. m s = (Some a, s') \<and> R a b \<and> rep s' ys"
  shows "refines rep R m p"
  using assms by (fastforce simp: refines_def split: option.splits)

lemma refines_SomeE:
  assumes "refines rep R m p" and "rep s xs" and "p xs = Some (b, ys)"
  obtains a s' where "m s = (Some a, s')" "R a b" "rep s' ys"
proof -
  have "case p xs of None \<Rightarrow> fst (m s) = None
      | Some (b, ys) \<Rightarrow> \<exists>a s'. m s = (Some a, s') \<and> R a b \<and> rep s' ys"
    using assms(1,2) by (simp add: refines_def)
  with assms(3) that show thesis by auto
qed

lemma refines_None:
  assumes "refines rep R m p" and "rep s xs" and "p xs = None"
  shows "fst (m s) = None"
proof -
  have "case p xs of None \<Rightarrow> fst (m s) = None
      | Some (b, ys) \<Rightarrow> \<exists>a s'. m s = (Some a, s') \<and> R a b \<and> rep s' ys"
    using assms(1,2) by (simp add: refines_def)
  with assms(3) show ?thesis by simp
qed

lemma refines_result:
  assumes "refines rep R m p" and "rep s xs" and "m s = (Some a, s')"
  obtains b ys where "p xs = Some (b, ys)" "R a b" "rep s' ys"
proof (cases "p xs")
  case None
  with assms show thesis by (auto dest: refines_None)
next
  case (Some r)
  then obtain b ys where p: "p xs = Some (b, ys)" by (cases r) auto
  obtain a' t where "m s = (Some a', t)" "R a' b" "rep t ys"
    by (rule refines_SomeE [OF assms(1,2) p])
  with assms(3) p that show thesis by auto
qed

lemma refines_fst_None_iff:
  assumes "refines rep R m p" and "rep s xs"
  shows "fst (m s) = None \<longleftrightarrow> p xs = None"
proof
  assume f: "fst (m s) = None"
  show "p xs = None"
  proof (rule ccontr)
    assume "p xs \<noteq> None"
    then obtain b ys where "p xs = Some (b, ys)" by (cases "p xs") auto
    then obtain a s' where "m s = (Some a, s')" by (rule refines_SomeE [OF assms])
    with f show False by simp
  qed
qed (rule refines_None [OF assms])

lemma refines_succeed [refine_intros]: "R a b \<Longrightarrow> refines rep R (succeed a) (p_return b)"
  by (simp add: refines_def)

lemma refines_failure [refine_intros]: "refines rep R failure p_fail"
  by (simp add: refines_def)

lemma refines_require [refine_intros]: "b = c \<Longrightarrow> refines rep (=) (require b) (p_guard c)"
  by (simp add: refines_def)

lemma refines_if [refine_intros]:
  "b = c \<Longrightarrow> (c \<Longrightarrow> refines rep R m p) \<Longrightarrow> (\<not> c \<Longrightarrow> refines rep R n q) \<Longrightarrow>
   refines rep R (if b then m else n) (if c then p else q)"
  by simp

lemma refines_chk [refine_intros]:
  assumes m: "refines rep R m p" and f: "\<And>a b. R a b \<Longrightarrow> refines rep S (f a) (g b)"
  shows "refines rep S (chk m f) (p_bind p g)"
proof (rule refinesI)
  fix s xs
  assume s: "rep s xs" and n: "p_bind p g xs = None"
  show "fst (chk m f s) = None"
  proof (cases "p xs")
    case None
    with m s have "fst (m s) = None" by (rule refines_None)
    then show ?thesis by (cases "m s") simp
  next
    case (Some r)
    then obtain b ys where p: "p xs = Some (b, ys)" by (cases r) auto
    obtain a s' where "m s = (Some a, s')" "R a b" "rep s' ys"
      by (rule refines_SomeE [OF m s p])
    moreover from p n have "g b ys = None" by simp
    ultimately show ?thesis using refines_None [OF f] by simp
  qed
next
  fix s xs c zs
  assume s: "rep s xs" and c: "p_bind p g xs = Some (c, zs)"
  from c obtain b ys where p: "p xs = Some (b, ys)" and g: "g b ys = Some (c, zs)"
    by (auto simp: p_bind_eq_Some_iff)
  obtain a s' where "m s = (Some a, s')" "R a b" "rep s' ys"
    by (rule refines_SomeE [OF m s p])
  with refines_SomeE [OF f [of a b] _ g] show "\<exists>a s'. chk m f s = (Some a, s') \<and> S a c \<and> rep s' zs"
    by (metis chk_Some)
qed

lemma refines_weaken:
  assumes "refines rep R m p" and "\<And>a b. R a b \<Longrightarrow> S a b"
  shows "refines rep S m p"
proof (rule refinesI)
  fix s xs b ys
  assume "rep s xs" "p xs = Some (b, ys)"
  then obtain a s' where "m s = (Some a, s')" "R a b" "rep s' ys"
    by (rule refines_SomeE [OF assms(1)])
  with assms(2) show "\<exists>a s'. m s = (Some a, s') \<and> S a b \<and> rep s' ys" by blast
qed (rule refines_None [OF assms(1)])

text \<open>The relation at one input, for readers that work on a copy of their state.\<close>

definition refines_at ::
  "('s \<Rightarrow> bytes \<Rightarrow> bool) \<Rightarrow> ('a \<Rightarrow> 'b \<Rightarrow> bool) \<Rightarrow> 'a option \<times> 's \<Rightarrow> ('b \<times> bytes) option \<Rightarrow> bool" where
  "refines_at rep R r res \<longleftrightarrow>
     (case res of
        None \<Rightarrow> fst r = None
      | Some (b, ys) \<Rightarrow> \<exists>a s'. r = (Some a, s') \<and> R a b \<and> rep s' ys)"

lemma refines_iff_at: "refines rep R m p \<longleftrightarrow> (\<forall>s xs. rep s xs \<longrightarrow> refines_at rep R (m s) (p xs))"
  by (simp add: refines_def refines_at_def)

lemma refines_at_None [simp]: "refines_at rep R r None \<longleftrightarrow> fst r = None"
  by (simp add: refines_at_def)

lemma refines_at_Some [simp]:
  "refines_at rep R r (Some (b, ys)) \<longleftrightarrow> (\<exists>a s'. r = (Some a, s') \<and> R a b \<and> rep s' ys)"
  by (simp add: refines_at_def)

end
