(* ===== verification/Cbs.thy ===== *)
theory Cbs
  imports Mem Parsing
begin

text \<open>
  \<open>crypto/bytestring/cbs.c\<close>, first half: the \<open>CBS\<close> reader (a pointer into a buffer and the number of
  bytes left) and its integer, byte and length-prefix readers. Every reader refines a parser
  over the byte list the \<open>CBS\<close> stands for.
\<close>

section \<open>The structure\<close>

text \<open>
  \<open>data\<close> is the list of the bytes from the pointer to the end of the block it points into, \<open>len\<close> the
  number of them that belong to the string; \<open>CBS_get_last_u8\<close> makes the two differ.
\<close>

record cbs =
  cbs_data :: bytes
  cbs_len :: size_t

definition CBS_init :: "bytes \<Rightarrow> size_t \<Rightarrow> cbs" where
  "CBS_init data len = \<lparr>cbs_data = data, cbs_len = len\<rparr>"

definition cbs_get :: "size_t \<Rightarrow> (cbs, bytes) op" where
  "cbs_get n cbs =
     (if cbs_len cbs < n then (None, cbs)
      else (Some (cbs_data cbs),
            cbs\<lparr>cbs_data := drop (unat n) (cbs_data cbs), cbs_len := cbs_len cbs - n\<rparr>))"

definition CBS_skip :: "size_t \<Rightarrow> (cbs, unit) op" where
  "CBS_skip len = chk (cbs_get len) (\<lambda>dummy. succeed ())"

definition CBS_data :: "cbs \<Rightarrow> bytes" where
  "CBS_data cbs = cbs_data cbs"

definition CBS_len :: "cbs \<Rightarrow> size_t" where
  "CBS_len cbs = cbs_len cbs"

text \<open>The result is the return value with \<open>*out_ptr\<close> and \<open>*out_len\<close>; the old \<open>*out_ptr\<close> is freed.\<close>

definition CBS_stow :: "allocator \<Rightarrow> cbs \<Rightarrow> bool \<times> bytes option \<times> size_t" where
  "CBS_stow A cbs =
     (if cbs_len cbs = 0 then (True, None, 0)
      else case OPENSSL_memdup A (cbs_data cbs) (cbs_len cbs) of
             None \<Rightarrow> (False, None, 0)
           | Some p \<Rightarrow> (True, Some p, cbs_len cbs))"

definition CBS_strdup :: "allocator \<Rightarrow> cbs \<Rightarrow> bool \<times> bytes option" where
  "CBS_strdup A cbs =
     (let out = OPENSSL_strndup A (Some (cbs_data cbs)) (cbs_len cbs) in (out \<noteq> None, out))"

definition CBS_contains_zero_byte :: "cbs \<Rightarrow> bool" where
  "CBS_contains_zero_byte cbs = (0 \<in> set (take (unat (cbs_len cbs)) (cbs_data cbs)))"

definition CBS_mem_equal :: "cbs \<Rightarrow> bytes \<Rightarrow> size_t \<Rightarrow> bool" where
  "CBS_mem_equal cbs data len =
     (if len \<noteq> cbs_len cbs then False else CRYPTO_memcmp (cbs_data cbs) data len = 0)"

section \<open>Integers\<close>

definition cbs_get_u :: "size_t \<Rightarrow> (cbs, u64) op" where
  "cbs_get_u len =
     chk (cbs_get len) (\<lambda>data.
       succeed (fold (\<lambda>i result. push_bit 8 result OR ucast (data ! i)) [0..<unat len] 0))"

definition CBS_get_u8 :: "(cbs, u8) op" where
  "CBS_get_u8 = chk (cbs_get 1) (\<lambda>v. succeed (v ! 0))"

definition CBS_get_u16 :: "(cbs, u16) op" where
  "CBS_get_u16 = chk (cbs_get_u 2) (\<lambda>v. succeed (ucast v))"

definition CRYPTO_bswap2 :: "u16 \<Rightarrow> u16" where
  "CRYPTO_bswap2 x = (drop_bit 8 x OR push_bit 8 x)"

definition CRYPTO_bswap4 :: "u32 \<Rightarrow> u32" where
  "CRYPTO_bswap4 x =
     (let y = drop_bit 16 x OR push_bit 16 x
      in drop_bit 8 (y AND 0xff00ff00) OR push_bit 8 (y AND 0x00ff00ff))"

definition CRYPTO_bswap8 :: "u64 \<Rightarrow> u64" where
  "CRYPTO_bswap8 x =
     (ucast (CRYPTO_bswap4 (ucast (drop_bit 32 x))) OR
      push_bit 32 (ucast (CRYPTO_bswap4 (ucast x))))"

definition CBS_get_u16le :: "(cbs, u16) op" where
  "CBS_get_u16le = chk CBS_get_u16 (\<lambda>out. succeed (CRYPTO_bswap2 out))"

definition CBS_get_u24 :: "(cbs, u32) op" where
  "CBS_get_u24 = chk (cbs_get_u 3) (\<lambda>v. succeed (ucast v))"

definition CBS_get_u32 :: "(cbs, u32) op" where
  "CBS_get_u32 = chk (cbs_get_u 4) (\<lambda>v. succeed (ucast v))"

definition CBS_get_u32le :: "(cbs, u32) op" where
  "CBS_get_u32le = chk CBS_get_u32 (\<lambda>out. succeed (CRYPTO_bswap4 out))"

definition CBS_get_u64 :: "(cbs, u64) op" where
  "CBS_get_u64 = cbs_get_u 8"

definition CBS_get_u64le :: "(cbs, u64) op" where
  "CBS_get_u64le = chk (cbs_get_u 8) (\<lambda>out. succeed (CRYPTO_bswap8 out))"

definition CBS_get_last_u8 :: "(cbs, u8) op" where
  "CBS_get_last_u8 cbs =
     (if cbs_len cbs = 0 then (None, cbs)
      else (Some (cbs_data cbs ! unat (cbs_len cbs - 1)), cbs\<lparr>cbs_len := cbs_len cbs - 1\<rparr>))"

section \<open>Bytes and length-prefixed strings\<close>

definition CBS_get_bytes :: "size_t \<Rightarrow> (cbs, cbs) op" where
  "CBS_get_bytes len = chk (cbs_get len) (\<lambda>v. succeed (CBS_init v len))"

text \<open>\<open>out\<close> is the destination block; the result is what it holds after the copy.\<close>

definition CBS_copy_bytes :: "bytes \<Rightarrow> size_t \<Rightarrow> (cbs, bytes) op" where
  "CBS_copy_bytes out len =
     chk (cbs_get len) (\<lambda>v. succeed (take (unat len) v @ drop (unat len) out))"

definition cbs_get_length_prefixed :: "size_t \<Rightarrow> (cbs, cbs) op" where
  "cbs_get_length_prefixed len_len =
     chk (cbs_get_u len_len) (\<lambda>len. CBS_get_bytes len)"

definition CBS_get_u8_length_prefixed :: "(cbs, cbs) op" where
  "CBS_get_u8_length_prefixed = cbs_get_length_prefixed 1"

definition CBS_get_u16_length_prefixed :: "(cbs, cbs) op" where
  "CBS_get_u16_length_prefixed = cbs_get_length_prefixed 2"

definition CBS_get_u24_length_prefixed :: "(cbs, cbs) op" where
  "CBS_get_u24_length_prefixed = cbs_get_length_prefixed 3"

section \<open>What a reader stands for\<close>

definition cbs_rep :: "cbs \<Rightarrow> bytes \<Rightarrow> bool" where
  "cbs_rep c xs \<longleftrightarrow> unat (cbs_len c) \<le> length (cbs_data c) \<and> xs = take (unat (cbs_len c)) (cbs_data c)"

lemma cbs_rep_length: "cbs_rep c xs \<Longrightarrow> length xs = unat (cbs_len c)"
  by (simp add: cbs_rep_def)

lemma cbs_rep_init: "length xs < 2 ^ 64 \<Longrightarrow> cbs_rep (CBS_init (xs @ tail) (of_nat (length xs))) xs"
  by (simp add: cbs_rep_def CBS_init_def unat_of_nat_size)

lemma cbs_rep_unique: "cbs_rep c xs \<Longrightarrow> cbs_rep c ys \<Longrightarrow> xs = ys"
  by (simp add: cbs_rep_def)

lemma cbs_get_fail: "cbs_rep c xs \<Longrightarrow> length xs < unat n \<Longrightarrow> cbs_get n c = (None, c)"
  by (simp add: cbs_get_def size_less_iff cbs_rep_length)

lemma cbs_get_ok:
  assumes "cbs_rep c xs" and "unat n \<le> length xs"
  obtains p c' where "cbs_get n c = (Some p, c')" "take (unat n) p = take (unat n) xs"
    "unat n \<le> length p" "cbs_rep c' (drop (unat n) xs)"
proof
  let ?c' = "c\<lparr>cbs_data := drop (unat n) (cbs_data c), cbs_len := cbs_len c - n\<rparr>"
  have n: "n \<le> cbs_len c"
    using assms by (simp add: size_le_iff cbs_rep_length)
  then show "cbs_get n c = (Some (cbs_data c), ?c')"
    by (simp add: cbs_get_def not_less)
  show "take (unat n) (cbs_data c) = take (unat n) xs" "unat n \<le> length (cbs_data c)"
    using assms by (auto simp: cbs_rep_def min.absorb1 min.absorb2)
  show "cbs_rep ?c' (drop (unat n) xs)"
    using assms(1) n by (auto simp: cbs_rep_def unat_sub_le size_le_iff drop_take)
qed

text \<open>The two facts above as one refinement: what is returned agrees with the parsed bytes.\<close>

definition points_to :: "bytes \<Rightarrow> bytes \<Rightarrow> bool" where
  "points_to p bs \<longleftrightarrow> length bs \<le> length p \<and> take (length bs) p = bs"

lemma points_to_nth: "points_to p bs \<Longrightarrow> i < length bs \<Longrightarrow> p ! i = bs ! i"
  by (metis points_to_def nth_take)

lemma points_to_map_nth: "points_to p bs \<Longrightarrow> n = length bs \<Longrightarrow> map ((!) p) [0..<n] = bs"
  by (rule nth_equalityI) (simp_all add: points_to_nth)

lemma refines_cbs_get:
  assumes n: "n = unat w"
  shows "refines cbs_rep (\<lambda>p bs. points_to p bs \<and> length bs = n) (cbs_get w) (p_take n)"
proof (rule refinesI)
  fix s xs
  assume s: "cbs_rep s xs" and "p_take n xs = None"
  then have "length xs < unat w" using n by (simp add: p_take_def split: if_splits)
  with s have "cbs_get w s = (None, s)" by (rule cbs_get_fail)
  then show "fst (cbs_get w s) = None" by simp
next
  fix s xs bs ys
  assume s: "cbs_rep s xs" and p: "p_take n xs = Some (bs, ys)"
  from p have le: "unat w \<le> length xs" using n by (simp add: p_take_def split: if_splits)
  from p have eqs: "bs = take n xs" "ys = drop n xs" by (simp_all add: p_take_def split: if_splits)
  obtain a s' where "cbs_get w s = (Some a, s')"
    "take (unat w) a = take (unat w) xs" "unat w \<le> length a" "cbs_rep s' (drop (unat w) xs)"
    using s le by (rule cbs_get_ok)
  then have "cbs_get w s = (Some a, s') \<and> (points_to a bs \<and> length bs = n) \<and> cbs_rep s' ys"
    using n le eqs by (simp add: points_to_def min.absorb2)
  then show "\<exists>a s'. cbs_get w s = (Some a, s') \<and> (points_to a bs \<and> length bs = n) \<and> cbs_rep s' ys"
    by blast
qed

definition p_u8 :: "u8 parser" where
  "p_u8 xs = (case xs of [] \<Rightarrow> None | x # ys \<Rightarrow> Some (x, ys))"

lemma p_u8_simps [simp]: "p_u8 [] = None" "p_u8 (x # xs) = Some (x, xs)"
  by (simp_all add: p_u8_def)

lemma p_u8_eq_Some_iff: "p_u8 xs = Some (b, ys) \<longleftrightarrow> xs = b # ys"
  by (cases xs) auto

lemma refines_CBS_get_u8 [refine_intros]: "refines cbs_rep (=) CBS_get_u8 p_u8"
proof -
  have "p_u8 = p_bind (p_take 1) (\<lambda>bs. p_return (bs ! 0))"
    by (rule ext) (auto simp: p_u8_def p_bind_def p_take_def split: list.splits)
  moreover have "refines cbs_rep (=) CBS_get_u8 (p_bind (p_take 1) (\<lambda>bs. p_return (bs ! 0)))"
    unfolding CBS_get_u8_def
    by (rule refines_chk [OF refines_cbs_get], simp)
       (auto intro!: refines_succeed simp: points_to_nth)
  ultimately show ?thesis by simp
qed

text \<open>The shift-and-or loop of \<open>cbs_get_u\<close> reads the big-endian number, for up to eight bytes.\<close>

definition word_is :: "'a::len word \<Rightarrow> nat \<Rightarrow> bool" where
  "word_is w n \<longleftrightarrow> unat w = n"

lemma get_u_bytes:
  assumes "points_to p bs" and "length bs = k" and "k \<le> 8"
  shows "unat (fold (\<lambda>i r. push_bit 8 r OR ucast (p ! i)) [0..<k] (0 :: u64)) = be_nat bs"
proof -
  have "fold (\<lambda>i r. push_bit 8 r OR ucast (p ! i)) [0..<k] (0 :: u64) =
      fold (\<lambda>b r. push_bit 8 r OR ucast b) (map ((!) p) [0..<k]) 0"
    by (simp add: fold_map comp_def)
  also have "map ((!) p) [0..<k] = bs"
    using assms points_to_map_nth by blast
  also have "fold (\<lambda>b r. push_bit 8 r OR ucast b) bs (0 :: u64) = of_nat (be_nat bs)"
    by (rule of_nat_be_nat)
  finally have eq: "fold (\<lambda>i r. push_bit 8 r OR ucast (p ! i)) [0..<k] (0 :: u64) = of_nat (be_nat bs)" .
  have "be_nat bs < 256 ^ k" using be_nat_lt [of bs] assms(2) by simp
  also have "(256::nat) ^ k \<le> 256 ^ 8" using assms(3) by (intro power_increasing) auto
  finally have "be_nat bs < 2 ^ 64" by simp
  then show ?thesis unfolding eq by (rule unat_of_nat_size)
qed

lemma refines_cbs_get_u:
  assumes "k = unat w" and "k \<le> 8"
  shows "refines cbs_rep (\<lambda>v n. word_is v n \<and> n < 256 ^ k) (cbs_get_u w) (p_be k)"
  unfolding cbs_get_u_def p_be_def
proof (rule refines_chk [OF refines_cbs_get [OF assms(1)]])
  fix p bs
  assume "points_to p bs \<and> length bs = k"
  then show "refines cbs_rep (\<lambda>v n. word_is v n \<and> n < 256 ^ k)
      (succeed (fold (\<lambda>i r. push_bit 8 r OR ucast (p ! i)) [0..<unat w] (0 :: u64))) (p_return (be_nat bs))"
    using assms be_nat_lt [of bs] by (intro refines_succeed) (auto simp: word_is_def get_u_bytes)
qed

lemma refines_ucast_get_u:
  assumes "k = unat w" and "k \<le> 8" and "256 ^ k \<le> (2::nat) ^ LENGTH('a::len)"
  shows "refines cbs_rep word_is (chk (cbs_get_u w) (\<lambda>v. succeed (ucast v :: 'a word))) (p_be k)"
proof -
  have "p_be k = p_bind (p_be k) p_return"
    by (rule ext) (auto simp: p_bind_def split: option.splits)
  moreover have "refines cbs_rep word_is (chk (cbs_get_u w) (\<lambda>v. succeed (ucast v :: 'a word)))
      (p_bind (p_be k) p_return)"
  proof (rule refines_chk [OF refines_cbs_get_u [OF assms(1,2)]], rule refines_succeed)
    fix v :: u64 and n
    assume "word_is v n \<and> n < 256 ^ k"
    then have v: "unat v = n" and n: "n < 2 ^ LENGTH('a)" using assms(3) by (auto simp: word_is_def)
    have "(ucast v :: 'a word) = of_nat n" unfolding v [symmetric] by simp
    with n show "word_is (ucast v :: 'a word) n" by (simp add: word_is_def unat_of_nat)
  qed
  ultimately show ?thesis by simp
qed

lemma refines_CBS_get_u16 [refine_intros]: "refines cbs_rep word_is CBS_get_u16 (p_be 2)"
  unfolding CBS_get_u16_def by (rule refines_ucast_get_u) auto

lemma refines_CBS_get_u24 [refine_intros]: "refines cbs_rep word_is CBS_get_u24 (p_be 3)"
  unfolding CBS_get_u24_def by (rule refines_ucast_get_u) auto

lemma refines_CBS_get_u32 [refine_intros]: "refines cbs_rep word_is CBS_get_u32 (p_be 4)"
  unfolding CBS_get_u32_def by (rule refines_ucast_get_u) auto

lemma refines_CBS_get_u64 [refine_intros]: "refines cbs_rep word_is CBS_get_u64 (p_be 8)"
  unfolding CBS_get_u64_def
  by (rule refines_weaken [OF refines_cbs_get_u]) auto

text \<open>The little-endian readers swap the bytes of what the big-endian ones return.\<close>

definition p_le :: "nat \<Rightarrow> nat parser" where
  "p_le k = p_bind (p_take k) (\<lambda>bs. p_return (be_nat (rev bs)))"

lemma bswap2_bytes:
  "CRYPTO_bswap2 (push_bit 8 (ucast (a :: u8)) OR ucast (b :: u8)) = push_bit 8 (ucast b) OR ucast a"
  by (rule bit_word_eqI) (auto simp: CRYPTO_bswap2_def bit_simps dest: bit_imp_le_length)

lemma bswap4_bytes:
  fixes a b c d :: u8
  shows "CRYPTO_bswap4 (push_bit 24 (ucast a) OR push_bit 16 (ucast b) OR push_bit 8 (ucast c) OR ucast d) =
   push_bit 24 (ucast d) OR push_bit 16 (ucast c) OR push_bit 8 (ucast b) OR ucast a"
  (is "?l = ?r")
proof -
  have "\<forall>n < 32. bit ?l n = bit ?r n"
    unfolding all_lt_32 by (simp add: CRYPTO_bswap4_def bit_simps)
  then show ?thesis by (intro bit_word_eqI) simp
qed

lemma bswap8_halves:
  "CRYPTO_bswap8 (push_bit 32 (ucast x) OR ucast (y :: u32)) =
   push_bit 32 (ucast (CRYPTO_bswap4 y)) OR ucast (CRYPTO_bswap4 x)"
proof -
  have "(ucast (drop_bit 32 (push_bit 32 (ucast x) OR ucast y :: u64)) :: u32) = x"
    and "(ucast (push_bit 32 (ucast x) OR ucast y :: u64) :: u32) = y"
    by (rule bit_word_eqI; auto simp: bit_simps dest: bit_imp_le_length)+
  then show ?thesis by (simp add: CRYPTO_bswap8_def or.commute)
qed

lemma bswap2_be_nat: "CRYPTO_bswap2 (of_nat (be_nat [a, b])) = of_nat (be_nat [b, a])"
  unfolding of_nat_be_nat [symmetric] by (simp add: bswap2_bytes)

lemma u32_of_be_nat:
  "(of_nat (be_nat [a, b, c, d]) :: u32) =
   push_bit 24 (ucast a) OR push_bit 16 (ucast b) OR push_bit 8 (ucast c) OR ucast d"
  unfolding of_nat_be_nat [symmetric] by (simp add: push_bit_or or.assoc)

lemma bswap4_be_nat:
  "CRYPTO_bswap4 (of_nat (be_nat [a, b, c, d])) = of_nat (be_nat [d, c, b, a])"
  unfolding u32_of_be_nat by (rule bswap4_bytes)

lemma u64_of_be_nat:
  assumes "length ys = 4"
  shows "(of_nat (be_nat (xs @ ys)) :: u64) =
    push_bit 32 (ucast (of_nat (be_nat xs) :: u32)) OR ucast (of_nat (be_nat ys) :: u32)"
proof -
  have ys: "be_nat ys < 2 ^ 32" using be_nat_lt [of ys] assms by simp
  have "push_bit 32 (ucast (of_nat (be_nat xs) :: u32)) AND ucast (of_nat (be_nat ys) :: u32) = (0 :: u64)"
    by (rule bit_word_eqI) (auto simp: bit_simps dest: bit_imp_le_length)
  then have "push_bit 32 (ucast (of_nat (be_nat xs) :: u32)) OR ucast (of_nat (be_nat ys) :: u32) =
      push_bit 32 (ucast (of_nat (be_nat xs) :: u32)) + (ucast (of_nat (be_nat ys) :: u32) :: u64)"
    by (simp add: disjunctive_add_eq_or)
  moreover have "push_bit 32 (ucast (of_nat (be_nat xs) :: u32) :: u64) = push_bit 32 (of_nat (be_nat xs))"
    by (rule bit_word_eqI) (auto simp: bit_simps)
  moreover have "(ucast (of_nat (be_nat ys) :: u32) :: u64) = of_nat (be_nat ys)"
    using ys by (intro word_unat_eq_iff [THEN iffD2]) (simp add: unat_of_nat unsigned_ucast_eq take_bit_nat_eq_self)
  ultimately show ?thesis using assms by (simp add: be_nat_append push_bit_eq_mult mult.commute)
qed

lemma bswap8_be_nat:
  "CRYPTO_bswap8 (of_nat (be_nat [a, b, c, d, e, f, g, h])) = of_nat (be_nat [h, g, f, e, d, c, b, a])"
  using u64_of_be_nat [of "[e, f, g, h]" "[a, b, c, d]"] u64_of_be_nat [of "[d, c, b, a]" "[h, g, f, e]"]
  by (simp add: bswap8_halves bswap4_be_nat)

lemma refines_swap:
  assumes m: "refines cbs_rep word_is m (p_be k)"
    and f: "\<And>bs. length bs = k \<Longrightarrow> f (of_nat (be_nat bs)) = (of_nat (be_nat (rev bs)) :: 'a::len word)"
    and k: "256 ^ k \<le> (2::nat) ^ LENGTH('a)"
  shows "refines cbs_rep word_is (chk m (\<lambda>v. succeed (f v))) (p_le k)"
proof -
  have le: "p_le k = p_bind (p_be k) (\<lambda>n. p_return (be_nat (rev (be_bytes k n))))"
  proof
    fix xs
    show "p_le k xs = p_bind (p_be k) (\<lambda>n. p_return (be_nat (rev (be_bytes k n)))) xs"
    proof (cases "p_take k xs")
      case None
      then show ?thesis by (simp add: p_le_def p_be_def)
    next
      case (Some r)
      then obtain bs ys where r: "p_take k xs = Some (bs, ys)" by (cases r) auto
      then have "length bs = k" by (simp add: p_take_eq_Some_iff)
      with r be_bytes_be_nat [of bs] show ?thesis by (simp add: p_le_def p_be_def)
    qed
  qed
  show ?thesis unfolding le
  proof (rule refinesI)
    fix s xs
    assume "cbs_rep s xs" "p_bind (p_be k) (\<lambda>n. p_return (be_nat (rev (be_bytes k n)))) xs = None"
    then have "fst (m s) = None"
      by (intro refines_None [OF m]) (auto simp: p_bind_def split: option.splits)
    then show "fst (chk m (\<lambda>v. succeed (f v)) s) = None" by (cases "m s") simp
  next
    fix s xs n' ys
    assume s: "cbs_rep s xs"
      and "p_bind (p_be k) (\<lambda>n. p_return (be_nat (rev (be_bytes k n)))) xs = Some (n', ys)"
    then obtain n where n: "p_be k xs = Some (n, ys)" "n' = be_nat (rev (be_bytes k n))"
      by (auto simp: p_bind_eq_Some_iff)
    then have lt: "n < 256 ^ k" by (simp add: p_be_eq_Some_iff)
    obtain v s' where v: "m s = (Some v, s')" "word_is v n" "cbs_rep s' ys"
      by (rule refines_SomeE [OF m s n(1)])
    then have "v = of_nat (be_nat (be_bytes k n))"
      using lt by (simp add: word_is_def be_nat_be_bytes_id flip: unat_of_nat) auto
    with f [of "be_bytes k n"] n(2) have "f v = of_nat n'" by simp
    moreover have "n' < 2 ^ LENGTH('a)"
      using be_nat_lt [of "rev (be_bytes k n)"] n(2) k by simp
    ultimately show "\<exists>a s'. chk m (\<lambda>v. succeed (f v)) s = (Some a, s') \<and> word_is a n' \<and> cbs_rep s' ys"
      using v by (simp add: word_is_def unat_of_nat)
  qed
qed

lemma length_2E: "length xs = 2 \<Longrightarrow> (\<And>a b. xs = [a, b] \<Longrightarrow> P) \<Longrightarrow> P"
  by (auto simp: numeral_eq_Suc length_Suc_conv)

lemma length_4E: "length xs = 4 \<Longrightarrow> (\<And>a b c d. xs = [a, b, c, d] \<Longrightarrow> P) \<Longrightarrow> P"
  by (auto simp: numeral_eq_Suc length_Suc_conv)

lemma length_8E:
  "length xs = 8 \<Longrightarrow> (\<And>a b c d e f g h. xs = [a, b, c, d, e, f, g, h] \<Longrightarrow> P) \<Longrightarrow> P"
  by (auto simp: numeral_eq_Suc length_Suc_conv)

lemma refines_CBS_get_u16le [refine_intros]: "refines cbs_rep word_is CBS_get_u16le (p_le 2)"
  unfolding CBS_get_u16le_def
  by (rule refines_swap [OF refines_CBS_get_u16]) (auto elim!: length_2E simp: bswap2_be_nat)

lemma refines_CBS_get_u32le [refine_intros]: "refines cbs_rep word_is CBS_get_u32le (p_le 4)"
  unfolding CBS_get_u32le_def
  by (rule refines_swap [OF refines_CBS_get_u32]) (auto elim!: length_4E simp: bswap4_be_nat)

lemma refines_CBS_get_u64le [refine_intros]: "refines cbs_rep word_is CBS_get_u64le (p_le 8)"
  unfolding CBS_get_u64le_def CBS_get_u64_def [symmetric]
  by (rule refines_swap [OF refines_CBS_get_u64]) (auto elim!: length_8E simp: bswap8_be_nat)

section \<open>Sub-strings\<close>

lemma cbs_rep_points_to:
  "points_to p bs \<Longrightarrow> length bs = unat w \<Longrightarrow> cbs_rep (CBS_init p w) bs"
  by (simp add: points_to_def cbs_rep_def CBS_init_def)

lemma refines_CBS_get_bytes [refine_intros]:
  assumes "n = unat w"
  shows "refines cbs_rep cbs_rep (CBS_get_bytes w) (p_take n)"
proof -
  have "p_take n = p_bind (p_take n) p_return"
    by (rule ext) (auto simp: p_bind_def split: option.splits)
  moreover have "refines cbs_rep cbs_rep (CBS_get_bytes w) (p_bind (p_take n) p_return)"
    unfolding CBS_get_bytes_def
    by (rule refines_chk [OF refines_cbs_get [OF assms]])
       (auto intro!: refines_succeed cbs_rep_points_to simp: assms)
  ultimately show ?thesis by simp
qed

lemma refines_CBS_skip [refine_intros]:
  assumes "n = unat w"
  shows "refines cbs_rep (\<lambda>_ _. True) (CBS_skip w) (p_take n)"
proof -
  have "p_take n = p_bind (p_take n) p_return"
    by (rule ext) (auto simp: p_bind_def split: option.splits)
  moreover have "refines cbs_rep (\<lambda>_ _. True) (CBS_skip w) (p_bind (p_take n) p_return)"
    unfolding CBS_skip_def
    by (rule refines_chk [OF refines_cbs_get [OF assms]]) (auto intro!: refines_succeed)
  ultimately show ?thesis by simp
qed

definition p_prefixed :: "nat \<Rightarrow> bytes parser" where
  "p_prefixed k = p_bind (p_be k) p_take"

lemma refines_length_prefixed:
  assumes "k = unat w" and "k \<le> 8"
  shows "refines cbs_rep cbs_rep (cbs_get_length_prefixed w) (p_prefixed k)"
  unfolding cbs_get_length_prefixed_def p_prefixed_def
  by (rule refines_chk [OF refines_cbs_get_u [OF assms]])
     (simp add: refines_CBS_get_bytes word_is_def)

lemma refines_length_prefixed_readers [refine_intros]:
  "refines cbs_rep cbs_rep CBS_get_u8_length_prefixed (p_prefixed 1)"
  "refines cbs_rep cbs_rep CBS_get_u16_length_prefixed (p_prefixed 2)"
  "refines cbs_rep cbs_rep CBS_get_u24_length_prefixed (p_prefixed 3)"
  unfolding CBS_get_u8_length_prefixed_def CBS_get_u16_length_prefixed_def
    CBS_get_u24_length_prefixed_def
  by (rule refines_length_prefixed; simp)+

definition prefixed :: "nat \<Rightarrow> bytes \<Rightarrow> bytes" where
  "prefixed k bs = be_bytes k (length bs) @ bs"

interpretation be: codec "be_bytes k" "p_be k" "\<lambda>n. n < 256 ^ k" for k
  by unfold_locales (simp_all add: p_be_eq_Some_iff)

interpretation prefixed: codec "prefixed k" "p_prefixed k" "\<lambda>bs. length bs < 256 ^ k" for k
  by unfold_locales
    (auto simp: prefixed_def p_prefixed_def p_bind_eq_Some_iff p_be_eq_Some_iff p_take_eq_Some_iff
      intro!: p_bind_Some [THEN trans] be.dec_enc)

section \<open>The other operations on the represented bytes\<close>

lemma CBS_get_last_u8_eq:
  assumes "cbs_rep c xs" and "xs \<noteq> []"
  obtains c' where "CBS_get_last_u8 c = (Some (last xs), c')" "cbs_rep c' (butlast xs)"
proof
  let ?c' = "c\<lparr>cbs_len := cbs_len c - 1\<rparr>"
  have nz: "cbs_len c \<noteq> 0" and xs: "xs = take (unat (cbs_len c)) (cbs_data c)"
    using assms by (auto simp: cbs_rep_def)
  then have u: "unat (cbs_len c - 1) = unat (cbs_len c) - 1"
    by (simp add: unat_minus_one)
  have "last xs = cbs_data c ! (unat (cbs_len c) - 1)"
    using assms nz by (simp add: last_conv_nth cbs_rep_length) (simp add: xs unat_gt_0)
  then show "CBS_get_last_u8 c = (Some (last xs), ?c')"
    using nz by (simp add: CBS_get_last_u8_def u)
  show "cbs_rep ?c' (butlast xs)"
    using assms(1) by (auto simp: cbs_rep_def u butlast_take)
qed

lemma CBS_get_last_u8_Nil: "cbs_rep c [] \<Longrightarrow> CBS_get_last_u8 c = (None, c)"
  using cbs_rep_length [of c "[]"] by (simp add: CBS_get_last_u8_def unat_eq_0)

lemma CBS_contains_zero_byte_iff: "cbs_rep c xs \<Longrightarrow> CBS_contains_zero_byte c \<longleftrightarrow> 0 \<in> set xs"
  by (simp add: CBS_contains_zero_byte_def cbs_rep_def)

lemma CBS_mem_equal_iff:
  assumes "cbs_rep c xs" and "unat len \<le> length data"
  shows "CBS_mem_equal c data len \<longleftrightarrow> xs = take (unat len) data"
proof (cases "len = cbs_len c")
  case True
  with assms show ?thesis
    by (auto simp: CBS_mem_equal_def CRYPTO_memcmp_eq_0_iff cbs_rep_def)
next
  case False
  then have "length xs \<noteq> length (take (unat len) data)"
    using assms by (simp add: cbs_rep_length min_def word_unat_eq_iff)
  with False show ?thesis by (auto simp: CBS_mem_equal_def)
qed

lemma CBS_stow_eq:
  assumes "cbs_rep c xs" and "CBS_stow A c = (ok, p, n)" and "length xs < 2 ^ 64 - 8"
  shows "unat n = (if ok then length xs else 0)"
    and "p = (if ok \<and> xs \<noteq> [] then Some xs else None)"
proof -
  have len: "length xs = unat (cbs_len c)" and le: "unat (cbs_len c) \<le> length (cbs_data c)"
    and xs: "xs = take (unat (cbs_len c)) (cbs_data c)"
    using assms(1) by (auto simp: cbs_rep_def)
  then have "xs = [] \<longleftrightarrow> cbs_len c = 0" by (metis length_0_conv unat_eq_0)
  have dup: "q = xs" if "OPENSSL_memdup A (cbs_data c) (cbs_len c) = Some q" for q
    using memdup_Some [OF that] le xs len assms(3) by simp
  from \<open>xs = [] \<longleftrightarrow> cbs_len c = 0\<close>
  show "unat n = (if ok then length xs else 0)" "p = (if ok \<and> xs \<noteq> [] then Some xs else None)"
    using assms(2) len dup by (auto simp: CBS_stow_def split: if_splits option.splits)
qed

end
