(* ===== verification/Cbs_Asn1.thy ===== *)
theory Cbs_Asn1
  imports Cbs
begin

text \<open>
  \<open>crypto/bytestring/cbs.c\<close>, second half: the DER and BER readers over a \<open>CBS\<close>, from the tag and
  length parser up to the integers, optional elements, bit strings and object identifiers.
\<close>

section \<open>Tags\<close>

definition CBS_ASN1_TAG_SHIFT :: nat where "CBS_ASN1_TAG_SHIFT = 24"
definition CBS_ASN1_CONSTRUCTED :: u32 where "CBS_ASN1_CONSTRUCTED = push_bit CBS_ASN1_TAG_SHIFT 0x20"
definition CBS_ASN1_CONTEXT_SPECIFIC :: u32 where
  "CBS_ASN1_CONTEXT_SPECIFIC = push_bit CBS_ASN1_TAG_SHIFT 0x80"
definition CBS_ASN1_TAG_NUMBER_MASK :: u32 where
  "CBS_ASN1_TAG_NUMBER_MASK = push_bit (5 + CBS_ASN1_TAG_SHIFT) 1 - 1"
definition CBS_ASN1_BOOLEAN :: u32 where "CBS_ASN1_BOOLEAN = 0x1"
definition CBS_ASN1_INTEGER :: u32 where "CBS_ASN1_INTEGER = 0x2"
definition CBS_ASN1_OCTETSTRING :: u32 where "CBS_ASN1_OCTETSTRING = 0x4"

text \<open>
  The \<open>do\<close> loop of \<open>parse_base128_integer\<close>; every round reads a byte, so the number of bytes left
  bounds the rounds.
\<close>

lemma CBS_get_u8_shorter: "CBS_get_u8 c = (Some b, c') \<Longrightarrow> unat (cbs_len c') < unat (cbs_len c)"
proof -
  assume "CBS_get_u8 c = (Some b, c')"
  then have "cbs_len c \<noteq> 0" "cbs_len c' = cbs_len c - 1"
    by (auto simp: CBS_get_u8_def chk_eq_Some_iff cbs_get_def split: if_splits)
  then show ?thesis by (simp add: unat_minus_one unat_gt_0)
qed

function parse_base128_loop :: "u64 \<Rightarrow> (cbs, u64) op" where
  "parse_base128_loop v cbs =
     (case CBS_get_u8 cbs of
        (None, cbs') \<Rightarrow> (None, cbs')
      | (Some b, cbs') \<Rightarrow>
          if drop_bit (64 - 7) v \<noteq> 0 then (None, cbs')
          else if v = 0 \<and> b = 0x80 then (None, cbs')
          else
            (let v' = push_bit 7 v OR ucast (b AND 0x7f)
             in if b AND 0x80 \<noteq> 0 then parse_base128_loop v' cbs' else (Some v', cbs')))"
  by pat_completeness auto
termination
  by (relation "measure (\<lambda>(v, cbs). unat (cbs_len cbs))") (auto dest: CBS_get_u8_shorter [OF sym])

declare parse_base128_loop.simps [simp del]

definition parse_base128_integer :: "(cbs, u64) op" where
  "parse_base128_integer = parse_base128_loop 0"

definition parse_asn1_tag :: "(cbs, u32) op" where
  "parse_asn1_tag =
     chk CBS_get_u8 (\<lambda>tag_byte.
       let tag = push_bit CBS_ASN1_TAG_SHIFT (ucast tag_byte AND 0xe0) :: u32;
           tag_number = ucast (tag_byte AND 0x1f) :: u32
       in if tag_number = 0x1f then
            chk parse_base128_integer (\<lambda>v.
              if v > ucast CBS_ASN1_TAG_NUMBER_MASK \<or> v < 0x1f then failure
              else succeed (tag OR ucast v))
          else succeed (tag OR tag_number))"

section \<open>Elements\<close>

text \<open>
  \<open>header\<close> is a copy of \<open>*cbs\<close>: the bytes it reads are consumed only by the final
  \<open>CBS_get_bytes\<close>. The result is \<open>*out\<close>, \<open>*out_tag\<close> and \<open>*out_header_len\<close>.
\<close>

definition cbs_get_any_asn1_element :: "bool \<Rightarrow> (cbs, cbs \<times> u32 \<times> size_t) op" where
  "cbs_get_any_asn1_element ber_ok cbs =
     (case parse_asn1_tag cbs of
        (None, _) \<Rightarrow> (None, cbs)
      | (Some tag, header) \<Rightarrow>
     (case CBS_get_u8 header of
        (None, _) \<Rightarrow> (None, cbs)
      | (Some length_byte, header) \<Rightarrow>
     (let header_len = CBS_len cbs - CBS_len header in
      if length_byte AND 0x80 = 0 then
        (let len = ucast length_byte + header_len
         in chk (CBS_get_bytes len) (\<lambda>out. succeed (out, tag, header_len)) cbs)
      else
        (let num_bytes = ucast (length_byte AND 0x7f) :: size_t in
         if ber_ok \<and> tag AND CBS_ASN1_CONSTRUCTED \<noteq> 0 \<and> num_bytes = 0 then
           chk (CBS_get_bytes header_len) (\<lambda>out. succeed (out, tag, header_len)) cbs
         else if num_bytes = 0 \<or> num_bytes > 4 then (None, cbs)
         else
           (case cbs_get_u num_bytes header of
              (None, _) \<Rightarrow> (None, cbs)
            | (Some len64, header) \<Rightarrow>
                if len64 < 128 then (None, cbs)
                else if drop_bit ((unat num_bytes - 1) * 8) len64 = 0 then (None, cbs)
                else
                  (let len = len64 in
                   if len + header_len + num_bytes < len then (None, cbs)
                   else
                     chk (CBS_get_bytes (len + (header_len + num_bytes)))
                       (\<lambda>out. succeed (out, tag, header_len + num_bytes)) cbs))))))"

definition CBS_get_any_asn1_element :: "(cbs, cbs \<times> u32 \<times> size_t) op" where
  "CBS_get_any_asn1_element = cbs_get_any_asn1_element False"

definition CBS_get_any_ber_asn1_element :: "(cbs, cbs \<times> u32 \<times> size_t) op" where
  "CBS_get_any_ber_asn1_element = cbs_get_any_asn1_element True"

text \<open>\<open>CBS_skip(out, n)\<close> on an out-parameter: the sub-string is advanced, \<open>*cbs\<close> is not touched.\<close>

definition on_child :: "(cbs, 'a) op \<Rightarrow> cbs \<Rightarrow> ('a \<Rightarrow> cbs \<Rightarrow> ('s, 'b) op) \<Rightarrow> ('s, 'b) op" where
  "on_child m child f =
     (case m child of (None, _) \<Rightarrow> failure | (Some a, child') \<Rightarrow> f a child')"

definition CBS_get_any_asn1 :: "(cbs, cbs \<times> u32) op" where
  "CBS_get_any_asn1 =
     chk CBS_get_any_asn1_element (\<lambda>(out, tag, header_len).
       on_child (CBS_skip header_len) out (\<lambda>_ out. succeed (out, tag)))"

definition cbs_get_asn1 :: "u32 \<Rightarrow> bool \<Rightarrow> (cbs, cbs) op" where
  "cbs_get_asn1 tag_value skip_header =
     chk CBS_get_any_asn1_element (\<lambda>(out, tag, header_len).
       if tag \<noteq> tag_value then failure
       else if skip_header then on_child (CBS_skip header_len) out (\<lambda>_ out. succeed out)
       else succeed out)"

definition CBS_get_asn1 :: "u32 \<Rightarrow> (cbs, cbs) op" where
  "CBS_get_asn1 tag_value = cbs_get_asn1 tag_value True"

definition CBS_get_asn1_element :: "u32 \<Rightarrow> (cbs, cbs) op" where
  "CBS_get_asn1_element tag_value = cbs_get_asn1 tag_value False"

definition CBS_peek_asn1_tag :: "cbs \<Rightarrow> u32 \<Rightarrow> bool" where
  "CBS_peek_asn1_tag cbs tag_value =
     (if CBS_len cbs < 1 then False
      else case parse_asn1_tag cbs of
             (None, _) \<Rightarrow> False
           | (Some actual_tag, _) \<Rightarrow> tag_value = actual_tag)"

section \<open>Integers and booleans\<close>

text \<open>The accumulation loop of \<open>CBS_get_asn1_uint64\<close>, over the indices that are left.\<close>

fun asn1_uint64_loop :: "bytes \<Rightarrow> nat list \<Rightarrow> u64 \<Rightarrow> u64 option" where
  "asn1_uint64_loop data [] out = Some out"
| "asn1_uint64_loop data (i # is) out =
     (if drop_bit 56 out \<noteq> 0 then None
      else asn1_uint64_loop data is (push_bit 8 out OR ucast (data ! i)))"

definition CBS_get_asn1_uint64 :: "(cbs, u64) op" where
  "CBS_get_asn1_uint64 =
     chk (CBS_get_asn1 CBS_ASN1_INTEGER) (\<lambda>bytes.
       let data = CBS_data bytes; len = CBS_len bytes in
       if len = 0 then failure
       else if (data ! 0) AND 0x80 \<noteq> 0 then failure
       else if data ! 0 = 0 \<and> len > 1 \<and> (data ! 1) AND 0x80 = 0 then failure
       else case asn1_uint64_loop data [0..<unat len] 0 of
              None \<Rightarrow> failure
            | Some out \<Rightarrow> succeed out)"

text \<open>
  The union of an \<open>int64_t\<close> and its eight bytes, little-endian on the targets: the value is the
  word those bytes make, least significant first.
\<close>

definition union_i :: "bytes \<Rightarrow> 64 word" where
  "union_i bytes = foldr (\<lambda>b r. push_bit 8 r OR ucast b) bytes 0"

definition CBS_get_asn1_int64 :: "(cbs, 64 word) op" where
  "CBS_get_asn1_int64 =
     chk (CBS_get_asn1 CBS_ASN1_INTEGER) (\<lambda>bytes.
       let data = CBS_data bytes; len = CBS_len bytes in
       if len = 0 \<or> len > 8 then failure
       else if len > 1 \<and> data ! 0 = 0 \<and> (data ! 1) AND 0x80 = 0 then failure
       else if len > 1 \<and> data ! 0 = 0xff \<and> (data ! 1) AND 0x80 \<noteq> 0 then failure
       else
         (let is_negative = (data ! 0) AND 0x80 \<noteq> 0;
              u0 = replicate 8 (if is_negative then 0xff else 0);
              u = fold (\<lambda>i u. u[i := data ! (unat len - i - 1)]) [0..<unat len] u0
          in succeed (union_i u)))"

definition CBS_get_asn1_bool :: "(cbs, bool) op" where
  "CBS_get_asn1_bool =
     chk (CBS_get_asn1 CBS_ASN1_BOOLEAN) (\<lambda>bytes.
       if CBS_len bytes \<noteq> 1 then failure
       else
         (let value = CBS_data bytes ! 0
          in if value \<noteq> 0 \<and> value \<noteq> 0xff then failure else succeed (value \<noteq> 0)))"

section \<open>Optional elements\<close>

text \<open>The result is \<open>*out\<close> when the element is present (\<open>*out_present\<close> is 1), \<open>None\<close> otherwise.\<close>

definition CBS_get_optional_asn1 :: "u32 \<Rightarrow> (cbs, cbs option) op" where
  "CBS_get_optional_asn1 tag cbs =
     (if CBS_peek_asn1_tag cbs tag then chk (CBS_get_asn1 tag) (\<lambda>out. succeed (Some out)) cbs
      else (Some None, cbs))"

definition CBS_get_optional_asn1_octet_string :: "u32 \<Rightarrow> (cbs, cbs \<times> bool) op" where
  "CBS_get_optional_asn1_octet_string tag =
     chk (CBS_get_optional_asn1 tag) (\<lambda>present.
       case present of
         Some child \<Rightarrow>
           on_child (CBS_get_asn1 CBS_ASN1_OCTETSTRING) child (\<lambda>out child.
             if CBS_len child \<noteq> 0 then failure else succeed (out, True))
       | None \<Rightarrow> succeed (CBS_init [] 0, False))"

definition CBS_get_optional_asn1_uint64 :: "u32 \<Rightarrow> u64 \<Rightarrow> (cbs, u64) op" where
  "CBS_get_optional_asn1_uint64 tag default_value =
     chk (CBS_get_optional_asn1 tag) (\<lambda>present.
       case present of
         Some child \<Rightarrow>
           on_child CBS_get_asn1_uint64 child (\<lambda>out child.
             if CBS_len child \<noteq> 0 then failure else succeed out)
       | None \<Rightarrow> succeed default_value)"

definition CBS_get_optional_asn1_bool :: "u32 \<Rightarrow> int \<Rightarrow> (cbs, int) op" where
  "CBS_get_optional_asn1_bool tag default_value =
     chk (CBS_get_optional_asn1 tag) (\<lambda>present.
       case present of
         Some child \<Rightarrow>
           on_child (CBS_get_asn1 CBS_ASN1_BOOLEAN) child (\<lambda>child2 child.
             if CBS_len child2 \<noteq> 1 \<or> CBS_len child \<noteq> 0 then failure
             else
               (let boolean = CBS_data child2 ! 0
                in if boolean = 0 then succeed 0
                   else if boolean = 0xff then succeed 1
                   else failure))
       | None \<Rightarrow> succeed default_value)"

section \<open>Bit strings\<close>

definition CBS_is_valid_asn1_bitstring :: "cbs \<Rightarrow> bool" where
  "CBS_is_valid_asn1_bitstring cbs =
     (case CBS_get_u8 cbs of
        (None, _) \<Rightarrow> False
      | (Some num_unused_bits, inp) \<Rightarrow>
          if num_unused_bits > 7 then False
          else if num_unused_bits = 0 then True
          else
            (case CBS_get_last_u8 inp of
               (None, _) \<Rightarrow> False
             | (Some lst, _) \<Rightarrow>
                 ucast lst AND (push_bit (unat num_unused_bits) 1 - 1 :: u32) = 0))"

definition CBS_asn1_bitstring_has_bit :: "cbs \<Rightarrow> u32 \<Rightarrow> bool" where
  "CBS_asn1_bitstring_has_bit cbs bitno =
     (if \<not> CBS_is_valid_asn1_bitstring cbs then False
      else
        (let byte_num = drop_bit 3 bitno + 1;
             bit_num = 7 - (bitno AND 7)
         in ucast byte_num < CBS_len cbs \<and>
            ucast (CBS_data cbs ! unat byte_num) AND (push_bit (unat bit_num) 1 :: u32) \<noteq> 0))"

end
