(* ===== verification/Der.thy ===== *)
theory Der
  imports Cbs_Asn1
begin

text \<open>
  The DER encoding of X.690, as functions on byte lists: base-128 numbers, identifier octets, length
  octets and elements. The readers of \<open>cbs.c\<close> refine the parsers of these encodings, so they accept
  exactly the unique encoding of each value.
\<close>

section \<open>Base-128 numbers\<close>

fun base128_high :: "nat \<Rightarrow> bytes" where
  "base128_high n = (if n = 0 then [] else base128_high (n div 128) @ [of_nat (n mod 128) OR 0x80])"

declare base128_high.simps [simp del]

definition base128 :: "nat \<Rightarrow> bytes" where
  "base128 n = base128_high (n div 128) @ [of_nat (n mod 128)]"

fun p_base128_from :: "nat \<Rightarrow> nat parser" where
  "p_base128_from v [] = None"
| "p_base128_from v (b # xs) =
     (if v \<ge> 2 ^ 57 then None
      else if v = 0 \<and> b = 0x80 then None
      else if unat b \<ge> 128 then p_base128_from (128 * v + unat b mod 128) xs
      else Some (128 * v + unat b, xs))"

lemma base128_high_0 [simp]: "base128_high 0 = []"
  by (simp add: base128_high.simps)

lemma u8_high_bit:
  assumes "128 \<le> unat (b :: u8)"
  shows "of_nat (unat b mod 128) OR 0x80 = b"
proof (rule word_unat_eq_iff [THEN iffD2])
  have "unat b mod 128 < 256" using u8_cases_lt [of b] by linarith
  then have u: "unat (of_nat (unat b mod 128) :: u8) = unat b mod 128" by simp
  show "unat (of_nat (unat b mod 128) OR 0x80 :: u8) = unat b"
    unfolding unat_or_80 u using assms u8_cases_lt [of b] by (simp add: le_mod_geq)
qed

lemma base128_high_step:
  assumes "128 \<le> unat b" and "\<not> (v = 0 \<and> b = 0x80)"
  shows "base128_high (128 * v + unat b mod 128) = base128_high v @ [b]"
proof -
  have "128 * v + unat b mod 128 \<noteq> 0"
  proof
    assume z: "128 * v + unat b mod 128 = 0"
    then have "unat b = 128" using assms(1) u8_cases_lt [of b] by (auto simp: mod_if split: if_splits)
    then have "b = 0x80" by (simp add: word_unat_eq_iff)
    with z assms(2) show False by simp
  qed
  with u8_high_bit [OF assms(1)] show ?thesis
    by (subst base128_high.simps) simp
qed

lemma p_base128_from_sound:
  "p_base128_from v xs = Some (n, rest) \<Longrightarrow>
   \<exists>ys. xs = ys @ rest \<and> base128_high v @ ys = base128 n \<and> n < 2 ^ 64"
proof (induction v xs rule: p_base128_from.induct)
  case (2 v b xs)
  show ?case
  proof (cases "unat b \<ge> 128")
    case True
    with 2 obtain ys where "xs = ys @ rest" "n < 2 ^ 64"
      "base128_high (128 * v + unat b mod 128) @ ys = base128 n"
      by (auto split: if_splits)
    with base128_high_step [OF True, of v] "2.prems" show ?thesis
      by (intro exI [of _ "b # ys"]) (auto split: if_splits)
  next
    case False
    with "2.prems" have n: "n = 128 * v + unat b" "v < 2 ^ 57" "xs = rest"
      by (auto split: if_splits)
    moreover from n False have "n div 128 = v" "n mod 128 = unat b" by simp_all
    then have "base128 n = base128_high v @ [b]"
      by (simp add: base128_def)
    ultimately show ?thesis using False by (intro exI [of _ "[b]"]) simp
  qed
qed simp

lemma p_base128_from_high:
  "m < 2 ^ 57 \<Longrightarrow> p_base128_from 0 (base128_high m @ ys) = p_base128_from m ys"
proof (induction m arbitrary: ys rule: base128_high.induct)
  case (1 m)
  show ?case
  proof (cases "m = 0")
    case False
    let ?d = "of_nat (m mod 128) OR 0x80 :: u8"
    have u: "unat ?d = m mod 128 + 128"
      by (simp add: unat_or_80)
    have "m div 128 < 2 ^ 57" using "1.prems" by linarith
    with "1.IH" [OF False] have "p_base128_from 0 (base128_high (m div 128) @ ?d # ys) =
        p_base128_from (m div 128) (?d # ys)" by blast
    moreover have "\<not> (m div 128 = 0 \<and> ?d = 0x80)"
    proof
      assume "m div 128 = 0 \<and> ?d = 0x80"
      then have "m mod 128 = 0" using u by simp
      with \<open>m div 128 = 0 \<and> ?d = 0x80\<close> False show False by (metis div_mult_mod_eq add_0 mult_0)
    qed
    ultimately show ?thesis
      using \<open>m div 128 < 2 ^ 57\<close> False u by (subst base128_high.simps) auto
  qed simp
qed

lemma p_base128_from_complete: "n < 2 ^ 64 \<Longrightarrow> p_base128_from 0 (base128 n @ rest) = Some (n, rest)"
proof -
  assume "n < 2 ^ 64"
  then have "n div 128 < 2 ^ 57" by (simp add: less_mult_imp_div_less)
  moreover have "(of_nat (n mod 128) :: u8) \<noteq> 0x80" by (simp add: word_unat_eq_iff)
  moreover have "\<not> 128 \<le> n mod 128" by (simp add: not_le)
  ultimately show ?thesis by (simp add: base128_def p_base128_from_high)
qed

lemma base128_nonempty [simp]: "base128 n \<noteq> []"
  by (simp add: base128_def)

interpretation base128: nonempty_codec base128 "p_base128_from 0" "\<lambda>n. n < 2 ^ 64"
  by unfold_locales (auto simp: p_base128_from_complete dest: p_base128_from_sound)

text \<open>The shift-and-or loop of the reader computes the same number while it fits.\<close>

lemma base128_shift:
  fixes v :: u64 and b :: u8
  assumes "drop_bit 57 v = 0"
  shows "unat v < 2 ^ 57" "unat (push_bit 7 v OR ucast (b AND 0x7f)) = 128 * unat v + unat b mod 128"
proof -
  have "unat (drop_bit 57 v) = unat v div 2 ^ 57" by (simp add: unat_drop_bit_eq drop_bit_eq_div unat_div)
  with assms show lt: "unat v < 2 ^ 57" by (simp add: div_eq_0_iff)
  have "push_bit 7 v AND ucast (b AND 0x7f) = 0"
  proof (rule bit_word_eqI)
    fix n
    have "bit (0x7f :: u8) n \<Longrightarrow> n < 7"
      using all_lt_32 [of "\<lambda>n. bit (0x7f :: u8) n \<longrightarrow> n < 7"] bit_imp_le_length [of "0x7f :: u8" n]
      by auto
    then show "bit (push_bit 7 v AND ucast (b AND 0x7f)) n = bit 0 n"
      by (auto simp: bit_simps)
  qed
  then have "push_bit 7 v OR ucast (b AND 0x7f) = v * 128 + ucast (b AND 0x7f)"
    by (simp add: disjunctive_add_eq_or [symmetric] push_bit_eq_mult)
  also have "unat \<dots> = 128 * unat v + unat b mod 128"
  proof -
    have "unat (ucast (b AND 0x7f) :: u64) = unat b mod 128"
      by (simp add: unat_ucast_up unat_and_7f)
    moreover have "unat b mod 128 < 128" by simp
    ultimately show ?thesis using lt by (simp add: unat_word_ariths del: mod_less_divisor)
  qed
  finally show "unat (push_bit 7 v OR ucast (b AND 0x7f)) = 128 * unat v + unat b mod 128" .
qed

lemma refines_parse_base128_loop:
  "cbs_rep c xs \<Longrightarrow>
   (case p_base128_from (unat v) xs of
      None \<Rightarrow> fst (parse_base128_loop v c) = None
    | Some (n, ys) \<Rightarrow> \<exists>w c'. parse_base128_loop v c = (Some w, c') \<and> word_is w n \<and> cbs_rep c' ys)"
proof (induction xs arbitrary: v c)
  case Nil
  then have "fst (CBS_get_u8 c) = None" by (rule refines_None [OF refines_CBS_get_u8]) simp
  then show ?case by (subst parse_base128_loop.simps) (auto split: prod.splits)
next
  case (Cons b xs)
  obtain c' where c': "CBS_get_u8 c = (Some b, c')" "cbs_rep c' xs"
    using refines_SomeE [OF refines_CBS_get_u8 Cons.prems, of b xs] by auto
  note unfold = parse_base128_loop.simps [of v c]
  have big: "drop_bit 57 v \<noteq> 0 \<longleftrightarrow> 2 ^ 57 \<le> unat v"
  proof -
    have "unat (drop_bit 57 v) = unat v div 2 ^ 57"
      by (simp add: unat_drop_bit_eq drop_bit_eq_div unat_div)
    then have "drop_bit 57 v = 0 \<longleftrightarrow> unat v < 2 ^ 57"
      by (metis div_eq_0_iff power_not_zero unat_eq_0 zero_neq_numeral)
    then show ?thesis by linarith
  qed
  let ?v' = "push_bit 7 v OR ucast (b AND 0x7f) :: u64"
  show ?case
  proof (cases "drop_bit 57 v \<noteq> 0 \<or> (v = 0 \<and> b = 0x80)")
    case True
    then have "fst (parse_base128_loop v c) = None" using c' unfold by auto
    moreover have "p_base128_from (unat v) (b # xs) = None" using True big by auto
    ultimately show ?thesis by simp
  next
    case False
    then have f: "drop_bit 57 v = 0" "\<not> (v = 0 \<and> b = 0x80)" by auto
    then have v': "unat ?v' = 128 * unat v + unat b mod 128" using base128_shift(2) [of v b] by blast
    have nz: "\<not> (unat v = 0 \<and> b = 0x80)" "\<not> 2 ^ 57 \<le> unat v"
      using False big by (auto simp: unat_eq_0)
    show ?thesis
    proof (cases "128 \<le> unat b")
      case True
      then have "parse_base128_loop v c = parse_base128_loop ?v' c'"
        unfolding unfold c' using f by (simp only: and_80_eq_0 option.case prod.case Let_def) simp
      moreover have "p_base128_from (unat v) (b # xs) = p_base128_from (unat ?v') xs"
        unfolding p_base128_from.simps if_not_P [OF nz(2)] if_not_P [OF nz(1)] if_P [OF True] v' ..
      ultimately show ?thesis using Cons.IH [OF c'(2), of ?v'] by (simp only:)
    next
      case lt: False
      then have "parse_base128_loop v c = (Some ?v', c')"
        unfolding unfold c' using f by (simp only: and_80_eq_0 option.case prod.case Let_def) simp
      moreover have "p_base128_from (unat v) (b # xs) = Some (unat ?v', xs)"
        unfolding p_base128_from.simps if_not_P [OF nz(2)] if_not_P [OF nz(1)] if_not_P [OF lt] v'
        using lt by simp
      ultimately show ?thesis using c'(2) by (simp only: option.case prod.case) (auto simp: word_is_def)
    qed
  qed
qed

lemma refines_parse_base128_integer [refine_intros]:
  "refines cbs_rep word_is parse_base128_integer (p_base128_from 0)"
  using refines_parse_base128_loop [where v = 0]
  by (simp add: refines_def parse_base128_integer_def)

section \<open>Identifier octets\<close>

text \<open>
  A tag is a \<open>u32\<close>: the class and the constructed bit are its three top bits, the number its other 29.
  X.690, 8.1.2: numbers below 31 share the identifier octet, others follow it in base 128.
\<close>

definition tag_top :: "u32 \<Rightarrow> nat" where "tag_top t = unat t div 2 ^ 29"
definition tag_number :: "u32 \<Rightarrow> nat" where "tag_number t = unat t mod 2 ^ 29"
definition make_tag :: "nat \<Rightarrow> nat \<Rightarrow> u32" where "make_tag cls n = of_nat (2 ^ 29 * cls + n)"

definition der_tag :: "u32 \<Rightarrow> bytes" where
  "der_tag t =
     (if tag_number t < 31 then [of_nat (32 * tag_top t + tag_number t)]
      else of_nat (32 * tag_top t + 31) # base128 (tag_number t))"

definition p_tag :: "u32 parser" where
  "p_tag = p_bind p_u8 (\<lambda>b.
     if unat b mod 32 = 31 then
       p_bind (p_base128_from 0) (\<lambda>n.
         if 31 \<le> n \<and> n < 2 ^ 29 then p_return (make_tag (unat b div 32) n) else p_fail)
     else p_return (make_tag (unat b div 32) (unat b mod 32)))"

lemma tag_parts [simp]: "tag_top t < 8" "tag_number t < 2 ^ 29"
proof -
  have "unat t < 8 * 2 ^ 29" using unsigned_less [of t, where 'a = nat] by simp
  then show "tag_top t < 8" unfolding tag_top_def by (rule less_mult_imp_div_less)
qed (simp add: tag_number_def)

lemma tag_number_lt [simp]: "tag_number t < 536870912"
  using tag_parts(2) [of t] by simp

lemma unat_make_tag: "cls < 8 \<Longrightarrow> n < 2 ^ 29 \<Longrightarrow> unat (make_tag cls n) = 2 ^ 29 * cls + n"
  unfolding make_tag_def unat_of_nat by simp

lemma make_tag_parts [simp]:
  "cls < 8 \<Longrightarrow> n < 2 ^ 29 \<Longrightarrow> tag_top (make_tag cls n) = cls"
  "cls < 8 \<Longrightarrow> n < 2 ^ 29 \<Longrightarrow> tag_number (make_tag cls n) = n"
  by (simp_all add: tag_top_def tag_number_def unat_make_tag)

lemma make_tag_id [simp]: "make_tag (tag_top t) (tag_number t) = t"
  unfolding word_unat_eq_iff unat_make_tag [OF tag_parts]
  unfolding tag_top_def tag_number_def by (rule mult_div_mod_eq)

lemma identifier_octet:
  assumes "cls < 8" and "n < 32"
  shows "unat (of_nat (32 * cls + n) :: u8) = 32 * cls + n"
  unfolding unat_of_nat using assms by simp

lemma der_tag_nonempty [simp]: "der_tag t \<noteq> []"
  by (simp add: der_tag_def)

lemma p_tag_complete: "p_tag (der_tag t @ rest) = Some (t, rest)"
proof (cases "tag_number t < 31")
  case True
  have u: "unat (of_nat (32 * tag_top t + tag_number t) :: u8) = 32 * tag_top t + tag_number t"
    by (rule identifier_octet) (use True in simp_all)
  from True have "(32 * tag_top t + tag_number t) div 32 = tag_top t"
    "(32 * tag_top t + tag_number t) mod 32 = tag_number t" by simp_all
  with True u show ?thesis
    unfolding p_tag_def der_tag_def by (simp del: unat_u8_of_nat of_nat_add of_nat_mult)
next
  case False
  have u: "unat (of_nat (32 * tag_top t + 31) :: u8) = 32 * tag_top t + 31"
    by (rule identifier_octet) simp_all
  have n: "tag_number t < 2 ^ 64" by (rule less_trans [OF tag_parts(2)]) simp
  have "(32 * tag_top t + 31) div 32 = tag_top t" by simp
  with False u base128.dec_enc [OF n, of rest] show ?thesis
    unfolding p_tag_def der_tag_def by (simp del: unat_u8_of_nat of_nat_add of_nat_mult)
qed

lemma p_tag_sound:
  assumes "p_tag xs = Some (t, rest)"
  shows "xs = der_tag t @ rest"
proof -
  from assms obtain b ys where xs: "xs = b # ys"
    by (auto simp: p_tag_def p_bind_eq_Some_iff p_u8_eq_Some_iff)
  have cls: "unat b div 32 < 8" using u8_cases_lt [of b] by simp
  show ?thesis
  proof (cases "unat b mod 32 = 31")
    case False
    then have "unat b mod 32 < 31" using mod_less_divisor [of 32 "unat b"] by linarith
    moreover have b: "32 * (unat b div 32) + unat b mod 32 = unat b" by (rule mult_div_mod_eq)
    moreover from assms False xs have "t = make_tag (unat b div 32) (unat b mod 32)" "rest = ys"
      by (simp_all add: p_tag_def)
    ultimately show ?thesis
      using xs cls by (simp add: der_tag_def b del: of_nat_add of_nat_mult)
  next
    case True
    then have b: "32 * (unat b div 32) + 31 = unat b" by (metis mult_div_mod_eq)
    from assms True xs obtain n where "p_base128_from 0 ys = Some (n, rest)" and
      n: "31 \<le> n" "n < 2 ^ 29" "t = make_tag (unat b div 32) n"
      by (auto simp: p_tag_def p_bind_eq_Some_iff split: if_splits)
    then have "ys = base128 n @ rest" using base128.enc_dec by blast
    moreover have "of_nat (32 * (unat b div 32) + 31) = b" unfolding b by simp
    ultimately show ?thesis
      using xs n cls by (simp add: der_tag_def del: of_nat_add of_nat_mult)
  qed
qed

interpretation der_tag: nonempty_codec der_tag p_tag "\<lambda>_. True"
  by unfold_locales (auto simp: p_tag_complete dest: p_tag_sound)

section \<open>Length octets\<close>

text \<open>
  X.690, 8.1.3 and 10.1: a length below 128 is one octet, a longer one is preceded by the number of
  its big-endian octets and has no leading zero. The reader takes at most four octets. With \<open>ber\<close>,
  a constructed element may have the indefinite length, the single octet \<open>0x80\<close> (\<open>None\<close> here).
\<close>

fun octets :: "nat \<Rightarrow> nat" where
  "octets n = (if n < 256 then 1 else Suc (octets (n div 256)))"

declare octets.simps [simp del]

definition der_length :: "nat \<Rightarrow> bytes" where
  "der_length n =
     (if n < 128 then [of_nat n] else of_nat (128 + octets n) # be_bytes (octets n) n)"

definition p_length :: "bool \<Rightarrow> nat option parser" where
  "p_length indefinite_ok = p_bind p_u8 (\<lambda>b.
     if unat b < 128 then p_return (Some (unat b))
     else if indefinite_ok \<and> unat b = 128 then p_return None
     else if unat b = 128 \<or> 4 < unat b - 128 then p_fail
     else p_bind (p_be (unat b - 128)) (\<lambda>n.
       if n < 128 \<or> n < 256 ^ (unat b - 129) then p_fail else p_return (Some n)))"

lemma octets_pos: "0 < octets n"
  by (subst octets.simps) simp

lemma octets_iff: "octets n = Suc k \<longleftrightarrow> n < 256 ^ Suc k \<and> (256 ^ k \<le> n \<or> k = 0)"
proof (induction k arbitrary: n)
  case 0
  then show ?case using octets_pos [of "n div 256"] by (subst octets.simps) auto
next
  case (Suc k)
  have "octets n = Suc (Suc k) \<longleftrightarrow> \<not> n < 256 \<and> octets (n div 256) = Suc k"
    by (subst octets.simps) simp
  also have "\<dots> \<longleftrightarrow> \<not> n < 256 \<and> n div 256 < 256 ^ Suc k \<and> (256 ^ k \<le> n div 256 \<or> k = 0)"
    using Suc.IH by simp
  also have "n div 256 < 256 ^ Suc k \<longleftrightarrow> n < 256 ^ Suc (Suc k)"
    by (simp add: div_less_iff_less_mult mult.commute)
  also have "256 ^ k \<le> n div 256 \<longleftrightarrow> 256 ^ Suc k \<le> n"
    by (simp add: less_eq_div_iff_mult_less_eq mult.commute)
  finally have "octets n = Suc (Suc k) \<longleftrightarrow>
      \<not> n < 256 \<and> n < 256 ^ Suc (Suc k) \<and> (256 ^ Suc k \<le> n \<or> k = 0)" .
  moreover have "(256::nat) \<le> 256 ^ Suc k" by simp
  then have "256 ^ Suc k \<le> n \<Longrightarrow> \<not> n < 256" by linarith
  ultimately show ?case by auto
qed

lemma octets_le_4: "n < 2 ^ 32 \<Longrightarrow> octets n \<le> 4"
proof -
  assume n: "n < 2 ^ 32"
  obtain k where k: "octets n = Suc k" using octets_pos [of n] by (cases "octets n") auto
  show ?thesis
  proof (rule ccontr)
    assume "\<not> octets n \<le> 4"
    then have "4 \<le> k" using k by simp
    then have "(256::nat) ^ 4 \<le> 256 ^ k" by (intro power_increasing) auto
    with k n \<open>4 \<le> k\<close> show False by (simp add: octets_iff)
  qed
qed

lemma p_length_complete:
  assumes "n < 2 ^ 32"
  shows "p_length ber (der_length n @ rest) = Some (Some n, rest)"
proof (cases "n < 128")
  case True
  then show ?thesis by (simp add: p_length_def der_length_def)
next
  case False
  obtain k where k: "octets n = Suc k" using octets_pos [of n] by (cases "octets n") auto
  have k4: "Suc k \<le> 4" using octets_le_4 [OF assms] k by simp
  then have u: "unat (of_nat (129 + k) :: u8) = 129 + k" by (simp only: unat_u8_of_nat) simp
  have n: "n < 256 ^ Suc k" "\<not> n < 256 ^ k" using k False unfolding octets_iff by auto
  from False n k4 show ?thesis
    unfolding der_length_def p_length_def k
    by (simp add: u be.dec_enc [of n "Suc k"] del: of_nat_add of_nat_Suc unat_u8_of_nat be_bytes.simps power_Suc)
qed

lemma p_length_sound:
  assumes "p_length ber xs = Some (Some n, rest)"
  shows "n < 2 ^ 32 \<and> xs = der_length n @ rest"
proof -
  from assms obtain b ys where xs: "xs = b # ys"
    by (auto simp: p_length_def p_bind_eq_Some_iff p_u8_eq_Some_iff)
  show ?thesis
  proof (cases "unat b < 128")
    case True
    with assms xs show ?thesis by (auto simp: p_length_def der_length_def)
  next
    case False
    with assms xs have k: "unat b \<noteq> 128" "unat b - 128 \<le> 4" "128 \<le> n" "256 ^ (unat b - 129) \<le> n"
      and p: "p_be (unat b - 128) ys = Some (n, rest)"
      by (auto simp: p_length_def p_bind_eq_Some_iff split: if_splits)
    from p have n: "n < 256 ^ (unat b - 128)" "ys = be_bytes (unat b - 128) n @ rest"
      using be.enc_dec by blast+
    obtain j where j: "unat b - 128 = Suc j" "unat b - 129 = j" using False k(1)
      by (cases "unat b - 128") auto
    then have o: "octets n = unat b - 128" using n k unfolding j octets_iff by auto
    have "(256::nat) ^ (unat b - 128) \<le> 256 ^ 4" using k by (intro power_increasing) auto
    with n have lt: "n < 2 ^ 32" by simp
    have "128 + (unat b - 128) = unat b" using False by simp
    then have "of_nat (128 + octets n) = b" unfolding o by simp
    with lt n k xs show ?thesis by (simp add: der_length_def o del: of_nat_add)
  qed
qed

lemma p_length_indefinite:
  "p_length ber xs = Some (None, rest) \<longleftrightarrow> ber \<and> xs = 0x80 # rest"
proof (cases xs)
  case (Cons b ys)
  have "b = 0x80 \<longleftrightarrow> unat b = 128" by (simp add: word_unat_eq_iff)
  then show ?thesis
    unfolding Cons by (simp add: p_length_def p_bind_eq_Some_iff) auto
qed (simp add: p_length_def)

definition p_der_length :: "nat parser" where
  "p_der_length = p_bind (p_length False) (\<lambda>l. case l of None \<Rightarrow> p_fail | Some n \<Rightarrow> p_return n)"

interpretation der_length: codec der_length p_der_length "\<lambda>n. n < 2 ^ 32"
proof unfold_locales
  fix n rest
  assume "n < (2::nat) ^ 32"
  then have "p_length False (der_length n @ rest) = Some (Some n, rest)" by (rule p_length_complete)
  then show "p_der_length (der_length n @ rest) = Some (n, rest)"
    unfolding p_der_length_def by (simp only: p_bind_Some option.case p_return_apply)
next
  fix xs n rest
  assume "p_der_length xs = Some (n, rest)"
  then have "p_length False xs = Some (Some n, rest)"
    unfolding p_der_length_def p_bind_eq_Some_iff by (auto split: option.splits)
  then show "n < 2 ^ 32 \<and> xs = der_length n @ rest" by (rule p_length_sound)
qed

section \<open>Elements\<close>

definition der_header :: "u32 \<Rightarrow> nat \<Rightarrow> bytes" where
  "der_header t n = der_tag t @ der_length n"

definition der_element :: "u32 \<times> bytes \<Rightarrow> bytes" where
  "der_element = (\<lambda>(t, content). der_header t (length content) @ content)"

definition p_element :: "(u32 \<times> bytes) parser" where
  "p_element = p_bind p_tag (\<lambda>t. p_bind p_der_length (\<lambda>n. p_bind (p_take n) (\<lambda>content.
     p_return (t, content))))"

lemma der_element_nonempty [simp]: "der_element e \<noteq> []"
  by (cases e) (simp add: der_element_def der_header_def)

lemma der_header_nonempty [simp]: "der_header t n \<noteq> []"
  by (simp add: der_header_def)

interpretation der_element: nonempty_codec der_element p_element "\<lambda>(t, content). length content < 2 ^ 32"
proof unfold_locales
  fix e :: "u32 \<times> bytes" and rest
  assume ok: "case e of (t, content) \<Rightarrow> length content < 2 ^ 32"
  obtain t content where e: "e = (t, content)" by (cases e)
  have "p_tag (der_element e @ rest) = Some (t, der_length (length content) @ content @ rest)"
    using e by (simp add: der_element_def der_header_def p_tag_complete)
  moreover have "p_der_length (der_length (length content) @ content @ rest) =
      Some (length content, content @ rest)"
    using ok e by (intro der_length.dec_enc) simp
  ultimately show "p_element (der_element e @ rest) = Some (e, rest)"
    using e by (simp add: p_element_def)
next
  fix xs e rest
  assume "p_element xs = Some (e, rest)"
  then obtain t n ys zs content where "p_tag xs = Some (t, ys)" "p_der_length ys = Some (n, zs)"
    "p_take n zs = Some (content, rest)" "e = (t, content)"
    unfolding p_element_def by (fastforce simp: p_bind_eq_Some_iff)
  then show "(case e of (t, content) \<Rightarrow> length content < 2 ^ 32) \<and> xs = der_element e @ rest"
    using der_tag.enc_dec der_length.enc_dec
    by (fastforce simp: der_element_def der_header_def p_take_eq_Some_iff)
next
  fix e :: "u32 \<times> bytes"
  show "der_element e \<noteq> []" by simp
qed

section \<open>The tag reader\<close>

lemma disjoint_or: "(a::u32) AND b = 0 \<Longrightarrow> unat a + unat b < 2 ^ 32 \<Longrightarrow> unat (a OR b) = unat a + unat b"
  by (simp add: disjunctive_add_eq_or [symmetric] unat_word_ariths)

lemma tag_octet_top:
  fixes b :: u8
  shows "unat (push_bit CBS_ASN1_TAG_SHIFT (ucast b AND 0xe0) :: u32) = 2 ^ 29 * (unat b div 32)"
proof -
  have "unat (ucast b AND 0xe0 :: u32) = unat (b AND 0xe0)"
    by (simp add: unsigned_and_eq unat_ucast_up)
  then have "unat (ucast b AND 0xe0 :: u32) = unat b div 32 * 32" by (simp add: unat_and_e0)
  moreover have "unat b div 32 < 8" using u8_cases_lt [of b] by simp
  ultimately show ?thesis
    by (simp add: CBS_ASN1_TAG_SHIFT_def push_bit_eq_mult unat_word_ariths)
qed

lemma tag_octet_number:
  fixes b :: u8
  shows "unat (ucast (b AND 0x1f) :: u32) = unat b mod 32"
  by (simp add: unat_ucast_up unat_and_1f)

lemma tag_or:
  assumes u: "unat u = 2 ^ 29 * c" and c: "c < 8" and w: "unat w < 2 ^ 29"
  shows "u OR w = make_tag c (unat w)"
proof -
  have "u AND w = 0"
  proof (rule bit_word_eqI)
    fix n
    have "bit u n \<Longrightarrow> 29 \<le> n"
    proof (rule ccontr)
      assume b: "bit u n" and "\<not> 29 \<le> n"
      have "bit (unat u) n" using b by (simp add: bit_unsigned_iff bit_imp_le_length)
      moreover have "unat u = push_bit 29 c" using u by (simp add: push_bit_eq_mult)
      ultimately show False using \<open>\<not> 29 \<le> n\<close> by (simp only: bit_push_bit_iff) simp
    qed
    moreover have "bit w n \<Longrightarrow> n < 29"
    proof (rule ccontr)
      assume b: "bit w n" and "\<not> n < 29"
      have "bit (unat w) n" using b by (simp add: bit_unsigned_iff bit_imp_le_length)
      moreover have "take_bit 29 (unat w) = unat w" using w by (simp add: take_bit_nat_eq_self)
      ultimately show False using \<open>\<not> n < 29\<close> by (metis bit_take_bit_iff)
    qed
    ultimately show "bit (u AND w) n = bit 0 n" by (auto simp: bit_and_iff)
  qed
  then have "u OR w = u + w" by (rule disjunctive_add_eq_or [symmetric])
  then show ?thesis unfolding word_unat_eq_iff unat_make_tag [OF c w]
    using u c w by (simp add: unat_word_ariths)
qed

lemma tag_number_mask: "unat CBS_ASN1_TAG_NUMBER_MASK = 2 ^ 29 - 1"
  by (simp add: CBS_ASN1_TAG_NUMBER_MASK_def CBS_ASN1_TAG_SHIFT_def push_bit_eq_mult unat_word_ariths)

lemma refines_parse_asn1_tag [refine_intros]: "refines cbs_rep (=) parse_asn1_tag p_tag"
  unfolding parse_asn1_tag_def p_tag_def Let_def
proof (rule refines_chk [OF refines_CBS_get_u8], rule refines_if)
  fix a b :: u8
  assume ab: "a = b"
  let ?tag = "push_bit CBS_ASN1_TAG_SHIFT (ucast a AND 0xe0) :: u32"
  have c: "unat b div 32 < 8" using u8_cases_lt [of b] by simp
  note tag = tag_octet_top [of a, unfolded ab, folded ab]
  show "((ucast (a AND 0x1f) :: u32) = 0x1f) = (unat b mod 32 = 31)"
    unfolding word_unat_eq_iff tag_octet_number ab by simp
  have "unat (ucast (a AND 0x1f) :: u32) < 2 ^ 29"
    unfolding tag_octet_number by (rule less_trans [of _ 32]) simp_all
  from tag_or [OF tag_octet_top c [folded ab] this]
  show "refines cbs_rep (=) (succeed (?tag OR ucast (a AND 0x1f)))
      (p_return (make_tag (unat b div 32) (unat b mod 32)))"
    by (intro refines_succeed) (simp add: tag_octet_number ab)
  show "refines cbs_rep (=)
      (chk parse_base128_integer (\<lambda>v. if ucast CBS_ASN1_TAG_NUMBER_MASK < v \<or> v < 0x1f then failure
         else succeed (?tag OR ucast v)))
      (p_bind (p_base128_from 0) (\<lambda>n. if 31 \<le> n \<and> n < 2 ^ 29 then p_return (make_tag (unat b div 32) n)
         else p_fail))"
  proof (rule refines_chk [OF refines_parse_base128_integer])
    fix v :: u64 and n
    assume v: "word_is v n"
    have m: "ucast CBS_ASN1_TAG_NUMBER_MASK < v \<longleftrightarrow> \<not> n < 2 ^ 29"
      using v by (simp add: word_less_nat_alt unat_ucast_up tag_number_mask word_is_def not_less Suc_le_eq) linarith
    have s: "v < 0x1f \<longleftrightarrow> \<not> 31 \<le> n" using v by (simp add: word_less_nat_alt word_is_def not_le)
    have *: "?tag OR ucast v = make_tag (unat b div 32) n" if "n < 2 ^ 29"
    proof -
      have "unat (ucast v :: u32) = n"
        using v that by (simp add: unsigned_ucast_eq take_bit_nat_eq_self word_is_def)
      with tag_or [OF tag_octet_top c [folded ab], of "ucast v"] that show ?thesis using ab by simp
    qed
    show "refines cbs_rep (=)
        (if ucast CBS_ASN1_TAG_NUMBER_MASK < v \<or> v < 0x1f then failure else succeed (?tag OR ucast v))
        (if 31 \<le> n \<and> n < 2 ^ 29 then p_return (make_tag (unat b div 32) n) else p_fail)"
      using * unfolding m s by (auto intro!: refines_succeed refines_failure)
  qed
qed

section \<open>The element reader\<close>

text \<open>
  What the reader promises: the bytes of the element, its tag and the number of header octets. An
  element of indefinite length yields its header alone.
\<close>

definition p_any_element :: "bool \<Rightarrow> (bytes \<times> u32 \<times> nat) parser" where
  "p_any_element ber xs =
     (case p_tag xs of
        None \<Rightarrow> None
      | Some (t, ys) \<Rightarrow>
     (case p_length (ber \<and> t AND CBS_ASN1_CONSTRUCTED \<noteq> 0) ys of
        None \<Rightarrow> None
      | Some (l, zs) \<Rightarrow>
          (let h = length xs - length zs; n = (case l of None \<Rightarrow> 0 | Some n \<Rightarrow> n)
           in if length xs < h + n then None
              else Some ((take (h + n) xs, t, h), drop (h + n) xs))))"

definition element_is :: "cbs \<times> u32 \<times> size_t \<Rightarrow> bytes \<times> u32 \<times> nat \<Rightarrow> bool" where
  "element_is = (\<lambda>(out, tag, header_len) (e, t, h). cbs_rep out e \<and> tag = t \<and> unat header_len = h)"

lemma take_whole_element:
  assumes "cbs_rep c xs" and "unat w = h + n" and "unat hl = h"
  shows "refines_at cbs_rep element_is (chk (CBS_get_bytes w) (\<lambda>out. succeed (out, t, hl)) c)
    (if length xs < h + n then None else Some ((take (h + n) xs, t, h), drop (h + n) xs))"
proof (cases "length xs < h + n")
  case True
  then have "fst (CBS_get_bytes w c) = None"
    by (intro refines_None [OF refines_CBS_get_bytes assms(1)]) (simp_all add: p_take_def assms(2))
  with True show ?thesis by (cases "CBS_get_bytes w c") simp
next
  case False
  then have "p_take (h + n) xs = Some (take (h + n) xs, drop (h + n) xs)" by (simp add: p_take_def)
  with assms obtain out c' where "CBS_get_bytes w c = (Some out, c')"
    "cbs_rep out (take (h + n) xs)" "cbs_rep c' (drop (h + n) xs)"
    by (metis refines_SomeE refines_CBS_get_bytes)
  with False assms(3) show ?thesis by (simp add: element_is_def)
qed

lemma p_tag_shorter: "p_tag xs = Some (t, ys) \<Longrightarrow> length ys < length xs"
  by (rule der_tag.dec_shorter)

lemma length_base128_high: "n < 128 ^ k \<Longrightarrow> length (base128_high n) \<le> k"
proof (induction k arbitrary: n)
  case (Suc k)
  then have "n div 128 < 128 ^ k" by (simp add: div_less_iff_less_mult mult.commute)
  from Suc.IH [OF this] show ?case by (subst base128_high.simps) simp
qed simp

lemma length_der_tag: "length (der_tag t) \<le> 7"
proof -
  have "tag_number t div 128 \<le> tag_number t" by (rule div_le_dividend)
  also note tag_number_lt [of t]
  also have "(536870912::nat) \<le> 128 ^ 5" by simp
  finally have "tag_number t div 128 < 128 ^ 5" .
  then show ?thesis using length_base128_high [of "tag_number t div 128" 5]
    by (simp add: der_tag_def base128_def)
qed

lemma p_tag_header: "p_tag xs = Some (t, ys) \<Longrightarrow> length xs \<le> length ys + 7"
  using der_tag.dec_consumes [of xs t ys] length_der_tag [of t] by simp

lemma refines_element_long:
  assumes c: "cbs_rep c xs" and h2: "cbs_rep h2 zs" and le: "length zs < length xs"
    and nb: "unat num_bytes = k" and k: "k \<le> 4"
  shows "refines_at cbs_rep element_is
      (case cbs_get_u num_bytes h2 of
              (None, _) \<Rightarrow> (None, c)
            | (Some len64, header) \<Rightarrow>
                if len64 < 128 then (None, c)
                else if drop_bit ((unat num_bytes - 1) * 8) len64 = 0 then (None, c)
                else
                  if len64 + (cbs_len c - cbs_len h2) + num_bytes < len64 then (None, c)
                  else
                    chk (CBS_get_bytes (len64 + ((cbs_len c - cbs_len h2) + num_bytes)))
                      (\<lambda>out. succeed (out, t, (cbs_len c - cbs_len h2) + num_bytes)) c)
      (case p_bind (p_be k) (\<lambda>n. if n < 128 \<or> n < 256 ^ (k - 1) then p_fail else p_return n) zs of
         None \<Rightarrow> None
       | Some (n, ws) \<Rightarrow>
          if length xs < (length xs - length ws) + n then None
          else Some ((take ((length xs - length ws) + n) xs, t, length xs - length ws),
                 drop ((length xs - length ws) + n) xs))"
proof -
  let ?g = "refines_cbs_get_u [OF nb [symmetric]]"
  have k8: "k \<le> 8" using k by simp
  let ?hd = "cbs_len c - cbs_len h2"
  have h0: "unat ?hd = length xs - length zs"
    using c h2 le by (simp add: cbs_rep_length [symmetric] unat_sub_le size_le_iff)
  show ?thesis
  proof (cases "p_be k zs")
    case None
    then have "fst (cbs_get_u num_bytes h2) = None"
      by (rule refines_None [OF refines_cbs_get_u [OF nb [symmetric] k8] h2])
    with None show ?thesis by (cases "cbs_get_u num_bytes h2") auto
  next
    case (Some r)
    then obtain n ws where p: "p_be k zs = Some (n, ws)" by (cases r) auto
    obtain v h3 where v: "cbs_get_u num_bytes h2 = (Some v, h3)" "unat v = n"
      using refines_SomeE [OF refines_cbs_get_u [OF nb [symmetric] k8] h2 p] by (metis word_is_def)
    from p have zs: "zs = be_bytes k n @ ws" by (simp add: p_be_eq_Some_iff)
    have pow: "(2::nat) ^ ((k - 1) * 8) = 256 ^ (k - 1)"
      using power_mult [of "2::nat" 8 "k - 1"] by (simp add: mult.commute)
    have e1: "v < 128 \<longleftrightarrow> n < 128" using v(2) by (simp add: word_less_nat_alt)
    have "drop_bit ((k - 1) * 8) v = 0 \<longleftrightarrow> n div 2 ^ ((k - 1) * 8) = 0"
      using v(2) by (simp add: word_unat_eq_iff unat_drop_bit)
    also have "\<dots> \<longleftrightarrow> n < 256 ^ (k - 1)"
      unfolding pow by (simp add: div_eq_0_iff)
    finally have e2: "drop_bit ((k - 1) * 8) v = 0 \<longleftrightarrow> n < 256 ^ (k - 1)" .
    let ?hh = "length xs - length ws"
    have lxs: "length xs < 2 ^ 64" using c unat_lt_size_max [of "cbs_len c"] by (simp add: cbs_rep_length)
    have "unat ?hd + unat num_bytes = ?hh" using h0 nb zs le by simp
    then have hl: "unat (?hd + num_bytes) = ?hh"
      using lxs by (simp add: unat_word_ariths)
    have sum: "unat (v + (?hd + num_bytes)) = (n + ?hh) mod 2 ^ 64"
      unfolding unat_word_ariths(1) [of v] hl v(2) by simp
    have nlt: "n < 2 ^ 64" using unat_lt_size_max [of v] v(2) by simp
    have ov: "v + ?hd + num_bytes < v \<longleftrightarrow> 2 ^ 64 \<le> n + ?hh"
    proof -
      have "v + ?hd + num_bytes < v \<longleftrightarrow> (n + ?hh) mod 2 ^ 64 < n"
        unfolding word_less_nat_alt add.assoc sum v(2) ..
      also have "\<dots> \<longleftrightarrow> 2 ^ 64 \<le> n + ?hh" using nlt lxs by (auto simp: mod_if)
      finally show ?thesis .
    qed
    show ?thesis
    proof (cases "n < 128 \<or> n < 256 ^ (k - 1)")
      case True
      then show ?thesis using p unfolding v(1) nb option.case prod.case e1 e2 by auto
    next
      case False
      then have pb: "p_bind (p_be k) (\<lambda>n. if n < 128 \<or> n < 256 ^ (k - 1) then p_fail else p_return n) zs
          = Some (n, ws)" using p by simp
      show ?thesis
      proof (cases "2 ^ 64 \<le> n + ?hh")
        case True
        then show ?thesis unfolding pb v(1) nb option.case prod.case e1 e2 Let_def ov
          using lxs False by auto
      next
        case no: False
        then have "unat (v + (?hd + num_bytes)) = ?hh + n" unfolding sum by simp
        from take_whole_element [OF c this hl] show ?thesis
          unfolding pb v(1) nb option.case prod.case e1 e2 Let_def ov using no False
          by (simp split del: if_split del: refines_at_None refines_at_Some)
      qed
    qed
  qed
qed

lemma p_length_cases:
  "p_length ind (b # zs) =
     (if unat b < 128 then Some (Some (unat b), zs)
      else if ind \<and> unat b = 128 then Some (None, zs)
      else if unat b = 128 \<or> 4 < unat b - 128 then None
      else map_option (map_prod Some id) (p_bind (p_be (unat b - 128))
         (\<lambda>n. if n < 128 \<or> n < 256 ^ (unat b - 128 - 1) then p_fail else p_return n) zs))"
  by (auto simp: p_length_def p_bind_def split: option.splits)

lemma refines_cbs_get_any_asn1_element:
  "refines cbs_rep element_is (cbs_get_any_asn1_element ber) (p_any_element ber)"
  unfolding refines_iff_at
proof (intro allI impI)
  fix c xs
  assume c: "cbs_rep c xs"
  show "refines_at cbs_rep element_is (cbs_get_any_asn1_element ber c) (p_any_element ber xs)"
  proof (cases "p_tag xs")
    case None
    then have "fst (parse_asn1_tag c) = None" by (rule refines_None [OF refines_parse_asn1_tag c])
    with None show ?thesis
      by (cases "parse_asn1_tag c") (simp add: cbs_get_any_asn1_element_def p_any_element_def)
  next
    case (Some r)
    then obtain t ys where t: "p_tag xs = Some (t, ys)" by (cases r) auto
    from refines_SomeE [OF refines_parse_asn1_tag c t] obtain h1
      where h1: "parse_asn1_tag c = (Some t, h1)" "cbs_rep h1 ys" by metis
    show ?thesis
    proof (cases ys)
      case Nil
      then have "fst (CBS_get_u8 h1) = None" using h1 by (intro refines_None [OF refines_CBS_get_u8]) auto
      with t h1 Nil show ?thesis
        by (cases "CBS_get_u8 h1") (simp add: cbs_get_any_asn1_element_def p_any_element_def p_length_def)
    next
      case (Cons b zs)
      have "p_u8 ys = Some (b, zs)" using Cons by simp
      from refines_SomeE [OF refines_CBS_get_u8 h1(2) this] obtain h2
        where h2: "CBS_get_u8 h1 = (Some b, h2)" "cbs_rep h2 zs" by metis
      have le: "length zs < length xs" using p_tag_shorter [OF t] Cons by simp
      let ?hd = "cbs_len c - cbs_len h2"
      have h0: "unat ?hd = length xs - length zs"
        using c h2(2) le by (simp add: cbs_rep_length [symmetric] unat_sub_le size_le_iff)
      have lxs: "length xs < 2 ^ 64" using c unat_lt_size_max [of "cbs_len c"] by (simp add: cbs_rep_length)
      have nb: "unat (ucast (b AND 0x7f) :: size_t) = unat b mod 128"
        by (simp add: unat_ucast_up unat_and_7f)
      note code = cbs_get_any_asn1_element_def [of ber c, unfolded h1(1) option.case prod.case h2(1)
          CBS_len_def Let_def]
      note spec = p_any_element_def [of ber xs, unfolded t option.case prod.case Cons p_length_cases]
      show ?thesis
      proof (cases "unat b < 128")
        case True
        then have z: "b AND 0x80 = 0" by (simp add: and_80_eq_0)
        have "length xs - length zs \<le> 16" using p_tag_header [OF t] Cons by simp
        then have "unat (ucast b + ?hd) = (length xs - length zs) + unat b"
          using True by (simp add: unat_word_ariths unat_ucast_up h0)
        from take_whole_element [OF c this h0, of t] show ?thesis
          unfolding code spec if_P [OF True] if_P [OF z] Let_def option.case prod.case .
      next
        case False
        then have nz: "b AND 0x80 \<noteq> 0" and nb': "unat (ucast (b AND 0x7f) :: size_t) = unat b - 128"
          using u8_cases_lt [of b] by (simp_all add: and_80_eq_0 nb le_mod_geq)
        then have n0: "(ucast (b AND 0x7f) :: size_t) = 0 \<longleftrightarrow> unat b = 128"
          and n4: "(4 :: size_t) < ucast (b AND 0x7f) \<longleftrightarrow> 4 < unat b - 128"
          using False by (auto simp: word_unat_eq_iff word_less_nat_alt)
        show ?thesis
        proof (cases "unat b = 128")
          case True
          from take_whole_element [OF c, of ?hd "length xs - length zs" 0] h0 show ?thesis
            unfolding code spec using nz n0 True by (auto simp: Let_def)
        next
          case no: False
          show ?thesis
          proof (cases "4 < unat b - 128")
            case True
            then show ?thesis unfolding code spec using nz n0 n4 no False by auto
          next
            case small: False
            then have k: "unat b - 128 \<le> 4" by simp
            let ?p = "p_bind (p_be (unat b - 128))
                (\<lambda>n. if n < 128 \<or> n < 256 ^ (unat b - 128 - 1) then p_fail else p_return n) zs"
            have ifs: "\<not> (ucast (b AND 0x7f) = (0 :: size_t) \<or> (4 :: size_t) < ucast (b AND 0x7f))"
              "\<not> (ber \<and> t AND CBS_ASN1_CONSTRUCTED \<noteq> 0 \<and> ucast (b AND 0x7f) = (0 :: size_t))"
              "\<not> (unat b = 128 \<or> 4 < unat b - 128)"
              "\<not> ((ber \<and> t AND CBS_ASN1_CONSTRUCTED \<noteq> 0) \<and> unat b = 128)"
              using n0 n4 no small by auto
            note long = refines_element_long [OF c h2(2) le nb' k, of t]
            show ?thesis
            proof (cases ?p)
              case None
              show ?thesis using long
                unfolding code spec if_not_P [OF nz] if_not_P [OF False] ifs [THEN if_not_P] None
                by (simp only: option.case option.map Let_def)
            next
              case (Some r)
              then obtain n ws where r: "?p = Some (n, ws)" by (cases r) auto
              show ?thesis using long
                unfolding code spec if_not_P [OF nz] if_not_P [OF False] ifs [THEN if_not_P] r
                by (simp only: option.case option.map prod.case map_prod_simp id_apply Let_def)
            qed
          qed
        qed
      qed
    qed
  qed
qed

section \<open>DER: the readers accept exactly the encodings\<close>

lemma p_any_element_iff:
  "p_any_element False xs = Some ((e, t, h), rest) \<longleftrightarrow>
   (\<exists>content. length content < 2 ^ 32 \<and> e = der_element (t, content) \<and>
      h = length (der_header t (length content)) \<and> xs = e @ rest)"
proof
  assume "p_any_element False xs = Some ((e, t, h), rest)"
  then obtain ys l zs where t: "p_tag xs = Some (t, ys)" and l: "p_length False ys = Some (l, zs)"
    by (auto simp: p_any_element_def Let_def split: option.splits if_splits)
  moreover from l obtain n where n: "l = Some n" by (cases l) (auto simp: p_length_indefinite)
  ultimately have r: "\<not> length xs < length xs - length zs + n" "h = length xs - length zs"
    "e = take (h + n) xs" "rest = drop (h + n) xs"
    using \<open>p_any_element False xs = _\<close> by (auto simp: p_any_element_def Let_def split: if_splits)
  from p_tag_sound [OF t] p_length_sound [of False ys n zs] l n
  have xs: "xs = der_header t n @ zs" "n < 2 ^ 32" by (auto simp: der_header_def)
  then have h: "h = length (der_header t n)" "n \<le> length zs" using r by auto
  have "e = der_header t n @ take n zs" "rest = drop n zs"
    using r xs h by simp_all
  then show "\<exists>content. length content < 2 ^ 32 \<and> e = der_element (t, content) \<and>
      h = length (der_header t (length content)) \<and> xs = e @ rest"
    using h xs by (intro exI [of _ "take n zs"]) (simp add: der_element_def min.absorb2)
next
  assume "\<exists>content. length content < 2 ^ 32 \<and> e = der_element (t, content) \<and>
      h = length (der_header t (length content)) \<and> xs = e @ rest"
  then obtain content where c: "length content < 2 ^ 32" "e = der_element (t, content)"
      "h = length (der_header t (length content))" "xs = e @ rest" by blast
  have "p_tag xs = Some (t, der_length (length content) @ content @ rest)"
    using c p_tag_complete by (simp add: der_element_def der_header_def)
  moreover have "p_length False (der_length (length content) @ content @ rest) =
      Some (Some (length content), content @ rest)"
    using c(1) by (rule p_length_complete)
  ultimately show "p_any_element False xs = Some ((e, t, h), rest)"
    using c by (simp add: p_any_element_def der_element_def der_header_def Let_def)
qed

lemma refines_CBS_get_any_asn1_element [refine_intros]:
  "refines cbs_rep element_is CBS_get_any_asn1_element (p_any_element False)"
  unfolding CBS_get_any_asn1_element_def by (rule refines_cbs_get_any_asn1_element)

lemma refines_CBS_get_any_ber_asn1_element [refine_intros]:
  "refines cbs_rep element_is CBS_get_any_ber_asn1_element (p_any_element True)"
  unfolding CBS_get_any_ber_asn1_element_def by (rule refines_cbs_get_any_asn1_element)

text \<open>Skipping the header of an element leaves its contents.\<close>

lemma skip_header:
  assumes "cbs_rep out (der_element (t, content))" and "unat hl = length (der_header t (length content))"
  obtains out' where "CBS_skip hl out = (Some (), out')" "cbs_rep out' content"
proof -
  have "p_take (length (der_header t (length content))) (der_element (t, content)) =
      Some (der_header t (length content), content)"
    by (simp add: der_element_def)
  from refines_SomeE [OF refines_CBS_skip [OF assms(2) [symmetric]] assms(1) this] that
  show thesis by (metis (full_types) old.unit.exhaust)
qed

definition tagged :: "cbs \<times> u32 \<Rightarrow> u32 \<times> bytes \<Rightarrow> bool" where
  "tagged = (\<lambda>(out, tag) (t, content). cbs_rep out content \<and> tag = t)"

lemma p_element_alt:
  "p_element xs = (case p_any_element False xs of None \<Rightarrow> None
     | Some ((e, t, h), rest) \<Rightarrow> Some ((t, drop h e), rest))"
proof (cases "p_any_element False xs")
  case None
  have "p_element xs = None"
  proof (rule ccontr)
    assume "p_element xs \<noteq> None"
    then obtain t content rest where "p_element xs = Some ((t, content), rest)" by auto
    then have "length content < 2 ^ 32" "xs = der_element (t, content) @ rest"
      using der_element.enc_dec by auto
    then have "p_any_element False xs = Some ((der_element (t, content), t,
        length (der_header t (length content))), rest)"
      unfolding p_any_element_iff by blast
    with None show False by simp
  qed
  with None show ?thesis by simp
next
  case (Some r)
  then obtain e t h rest where r: "p_any_element False xs = Some ((e, t, h), rest)" by (cases r) auto
  then obtain content where c: "length content < 2 ^ 32" "e = der_element (t, content)"
      "h = length (der_header t (length content))" "xs = e @ rest"
    unfolding p_any_element_iff by blast
  then have "p_element xs = Some ((t, content), rest)" using der_element.dec_enc by auto
  with r c show ?thesis by (simp add: der_element_def)
qed

lemma element_isE:
  assumes "element_is r (e, t, h)" and "p_any_element False xs = Some ((e, t, h), rest)"
  obtains out hl content where "r = (out, t, hl)" "cbs_rep out (der_element (t, content))"
    "unat hl = length (der_header t (length content))" "e = der_element (t, content)" "drop h e = content"
  using assms unfolding p_any_element_iff element_is_def
  by (cases r) (auto simp: der_element_def)

lemma refines_CBS_get_any_asn1 [refine_intros]: "refines cbs_rep tagged CBS_get_any_asn1 p_element"
proof (rule refinesI)
  fix c xs
  assume c: "cbs_rep c xs" and "p_element xs = None"
  then have "p_any_element False xs = None" by (auto simp: p_element_alt split: option.splits)
  with c have "fst (CBS_get_any_asn1_element c) = None"
    by (rule refines_None [OF refines_CBS_get_any_asn1_element])
  then show "fst (CBS_get_any_asn1 c) = None"
    by (cases "CBS_get_any_asn1_element c") (simp add: CBS_get_any_asn1_def)
next
  fix c xs r rest
  assume c: "cbs_rep c xs" and "p_element xs = Some (r, rest)"
  then obtain e t h where a: "p_any_element False xs = Some ((e, t, h), rest)" and r: "r = (t, drop h e)"
    by (auto simp: p_element_alt split: option.splits)
  from refines_SomeE [OF refines_CBS_get_any_asn1_element c a] obtain q c'
    where q: "CBS_get_any_asn1_element c = (Some q, c')" "element_is q (e, t, h)" "cbs_rep c' rest" by metis
  obtain out hl content where o: "q = (out, t, hl)" "cbs_rep out (der_element (t, content))"
    "unat hl = length (der_header t (length content))" "drop h e = content"
    by (rule element_isE [OF q(2) a])
  obtain out' where "CBS_skip hl out = (Some (), out')" "cbs_rep out' content"
    by (rule skip_header [OF o(2,3)])
  then show "\<exists>a s'. CBS_get_any_asn1 c = (Some a, s') \<and> tagged a r \<and> cbs_rep s' rest"
    using q o r by (simp add: CBS_get_any_asn1_def on_child_def tagged_def)
qed

text \<open>One element of a given tag.\<close>

definition p_asn1 :: "u32 \<Rightarrow> bytes parser" where
  "p_asn1 tag = p_bind p_element (\<lambda>(t, content). if t = tag then p_return content else p_fail)"

interpretation asn1: nonempty_codec "\<lambda>content. der_element (tag, content)" "p_asn1 tag"
  "\<lambda>content. length content < 2 ^ 32" for tag
  by unfold_locales
    (auto simp: p_asn1_def p_bind_eq_Some_iff der_element.dec_iff split: if_splits)

lemma cbs_get_asn1_cases:
  assumes c: "cbs_rep c xs"
  shows "refines_at cbs_rep (if skip then cbs_rep else (\<lambda>out content. cbs_rep out (der_element (tag, content))))
    (cbs_get_asn1 tag skip c) (p_asn1 tag xs)"
proof (cases "p_any_element False xs")
  case None
  with c have "fst (CBS_get_any_asn1_element c) = None"
    by (intro refines_None [OF refines_CBS_get_any_asn1_element])
  with None show ?thesis
    by (cases "CBS_get_any_asn1_element c") (simp add: cbs_get_asn1_def p_asn1_def p_element_alt p_bind_def)
next
  case (Some r)
  then obtain e t h rest where a: "p_any_element False xs = Some ((e, t, h), rest)" by (cases r) auto
  from refines_SomeE [OF refines_CBS_get_any_asn1_element c a] obtain q c'
    where q: "CBS_get_any_asn1_element c = (Some q, c')" "element_is q (e, t, h)" "cbs_rep c' rest" by metis
  obtain out hl content where o: "q = (out, t, hl)" "cbs_rep out (der_element (t, content))"
    "unat hl = length (der_header t (length content))" "drop h e = content"
    by (rule element_isE [OF q(2) a])
  obtain out' where "CBS_skip hl out = (Some (), out')" "cbs_rep out' content"
    by (rule skip_header [OF o(2,3)])
  with q o a show ?thesis
    by (cases skip) (auto simp: cbs_get_asn1_def on_child_def p_asn1_def p_element_alt p_bind_def)
qed

lemma refines_CBS_get_asn1 [refine_intros]: "refines cbs_rep cbs_rep (CBS_get_asn1 tag) (p_asn1 tag)"
  using cbs_get_asn1_cases [where skip = True] by (simp add: refines_iff_at CBS_get_asn1_def)

lemma refines_CBS_get_asn1_element [refine_intros]:
  "refines cbs_rep (\<lambda>out content. cbs_rep out (der_element (tag, content)))
     (CBS_get_asn1_element tag) (p_asn1 tag)"
  using cbs_get_asn1_cases [where skip = False] by (simp add: refines_iff_at CBS_get_asn1_element_def)

lemma CBS_peek_asn1_tag_iff:
  assumes c: "cbs_rep c xs"
  shows "CBS_peek_asn1_tag c tag \<longleftrightarrow> (\<exists>rest. xs = der_tag tag @ rest)"
proof (cases "p_tag xs")
  case None
  then have "fst (parse_asn1_tag c) = None" by (rule refines_None [OF refines_parse_asn1_tag c])
  then show ?thesis using None p_tag_complete [of tag]
    by (cases "parse_asn1_tag c") (auto simp: CBS_peek_asn1_tag_def)
next
  case (Some r)
  then obtain t ys where t: "p_tag xs = Some (t, ys)" by (cases r) auto
  from refines_SomeE [OF refines_parse_asn1_tag c t] obtain h1
    where h1: "parse_asn1_tag c = (Some t, h1)" by metis
  have xs: "xs = der_tag t @ ys" using p_tag_sound [OF t] .
  then have "\<not> CBS_len c < 1"
    using cbs_rep_length [OF c] der_tag_nonempty [of t]
    by (cases "der_tag t") (auto simp: CBS_len_def word_less_nat_alt)
  with h1 have "CBS_peek_asn1_tag c tag \<longleftrightarrow> tag = t" by (simp add: CBS_peek_asn1_tag_def)
  also have "\<dots> \<longleftrightarrow> (\<exists>rest. xs = der_tag tag @ rest)"
    unfolding xs by (metis der_tag.enc_prefix_free(1))
  finally show ?thesis .
qed

end
