(* ===== verification/Cbb.thy ===== *)
theory Cbb
  imports Mem Der
begin

text \<open>
  \<open>crypto/bytestring/cbb.c\<close>, the \<open>CBB\<close> builder: a growing or fixed buffer shared by a chain of
  nested \<open>CBB\<close>s, each waiting for the length of its contents to be written into the bytes reserved
  in front of them. A \<open>CBB *\<close> is its depth in the chain: depth 0 is the top-level \<open>CBB\<close>, depth \<open>d + 1\<close>
  the \<open>child\<close> of depth \<open>d\<close>. A depth past the end of the chain is a child whose \<open>base\<close> a flush has
  reset to NULL. The buffer of a NULL \<open>buf\<close> is the empty block.
\<close>

section \<open>The structures\<close>

record cbb_buffer =
  buf :: bytes
  blen :: size_t
  cap :: size_t
  can_resize :: bool
  error :: bool

record cbb_st =
  offset :: size_t
  pending_len_len :: u8
  pending_is_asn1 :: bool
  is_child :: bool

record cbb =
  base :: "cbb_buffer option"
  chain :: "cbb_st list"

definition CBB_zero :: cbb where
  "CBB_zero = \<lparr>base = None, chain = [\<lparr>offset = 0, pending_len_len = 0, pending_is_asn1 = False,
     is_child = False\<rparr>]\<rparr>"

definition sizeof_cbb_buffer :: size_t where "sizeof_cbb_buffer = 32"

definition cbb_init :: "allocator \<Rightarrow> bytes \<Rightarrow> size_t \<Rightarrow> (cbb, unit) op" where
  "cbb_init A data n s =
     (case OPENSSL_malloc A sizeof_cbb_buffer of
        None \<Rightarrow> (None, s)
      | Some _ \<Rightarrow>
          (Some (), s\<lparr>base := Some \<lparr>buf = data, blen = 0, cap = n, can_resize = True, error = False\<rparr>\<rparr>))"

text \<open>The initialisers overwrite whatever \<open>*cbb\<close> held, so they take no old state.\<close>

definition CBB_init :: "allocator \<Rightarrow> size_t \<Rightarrow> unit option \<times> cbb" where
  "CBB_init A initial_capacity =
     (case OPENSSL_malloc A initial_capacity of
        None \<Rightarrow> if initial_capacity > 0 then (None, CBB_zero) else cbb_init A [] initial_capacity CBB_zero
      | Some data \<Rightarrow> cbb_init A data initial_capacity CBB_zero)"

definition CBB_init_fixed :: "allocator \<Rightarrow> bytes \<Rightarrow> size_t \<Rightarrow> unit option \<times> cbb" where
  "CBB_init_fixed A data n =
     chk (cbb_init A data n)
       (\<lambda>_ s. (Some (), s\<lparr>base := map_option (can_resize_update (\<lambda>_. False)) (base s)\<rparr>)) CBB_zero"

definition CBB_cleanup :: "nat \<Rightarrow> cbb \<Rightarrow> cbb" where
  "CBB_cleanup d s = (if is_child (chain s ! d) then s else s\<lparr>base := None\<rparr>)"

section \<open>The buffer\<close>

text \<open>An operation on the buffer of a \<open>CBB\<close>, which fails when \<open>base\<close> is NULL.\<close>

definition on_base :: "(cbb_buffer, 'a) op \<Rightarrow> (cbb, 'a) op" where
  "on_base m s =
     (case base s of
        None \<Rightarrow> (None, s)
      | Some b \<Rightarrow> (case m b of (r, b') \<Rightarrow> (r, s\<lparr>base := Some b'\<rparr>)))"

text \<open>The result of the next two is \<open>*out\<close>, as an index into \<open>buf\<close>.\<close>

definition cbb_buffer_reserve :: "allocator \<Rightarrow> size_t \<Rightarrow> (cbb_buffer, size_t) op" where
  "cbb_buffer_reserve A n b =
     (let newlen = blen b + n in
      if newlen < blen b then (None, b\<lparr>error := True\<rparr>)
      else if newlen > cap b then
        (let newcap = cap b * 2 in
         if \<not> can_resize b then (None, b\<lparr>error := True\<rparr>)
         else
           (let newcap = (if newcap < cap b \<or> newcap < newlen then newlen else newcap) in
            case OPENSSL_realloc A (Some (buf b)) newcap of
              None \<Rightarrow> (None, b\<lparr>error := True\<rparr>)
            | Some newbuf \<Rightarrow> (Some (blen b), b\<lparr>buf := newbuf, cap := newcap\<rparr>)))
      else (Some (blen b), b))"

definition cbb_buffer_add :: "allocator \<Rightarrow> size_t \<Rightarrow> (cbb_buffer, size_t) op" where
  "cbb_buffer_add A n =
     chk (cbb_buffer_reserve A n) (\<lambda>out b. (Some out, b\<lparr>blen := blen b + n\<rparr>))"

text \<open>\<open>for (i = n - 1; i < n; i--) { buf[at + i] = v; v >>= 8; }\<close>\<close>

definition write_be :: "nat \<Rightarrow> nat \<Rightarrow> u64 \<Rightarrow> bytes \<Rightarrow> bytes \<times> u64" where
  "write_be n at v xs =
     fold (\<lambda>i (xs, v). (xs[at + i := ucast v], drop_bit 8 v)) (rev [0..<n]) (xs, v)"

definition cbb_buffer_add_u :: "allocator \<Rightarrow> u64 \<Rightarrow> size_t \<Rightarrow> (cbb_buffer, unit) op" where
  "cbb_buffer_add_u A v len_len =
     (if len_len = 0 then succeed ()
      else
        chk (cbb_buffer_add A len_len) (\<lambda>out b.
          case write_be (unat len_len) (unat out) v (buf b) of
            (xs, v') \<Rightarrow>
              if v' \<noteq> 0 then (None, b\<lparr>buf := xs, error := True\<rparr>)
              else (Some (), b\<lparr>buf := xs\<rparr>)))"

section \<open>Flushing\<close>

text \<open>The size of the final ASN.1 length and its first octet, for contents of \<open>n\<close> bytes.\<close>

definition asn1_len_len :: "size_t \<Rightarrow> (u8 \<times> u8 \<times> size_t) option" where
  "asn1_len_len n =
     (if n > 0xfffffffe then None
      else if n > 0xffffff then Some (5, 0x80 OR 4, n)
      else if n > 0xffff then Some (4, 0x80 OR 3, n)
      else if n > 0xff then Some (3, 0x80 OR 2, n)
      else if n > 0x7f then Some (2, 0x80 OR 1, n)
      else Some (1, ucast n, 0))"

definition memmove :: "nat \<Rightarrow> nat \<Rightarrow> nat \<Rightarrow> bytes \<Rightarrow> bytes" where
  "memmove dst src n xs = take dst xs @ take n (drop src xs) @ drop (dst + n) xs"

text \<open>
  The part of \<open>CBB_flush\<close> for an ASN.1 child: make room, write the first octet, and leave the number
  of the remaining length octets in \<open>pending_len_len\<close>. The result is the \<open>len\<close> still to be written.
\<close>

definition flush_asn1 :: "allocator \<Rightarrow> size_t \<Rightarrow> size_t \<Rightarrow> (cbb_buffer \<times> cbb_st, size_t) op" where
  "flush_asn1 A child_start n =
     (\<lambda>(b, c).
       case asn1_len_len n of
         None \<Rightarrow> (None, (b, c))
       | Some (len_len, initial_length_byte, n) \<Rightarrow>
           (case (if len_len \<noteq> 1 then
                    (let extra_bytes = ucast (len_len - 1) in
                     chk (cbb_buffer_add A extra_bytes) (\<lambda>_ b.
                       (Some (), b\<lparr>buf := memmove (unat (child_start + extra_bytes)) (unat child_start)
                          (unat n) (buf b)\<rparr>)) b)
                  else (Some (), b)) of
              (None, b) \<Rightarrow> (None, (b, c))
            | (Some _, b) \<Rightarrow>
                (Some n, (b\<lparr>buf := (buf b)[unat (offset c) := initial_length_byte]\<rparr>,
                  c\<lparr>offset := offset c + 1, pending_len_len := len_len - 1\<rparr>))))"

definition flush_child :: "allocator \<Rightarrow> size_t \<Rightarrow> (cbb_buffer \<times> cbb_st, unit) op" where
  "flush_child A child_start =
     (\<lambda>(b, c).
       let n = blen b - child_start in
       chk (if pending_is_asn1 c then flush_asn1 A child_start n else succeed n)
         (\<lambda>n (b, c).
           case write_be (unat (pending_len_len c)) (unat (offset c)) n (buf b) of
             (xs, n') \<Rightarrow> ((if n' \<noteq> 0 then None else Some ()), (b\<lparr>buf := xs\<rparr>, c)))
         (b, c))"

text \<open>The recursion of \<open>CBB_flush\<close>: the list holds the \<open>CBB\<close>s below the one that is flushed.\<close>

fun cbb_flush_children :: "allocator \<Rightarrow> cbb_buffer \<Rightarrow> cbb_st list \<Rightarrow> bool \<times> cbb_buffer \<times> cbb_st list" where
  "cbb_flush_children A b [] = (\<not> error b, b, [])"
| "cbb_flush_children A b (child # children) =
     (if error b then (False, b, child # children)
      else if pending_len_len child = 0 then (True, b, child # children)
      else
        (let child_start = offset child + ucast (pending_len_len child) in
         case cbb_flush_children A b children of
           (ok, b, children) \<Rightarrow>
             if \<not> ok \<or> child_start < offset child \<or> blen b < child_start
             then (False, b\<lparr>error := True\<rparr>, child # children)
             else
               (case flush_child A child_start (b, child) of
                  (None, (b, child)) \<Rightarrow> (False, b\<lparr>error := True\<rparr>, child # children)
                | (Some _, (b, child)) \<Rightarrow> (True, b, []))))"

definition CBB_flush :: "allocator \<Rightarrow> nat \<Rightarrow> (cbb, unit) op" where
  "CBB_flush A d s =
     (case base s of
        None \<Rightarrow> (None, s)
      | Some b \<Rightarrow>
          if length (chain s) \<le> d then (None, s)
          else
            (case cbb_flush_children A b (drop (Suc d) (chain s)) of
               (ok, b', children) \<Rightarrow>
                 (if ok then Some () else None,
                  s\<lparr>base := Some b', chain := take (Suc d) (chain s) @ children\<rparr>)))"

text \<open>\<open>out_data\<close> and \<open>out_len\<close> say whether the pointers are given; the result is what they receive.\<close>

definition CBB_finish :: "allocator \<Rightarrow> nat \<Rightarrow> bool \<Rightarrow> bool \<Rightarrow> (cbb, bytes option \<times> size_t option) op" where
  "CBB_finish A d out_data out_len s =
     (if is_child (chain s ! d) then (None, s)
      else
        chk (CBB_flush A d) (\<lambda>_ s.
          case base s of
            None \<Rightarrow> (None, s)
          | Some b \<Rightarrow>
              if can_resize b \<and> (\<not> out_data \<or> \<not> out_len) then (None, s)
              else
                (Some (if out_data then Some (buf b) else None, if out_len then Some (blen b) else None),
                 CBB_cleanup d (s\<lparr>base := Some (b\<lparr>buf := []\<rparr>)\<rparr>))) s)"

definition CBB_data :: "nat \<Rightarrow> cbb \<Rightarrow> bytes" where
  "CBB_data d s =
     (case base s of
        None \<Rightarrow> []
      | Some b \<Rightarrow> drop (unat (offset (chain s ! d) + ucast (pending_len_len (chain s ! d)))) (buf b))"

definition CBB_len :: "nat \<Rightarrow> cbb \<Rightarrow> size_t" where
  "CBB_len d s =
     (case base s of
        None \<Rightarrow> 0
      | Some b \<Rightarrow> blen b - offset (chain s ! d) - ucast (pending_len_len (chain s ! d)))"

section \<open>Adding to a builder\<close>

text \<open>\<open>cbb->child = out_contents\<close>, a zeroed \<open>CBB\<close> with the given prefix.\<close>

definition new_child :: "nat \<Rightarrow> size_t \<Rightarrow> u8 \<Rightarrow> bool \<Rightarrow> cbb \<Rightarrow> cbb" where
  "new_child d off len_len asn1 s =
     s\<lparr>chain := take (Suc d) (chain s) @
        [\<lparr>offset = off, pending_len_len = len_len, pending_is_asn1 = asn1, is_child = True\<rparr>]\<rparr>"

definition cbb_add_length_prefixed :: "allocator \<Rightarrow> nat \<Rightarrow> u8 \<Rightarrow> (cbb, unit) op" where
  "cbb_add_length_prefixed A d len_len =
     chk (CBB_flush A d) (\<lambda>_ s.
       let off = blen (the (base s)) in
       chk (on_base (chk (cbb_buffer_add A (ucast len_len)) (\<lambda>prefix_bytes b.
              (Some (),
               b\<lparr>buf := take (unat prefix_bytes) (buf b) @ replicate (unat len_len) 0 @
                  drop (unat prefix_bytes + unat len_len) (buf b)\<rparr>))))
         (\<lambda>_ s. (Some (), new_child d off len_len False s)) s)"

definition CBB_add_u8_length_prefixed :: "allocator \<Rightarrow> nat \<Rightarrow> (cbb, unit) op" where
  "CBB_add_u8_length_prefixed A d = cbb_add_length_prefixed A d 1"

definition CBB_add_u16_length_prefixed :: "allocator \<Rightarrow> nat \<Rightarrow> (cbb, unit) op" where
  "CBB_add_u16_length_prefixed A d = cbb_add_length_prefixed A d 2"

definition CBB_add_u24_length_prefixed :: "allocator \<Rightarrow> nat \<Rightarrow> (cbb, unit) op" where
  "CBB_add_u24_length_prefixed A d = cbb_add_length_prefixed A d 3"

definition CBB_add_bytes :: "allocator \<Rightarrow> nat \<Rightarrow> bytes \<Rightarrow> size_t \<Rightarrow> (cbb, unit) op" where
  "CBB_add_bytes A d data n =
     chk (CBB_flush A d) (\<lambda>_.
       on_base (chk (cbb_buffer_add A n) (\<lambda>dest b.
         (Some (), b\<lparr>buf := take (unat dest) (buf b) @ take (unat n) data @
            drop (unat dest + unat n) (buf b)\<rparr>))))"

definition CBB_add_space :: "allocator \<Rightarrow> nat \<Rightarrow> size_t \<Rightarrow> (cbb, size_t) op" where
  "CBB_add_space A d n = chk (CBB_flush A d) (\<lambda>_. on_base (cbb_buffer_add A n))"

definition CBB_reserve :: "allocator \<Rightarrow> nat \<Rightarrow> size_t \<Rightarrow> (cbb, size_t) op" where
  "CBB_reserve A d n = chk (CBB_flush A d) (\<lambda>_. on_base (cbb_buffer_reserve A n))"

definition CBB_did_write :: "nat \<Rightarrow> size_t \<Rightarrow> (cbb, unit) op" where
  "CBB_did_write d n s =
     on_base (\<lambda>b.
       let newlen = blen b + n in
       if Suc d < length (chain s) \<or> newlen < blen b \<or> newlen > cap b then (None, b)
       else (Some (), b\<lparr>blen := newlen\<rparr>)) s"

definition CBB_add_u8 :: "allocator \<Rightarrow> nat \<Rightarrow> u8 \<Rightarrow> (cbb, unit) op" where
  "CBB_add_u8 A d v = chk (CBB_flush A d) (\<lambda>_. on_base (cbb_buffer_add_u A (ucast v) 1))"

definition CBB_add_u16 :: "allocator \<Rightarrow> nat \<Rightarrow> u16 \<Rightarrow> (cbb, unit) op" where
  "CBB_add_u16 A d v = chk (CBB_flush A d) (\<lambda>_. on_base (cbb_buffer_add_u A (ucast v) 2))"

definition CBB_add_u24 :: "allocator \<Rightarrow> nat \<Rightarrow> u32 \<Rightarrow> (cbb, unit) op" where
  "CBB_add_u24 A d v = chk (CBB_flush A d) (\<lambda>_. on_base (cbb_buffer_add_u A (ucast v) 3))"

definition CBB_add_u32 :: "allocator \<Rightarrow> nat \<Rightarrow> u32 \<Rightarrow> (cbb, unit) op" where
  "CBB_add_u32 A d v = chk (CBB_flush A d) (\<lambda>_. on_base (cbb_buffer_add_u A (ucast v) 4))"

definition CBB_add_u64 :: "allocator \<Rightarrow> nat \<Rightarrow> u64 \<Rightarrow> (cbb, unit) op" where
  "CBB_add_u64 A d v = chk (CBB_flush A d) (\<lambda>_. on_base (cbb_buffer_add_u A v 8))"

definition CBB_add_u16le :: "allocator \<Rightarrow> nat \<Rightarrow> u16 \<Rightarrow> (cbb, unit) op" where
  "CBB_add_u16le A d v = CBB_add_u16 A d (CRYPTO_bswap2 v)"

definition CBB_add_u32le :: "allocator \<Rightarrow> nat \<Rightarrow> u32 \<Rightarrow> (cbb, unit) op" where
  "CBB_add_u32le A d v = CBB_add_u32 A d (CRYPTO_bswap4 v)"

definition CBB_add_u64le :: "allocator \<Rightarrow> nat \<Rightarrow> u64 \<Rightarrow> (cbb, unit) op" where
  "CBB_add_u64le A d v = CBB_add_u64 A d (CRYPTO_bswap8 v)"

definition CBB_discard_child :: "nat \<Rightarrow> cbb \<Rightarrow> cbb" where
  "CBB_discard_child d s =
     (if length (chain s) \<le> Suc d then s
      else s\<lparr>base := map_option (blen_update (\<lambda>_. offset (chain s ! Suc d))) (base s),
             chain := take (Suc d) (chain s)\<rparr>)"

section \<open>The buffer, abstractly\<close>

text \<open>The bytes written so far, and the invariant of the buffer. Capacities stay below \<open>2 ^ 63\<close>.\<close>

definition content :: "cbb_buffer \<Rightarrow> bytes" where
  "content b = take (unat (blen b)) (buf b)"

definition buffer_ok :: "cbb_buffer \<Rightarrow> bool" where
  "buffer_ok b \<longleftrightarrow> length (buf b) = unat (cap b) \<and> unat (blen b) \<le> unat (cap b) \<and> unat (cap b) \<le> 2 ^ 63"

definition same_kind :: "cbb_buffer \<Rightarrow> cbb_buffer \<Rightarrow> bool" where
  "same_kind b b' \<longleftrightarrow> error b' = error b \<and> can_resize b' = can_resize b \<and>
     (\<not> can_resize b \<longrightarrow> cap b' = cap b)"

text \<open>Whether the buffer can come to hold \<open>n\<close> bytes: memory is available, or the fixed block is large enough.\<close>

definition roomy :: "allocator \<Rightarrow> cbb_buffer \<Rightarrow> nat \<Rightarrow> bool" where
  "roomy A b n \<longleftrightarrow> (if can_resize b then \<forall>m. alloc_ok A m else n \<le> unat (cap b))"

lemma same_kind_refl [simp]: "same_kind b b"
  by (simp add: same_kind_def)

lemma same_kind_trans [trans]: "same_kind a b \<Longrightarrow> same_kind b c \<Longrightarrow> same_kind a c"
  by (auto simp: same_kind_def)

lemma roomy_mono: "roomy A b n \<Longrightarrow> m \<le> n \<Longrightarrow> roomy A b m"
  by (auto simp: roomy_def)

lemma roomy_same_kind: "same_kind b b' \<Longrightarrow> roomy A b' n \<longleftrightarrow> roomy A b n"
  by (auto simp: roomy_def same_kind_def)

lemma length_content [simp]: "buffer_ok b \<Longrightarrow> length (content b) = unat (blen b)"
  by (simp add: content_def buffer_ok_def)

lemma content_buf: "content (b\<lparr>buf := xs\<rparr>) = take (unat (blen b)) xs"
  by (simp add: content_def)

lemma buffer_ok_lens: "buffer_ok b \<Longrightarrow> unat (blen b) \<le> length (buf b)"
  by (simp add: buffer_ok_def)

lemma realloc_resizes:
  "roomy A b n \<Longrightarrow> can_resize b \<Longrightarrow> OPENSSL_realloc A (Some old) m \<noteq> None"
  by (simp add: roomy_def OPENSSL_realloc_def OPENSSL_malloc_def Let_def)

lemma cbb_buffer_reserve_cases:
  assumes b: "buffer_ok b" and sz: "unat (blen b) + unat n \<le> 2 ^ 62"
  obtains (fail) "cbb_buffer_reserve A n b = (None, b\<lparr>error := True\<rparr>)"
      "\<not> roomy A b (unat (blen b) + unat n)"
  | (ok) b' where "cbb_buffer_reserve A n b = (Some (blen b), b')" "buffer_ok b'" "same_kind b b'"
      "blen b' = blen b" "content b' = content b" "unat (blen b) + unat n \<le> unat (cap b')"
proof -
  have ok: "length (buf b) = unat (cap b)" "unat (blen b) \<le> unat (cap b)" "unat (cap b) \<le> 2 ^ 63"
    using b by (simp_all add: buffer_ok_def)
  have newlen: "unat (blen b + n) = unat (blen b) + unat n"
    using sz by (simp add: unat_word_ariths)
  then have no: "\<not> blen b + n < blen b" by (simp add: word_less_nat_alt)
  show thesis
  proof (cases "blen b + n > cap b")
    case False
    have "cbb_buffer_reserve A n b = (Some (blen b), b)"
      using no False by (simp add: cbb_buffer_reserve_def Let_def)
    with ok(2) False newlen b show thesis by (intro that(2)) (auto simp: word_less_nat_alt not_less)
  next
    case big: True
    let ?newcap = "if cap b * 2 < cap b \<or> cap b * 2 < blen b + n then blen b + n else cap b * 2"
    have cap: "unat (cap b) < 2 ^ 62" using big newlen sz by (simp add: word_less_nat_alt)
    then have cap2: "unat (cap b * 2) = 2 * unat (cap b)" by (simp add: unat_word_ariths)
    have nc: "unat (blen b) + unat n \<le> unat ?newcap" "unat ?newcap \<le> 2 ^ 63" "unat (cap b) \<le> unat ?newcap"
      using newlen cap2 cap big sz by (auto simp: word_less_nat_alt)
    show thesis
    proof (cases "can_resize b")
      case False
      then have "cbb_buffer_reserve A n b = (None, b\<lparr>error := True\<rparr>)"
        using no big by (simp add: cbb_buffer_reserve_def Let_def)
      moreover have "\<not> roomy A b (unat (blen b) + unat n)"
        using False big newlen by (simp add: roomy_def word_less_nat_alt)
      ultimately show thesis by (rule fail)
    next
      case True
      show thesis
      proof (cases "OPENSSL_realloc A (Some (buf b)) ?newcap")
        case None
        then have "cbb_buffer_reserve A n b = (None, b\<lparr>error := True\<rparr>)"
          using no big True by (simp add: cbb_buffer_reserve_def Let_def)
        moreover have "\<not> roomy A b (unat (blen b) + unat n)"
          using None realloc_resizes [OF _ True] by blast
        ultimately show thesis by (rule fail)
      next
        case (Some new)
        let ?b' = "b\<lparr>buf := new, cap := ?newcap\<rparr>"
        have "length new = unat ?newcap" "take (unat (cap b)) new = buf b"
          using realloc_Some [OF Some] nc ok by (simp_all add: min_absorb1)
        moreover from this(2) have "take (unat (blen b)) new = take (unat (blen b)) (buf b)"
          using ok(2) by (metis min_absorb1 take_take)
        ultimately have "buffer_ok ?b'" "content ?b' = content b"
          using nc ok by (auto simp: buffer_ok_def content_def)
        moreover have "cbb_buffer_reserve A n b = (Some (blen b), ?b')"
          using no big True Some by (simp add: cbb_buffer_reserve_def Let_def)
        moreover have "same_kind b ?b'" using True by (simp add: same_kind_def)
        ultimately show thesis using nc by (intro that(2) [of ?b']) simp_all
      qed
    qed
  qed
qed

text \<open>After an addition the new bytes are part of the buffer, with whatever the block held there.\<close>

lemma cbb_buffer_add_cases:
  assumes b: "buffer_ok b" and sz: "unat (blen b) + unat n \<le> 2 ^ 62"
  obtains (fail) "cbb_buffer_add A n b = (None, b\<lparr>error := True\<rparr>)"
      "\<not> roomy A b (unat (blen b) + unat n)"
  | (ok) b' where "cbb_buffer_add A n b = (Some (blen b), b')" "buffer_ok b'" "same_kind b b'"
      "unat (blen b') = unat (blen b) + unat n" "take (unat (blen b)) (content b') = content b"
proof (rule cbb_buffer_reserve_cases [OF b sz, of A])
  assume "cbb_buffer_reserve A n b = (None, b\<lparr>error := True\<rparr>)" "\<not> roomy A b (unat (blen b) + unat n)"
  then show thesis by (intro fail) (simp_all add: cbb_buffer_add_def)
next
  fix b'
  assume r: "cbb_buffer_reserve A n b = (Some (blen b), b')" "buffer_ok b'" "same_kind b b'"
      "blen b' = blen b" "content b' = content b" "unat (blen b) + unat n \<le> unat (cap b')"
  let ?b = "b'\<lparr>blen := blen b' + n\<rparr>"
  have l: "unat (blen b' + n) = unat (blen b) + unat n"
    using sz r(4) by (simp add: unat_word_ariths)
  have "cbb_buffer_add A n b = (Some (blen b), ?b)" using r(1) by (simp add: cbb_buffer_add_def)
  moreover have "buffer_ok ?b" "same_kind b ?b" using r l by (auto simp: buffer_ok_def same_kind_def)
  moreover have "take (unat (blen b)) (content ?b) = content b"
    using r(4,5) l by (simp add: content_def min_absorb1)
  ultimately show thesis using l by (intro ok) simp_all
qed

lemma write_be_eq:
  "at + n \<le> length xs \<Longrightarrow>
   write_be n at v xs = (take at xs @ be_bytes n (unat v) @ drop (at + n) xs, drop_bit (8 * n) v)"
proof (induction n arbitrary: v xs)
  case 0
  then show ?case by (simp add: write_be_def)
next
  case (Suc n)
  let ?xs = "xs[at + n := ucast v]"
  have "write_be (Suc n) at v xs = write_be n at (drop_bit 8 v) ?xs"
    by (simp add: write_be_def)
  also have "\<dots> = (take at ?xs @ be_bytes n (unat (drop_bit 8 v)) @ drop (at + n) ?xs, drop_bit (8 * n) (drop_bit 8 v))"
    using Suc.prems by (intro Suc.IH) simp
  also have "drop (at + n) ?xs = ucast v # drop (at + Suc n) xs"
    using Suc.prems by (simp add: drop_update_swap Cons_nth_drop_Suc [symmetric])
  also have "unat (drop_bit 8 v) = unat v div 256" by (simp add: unat_drop_bit)
  also have "(ucast v :: u8) = of_nat (unat v)" by simp
  also have "drop_bit (8 * n) (drop_bit 8 v) = drop_bit (8 * Suc n) v" by (simp add: add.commute)
  finally show ?case using Suc.prems by simp
qed

lemma drop_bit_0_iff: "drop_bit (8 * n) v = 0 \<longleftrightarrow> unat (v :: u64) < 256 ^ n"
proof -
  have "drop_bit (8 * n) v = 0 \<longleftrightarrow> unat v div 2 ^ (8 * n) = 0"
    by (simp add: word_unat_eq_iff unat_drop_bit)
  also have "(2::nat) ^ (8 * n) = 256 ^ n" by (simp add: power_mult)
  finally show ?thesis by (simp add: div_eq_0_iff)
qed

text \<open>Writing into the buffer, at an index the content covers.\<close>

lemma content_write:
  assumes b: "buffer_ok b" and n: "at + length ys \<le> unat (blen b)"
  shows "buffer_ok (b\<lparr>buf := take at (buf b) @ ys @ drop (at + length ys) (buf b)\<rparr>)"
    "content (b\<lparr>buf := take at (buf b) @ ys @ drop (at + length ys) (buf b)\<rparr>) =
      take at (content b) @ ys @ drop (at + length ys) (content b)"
  using assms by (auto simp: buffer_ok_def content_def min_absorb1 drop_take)

section \<open>What is left to flush\<close>

text \<open>
  The prefix a child will get in front of contents of \<open>n\<close> bytes, when there is one, and the bytes
  that flushing a chain of children turns the content into.
\<close>

definition prefix_of :: "cbb_st \<Rightarrow> nat \<Rightarrow> bytes option" where
  "prefix_of c n =
     (if pending_is_asn1 c then (if n < 2 ^ 32 - 1 then Some (der_length n) else None)
      else if n < 256 ^ unat (pending_len_len c) then Some (be_bytes (unat (pending_len_len c)) n) else None)"

abbreviation body_start :: "cbb_st \<Rightarrow> nat" where
  "body_start c \<equiv> unat (offset c) + unat (pending_len_len c)"

definition fixup_one :: "cbb_st \<Rightarrow> bytes \<Rightarrow> bytes option" where
  "fixup_one c xs = map_option (\<lambda>p. take (unat (offset c)) xs @ p @ drop (body_start c) xs)
     (prefix_of c (length xs - body_start c))"

fun fixup :: "cbb_st list \<Rightarrow> bytes \<Rightarrow> bytes option" where
  "fixup [] xs = Some xs"
| "fixup (c # cs) xs = (case fixup cs xs of None \<Rightarrow> None | Some ys \<Rightarrow> fixup_one c ys)"

text \<open>The children of a chain, outermost first, over a content of \<open>n\<close> bytes.\<close>

fun chain_ok :: "nat \<Rightarrow> cbb_st list \<Rightarrow> bool" where
  "chain_ok n [] = True"
| "chain_ok n (c # cs) =
     (0 < unat (pending_len_len c) \<and> unat (pending_len_len c) \<le> 8 \<and>
      (pending_is_asn1 c \<longrightarrow> pending_len_len c = 1) \<and> is_child c \<and>
      body_start c \<le> n \<and> (\<forall>c' \<in> set cs. body_start c \<le> unat (offset c')) \<and> chain_ok n cs)"

lemma chain_ok_mono: "chain_ok n cs \<Longrightarrow> n \<le> m \<Longrightarrow> chain_ok m cs"
  by (induction cs) auto

lemma chain_ok_append:
  "chain_ok n (cs @ ds) \<longleftrightarrow> chain_ok n cs \<and> chain_ok n ds \<and>
     (\<forall>c \<in> set cs. \<forall>c' \<in> set ds. body_start c \<le> unat (offset c'))"
  by (induction cs) auto

lemma length_der_length: "n < 2 ^ 32 \<Longrightarrow> 0 < length (der_length n) \<and> length (der_length n) \<le> 5"
  using octets_le_4 [of n] by (simp add: der_length_def)

lemma prefix_of_length:
  assumes "prefix_of c n = Some p" and "pending_is_asn1 c \<Longrightarrow> pending_len_len c = 1"
  shows "unat (pending_len_len c) \<le> length p" "length p \<le> unat (pending_len_len c) + 4"
  using assms length_der_length [of n]
  by (auto simp: prefix_of_def Suc_le_eq split: if_splits)

text \<open>Flushing the children leaves what is in front of them alone, and adds at most four bytes per child.\<close>

lemma fixup_one_props:
  assumes "fixup_one c xs = Some ys" and "pending_is_asn1 c \<Longrightarrow> pending_len_len c = 1"
    and "body_start c \<le> length xs" and "k \<le> unat (offset c)"
  shows "take k ys = take k xs" "length xs \<le> length ys" "length ys \<le> length xs + 4"
proof -
  obtain p where p: "prefix_of c (length xs - body_start c) = Some p"
    and ys: "ys = take (unat (offset c)) xs @ p @ drop (body_start c) xs"
    using assms(1) by (auto simp: fixup_one_def)
  show "take k ys = take k xs" using ys assms(3,4) by (simp add: min_absorb1)
  show "length xs \<le> length ys" "length ys \<le> length xs + 4"
    using ys assms(3) prefix_of_length [OF p assms(2)] by simp_all
qed

lemma fixup_props:
  assumes "fixup cs xs = Some ys" and "chain_ok (length xs) cs" and "\<forall>c \<in> set cs. k \<le> unat (offset c)"
  shows "take k ys = take k xs \<and> length xs \<le> length ys \<and> length ys \<le> length xs + 4 * length cs"
  using assms
proof (induction cs arbitrary: ys k)
  case (Cons c cs)
  then obtain zs where zs: "fixup cs xs = Some zs" "fixup_one c zs = Some ys" by (auto split: option.splits)
  from Cons.prems(2,3) have "\<forall>c' \<in> set cs. k \<le> unat (offset c')" by fastforce
  with Cons.IH [OF zs(1)] Cons.prems(2)
  have "take k zs = take k xs" "length xs \<le> length zs" "length zs \<le> length xs + 4 * length cs" by auto
  with fixup_one_props [OF zs(2), of k] Cons.prems(2,3) show ?case by auto
qed simp

section \<open>Flushing, refined\<close>

lemma octets_eqI: "256 ^ k \<le> n \<Longrightarrow> n < 256 ^ Suc k \<Longrightarrow> octets n = Suc k"
  using octets_iff by blast

lemma asn1_len_len_big: "2 ^ 32 - 1 \<le> unat w \<Longrightarrow> asn1_len_len w = None"
  by (simp add: asn1_len_len_def word_less_nat_alt)

lemma asn1_len_len_Some:
  assumes "unat w < 2 ^ 32 - 1"
  obtains ll ib r where "asn1_len_len w = Some (ll, ib, r)" "1 \<le> unat ll" "unat ll \<le> 5"
    "der_length (unat w) = ib # be_bytes (unat ll - 1) (unat r)" "unat r < 256 ^ (unat ll - 1)"
    "ll = 1 \<or> r = w"
proof -
  let ?n = "unat w"
  note lt = word_less_nat_alt and result = that
  have top: "\<not> w > 0xfffffffe" using assms by (simp add: lt)
  have long: thesis if l: "asn1_len_len w = Some (of_nat (Suc k), 0x80 OR of_nat k, w)"
    and k: "k \<in> {1, 2, 3, 4}" "octets ?n = k" "128 \<le> ?n" for k
  proof (rule result [OF l])
    obtain j where j: "k = Suc j" using k(1) by (cases k) auto
    then show "unat w < 256 ^ (unat (of_nat (Suc k) :: u8) - 1)"
      using k octets_iff [of ?n j] by auto
    show "der_length ?n = (0x80 OR of_nat k) # be_bytes (unat (of_nat (Suc k) :: u8) - 1) (unat w)"
      using k by (auto simp: der_length_def)
  qed (use k in auto)
  consider "?n \<le> 0x7f" | "0x7f < ?n" "?n \<le> 0xff" | "0xff < ?n" "?n \<le> 0xffff"
    | "0xffff < ?n" "?n \<le> 0xffffff" | "0xffffff < ?n" by linarith
  then show thesis
  proof cases
    case 1
    then have "asn1_len_len w = Some (1, ucast w, 0)"
      by (simp add: asn1_len_len_def lt)
    moreover have "der_length ?n = [ucast w]" using 1 by (simp add: der_length_def)
    ultimately show thesis by (intro that [of 1 "ucast w" 0]) simp_all
  next
    case 2
    then have "octets ?n = 1" by (simp add: octets.simps)
    with 2 top show thesis by (intro long [of 1]) (auto simp: asn1_len_len_def lt)
  next
    case 3
    then have "octets ?n = 2" using octets_eqI [of 1 ?n] by simp
    with 3 top show thesis by (intro long [of 2]) (auto simp: asn1_len_len_def lt)
  next
    case 4
    then have "octets ?n = 3" using octets_eqI [of 2 ?n] by simp
    with 4 top show thesis by (intro long [of 3]) (auto simp: asn1_len_len_def lt)
  next
    case 5
    then have "octets ?n = 4" using octets_eqI [of 3 ?n] assms by simp
    with 5 top show thesis by (intro long [of 4]) (auto simp: asn1_len_len_def lt)
  qed
qed

lemma memmove_fill:
  assumes "length C = cs + n" and "take (length C) xs = C" and "length C + e \<le> length xs"
  shows "memmove (cs + e) cs n xs = take (cs + e) xs @ drop cs C @ drop (length C + e) xs"
proof -
  have "xs = C @ drop (length C) xs" using assms(2) by (metis append_take_drop_id)
  then have "take n (drop cs xs) = drop cs C" using assms(1)
    by (metis add.commute assms(2) drop_take diff_add_inverse2)
  then show ?thesis using assms(1) by (simp add: memmove_def ac_simps)
qed

text \<open>The bytes after the length is in place, whether or not the contents had to move.\<close>

lemma length_in_place:
  assumes C: "take L xs = C" "length C = L" and o1: "o1 + 1 + n = L" and e: "L + e \<le> length xs"
    and ms: "ms = take (o1 + 1 + e) xs @ drop (o1 + 1) C @ drop (L + e) xs" and ls: "length ls = e"
  shows "take (L + e) (take (o1 + 1) (ms[o1 := ib]) @ ls @ drop (o1 + 1 + e) (ms[o1 := ib])) =
    take o1 C @ (ib # ls) @ drop (o1 + 1) C"
    "length (take (o1 + 1) (ms[o1 := ib]) @ ls @ drop (o1 + 1 + e) (ms[o1 := ib])) = length xs"
proof -
  have lt: "o1 + 1 + e \<le> length xs" "o1 < length xs" using o1 e by simp_all
  have t: "take (o1 + 1) (ms[o1 := ib]) = take o1 C @ [ib]"
  proof -
    have "take o1 ms = take o1 xs" using ms lt by (simp add: min_absorb1)
    also have "\<dots> = take o1 C" using C(1) o1 by (metis le_add1 add.assoc min_absorb1 take_take)
    finally have "take o1 ms = take o1 C" .
    moreover have "o1 < length ms" using ms lt by simp
    ultimately show ?thesis by (simp add: take_Suc_conv_app_nth)
  qed
  have d: "drop (o1 + 1 + e) (ms[o1 := ib]) = drop (o1 + 1) C @ drop (L + e) xs"
    using ms lt by (simp add: drop_update_cancel)
  have "length (take o1 C @ (ib # ls) @ drop (o1 + 1) C) = L + e"
    using C(2) o1 ls by simp
  then show "take (L + e) (take (o1 + 1) (ms[o1 := ib]) @ ls @ drop (o1 + 1 + e) (ms[o1 := ib])) =
    take o1 C @ (ib # ls) @ drop (o1 + 1) C"
    unfolding t d by (metis append.assoc append_Cons append_Nil append_eq_conv_conj)
  show "length (take (o1 + 1) (ms[o1 := ib]) @ ls @ drop (o1 + 1 + e) (ms[o1 := ib])) = length xs"
    unfolding t d using C(2) o1 ls e by simp
qed

text \<open>A fixed-width prefix.\<close>

lemma flush_child_plain:
  assumes b: "buffer_ok b" and c: "\<not> pending_is_asn1 c" "body_start c \<le> unat (blen b)"
    and cs: "unat child_start = body_start c"
  shows "case flush_child A child_start (b, c) of
      (None, _) \<Rightarrow> fixup_one c (content b) = None
    | (Some _, (b', c')) \<Rightarrow> buffer_ok b' \<and> same_kind b b' \<and> fixup_one c (content b) = Some (content b')"
proof -
  let ?n = "blen b - child_start" and ?k = "unat (pending_len_len c)" and ?o = "unat (offset c)"
  have n: "unat ?n = unat (blen b) - body_start c"
    using c cs by (simp add: unat_sub_le word_le_nat_alt)
  let ?xs = "take ?o (buf b) @ be_bytes ?k (unat ?n) @ drop (?o + ?k) (buf b)"
  have w: "write_be ?k ?o ?n (buf b) = (?xs, drop_bit (8 * ?k) ?n)"
    by (rule write_be_eq) (use c(2) buffer_ok_lens [OF b] in linarith)
  have fx: "fixup_one c (content b) =
      (if drop_bit (8 * ?k) ?n = 0 then Some (take ?o (content b) @ be_bytes ?k (unat ?n) @ drop (?o + ?k) (content b))
       else None)"
    unfolding drop_bit_0_iff using b c(1) n by (simp add: fixup_one_def prefix_of_def)
  have f: "flush_child A child_start (b, c) =
      ((if drop_bit (8 * ?k) ?n \<noteq> 0 then None else Some ()), (b\<lparr>buf := ?xs\<rparr>, c))"
    using c(1) w by (simp add: flush_child_def Let_def)
  have "?o + length (be_bytes ?k (unat ?n)) \<le> unat (blen b)" using c(2) by simp
  from content_write [OF b this] show ?thesis
    unfolding f fx by (simp add: same_kind_def)
qed

text \<open>An ASN.1 length, which may need more room than the byte reserved for it.\<close>

lemma flush_child_asn1:
  assumes b: "buffer_ok b" and sz: "unat (blen b) + 4 \<le> 2 ^ 62"
    and c: "pending_is_asn1 c" "pending_len_len c = 1" "body_start c \<le> unat (blen b)"
    and cs: "unat child_start = body_start c"
  shows "case flush_child A child_start (b, c) of
      (None, _) \<Rightarrow> (\<forall>ys. fixup_one c (content b) = Some ys \<longrightarrow> \<not> roomy A b (length ys))
    | (Some _, (b', c')) \<Rightarrow> buffer_ok b' \<and> same_kind b b' \<and> fixup_one c (content b) = Some (content b')"
proof -
  let ?n = "blen b - child_start" and ?o = "unat (offset c)" and ?L = "unat (blen b)"
  have bs: "body_start c = ?o + 1" using c(2) by simp
  have n: "unat ?n = ?L - (?o + 1)"
    using c(3) cs bs by (simp add: unat_sub_le word_le_nat_alt)
  have off: "unat (offset c + 1) = ?o + 1"
    using c(3) bs sz by (simp add: unat_word_ariths)
  show ?thesis
  proof (cases "unat ?n < 2 ^ 32 - 1")
    case False
    then have "fst (flush_child A child_start (b, c)) = None"
      using asn1_len_len_big [of ?n] c(1) by (simp add: flush_child_def flush_asn1_def Let_def)
    moreover have "fixup_one c (content b) = None"
      using False n b c(1) bs by (simp add: fixup_one_def prefix_of_def)
    ultimately show ?thesis by (auto split: prod.splits)
  next
    case True
    then obtain ll ib r where l: "asn1_len_len ?n = Some (ll, ib, r)" "1 \<le> unat ll" "unat ll \<le> 5"
      "der_length (unat ?n) = ib # be_bytes (unat ll - 1) (unat r)" "unat r < 256 ^ (unat ll - 1)"
      "ll = 1 \<or> r = ?n"
      by (rule asn1_len_len_Some)
    have "fixup_one c (content b) = Some (take ?o (content b) @ der_length (unat ?n) @ drop (?o + 1) (content b))"
      using True n b c(1) bs by (simp add: fixup_one_def prefix_of_def)
    then have fx: "fixup_one c (content b) =
        Some (take ?o (content b) @ (ib # be_bytes (unat ll - 1) (unat r)) @ drop (?o + 1) (content b))"
      unfolding l(4) .
    have lenfx: "length (take ?o (content b) @ (ib # be_bytes (unat ll - 1) (unat r)) @ drop (?o + 1) (content b)) =
        ?L + (unat ll - 1)"
      using b c(3) bs by simp
    have ll1: "unat (ll - 1) = unat ll - 1" using l(2) by (simp add: unat_sub_le word_le_nat_alt)
    show ?thesis
    proof (cases "ll = 1")
      case True
      let ?b' = "b\<lparr>buf := (buf b)[?o := ib]\<rparr>"
      have "flush_asn1 A child_start ?n (b, c) = (Some r, (?b', c\<lparr>offset := offset c + 1, pending_len_len := 0\<rparr>))"
        using l(1) True by (simp add: flush_asn1_def)
      moreover have "r = 0" using l(5) True by (simp add: unat_eq_0)
      ultimately have f: "flush_child A child_start (b, c) =
          (Some (), (?b', c\<lparr>offset := offset c + 1, pending_len_len := 0\<rparr>))"
        using c(1) by (simp add: flush_child_def Let_def write_be_def)
      have "?o < length (buf b)" using c(3) bs buffer_ok_lens [OF b] by linarith
      then have "(buf b)[?o := ib] = take ?o (buf b) @ [ib] @ drop (?o + 1) (buf b)"
        by (simp add: upd_conv_take_nth_drop)
      with content_write [OF b, of ?o "[ib]"] c(3) bs True show ?thesis
        unfolding f fx by (simp add: same_kind_def)
    next
      case False
      let ?e = "ucast (ll - 1) :: size_t"
      have e: "unat ?e = unat ll - 1" by (simp add: unat_ucast_up ll1)
      have sz': "unat (blen b) + unat ?e \<le> 2 ^ 62" using sz l(3) unfolding e by linarith
      have r: "r = ?n" using l(6) False by simp
      show ?thesis
      proof (rule cbb_buffer_add_cases [OF b sz', of A])
        assume f: "cbb_buffer_add A ?e b = (None, b\<lparr>error := True\<rparr>)" "\<not> roomy A b (unat (blen b) + unat ?e)"
        then have "fst (flush_child A child_start (b, c)) = None"
          using l(1) False c(1) by (simp add: flush_child_def flush_asn1_def Let_def)
        then obtain st where st: "flush_child A child_start (b, c) = (None, st)"
          by (cases "flush_child A child_start (b, c)") auto
        show ?thesis unfolding st prod.case option.case fx
          using f(2) unfolding e lenfx [symmetric] by blast
      next
        fix b1
        assume b1: "cbb_buffer_add A ?e b = (Some (blen b), b1)" "buffer_ok b1" "same_kind b b1"
          "unat (blen b1) = unat (blen b) + unat ?e" "take (unat (blen b)) (content b1) = content b"
        let ?ms = "memmove (unat (child_start + ?e)) (unat child_start) (unat r) (buf b1)"
        let ?us = "?ms[?o := ib]"
        let ?ws = "take (?o + 1) ?us @ be_bytes (unat ll - 1) (unat r) @ drop (?o + 1 + (unat ll - 1)) ?us"
        have xs: "take ?L (buf b1) = content b"
          using b1(4,5) by (simp add: content_def min_absorb1)
        have o1: "?o + 1 + unat r = ?L" using n r c(3) bs by simp
        have le: "?L + (unat ll - 1) \<le> length (buf b1)"
          using buffer_ok_lens [OF b1(2)] b1(4) e by simp
        have "unat (child_start + ?e) = ?o + 1 + (unat ll - 1)"
          using cs bs c(3) sz l(3) by (simp add: unat_word_ariths e)
        then have ms: "?ms = take (?o + 1 + (unat ll - 1)) (buf b1) @ drop (?o + 1) (content b) @
            drop (?L + (unat ll - 1)) (buf b1)"
          using memmove_fill [of "content b" "?o + 1" "unat r" "buf b1" "unat ll - 1"] b o1 xs le cs bs by simp
        note place = length_in_place [OF xs length_content [OF b] o1 le ms length_be_bytes, of ib "unat r"]
        have "length ?us = length (buf b1)" using ms o1 le b by simp
        then have w: "write_be (unat ll - 1) (?o + 1) r ?us = (?ws, drop_bit (8 * (unat ll - 1)) r)"
          by (intro write_be_eq) (use o1 le in linarith)
        have z: "drop_bit (8 * (unat ll - 1)) r = 0" using l(5) by (simp only: drop_bit_0_iff)
        have f: "flush_child A child_start (b, c) =
            (Some (), (b1\<lparr>buf := ?ws\<rparr>, c\<lparr>offset := offset c + 1, pending_len_len := ll - 1\<rparr>))"
          using l(1) False c(1) b1(1) w z
          by (simp add: flush_child_def flush_asn1_def Let_def off ll1 del: drop_drop)
        have "buffer_ok (b1\<lparr>buf := ?ws\<rparr>)"
          using b1(2) place(2) b by (simp add: buffer_ok_def)
        moreover have "content (b1\<lparr>buf := ?ws\<rparr>) =
            take ?o (content b) @ (ib # be_bytes (unat ll - 1) (unat r)) @ drop (?o + 1) (content b)"
          unfolding place(1) [symmetric] by (simp only: content_buf b1(4) e)
        moreover have "same_kind b (b1\<lparr>buf := ?ws\<rparr>)" using b1(3) by (simp add: same_kind_def)
        ultimately show ?thesis unfolding f fx by simp
      qed
    qed
  qed
qed

lemma flush_child_refines:
  assumes b: "buffer_ok b" and sz: "unat (blen b) + 4 \<le> 2 ^ 62"
    and c: "chain_ok (unat (blen b)) [c]" and cs: "unat child_start = body_start c"
  shows "case flush_child A child_start (b, c) of
      (None, _) \<Rightarrow> (\<forall>ys. fixup_one c (content b) = Some ys \<longrightarrow> \<not> roomy A b (length ys))
    | (Some _, (b', c')) \<Rightarrow> buffer_ok b' \<and> same_kind b b' \<and> fixup_one c (content b) = Some (content b')"
proof (cases "pending_is_asn1 c")
  case True
  then show ?thesis using flush_child_asn1 [OF b sz True _ _ cs] c by simp
next
  case False
  then show ?thesis using flush_child_plain [OF b False _ cs, of A] c
    by (auto split: prod.splits option.splits)
qed

text \<open>The recursion of \<open>CBB_flush\<close> computes \<open>fixup\<close> or fails.\<close>

lemma cbb_flush_children_refines:
  assumes "buffer_ok b" and "\<not> error b" and "chain_ok (unat (blen b)) cs"
    and "unat (blen b) + 4 * length cs \<le> 2 ^ 62"
  shows "case cbb_flush_children A b cs of
      (True, b', cs') \<Rightarrow> cs' = [] \<and> buffer_ok b' \<and> same_kind b b' \<and> fixup cs (content b) = Some (content b')
    | (False, b', cs') \<Rightarrow> (\<forall>ys. fixup cs (content b) = Some ys \<longrightarrow> \<not> roomy A b (length ys))"
  using assms
proof (induction cs)
  case Nil
  then show ?case by simp
next
  case (Cons c cs)
  have pl: "pending_len_len c \<noteq> 0" "unat (pending_len_len c) \<le> 8" "body_start c \<le> unat (blen b)"
    using Cons.prems(3) by (auto simp: unat_eq_0)
  let ?cs = "offset c + ucast (pending_len_len c)"
  have start: "unat ?cs = body_start c"
    using pl(3) Cons.prems(4) by (simp add: unat_word_ariths unat_ucast_up)
  have IH: "case cbb_flush_children A b cs of
      (True, b', cs') \<Rightarrow> cs' = [] \<and> buffer_ok b' \<and> same_kind b b' \<and> fixup cs (content b) = Some (content b')
    | (False, b', cs') \<Rightarrow> (\<forall>ys. fixup cs (content b) = Some ys \<longrightarrow> \<not> roomy A b (length ys))"
    using Cons by simp
  obtain ok b1 cs1 where r: "cbb_flush_children A b cs = (ok, b1, cs1)" by (metis prod_cases3)
  show ?case
  proof (cases ok)
    case False
    then have "\<forall>ys. fixup cs (content b) = Some ys \<longrightarrow> \<not> roomy A b (length ys)" using IH r by simp
    moreover have "\<forall>ys zs. fixup cs (content b) = Some ys \<longrightarrow> fixup_one c ys = Some zs \<longrightarrow> length ys \<le> length zs"
    proof (intro allI impI)
      fix ys zs
      assume "fixup cs (content b) = Some ys" "fixup_one c ys = Some zs"
      then show "length ys \<le> length zs"
        using fixup_props [of cs "content b" ys 0] Cons.prems(1,3) pl(3) by (intro fixup_one_props(2)) auto
    qed
    ultimately have "\<forall>zs. fixup (c # cs) (content b) = Some zs \<longrightarrow> \<not> roomy A b (length zs)"
      by (auto split: option.splits dest: roomy_mono)
    then show ?thesis using False r Cons.prems(2) pl(1) by (simp add: Let_def)
  next
    case True
    then have b1: "buffer_ok b1" "same_kind b b1" "fixup cs (content b) = Some (content b1)"
      using IH r by auto
    then have len: "unat (blen b) \<le> unat (blen b1)" "unat (blen b1) \<le> unat (blen b) + 4 * length cs"
      using fixup_props [OF b1(3), of 0] Cons.prems(1,3) by auto
    have g: "\<not> ?cs < offset c" "\<not> blen b1 < ?cs"
      using start pl(3) len(1) by (simp_all add: word_less_nat_alt)
    have c1: "chain_ok (unat (blen b1)) [c]" using Cons.prems(3) len(1) by simp
    have "unat (blen b1) + 4 \<le> 2 ^ 62" using len(2) Cons.prems(4) by simp
    note fc = flush_child_refines [OF b1(1) this c1 start, of A]
    have code: "cbb_flush_children A b (c # cs) =
       (case flush_child A ?cs (b1, c) of
          (None, (b, child)) \<Rightarrow> (False, b\<lparr>error := True\<rparr>, child # cs1)
        | (Some _, (b, child)) \<Rightarrow> (True, b, []))"
      using Cons.prems(2) pl(1) r True g by (simp add: Let_def)
    have spec: "fixup (c # cs) (content b) = fixup_one c (content b1)" using b1(3) by simp
    obtain res b2 c2 where f: "flush_child A ?cs (b1, c) = (res, (b2, c2))" by (metis prod_cases3)
    show ?thesis
    proof (cases res)
      case None
      with fc f show ?thesis unfolding code spec roomy_same_kind [OF b1(2)] by simp
    next
      case (Some u)
      with fc f b1(2) show ?thesis unfolding code spec by (auto intro: same_kind_trans)
    qed
  qed
qed

end
