(* ===== verification/Cbb_Spec.thy ===== *)
theory Cbb_Spec
  imports Cbb
begin

text \<open>
  What a builder operation promises. The view of a \<open>CBB\<close> is the byte string a flush of it would
  leave; \<open>writes A d m e w\<close> says that the operation \<open>m\<close> on the \<open>CBB\<close> at depth \<open>d\<close> appends \<open>e\<close> to its
  view, or fails because memory or the fixed block ran out, because an earlier child had outgrown
  its prefix, or because \<open>e\<close> is \<open>None\<close>. The promise composes, so the encoding of a whole program of
  nested additions follows from one lemma per operation.
\<close>

section \<open>Views\<close>

definition view :: "nat \<Rightarrow> cbb \<Rightarrow> bytes option" where
  "view d s = (case base s of None \<Rightarrow> None | Some b \<Rightarrow> fixup (drop (Suc d) (chain s)) (content b))"

definition cbb_inv :: "cbb \<Rightarrow> bool" where
  "cbb_inv s \<longleftrightarrow> (\<exists>b. base s = Some b \<and> buffer_ok b \<and> \<not> error b \<and> chain_ok (unat (blen b)) (tl (chain s)))"

abbreviation bufr :: "cbb \<Rightarrow> cbb_buffer" where "bufr s \<equiv> the (base s)"

text \<open>The bytes in the buffer and the most that flushing can add to them.\<close>

definition weight :: "cbb \<Rightarrow> nat" where
  "weight s = unat (blen (bufr s)) + 4 * (length (chain s) - 1)"

definition cat :: "bytes option \<Rightarrow> bytes option \<Rightarrow> bytes option" where
  "cat e f = (case e of None \<Rightarrow> None | Some x \<Rightarrow> map_option (\<lambda>y. x @ y) f)"

lemma cat_simps [simp]:
  "cat None f = None" "cat (Some x) (Some y) = Some (x @ y)" "cat e None = None"
  "cat (Some []) f = f" "cat e (Some []) = e"
  by (cases e; cases f; simp add: cat_def)+

lemma cat_assoc: "cat (cat e f) g = cat e (cat f g)"
  by (cases e; cases f; cases g; simp add: cat_def)

lemma cat_Some: "cat (Some x) f = map_option (\<lambda>y. x @ y) f"
  by (simp add: cat_def)

definition writes :: "allocator \<Rightarrow> nat \<Rightarrow> (cbb, 'a) op \<Rightarrow> bytes option \<Rightarrow> nat \<Rightarrow> bool" where
  "writes A d m e w \<longleftrightarrow>
     (\<forall>s. cbb_inv s \<and> d < length (chain s) \<and> weight s + w \<le> 2 ^ 62 \<longrightarrow>
        (case m s of
           (None, s') \<Rightarrow> \<forall>V x. view d s = Some V \<longrightarrow> e = Some x \<longrightarrow> \<not> roomy A (bufr s) (length V + length x)
         | (Some _, s') \<Rightarrow>
             cbb_inv s' \<and> take (Suc d) (chain s') = take (Suc d) (chain s) \<and>
               view d s' = cat (view d s) e \<and> weight s' \<le> weight s + w \<and>
               same_kind (bufr s) (bufr s')))"

lemma writesD_fail:
  assumes "writes A d m e w" and "cbb_inv s" and "d < length (chain s)" and "weight s + w \<le> 2 ^ 62"
    and "m s = (None, s')" and "view d s = Some V" and "e = Some x"
  shows "\<not> roomy A (bufr s) (length V + length x)"
  using assms unfolding writes_def by fastforce

lemma writesE:
  assumes "writes A d m e w" and "cbb_inv s" and "d < length (chain s)" and "weight s + w \<le> 2 ^ 62"
    and "m s = (Some a, s')"
  shows "cbb_inv s'" "take (Suc d) (chain s') = take (Suc d) (chain s)"
    "view d s' = cat (view d s) e" "weight s' \<le> weight s + w" "same_kind (bufr s) (bufr s')"
  using assms unfolding writes_def by fastforce+

lemma writesI:
  assumes "\<And>s s' V x. cbb_inv s \<Longrightarrow> d < length (chain s) \<Longrightarrow> weight s + w \<le> 2 ^ 62 \<Longrightarrow>
      m s = (None, s') \<Longrightarrow> view d s = Some V \<Longrightarrow> e = Some x \<Longrightarrow> \<not> roomy A (bufr s) (length V + length x)"
    and "\<And>s a s'. cbb_inv s \<Longrightarrow> d < length (chain s) \<Longrightarrow> weight s + w \<le> 2 ^ 62 \<Longrightarrow> m s = (Some a, s') \<Longrightarrow>
      cbb_inv s' \<and> take (Suc d) (chain s') = take (Suc d) (chain s) \<and>
        view d s' = cat (view d s) e \<and> weight s' \<le> weight s + w \<and> same_kind (bufr s) (bufr s')"
  shows "writes A d m e w"
  unfolding writes_def
proof (intro allI impI)
  fix s
  assume s: "cbb_inv s \<and> d < length (chain s) \<and> weight s + w \<le> 2 ^ 62"
  obtain r s' where m: "m s = (r, s')" by (cases "m s")
  show "case m s of
           (None, s') \<Rightarrow> \<forall>V x. view d s = Some V \<longrightarrow> e = Some x \<longrightarrow> \<not> roomy A (bufr s) (length V + length x)
         | (Some _, s') \<Rightarrow>
             cbb_inv s' \<and> take (Suc d) (chain s') = take (Suc d) (chain s) \<and>
               view d s' = cat (view d s) e \<and> weight s' \<le> weight s + w \<and>
               same_kind (bufr s) (bufr s')"
    using assms(1) [of s s'] assms(2) [of s _ s'] s m by (cases r) auto
qed

lemma chain_length_kept:
  "take (Suc d) c' = take (Suc d) c \<Longrightarrow> d < length c \<Longrightarrow> d < length c'"
  by (metis length_take min_less_iff_conj less_Suc_eq)

lemma writes_weaken: "writes A d m e w \<Longrightarrow> w \<le> v \<Longrightarrow> writes A d m e v"
  unfolding writes_def by (fastforce split: prod.splits option.splits)

text \<open>Composition.\<close>

lemma writes_chk:
  assumes m: "writes A d m e v" and f: "\<And>a. writes A d (f a) g w"
  shows "writes A d (chk m f) (cat e g) (v + w)"
proof (rule writesI)
  fix s s' V x
  assume s: "cbb_inv s" "d < length (chain s)" "weight s + (v + w) \<le> 2 ^ 62"
    and fail: "chk m f s = (None, s')" and V: "view d s = Some V" and x: "cat e g = Some x"
  from s(3) have sv: "weight s + v \<le> 2 ^ 62" by simp
  from x obtain y z where yz: "e = Some y" "g = Some z" "x = y @ z"
    by (auto simp: cat_def split: option.splits)
  show "\<not> roomy A (bufr s) (length V + length x)"
  proof (cases "m s")
    case (Pair r s1)
    show ?thesis
    proof (cases r)
      case None
      with Pair have "\<not> roomy A (bufr s) (length V + length y)"
        using writesD_fail [OF m s(1,2) sv _ V yz(1)] by simp
      then show ?thesis
        using yz(3) roomy_mono [of A "bufr s" "length V + length x" "length V + length y"] by auto
    next
      case (Some a)
      with Pair have ms: "m s = (Some a, s1)" by simp
      note s1 = writesE [OF m s(1,2) sv ms]
      have "\<not> roomy A (bufr s1) (length (V @ y) + length z)"
      proof (rule writesD_fail [OF f [of a] s1(1)])
        show "d < length (chain s1)" using s1(2) s(2) by (rule chain_length_kept)
        show "weight s1 + w \<le> 2 ^ 62" using s1(4) s(3) by simp
        show "f a s1 = (None, s')" using fail ms by simp
        show "view d s1 = Some (V @ y)" using s1(3) V yz(1) by simp
      qed (rule yz(2))
      then show ?thesis using roomy_same_kind [OF s1(5)] yz(3) by (simp add: add.assoc)
    qed
  qed
next
  fix s b s'
  assume s: "cbb_inv s" "d < length (chain s)" "weight s + (v + w) \<le> 2 ^ 62"
    and ok: "chk m f s = (Some b, s')"
  from ok obtain a s1 where ms: "m s = (Some a, s1)" and fs: "f a s1 = (Some b, s')" by (rule chk_SomeE)
  from s(3) have sv: "weight s + v \<le> 2 ^ 62" by simp
  note s1 = writesE [OF m s(1,2) sv ms]
  have d1: "d < length (chain s1)" using s1(2) s(2) by (rule chain_length_kept)
  have w1: "weight s1 + w \<le> 2 ^ 62" using s1(4) s(3) by simp
  note s' = writesE [OF f s1(1) d1 w1 fs]
  have "view d s' = cat (view d s) (cat e g)"
    using s'(3) s1(3) by (simp add: cat_assoc)
  moreover have "weight s' \<le> weight s + (v + w)" using s'(4) s1(4) by simp
  ultimately show "cbb_inv s' \<and> take (Suc d) (chain s') = take (Suc d) (chain s) \<and>
      view d s' = cat (view d s) (cat e g) \<and> weight s' \<le> weight s + (v + w) \<and>
      same_kind (bufr s) (bufr s')"
    using s1 s' same_kind_trans by metis
qed

section \<open>Flushing and appending\<close>

lemma inv_flush_setup:
  assumes "cbb_inv s" and "d < length (chain s)"
  obtains b where "base s = Some b" "buffer_ok b" "\<not> error b" "chain_ok (unat (blen b)) (tl (chain s))"
    "chain_ok (unat (blen b)) (drop (Suc d) (chain s))" "view d s = fixup (drop (Suc d) (chain s)) (content b)"
    "tl (take (Suc d) (chain s)) @ drop (Suc d) (chain s) = tl (chain s)"
proof -
  from assms(1) obtain b where b: "base s = Some b" "buffer_ok b" "\<not> error b"
    "chain_ok (unat (blen b)) (tl (chain s))" by (auto simp: cbb_inv_def)
  have t: "tl (take (Suc d) (chain s)) @ drop (Suc d) (chain s) = tl (chain s)"
    using assms(2) by (cases "chain s") auto
  then have "chain_ok (unat (blen b)) (drop (Suc d) (chain s))"
    using b(4) chain_ok_append by metis
  with b t that show thesis by (simp add: view_def)
qed

lemma CBB_flush_cases:
  assumes s: "cbb_inv s" "d < length (chain s)" "weight s \<le> 2 ^ 62"
  obtains (fail) s' where "CBB_flush A d s = (None, s')"
      "\<forall>V. view d s = Some V \<longrightarrow> \<not> roomy A (bufr s) (length V)"
  | (ok) s' b where "CBB_flush A d s = (Some (), s')" "base s' = Some b" "view d s = Some (content b)"
      "cbb_inv s'" "chain s' = take (Suc d) (chain s)" "same_kind (bufr s) b" "weight s' \<le> weight s"
proof -
  obtain b where b: "base s = Some b" "buffer_ok b" "\<not> error b" "chain_ok (unat (blen b)) (tl (chain s))"
    "chain_ok (unat (blen b)) (drop (Suc d) (chain s))" "view d s = fixup (drop (Suc d) (chain s)) (content b)"
    and t: "tl (take (Suc d) (chain s)) @ drop (Suc d) (chain s) = tl (chain s)"
    by (rule inv_flush_setup [OF s(1,2)])
  have sz: "unat (blen b) + 4 * length (drop (Suc d) (chain s)) \<le> 2 ^ 62"
    using s(2,3) b(1) by (simp add: weight_def)
  note r = cbb_flush_children_refines [OF b(2,3,5) sz, of A]
  obtain ok b1 cs1 where f: "cbb_flush_children A b (drop (Suc d) (chain s)) = (ok, b1, cs1)"
    by (metis prod_cases3)
  have code: "CBB_flush A d s =
      (if ok then Some () else None, s\<lparr>base := Some b1, chain := take (Suc d) (chain s) @ cs1\<rparr>)"
    using b(1) s(2) f by (simp add: CBB_flush_def not_le)
  show thesis
  proof (cases ok)
    case False
    with r f b(1,6) code show thesis by (intro fail) auto
  next
    case True
    with r f have o: "cs1 = []" "buffer_ok b1" "same_kind b b1" "view d s = Some (content b1)"
      by (simp_all add: b(6))
    have "fixup (drop (Suc d) (chain s)) (content b) = Some (content b1)" using o(4) b(6) by simp
    then have len: "unat (blen b) \<le> unat (blen b1)"
      "unat (blen b1) \<le> unat (blen b) + 4 * length (drop (Suc d) (chain s))"
      using fixup_props [of "drop (Suc d) (chain s)" "content b" "content b1" 0] b(2,5) o(2) by auto
    have "chain_ok (unat (blen b1)) (tl (take (Suc d) (chain s)))"
      using b(4) len(1) chain_ok_append [of _ "tl (take (Suc d) (chain s))"] chain_ok_mono unfolding t [symmetric] by blast
    moreover have "\<not> error b1" using o(3) b(3) by (simp add: same_kind_def)
    ultimately have "cbb_inv (s\<lparr>base := Some b1, chain := take (Suc d) (chain s)\<rparr>)"
      using o(2) by (simp add: cbb_inv_def)
    moreover have "weight (s\<lparr>base := Some b1, chain := take (Suc d) (chain s)\<rparr>) \<le> weight s"
      using len(2) b(1) s(2) by (simp add: weight_def min_absorb2)
    ultimately show thesis using True o b(1) code by (intro that(2)) simp_all
  qed
qed

lemma writes_flush: "writes A d (CBB_flush A d) (Some []) 0"
proof (rule writesI)
  fix s s' V and x :: bytes
  assume s: "cbb_inv s" "d < length (chain s)" "weight s + 0 \<le> 2 ^ 62" "CBB_flush A d s = (None, s')"
    "view d s = Some V" "Some [] = Some x"
  then have w: "weight s \<le> 2 ^ 62" by simp
  show "\<not> roomy A (bufr s) (length V + length x)"
    by (rule CBB_flush_cases [OF s(1,2) w, of A]) (use s in auto)
next
  fix s a s'
  assume s: "cbb_inv s" "d < length (chain s)" "weight s + 0 \<le> 2 ^ 62" "CBB_flush A d s = (Some a, s')"
  then have w: "weight s \<le> 2 ^ 62" by simp
  show "cbb_inv s' \<and> take (Suc d) (chain s') = take (Suc d) (chain s) \<and>
      view d s' = cat (view d s) (Some []) \<and> weight s' \<le> weight s + 0 \<and> same_kind (bufr s) (bufr s')"
    by (rule CBB_flush_cases [OF s(1,2) w, of A]) (use s(4) in \<open>auto simp: view_def\<close>)
qed

text \<open>An operation on the buffer alone, behind a flush.\<close>

definition appends :: "allocator \<Rightarrow> (cbb_buffer, 'a) op \<Rightarrow> bytes option \<Rightarrow> nat \<Rightarrow> bool" where
  "appends A m e w \<longleftrightarrow>
     (\<forall>b. buffer_ok b \<and> unat (blen b) + w \<le> 2 ^ 62 \<longrightarrow>
        (case m b of
           (None, b') \<Rightarrow> \<forall>x. e = Some x \<longrightarrow> \<not> roomy A b (unat (blen b) + length x)
         | (Some r, b') \<Rightarrow> \<exists>x. e = Some x \<and> buffer_ok b' \<and> same_kind b b' \<and> content b' = content b @ x \<and>
             length x \<le> w))"

lemma on_base_step:
  assumes m: "appends A m e w" and s: "cbb_inv s" "weight s + w \<le> 2 ^ 62"
  shows "case on_base m s of
      (None, _) \<Rightarrow> \<forall>x. e = Some x \<longrightarrow> \<not> roomy A (bufr s) (unat (blen (bufr s)) + length x)
    | (Some r, s') \<Rightarrow> \<exists>x. e = Some x \<and> cbb_inv s' \<and> chain s' = chain s \<and>
        content (bufr s') = content (bufr s) @ x \<and> same_kind (bufr s) (bufr s') \<and>
        weight s' \<le> weight s + w"
proof -
  obtain b where b: "base s = Some b" "buffer_ok b" "\<not> error b" "chain_ok (unat (blen b)) (tl (chain s))"
    using s(1) by (auto simp: cbb_inv_def)
  have "unat (blen b) + w \<le> 2 ^ 62" using s(2) b(1) by (simp add: weight_def)
  then have r: "case m b of
           (None, b') \<Rightarrow> \<forall>x. e = Some x \<longrightarrow> \<not> roomy A b (unat (blen b) + length x)
         | (Some r, b') \<Rightarrow> \<exists>x. e = Some x \<and> buffer_ok b' \<and> same_kind b b' \<and> content b' = content b @ x \<and>
             length x \<le> w"
    using m b(2) by (simp add: appends_def)
  obtain res b' where mb: "m b = (res, b')" by (cases "m b")
  then have code: "on_base m s = (res, s\<lparr>base := Some b'\<rparr>)" using b(1) by (simp add: on_base_def)
  show ?thesis
  proof (cases res)
    case None
    with r mb code b(1) show ?thesis by simp
  next
    case (Some a)
    with r mb obtain x where x: "e = Some x" "buffer_ok b'" "same_kind b b'" "content b' = content b @ x"
      "length x \<le> w" by auto
    then have len: "unat (blen b') = unat (blen b) + length x"
      using length_content [OF b(2)] length_content [OF x(2)] by simp
    then have "chain_ok (unat (blen b')) (tl (chain s))" using b(4) by (auto intro: chain_ok_mono)
    moreover have "\<not> error b'" using x(3) b(3) by (simp add: same_kind_def)
    ultimately have "cbb_inv (s\<lparr>base := Some b'\<rparr>)" using x(2) by (simp add: cbb_inv_def)
    with x b(1) len code Some show ?thesis by (simp add: weight_def)
  qed
qed

lemma writes_append:
  assumes m: "appends A m e w"
  shows "writes A d (chk (CBB_flush A d) (\<lambda>_. on_base m)) e w"
proof (rule writesI)
  fix s s' V x
  assume s: "cbb_inv s" "d < length (chain s)" "weight s + w \<le> 2 ^ 62"
    "chk (CBB_flush A d) (\<lambda>_. on_base m) s = (None, s')" "view d s = Some V" "e = Some x"
  then have w: "weight s \<le> 2 ^ 62" by simp
  show "\<not> roomy A (bufr s) (length V + length x)"
  proof (rule CBB_flush_cases [OF s(1,2) w, of A])
    assume "\<forall>V. view d s = Some V \<longrightarrow> \<not> roomy A (bufr s) (length V)"
    then show ?thesis using s(5) roomy_mono [of A "bufr s" "length V + length x" "length V"] by auto
  next
    fix s1 b
    assume s1: "CBB_flush A d s = (Some (), s1)" "base s1 = Some b" "view d s = Some (content b)"
      "cbb_inv s1" "chain s1 = take (Suc d) (chain s)" "same_kind (bufr s) b" "weight s1 \<le> weight s"
    have w1: "weight s1 + w \<le> 2 ^ 62" using s1(7) s(3) by simp
    have "on_base m s1 = (None, s')" using s(4) s1(1) by simp
    with on_base_step [OF m s1(4) w1] s(6) s1(2)
    have "\<not> roomy A b (unat (blen b) + length x)" by simp
    moreover have "buffer_ok b" using s1(2,4) by (auto simp: cbb_inv_def)
    ultimately show ?thesis using s1(3,6) s(5) roomy_same_kind by (metis length_content option.inject)
  qed
next
  fix s a s'
  assume s: "cbb_inv s" "d < length (chain s)" "weight s + w \<le> 2 ^ 62"
    "chk (CBB_flush A d) (\<lambda>_. on_base m) s = (Some a, s')"
  then have w: "weight s \<le> 2 ^ 62" by simp
  show "cbb_inv s' \<and> take (Suc d) (chain s') = take (Suc d) (chain s) \<and>
      view d s' = cat (view d s) e \<and> weight s' \<le> weight s + w \<and> same_kind (bufr s) (bufr s')"
  proof (rule CBB_flush_cases [OF s(1,2) w, of A])
    fix s1
    assume "CBB_flush A d s = (None, s1)"
    with s(4) show ?thesis by simp
  next
    fix s1 b
    assume s1: "CBB_flush A d s = (Some (), s1)" "base s1 = Some b" "view d s = Some (content b)"
      "cbb_inv s1" "chain s1 = take (Suc d) (chain s)" "same_kind (bufr s) b" "weight s1 \<le> weight s"
    have w1: "weight s1 + w \<le> 2 ^ 62" using s1(7) s(3) by simp
    have "on_base m s1 = (Some a, s')" using s(4) s1(1) by simp
    with on_base_step [OF m s1(4) w1] s1(2) obtain x where x: "e = Some x" "cbb_inv s'" "chain s' = chain s1"
      "content (bufr s') = content b @ x" "same_kind b (bufr s')" "weight s' \<le> weight s1 + w" by auto
    from x(2) obtain b' where "base s' = Some b'" by (auto simp: cbb_inv_def)
    then have "view d s' = Some (content b @ x)" using x(3,4) s1(5) by (simp add: view_def)
    with x s1 show ?thesis by (auto intro: same_kind_trans)
  qed
qed

section \<open>Integers and bytes\<close>

lemma appends_fill:
  assumes len: "length ys = unat n" and w: "length ys \<le> w"
  shows "appends A (chk (cbb_buffer_add A n) (\<lambda>dest b.
      (Some r, b\<lparr>buf := take (unat dest) (buf b) @ ys @ drop (unat dest + unat n) (buf b)\<rparr>))) (Some ys) w"
  unfolding appends_def
proof (intro allI impI)
  fix b
  assume "buffer_ok b \<and> unat (blen b) + w \<le> 2 ^ 62"
  then have b: "buffer_ok b" "unat (blen b) + unat n \<le> 2 ^ 62" using len w by auto
  let ?m = "chk (cbb_buffer_add A n) (\<lambda>dest b.
      (Some r, b\<lparr>buf := take (unat dest) (buf b) @ ys @ drop (unat dest + unat n) (buf b)\<rparr>))"
  show "case ?m b of
           (None, b') \<Rightarrow> \<forall>x. Some ys = Some x \<longrightarrow> \<not> roomy A b (unat (blen b) + length x)
         | (Some r, b') \<Rightarrow> \<exists>x. Some ys = Some x \<and> buffer_ok b' \<and> same_kind b b' \<and>
             content b' = content b @ x \<and> length x \<le> w"
  proof (rule cbb_buffer_add_cases [OF b, of A])
    assume "cbb_buffer_add A n b = (None, b\<lparr>error := True\<rparr>)" "\<not> roomy A b (unat (blen b) + unat n)"
    then show ?thesis using len by simp
  next
    fix b1
    assume b1: "cbb_buffer_add A n b = (Some (blen b), b1)" "buffer_ok b1" "same_kind b b1"
      "unat (blen b1) = unat (blen b) + unat n" "take (unat (blen b)) (content b1) = content b"
    have at: "unat (blen b) + length ys \<le> unat (blen b1)" using b1(4) len by simp
    have "drop (unat (blen b) + length ys) (content b1) = []"
      using b1(2,4) len by simp
    with content_write [OF b1(2) at] b1(1,3,5) w show ?thesis
      by (simp add: len same_kind_def)
  qed
qed

lemma appends_add_u:
  assumes k: "0 < unat n" and w: "unat n \<le> w"
  shows "appends A (cbb_buffer_add_u A v n)
    (if unat v < 256 ^ unat n then Some (be_bytes (unat n) (unat v)) else None) w"
  unfolding appends_def
proof (intro allI impI)
  fix b
  assume "buffer_ok b \<and> unat (blen b) + w \<le> 2 ^ 62"
  then have b: "buffer_ok b" "unat (blen b) + unat n \<le> 2 ^ 62" using w by auto
  have n0: "n \<noteq> 0" using k by auto
  let ?e = "if unat v < 256 ^ unat n then Some (be_bytes (unat n) (unat v)) else None"
  show "case cbb_buffer_add_u A v n b of
           (None, b') \<Rightarrow> \<forall>x. ?e = Some x \<longrightarrow> \<not> roomy A b (unat (blen b) + length x)
         | (Some r, b') \<Rightarrow> \<exists>x. ?e = Some x \<and> buffer_ok b' \<and> same_kind b b' \<and>
             content b' = content b @ x \<and> length x \<le> w"
  proof (rule cbb_buffer_add_cases [OF b, of A])
    assume "cbb_buffer_add A n b = (None, b\<lparr>error := True\<rparr>)" "\<not> roomy A b (unat (blen b) + unat n)"
    then show ?thesis using n0 by (simp add: cbb_buffer_add_u_def)
  next
    fix b1
    assume b1: "cbb_buffer_add A n b = (Some (blen b), b1)" "buffer_ok b1" "same_kind b b1"
      "unat (blen b1) = unat (blen b) + unat n" "take (unat (blen b)) (content b1) = content b"
    let ?xs = "take (unat (blen b)) (buf b1) @ be_bytes (unat n) (unat v) @ drop (unat (blen b) + unat n) (buf b1)"
    have at: "unat (blen b) + length (be_bytes (unat n) (unat v)) \<le> unat (blen b1)" using b1(4) by simp
    have wr: "write_be (unat n) (unat (blen b)) v (buf b1) = (?xs, drop_bit (8 * unat n) v)"
      by (rule write_be_eq) (use buffer_ok_lens [OF b1(2)] b1(4) in linarith)
    have "drop (unat (blen b) + unat n) (content b1) = []" using b1(2,4) by simp
    with content_write [OF b1(2) at] b1(1,3,5) n0 wr w show ?thesis
      by (simp add: cbb_buffer_add_u_def drop_bit_0_iff same_kind_def)
  qed
qed

lemma writes_add_bytes:
  "unat n \<le> length data \<Longrightarrow> writes A d (CBB_add_bytes A d data n) (Some (take (unat n) data)) (unat n)"
  unfolding CBB_add_bytes_def by (intro writes_append appends_fill) simp_all

lemma writes_add_u8: "writes A d (CBB_add_u8 A d v) (Some [v]) 1"
proof -
  have "appends A (cbb_buffer_add_u A (ucast v) 1) (Some [v]) 1"
    using appends_add_u [of 1 1 A "ucast v"] u8_cases_lt [of v] by (simp add: unat_ucast_up)
  then show ?thesis unfolding CBB_add_u8_def by (rule writes_append)
qed

lemma writes_add_u16: "writes A d (CBB_add_u16 A d v) (Some (be_bytes 2 (unat v))) 2"
proof -
  have "unat v < 256 ^ 2" using unsigned_less [of v, where 'a = nat] by simp
  then have "appends A (cbb_buffer_add_u A (ucast v) 2) (Some (be_bytes 2 (unat v))) 2"
    using appends_add_u [of 2 2 A "ucast v"] by (simp add: unat_ucast_up)
  then show ?thesis unfolding CBB_add_u16_def by (rule writes_append)
qed

lemma writes_add_u24:
  "writes A d (CBB_add_u24 A d v) (if unat v < 2 ^ 24 then Some (be_bytes 3 (unat v)) else None) 3"
proof -
  have "appends A (cbb_buffer_add_u A (ucast v) 3) (if unat v < 2 ^ 24 then Some (be_bytes 3 (unat v)) else None) 3"
    using appends_add_u [of 3 3 A "ucast v"] by (cases "unat v < 2 ^ 24") (simp_all add: unat_ucast_up)
  then show ?thesis unfolding CBB_add_u24_def by (rule writes_append)
qed

lemma writes_add_u32: "writes A d (CBB_add_u32 A d v) (Some (be_bytes 4 (unat v))) 4"
proof -
  have "unat v < 256 ^ 4" using unsigned_less [of v, where 'a = nat] by simp
  then have "appends A (cbb_buffer_add_u A (ucast v) 4) (Some (be_bytes 4 (unat v))) 4"
    using appends_add_u [of 4 4 A "ucast v"] by (simp add: unat_ucast_up)
  then show ?thesis unfolding CBB_add_u32_def by (rule writes_append)
qed

lemma writes_add_u64: "writes A d (CBB_add_u64 A d v) (Some (be_bytes 8 (unat v))) 8"
proof -
  have "unat v < 256 ^ 8" using unat_lt_size_max [of v] by simp
  then have "appends A (cbb_buffer_add_u A v 8) (Some (be_bytes 8 (unat v))) 8"
    using appends_add_u [of 8 8 A v] by simp
  then show ?thesis unfolding CBB_add_u64_def by (rule writes_append)
qed

text \<open>The little-endian writers swap the value first, so they append its bytes least significant first.\<close>

lemma writes_swapped:
  fixes v :: "'a::len word"
  assumes "\<And>bs. length bs = k \<Longrightarrow> f (of_nat (be_nat bs)) = (of_nat (be_nat (rev bs)) :: 'a word)"
    and "256 ^ k = (2::nat) ^ LENGTH('a)"
  shows "be_bytes k (unat (f v)) = rev (be_bytes k (unat v))"
proof -
  have v: "unat v < 256 ^ k" using unsigned_less [of v, where 'a = nat] assms(2) by simp
  then have "f v = of_nat (be_nat (rev (be_bytes k (unat v))))"
    using assms(1) [of "be_bytes k (unat v)"] by (simp add: be_nat_be_bytes_id)
  moreover have "be_nat (rev (be_bytes k (unat v))) < 2 ^ LENGTH('a)"
    using be_nat_lt [of "rev (be_bytes k (unat v))"] assms(2) by simp
  ultimately have "unat (f v) = be_nat (rev (be_bytes k (unat v)))" by (simp add: unat_of_nat)
  then show ?thesis using be_bytes_be_nat [of "rev (be_bytes k (unat v))"] by simp
qed

lemma writes_add_le:
  "writes A d (CBB_add_u16le A d u) (Some (rev (be_bytes 2 (unat u)))) 2"
  "writes A d (CBB_add_u32le A d v) (Some (rev (be_bytes 4 (unat v)))) 4"
  "writes A d (CBB_add_u64le A d w) (Some (rev (be_bytes 8 (unat w)))) 8"
proof -
  have "be_bytes 2 (unat (CRYPTO_bswap2 u)) = rev (be_bytes 2 (unat u))"
    by (rule writes_swapped) (auto elim!: length_2E simp: bswap2_be_nat)
  then show "writes A d (CBB_add_u16le A d u) (Some (rev (be_bytes 2 (unat u)))) 2"
    using writes_add_u16 [of A d "CRYPTO_bswap2 u"] by (simp add: CBB_add_u16le_def)
  have "be_bytes 4 (unat (CRYPTO_bswap4 v)) = rev (be_bytes 4 (unat v))"
    by (rule writes_swapped) (auto elim!: length_4E simp: bswap4_be_nat)
  then show "writes A d (CBB_add_u32le A d v) (Some (rev (be_bytes 4 (unat v)))) 4"
    using writes_add_u32 [of A d "CRYPTO_bswap4 v"] by (simp add: CBB_add_u32le_def)
  have "be_bytes 8 (unat (CRYPTO_bswap8 w)) = rev (be_bytes 8 (unat w))"
    by (rule writes_swapped) (auto elim!: length_8E simp: bswap8_be_nat)
  then show "writes A d (CBB_add_u64le A d w) (Some (rev (be_bytes 8 (unat w)))) 8"
    using writes_add_u64 [of A d "CRYPTO_bswap8 w"] by (simp add: CBB_add_u64le_def)
qed

section \<open>Nested contents\<close>

text \<open>
  \<open>opens\<close>: the operation writes \<open>pre\<close>, reserves \<open>unat k\<close> zero bytes and makes a child that waits for
  its length.
\<close>

definition opens :: "allocator \<Rightarrow> nat \<Rightarrow> (cbb, unit) op \<Rightarrow> bytes \<Rightarrow> u8 \<Rightarrow> bool \<Rightarrow> nat \<Rightarrow> bool" where
  "opens A d m pre k asn1 w \<longleftrightarrow>
     (\<forall>s. cbb_inv s \<and> d < length (chain s) \<and> weight s + w \<le> 2 ^ 62 \<longrightarrow>
        (case m s of
           (None, s') \<Rightarrow> \<forall>V. view d s = Some V \<longrightarrow> \<not> roomy A (bufr s) (length V + length pre + unat k)
         | (Some _, s') \<Rightarrow>
             \<exists>V off. view d s = Some V \<and> cbb_inv s' \<and> unat off = length V + length pre \<and>
               chain s' = take (Suc d) (chain s) @
                 [\<lparr>offset = off, pending_len_len = k, pending_is_asn1 = asn1, is_child = True\<rparr>] \<and>
               content (bufr s') = V @ pre @ replicate (unat k) 0 \<and> weight s' \<le> weight s + w \<and>
               same_kind (bufr s) (bufr s')))"

definition wrapped :: "bytes \<Rightarrow> u8 \<Rightarrow> bool \<Rightarrow> bytes option \<Rightarrow> bytes option" where
  "wrapped pre k asn1 e =
     (case e of
        None \<Rightarrow> None
      | Some x \<Rightarrow>
          (if asn1 then (if length x < 2 ^ 32 - 1 then Some (pre @ der_length (length x) @ x) else None)
           else if length x < 256 ^ unat k then Some (pre @ prefixed (unat k) x) else None))"

lemma fixup_wrapped:
  assumes "unat off = length V + length pre"
  shows "fixup_one \<lparr>offset = off, pending_len_len = k, pending_is_asn1 = asn1, is_child = True\<rparr>
      (V @ pre @ replicate (unat k) 0 @ x) = map_option (\<lambda>y. V @ y) (wrapped pre k asn1 (Some x))"
  using assms by (simp add: fixup_one_def prefix_of_def wrapped_def prefixed_def)

lemma wrapped_length:
  assumes "wrapped pre k asn1 (Some x) = Some y" and "asn1 \<Longrightarrow> k = 1"
  shows "length pre + unat k + length x \<le> length y"
  using assms length_der_length [of "length x"]
  by (auto simp: wrapped_def prefixed_def Suc_le_eq split: if_splits)

lemma writes_nested:
  assumes m: "opens A d m pre k asn1 v" and f: "\<And>a. writes A (Suc d) (f a) e w"
    and k: "asn1 \<Longrightarrow> k = 1"
  shows "writes A d (chk m f) (wrapped pre k asn1 e) (v + w)"
proof (rule writesI)
  fix s s' V y
  assume s: "cbb_inv s" "d < length (chain s)" "weight s + (v + w) \<le> 2 ^ 62"
    and fail: "chk m f s = (None, s')" and V: "view d s = Some V" and y: "wrapped pre k asn1 e = Some y"
  from y obtain x where x: "e = Some x" by (cases e) (auto simp: wrapped_def)
  have ly: "length pre + unat k + length x \<le> length y"
    using wrapped_length [of pre k asn1 x y] y x k by simp
  have sv: "weight s + v \<le> 2 ^ 62" using s(3) by simp
  obtain r s1 where ms: "m s = (r, s1)" by (cases "m s")
  have op: "case m s of
           (None, s') \<Rightarrow> \<forall>V. view d s = Some V \<longrightarrow> \<not> roomy A (bufr s) (length V + length pre + unat k)
         | (Some _, s') \<Rightarrow>
             \<exists>V off. view d s = Some V \<and> cbb_inv s' \<and> unat off = length V + length pre \<and>
               chain s' = take (Suc d) (chain s) @
                 [\<lparr>offset = off, pending_len_len = k, pending_is_asn1 = asn1, is_child = True\<rparr>] \<and>
               content (bufr s') = V @ pre @ replicate (unat k) 0 \<and> weight s' \<le> weight s + v \<and>
               same_kind (bufr s) (bufr s')"
    using m s(1,2) sv by (simp add: opens_def)
  have "\<not> roomy A (bufr s) (length V + length pre + unat k + length x)"
  proof (cases r)
    case None
    with op ms V have "\<not> roomy A (bufr s) (length V + length pre + unat k)" by simp
    then show ?thesis using roomy_mono le_add1 by blast
  next
    case (Some a)
    with op ms V obtain off where s1: "cbb_inv s1" "unat off = length V + length pre"
      "chain s1 = take (Suc d) (chain s) @
                 [\<lparr>offset = off, pending_len_len = k, pending_is_asn1 = asn1, is_child = True\<rparr>]"
      "content (bufr s1) = V @ pre @ replicate (unat k) 0" "weight s1 \<le> weight s + v"
      "same_kind (bufr s) (bufr s1)" by auto
    from s1(1) obtain b1 where b1: "base s1 = Some b1" by (auto simp: cbb_inv_def)
    have "\<not> roomy A (bufr s1) (length (V @ pre @ replicate (unat k) 0) + length x)"
    proof (rule writesD_fail [OF f [of a] s1(1)])
      show "Suc d < length (chain s1)" using s1(3) s(2) by simp
      show "weight s1 + w \<le> 2 ^ 62" using s1(5) s(3) by simp
      show "f a s1 = (None, s')" using fail ms Some by simp
      show "view (Suc d) s1 = Some (V @ pre @ replicate (unat k) 0)"
        using b1 s1(3,4) s(2) by (simp add: view_def)
    qed (rule x)
    then show ?thesis using roomy_same_kind [OF s1(6)] by (simp add: add.assoc)
  qed
  then show "\<not> roomy A (bufr s) (length V + length y)"
    using ly roomy_mono [of A "bufr s" "length V + length y" "length V + length pre + unat k + length x"]
    by auto
next
  fix s a' s'
  assume s: "cbb_inv s" "d < length (chain s)" "weight s + (v + w) \<le> 2 ^ 62"
    and ok: "chk m f s = (Some a', s')"
  have sv: "weight s + v \<le> 2 ^ 62" using s(3) by simp
  from ok obtain a s1 where ms: "m s = (Some a, s1)" and fs: "f a s1 = (Some a', s')" by (rule chk_SomeE)
  let ?c = "\<lambda>off. \<lparr>offset = off, pending_len_len = k, pending_is_asn1 = asn1, is_child = True\<rparr>"
  from m s(1,2) sv ms obtain V off where s1: "view d s = Some V" "cbb_inv s1" "unat off = length V + length pre"
      "chain s1 = take (Suc d) (chain s) @ [?c off]"
      "content (bufr s1) = V @ pre @ replicate (unat k) 0" "weight s1 \<le> weight s + v"
      "same_kind (bufr s) (bufr s1)"
    unfolding opens_def by fastforce
  from s1(2) obtain b1 where b1: "base s1 = Some b1" by (auto simp: cbb_inv_def)
  have d1: "Suc d < length (chain s1)" using s1(4) s(2) by simp
  have w1: "weight s1 + w \<le> 2 ^ 62" using s1(6) s(3) by simp
  note s' = writesE [OF f s1(2) d1 w1 fs]
  have V1: "view (Suc d) s1 = Some (V @ pre @ replicate (unat k) 0)"
    using b1 s1(4,5) s(2) by (simp add: view_def)
  from s'(1) obtain b' where b': "base s' = Some b'" by (auto simp: cbb_inv_def)
  have t: "take (Suc (Suc d)) (chain s') = take (Suc d) (chain s) @ [?c off]"
    using s'(2) s1(4) s(2) by simp
  then have nth: "chain s' ! Suc d = ?c off" "Suc d < length (chain s')"
  proof -
    have "length (take (Suc (Suc d)) (chain s')) = Suc (Suc d)" using t s(2) by simp
    then show l: "Suc d < length (chain s')" by simp
    have "take (Suc (Suc d)) (chain s') ! Suc d = ?c off"
      unfolding t using s(2) by (simp add: nth_append)
    then show "chain s' ! Suc d = ?c off" by simp
  qed
  have keep: "take (Suc d) (chain s') = take (Suc d) (chain s)"
  proof -
    have "take (Suc d) (take (Suc (Suc d)) (chain s')) = take (Suc d) (chain s)"
      unfolding t using s(2) by simp
    then show ?thesis by simp
  qed
  have "drop (Suc d) (chain s') = ?c off # drop (Suc (Suc d)) (chain s')"
    using nth by (metis Cons_nth_drop_Suc)
  then have "view d s' = (case view (Suc d) s' of None \<Rightarrow> None | Some ys \<Rightarrow> fixup_one (?c off) ys)"
    using b' by (simp add: view_def)
  also have "\<dots> = map_option (\<lambda>y. V @ y) (wrapped pre k asn1 e)"
  proof (cases e)
    case None
    then show ?thesis using s'(3) by (simp add: wrapped_def)
  next
    case (Some x)
    then have "view (Suc d) s' = Some (V @ pre @ replicate (unat k) 0 @ x)" using s'(3) V1 by simp
    then show ?thesis using fixup_wrapped [OF s1(3)] Some by simp
  qed
  finally have "view d s' = cat (view d s) (wrapped pre k asn1 e)" using s1(1) by (simp add: cat_Some)
  moreover have "weight s' \<le> weight s + (v + w)" using s'(4) s1(6) by simp
  ultimately show "cbb_inv s' \<and> take (Suc d) (chain s') = take (Suc d) (chain s) \<and>
      view d s' = cat (view d s) (wrapped pre k asn1 e) \<and> weight s' \<le> weight s + (v + w) \<and>
      same_kind (bufr s) (bufr s')"
    using s1(7) s'(1,5) keep same_kind_trans by metis
qed

text \<open>\<open>puts\<close>: a write that leaves no child of its \<open>CBB\<close> pending.\<close>

definition puts :: "allocator \<Rightarrow> nat \<Rightarrow> (cbb, 'a) op \<Rightarrow> bytes option \<Rightarrow> nat \<Rightarrow> bool" where
  "puts A d m e w \<longleftrightarrow> writes A d m e w \<and>
     (\<forall>s a s'. cbb_inv s \<longrightarrow> d < length (chain s) \<longrightarrow> weight s + w \<le> 2 ^ 62 \<longrightarrow> m s = (Some a, s') \<longrightarrow>
        length (chain s') = Suc d)"

lemma puts_writes: "puts A d m e w \<Longrightarrow> writes A d m e w"
  by (simp add: puts_def)

lemma puts_weaken: "puts A d m e w \<Longrightarrow> w \<le> v \<Longrightarrow> puts A d m e v"
  using writes_weaken unfolding puts_def by fastforce

lemma flush_settles:
  assumes "cbb_inv s" and "d < length (chain s)" and "weight s \<le> 2 ^ 62" and "CBB_flush A d s = (Some a, s')"
  shows "length (chain s') = Suc d"
  by (rule CBB_flush_cases [OF assms(1-3), of A]) (use assms(2,4) in auto)

lemma on_base_chain: "on_base m s = (r, s') \<Longrightarrow> chain s' = chain s"
  by (auto simp: on_base_def split: option.splits prod.splits)

lemma puts_append:
  assumes "appends A m e w"
  shows "puts A d (chk (CBB_flush A d) (\<lambda>_. on_base m)) e w"
  unfolding puts_def
proof (intro conjI allI impI)
  show "writes A d (chk (CBB_flush A d) (\<lambda>_. on_base m)) e w" using assms by (rule writes_append)
next
  fix s a s'
  assume s: "cbb_inv s" "d < length (chain s)" "weight s + w \<le> 2 ^ 62"
    "chk (CBB_flush A d) (\<lambda>_. on_base m) s = (Some a, s')"
  then obtain u s1 where "CBB_flush A d s = (Some u, s1)" "on_base m s1 = (Some a, s')"
    by (elim chk_SomeE)
  then show "length (chain s') = Suc d"
    using flush_settles [OF s(1,2)] s(3) on_base_chain by fastforce
qed

lemma puts_chk:
  assumes m: "writes A d m e v" and f: "\<And>a. puts A d (f a) g w"
  shows "puts A d (chk m f) (cat e g) (v + w)"
  unfolding puts_def
proof (intro conjI allI impI)
  show "writes A d (chk m f) (cat e g) (v + w)"
    by (rule writes_chk [OF m]) (rule puts_writes [OF f])
next
  fix s a s'
  assume s: "cbb_inv s" "d < length (chain s)" "weight s + (v + w) \<le> 2 ^ 62" "chk m f s = (Some a, s')"
  then obtain b s1 where ms: "m s = (Some b, s1)" "f b s1 = (Some a, s')" by (elim chk_SomeE)
  have "weight s + v \<le> 2 ^ 62" using s(3) by simp
  note s1 = writesE [OF m s(1,2) this ms(1)]
  from s1(2,4) have "d < length (chain s1)" "weight s1 + w \<le> 2 ^ 62"
    using s(2,3) chain_length_kept by auto
  with f [of b] s1(1) ms(2) show "length (chain s') = Suc d" by (simp add: puts_def)
qed

lemma puts_flush: "puts A d (CBB_flush A d) (Some []) 0"
  unfolding puts_def using writes_flush flush_settles by auto

lemma puts_add_u8: "puts A d (CBB_add_u8 A d v) (Some [v]) 1"
proof -
  have "appends A (cbb_buffer_add_u A (ucast v) 1) (Some [v]) 1"
    using appends_add_u [of 1 1 A "ucast v"] u8_cases_lt [of v] by (simp add: unat_ucast_up)
  then show ?thesis unfolding CBB_add_u8_def by (rule puts_append)
qed

text \<open>
  Opening a child after \<open>pre\<close>: the offset is the length of the buffer after \<open>pre\<close>, and the zero
  bytes that follow are added by \<open>m2\<close>.
\<close>

lemma new_child_inv:
  assumes s: "cbb_inv s" "length (chain s) = Suc d" "body_start c \<le> unat (blen (bufr s))"
    and le: "\<forall>c' \<in> set (tl (chain s)). body_start c' \<le> unat (offset c)"
    and c: "0 < unat (pending_len_len c)" "unat (pending_len_len c) \<le> 8"
      "pending_is_asn1 c \<Longrightarrow> pending_len_len c = 1" "is_child c"
  shows "cbb_inv (new_child d (offset c) (pending_len_len c) (pending_is_asn1 c) s)"
    "weight (new_child d (offset c) (pending_len_len c) (pending_is_asn1 c) s) = weight s + 4"
proof -
  have ne: "chain s \<noteq> []" using s(2) by auto
  have "chain_ok (unat (blen (bufr s))) (tl (chain s) @ [c])"
    using s(1,3) le c unfolding chain_ok_append by (auto simp: cbb_inv_def)
  moreover have "\<lparr>offset = offset c, pending_len_len = pending_len_len c,
      pending_is_asn1 = pending_is_asn1 c, is_child = True\<rparr> = c"
    using c(4) by (cases c) simp
  ultimately show "cbb_inv (new_child d (offset c) (pending_len_len c) (pending_is_asn1 c) s)"
    using s(1,2) ne by (auto simp: cbb_inv_def new_child_def)
  show "weight (new_child d (offset c) (pending_len_len c) (pending_is_asn1 c) s) = weight s + 4"
    using s(2) by (simp add: weight_def new_child_def)
qed

lemma opens_child:
  assumes m1: "puts A d m1 (Some pre) v" and m2: "puts A d m2 (Some (replicate (unat k) 0)) w"
    and k: "0 < unat k" "unat k \<le> 8" "asn1 \<Longrightarrow> k = 1"
  shows "opens A d
    (chk m1 (\<lambda>_ s. let off = blen (bufr s) in chk m2 (\<lambda>_ s. (Some (), new_child d off k asn1 s)) s))
    pre k asn1 (v + w + 4)"
  unfolding opens_def
proof (intro allI impI)
  fix s
  assume "cbb_inv s \<and> d < length (chain s) \<and> weight s + (v + w + 4) \<le> 2 ^ 62"
  then have s: "cbb_inv s" "d < length (chain s)" "weight s + (v + w + 4) \<le> 2 ^ 62" "weight s + v \<le> 2 ^ 62"
    by auto
  let ?m = "chk m1 (\<lambda>_ s. let off = blen (bufr s) in chk m2 (\<lambda>_ s. (Some (), new_child d off k asn1 s)) s)"
  obtain r s1 where ms: "m1 s = (r, s1)" by (cases "m1 s")
  show "case ?m s of
           (None, s') \<Rightarrow> \<forall>V. view d s = Some V \<longrightarrow> \<not> roomy A (bufr s) (length V + length pre + unat k)
         | (Some _, s') \<Rightarrow>
             \<exists>V off. view d s = Some V \<and> cbb_inv s' \<and> unat off = length V + length pre \<and>
               chain s' = take (Suc d) (chain s) @
                 [\<lparr>offset = off, pending_len_len = k, pending_is_asn1 = asn1, is_child = True\<rparr>] \<and>
               content (bufr s') = V @ pre @ replicate (unat k) 0 \<and> weight s' \<le> weight s + (v + w + 4) \<and>
               same_kind (bufr s) (bufr s')"
  proof (cases r)
    case None
    show ?thesis using writesD_fail [OF puts_writes [OF m1] s(1,2,4) _ _ refl, of s1] ms None
      by (auto dest: roomy_mono [of A "bufr s" _ _, OF _ le_add1])
  next
    case (Some a)
    then have ms: "m1 s = (Some a, s1)" using ms by simp
    note w1' = writesE [OF puts_writes [OF m1] s(1,2,4) ms]
    have l1: "length (chain s1) = Suc d" using m1 s(1,2,4) ms by (simp add: puts_def)
    have "view d s1 \<noteq> None" using w1'(1) l1 by (auto simp: view_def cbb_inv_def)
    then obtain V where V: "view d s = Some V" using w1'(3) by (cases "view d s") auto
    then have s1: "view d s = Some V" "cbb_inv s1" "take (Suc d) (chain s1) = take (Suc d) (chain s)"
      "view d s1 = Some (V @ pre)" "weight s1 \<le> weight s + v" "same_kind (bufr s) (bufr s1)"
      using w1' by auto
    have w1: "weight s1 + w \<le> 2 ^ 62" using s1(5) s(3) by simp
    obtain b1 where b1: "base s1 = Some b1" "buffer_ok b1" "chain_ok (unat (blen b1)) (tl (chain s1))"
      using s1(2) by (auto simp: cbb_inv_def)
    have c1: "content b1 = V @ pre" using s1(4) b1(1) l1 by (simp add: view_def)
    then have lb1: "unat (blen b1) = length V + length pre" using length_content [OF b1(2)] by simp
    obtain r2 s2 where ms2: "m2 s1 = (r2, s2)" by (cases "m2 s1")
    show ?thesis
    proof (cases r2)
      case None
      have "\<not> roomy A (bufr s1) (length (V @ pre) + length (replicate (unat k) (0::u8)))"
        using writesD_fail [OF puts_writes [OF m2] s1(2) _ w1 _ _ refl, of s2 "V @ pre"] ms2 None l1 s1(4) by simp
      then show ?thesis using ms ms2 None s1(1) roomy_same_kind [OF s1(6)] by (simp add: Let_def)
    next
      case (Some a2)
      then have ms2: "m2 s1 = (Some a2, s2)" using ms2 by simp
      have d1: "d < length (chain s1)" using l1 by simp
      note s2 = writesE [OF puts_writes [OF m2] s1(2) d1 w1 ms2]
      have l2: "length (chain s2) = Suc d" using m2 s1(2) d1 w1 ms2 by (simp add: puts_def)
      obtain b2 where b2: "base s2 = Some b2" "buffer_ok b2" using s2(1) by (auto simp: cbb_inv_def)
      have c2: "content b2 = V @ pre @ replicate (unat k) 0"
        using s2(3) s1(4) b2(1) l2 by (simp add: view_def)
      then have lb2: "unat (blen b2) = length V + length pre + unat k" using length_content [OF b2(2)] by simp
      let ?c = "\<lparr>offset = blen b1, pending_len_len = k, pending_is_asn1 = asn1, is_child = True\<rparr>"
      have "\<forall>c' \<in> set (tl (chain s2)). body_start c' \<le> unat (blen b1)"
      proof -
        have "chain s2 = chain s1" using s2(2) l1 l2 by simp
        moreover have "chain_ok n cs \<Longrightarrow> c' \<in> set cs \<Longrightarrow> body_start c' \<le> n" for n cs c'
          by (induction cs) auto
        ultimately show ?thesis using b1(3) by auto
      qed
      with new_child_inv [OF s2(1) l2, of ?c] lb2 lb1 b2(1) k
      have "cbb_inv (new_child d (blen b1) k asn1 s2)" "weight (new_child d (blen b1) k asn1 s2) = weight s2 + 4"
        by simp_all
      moreover have "?m s = (Some (), new_child d (blen b1) k asn1 s2)"
        using ms ms2 b1(1) by (simp add: Let_def)
      ultimately show ?thesis
        using s1 s2 lb1 c2 b2(1) same_kind_trans [OF s1(6) s2(5)]
        by (auto simp: new_child_def)
    qed
  qed
qed

lemma flush_settled:
  assumes "cbb_inv s" and "length (chain s) = Suc d"
  shows "CBB_flush A d s = (Some (), s)"
  using assms by (auto simp: CBB_flush_def cbb_inv_def)

lemma opens_length_prefixed:
  assumes k: "0 < unat k" "unat k \<le> 8"
  shows "opens A d (cbb_add_length_prefixed A d k) [] k False (unat k + 4)"
proof -
  let ?m = "chk (cbb_buffer_add A (ucast k)) (\<lambda>prefix_bytes b.
       (Some (), b\<lparr>buf := take (unat prefix_bytes) (buf b) @ replicate (unat k) 0 @
          drop (unat prefix_bytes + unat k) (buf b)\<rparr>))"
  let ?twice = "chk (CBB_flush A d) (\<lambda>_ s. let off = blen (bufr s) in
       chk (chk (CBB_flush A d) (\<lambda>_. on_base ?m)) (\<lambda>_ s. (Some (), new_child d off k False s)) s)"
  have "appends A ?m (Some (replicate (unat k) 0)) (unat k)"
    using appends_fill [of "replicate (unat k) 0" "ucast k" "unat k" A "()"] by (simp add: unat_ucast_up)
  then have "puts A d (chk (CBB_flush A d) (\<lambda>_. on_base ?m)) (Some (replicate (unat k) 0)) (unat k)"
    by (rule puts_append)
  from opens_child [OF puts_flush this k, of False]
  have "opens A d ?twice [] k False (unat k + 4)" by simp
  moreover have "cbb_add_length_prefixed A d k s = ?twice s"
    if s: "cbb_inv s" "d < length (chain s)" "weight s \<le> 2 ^ 62" for s
  proof (rule CBB_flush_cases [OF s, of A])
    fix s1
    assume "CBB_flush A d s = (None, s1)"
    then show ?thesis by (simp add: cbb_add_length_prefixed_def)
  next
    fix s1 b
    assume s1: "CBB_flush A d s = (Some (), s1)" "cbb_inv s1" "chain s1 = take (Suc d) (chain s)"
    then have "CBB_flush A d s1 = (Some (), s1)" using s(2) by (intro flush_settled) simp_all
    then show ?thesis using s1(1) by (simp add: cbb_add_length_prefixed_def Let_def chk_def)
  qed
  ultimately show ?thesis unfolding opens_def by auto
qed

section \<open>The life of a builder\<close>

lemma CBB_init_cases:
  assumes n: "unat n \<le> 2 ^ 62"
  obtains (fail) s where "CBB_init A n = (None, s)" "\<not> (\<forall>m. alloc_ok A m)"
  | (ok) s where "CBB_init A n = (Some (), s)" "cbb_inv s" "length (chain s) = 1" "view 0 s = Some []"
      "weight s = 0" "can_resize (bufr s)" "\<not> is_child (chain s ! 0)"
proof (cases "OPENSSL_malloc A sizeof_cbb_buffer")
  case None
  then have "\<not> (\<forall>m. alloc_ok A m)" by (auto simp: OPENSSL_malloc_def Let_def split: if_splits)
  with None show thesis by (intro fail [of CBB_zero]) (auto simp: CBB_init_def cbb_init_def split: option.splits)
next
  case (Some h)
  have good: thesis if "CBB_init A n = cbb_init A data n CBB_zero" and "length data = unat n" for data
  proof -
    let ?s = "CBB_zero\<lparr>base := Some \<lparr>buf = data, blen = 0, cap = n, can_resize = True, error = False\<rparr>\<rparr>"
    have "CBB_init A n = (Some (), ?s)" using that(1) Some by (simp add: cbb_init_def)
    moreover have "cbb_inv ?s"
      using that(2) n by (simp add: cbb_inv_def buffer_ok_def CBB_zero_def)
    ultimately show thesis
      by (intro ok [of ?s]) (simp_all add: CBB_zero_def view_def content_def weight_def)
  qed
  show thesis
  proof (cases "OPENSSL_malloc A n")
    case (Some data)
    then have "length data = unat n" by (rule malloc_length) (use n in simp)
    then show thesis using Some by (intro good [of data]) (simp_all add: CBB_init_def)
  next
    case None
    then have "\<not> (\<forall>m. alloc_ok A m)" by (auto simp: OPENSSL_malloc_def Let_def split: if_splits)
    with None show thesis
    proof (cases "n = 0")
      case True
      then show thesis using None by (intro good [of "[]"]) (simp_all add: CBB_init_def)
    next
      case False
      then have "0 < n" by (simp add: word_neq_0_conv)
      with None \<open>\<not> (\<forall>m. alloc_ok A m)\<close> show thesis
        by (intro fail [of CBB_zero]) (simp_all add: CBB_init_def)
    qed
  qed
qed

lemma CBB_init_fixed_cases:
  assumes n: "length data = unat n" and le: "unat n \<le> 2 ^ 63"
  obtains (fail) s where "CBB_init_fixed A data n = (None, s)" "\<not> (\<forall>m. alloc_ok A m)"
  | (ok) s where "CBB_init_fixed A data n = (Some (), s)" "cbb_inv s" "length (chain s) = 1" "view 0 s = Some []"
      "weight s = 0" "\<not> can_resize (bufr s)" "cap (bufr s) = n" "\<not> is_child (chain s ! 0)"
proof (cases "OPENSSL_malloc A sizeof_cbb_buffer")
  case None
  then have "\<not> (\<forall>m. alloc_ok A m)" by (auto simp: OPENSSL_malloc_def Let_def split: if_splits)
  with None show thesis by (intro fail [of CBB_zero]) (auto simp: CBB_init_fixed_def cbb_init_def chk_def)
next
  case (Some h)
  let ?s = "CBB_zero\<lparr>base := Some \<lparr>buf = data, blen = 0, cap = n, can_resize = False, error = False\<rparr>\<rparr>"
  have "CBB_init_fixed A data n = (Some (), ?s)" using Some by (simp add: CBB_init_fixed_def cbb_init_def chk_def)
  moreover have "cbb_inv ?s" using n le by (simp add: cbb_inv_def buffer_ok_def CBB_zero_def)
  ultimately show thesis
    by (intro ok [of ?s]) (simp_all add: CBB_zero_def view_def content_def weight_def)
qed

lemma CBB_finish_cases:
  assumes s: "cbb_inv s" "0 < length (chain s)" "weight s \<le> 2 ^ 62" "\<not> is_child (chain s ! 0)"
  obtains (fail) s' where "CBB_finish A 0 True True s = (None, s')"
      "\<forall>V. view 0 s = Some V \<longrightarrow> \<not> roomy A (bufr s) (length V)"
  | (ok) s' data n where "CBB_finish A 0 True True s = (Some (Some data, Some n), s')"
      "view 0 s = Some (take (unat n) data)" "unat n \<le> length data" "base s' = None"
      "can_resize (bufr s) \<or> length data = unat (cap (bufr s))"
proof (rule CBB_flush_cases [OF s(1-3), of A])
  fix s1
  assume "CBB_flush A 0 s = (None, s1)" "\<forall>V. view 0 s = Some V \<longrightarrow> \<not> roomy A (bufr s) (length V)"
  then show thesis using s(4) by (intro fail [of s1]) (simp_all add: CBB_finish_def)
next
  fix s1 b
  assume s1: "CBB_flush A 0 s = (Some (), s1)" "base s1 = Some b" "view 0 s = Some (content b)"
    "cbb_inv s1" "chain s1 = take (Suc 0) (chain s)" "same_kind (bufr s) b"
  have root: "\<not> is_child (chain s1 ! 0)" using s(2,4) s1(5) by (cases "chain s") auto
  have "unat (blen b) \<le> length (buf b)" using s1(2,4) buffer_ok_lens by (auto simp: cbb_inv_def)
  moreover have "CBB_finish A 0 True True s =
      (Some (Some (buf b), Some (blen b)), CBB_cleanup 0 (s1\<lparr>base := Some (b\<lparr>buf := []\<rparr>)\<rparr>))"
    using s(4) s1(1,2) by (simp add: CBB_finish_def)
  moreover have "base (CBB_cleanup 0 (s1\<lparr>base := Some (b\<lparr>buf := []\<rparr>)\<rparr>)) = None"
    using root by (simp add: CBB_cleanup_def)
  moreover have "can_resize (bufr s) \<or> length (buf b) = unat (cap (bufr s))"
    using s1(2,4,6) by (auto simp: cbb_inv_def buffer_ok_def same_kind_def)
  ultimately show thesis using s1(3) by (intro ok) (simp_all add: content_def)
qed

text \<open>A whole program on a new \<open>CBB\<close>: it runs and is finished.\<close>

lemma write_finish_cases:
  assumes W: "writes A 0 m e w"
    and s: "cbb_inv s" "length (chain s) = 1" "view 0 s = Some []" "weight s = 0" "\<not> is_child (chain s ! 0)"
    and w: "w \<le> 2 ^ 62"
  obtains (fail) s' where "chk m (\<lambda>_. CBB_finish A 0 True True) s = (None, s')"
      "\<forall>x. e = Some x \<longrightarrow> \<not> roomy A (bufr s) (length x)"
  | (ok) s' data n where "chk m (\<lambda>_. CBB_finish A 0 True True) s = (Some (Some data, Some n), s')"
      "e = Some (take (unat n) data)" "unat n \<le> length data"
      "can_resize (bufr s) \<or> length data = unat (cap (bufr s))"
proof -
  have d: "0 < length (chain s)" and ws: "weight s + w \<le> 2 ^ 62" using s(2,4) w by simp_all
  obtain r s1 where r: "m s = (r, s1)" by (cases "m s")
  show thesis
  proof (cases r)
    case None
    then show thesis using r writesD_fail [OF W s(1) d ws r [unfolded None] s(3)] by (intro fail [of s1]) auto
  next
    case (Some u)
    note s1 = writesE [OF W s(1) d ws r [unfolded Some]]
    have d1: "0 < length (chain s1)" using s1(2) d by (rule chain_length_kept)
    have w1: "weight s1 \<le> 2 ^ 62" using s1(4) ws by simp
    have "chain s1 ! 0 = chain s ! 0" using s1(2) d d1 by (metis nth_take lessI zero_less_Suc)
    then have root: "\<not> is_child (chain s1 ! 0)" using s(5) by simp
    have v: "view 0 s1 = e" using s1(3) s(3) by simp
    show thesis
    proof (rule CBB_finish_cases [OF s1(1) d1 w1 root, of A])
      fix s'
      assume "CBB_finish A 0 True True s1 = (None, s')" "\<forall>V. view 0 s1 = Some V \<longrightarrow> \<not> roomy A (bufr s1) (length V)"
      then show thesis using r Some v roomy_same_kind [OF s1(5)] by (intro fail [of s']) simp_all
    next
      fix s' data n
      assume "CBB_finish A 0 True True s1 = (Some (Some data, Some n), s')"
        "view 0 s1 = Some (take (unat n) data)" "unat n \<le> length data"
        "can_resize (bufr s1) \<or> length data = unat (cap (bufr s1))"
      then show thesis using r Some v s1(5) by (intro ok [of data n s']) (auto simp: same_kind_def)
    qed
  qed
qed

lemma writes_succeed: "writes A d (succeed a) (Some []) 0"
  by (rule writesI) auto

lemma writes_for_op:
  assumes "\<And>x. x \<in> set xs \<Longrightarrow> writes A d (f x) (Some (g x)) w"
  shows "writes A d (for_op f xs) (Some (concat (map g xs))) (w * length xs)"
  using assms
proof (induction xs)
  case (Cons x xs)
  have "writes A d (chk (f x) (\<lambda>_. for_op f xs)) (cat (Some (g x)) (Some (concat (map g xs)))) (w + w * length xs)"
    by (rule writes_chk) (use Cons in simp_all)
  then show ?case by simp
qed (simp add: writes_succeed)

lemma for_op_settles:
  assumes "xs \<noteq> []" and "\<And>x. x \<in> set xs \<Longrightarrow> puts A d (f x) (Some (g x)) w"
    and "cbb_inv s" and "d < length (chain s)" and "weight s + w * length xs \<le> 2 ^ 62"
    and "for_op f xs s = (Some a, s')"
  shows "length (chain s') = Suc d"
  using assms
proof (induction xs arbitrary: s)
  case (Cons x xs)
  have fx: "puts A d (f x) (Some (g x)) w" using Cons.prems(2) by simp
  have ws: "weight s + w \<le> 2 ^ 62" using Cons.prems(5) by simp
  from Cons.prems(6) obtain u s1 where s1: "f x s = (Some u, s1)" "for_op f xs s1 = (Some a, s')"
    by (auto elim: chk_SomeE)
  show ?case
  proof (cases "xs = []")
    case True
    with s1 have "f x s = (Some u, s')" by simp
    with fx Cons.prems(3,4) ws show ?thesis by (simp add: puts_def)
  next
    case False
    note w1 = writesE [OF puts_writes [OF fx] Cons.prems(3,4) ws s1(1)]
    show ?thesis
    proof (rule Cons.IH [OF False _ w1(1) _ _ s1(2)])
      show "puts A d (f y) (Some (g y)) w" if "y \<in> set xs" for y using Cons.prems(2) that by simp
      show "d < length (chain s1)" using w1(2) Cons.prems(4) by (rule chain_length_kept)
      show "weight s1 + w * length xs \<le> 2 ^ 62" using w1(4) Cons.prems(5) by simp
    qed
  qed
qed simp

lemma puts_for_op:
  assumes ne: "xs \<noteq> []" and f: "\<And>x. x \<in> set xs \<Longrightarrow> puts A d (f x) (Some (g x)) w"
  shows "puts A d (for_op f xs) (Some (concat (map g xs))) (w * length xs)"
  unfolding puts_def
proof (intro conjI allI impI)
  show "writes A d (for_op f xs) (Some (concat (map g xs))) (w * length xs)"
    by (intro writes_for_op puts_writes f)
qed (rule for_op_settles [OF ne f])

end
