(* ===== verification/Der_Int.thy ===== *)
theory Der_Int
  imports Der
begin

text \<open>
  DER integers and booleans: the minimal two's complement encoding, and the proof that
  \<open>CBS_get_asn1_uint64\<close>, \<open>CBS_get_asn1_int64\<close> and \<open>CBS_get_asn1_bool\<close> accept exactly the minimal
  encodings of the values of their result type.
\<close>

section \<open>Minimal integers\<close>

text \<open>The content octets: the fewest that leave room for the sign bit (X.690, 8.3.2).\<close>

definition der_uint :: "nat \<Rightarrow> bytes" where
  "der_uint n = be_bytes (octets (2 * n)) n"

definition der_int :: "int \<Rightarrow> bytes" where
  "der_int i = (let k = octets (nat (2 * (if i < 0 then - i - 1 else i)))
                in be_bytes k (nat (i mod 256 ^ k)))"

definition uint_minimal :: "bytes \<Rightarrow> bool" where
  "uint_minimal bs \<longleftrightarrow> bs \<noteq> [] \<and> unat (bs ! 0) < 128 \<and>
     \<not> (bs ! 0 = 0 \<and> 1 < length bs \<and> unat (bs ! 1) < 128)"

lemma be_nat_Cons: "be_nat (b # bs) = unat b * 256 ^ length bs + be_nat bs"
  using be_nat_append [of "[b]" bs] be_nat_snoc [of "[]" b] by simp

lemma high_half:
  fixes r :: nat
  assumes "r < m"
  shows "2 * (b * m + r) < 256 * m \<longleftrightarrow> b < 128"
proof
  assume "2 * (b * m + r) < 256 * m"
  then have "2 * (b * m) + 2 * r < 256 * m" by (simp only: distrib_left)
  then have "b * m < 128 * m" by linarith
  then show "b < 128" by simp
next
  assume "b < 128"
  then have "b + 1 \<le> 128" by simp
  then have "(b + 1) * m \<le> 128 * m" by (rule mult_right_mono) simp
  then have "b * m + m \<le> 128 * m" by (simp only: distrib_right mult_1)
  with assms show "2 * (b * m + r) < 256 * m" unfolding distrib_left by linarith
qed

lemma octets_of_be_nat: "bs \<noteq> [] \<Longrightarrow> octets (2 * be_nat bs) = length bs \<longleftrightarrow> uint_minimal bs"
proof -
  assume "bs \<noteq> []"
  then obtain b cs where bs: "bs = b # cs" by (cases bs) auto
  have "2 * be_nat bs < 256 ^ Suc (length cs) \<longleftrightarrow> unat b < 128"
    using high_half [OF be_nat_lt [of cs], of "unat b"] unfolding bs be_nat_Cons by simp
  moreover have "256 ^ length cs \<le> 2 * be_nat bs \<longleftrightarrow> \<not> (b = 0 \<and> unat (cs ! 0) < 128)" if "cs \<noteq> []"
  proof -
    from that obtain c ds where cs: "cs = c # ds" by (cases cs) auto
    have "2 * be_nat cs < 256 ^ length cs \<longleftrightarrow> unat c < 128"
      using high_half [OF be_nat_lt [of ds], of "unat c"] unfolding cs be_nat_Cons by simp
    moreover have "256 ^ length cs \<le> unat b * 256 ^ length cs" if "b \<noteq> 0"
      using that by (simp add: unat_gt_0 Suc_le_eq)
    then have "256 ^ length cs \<le> 2 * be_nat bs" if "b \<noteq> 0"
      unfolding bs be_nat_Cons using that by (metis mult_2 trans_le_add1)
    moreover have "be_nat bs = be_nat cs" if "b = 0" using that unfolding bs be_nat_Cons by simp
    ultimately show ?thesis using cs by (cases "b = 0") (auto simp: not_less)
  qed
  ultimately show ?thesis
    using octets_iff [of "2 * be_nat bs" "length cs"] bs by (auto simp: uint_minimal_def)
qed

lemma der_uint_nonempty [simp]: "der_uint n \<noteq> []"
  using octets_pos [of "2 * n"] by (metis der_uint_def length_be_bytes less_numeral_extra(3) list.size(3))

lemma be_nat_der_uint [simp]: "be_nat (der_uint n) = n"
proof -
  obtain k where k: "octets (2 * n) = Suc k" using octets_pos [of "2 * n"] by (cases "octets (2 * n)") auto
  then have "2 * n < 256 ^ Suc k" by (simp add: octets_iff)
  then have "n < 256 ^ octets (2 * n)" unfolding k by linarith
  then show ?thesis by (simp add: der_uint_def be_nat_be_bytes_id)
qed

lemma der_uint_iff: "bs = der_uint (be_nat bs) \<longleftrightarrow> uint_minimal bs"
proof (cases "bs = []")
  case False
  then show ?thesis
    using octets_of_be_nat [OF False] be_bytes_be_nat [of bs]
    by (metis der_uint_def length_be_bytes)
qed (metis be_nat_Nil der_uint_nonempty uint_minimal_def)

lemma length_der_uint: "n < 2 ^ 64 \<Longrightarrow> length (der_uint n) \<le> 9"
proof -
  assume n: "n < 2 ^ 64"
  obtain k where k: "octets (2 * n) = Suc k" using octets_pos [of "2 * n"] by (cases "octets (2 * n)") auto
  have "k < 9"
  proof (rule ccontr)
    assume "\<not> k < 9"
    then have "(256::nat) ^ 9 \<le> 256 ^ k" by (intro power_increasing) auto
    with k n \<open>\<not> k < 9\<close> show False by (simp add: octets_iff)
  qed
  with k show ?thesis by (simp add: der_uint_def)
qed

section \<open>Unsigned integers\<close>

definition p_uint64 :: "nat parser" where
  "p_uint64 = p_bind (p_asn1 CBS_ASN1_INTEGER) (\<lambda>bs.
     if bs = der_uint (be_nat bs) \<and> be_nat bs < 2 ^ 64 then p_return (be_nat bs) else p_fail)"

definition der_uint64 :: "nat \<Rightarrow> bytes" where
  "der_uint64 n = der_element (CBS_ASN1_INTEGER, der_uint n)"

interpretation der_uint64: nonempty_codec der_uint64 p_uint64 "\<lambda>n. n < 2 ^ 64"
proof unfold_locales
  fix n :: nat and rest
  assume n: "n < 2 ^ 64"
  then have "p_asn1 CBS_ASN1_INTEGER (der_uint64 n @ rest) = Some (der_uint n, rest)"
    unfolding der_uint64_def using length_der_uint [OF n] by (intro asn1.dec_enc) simp
  then show "p_uint64 (der_uint64 n @ rest) = Some (n, rest)" using n by (simp add: p_uint64_def)
next
  fix xs n rest
  assume "p_uint64 xs = Some (n, rest)"
  then show "n < 2 ^ 64 \<and> xs = der_uint64 n @ rest"
    unfolding p_uint64_def p_bind_eq_Some_iff
    by (auto simp: der_uint64_def asn1.dec_iff split: if_splits)
qed (simp add: der_uint64_def)

text \<open>The accumulation loop fails exactly when the number does not fit.\<close>

lemma asn1_uint64_loop_bytes:
  "asn1_uint64_loop data is v =
     (if unat v * 256 ^ length is + be_nat (map ((!) data) is) < 2 ^ 64
      then Some (of_nat (unat v * 256 ^ length is + be_nat (map ((!) data) is))) else None)"
proof (induction "is" arbitrary: v)
  case (Cons i js)
  let ?b = "data ! i" and ?v = "push_bit 8 v OR ucast (data ! i) :: u64"
  have rearr: "unat v * 256 ^ length (i # js) + be_nat (map ((!) data) (i # js)) =
      (unat v * 256 + unat ?b) * 256 ^ length js + be_nat (map ((!) data) js)"
    by (simp add: be_nat_Cons algebra_simps)
  have top: "drop_bit 56 v = 0 \<longleftrightarrow> unat v < 2 ^ 56"
    by (simp add: word_unat_eq_iff unat_drop_bit div_eq_0_iff)
  show ?case
  proof (cases "unat v < 2 ^ 56")
    case True
    have "push_bit 8 v AND ucast ?b = 0"
      by (rule bit_word_eqI) (auto simp: bit_simps dest: bit_imp_le_length)
    then have "?v = v * 256 + ucast ?b"
      by (simp add: disjunctive_add_eq_or [symmetric] push_bit_eq_mult)
    then have "unat ?v = unat v * 256 + unat ?b"
      using True u8_cases_lt [of ?b] by (simp add: unat_word_ariths unat_ucast_up)
    moreover from True top have "asn1_uint64_loop data (i # js) v = asn1_uint64_loop data js ?v"
      by (simp only: asn1_uint64_loop.simps) simp
    ultimately show ?thesis unfolding rearr by (simp only: Cons.IH)
  next
    case False
    then have "2 ^ 64 * 1 \<le> (unat v * 256 + unat ?b) * 256 ^ length js"
      by (intro mult_mono) auto
    then have "\<not> (unat v * 256 + unat ?b) * 256 ^ length js + be_nat (map ((!) data) js) < 2 ^ 64"
      by linarith
    moreover have "asn1_uint64_loop data (i # js) v = None" using False top by simp
    ultimately show ?thesis unfolding rearr by (simp only: if_False)
  qed
qed (use unat_lt_size_max in simp)

lemma head_flags:
  assumes "cbs_rep b bs"
  shows "CBS_len b = 0 \<longleftrightarrow> bs = []" "1 < CBS_len b \<longleftrightarrow> 1 < length bs"
    "i < length bs \<Longrightarrow> CBS_data b ! i = bs ! i"
    "map ((!) (CBS_data b)) [0..<unat (CBS_len b)] = bs"
proof -
  show "CBS_len b = 0 \<longleftrightarrow> bs = []" "1 < CBS_len b \<longleftrightarrow> 1 < length bs"
    using cbs_rep_length [OF assms] by (auto simp: CBS_len_def unat_eq_0 word_less_nat_alt)
  show "i < length bs \<Longrightarrow> CBS_data b ! i = bs ! i"
    using assms by (auto simp: CBS_data_def cbs_rep_def)
  show "map ((!) (CBS_data b)) [0..<unat (CBS_len b)] = bs"
    using assms by (intro nth_equalityI) (auto simp: CBS_data_def CBS_len_def cbs_rep_def)
qed

lemma refines_CBS_get_asn1_uint64 [refine_intros]:
  "refines cbs_rep word_is CBS_get_asn1_uint64 p_uint64"
  unfolding CBS_get_asn1_uint64_def p_uint64_def
proof (rule refines_chk [OF refines_CBS_get_asn1])
  fix b bs
  assume b: "cbs_rep b bs"
  note f = head_flags [OF b]
  have loop: "asn1_uint64_loop (CBS_data b) [0..<unat (CBS_len b)] 0 =
      (if be_nat bs < 2 ^ 64 then Some (of_nat (be_nat bs)) else None)"
    unfolding asn1_uint64_loop_bytes f(4) by simp
  have min: "uint_minimal bs \<longleftrightarrow> \<not> (CBS_len b = 0) \<and> \<not> (CBS_data b ! 0 AND 0x80 \<noteq> 0) \<and>
      \<not> (CBS_data b ! 0 = 0 \<and> 1 < CBS_len b \<and> CBS_data b ! 1 AND 0x80 = 0)"
    unfolding uint_minimal_def f(1,2) and_80_eq_0 using f(3) [of 0] f(3) [of 1] by (cases bs) auto
  show "refines cbs_rep word_is
     (let data = CBS_data b; len = CBS_len b in
       if len = 0 then failure
       else if (data ! 0) AND 0x80 \<noteq> 0 then failure
       else if data ! 0 = 0 \<and> len > 1 \<and> (data ! 1) AND 0x80 = 0 then failure
       else case asn1_uint64_loop data [0..<unat len] 0 of
              None \<Rightarrow> failure
            | Some out \<Rightarrow> succeed out)
     (if bs = der_uint (be_nat bs) \<and> be_nat bs < 2 ^ 64 then p_return (be_nat bs) else p_fail)"
    unfolding der_uint_iff min Let_def loop
    by (auto intro!: refines_succeed refines_failure simp: word_is_def unat_of_nat)
qed

section \<open>Booleans\<close>

definition der_bool :: "bool \<Rightarrow> bytes" where
  "der_bool b = der_element (CBS_ASN1_BOOLEAN, [if b then 0xff else 0])"

definition p_bool :: "bool parser" where
  "p_bool = p_bind (p_asn1 CBS_ASN1_BOOLEAN) (\<lambda>bs.
     if bs = [0] then p_return False else if bs = [0xff] then p_return True else p_fail)"

interpretation der_bool: nonempty_codec der_bool p_bool "\<lambda>_. True"
proof unfold_locales
  fix b rest
  have "p_asn1 CBS_ASN1_BOOLEAN (der_bool b @ rest) = Some ([if b then 0xff else 0], rest)"
    unfolding der_bool_def by (rule asn1.dec_enc) simp
  then show "p_bool (der_bool b @ rest) = Some (b, rest)" by (simp add: p_bool_def)
next
  fix xs b rest
  assume "p_bool xs = Some (b, rest)"
  then show "True \<and> xs = der_bool b @ rest"
    unfolding p_bool_def p_bind_eq_Some_iff by (auto simp: der_bool_def asn1.dec_iff split: if_splits)
qed (simp add: der_bool_def)

lemma refines_CBS_get_asn1_bool [refine_intros]: "refines cbs_rep (=) CBS_get_asn1_bool p_bool"
  unfolding CBS_get_asn1_bool_def p_bool_def
proof (rule refines_chk [OF refines_CBS_get_asn1])
  fix b bs
  assume b: "cbs_rep b bs"
  have len: "CBS_len b \<noteq> 1 \<longleftrightarrow> length bs \<noteq> 1"
    using cbs_rep_length [OF b] by (simp add: CBS_len_def word_unat_eq_iff)
  show "refines cbs_rep (=)
     (if CBS_len b \<noteq> 1 then failure
      else (let value = CBS_data b ! 0
            in if value \<noteq> 0 \<and> value \<noteq> 0xff then failure else succeed (value \<noteq> 0)))
     (if bs = [0] then p_return False else if bs = [0xff] then p_return True else p_fail)"
  proof (cases "length bs = 1")
    case True
    then obtain v where v: "bs = [v]" by (auto simp: length_Suc_conv)
    then have "CBS_data b ! 0 = v" using head_flags(3) [OF b, of 0] by simp
    with v show ?thesis unfolding len by (simp add: refines_succeed refines_failure)
  next
    case False
    then show ?thesis unfolding len by (auto intro: refines_failure)
  qed
qed

section \<open>Signed integers\<close>

definition sint_bytes :: "bytes \<Rightarrow> int" where
  "sint_bytes bs = (if 128 \<le> unat (bs ! 0) then int (be_nat bs) - 256 ^ length bs else int (be_nat bs))"

definition int_minimal :: "bytes \<Rightarrow> bool" where
  "int_minimal bs \<longleftrightarrow> bs \<noteq> [] \<and>
     \<not> (1 < length bs \<and> bs ! 0 = 0 \<and> unat (bs ! 1) < 128) \<and>
     \<not> (1 < length bs \<and> bs ! 0 = 0xff \<and> 128 \<le> unat (bs ! 1))"

lemma der_int_nonneg: "0 \<le> i \<Longrightarrow> der_int i = der_uint (nat i)"
proof -
  assume "0 \<le> i"
  then obtain n where i: "i = int n" using nonneg_int_cases by blast
  have "nat (2 * int n) = 2 * n" by simp
  moreover have "n < 256 ^ octets (2 * n)"
    using be_nat_der_uint [of n] be_nat_lt [of "der_uint n"] by (simp add: der_uint_def)
  then have "nat (int n mod 256 ^ octets (2 * n)) = n"
    by (metis (mono_tags) mod_less nat_int of_nat_mod of_nat_numeral of_nat_power)
  ultimately show ?thesis by (simp add: i der_int_def der_uint_def Let_def)
qed

lemma unat_not_u8: "unat (NOT b :: u8) = 255 - unat b"
proof -
  have "NOT b = - 1 - b" by (simp add: not_eq_complement)
  moreover have "unat (- 1 - b) = unat (- 1 :: u8) - unat b" by (rule unat_sub) simp
  moreover have "unat (- 1 :: u8) = 255" by (simp add: unsigned_minus_1_eq_mask mask_eq_exp_minus_1)
  ultimately show ?thesis by simp
qed

lemma be_nat_map_not: "be_nat (map NOT bs) + be_nat bs + 1 = 256 ^ length bs"
proof (induction bs rule: rev_induct)
  case (snoc b bs)
  have "unat (NOT b :: u8) + unat b = 255" using unat_not_u8 [of b] u8_cases_lt [of b] by simp
  with snoc show ?case by simp
qed simp

lemma uint_minimal_map_not:
  "128 \<le> unat (bs ! 0) \<Longrightarrow> bs \<noteq> [] \<Longrightarrow>
   uint_minimal (map NOT bs) \<longleftrightarrow> \<not> (1 < length bs \<and> bs ! 0 = 0xff \<and> 128 \<le> unat (bs ! 1))"
proof -
  assume b: "128 \<le> unat (bs ! 0)" "bs \<noteq> []"
  have z: "NOT (bs ! 0) = 0 \<longleftrightarrow> bs ! 0 = 0xff"
    using unat_not_u8 [of "bs ! 0"] u8_cases_lt [of "bs ! 0"] by (simp add: word_unat_eq_iff) linarith
  have "unat (NOT (bs ! 1)) < 128 \<longleftrightarrow> 128 \<le> unat (bs ! 1)"
    using unat_not_u8 [of "bs ! 1"] u8_cases_lt [of "bs ! 1"] by linarith
  moreover have "unat (NOT (bs ! 0)) < 128" using unat_not_u8 [of "bs ! 0"] b by simp
  ultimately show ?thesis using b z by (auto simp: uint_minimal_def)
qed

lemma octets_complement:
  assumes "bs \<noteq> []" and "128 \<le> unat (bs ! 0)"
  shows "octets (2 * be_nat (map NOT bs)) = length bs \<longleftrightarrow> int_minimal bs"
  using octets_of_be_nat [of "map NOT bs"] uint_minimal_map_not [OF assms(2,1)] assms
  by (auto simp: int_minimal_def)

lemma sint_bytes_neg:
  assumes "128 \<le> unat (bs ! 0)"
  shows "sint_bytes bs < 0" "nat (2 * (- sint_bytes bs - 1)) = 2 * be_nat (map NOT bs)"
    "nat (sint_bytes bs mod 256 ^ length bs) = be_nat bs"
proof -
  have i: "sint_bytes bs = int (be_nat bs) - 256 ^ length bs" using assms by (simp add: sint_bytes_def)
  have n: "int (be_nat bs) < 256 ^ length bs" using be_nat_lt [of bs] by (metis of_nat_less_iff of_nat_numeral of_nat_power)
  have c: "int (be_nat (map NOT bs)) + int (be_nat bs) + 1 = 256 ^ length bs"
    using arg_cong [OF be_nat_map_not [of bs], of int] by simp
  show "sint_bytes bs < 0" using i n by simp
  have "- sint_bytes bs - 1 = int (be_nat (map NOT bs))" using i c by simp
  then show "nat (2 * (- sint_bytes bs - 1)) = 2 * be_nat (map NOT bs)" by simp
  have "sint_bytes bs mod 256 ^ length bs = int (be_nat bs)"
    unfolding i using n by (simp add: minus_mod_self2)
  then show "nat (sint_bytes bs mod 256 ^ length bs) = be_nat bs" by simp
qed

lemma der_int_iff: "bs \<noteq> [] \<Longrightarrow> bs = der_int (sint_bytes bs) \<longleftrightarrow> int_minimal bs"
proof (cases "128 \<le> unat (bs ! 0)")
  case True
  assume ne: "bs \<noteq> []"
  let ?k = "octets (2 * be_nat (map NOT bs))"
  have d: "der_int (sint_bytes bs) = be_bytes ?k (nat (sint_bytes bs mod 256 ^ ?k))"
    unfolding der_int_def Let_def if_P [OF sint_bytes_neg(1) [OF True]] sint_bytes_neg(2) [OF True] ..
  have "bs = der_int (sint_bytes bs) \<longleftrightarrow> ?k = length bs"
  proof
    assume "bs = der_int (sint_bytes bs)"
    then show "?k = length bs" unfolding d by (metis length_be_bytes)
  next
    assume "?k = length bs"
    then show "bs = der_int (sint_bytes bs)"
      unfolding d using sint_bytes_neg(3) [OF True] by (simp add: be_bytes_be_nat)
  qed
  then show ?thesis using octets_complement [OF ne True] by simp
next
  case False
  assume ne: "bs \<noteq> []"
  from False have "der_int (sint_bytes bs) = der_uint (be_nat bs)"
    by (simp add: sint_bytes_def der_int_nonneg)
  moreover have "unat (bs ! 0) \<noteq> 255" using False by simp
  then have "bs ! 0 \<noteq> 0xff" by (auto simp: word_unat_eq_iff)
  ultimately show ?thesis using der_uint_iff [of bs] False ne
    by (auto simp: uint_minimal_def int_minimal_def)
qed

lemma sint_bytes_der_int [simp]: "sint_bytes (der_int i) = i"
proof (cases "i < 0")
  case False
  have m: "uint_minimal (der_uint (nat i))" using der_uint_iff [of "der_uint (nat i)"] by simp
  then show ?thesis using False by (simp add: der_int_nonneg sint_bytes_def uint_minimal_def)
next
  case True
  define m where "m = nat (- i - 1)"
  have i: "i = - int m - 1" and m2: "nat (2 * (- i - 1)) = 2 * m" using True by (simp_all add: m_def)
  obtain j where j: "octets (2 * m) = Suc j" using octets_pos [of "2 * m"] by (cases "octets (2 * m)") auto
  then have lt: "2 * m < 256 ^ Suc j" by (simp add: octets_iff)
  define n where "n = 256 ^ Suc j - 1 - m"
  have n: "n < 256 ^ Suc j" "int n = 256 ^ Suc j + i" using lt by (simp_all add: n_def i of_nat_diff)
  have "i mod 256 ^ Suc j = int n"
    unfolding n(2) using n by (metis add.commute mod_add_self2 mod_pos_pos_trivial of_nat_0_le_iff n(2)
      of_nat_less_iff of_nat_numeral of_nat_power)
  then have d: "der_int i = be_bytes (Suc j) n"
    using True m2 j by (simp add: der_int_def Let_def del: be_bytes.simps)
  obtain b cs where bs: "be_bytes (Suc j) n = b # cs" by (cases "be_bytes (Suc j) n") auto
  then have len: "length cs = j" using length_be_bytes [of "Suc j" n] by simp
  have "be_nat (b # cs) = n" using be_nat_be_bytes_id [OF n(1)] unfolding bs .
  moreover have "\<not> 2 * n < 256 * 256 ^ j" using lt by (simp add: n_def)
  ultimately have "\<not> unat b < 128"
    using high_half [OF be_nat_lt [of cs], of "unat b"] unfolding be_nat_Cons len by simp
  then show ?thesis
    unfolding d bs using \<open>be_nat (b # cs) = n\<close> n(2) len by (simp add: sint_bytes_def)
qed

lemma der_int_nonempty [simp]: "der_int i \<noteq> []"
  using octets_pos by (metis der_int_def length_be_bytes less_numeral_extra(3) list.size(3))

lemma octets_le_iff: "octets n \<le> Suc k \<longleftrightarrow> n < 256 ^ Suc k"
proof -
  obtain j where j: "octets n = Suc j" using octets_pos [of n] by (cases "octets n") auto
  then have n: "n < 256 ^ Suc j" "256 ^ j \<le> n \<or> j = 0" by (simp_all add: octets_iff)
  show ?thesis
  proof (cases "j \<le> k")
    case True
    then have "(256::nat) ^ Suc j \<le> 256 ^ Suc k" by (intro power_increasing) auto
    with n(1) have "n < 256 ^ Suc k" by (rule less_le_trans)
    with j True show ?thesis by simp
  next
    case False
    then have "(256::nat) ^ Suc k \<le> 256 ^ j" by (intro power_increasing) auto
    with n j False show ?thesis by auto
  qed
qed

lemma length_der_int_iff: "length (der_int i) \<le> 8 \<longleftrightarrow> - (2 ^ 63) \<le> i \<and> i < 2 ^ 63"
proof -
  have "length (der_int i) \<le> Suc 7 \<longleftrightarrow> nat (2 * (if i < 0 then - i - 1 else i)) < 256 ^ Suc 7"
    unfolding der_int_def Let_def length_be_bytes by (rule octets_le_iff)
  then show ?thesis by (cases "i < 0") (auto simp: nat_less_iff)
qed

definition p_int64 :: "int parser" where
  "p_int64 = p_bind (p_asn1 CBS_ASN1_INTEGER) (\<lambda>bs.
     if bs = der_int (sint_bytes bs) \<and> length bs \<le> 8 then p_return (sint_bytes bs) else p_fail)"

definition der_int64 :: "int \<Rightarrow> bytes" where
  "der_int64 i = der_element (CBS_ASN1_INTEGER, der_int i)"

interpretation der_int64: nonempty_codec der_int64 p_int64 "\<lambda>i. - (2 ^ 63) \<le> i \<and> i < 2 ^ 63"
proof unfold_locales
  fix i :: int and rest
  assume "- (2 ^ 63) \<le> i \<and> i < 2 ^ 63"
  then have l: "length (der_int i) \<le> 8" by (simp add: length_der_int_iff)
  then have "p_asn1 CBS_ASN1_INTEGER (der_int64 i @ rest) = Some (der_int i, rest)"
    unfolding der_int64_def by (intro asn1.dec_enc) simp
  then show "p_int64 (der_int64 i @ rest) = Some (i, rest)" using l by (simp add: p_int64_def)
next
  fix xs i rest
  assume "p_int64 xs = Some (i, rest)"
  then obtain bs where "p_asn1 CBS_ASN1_INTEGER xs = Some (bs, rest)" "bs = der_int i" "length bs \<le> 8"
    unfolding p_int64_def p_bind_eq_Some_iff by (auto split: if_splits)
  then show "(- (2 ^ 63) \<le> i \<and> i < 2 ^ 63) \<and> xs = der_int64 i @ rest"
    using length_der_int_iff [of i] by (simp add: der_int64_def asn1.dec_iff)
qed (simp add: der_int64_def)

text \<open>The union of the code: the content reversed over eight bytes of sign.\<close>

lemma fold_fill:
  "n \<le> length (u :: 'a list) \<Longrightarrow> fold (\<lambda>i u. u[i := f i]) [0..<n] u = map f [0..<n] @ drop n u"
proof (induction n)
  case (Suc n)
  then have "drop n u = u ! n # drop (Suc n) u" by (simp add: Cons_nth_drop_Suc)
  with Suc show ?case by (simp add: list_update_append)
qed simp

lemma union_i_eq: "union_i bs = of_nat (be_nat (rev bs))"
  using of_nat_be_nat [of "rev bs", where 'a = 64] by (simp add: union_i_def foldr_conv_fold)

lemma be_nat_pad:
  "be_nat (replicate k 0xff @ bs) + 256 ^ length bs = 256 ^ (k + length bs) + be_nat bs"
  "be_nat (replicate k 0 @ bs) = be_nat bs"
proof -
  have "be_nat (replicate k 0xff) + 1 = 256 ^ k"
    by (induction k) (simp_all add: be_nat_snoc flip: replicate_append_same)
  then have "(be_nat (replicate k 0xff) + 1) * 256 ^ length bs = 256 ^ (k + length bs)"
    by (simp add: power_add)
  then show "be_nat (replicate k 0xff @ bs) + 256 ^ length bs = 256 ^ (k + length bs) + be_nat bs"
    by (simp add: be_nat_append)
  have "be_nat (replicate k 0) = 0"
    by (induction k) (simp_all add: be_nat_snoc flip: replicate_append_same)
  then show "be_nat (replicate k 0 @ bs) = be_nat bs" by (simp add: be_nat_append)
qed

lemma sint_pad:
  assumes "bs \<noteq> []" and "length bs \<le> 8"
  shows "sint (of_nat (be_nat (replicate (8 - length bs) (if 128 \<le> unat (bs ! 0) then 0xff else 0) @ bs)) :: 64 word) =
    sint_bytes bs"
proof -
  let ?w = "of_nat (be_nat (replicate (8 - length bs) (if 128 \<le> unat (bs ! 0) then 0xff else 0) @ bs)) :: 64 word"
  have w: "?w = of_int (sint_bytes bs)"
  proof (cases "128 \<le> unat (bs ! 0)")
    case True
    have "be_nat (replicate (8 - length bs) 0xff @ bs) + 256 ^ length bs = 2 ^ 64 + be_nat bs"
      using be_nat_pad(1) [of "8 - length bs" bs] assms(2) by simp
    then have "(of_nat (be_nat (replicate (8 - length bs) 0xff @ bs) + 256 ^ length bs) :: 64 word) =
        of_nat (2 ^ 64 + be_nat bs)" by (rule arg_cong)
    moreover have "(of_nat (2 ^ 64) :: 64 word) = 0" by (simp add: word_unat_eq_iff unat_of_nat)
    ultimately have "(of_nat (be_nat (replicate (8 - length bs) 0xff @ bs)) :: 64 word) + 256 ^ length bs =
        of_nat (be_nat bs)" by (simp only: of_nat_add of_nat_power of_nat_numeral add_0)
    with True show ?thesis by (simp add: sint_bytes_def eq_diff_eq)
  next
    case False
    then show ?thesis by (simp add: sint_bytes_def be_nat_pad)
  qed
  have "sint_bytes bs = sint_bytes bs" ..
  have "- (2 ^ 63) \<le> sint_bytes bs \<and> sint_bytes bs < 2 ^ 63"
  proof -
    obtain b cs where bs: "bs = b # cs" using assms(1) by (cases bs) auto
    have n: "int (be_nat cs) < 256 ^ length cs"
      using be_nat_lt [of cs] by (metis of_nat_less_iff of_nat_numeral of_nat_power)
    obtain u where u: "unat b = u" "u < 256" using u8_cases_lt [of b] by blast
    have e: "sint_bytes bs = (if 128 \<le> u then int u - 256 else int u) * 256 ^ length cs + int (be_nat cs)"
      by (simp add: bs sint_bytes_def be_nat_Cons u(1) algebra_simps)
    let ?c = "if 128 \<le> u then int u - 256 else int u"
    have c: "- 128 \<le> ?c" "?c + 1 \<le> 128" using u(2) by auto
    have p: "(256::int) ^ length cs \<le> 256 ^ 7" using assms(2) bs by (intro power_increasing) auto
    have "- 128 * 256 ^ length cs \<le> ?c * 256 ^ length cs" using c(1) by (intro mult_right_mono) auto
    moreover have "(?c + 1) * 256 ^ length cs \<le> 128 * 256 ^ length cs" using c(2) by (intro mult_right_mono) auto
    then have "?c * 256 ^ length cs + 256 ^ length cs \<le> 128 * 256 ^ length cs"
      by (simp only: distrib_right mult_1)
    ultimately have "- 128 * 256 ^ length cs \<le> sint_bytes bs" "sint_bytes bs < 128 * 256 ^ length cs"
      using n unfolding e by linarith+
    with p show ?thesis by simp
  qed
  then show ?thesis unfolding w by (simp add: signed_of_int signed_take_bit_int_eq_self)
qed

lemma refines_CBS_get_asn1_int64 [refine_intros]:
  "refines cbs_rep (\<lambda>w i. sint w = i) CBS_get_asn1_int64 p_int64"
  unfolding CBS_get_asn1_int64_def p_int64_def
proof (rule refines_chk [OF refines_CBS_get_asn1])
  fix b bs
  assume b: "cbs_rep b bs"
  note f = head_flags [OF b]
  have len: "CBS_len b > 8 \<longleftrightarrow> \<not> length bs \<le> 8"
    using cbs_rep_length [OF b] by (simp add: CBS_len_def word_less_nat_alt not_le)
  have min: "int_minimal bs \<longleftrightarrow> \<not> CBS_len b = 0 \<and>
      \<not> (1 < CBS_len b \<and> CBS_data b ! 0 = 0 \<and> CBS_data b ! 1 AND 0x80 = 0) \<and>
      \<not> (1 < CBS_len b \<and> CBS_data b ! 0 = 0xff \<and> CBS_data b ! 1 AND 0x80 \<noteq> 0)"
    unfolding int_minimal_def f(1,2) and_80_eq_0 using f(3) [of 0] f(3) [of 1]
    by (cases "bs = []"; cases "1 < length bs") (simp_all add: not_less)
  let ?pad = "if CBS_data b ! 0 AND 0x80 \<noteq> 0 then 0xff else 0 :: u8"
  let ?u = "fold (\<lambda>i u. u[i := CBS_data b ! (unat (CBS_len b) - i - 1)]) [0..<unat (CBS_len b)] (replicate 8 ?pad)"
  have val: "sint (union_i ?u) = sint_bytes bs" if ok: "bs \<noteq> []" "length bs \<le> 8"
  proof -
    have l: "unat (CBS_len b) = length bs" using cbs_rep_length [OF b] by (simp add: CBS_len_def)
    have "?u = map (\<lambda>i. CBS_data b ! (length bs - i - 1)) [0..<length bs] @ replicate (8 - length bs) ?pad"
      unfolding l using ok by (subst fold_fill) simp_all
    also have "map (\<lambda>i. CBS_data b ! (length bs - i - 1)) [0..<length bs] = rev bs"
      using f(3) by (intro nth_equalityI) (simp_all add: rev_nth)
    finally have "?u = rev (replicate (8 - length bs) ?pad @ bs)" by simp
    moreover have "?pad = (if 128 \<le> unat (bs ! 0) then 0xff else 0)"
      using f(3) [of 0] ok by (simp add: and_80_eq_0)
    ultimately show ?thesis using sint_pad [OF ok] by (simp add: union_i_eq)
  qed
  show "refines cbs_rep (\<lambda>w i. sint w = i)
     (let data = CBS_data b; len = CBS_len b in
       if len = 0 \<or> len > 8 then failure
       else if len > 1 \<and> data ! 0 = 0 \<and> (data ! 1) AND 0x80 = 0 then failure
       else if len > 1 \<and> data ! 0 = 0xff \<and> (data ! 1) AND 0x80 \<noteq> 0 then failure
       else
         (let is_negative = (data ! 0) AND 0x80 \<noteq> 0;
              u0 = replicate 8 (if is_negative then 0xff else 0);
              u = fold (\<lambda>i u. u[i := data ! (unat len - i - 1)]) [0..<unat len] u0
          in succeed (union_i u)))
     (if bs = der_int (sint_bytes bs) \<and> length bs \<le> 8 then p_return (sint_bytes bs) else p_fail)"
  proof (cases "int_minimal bs \<and> length bs \<le> 8")
    case True
    then have "bs \<noteq> []" by (simp add: int_minimal_def)
    with True val show ?thesis
      using der_int_iff [of bs] len min unfolding Let_def by (auto intro!: refines_succeed)
  next
    case False
    have "\<not> (bs = der_int (sint_bytes bs) \<and> length bs \<le> 8)"
      using False der_int_iff [of bs] der_int_nonempty [of "sint_bytes bs"] by metis
    then show ?thesis using False len min unfolding Let_def
      by (auto intro!: refines_failure)
  qed
qed

section \<open>Optional elements\<close>

definition p_optional :: "u32 \<Rightarrow> bytes option parser" where
  "p_optional tag xs =
     (case p_tag xs of
        None \<Rightarrow> Some (None, xs)
      | Some (t, _) \<Rightarrow> if t = tag then p_bind (p_asn1 tag) (\<lambda>c. p_return (Some c)) xs else Some (None, xs))"

text \<open>A value that fills the contents of an explicitly tagged optional element, or the default.\<close>

definition p_explicit :: "u32 \<Rightarrow> 'a parser \<Rightarrow> 'a \<Rightarrow> 'a parser" where
  "p_explicit tag p default_value = p_bind (p_optional tag) (\<lambda>c.
     case c of None \<Rightarrow> p_return default_value
     | Some content \<Rightarrow> (case p content of Some (a, []) \<Rightarrow> p_return a | _ \<Rightarrow> p_fail))"

lemma refines_CBS_get_optional_asn1 [refine_intros]:
  "refines cbs_rep (rel_option cbs_rep) (CBS_get_optional_asn1 tag) (p_optional tag)"
  unfolding refines_iff_at
proof (intro allI impI)
  fix c xs
  assume c: "cbs_rep c xs"
  have peek: "CBS_peek_asn1_tag c tag \<longleftrightarrow> (\<exists>rest. p_tag xs = Some (tag, rest))"
    using CBS_peek_asn1_tag_iff [OF c] der_tag.dec_iff by auto
  show "refines_at cbs_rep (rel_option cbs_rep) (CBS_get_optional_asn1 tag c) (p_optional tag xs)"
  proof (cases "CBS_peek_asn1_tag c tag")
    case True
    then obtain rest where "p_tag xs = Some (tag, rest)" using peek by blast
    moreover have "refines cbs_rep (rel_option cbs_rep)
        (chk (CBS_get_asn1 tag) (\<lambda>out. succeed (Some out))) (p_bind (p_asn1 tag) (\<lambda>c. p_return (Some c)))"
      by (rule refines_chk [OF refines_CBS_get_asn1]) (simp add: refines_succeed)
    ultimately show ?thesis
      using c True unfolding refines_iff_at by (simp add: CBS_get_optional_asn1_def p_optional_def)
  next
    case False
    then have "p_optional tag xs = Some (None, xs)"
      using peek by (auto simp: p_optional_def split: option.splits)
    with False c show ?thesis by (simp add: CBS_get_optional_asn1_def)
  qed
qed

lemma child_parse:
  assumes m: "refines cbs_rep R m p" and child: "cbs_rep child content"
  shows "case p content of
      None \<Rightarrow> fst (m child) = None
    | Some (b, ys) \<Rightarrow> \<exists>a child'. m child = (Some a, child') \<and> R a b \<and> cbs_rep child' ys \<and>
        (CBS_len child' = 0 \<longleftrightarrow> ys = [])"
proof (cases "p content")
  case None
  then show ?thesis using refines_None [OF m child] by simp
next
  case (Some r)
  then obtain b ys where p: "p content = Some (b, ys)" by (cases r) auto
  obtain a child' where "m child = (Some a, child')" "R a b" "cbs_rep child' ys"
    by (rule refines_SomeE [OF m child p])
  with p head_flags(1) show ?thesis by fastforce
qed

lemma refines_explicit:
  assumes m: "refines cbs_rep R m p" and d: "R d e"
  shows "refines cbs_rep R
    (chk (CBS_get_optional_asn1 tag) (\<lambda>present. case present of
         Some child \<Rightarrow> on_child m child (\<lambda>out child. if CBS_len child \<noteq> 0 then failure else succeed out)
       | None \<Rightarrow> succeed d))
    (p_explicit tag p e)"
  unfolding p_explicit_def
proof (rule refines_chk [OF refines_CBS_get_optional_asn1])
  fix present c
  assume r: "rel_option cbs_rep present c"
  show "refines cbs_rep R
     (case present of
         Some child \<Rightarrow> on_child m child (\<lambda>out child. if CBS_len child \<noteq> 0 then failure else succeed out)
       | None \<Rightarrow> succeed d)
     (case c of None \<Rightarrow> p_return e
      | Some content \<Rightarrow> (case p content of Some (a, []) \<Rightarrow> p_return a | _ \<Rightarrow> p_fail))"
  proof (cases c)
    case None
    with r d show ?thesis by (cases present) (simp_all add: refines_succeed)
  next
    case (Some content)
    with r obtain child where ch: "present = Some child" "cbs_rep child content" by (cases present) auto
    from child_parse [OF m ch(2)] show ?thesis
      using Some ch(1)
      by (cases "m child")
         (auto simp: on_child_def refines_failure refines_succeed split: option.splits list.splits)
  qed
qed

lemma refines_CBS_get_optional_asn1_uint64 [refine_intros]:
  "word_is d e \<Longrightarrow> refines cbs_rep word_is (CBS_get_optional_asn1_uint64 tag d) (p_explicit tag p_uint64 e)"
  unfolding CBS_get_optional_asn1_uint64_def by (rule refines_explicit [OF refines_CBS_get_asn1_uint64])

end
