(* ===== verification/Cbb_Asn1.thy ===== *)
theory Cbb_Asn1
  imports Cbb_Spec Der_Int
begin

text \<open>
  \<open>crypto/bytestring/cbb.c\<close>, second part: ASN.1 elements, integers, strings, booleans, object
  identifiers and \<open>SET OF\<close> in a \<open>CBB\<close>; with \<open>CBS_asn1_oid_to_text\<close> of \<open>cbs.c\<close>, which builds its text
  in a \<open>CBB\<close>.
\<close>

section \<open>Elements\<close>

function base128_len :: "u64 \<Rightarrow> nat" where
  "base128_len copy = (if copy > 0 then Suc (base128_len (drop_bit 7 copy)) else 0)"
  by pat_completeness auto
termination
proof (relation "measure unat")
  fix copy :: u64
  assume "copy > 0"
  then have "0 < unat copy" by (simp add: word_less_nat_alt)
  then show "(drop_bit 7 copy, copy) \<in> measure unat" by (simp add: unat_drop_bit)
qed simp

declare base128_len.simps [simp del]

definition add_base128_integer :: "allocator \<Rightarrow> nat \<Rightarrow> u64 \<Rightarrow> (cbb, unit) op" where
  "add_base128_integer A d v =
     (let len_len = base128_len v;
          len_len = (if len_len = 0 then 1 else len_len)
      in for_op (\<lambda>i.
           let byte = ucast (drop_bit (7 * i) v AND 0x7f) :: u8;
               byte = (if i \<noteq> 0 then byte OR 0x80 else byte)
           in CBB_add_u8 A d byte) (rev [0..<len_len]))"

definition CBB_add_asn1 :: "allocator \<Rightarrow> nat \<Rightarrow> u32 \<Rightarrow> (cbb, unit) op" where
  "CBB_add_asn1 A d tag =
     chk (CBB_flush A d) (\<lambda>_.
       let tag_bits = ucast (drop_bit CBS_ASN1_TAG_SHIFT tag AND 0xe0) :: u8;
           tag_number = tag AND CBS_ASN1_TAG_NUMBER_MASK
       in chk (if tag_number \<ge> 0x1f then
                 chk (CBB_add_u8 A d (tag_bits OR 0x1f)) (\<lambda>_. add_base128_integer A d (ucast tag_number))
               else CBB_add_u8 A d (ucast (ucast tag_bits OR tag_number)))
            (\<lambda>_ s.
              let off = blen (the (base s))
              in chk (CBB_add_u8 A d 0) (\<lambda>_ s. (Some (), new_child d off 1 True s)) s))"

section \<open>Integers, strings and booleans\<close>

text \<open>The loop of \<open>CBB_add_asn1_uint64\<close>; its result is the final \<open>started\<close>.\<close>

fun asn1_uint64_octets :: "allocator \<Rightarrow> nat \<Rightarrow> u64 \<Rightarrow> nat list \<Rightarrow> bool \<Rightarrow> (cbb, bool) op" where
  "asn1_uint64_octets A d v [] started = succeed started"
| "asn1_uint64_octets A d v (i # is) started =
     (let byte = ucast (drop_bit (8 * (7 - i)) v AND 0xff) :: u8
      in if \<not> started \<and> byte = 0 then asn1_uint64_octets A d v is started
         else
           chk (if \<not> started \<and> byte AND 0x80 \<noteq> 0 then CBB_add_u8 A d 0 else succeed ()) (\<lambda>_.
           chk (CBB_add_u8 A d byte) (\<lambda>_. asn1_uint64_octets A d v is True)))"

definition CBB_add_asn1_uint64 :: "allocator \<Rightarrow> nat \<Rightarrow> u64 \<Rightarrow> (cbb, unit) op" where
  "CBB_add_asn1_uint64 A d v =
     chk (CBB_add_asn1 A d CBS_ASN1_INTEGER) (\<lambda>_.
     chk (asn1_uint64_octets A (Suc d) v [0..<8] False) (\<lambda>started.
     chk (if \<not> started then CBB_add_u8 A (Suc d) 0 else succeed ()) (\<lambda>_.
       CBB_flush A d)))"

text \<open>The bytes of the union, least significant first, and the index its \<open>while\<close> loop stops at.\<close>

definition u_bytes :: "64 word \<Rightarrow> nat \<Rightarrow> u8" where
  "u_bytes v i = ucast (drop_bit (8 * i) v)"

fun int64_start :: "64 word \<Rightarrow> nat \<Rightarrow> nat" where
  "int64_start v 0 = 0"
| "int64_start v (Suc i) =
     (if u_bytes v (Suc i) = 0xff \<and> u_bytes v i AND 0x80 \<noteq> 0 then int64_start v i else Suc i)"

definition CBB_add_asn1_int64 :: "allocator \<Rightarrow> nat \<Rightarrow> 64 word \<Rightarrow> (cbb, unit) op" where
  "CBB_add_asn1_int64 A d v =
     (if sint v \<ge> 0 then CBB_add_asn1_uint64 A d v
      else
        (let start = int64_start v 7 in
         chk (CBB_add_asn1 A d CBS_ASN1_INTEGER) (\<lambda>_.
         chk (for_op (\<lambda>i. CBB_add_u8 A (Suc d) (u_bytes v i)) (rev [0..<Suc start])) (\<lambda>_.
           CBB_flush A d))))"

definition CBB_add_asn1_octet_string :: "allocator \<Rightarrow> nat \<Rightarrow> bytes \<Rightarrow> size_t \<Rightarrow> (cbb, unit) op" where
  "CBB_add_asn1_octet_string A d data data_len =
     chk (CBB_add_asn1 A d CBS_ASN1_OCTETSTRING) (\<lambda>_.
     chk (CBB_add_bytes A (Suc d) data data_len) (\<lambda>_. CBB_flush A d))"

definition CBB_add_asn1_bool :: "allocator \<Rightarrow> nat \<Rightarrow> int \<Rightarrow> (cbb, unit) op" where
  "CBB_add_asn1_bool A d v =
     chk (CBB_add_asn1 A d CBS_ASN1_BOOLEAN) (\<lambda>_.
     chk (CBB_add_u8 A (Suc d) (if v \<noteq> 0 then 0xff else 0)) (\<lambda>_. CBB_flush A d))"

section \<open>What they append\<close>

lemma unat_mask_7: "unat (ucast (w AND 0x7f :: u64) :: u8) = unat w mod 128"
proof -
  have "w AND 0x7f = take_bit 7 w" by (simp add: take_bit_eq_mask mask_eq_exp_minus_1)
  then have "unat (w AND 0x7f) = unat w mod 128" by (simp only: unat_take_bit) simp
  moreover have "unat (ucast x :: u8) = unat x mod 256" for x :: u64
    by (simp add: unsigned_ucast_eq take_bit_eq_mod)
  ultimately show ?thesis by (simp add: mod_mod_cancel)
qed

definition base128_octet :: "u64 \<Rightarrow> nat \<Rightarrow> u8" where
  "base128_octet v i =
     (let byte = ucast (drop_bit (7 * i) v AND 0x7f) :: u8 in if i \<noteq> 0 then byte OR 0x80 else byte)"

lemma base128_octet_eq: "base128_octet v i = (if i \<noteq> 0 then of_nat (unat v div 128 ^ i mod 128) OR 0x80
    else of_nat (unat v mod 128))"
proof -
  have "(ucast (drop_bit (7 * i) v AND 0x7f) :: u8) = of_nat (unat v div 128 ^ i mod 128)"
  proof -
    have "(2::nat) ^ (7 * i) = 128 ^ i" by (simp add: power_mult)
    then have "unat (ucast (drop_bit (7 * i) v AND 0x7f) :: u8) = unat v div 128 ^ i mod 128"
      unfolding unat_mask_7 by (simp only: unat_drop_bit)
    then show ?thesis unfolding word_unat_eq_iff by (simp add: unat_of_nat mod_mod_cancel)
  qed
  then show ?thesis by (simp add: base128_octet_def)
qed

lemma base128_octets_high:
  "map (\<lambda>i. of_nat (unat v div 128 ^ i mod 128) OR 0x80) (rev [0..<base128_len v]) = base128_high (unat v)"
proof (induction v rule: base128_len.induct)
  case (1 v)
  show ?case
  proof (cases "v = 0")
    case True
    then show ?thesis by (simp add: base128_len.simps)
  next
    case False
    then have pos: "v > 0" by (simp add: word_neq_0_conv)
    let ?w = "drop_bit 7 v"
    have w: "unat ?w = unat v div 128" by (simp add: unat_drop_bit)
    have "[0..<Suc (base128_len ?w)] = 0 # map Suc [0..<base128_len ?w]"
      by (simp add: upt_conv_Cons map_Suc_upt del: upt_Suc)
    then have "map (\<lambda>i. of_nat (unat v div 128 ^ i mod 128) OR 0x80) (rev [0..<base128_len v]) =
        map (\<lambda>i. of_nat (unat ?w div 128 ^ i mod 128) OR 0x80) (rev [0..<base128_len ?w]) @
        [of_nat (unat v mod 128) OR 0x80]"
      using pos by (subst base128_len.simps) (simp add: w rev_map div_mult2_eq comp_def)
    also have "\<dots> = base128_high (unat v)"
      using 1 [OF pos] False unfolding w by (subst base128_high.simps [of "unat v"]) (simp add: unat_eq_0)
    finally show ?thesis .
  qed
qed

lemma base128_octets:
  "map (base128_octet v) (rev [0..<(if base128_len v = 0 then 1 else base128_len v)]) = base128 (unat v)"
proof (cases "v = 0")
  case True
  then show ?thesis by (simp add: base128_len.simps base128_def base128_octet_eq)
next
  case False
  then have pos: "v > 0" by (simp add: word_neq_0_conv)
  let ?w = "drop_bit 7 v"
  have w: "unat ?w = unat v div 128" by (simp add: unat_drop_bit)
  have "[0..<Suc (base128_len ?w)] = 0 # map Suc [0..<base128_len ?w]"
    by (simp add: upt_conv_Cons map_Suc_upt del: upt_Suc)
  then have "map (base128_octet v) (rev [0..<base128_len v]) =
      map (\<lambda>i. of_nat (unat ?w div 128 ^ i mod 128) OR 0x80) (rev [0..<base128_len ?w]) @ [of_nat (unat v mod 128)]"
    using pos by (subst base128_len.simps) (simp add: w rev_map div_mult2_eq comp_def base128_octet_eq)
  also have "\<dots> = base128 (unat v)" using base128_octets_high [of ?w] by (simp add: w base128_def)
  finally show ?thesis using pos by (simp add: base128_len.simps [of v])
qed

lemma length_base128: "n < 2 ^ 64 \<Longrightarrow> length (base128 n) \<le> 10"
proof -
  assume "n < 2 ^ 64"
  moreover have "n div 128 \<le> n" by (rule div_le_dividend)
  ultimately have "n div 128 < 128 ^ 9 \<or> 128 ^ 9 \<le> n div 128" by linarith
  moreover have "\<not> 128 ^ 9 \<le> n div 128" using \<open>n < 2 ^ 64\<close> by (simp add: less_eq_div_iff_mult_less_eq)
  ultimately show ?thesis using length_base128_high [of "n div 128" 9] by (simp add: base128_def)
qed

lemma puts_add_base128_integer:
  "puts A d (add_base128_integer A d v) (Some (base128 (unat v))) 10"
proof -
  let ?is = "rev [0..<(if base128_len v = 0 then 1 else base128_len v)]"
  have ne: "?is \<noteq> []" by simp
  have code: "add_base128_integer A d v = for_op (\<lambda>i. CBB_add_u8 A d (base128_octet v i)) ?is"
    by (simp add: add_base128_integer_def base128_octet_def Let_def)
  have "puts A d (add_base128_integer A d v) (Some (concat (map (\<lambda>i. [base128_octet v i]) ?is))) (1 * length ?is)"
    unfolding code by (rule puts_for_op [OF ne puts_add_u8])
  moreover have "concat (map (\<lambda>i. [base128_octet v i]) ?is) = base128 (unat v)"
    using base128_octets [of v] by (simp add: concat_map_singleton)
  moreover have "length ?is = length (base128 (unat v))"
    using base128_octets [of v] by (metis length_map)
  ultimately show ?thesis
    using length_base128 [of "unat v"] unat_lt_size_max [of v] puts_weaken by fastforce
qed

lemma tag_number_word: "unat (tag AND CBS_ASN1_TAG_NUMBER_MASK) = tag_number tag"
proof -
  have "CBS_ASN1_TAG_NUMBER_MASK = mask 29"
    by (simp add: CBS_ASN1_TAG_NUMBER_MASK_def CBS_ASN1_TAG_SHIFT_def mask_eq_exp_minus_1 push_bit_eq_mult)
  then have "tag AND CBS_ASN1_TAG_NUMBER_MASK = take_bit 29 tag" by (simp only: take_bit_eq_mask)
  then show ?thesis by (simp only: unat_take_bit tag_number_def)
qed

lemma tag_bits_word: "unat (ucast (drop_bit CBS_ASN1_TAG_SHIFT tag AND 0xe0) :: u8) = 32 * tag_top tag"
proof -
  have "(ucast (drop_bit CBS_ASN1_TAG_SHIFT tag AND 0xe0) :: u8) = ucast (drop_bit CBS_ASN1_TAG_SHIFT tag) AND 0xe0"
    by (rule u8_eqI) (auto simp: bit_simps)
  moreover have "unat (ucast (drop_bit CBS_ASN1_TAG_SHIFT tag) :: u8) = unat tag div 2 ^ 24"
  proof -
    have "unat tag < 256 * 2 ^ 24" using unsigned_less [of tag, where 'a = nat] by simp
    then have "unat tag div 2 ^ 24 < 256" by (rule less_mult_imp_div_less)
    moreover have "unat (drop_bit 24 tag) = unat tag div 2 ^ 24" by (rule unat_drop_bit)
    ultimately show ?thesis
      by (simp add: CBS_ASN1_TAG_SHIFT_def unsigned_ucast_eq take_bit_nat_eq_self)
  qed
  ultimately show ?thesis by (simp add: unat_and_e0 tag_top_def flip: div_mult2_eq)
qed

lemma unat_octet_or:
  fixes b :: u8 and w :: u32
  assumes "unat b = m" and "unat w = n"
  shows "unat (ucast (ucast b OR w) :: u8) = (m OR n) mod 256"
proof -
  have "unat (ucast x :: u8) = unat x mod 256" for x :: u32
    by (simp add: unsigned_ucast_eq take_bit_eq_mod)
  moreover have "unat (ucast b OR w) = m OR n"
    using assms by (simp add: unsigned_or_eq unat_ucast_up)
  ultimately show ?thesis by simp
qed

lemma puts_tag:
  "puts A d
     (chk (CBB_flush A d) (\<lambda>_.
       let tag_bits = ucast (drop_bit CBS_ASN1_TAG_SHIFT tag AND 0xe0) :: u8;
           tag_number = tag AND CBS_ASN1_TAG_NUMBER_MASK
       in if tag_number \<ge> 0x1f then
            chk (CBB_add_u8 A d (tag_bits OR 0x1f)) (\<lambda>_. add_base128_integer A d (ucast tag_number))
          else CBB_add_u8 A d (ucast (ucast tag_bits OR tag_number))))
     (Some (der_tag tag)) 11"
proof -
  let ?bits = "ucast (drop_bit CBS_ASN1_TAG_SHIFT tag AND 0xe0) :: u8"
  let ?num = "tag AND CBS_ASN1_TAG_NUMBER_MASK"
  have ge: "0x1f \<le> ?num \<longleftrightarrow> \<not> tag_number tag < 31"
    by (simp add: word_le_nat_alt tag_number_word not_less)
  have "puts A d (if ?num \<ge> 0x1f then
            chk (CBB_add_u8 A d (?bits OR 0x1f)) (\<lambda>_. add_base128_integer A d (ucast ?num))
          else CBB_add_u8 A d (ucast (ucast ?bits OR ?num))) (Some (der_tag tag)) 11"
  proof (cases "tag_number tag < 31")
    case True
    have "unat (ucast (ucast ?bits OR ?num) :: u8) = (32 * tag_top tag OR tag_number tag) mod 256"
      by (rule unat_octet_or [OF tag_bits_word tag_number_word])
    also have "\<dots> = (32 * tag_top tag + tag_number tag) mod 256"
      using nat_or_low [of "tag_number tag" 5 "tag_top tag"] True by simp
    also have "\<dots> = 32 * tag_top tag + tag_number tag"
      by (rule mod_less) (use True tag_parts(1) [of tag] in linarith)
    finally have eq: "unat (ucast (ucast ?bits OR ?num) :: u8) = 32 * tag_top tag + tag_number tag" .
    have "unat (of_nat (32 * tag_top tag + tag_number tag) :: u8) = 32 * tag_top tag + tag_number tag"
      by (rule identifier_octet) (use True in simp_all)
    then have "ucast (ucast ?bits OR ?num) = (of_nat (32 * tag_top tag + tag_number tag) :: u8)"
      unfolding word_unat_eq_iff eq by (rule sym)
    moreover have "\<not> 0x1f \<le> ?num" using ge True by simp
    moreover have "puts A d (CBB_add_u8 A d (of_nat (32 * tag_top tag + tag_number tag)))
        (Some [of_nat (32 * tag_top tag + tag_number tag)]) 11"
      by (rule puts_weaken [OF puts_add_u8]) simp
    ultimately show ?thesis using True by (simp only: der_tag_def if_False if_True)
  next
    case False
    have "unat (?bits OR 0x1f) = 32 * tag_top tag + 31"
      using nat_or_low [of 31 5 "tag_top tag"] by (simp add: unsigned_or_eq tag_bits_word)
    then have b: "?bits OR 0x1f = of_nat (32 * tag_top tag + 31)"
      unfolding word_unat_eq_iff using identifier_octet [of "tag_top tag" 31]
      by (simp only: tag_parts(1))
    have "unat (ucast ?num :: u64) = tag_number tag" by (simp add: unat_ucast_up tag_number_word)
    with puts_add_base128_integer [of A d "ucast ?num"]
    have "puts A d (add_base128_integer A d (ucast ?num)) (Some (base128 (tag_number tag))) 10" by simp
    from puts_chk [OF puts_writes [OF puts_add_u8] this] False show ?thesis
      unfolding ge by (simp add: der_tag_def b del: of_nat_add of_nat_mult)
  qed
  from puts_chk [OF writes_flush this] show ?thesis by (simp add: Let_def)
qed

lemma opens_asn1: "opens A d (CBB_add_asn1 A d tag) (der_tag tag) 1 True 16"
proof -
  let ?tagop = "let tag_bits = ucast (drop_bit CBS_ASN1_TAG_SHIFT tag AND 0xe0) :: u8;
           tag_number = tag AND CBS_ASN1_TAG_NUMBER_MASK
       in if tag_number \<ge> 0x1f then
            chk (CBB_add_u8 A d (tag_bits OR 0x1f)) (\<lambda>_. add_base128_integer A d (ucast tag_number))
          else CBB_add_u8 A d (ucast (ucast tag_bits OR tag_number))"
  have "puts A d (CBB_add_u8 A d 0) (Some (replicate (unat (1 :: u8)) 0)) 1" using puts_add_u8 [of A d 0] by simp
  from opens_child [OF puts_tag this, of True]
  have "opens A d (chk (chk (CBB_flush A d) (\<lambda>_. ?tagop))
      (\<lambda>_ s. let off = blen (bufr s) in chk (CBB_add_u8 A d 0) (\<lambda>_ s. (Some (), new_child d off 1 True s)) s))
      (der_tag tag) 1 True 16" by simp
  then show ?thesis unfolding chk_assoc by (simp add: CBB_add_asn1_def Let_def)
qed

text \<open>An element with its contents written by \<open>f\<close>; the second rule is for one that is flushed at once.\<close>

definition element_of :: "u32 \<Rightarrow> bytes option \<Rightarrow> bytes option" where
  "element_of tag e = (case e of None \<Rightarrow> None
     | Some x \<Rightarrow> if length x < 2 ^ 32 - 1 then Some (der_element (tag, x)) else None)"

lemma element_of_simps [simp]:
  "element_of tag None = None"
  "length x < 2 ^ 32 - 1 \<Longrightarrow> element_of tag (Some x) = Some (der_element (tag, x))"
  by (simp_all add: element_of_def)

lemma writes_asn1:
  assumes "\<And>a. writes A (Suc d) (f a) e w"
  shows "writes A d (chk (CBB_add_asn1 A d tag) f) (element_of tag e) (16 + w)"
proof -
  have "wrapped (der_tag tag) 1 True e = element_of tag e"
    by (cases e) (auto simp: wrapped_def element_of_def der_element_def der_header_def)
  with writes_nested [OF opens_asn1 assms, of tag] show ?thesis by simp
qed

lemma writes_asn1_flushed:
  assumes "\<And>a. writes A (Suc d) (f a) e w"
  shows "writes A d (chk (CBB_add_asn1 A d tag) (\<lambda>a. chk (f a) (\<lambda>_. CBB_flush A d))) (element_of tag e) (16 + w)"
proof -
  from writes_chk [OF writes_asn1 [OF assms] writes_flush]
  have "writes A d (chk (chk (CBB_add_asn1 A d tag) f) (\<lambda>_. CBB_flush A d)) (element_of tag e) (16 + w)" by simp
  then show ?thesis by (simp only: chk_assoc)
qed

lemma writes_asn1_octet_string:
  "unat n \<le> length data \<Longrightarrow>
   writes A d (CBB_add_asn1_octet_string A d data n)
     (element_of CBS_ASN1_OCTETSTRING (Some (take (unat n) data))) (16 + unat n)"
  unfolding CBB_add_asn1_octet_string_def by (intro writes_asn1_flushed writes_add_bytes)

lemma writes_asn1_bool: "writes A d (CBB_add_asn1_bool A d v) (Some (der_bool (v \<noteq> 0))) 17"
proof -
  have "writes A d (CBB_add_asn1_bool A d v)
      (element_of CBS_ASN1_BOOLEAN (Some [if v \<noteq> 0 then 0xff else 0])) (16 + 1)"
    unfolding CBB_add_asn1_bool_def by (intro writes_asn1_flushed writes_add_u8)
  then show ?thesis by (simp add: der_bool_def)
qed

section \<open>Integers are written in their minimal form\<close>

definition asn1_octet :: "u64 \<Rightarrow> nat \<Rightarrow> u8" where
  "asn1_octet v i = ucast (drop_bit (8 * (7 - i)) v AND 0xff)"

definition stripped :: "bool \<Rightarrow> bytes \<Rightarrow> bytes" where
  "stripped started bs =
     (if started then bs
      else case dropWhile (\<lambda>b. b = 0) bs of
             [] \<Rightarrow> []
           | b # r \<Rightarrow> if b AND 0x80 \<noteq> 0 then 0 # b # r else b # r)"

lemma writes_optional:
  "writes A d (if b then CBB_add_u8 A d v else succeed ()) (Some (if b then [v] else [])) 1"
proof (cases b)
  case True
  then show ?thesis using writes_add_u8 [of A d v] by simp
next
  case False
  have "writes A d (succeed ()) (Some []) 1" by (rule writes_weaken [OF writes_succeed]) simp
  with False show ?thesis by (simp only: if_False)
qed

lemma writes_octets:
  "writes A d (asn1_uint64_octets A d v is st) (Some (stripped st (map (asn1_octet v) is))) (2 * length is)"
proof (induction "is" arbitrary: st)
  case Nil
  have "stripped st [] = []" by (simp add: stripped_def)
  then show ?case by (simp only: asn1_uint64_octets.simps list.map list.size mult_0_right writes_succeed)
next
  case (Cons i js)
  let ?b = "asn1_octet v i"
  have code: "asn1_uint64_octets A d v (i # js) st =
      (if \<not> st \<and> ?b = 0 then asn1_uint64_octets A d v js st
       else chk (if \<not> st \<and> ?b AND 0x80 \<noteq> 0 then CBB_add_u8 A d 0 else succeed ()) (\<lambda>_.
            chk (CBB_add_u8 A d ?b) (\<lambda>_. asn1_uint64_octets A d v js True)))"
    by (simp add: asn1_octet_def Let_def)
  show ?case
  proof (cases "\<not> st \<and> ?b = 0")
    case True
    then show ?thesis using writes_weaken [OF Cons.IH [of st], of "2 * length (i # js)"]
      unfolding code by (simp add: stripped_def)
  next
    case False
    let ?pad = "if \<not> st \<and> ?b AND 0x80 \<noteq> 0 then [0] else [] :: bytes"
    have "writes A d (if \<not> st \<and> ?b AND 0x80 \<noteq> 0 then CBB_add_u8 A d 0 else succeed ()) (Some ?pad) 1"
      by (rule writes_optional)
    from writes_chk [OF this writes_chk [OF writes_add_u8 Cons.IH [of True], where v1 = ?b]]
    have "writes A d (asn1_uint64_octets A d v (i # js) st)
        (Some (?pad @ ?b # stripped True (map (asn1_octet v) js))) (2 * length (i # js))"
      unfolding code if_not_P [OF False] by simp
    moreover have "?pad @ ?b # stripped True (map (asn1_octet v) js) = stripped st (map (asn1_octet v) (i # js))"
      using False by (auto simp: stripped_def)
    ultimately show ?thesis by simp
  qed
qed

lemma octets_result:
  "asn1_uint64_octets A d v is st s = (Some r, s') \<Longrightarrow> r = (st \<or> (\<exists>i \<in> set is. asn1_octet v i \<noteq> 0))"
proof (induction "is" arbitrary: st s)
  case (Cons i js)
  show ?case
  proof (cases "\<not> st \<and> asn1_octet v i = 0")
    case True
    then show ?thesis using Cons by (auto simp: asn1_octet_def Let_def)
  next
    case False
    then have "\<not> (\<not> st \<and> (ucast (drop_bit (8 * (7 - i)) v AND 0xff) :: u8) = 0)" by (simp add: asn1_octet_def)
    with Cons.prems obtain s1 where "asn1_uint64_octets A d v js True s1 = (Some r, s')"
      by (auto simp: Let_def elim!: chk_SomeE split: if_splits)
    then show ?thesis using Cons.IH False by auto
  qed
qed simp

lemma be_bytes_nth: "i < k \<Longrightarrow> be_bytes k n ! i = of_nat (n div 256 ^ (k - 1 - i))"
proof (induction k arbitrary: n)
  case (Suc k)
  show ?case
  proof (cases "i < k")
    case True
    then have "k - i = Suc (k - 1 - i)" by simp
    with True Suc.IH [OF True] show ?thesis by (simp add: nth_append div_mult2_eq)
  next
    case False
    with Suc.prems have "i = k" by simp
    then show ?thesis by (simp add: nth_append)
  qed
qed simp

lemma ucast_u8_of_nat: "(ucast (x :: 'a::len word) :: u8) = of_nat (unat x)"
  by simp

lemma asn1_octets_all: "map (asn1_octet v) [0..<8] = be_bytes 8 (unat v)"
proof (rule nth_equalityI)
  fix i
  assume i: "i < length (map (asn1_octet v) [0..<8])"
  have "(drop_bit (8 * (7 - i)) v AND 0xff) = take_bit 8 (drop_bit (8 * (7 - i)) v)"
    by (simp add: take_bit_eq_mask mask_eq_exp_minus_1)
  moreover have "(ucast (take_bit 8 w) :: u8) = ucast w" for w :: u64
    by (rule bit_word_eqI) (auto simp: bit_simps)
  ultimately have "asn1_octet v i = ucast (drop_bit (8 * (7 - i)) v)" by (simp add: asn1_octet_def)
  also have "\<dots> = of_nat (unat v div 2 ^ (8 * (7 - i)))" by (simp only: ucast_u8_of_nat unat_drop_bit)
  also have "(2::nat) ^ (8 * (7 - i)) = 256 ^ (7 - i)" by (simp add: power_mult)
  also have "of_nat (unat v div 256 ^ (7 - i)) = be_bytes 8 (unat v) ! i"
    using i be_bytes_nth [of i 8 "unat v"] by simp
  finally show "map (asn1_octet v) [0..<8] ! i = be_bytes 8 (unat v) ! i" using i by simp
qed simp

lemma stripped_der_uint:
  "stripped False bs @ (if \<not> (\<exists>b \<in> set bs. b \<noteq> 0) then [0] else []) = der_uint (be_nat bs)"
proof -
  let ?r = "dropWhile (\<lambda>b. b = 0) bs"
  have drop: "be_nat ?r = be_nat bs" by (induction bs) (simp_all add: be_nat_Cons)
  let ?xs = "stripped False bs @ (if \<not> (\<exists>b \<in> set bs. b \<noteq> 0) then [0] else [])"
  have "be_nat ?xs = be_nat bs \<and> uint_minimal ?xs"
  proof (cases ?r)
    case Nil
    then have "\<not> (\<exists>b \<in> set bs. b \<noteq> 0)" by (simp add: dropWhile_eq_Nil_conv)
    with Nil have "?xs = [0]" by (simp only: stripped_def if_False list.case append_Nil not_False_eq_True if_True)
    moreover have "be_nat bs = 0" using drop Nil by simp
    ultimately show ?thesis using be_nat_Cons [of 0 "[]"] by (simp add: uint_minimal_def)
  next
    case (Cons b r)
    then have b: "b \<noteq> 0" using hd_dropWhile [of "\<lambda>b. b = 0" bs] by simp
    have "b \<in> set ?r" using Cons by simp
    then have "b \<in> set bs" by (rule set_dropWhileD)
    with b have "\<exists>b \<in> set bs. b \<noteq> 0" by blast
    then have "?xs = (if b AND 0x80 \<noteq> 0 then 0 # b # r else b # r)" using Cons by (simp add: stripped_def)
    moreover have "be_nat (b # r) = be_nat bs" using drop Cons by simp
    ultimately show ?thesis using b
      by (cases "b AND 0x80 = 0") (simp_all add: uint_minimal_def and_80_eq_0 be_nat_Cons [of 0])
  qed
  then have xs: "be_nat ?xs = be_nat bs" "uint_minimal ?xs" by (rule conjunct1, rule conjunct2)
  from xs(2) have "?xs = der_uint (be_nat ?xs)" by (rule der_uint_iff [THEN iffD2])
  then show ?thesis unfolding xs(1) .
qed

lemma writes_asn1_uint64: "writes A d (CBB_add_asn1_uint64 A d v) (Some (der_uint64 (unat v))) 33"
proof -
  let ?st = "\<exists>i \<in> set [0..<8]. asn1_octet v i \<noteq> 0"
  let ?loop = "asn1_uint64_octets A (Suc d) v [0..<8] False"
  have "chk ?loop (\<lambda>started. if \<not> started then CBB_add_u8 A (Suc d) 0 else succeed ()) =
      chk ?loop (\<lambda>_. if \<not> ?st then CBB_add_u8 A (Suc d) 0 else succeed ())"
  proof
    fix s
    show "chk ?loop (\<lambda>started. if \<not> started then CBB_add_u8 A (Suc d) 0 else succeed ()) s =
      chk ?loop (\<lambda>_. if \<not> ?st then CBB_add_u8 A (Suc d) 0 else succeed ()) s"
      by (rule chk_cong) (auto dest: octets_result)
  qed
  moreover have "writes A (Suc d) (if \<not> ?st then CBB_add_u8 A (Suc d) 0 else succeed ())
      (Some (if \<not> ?st then [0] else [])) 1"
    by (rule writes_optional)
  from writes_chk [OF writes_octets this, of v "[0..<8]" False]
  have "writes A (Suc d) (chk ?loop (\<lambda>_. if \<not> ?st then CBB_add_u8 A (Suc d) 0 else succeed ()))
      (Some (stripped False (map (asn1_octet v) [0..<8]) @ (if \<not> ?st then [0] else []))) 17" by simp
  moreover have "stripped False (map (asn1_octet v) [0..<8]) @ (if \<not> ?st then [0] else []) = der_uint (unat v)"
  proof -
    have "be_nat (map (asn1_octet v) [0..<8]) = unat v"
      unfolding asn1_octets_all using unat_lt_size_max [of v] by (intro be_nat_be_bytes_id) simp
    moreover have "(\<exists>b \<in> set (map (asn1_octet v) [0..<8]). b \<noteq> 0) = ?st" by simp
    ultimately show ?thesis using stripped_der_uint [of "map (asn1_octet v) [0..<8]"] by (simp only:)
  qed
  ultimately have "writes A (Suc d) (chk ?loop (\<lambda>started. if \<not> started then CBB_add_u8 A (Suc d) 0 else succeed ()))
      (Some (der_uint (unat v))) 17" by simp
  from writes_asn1_flushed [OF this, of CBS_ASN1_INTEGER] length_der_uint [of "unat v"] unat_lt_size_max [of v]
  show ?thesis by (simp add: CBB_add_asn1_uint64_def chk_assoc der_uint64_def)
qed

text \<open>The bytes of a negative \<open>int64_t\<close> from \<open>int64_start\<close> down.\<close>

definition int64_octets :: "64 word \<Rightarrow> bytes" where
  "int64_octets v = map (u_bytes v) (rev [0..<Suc (int64_start v 7)])"

lemma int64_start_props:
  "int64_start v i \<le> i"
  "j \<le> i \<Longrightarrow> int64_start v i < j \<Longrightarrow> u_bytes v j = 0xff"
  "u_bytes v i AND 0x80 \<noteq> 0 \<Longrightarrow> u_bytes v (int64_start v i) AND 0x80 \<noteq> 0"
  "0 < int64_start v i \<Longrightarrow>
     \<not> (u_bytes v (int64_start v i) = 0xff \<and> u_bytes v (int64_start v i - 1) AND 0x80 \<noteq> 0)"
proof -
  show "int64_start v i \<le> i" by (induction i) auto
  show "j \<le> i \<Longrightarrow> int64_start v i < j \<Longrightarrow> u_bytes v j = 0xff"
    by (induction i) (auto simp: le_Suc_eq split: if_splits)
  show "u_bytes v i AND 0x80 \<noteq> 0 \<Longrightarrow> u_bytes v (int64_start v i) AND 0x80 \<noteq> 0"
    by (induction i) auto
  show "0 < int64_start v i \<Longrightarrow>
     \<not> (u_bytes v (int64_start v i) = 0xff \<and> u_bytes v (int64_start v i - 1) AND 0x80 \<noteq> 0)"
    by (induction i) auto
qed

lemma u_bytes_all: "map (u_bytes v) (rev [0..<8]) = be_bytes 8 (unat v)"
proof (rule nth_equalityI)
  fix i
  assume "i < length (map (u_bytes v) (rev [0..<8]))"
  then have i: "i < 8" by simp
  then have "map (u_bytes v) (rev [0..<8]) ! i = u_bytes v (7 - i)" by (simp add: rev_nth)
  also have "\<dots> = of_nat (unat v div 2 ^ (8 * (7 - i)))" by (simp only: u_bytes_def ucast_u8_of_nat unat_drop_bit)
  also have "(2::nat) ^ (8 * (7 - i)) = 256 ^ (7 - i)" by (simp add: power_mult)
  also have "of_nat (unat v div 256 ^ (7 - i)) = be_bytes 8 (unat v) ! i"
    using i be_bytes_nth [of i 8 "unat v"] by simp
  finally show "map (u_bytes v) (rev [0..<8]) ! i = be_bytes 8 (unat v) ! i" .
qed simp

lemma int64_octets_split:
  "be_bytes 8 (unat v) = replicate (8 - length (int64_octets v)) 0xff @ int64_octets v"
proof -
  let ?s = "Suc (int64_start v 7)"
  have s: "?s \<le> 8" using int64_start_props(1) [of v 7] by simp
  then have "rev [0..<8] = rev [?s..<8] @ rev [0..<?s]"
    using upt_add_eq_append [of 0 ?s "8 - ?s"] by (metis le_add_diff_inverse rev_append zero_le)
  moreover have "map (u_bytes v) (rev [?s..<8]) = replicate (8 - ?s) 0xff"
    by (intro replicate_eqI) (auto intro!: int64_start_props(2) [of _ 7 v])
  moreover have "length (int64_octets v) = ?s" by (simp add: int64_octets_def)
  ultimately show ?thesis unfolding u_bytes_all [symmetric] int64_octets_def [of v] by simp
qed

lemma u_bytes_sign: "u_bytes v 7 AND 0x80 \<noteq> 0 \<longleftrightarrow> sint v < 0"
proof -
  have "u_bytes v 7 AND 0x80 \<noteq> 0 \<longleftrightarrow> bit (u_bytes v 7) 7"
    by (simp add: and_80_eq_0 bit_7_iff not_less)
  also have "\<dots> \<longleftrightarrow> bit v 63" by (simp add: u_bytes_def bit_simps)
  also have "\<dots> \<longleftrightarrow> sint v < 0" using bit_last_iff [of v] by simp
  finally show ?thesis .
qed

lemma int64_octets_der: "sint v < 0 \<Longrightarrow> int64_octets v = der_int (sint v)"
proof -
  assume neg: "sint v < 0"
  let ?xs = "int64_octets v" and ?s = "int64_start v 7"
  have ne: "?xs \<noteq> []" and len: "length ?xs = Suc ?s" by (simp_all add: int64_octets_def)
  have nth: "i \<le> ?s \<Longrightarrow> ?xs ! i = u_bytes v (?s - i)" for i
    by (simp add: int64_octets_def rev_nth del: upt_Suc)
  have top: "128 \<le> unat (?xs ! 0)"
    using int64_start_props(3) [of v 7] u_bytes_sign [of v] neg nth [of 0] by (simp add: and_80_eq_0 not_less)
  then have "?xs ! 0 \<noteq> 0" by (auto simp: unat_eq_0)
  moreover have "\<not> (1 < length ?xs \<and> ?xs ! 0 = 0xff \<and> 128 \<le> unat (?xs ! 1))"
    using int64_start_props(4) [of v 7] nth [of 0] nth [of 1] len by (auto simp: and_80_eq_0)
  ultimately have "int_minimal ?xs" using ne by (simp add: int_minimal_def)
  then have "?xs = der_int (sint_bytes ?xs)" using der_int_iff [OF ne] by blast
  moreover have "sint_bytes ?xs = sint v"
  proof -
    have l8: "length ?xs \<le> 8" using len int64_start_props(1) [of v 7] by simp
    have "be_nat (replicate (8 - length ?xs) (if 128 \<le> unat (?xs ! 0) then 0xff else 0) @ ?xs) = unat v"
      using int64_octets_split [of v] be_nat_be_bytes_id [of "unat v" 8] unat_lt_size_max [of v] top by simp
    then have "sint_bytes ?xs = sint (of_nat (unat v) :: 64 word)"
      using sint_pad [OF ne l8] by simp
    then show ?thesis by simp
  qed
  ultimately show ?thesis by simp
qed

lemma nonneg_int64: "0 \<le> sint v \<Longrightarrow> sint (v :: 64 word) = int (unat v)"
proof -
  assume "0 \<le> sint v"
  then have "\<not> bit v 63" using bit_last_iff [of v] by simp
  then have "\<not> bit (unat v) 63" by (simp add: bit_unsigned_iff)
  moreover have "unat v div 2 ^ 63 < 2"
    by (rule less_mult_imp_div_less) (use unat_lt_size_max [of v] in simp)
  ultimately have "unat v div 2 ^ 63 = 0" unfolding bit_iff_odd by (metis One_nat_def less_2_cases odd_one)
  then have "unat v < 2 ^ 63" by (simp only: div_eq_0_iff) simp
  then have "int (unat v) < int (2 ^ 63)" by (simp only: of_nat_less_iff)
  moreover have "0 \<le> uint v" by simp
  then have "- (2 ^ 63) \<le> uint v" by (rule order_trans [rotated]) simp
  ultimately have "signed_take_bit 63 (uint v) = uint v"
    by (intro signed_take_bit_int_eq_self) simp_all
  then show ?thesis by (simp add: sint_uint)
qed

lemma writes_octet_list:
  "writes A d (for_op (\<lambda>i. CBB_add_u8 A d (f i)) is) (Some (map f is)) (length is)"
  using writes_for_op [of "is" A d "\<lambda>i. CBB_add_u8 A d (f i)" "\<lambda>i. [f i]" 1] writes_add_u8
  by (simp add: concat_map_singleton)

lemma writes_asn1_int64: "writes A d (CBB_add_asn1_int64 A d v) (Some (der_int64 (sint v))) 33"
proof (cases "sint v \<ge> 0")
  case True
  then have "der_int64 (sint v) = der_uint64 (unat v)"
    by (simp add: der_int64_def der_uint64_def der_int_nonneg nonneg_int64)
  with True writes_asn1_uint64 [of A d v] show ?thesis by (simp add: CBB_add_asn1_int64_def)
next
  case False
  let ?is = "rev [0..<Suc (int64_start v 7)]"
  have len: "length ?is \<le> 17" "length (int64_octets v) < 2 ^ 32 - 1"
    using int64_start_props(1) [of v 7] by (simp_all add: int64_octets_def del: upt_Suc)
  have "writes A (Suc d) (for_op (\<lambda>i. CBB_add_u8 A (Suc d) (u_bytes v i)) ?is) (Some (map (u_bytes v) ?is)) 17"
    by (rule writes_weaken [OF writes_octet_list len(1)])
  from writes_asn1_flushed [OF this, of CBS_ASN1_INTEGER]
  have "writes A d (CBB_add_asn1_int64 A d v) (element_of CBS_ASN1_INTEGER (Some (int64_octets v))) 33"
    unfolding CBB_add_asn1_int64_def if_not_P [OF False] Let_def int64_octets_def by simp
  then show ?thesis
    using len(2) int64_octets_der [of v] False by (simp only: element_of_simps(2) der_int64_def not_le)
qed

end
