(* ===== verification/Oid.thy ===== *)
theory Oid
  imports Cbb_Asn1
begin

text \<open>
  Object identifiers as text: \<open>CBB_add_asn1_oid_from_text\<close> of \<open>cbb.c\<close> and \<open>CBS_asn1_oid_to_text\<close> of
  \<open>cbs.c\<close>. The arcs of an identifier are its numbers; their text is dotted decimal, their encoding a
  sequence of base-128 numbers whose first one holds two arcs.
\<close>

section \<open>The functions\<close>

text \<open>\<open>fin\<close> is where the \<open>for\<close> loop of \<open>parse_dotted_decimal\<close> breaks: \<open>return seen_digit\<close>.\<close>

function parse_dotted_decimal_loop :: "u64 \<Rightarrow> bool \<Rightarrow> (cbs, u64) op" where
  "parse_dotted_decimal_loop out seen_digit cbs =
     (case CBS_get_u8 cbs of
        (None, cbs') \<Rightarrow> (if seen_digit then Some out else None, cbs')
      | (Some u, cbs') \<Rightarrow>
          if u = 46 \<and> CBS_len cbs' > 0 then (if seen_digit then Some out else None, cbs')
          else if u < 48 \<or> u > 57 \<or> (seen_digit \<and> out = 0) \<or> out > (- 1) div 10 \<or>
            out * 10 > - 1 - ucast (u - 48) then (None, cbs')
          else parse_dotted_decimal_loop (out * 10 + ucast (u - 48)) True cbs')"
  by pat_completeness auto
termination
  by (relation "measure (\<lambda>(out, seen, cbs). unat (cbs_len cbs))") (auto dest: CBS_get_u8_shorter [OF sym])

declare parse_dotted_decimal_loop.simps [simp del]

definition parse_dotted_decimal :: "(cbs, u64) op" where
  "parse_dotted_decimal = parse_dotted_decimal_loop 0 False"

lemma dotted_decimal_shorter:
  "parse_dotted_decimal_loop out seen cbs = (Some v, cbs') \<Longrightarrow>
   unat (cbs_len cbs') \<le> unat (cbs_len cbs) \<and> (\<not> seen \<longrightarrow> unat (cbs_len cbs') < unat (cbs_len cbs))"
proof (induction out seen cbs rule: parse_dotted_decimal_loop.induct)
  case (1 out seen cbs)
  obtain r cbs1 where g: "CBS_get_u8 cbs = (r, cbs1)" by (cases "CBS_get_u8 cbs")
  show ?case
  proof (cases r)
    case None
    with g have "cbs1 = cbs" by (auto simp: CBS_get_u8_def chk_def cbs_get_def split: if_splits)
    with 1(2) g None show ?thesis
      by (subst (asm) parse_dotted_decimal_loop.simps) (auto split: if_splits)
  next
    case (Some u)
    with g have lt: "unat (cbs_len cbs1) < unat (cbs_len cbs)" by (auto dest: CBS_get_u8_shorter)
    have e: "parse_dotted_decimal_loop out seen cbs =
       (if u = 46 \<and> CBS_len cbs1 > 0 then (if seen then Some out else None, cbs1)
          else if u < 48 \<or> u > 57 \<or> (seen \<and> out = 0) \<or> out > (- 1) div 10 \<or>
            out * 10 > - 1 - ucast (u - 48) then (None, cbs1)
          else parse_dotted_decimal_loop (out * 10 + ucast (u - 48)) True cbs1)"
      by (subst parse_dotted_decimal_loop.simps) (simp add: g Some)
    show ?thesis
      using 1(2) 1(1) [OF g [symmetric, unfolded Some] refl] lt Some unfolding e by (auto split: if_splits)
  qed
qed

function oid_arcs :: "allocator \<Rightarrow> nat \<Rightarrow> cbs \<Rightarrow> (cbb, unit) op" where
  "oid_arcs A d cbs =
     (if CBS_len cbs > 0 then
        (case parse_dotted_decimal cbs of
           (None, _) \<Rightarrow> failure
         | (Some a, cbs') \<Rightarrow> chk (add_base128_integer A d a) (\<lambda>_. oid_arcs A d cbs'))
      else succeed ())"
  by pat_completeness auto
termination
  by (relation "measure (\<lambda>(A, d, cbs). unat (cbs_len cbs))")
    (auto simp: parse_dotted_decimal_def dest: dotted_decimal_shorter [OF sym])

declare oid_arcs.simps [simp del]

definition CBB_add_asn1_oid_from_text :: "allocator \<Rightarrow> nat \<Rightarrow> bytes \<Rightarrow> size_t \<Rightarrow> (cbb, unit) op" where
  "CBB_add_asn1_oid_from_text A d txt len =
     chk (CBB_flush A d) (\<lambda>_.
       case parse_dotted_decimal (CBS_init txt len) of
         (None, _) \<Rightarrow> failure
       | (Some a, cbs) \<Rightarrow>
           (case parse_dotted_decimal cbs of
              (None, _) \<Rightarrow> failure
            | (Some b, cbs) \<Rightarrow>
                if a > 2 \<or> (a < 2 \<and> b > 39) \<or> b > - 1 - 80 then failure
                else chk (add_base128_integer A d (40 * a + b)) (\<lambda>_. oid_arcs A d cbs)))"

text \<open>\<open>"%" PRIu64\<close> prints the decimal digits of the number.\<close>

fun decimal :: "nat \<Rightarrow> bytes" where
  "decimal n = (if n < 10 then [of_nat (48 + n)] else decimal (n div 10) @ [of_nat (48 + n mod 10)])"

declare decimal.simps [simp del]

definition add_decimal :: "allocator \<Rightarrow> nat \<Rightarrow> u64 \<Rightarrow> (cbb, unit) op" where
  "add_decimal A d v =
     (let digits = decimal (unat v) in CBB_add_bytes A d (digits @ [0]) (of_nat (strlen (digits @ [0]))))"

lemma parse_base128_shorter:
  "parse_base128_loop v cbs = (Some n, cbs') \<Longrightarrow> unat (cbs_len cbs') < unat (cbs_len cbs)"
proof (induction v cbs rule: parse_base128_loop.induct)
  case (1 v cbs)
  obtain r cbs1 where g: "CBS_get_u8 cbs = (r, cbs1)" by (cases "CBS_get_u8 cbs")
  with 1(2) obtain b where r: "r = Some b"
    by (cases r) (subst (asm) parse_base128_loop.simps, auto)
  have lt: "unat (cbs_len cbs1) < unat (cbs_len cbs)" using g r by (auto dest: CBS_get_u8_shorter)
  have e: "parse_base128_loop v cbs =
     (if drop_bit (64 - 7) v \<noteq> 0 then (None, cbs1)
          else if v = 0 \<and> b = 0x80 then (None, cbs1)
          else if b AND 0x80 \<noteq> 0 then parse_base128_loop (push_bit 7 v OR ucast (b AND 0x7f)) cbs1
          else (Some (push_bit 7 v OR ucast (b AND 0x7f)), cbs1))"
    by (subst parse_base128_loop.simps) (simp add: g r Let_def)
  show ?case
    using 1(2) 1(1) [OF g [symmetric, unfolded r] refl _ _ refl] lt unfolding e
    by (auto split: if_splits)
qed

text \<open>The \<open>while\<close> loop of \<open>CBS_asn1_oid_to_text\<close>, over the copy of the input.\<close>

function oid_text_loop :: "allocator \<Rightarrow> cbs \<Rightarrow> (cbb, unit) op" where
  "oid_text_loop A cbs =
     (if CBS_len cbs \<noteq> 0 then
        (case parse_base128_integer cbs of
           (None, _) \<Rightarrow> failure
         | (Some v, cbs') \<Rightarrow>
             chk (CBB_add_u8 A 0 46) (\<lambda>_. chk (add_decimal A 0 v) (\<lambda>_. oid_text_loop A cbs')))
      else succeed ())"
  by pat_completeness auto
termination
  by (relation "measure (\<lambda>(A, cbs). unat (cbs_len cbs))")
    (auto simp: parse_base128_integer_def dest: parse_base128_shorter [OF sym])

declare oid_text_loop.simps [simp del]

definition oid_text :: "allocator \<Rightarrow> cbs \<Rightarrow> (cbb, bytes) op" where
  "oid_text A cbs =
     (case parse_base128_integer cbs of
        (None, _) \<Rightarrow> failure
      | (Some v, copy) \<Rightarrow>
          chk (if v \<ge> 80 then chk (CBB_add_bytes A 0 [50, 46] 2) (\<lambda>_. add_decimal A 0 (v - 80))
               else chk (add_decimal A 0 (v div 40)) (\<lambda>_.
                    chk (CBB_add_u8 A 0 46) (\<lambda>_. add_decimal A 0 (v mod 40)))) (\<lambda>_.
          chk (oid_text_loop A copy) (\<lambda>_.
          chk (CBB_add_u8 A 0 0) (\<lambda>_.
          chk (CBB_finish A 0 True True) (\<lambda>(txt, txt_len). succeed (the txt))))))"

definition CBS_asn1_oid_to_text :: "allocator \<Rightarrow> cbs \<Rightarrow> bytes option" where
  "CBS_asn1_oid_to_text A cbs =
     (case CBB_init A 32 of
        (None, _) \<Rightarrow> None
      | (Some _, cbb) \<Rightarrow> fst (oid_text A cbs cbb))"

section \<open>Decimal numbers\<close>

text \<open>The parser of one component: digits up to the end or up to a dot that something follows.\<close>

fun p_dotted :: "nat \<Rightarrow> bool \<Rightarrow> nat parser" where
  "p_dotted v seen [] = (if seen then Some (v, []) else None)"
| "p_dotted v seen (u # xs) =
     (if u = 46 \<and> xs \<noteq> [] then (if seen then Some (v, xs) else None)
      else if unat u < 48 \<or> unat u > 57 \<or> (seen \<and> v = 0) \<or> 2 ^ 64 \<le> 10 * v + (unat u - 48) then None
      else p_dotted (10 * v + (unat u - 48)) True xs)"

text \<open>What follows a component: nothing, or a dot and a nonempty rest.\<close>

definition component :: "nat \<Rightarrow> bytes \<Rightarrow> bytes" where
  "component n ys = decimal n @ (if ys = [] then [] else 46 # ys)"

lemma digit_parts: "n < 10 \<Longrightarrow> unat (of_nat (48 + n) :: u8) = 48 + n"
  by (simp only: unat_u8_of_nat) simp

lemma decimal_step:
  "v \<noteq> 0 \<Longrightarrow> c < 10 \<Longrightarrow> decimal (10 * v + c) = decimal v @ [of_nat (48 + c)]"
  by (subst decimal.simps) simp

lemma decimal_digit: "c < 10 \<Longrightarrow> decimal c = [of_nat (48 + c)]"
  by (subst decimal.simps) simp

lemma p_dotted_sound:
  "p_dotted v True xs = Some (n, ys) \<Longrightarrow> v < 2 ^ 64 \<Longrightarrow>
   \<exists>zs. decimal n = decimal v @ zs \<and> xs = zs @ (if ys = [] then [] else 46 # ys) \<and> n < 2 ^ 64"
proof (induction xs arbitrary: v)
  case (Cons u xs)
  show ?case
  proof (cases "u = 46 \<and> xs \<noteq> []")
    case True
    with Cons.prems show ?thesis by (intro exI [of _ "[]"]) auto
  next
    case False
    let ?c = "unat u - 48"
    from False Cons.prems(1) have g: "\<not> unat u < 48" "\<not> unat u > 57" "v \<noteq> 0" "\<not> 2 ^ 64 \<le> 10 * v + ?c"
      "p_dotted (10 * v + ?c) True xs = Some (n, ys)"
      by (auto split: if_splits)
    from Cons.IH [OF g(5)] g(4) obtain zs where
      "decimal n = decimal (10 * v + ?c) @ zs" "xs = zs @ (if ys = [] then [] else 46 # ys)" "n < 2 ^ 64"
      by auto
    moreover have "(of_nat (48 + ?c) :: u8) = u" using g(1) by simp
    then have "decimal (10 * v + ?c) = decimal v @ [u]" using decimal_step [OF g(3), of ?c] g(1,2) by simp
    ultimately show ?thesis by (intro exI [of _ "u # zs"]) simp
  qed
qed simp

lemma p_dotted_complete:
  "n < 2 ^ 64 \<Longrightarrow> p_dotted 0 False (decimal n @ xs) = p_dotted n True xs"
proof (induction n arbitrary: xs rule: decimal.induct)
  case (1 n)
  show ?case
  proof (cases "n < 10")
    case True
    have u: "unat (of_nat (48 + n) :: u8) = 48 + n" by (rule digit_parts [OF True])
    then have "(of_nat (48 + n) :: u8) \<noteq> 46" by (auto simp: word_unat_eq_iff simp del: of_nat_add)
    with u True show ?thesis unfolding decimal_digit [OF True] by (simp del: of_nat_add unat_u8_of_nat)
  next
    case False
    let ?d = "of_nat (48 + n mod 10) :: u8"
    have u: "unat ?d = 48 + n mod 10" by (rule digit_parts) simp
    then have nd: "?d \<noteq> 46" by (auto simp: word_unat_eq_iff simp del: of_nat_add)
    have "n div 10 < 2 ^ 64" using "1.prems" by (rule le_less_trans [OF div_le_dividend])
    have n: "10 * (n div 10) + n mod 10 = n" by simp
    have "decimal n = decimal (n div 10) @ [?d]" using False by (subst decimal.simps) simp
    then have "p_dotted 0 False (decimal n @ xs) = p_dotted (n div 10) True (?d # xs)"
      using 1(1) [OF False \<open>n div 10 < 2 ^ 64\<close>] by simp
    also have "\<dots> = p_dotted n True xs"
      using nd u n "1.prems" False mod_less_divisor [of 10 n]
      by (simp add: div_eq_0_iff not_less del: of_nat_add unat_u8_of_nat mod_less_divisor)
    finally show ?thesis .
  qed
qed

lemma decimal_Cons: "\<exists>c zs. decimal n = c # zs \<and> 48 \<le> unat c \<and> unat c \<le> 57"
proof (induction n rule: decimal.induct)
  case (1 n)
  show ?case
  proof (cases "n < 10")
    case True
    then show ?thesis using digit_parts [OF True] by (simp add: decimal_digit del: of_nat_add)
  next
    case False
    with 1 show ?thesis by (subst decimal.simps) auto
  qed
qed

lemma decimal_nonempty [simp]: "decimal n \<noteq> []"
  using decimal_Cons [of n] by auto

lemma p_dotted_iff: "p_dotted 0 False xs = Some (n, ys) \<longleftrightarrow> n < 2 ^ 64 \<and> xs = component n ys"
proof
  assume p: "p_dotted 0 False xs = Some (n, ys)"
  then obtain u zs where xs: "xs = u # zs" by (cases xs) auto
  let ?c = "unat u - 48"
  from p xs have g: "\<not> unat u < 48" "\<not> unat u > 57" "p_dotted ?c True zs = Some (n, ys)"
    by (auto split: if_splits)
  have "?c < 2 ^ 64" using g(2) by simp
  with p_dotted_sound [OF g(3)] obtain ws where
    "decimal n = decimal ?c @ ws" "zs = ws @ (if ys = [] then [] else 46 # ys)" "n < 2 ^ 64" by auto
  moreover have "(of_nat (48 + ?c) :: u8) = u" using g(1) by simp
  then have "decimal ?c = [u]" using decimal_digit [of ?c] g(1,2) by simp
  ultimately show "n < 2 ^ 64 \<and> xs = component n ys" using xs by (simp add: component_def)
next
  assume "n < 2 ^ 64 \<and> xs = component n ys"
  then show "p_dotted 0 False xs = Some (n, ys)"
    using p_dotted_complete [of n] by (auto simp: component_def)
qed

lemma overflow_check:
  fixes out :: u64 and u :: u8
  assumes "48 \<le> unat u" and "unat u \<le> 57"
  shows "(out > (- 1) div 10 \<or> out * 10 > - 1 - ucast (u - 48)) \<longleftrightarrow> 2 ^ 64 \<le> 10 * unat out + (unat u - 48)"
    and "10 * unat out + (unat u - 48) < 2 ^ 64 \<Longrightarrow>
      unat (out * 10 + ucast (u - 48)) = 10 * unat out + (unat u - 48)"
proof -
  have max: "unat (- 1 :: u64) = 2 ^ 64 - 1" by (simp add: unsigned_minus_1_eq_mask mask_eq_exp_minus_1)
  have c: "unat (ucast (u - 48) :: u64) = unat u - 48"
    using assms(1) by (simp add: unat_ucast_up unat_sub_le word_le_nat_alt)
  have "unat ((- 1 :: u64) div 10) = (2 ^ 64 - 1) div 10" using max by (simp add: unat_div)
  then have d: "out > (- 1) div 10 \<longleftrightarrow> 1844674407370955161 < unat out" by (simp add: word_less_nat_alt)
  have "unat (- 1 - ucast (u - 48) :: u64) = 2 ^ 64 - 1 - (unat u - 48)"
    using max c by (subst unat_sub) simp_all
  then have e: "\<not> 1844674407370955161 < unat out \<Longrightarrow>
      out * 10 > - 1 - ucast (u - 48) \<longleftrightarrow> 2 ^ 64 - 1 - (unat u - 48) < 10 * unat out"
    by (simp add: word_less_nat_alt unat_word_ariths mult.commute)
  show "(out > (- 1) div 10 \<or> out * 10 > - 1 - ucast (u - 48)) \<longleftrightarrow> 2 ^ 64 \<le> 10 * unat out + (unat u - 48)"
  proof (cases "1844674407370955161 < unat out")
    case True
    then have "2 ^ 64 \<le> 10 * unat out + (unat u - 48)" by simp
    with True d show ?thesis by simp
  next
    case False
    with d e [OF False] assms show ?thesis by auto
  qed
  show "10 * unat out + (unat u - 48) < 2 ^ 64 \<Longrightarrow>
      unat (out * 10 + ucast (u - 48)) = 10 * unat out + (unat u - 48)"
    using c by (simp add: unat_word_ariths mult.commute)
qed

lemma refines_dotted_loop:
  "cbs_rep c xs \<Longrightarrow> refines_at cbs_rep word_is (parse_dotted_decimal_loop v seen c) (p_dotted (unat v) seen xs)"
proof (induction xs arbitrary: v seen c)
  case Nil
  then have "CBS_get_u8 c = (None, c)"
    using cbs_rep_length [OF Nil] by (auto simp: CBS_get_u8_def chk_def cbs_get_def unat_eq_0)
  with Nil show ?case by (subst parse_dotted_decimal_loop.simps) (simp add: word_is_def)
next
  case (Cons u xs)
  obtain c' where c': "CBS_get_u8 c = (Some u, c')" "cbs_rep c' xs"
    using refines_SomeE [OF refines_CBS_get_u8 Cons.prems, of u xs] by auto
  have more: "CBS_len c' > 0 \<longleftrightarrow> xs \<noteq> []"
    using cbs_rep_length [OF c'(2)] by (cases xs) (auto simp: CBS_len_def word_less_nat_alt)
  have lt: "u < 48 \<longleftrightarrow> unat u < 48" "u > 57 \<longleftrightarrow> unat u > 57" by (simp_all add: word_less_nat_alt)
  have z: "v = 0 \<longleftrightarrow> unat v = 0" by (simp add: unat_eq_0)
  have e: "parse_dotted_decimal_loop v seen c =
     (if u = 46 \<and> xs \<noteq> [] then (if seen then Some v else None, c')
      else if u < 48 \<or> u > 57 \<or> (seen \<and> v = 0) \<or> v > (- 1) div 10 \<or> v * 10 > - 1 - ucast (u - 48) then (None, c')
      else parse_dotted_decimal_loop (v * 10 + ucast (u - 48)) True c')"
    by (subst parse_dotted_decimal_loop.simps) (simp add: c'(1) more)
  show ?case
  proof (cases "u = 46 \<and> xs \<noteq> []")
    case True
    then show ?thesis using c'(2) unfolding e by (simp add: word_is_def)
  next
    case no: False
    show ?thesis
    proof (cases "unat u < 48 \<or> unat u > 57 \<or> (seen \<and> v = 0)")
      case True
      then show ?thesis unfolding e p_dotted.simps if_not_P [OF no] using lt z by auto
    next
      case False
      then have u: "48 \<le> unat u" "unat u \<le> 57" by auto
      note o = overflow_check [OF u, of v]
      show ?thesis
      proof (cases "2 ^ 64 \<le> 10 * unat v + (unat u - 48)")
        case True
        then show ?thesis unfolding e p_dotted.simps if_not_P [OF no] using o(1) by auto
      next
        case fits: False
        then have "unat (v * 10 + ucast (u - 48)) = 10 * unat v + (unat u - 48)" using o(2) by simp
        moreover have "\<not> (unat u < 48 \<or> unat u > 57 \<or> (seen \<and> unat v = 0) \<or> 2 ^ 64 \<le> 10 * unat v + (unat u - 48))"
          using False fits z by auto
        moreover have "\<not> (u < 48 \<or> u > 57 \<or> (seen \<and> v = 0) \<or> v > (- 1) div 10 \<or> v * 10 > - 1 - ucast (u - 48))"
          using False fits o(1) lt z by auto
        ultimately show ?thesis
          using Cons.IH [OF c'(2), of "v * 10 + ucast (u - 48)" True]
          unfolding e p_dotted.simps if_not_P [OF no] by (simp only: if_False)
      qed
    qed
  qed
qed

lemma refines_parse_dotted_decimal: "refines cbs_rep word_is parse_dotted_decimal (p_dotted 0 False)"
  using refines_dotted_loop [of _ _ 0 False] by (simp add: refines_iff_at parse_dotted_decimal_def)

section \<open>Lists of arcs\<close>

text \<open>The first two arcs share a number: 40 times the first, which is at most 2, plus the second.\<close>

definition oid_ok :: "nat list \<Rightarrow> bool" where
  "oid_ok arcs \<longleftrightarrow>
     (case arcs of
        a # b # ns \<Rightarrow> a \<le> 2 \<and> (a < 2 \<longrightarrow> b \<le> 39) \<and> b < 2 ^ 64 - 80 \<and> (\<forall>n \<in> set ns. n < 2 ^ 64)
      | _ \<Rightarrow> False)"

definition oid_bytes :: "nat list \<Rightarrow> bytes" where
  "oid_bytes arcs = base128 (40 * arcs ! 0 + arcs ! 1) @ concat (map base128 (drop 2 arcs))"

text \<open>Dotted decimal text, and the reading of all its components.\<close>

definition dotted :: "nat list \<Rightarrow> bytes" where
  "dotted arcs = foldr component arcs []"

function p_arcs :: "bytes \<Rightarrow> nat list option" where
  "p_arcs xs =
     (if xs = [] then Some []
      else case p_dotted 0 False xs of
             None \<Rightarrow> None
           | Some (n, ys) \<Rightarrow> map_option (Cons n) (p_arcs ys))"
  by pat_completeness auto
termination
  by (relation "measure length") (auto simp: p_dotted_iff component_def Suc_le_eq)

declare p_arcs.simps [simp del]

lemma component_nonempty [simp]: "component n ys \<noteq> []"
  by (simp add: component_def)

lemma p_arcs_iff: "p_arcs xs = Some ns \<longleftrightarrow> (\<forall>n \<in> set ns. n < 2 ^ 64) \<and> xs = dotted ns"
proof (induction ns arbitrary: xs)
  case Nil
  show ?case by (subst p_arcs.simps) (auto simp: dotted_def split: option.splits)
next
  case (Cons n ns)
  have "p_arcs xs = Some (n # ns) \<longleftrightarrow>
      (\<exists>ys. xs \<noteq> [] \<and> p_dotted 0 False xs = Some (n, ys) \<and> p_arcs ys = Some ns)"
    by (subst p_arcs.simps) (auto split: option.splits)
  also have "\<dots> \<longleftrightarrow> (\<forall>m \<in> set (n # ns). m < 2 ^ 64) \<and> xs = dotted (n # ns)"
    unfolding p_dotted_iff Cons.IH by (auto simp: dotted_def)
  finally show ?case .
qed

text \<open>What \<open>CBB_add_asn1_oid_from_text\<close> makes of a text.\<close>

definition oid_of_text :: "bytes \<Rightarrow> bytes option" where
  "oid_of_text xs =
     (case p_arcs xs of
        None \<Rightarrow> None
      | Some arcs \<Rightarrow> if oid_ok arcs then Some (oid_bytes arcs) else None)"

lemma oid_of_text_iff: "oid_of_text xs = Some der \<longleftrightarrow> (\<exists>arcs. oid_ok arcs \<and> xs = dotted arcs \<and> der = oid_bytes arcs)"
proof -
  have valid: "oid_ok arcs \<Longrightarrow> p_arcs (dotted arcs) = Some arcs" for arcs
    unfolding p_arcs_iff by (auto simp: oid_ok_def split: list.splits)
  show ?thesis
  proof (cases "p_arcs xs")
    case None
    then show ?thesis unfolding oid_of_text_def using valid by auto
  next
    case (Some arcs)
    then have "xs = dotted arcs" by (simp add: p_arcs_iff)
    then show ?thesis unfolding oid_of_text_def using Some valid by auto
  qed
qed

lemma writes_fail: "(\<And>s. fst (m s) = None) \<Longrightarrow> writes A d m None w"
  by (rule writesI) (metis fst_conv option.distinct(1))+

lemma writes_oid_arcs:
  "cbs_rep c xs \<Longrightarrow>
   writes A d (oid_arcs A d c) (map_option (\<lambda>ns. concat (map base128 ns)) (p_arcs xs)) (10 * length xs)"
proof (induction xs arbitrary: c rule: p_arcs.induct)
  case (1 xs)
  have e: "CBS_len c > 0 \<longleftrightarrow> xs \<noteq> []"
    using cbs_rep_length [OF "1.prems"] by (cases xs) (auto simp: CBS_len_def word_less_nat_alt)
  show ?case
  proof (cases "xs = []")
    case True
    with e show ?thesis by (subst oid_arcs.simps, subst p_arcs.simps) (simp add: writes_succeed)
  next
    case ne: False
    show ?thesis
    proof (cases "p_dotted 0 False xs")
      case None
      then have "fst (parse_dotted_decimal c) = None" by (rule refines_None [OF refines_parse_dotted_decimal "1.prems"])
      with None e ne show ?thesis
        by (subst oid_arcs.simps, subst p_arcs.simps) (auto intro!: writes_fail split: prod.splits)
    next
      case (Some r)
      then obtain n ys where p: "p_dotted 0 False xs = Some (n, ys)" by (cases r) auto
      obtain w c' where c': "parse_dotted_decimal c = (Some w, c')" "word_is w n" "cbs_rep c' ys"
        by (rule refines_SomeE [OF refines_parse_dotted_decimal "1.prems" p])
      have len: "Suc (length ys) \<le> length xs" using p by (auto simp: p_dotted_iff component_def Suc_le_eq)
      have "writes A d (chk (add_base128_integer A d w) (\<lambda>_. oid_arcs A d c'))
          (cat (Some (base128 n)) (map_option (\<lambda>ns. concat (map base128 ns)) (p_arcs ys))) (10 + 10 * length ys)"
        by (rule writes_chk [OF puts_writes])
          (use puts_add_base128_integer [of A d w] c'(2) "1.IH" [OF ne p refl c'(3)] in \<open>simp_all add: word_is_def\<close>)
      moreover have "oid_arcs A d c = chk (add_base128_integer A d w) (\<lambda>_. oid_arcs A d c')"
        using e ne c'(1) by (subst oid_arcs.simps) simp
      moreover have "cat (Some (base128 n)) (map_option (\<lambda>ns. concat (map base128 ns)) (p_arcs ys)) =
          map_option (\<lambda>ns. concat (map base128 ns)) (p_arcs xs)"
        using p ne by (subst (2) p_arcs.simps) (cases "p_arcs ys"; simp)
      ultimately show ?thesis using len by (auto intro: writes_weaken)
    qed
  qed
qed

lemma first_arcs_word:
  fixes a b :: u64
  shows "(a > 2 \<or> (a < 2 \<and> b > 39) \<or> b > - 1 - 80) \<longleftrightarrow>
      \<not> (unat a \<le> 2 \<and> (unat a < 2 \<longrightarrow> unat b \<le> 39) \<and> unat b < 2 ^ 64 - 80)"
    and "unat a \<le> 2 \<Longrightarrow> unat b < 2 ^ 64 - 80 \<Longrightarrow> unat (40 * a + b) = 40 * unat a + unat b"
proof -
  have "unat (- 1 - 80 :: u64) = 2 ^ 64 - 81" by simp
  then show "(a > 2 \<or> (a < 2 \<and> b > 39) \<or> b > - 1 - 80) \<longleftrightarrow>
      \<not> (unat a \<le> 2 \<and> (unat a < 2 \<longrightarrow> unat b \<le> 39) \<and> unat b < 2 ^ 64 - 80)"
    by (auto simp: word_less_nat_alt)
  show "unat a \<le> 2 \<Longrightarrow> unat b < 2 ^ 64 - 80 \<Longrightarrow> unat (40 * a + b) = 40 * unat a + unat b"
    by (simp add: unat_word_ariths)
qed

lemma p_arcs_step:
  "p_dotted 0 False xs = Some (n, ys) \<Longrightarrow> p_arcs xs = map_option (Cons n) (p_arcs ys)"
  by (subst p_arcs.simps) auto

lemma p_arcs_stuck: "p_dotted 0 False xs = None \<Longrightarrow> p_arcs xs = (if xs = [] then Some [] else None)"
  by (subst p_arcs.simps) auto

lemma writes_oid_from_text:
  assumes c: "cbs_rep (CBS_init txt n) xs"
  shows "writes A d (CBB_add_asn1_oid_from_text A d txt n) (oid_of_text xs) (10 + 10 * length xs)"
proof -
  let ?rest = "case parse_dotted_decimal (CBS_init txt n) of
         (None, _) \<Rightarrow> failure
       | (Some a, cbs) \<Rightarrow>
           (case parse_dotted_decimal cbs of
              (None, _) \<Rightarrow> failure
            | (Some b, cbs) \<Rightarrow>
                if a > 2 \<or> (a < 2 \<and> b > 39) \<or> b > - 1 - 80 then failure
                else chk (add_base128_integer A d (40 * a + b)) (\<lambda>_. oid_arcs A d cbs))"
  note R = refines_parse_dotted_decimal
  have failed: "?rest = failure \<Longrightarrow> oid_of_text xs = None \<Longrightarrow> writes A d ?rest (oid_of_text xs) (10 + 10 * length xs)"
    by (simp add: writes_fail)
  have "writes A d ?rest (oid_of_text xs) (10 + 10 * length xs)"
  proof (cases "p_dotted 0 False xs")
    case None
    then have "fst (parse_dotted_decimal (CBS_init txt n)) = None" by (rule refines_None [OF R c])
    moreover have "oid_of_text xs = None" using None by (simp add: oid_of_text_def p_arcs_stuck oid_ok_def)
    ultimately show ?thesis by (intro failed) (auto split: prod.splits)
  next
    case (Some r)
    then obtain k ys where k: "p_dotted 0 False xs = Some (k, ys)" by (cases r) auto
    obtain a c1 where a: "parse_dotted_decimal (CBS_init txt n) = (Some a, c1)" "word_is a k" "cbs_rep c1 ys"
      by (rule refines_SomeE [OF R c k])
    show ?thesis
    proof (cases "p_dotted 0 False ys")
      case None
      then have "fst (parse_dotted_decimal c1) = None" by (rule refines_None [OF R a(3)])
      moreover have "oid_of_text xs = None"
        using None by (simp add: oid_of_text_def p_arcs_step [OF k] p_arcs_stuck oid_ok_def)
      ultimately show ?thesis using a(1) by (intro failed) (auto split: prod.splits)
    next
      case (Some r)
      then obtain l zs where l: "p_dotted 0 False ys = Some (l, zs)" by (cases r) auto
      obtain b c2 where b: "parse_dotted_decimal c1 = (Some b, c2)" "word_is b l" "cbs_rep c2 zs"
        by (rule refines_SomeE [OF R a(3) l])
      let ?valid = "k \<le> 2 \<and> (k < 2 \<longrightarrow> l \<le> 39) \<and> l < 2 ^ 64 - 80"
      have code: "?rest = (if \<not> ?valid then failure
          else chk (add_base128_integer A d (40 * a + b)) (\<lambda>_. oid_arcs A d c2))"
        using a(1,2) b(1,2) first_arcs_word(1) [of a b] by (simp only: prod.case option.case word_is_def)
      have len: "length zs \<le> length xs" using k l by (auto simp: p_dotted_iff component_def)
      have spec: "oid_of_text xs = (if \<not> ?valid then None
          else map_option (\<lambda>ns. base128 (40 * k + l) @ concat (map base128 ns)) (p_arcs zs))"
      proof -
        have "p_arcs zs = Some ns \<Longrightarrow> \<forall>m \<in> set ns. m < 2 ^ 64" for ns by (simp add: p_arcs_iff)
        then show ?thesis
          unfolding oid_of_text_def p_arcs_step [OF k] p_arcs_step [OF l]
          by (cases "p_arcs zs") (auto simp: oid_ok_def oid_bytes_def)
      qed
      show ?thesis
      proof (cases ?valid)
        case False
        then show ?thesis by (intro failed) (simp_all only: code spec if_True simp_thms)
      next
        case True
        then have "unat (40 * a + b) = 40 * k + l"
          using first_arcs_word(2) [of a b] a(2) b(2) by (simp add: word_is_def)
        then have "writes A d (chk (add_base128_integer A d (40 * a + b)) (\<lambda>_. oid_arcs A d c2))
            (cat (Some (base128 (40 * k + l))) (map_option (\<lambda>ns. concat (map base128 ns)) (p_arcs zs)))
            (10 + 10 * length zs)"
          using puts_add_base128_integer [of A d "40 * a + b"]
          by (intro writes_chk [OF puts_writes] writes_oid_arcs b(3)) simp
        moreover have "cat (Some (base128 (40 * k + l))) (map_option (\<lambda>ns. concat (map base128 ns)) (p_arcs zs)) =
            oid_of_text xs" using True unfolding spec by (cases "p_arcs zs") simp_all
        ultimately show ?thesis using True len unfolding code by (auto intro: writes_weaken)
      qed
    qed
  qed
  from writes_chk [OF writes_flush this] show ?thesis unfolding CBB_add_asn1_oid_from_text_def by simp
qed

section \<open>From the encoding to text\<close>

definition first_arcs :: "nat \<Rightarrow> nat list" where
  "first_arcs v = (if 80 \<le> v then [2, v - 80] else [v div 40, v mod 40])"

definition p_oid :: "bytes \<Rightarrow> nat list option" where
  "p_oid xs =
     (case p_base128_from 0 xs of
        None \<Rightarrow> None
      | Some (v, ys) \<Rightarrow> map_option (\<lambda>ns. first_arcs v @ ns) (p_many (p_base128_from 0) (length ys) ys))"

lemma first_arcs_cases:
  obtains a b where "first_arcs v = [a, b]" "40 * a + b = v" "a \<le> 2" "a < 2 \<longrightarrow> b \<le> 39"
    "v < 2 ^ 64 \<Longrightarrow> b < 2 ^ 64 - 80"
proof (cases "80 \<le> v")
  case True
  then show thesis by (intro that [of 2 "v - 80"]) (auto simp: first_arcs_def)
next
  case False
  have "v mod 40 < 40" by simp
  with False show thesis
    by (intro that [of "v div 40" "v mod 40"]) (auto simp: first_arcs_def simp del: mod_less_divisor)
qed

lemma first_arcs_eq: "a \<le> 2 \<Longrightarrow> (a < 2 \<longrightarrow> b \<le> 39) \<Longrightarrow> first_arcs (40 * a + b) = [a, b]"
  by (cases "a = 2") (auto simp: first_arcs_def)

lemma p_oid_iff: "p_oid xs = Some arcs \<longleftrightarrow> oid_ok arcs \<and> xs = oid_bytes arcs"
proof
  assume "p_oid xs = Some arcs"
  then obtain v ys ns where v: "p_base128_from 0 xs = Some (v, ys)"
    and ns: "p_many (p_base128_from 0) (length ys) ys = Some ns" and arcs: "arcs = first_arcs v @ ns"
    by (auto simp: p_oid_def split: option.splits)
  obtain a b where "first_arcs v = [a, b]" "40 * a + b = v" "a \<le> 2" "a < 2 \<longrightarrow> b \<le> 39"
    "v < 2 ^ 64 \<longrightarrow> b < 2 ^ 64 - 80" by (rule first_arcs_cases [of v]) blast
  moreover have "v < 2 ^ 64 \<and> xs = base128 v @ ys" using v by (rule base128.enc_dec)
  moreover have "ys = concat (map base128 ns) \<and> (\<forall>n \<in> set ns. n < 2 ^ 64)"
    using ns by (rule base128.p_many_dec)
  ultimately show "oid_ok arcs \<and> xs = oid_bytes arcs"
    unfolding arcs by (simp add: oid_ok_def oid_bytes_def)
next
  assume ok: "oid_ok arcs \<and> xs = oid_bytes arcs"
  then obtain a b ns where arcs: "arcs = a # b # ns"
    and ab: "a \<le> 2" "a < 2 \<longrightarrow> b \<le> 39" "b < 2 ^ 64 - 80" and ns: "\<forall>n \<in> set ns. n < 2 ^ 64"
    by (auto simp: oid_ok_def split: list.splits)
  have v: "40 * a + b < 2 ^ 64" using ab by simp
  have "length ns \<le> length (concat (map base128 ns))"
    by (induction ns) (auto simp: Suc_le_eq add_strict_increasing)
  then have "p_many (p_base128_from 0) (length (concat (map base128 ns))) (concat (map base128 ns)) = Some ns"
    by (rule base128.p_many_enc [OF ns])
  then show "p_oid xs = Some arcs"
    using ok base128.dec_enc [OF v] first_arcs_eq [OF ab(1,2)] by (simp add: p_oid_def oid_bytes_def arcs)
qed

lemma dotted_Cons: "dotted (n # ns) = decimal n @ concat (map (\<lambda>m. 46 # decimal m) ns)"
proof (induction ns arbitrary: n)
  case (Cons m ns)
  have "dotted (n # m # ns) = decimal n @ 46 # dotted (m # ns)" by (simp add: dotted_def component_def)
  then show ?case using Cons by simp
qed (simp add: dotted_def component_def)

lemma decimal_digits: "c \<in> set (decimal n) \<Longrightarrow> 48 \<le> unat c \<and> unat c \<le> 57"
proof (induction n rule: decimal.induct)
  case (1 n)
  show ?case
  proof (cases "n < 10")
    case True
    with "1.prems" show ?thesis using digit_parts [OF True] by (auto simp: decimal_digit simp del: of_nat_add)
  next
    case False
    have "unat (of_nat (48 + n mod 10) :: u8) = 48 + n mod 10" by (rule digit_parts) simp
    moreover have "n mod 10 < 10" by simp
    ultimately show ?thesis
      using False 1 by (subst (asm) (2) decimal.simps) (auto simp del: of_nat_add mod_less_divisor unat_u8_of_nat)
  qed
qed

lemma dotted_nonzero: "0 \<notin> set (dotted ns)"
proof (cases ns)
  case (Cons n ms)
  have "0 \<notin> set (decimal m)" for m using decimal_digits [of 0 m] by auto
  then show ?thesis unfolding Cons dotted_Cons by auto
qed (simp add: dotted_def)

lemma length_decimal: "n < 10 ^ k \<Longrightarrow> 0 < k \<Longrightarrow> length (decimal n) \<le> k"
proof (induction k arbitrary: n)
  case (Suc k)
  show ?case
  proof (cases "n < 10")
    case False
    then have "0 < k" using Suc.prems by (cases k) auto
    moreover have "n div 10 < 10 ^ k" using Suc.prems by (simp add: div_less_iff_less_mult mult.commute)
    ultimately show ?thesis using False Suc.IH by (subst decimal.simps) simp
  qed (simp add: decimal_digit)
qed simp

lemma writes_add_decimal: "writes A d (add_decimal A d v) (Some (decimal (unat v))) 20"
proof -
  let ?ds = "decimal (unat v)"
  have "0 \<notin> set ?ds" using decimal_digits [of 0] by auto
  then have s: "strlen (?ds @ [0]) = length ?ds" by (subst strlen_def, subst takeWhile_append2) auto
  have len: "length ?ds \<le> 20" using unat_lt_size_max [of v] by (intro length_decimal) simp_all
  then have n: "unat (of_nat (length ?ds) :: size_t) = length ?ds" by (intro unat_of_nat_size) simp
  have "writes A d (add_decimal A d v) (Some (take (unat (of_nat (length ?ds) :: size_t)) (?ds @ [0])))
      (unat (of_nat (length ?ds) :: size_t))"
    unfolding add_decimal_def Let_def s by (rule writes_add_bytes) (simp add: n)
  then show ?thesis using len unfolding n by (auto intro: writes_weaken)
qed

lemma writes_oid_text_loop:
  "cbs_rep c xs \<Longrightarrow> length xs \<le> fuel \<Longrightarrow>
   writes A 0 (oid_text_loop A c)
     (map_option (\<lambda>ns. concat (map (\<lambda>n. 46 # decimal n) ns)) (p_many (p_base128_from 0) fuel xs)) (21 * length xs)"
proof (induction fuel arbitrary: c xs)
  case 0
  then have "unat (CBS_len c) = 0" using cbs_rep_length [OF 0(1)] by (simp add: CBS_len_def)
  then have "CBS_len c = 0" by (simp add: unat_eq_0)
  with 0 show ?case by (subst oid_text_loop.simps) (simp add: writes_succeed)
next
  case (Suc fuel)
  have e: "CBS_len c \<noteq> 0 \<longleftrightarrow> xs \<noteq> []"
    using cbs_rep_length [OF Suc.prems(1)] by (cases xs) (auto simp: CBS_len_def unat_eq_0)
  note R = refines_parse_base128_integer
  show ?case
  proof (cases xs)
    case Nil
    with e show ?thesis by (subst oid_text_loop.simps) (simp add: writes_succeed)
  next
    case (Cons x xs')
    show ?thesis
    proof (cases "p_base128_from 0 xs")
      case None
      then have "fst (parse_base128_integer c) = None" by (rule refines_None [OF R Suc.prems(1)])
      with None e Cons show ?thesis
        by (subst oid_text_loop.simps) (auto intro!: writes_fail split: prod.splits)
    next
      case (Some r)
      then obtain n ys where n: "p_base128_from 0 xs = Some (n, ys)" by (cases r) auto
      obtain w c' where c': "parse_base128_integer c = (Some w, c')" "word_is w n" "cbs_rep c' ys"
        by (rule refines_SomeE [OF R Suc.prems(1) n])
      have len: "Suc (length ys) \<le> length xs" using base128.dec_shorter [OF n] by simp
      let ?p = "map_option (\<lambda>ns. concat (map (\<lambda>n. 46 # decimal n) ns)) (p_many (p_base128_from 0) fuel ys)"
      have "writes A 0 (oid_text_loop A c') ?p (21 * length ys)"
        using Suc.IH [OF c'(3)] Suc.prems(2) len by simp
      then have "writes A 0 (chk (CBB_add_u8 A 0 46) (\<lambda>_. chk (add_decimal A 0 w) (\<lambda>_. oid_text_loop A c')))
          (cat (Some [46]) (cat (Some (decimal (unat w))) ?p)) (1 + (20 + 21 * length ys))"
        by (intro writes_chk writes_add_u8 writes_add_decimal)
      moreover have "cat (Some [46]) (cat (Some (decimal (unat w))) ?p) =
          map_option (\<lambda>ns. concat (map (\<lambda>n. 46 # decimal n) ns)) (p_many (p_base128_from 0) (Suc fuel) xs)"
        using n c'(2) Cons by (cases "p_many (p_base128_from 0) fuel ys") (simp_all add: word_is_def)
      moreover have "oid_text_loop A c =
          chk (CBB_add_u8 A 0 46) (\<lambda>_. chk (add_decimal A 0 w) (\<lambda>_. oid_text_loop A c'))"
        using e Cons c'(1) by (subst oid_text_loop.simps) simp
      ultimately show ?thesis using len by (auto intro: writes_weaken)
    qed
  qed
qed

text \<open>
  The whole function. Without memory trouble it returns a string exactly for the encodings of valid
  identifiers, and the string is their dotted decimal text, followed by a zero byte.
\<close>

lemma writes_oid_head:
  "writes A d (if v \<ge> 80 then chk (CBB_add_bytes A d [50, 46] 2) (\<lambda>_. add_decimal A d (v - 80))
               else chk (add_decimal A d (v div 40)) (\<lambda>_.
                    chk (CBB_add_u8 A d 46) (\<lambda>_. add_decimal A d (v mod 40))))
     (Some (dotted (first_arcs (unat v)))) 41"
proof (cases "80 \<le> unat v")
  case True
  have "writes A d (chk (CBB_add_bytes A d [50, 46] 2) (\<lambda>_. add_decimal A d (v - 80)))
      (cat (Some (take (unat (2 :: size_t)) [50, 46])) (Some (decimal (unat (v - 80))))) (unat (2 :: size_t) + 20)"
    by (intro writes_chk writes_add_bytes writes_add_decimal) simp
  moreover have v: "80 \<le> v" using True by (simp add: word_le_nat_alt)
  then have "unat (v - 80) = unat v - 80" by (simp add: unat_sub_le)
  moreover have "decimal 2 = [50]" by (simp add: decimal_digit)
  ultimately show ?thesis using True v
    by (auto simp: first_arcs_def dotted_Cons intro: writes_weaken)
next
  case False
  have "writes A d (chk (add_decimal A d (v div 40)) (\<lambda>_. chk (CBB_add_u8 A d 46) (\<lambda>_. add_decimal A d (v mod 40))))
      (cat (Some (decimal (unat (v div 40)))) (cat (Some [46]) (Some (decimal (unat (v mod 40)))))) (20 + (1 + 20))"
    by (intro writes_chk writes_add_u8 writes_add_decimal)
  moreover have "\<not> 80 \<le> v" using False by (simp add: word_le_nat_alt)
  ultimately show ?thesis using False by (simp add: first_arcs_def dotted_Cons unat_div unat_mod)
qed

definition oid_body :: "allocator \<Rightarrow> u64 \<Rightarrow> cbs \<Rightarrow> (cbb, unit) op" where
  "oid_body A v copy =
     chk (if v \<ge> 80 then chk (CBB_add_bytes A 0 [50, 46] 2) (\<lambda>_. add_decimal A 0 (v - 80))
          else chk (add_decimal A 0 (v div 40)) (\<lambda>_.
               chk (CBB_add_u8 A 0 46) (\<lambda>_. add_decimal A 0 (v mod 40)))) (\<lambda>_.
     chk (oid_text_loop A copy) (\<lambda>_. CBB_add_u8 A 0 0))"

lemma writes_oid_body:
  assumes "cbs_rep c ys"
  shows "writes A 0 (oid_body A v c)
     (map_option (\<lambda>ns. dotted (first_arcs (unat v) @ ns) @ [0]) (p_many (p_base128_from 0) (length ys) ys))
     (42 + 21 * length ys)"
proof -
  let ?p = "map_option (\<lambda>ns. concat (map (\<lambda>n. 46 # decimal n) ns)) (p_many (p_base128_from 0) (length ys) ys)"
  have "writes A 0 (oid_body A v c) (cat (Some (dotted (first_arcs (unat v)))) (cat ?p (Some [0])))
      (41 + (21 * length ys + 1))"
    unfolding oid_body_def
    by (intro writes_chk writes_oid_head writes_oid_text_loop [OF assms] writes_add_u8) simp
  moreover have "dotted (first_arcs (unat v) @ ns) =
      dotted (first_arcs (unat v)) @ concat (map (\<lambda>n. 46 # decimal n) ns)" for ns
    by (rule first_arcs_cases [of "unat v"]) (simp add: dotted_Cons)
  then have "cat (Some (dotted (first_arcs (unat v)))) (cat ?p (Some [0])) =
      map_option (\<lambda>ns. dotted (first_arcs (unat v) @ ns) @ [0]) (p_many (p_base128_from 0) (length ys) ys)"
    by (cases "p_many (p_base128_from 0) (length ys) ys") simp_all
  ultimately show ?thesis by simp
qed

lemma oid_text_body:
  "oid_text A c = (case parse_base128_integer c of
      (None, _) \<Rightarrow> failure
    | (Some v, copy) \<Rightarrow> chk (oid_body A v copy) (\<lambda>_.
        chk (CBB_finish A 0 True True) (\<lambda>(txt, txt_len). succeed (the txt))))"
  unfolding oid_text_def oid_body_def chk_assoc ..

text \<open>An operation on a fresh \<open>CBB\<close>, finished.\<close>

lemma write_and_finish:
  assumes W: "writes A 0 m e w" and w: "w \<le> 2 ^ 62" and n: "unat n \<le> 2 ^ 62"
    and r: "(case CBB_init A n of (None, _) \<Rightarrow> None
      | (Some _, s) \<Rightarrow> fst (chk m (\<lambda>_. chk (CBB_finish A 0 True True) (\<lambda>(txt, k). succeed (the txt))) s)) = r"
  shows "r = Some out \<Longrightarrow> \<exists>x tail. e = Some x \<and> out = x @ tail"
    and "\<forall>k. alloc_ok A k \<Longrightarrow> e = Some x \<Longrightarrow> r \<noteq> None"
proof -
  have "(r = Some out \<longrightarrow> (\<exists>x tail. e = Some x \<and> out = x @ tail)) \<and> ((\<forall>k. alloc_ok A k) \<longrightarrow> e = Some x \<longrightarrow> r \<noteq> None)"
  proof (rule CBB_init_cases [OF n, of A])
    fix s
    assume s: "CBB_init A n = (Some (), s)" "cbb_inv s" "length (chain s) = 1" "view 0 s = Some []"
      "weight s = 0" "can_resize (bufr s)" "\<not> is_child (chain s ! 0)"
    have res: "r = fst (chk (chk m (\<lambda>_. CBB_finish A 0 True True)) (\<lambda>(txt, k). succeed (the txt)) s)"
      using r s(1) by (simp add: chk_assoc)
    show ?thesis
    proof (rule write_finish_cases [OF W s(2-5,7) w])
      fix s'
      assume "chk m (\<lambda>_. CBB_finish A 0 True True) s = (None, s')"
        "\<forall>x. e = Some x \<longrightarrow> \<not> roomy A (bufr s) (length x)"
      then show ?thesis using res s(6) by (auto simp: roomy_def)
    next
      fix s' data k
      assume "chk m (\<lambda>_. CBB_finish A 0 True True) s = (Some (Some data, Some k), s')"
        "e = Some (take (unat k) data)"
      then show ?thesis using res by (auto intro!: exI [of _ "drop (unat k) data"])
    qed
  qed (use r in auto)
  then show "r = Some out \<Longrightarrow> \<exists>x tail. e = Some x \<and> out = x @ tail"
    and "\<forall>k. alloc_ok A k \<Longrightarrow> e = Some x \<Longrightarrow> r \<noteq> None" by auto
qed

lemma oid_to_text_result:
  assumes c: "cbs_rep c xs" and len: "length xs \<le> 2 ^ 50"
  shows "CBS_asn1_oid_to_text A c = Some out \<Longrightarrow> \<exists>arcs tail. p_oid xs = Some arcs \<and> out = dotted arcs @ 0 # tail"
    and "\<forall>k. alloc_ok A k \<Longrightarrow> p_oid xs = Some arcs \<Longrightarrow> CBS_asn1_oid_to_text A c \<noteq> None"
proof -
  note R = refines_parse_base128_integer
  have "(CBS_asn1_oid_to_text A c = Some out \<longrightarrow> (\<exists>arcs tail. p_oid xs = Some arcs \<and> out = dotted arcs @ 0 # tail)) \<and>
      ((\<forall>k. alloc_ok A k) \<longrightarrow> p_oid xs = Some arcs \<longrightarrow> CBS_asn1_oid_to_text A c \<noteq> None)"
  proof (cases "p_base128_from 0 xs")
    case None
    then have "fst (parse_base128_integer c) = None" by (rule refines_None [OF R c])
    with None show ?thesis
      by (auto simp: CBS_asn1_oid_to_text_def oid_text_body p_oid_def split: prod.splits option.splits)
  next
    case (Some r)
    then obtain n ys where p: "p_base128_from 0 xs = Some (n, ys)" by (cases r) auto
    obtain v c' where v: "parse_base128_integer c = (Some v, c')" "word_is v n" "cbs_rep c' ys"
      by (rule refines_SomeE [OF R c p])
    let ?e = "map_option (\<lambda>ns. dotted (first_arcs (unat v) @ ns) @ [0]) (p_many (p_base128_from 0) (length ys) ys)"
    have code: "(case CBB_init A 32 of (None, _) \<Rightarrow> None
      | (Some _, s) \<Rightarrow> fst (chk (oid_body A v c') (\<lambda>_. chk (CBB_finish A 0 True True) (\<lambda>(txt, k). succeed (the txt))) s)) =
        CBS_asn1_oid_to_text A c"
    proof -
      have "oid_text A c = chk (oid_body A v c') (\<lambda>_.
          chk (CBB_finish A 0 True True) (\<lambda>(txt, txt_len). succeed (the txt)))" by (simp add: oid_text_body v(1))
      then show ?thesis by (simp only: CBS_asn1_oid_to_text_def)
    qed
    have lim: "42 + 21 * length ys \<le> 2 ^ 62" "unat (32 :: size_t) \<le> 2 ^ 62"
      using base128.dec_shorter [OF p] len by simp_all
    note F = write_and_finish [OF writes_oid_body [OF v(3)] lim code]
    have e: "?e = map_option (\<lambda>arcs. dotted arcs @ [0]) (p_oid xs)"
      using p v(2) by (simp add: p_oid_def word_is_def option.map_comp comp_def)
    show ?thesis using F unfolding e by auto
  qed
  then show "CBS_asn1_oid_to_text A c = Some out \<Longrightarrow> \<exists>arcs tail. p_oid xs = Some arcs \<and> out = dotted arcs @ 0 # tail"
    and "\<forall>k. alloc_ok A k \<Longrightarrow> p_oid xs = Some arcs \<Longrightarrow> CBS_asn1_oid_to_text A c \<noteq> None" by auto
qed

end
