(* ===== verification/Builder.thy ===== *)
theory Builder
  imports Oid
begin

text \<open>
  Client programs of the \<open>CBB\<close> builder. A program is a list of additions, nested as the length
  prefixes and elements nest; \<open>runs\<close> performs it with the operations of \<open>cbb.c\<close>, and \<open>encs\<close> is the
  byte string it should produce. The theorems relate the two, from \<open>CBB_init\<close> to \<open>CBB_finish\<close>.
\<close>

section \<open>Programs and their encodings\<close>

datatype prefix = P8 | P16 | P24

datatype build =
    Bytes bytes
  | U8 u8 | U16 u16 | U24 u32 | U32 u32 | U64 u64
  | LE16 u16 | LE32 u32 | LE64 u64
  | Prefixed prefix "build list"
  | Element u32 "build list"
  | Asn1_uint64 u64 | Asn1_int64 "64 word" | Asn1_octet_string bytes | Asn1_bool int
  | Asn1_oid_text bytes

fun prefix_len :: "prefix \<Rightarrow> u8" where
  "prefix_len P8 = 1"
| "prefix_len P16 = 2"
| "prefix_len P24 = 3"

fun open_prefix :: "allocator \<Rightarrow> nat \<Rightarrow> prefix \<Rightarrow> (cbb, unit) op" where
  "open_prefix A d P8 = CBB_add_u8_length_prefixed A d"
| "open_prefix A d P16 = CBB_add_u16_length_prefixed A d"
| "open_prefix A d P24 = CBB_add_u24_length_prefixed A d"

fun run :: "allocator \<Rightarrow> nat \<Rightarrow> build \<Rightarrow> (cbb, unit) op"
  and runs :: "allocator \<Rightarrow> nat \<Rightarrow> build list \<Rightarrow> (cbb, unit) op" where
  "run A d (Bytes bs) = CBB_add_bytes A d bs (of_nat (length bs))"
| "run A d (U8 v) = CBB_add_u8 A d v"
| "run A d (U16 v) = CBB_add_u16 A d v"
| "run A d (U24 v) = CBB_add_u24 A d v"
| "run A d (U32 v) = CBB_add_u32 A d v"
| "run A d (U64 v) = CBB_add_u64 A d v"
| "run A d (LE16 v) = CBB_add_u16le A d v"
| "run A d (LE32 v) = CBB_add_u32le A d v"
| "run A d (LE64 v) = CBB_add_u64le A d v"
| "run A d (Prefixed k ps) = chk (open_prefix A d k) (\<lambda>_. runs A (Suc d) ps)"
| "run A d (Element tag ps) = chk (CBB_add_asn1 A d tag) (\<lambda>_. runs A (Suc d) ps)"
| "run A d (Asn1_uint64 v) = CBB_add_asn1_uint64 A d v"
| "run A d (Asn1_int64 v) = CBB_add_asn1_int64 A d v"
| "run A d (Asn1_octet_string bs) = CBB_add_asn1_octet_string A d bs (of_nat (length bs))"
| "run A d (Asn1_bool v) = CBB_add_asn1_bool A d v"
| "run A d (Asn1_oid_text txt) = CBB_add_asn1_oid_from_text A d txt (of_nat (length txt))"
| "runs A d [] = succeed ()"
| "runs A d (p # ps) = chk (run A d p) (\<lambda>_. runs A d ps)"

fun enc :: "build \<Rightarrow> bytes option" and encs :: "build list \<Rightarrow> bytes option" where
  "enc (Bytes bs) = Some bs"
| "enc (U8 v) = Some [v]"
| "enc (U16 v) = Some (be_bytes 2 (unat v))"
| "enc (U24 v) = (if unat v < 2 ^ 24 then Some (be_bytes 3 (unat v)) else None)"
| "enc (U32 v) = Some (be_bytes 4 (unat v))"
| "enc (U64 v) = Some (be_bytes 8 (unat v))"
| "enc (LE16 v) = Some (rev (be_bytes 2 (unat v)))"
| "enc (LE32 v) = Some (rev (be_bytes 4 (unat v)))"
| "enc (LE64 v) = Some (rev (be_bytes 8 (unat v)))"
| "enc (Prefixed k ps) =
     (case encs ps of None \<Rightarrow> None
      | Some x \<Rightarrow> let n = unat (prefix_len k) in if length x < 256 ^ n then Some (prefixed n x) else None)"
| "enc (Element tag ps) =
     (case encs ps of None \<Rightarrow> None
      | Some x \<Rightarrow> if length x < 2 ^ 32 - 1 then Some (der_element (tag, x)) else None)"
| "enc (Asn1_uint64 v) = Some (der_uint64 (unat v))"
| "enc (Asn1_int64 v) = Some (der_int64 (sint v))"
| "enc (Asn1_octet_string bs) =
     (if length bs < 2 ^ 32 - 1 then Some (der_element (CBS_ASN1_OCTETSTRING, bs)) else None)"
| "enc (Asn1_bool v) = Some (der_bool (v \<noteq> 0))"
| "enc (Asn1_oid_text txt) = oid_of_text txt"
| "encs [] = Some []"
| "encs (p # ps) = cat (enc p) (encs ps)"

text \<open>A bound on the bytes a program can put into the buffer, the reserved prefixes included.\<close>

fun cost :: "build \<Rightarrow> nat" and costs :: "build list \<Rightarrow> nat" where
  "cost (Bytes bs) = length bs"
| "cost (Prefixed k ps) = 7 + costs ps"
| "cost (Element tag ps) = 16 + costs ps"
| "cost (Asn1_octet_string bs) = 16 + length bs"
| "cost (Asn1_oid_text txt) = 10 + 10 * length txt"
| "cost p = 33"
| "costs [] = 0"
| "costs (p # ps) = cost p + costs ps"

lemma opens_prefix: "opens A d (open_prefix A d k) [] (prefix_len k) False 7"
proof -
  have "opens A d (cbb_add_length_prefixed A d (prefix_len k)) [] (prefix_len k) False (unat (prefix_len k) + 4)"
    by (rule opens_length_prefixed) (cases k; simp)+
  then have "opens A d (open_prefix A d k) [] (prefix_len k) False (unat (prefix_len k) + 4)"
    by (cases k) (simp_all add: CBB_add_u8_length_prefixed_def CBB_add_u16_length_prefixed_def
        CBB_add_u24_length_prefixed_def)
  moreover have "unat (prefix_len k) + 4 \<le> 7" by (cases k) simp_all
  ultimately show ?thesis unfolding opens_def
    by (fastforce split: prod.splits option.splits)
qed

lemma writes_run:
  "cost p \<le> 2 ^ 62 \<Longrightarrow> writes A d (run A d p) (enc p) (cost p)"
  "costs ps \<le> 2 ^ 62 \<Longrightarrow> writes A d (runs A d ps) (encs ps) (costs ps)"
proof (induction A d p and A d ps rule: run_runs.induct)
  case (10 A d k ps)
  have "wrapped [] (prefix_len k) False (encs ps) = enc (Prefixed k ps)"
    by (cases "encs ps") (auto simp: wrapped_def Let_def)
  moreover have "writes A (Suc d) (runs A (Suc d) ps) (encs ps) (costs ps)" using 10 by simp
  note writes_nested [OF opens_prefix this, of k]
  ultimately show ?case by (simp only: run.simps cost.simps)
next
  case (11 A d tag ps)
  have "writes A (Suc d) (runs A (Suc d) ps) (encs ps) (costs ps)" using 11 by simp
  from writes_asn1 [OF this, of tag]
  show ?case by (simp add: element_of_def)
next
  case (14 A d bs)
  then have "unat (of_nat (length bs) :: size_t) = length bs" by (intro unat_of_nat_size) simp
  with writes_asn1_octet_string [of "of_nat (length bs)" bs A d] show ?case
    by (simp add: element_of_def)
next
  case (4 A d v)
  show ?case unfolding run.simps enc.simps cost.simps by (rule writes_weaken [OF writes_add_u24]) simp
next
  case (1 A d bs)
  then have "unat (of_nat (length bs) :: size_t) = length bs" by (intro unat_of_nat_size) simp
  with writes_add_bytes [of "of_nat (length bs)" bs A d] show ?case by simp
next
  case (16 A d t)
  then have "cbs_rep (CBS_init t (of_nat (length t))) t" using cbs_rep_init [of t "[]"] by simp
  from writes_oid_from_text [OF this, of A d] show ?case by simp
next
  case (18 A d p ps)
  then have "writes A d (run A d p) (enc p) (cost p)" "writes A d (runs A d ps) (encs ps) (costs ps)" by simp_all
  from writes_chk [OF this] show ?case by simp
next
  case (17 A d)
  show ?case using writes_succeed by (simp only: runs.simps encs.simps costs.simps)
qed (auto intro: writes_weaken [OF writes_add_u8] writes_weaken [OF writes_add_u16] writes_weaken [OF writes_add_u24]
    writes_weaken [OF writes_add_u32] writes_weaken [OF writes_add_u64] writes_weaken [OF writes_add_le(1)]
    writes_weaken [OF writes_add_le(2)] writes_weaken [OF writes_add_le(3)]
    writes_weaken [OF writes_asn1_uint64] writes_weaken [OF writes_asn1_int64]
    writes_weaken [OF writes_asn1_bool])

section \<open>Whole programs\<close>

text \<open>The caller's view: initialise, add, finish, and read \<open>out_len\<close> bytes of \<open>out_data\<close>.\<close>

definition finish_bytes :: "allocator \<Rightarrow> build list \<Rightarrow> unit option \<times> cbb \<Rightarrow> bytes option" where
  "finish_bytes A ps init =
     (case init of
        (None, _) \<Rightarrow> None
      | (Some _, s) \<Rightarrow>
          (case chk (runs A 0 ps) (\<lambda>_. CBB_finish A 0 True True) s of
             (Some (Some data, Some n), _) \<Rightarrow> Some (take (unat n) data)
           | _ \<Rightarrow> None))"

definition build :: "allocator \<Rightarrow> size_t \<Rightarrow> build list \<Rightarrow> bytes option" where
  "build A initial_capacity ps = finish_bytes A ps (CBB_init A initial_capacity)"

definition build_fixed :: "allocator \<Rightarrow> bytes \<Rightarrow> build list \<Rightarrow> bytes option" where
  "build_fixed A block ps = finish_bytes A ps (CBB_init_fixed A block (of_nat (length block)))"

lemma finish_bytes_writes:
  assumes s: "cbb_inv s" "length (chain s) = 1" "view 0 s = Some []" "weight s = 0" "\<not> is_child (chain s ! 0)"
    and c: "costs ps \<le> 2 ^ 62"
  shows "finish_bytes A ps (Some (), s) = Some out \<Longrightarrow> encs ps = Some out"
    and "encs ps = Some out \<Longrightarrow> roomy A (bufr s) (length out) \<Longrightarrow> finish_bytes A ps (Some (), s) = Some out"
    and "finish_bytes A ps (Some (), s) = Some out \<Longrightarrow> can_resize (bufr s) \<or> length out \<le> unat (cap (bufr s))"
proof -
  have "(finish_bytes A ps (Some (), s) = Some out \<longrightarrow>
        encs ps = Some out \<and> (can_resize (bufr s) \<or> length out \<le> unat (cap (bufr s)))) \<and>
      (encs ps = Some out \<longrightarrow> roomy A (bufr s) (length out) \<longrightarrow> finish_bytes A ps (Some (), s) = Some out)"
    by (rule write_finish_cases [OF writes_run(2) [OF c] s c, of A]) (auto simp: finish_bytes_def)
  then show "finish_bytes A ps (Some (), s) = Some out \<Longrightarrow> encs ps = Some out"
    and "encs ps = Some out \<Longrightarrow> roomy A (bufr s) (length out) \<Longrightarrow> finish_bytes A ps (Some (), s) = Some out"
    and "finish_bytes A ps (Some (), s) = Some out \<Longrightarrow> can_resize (bufr s) \<or> length out \<le> unat (cap (bufr s))"
    by auto
qed

lemma build_returns:
  assumes "unat n \<le> 2 ^ 62" and "costs ps \<le> 2 ^ 62" and "build A n ps = Some out"
  shows "encs ps = Some out"
proof (rule CBB_init_cases [OF assms(1), of A])
  fix s
  assume "CBB_init A n = (None, s)"
  then show ?thesis using assms(3) by (simp add: build_def finish_bytes_def)
next
  fix s
  assume s: "CBB_init A n = (Some (), s)" "cbb_inv s" "length (chain s) = 1" "view 0 s = Some []"
    "weight s = 0" "can_resize (bufr s)" "\<not> is_child (chain s ! 0)"
  with assms(3) show ?thesis
    by (intro finish_bytes_writes(1) [OF s(2-5,7) assms(2)]) (simp add: build_def)
qed

text \<open>
  C1: A program of \<open>CBB\<close> additions run between \<open>CBB_init\<close> and \<open>CBB_finish\<close> returns the encoding of
  the program and nothing else: whatever the allocator does and however the buffer is grown,
  whenever the whole run succeeds its output is the concatenation of the encoded additions, with
  every length prefix and every DER length (moved contents included) correct.
\<close>

theorem build_sound:
  assumes "unat n \<le> 2 ^ 62" and "costs ps \<le> 2 ^ 62" and "build A n ps = Some out"
  shows "encs ps = Some out"
  using assms by (rule build_returns)

text \<open>
  C2: With memory available a program of additions succeeds exactly when it has an encoding, that
  is when every value fits its integer width and every contents fits its length prefix; then the
  result is that encoding.
\<close>

theorem build_complete:
  assumes "unat n \<le> 2 ^ 62" and "costs ps \<le> 2 ^ 62" and "\<forall>m. alloc_ok A m"
  shows "build A n ps = encs ps"
proof (rule CBB_init_cases [OF assms(1), of A])
  fix s
  assume "\<not> (\<forall>m. alloc_ok A m)"
  then show ?thesis using assms(3) by blast
next
  fix s
  assume s: "CBB_init A n = (Some (), s)" "cbb_inv s" "length (chain s) = 1" "view 0 s = Some []"
    "weight s = 0" "can_resize (bufr s)" "\<not> is_child (chain s ! 0)"
  then have r: "roomy A (bufr s) k" for k using assms(3) by (simp add: roomy_def)
  have b: "build A n ps = finish_bytes A ps (Some (), s)" using s(1) by (simp add: build_def)
  show ?thesis
  proof (cases "encs ps")
    case None
    then show ?thesis
      unfolding b using finish_bytes_writes(1) [OF s(2-5,7) assms(2)] by (metis option.distinct(1) option.exhaust)
  next
    case (Some out)
    then show ?thesis unfolding b using finish_bytes_writes(2) [OF s(2-5,7) assms(2) Some r] by simp
  qed
qed

text \<open>
  C12: A fixed-size \<open>CBB\<close> never writes past its block: a program succeeds exactly when it has an
  encoding that fits the block.
\<close>

theorem build_fixed_eq:
  assumes "length block \<le> 2 ^ 62" and "costs ps \<le> 2 ^ 62" and "\<forall>m. alloc_ok A m"
  shows "build_fixed A block ps =
    (case encs ps of None \<Rightarrow> None | Some out \<Rightarrow> if length out \<le> length block then Some out else None)"
proof -
  have n: "length block = unat (of_nat (length block) :: size_t)"
    using assms(1) by (subst unat_of_nat_size) auto
  have "unat (of_nat (length block) :: size_t) \<le> 2 ^ 63" 
    using assms(1) unfolding n [symmetric] by simp
  then show ?thesis
  proof (rule CBB_init_fixed_cases [OF n, of A])
    fix s
    assume "\<not> (\<forall>m. alloc_ok A m)"
    then show ?thesis using assms(3) by blast
  next
    fix s
    assume s: "CBB_init_fixed A block (of_nat (length block)) = (Some (), s)" "cbb_inv s" "length (chain s) = 1"
      "view 0 s = Some []" "weight s = 0" "\<not> can_resize (bufr s)" "cap (bufr s) = of_nat (length block)"
      "\<not> is_child (chain s ! 0)"
    have r: "roomy A (bufr s) k \<longleftrightarrow> k \<le> length block" for k
      using s(6,7) n by (simp add: roomy_def)
    have b: "build_fixed A block ps = finish_bytes A ps (Some (), s)" using s(1) by (simp add: build_fixed_def)
    note fw = finish_bytes_writes [OF s(2-5,8) assms(2), where A = A]
    show ?thesis
    proof (cases "finish_bytes A ps (Some (), s)")
      case None
      then show ?thesis unfolding b using fw(2) r by (auto split: option.splits)
    next
      case (Some out)
      then show ?thesis unfolding b using fw(1,3) [OF Some] s(6,7) n by simp
    qed
  qed
qed

theorem build_sound_witness:
  "encs [Element 0x30 [U8 1, Bytes [2, 3]], Prefixed P16 [U16 7]] = Some [31, 48, 3, 1, 2, 3, 0, 2, 0, 7]"
proof (rule build_sound [of 4 _ malloc_total])
  show "build malloc_total 4 [Element 0x30 [U8 1, Bytes [2, 3]], Prefixed P16 [U16 7]] =
      Some [31, 48, 3, 1, 2, 3, 0, 2, 0, 7]" by code_simp
qed simp_all

theorem build_complete_witness:
  "build malloc_total 0 [Prefixed P8 [Prefixed P8 [U8 7], U16 8], U8 9] =
    Some [4, 1, 7, 0, 8, 9]"
proof -
  have "build malloc_total 0 [Prefixed P8 [Prefixed P8 [U8 7], U16 8], U8 9] =
      encs [Prefixed P8 [Prefixed P8 [U8 7], U16 8], U8 9]"
    by (rule build_complete) simp_all
  also have "\<dots> = Some [4, 1, 7, 0, 8, 9]" by code_simp
  finally show ?thesis .
qed

theorem build_fixed_eq_witness:
  "build_fixed malloc_total [0, 0, 0] [Prefixed P8 [U16 513]] = Some [2, 2, 1] \<and>
   build_fixed malloc_total [0, 0] [Prefixed P8 [U16 513]] = None"
proof -
  have e: "encs [Prefixed P8 [U16 513]] = Some [2, 2, 1]" by code_simp
  have "build_fixed malloc_total block [Prefixed P8 [U16 513]] =
      (if length [2, 2, 1 :: u8] \<le> length block then Some [2, 2, 1] else None)"
    if "length block \<le> 2 ^ 62" for block
    using build_fixed_eq [of block "[Prefixed P8 [U16 513]]" malloc_total, OF that] unfolding e by simp
  then show ?thesis by simp
qed

section \<open>Discarding a child\<close>

text \<open>The two ways a \<open>CBB\<close> gets a child, and what each writes before the child's own offset.\<close>

datatype child_kind = Length_prefixed prefix | Asn1_element u32

fun open_child :: "allocator \<Rightarrow> nat \<Rightarrow> child_kind \<Rightarrow> (cbb, unit) op" where
  "open_child A d (Length_prefixed k) = open_prefix A d k"
| "open_child A d (Asn1_element tag) = CBB_add_asn1 A d tag"

fun identifier_octets :: "child_kind \<Rightarrow> bytes" where
  "identifier_octets (Length_prefixed k) = []"
| "identifier_octets (Asn1_element tag) = der_tag tag"

lemma opens_child_kind:
  "\<exists>n asn1. opens A d (open_child A d c) (identifier_octets c) n asn1 16"
proof (cases c)
  case (Length_prefixed k)
  then show ?thesis using opens_prefix [of A d k] unfolding opens_def
    by (fastforce split: prod.splits option.splits)
next
  case (Asn1_element tag)
  then show ?thesis using opens_asn1 [of A d tag] by auto
qed

lemma fixup_append: "fixup (cs @ ds) xs = (case fixup ds xs of None \<Rightarrow> None | Some ys \<Rightarrow> fixup cs ys)"
  by (induction cs) (auto split: option.splits)

lemma view_of_parent:
  assumes "j \<le> d" and "d < length (chain s)" and "base s = Some b" and "view d s = Some V"
  shows "view j s = fixup (drop (Suc j) (take (Suc d) (chain s))) V"
proof -
  have "drop (Suc j) (chain s) = drop (Suc j) (take (Suc d) (chain s)) @ drop (Suc d) (chain s)"
    using assms(1,2) by (metis append_take_drop_id drop_append drop_drop drop_take diff_is_0_eq'
        length_take min.absorb2 Suc_leI Suc_le_mono drop0)
  then show ?thesis using assms(3,4) by (simp add: view_def fixup_append)
qed

lemma chain_ok_shrunk: "chain_ok n cs \<Longrightarrow> (\<forall>c \<in> set cs. body_start c \<le> m) \<Longrightarrow> chain_ok m cs"
  by (induction cs) auto

lemma discard_opened:
  assumes m: "opens A d m pre n asn1 w" and s: "cbb_inv s" "d < length (chain s)" "weight s + (w + v) \<le> 2 ^ 62"
    and f: "\<And>a. writes A (Suc d) (f a) (Some x) v" and ok: "chk m f s = (Some u, s')"
    and t: "t = CBB_discard_child d s'"
  shows "\<exists>V. view d s = Some V \<and> cbb_inv t \<and> chain t = take (Suc d) (chain s) \<and>
     content (bufr t) = V @ pre \<and> same_kind (bufr s) (bufr t)"
proof -
  from ok obtain a s1 where s1: "m s = (Some a, s1)" "f a s1 = (Some u, s')" by (rule chk_SomeE)
  let ?c = "\<lambda>off. \<lparr>offset = off, pending_len_len = n, pending_is_asn1 = asn1, is_child = True\<rparr>"
  have "weight s + w \<le> 2 ^ 62" using s(3) by simp
  with m s(1,2) s1(1) obtain V off where o: "view d s = Some V" "cbb_inv s1"
      "unat off = length V + length pre" "chain s1 = take (Suc d) (chain s) @ [?c off]"
      "content (bufr s1) = V @ pre @ replicate (unat n) 0" "weight s1 \<le> weight s + w"
      "same_kind (bufr s) (bufr s1)"
    unfolding opens_def by fastforce
  let ?W = "V @ pre @ replicate (unat n) 0"
  have d1: "Suc d < length (chain s1)" using o(4) s(2) by simp
  have w1: "weight s1 + v \<le> 2 ^ 62" using o(6) s(3) by simp
  note w = writesE [OF f o(2) d1 w1 s1(2)]
  obtain b1 where b1: "base s1 = Some b1" using o(2) by (auto simp: cbb_inv_def)
  obtain b where b: "base s' = Some b" "buffer_ok b" "\<not> error b" "chain_ok (unat (blen b)) (tl (chain s'))"
    using w(1) by (auto simp: cbb_inv_def)
  have "view (Suc d) s1 = Some ?W"
    using b1 o(4,5) s(2) by (simp add: view_def)
  then have v': "fixup (drop (Suc (Suc d)) (chain s')) (content b) = Some (?W @ x)"
    using w(3) b(1) by (simp add: view_def)
  have len: "Suc d < length (chain s')" using w(2) d1 by (rule chain_length_kept)
  have tk: "take (Suc (Suc d)) (chain s') = take (Suc d) (chain s) @ [?c off]" using w(2) o(4) s(2) by simp
  have nth: "chain s' ! Suc d = ?c off"
  proof -
    have "take (Suc (Suc d)) (chain s') ! Suc d = ?c off" unfolding tk using s(2) by (simp add: nth_append)
    then show ?thesis by simp
  qed
  have keep: "take (Suc d) (chain s') = take (Suc d) (chain s)"
  proof -
    have "take (Suc d) (take (Suc (Suc d)) (chain s')) = take (Suc d) (chain s)"
      unfolding tk using s(2) by simp
    then show ?thesis by simp
  qed
  have tl': "tl (chain s') = tl (take (Suc d) (chain s')) @ ?c off # drop (Suc (Suc d)) (chain s')"
  proof -
    obtain c0 cs where cs: "chain s' = c0 # cs" using len by (cases "chain s'") auto
    then have "cs = take d cs @ cs ! d # drop (Suc d) cs" using len by (intro id_take_nth_drop) simp
    then show ?thesis using cs nth by simp
  qed
  have c: "chain_ok (unat (blen b)) (tl (take (Suc d) (chain s')))"
    "chain_ok (unat (blen b)) (?c off # drop (Suc (Suc d)) (chain s'))"
    "\<forall>c \<in> set (tl (take (Suc d) (chain s'))). body_start c \<le> unat off"
    using b(4) unfolding tl' chain_ok_append by auto
  have off: "unat off \<le> unat (blen b)" using c(2) by simp
  have "take (unat off) (?W @ x) = take (unat off) (content b)"
  proof -
    have "\<forall>c \<in> set (drop (Suc (Suc d)) (chain s')). unat off \<le> unat (offset c)"
      using c(2) by fastforce
    moreover have "chain_ok (length (content b)) (drop (Suc (Suc d)) (chain s'))" using c(2) b(2) by simp
    ultimately show ?thesis using fixup_props [OF v', of "unat off"] by blast
  qed
  then have V: "take (unat off) (buf b) = V @ pre"
    using o(3) off b(2) by (simp add: content_def min_absorb1)
  have disc: "t = s'\<lparr>base := Some (b\<lparr>blen := off\<rparr>), chain := take (Suc d) (chain s')\<rparr>"
    unfolding t using len nth b(1) by (simp add: CBB_discard_child_def)
  have kind: "same_kind (bufr s) (b\<lparr>blen := off\<rparr>)"
    using same_kind_trans [OF o(7) w(5)] b(1) by (simp add: same_kind_def)
  have "chain_ok (unat off) (tl (take (Suc d) (chain s')))" using chain_ok_shrunk c(1,3) .
  then show ?thesis
    unfolding disc using b(2,3) off V o(1) keep kind by (simp add: cbb_inv_def buffer_ok_def content_def)
qed

text \<open>
  C13: \<open>CBB_discard_child\<close> takes away a child, of either kind, and everything written into it, nested children
  included: what is left is the buffer the parent would flush to before the child was added, with the
  child's identifier octets behind it, and no child below the parent. For a length-prefixed child
  these are none, and so every enclosing \<open>CBB\<close> would flush to what it would have flushed to before; those
  of a child of \<open>CBB_add_asn1\<close> stay in the output.
\<close>

theorem discard_child_restores:
  assumes s: "cbb_inv s" "d < length (chain s)" "weight s + (16 + costs ps) \<le> 2 ^ 62"
    and x: "encs ps = Some x"
    and ok: "chk (open_child A d c) (\<lambda>_. runs A (Suc d) ps) s = (Some u, s')"
    and t: "t = CBB_discard_child d s'"
  shows "cbb_inv t \<and> chain t = take (Suc d) (chain s) \<and> same_kind (bufr s) (bufr t) \<and>
     view d t = cat (view d s) (Some (identifier_octets c)) \<and>
     (identifier_octets c = [] \<longrightarrow> (\<forall>j \<le> d. view j t = view j s))"
proof -
  have "costs ps \<le> 2 ^ 62" using s(3) by simp
  then have w: "writes A (Suc d) (runs A (Suc d) ps) (Some x) (costs ps)" using writes_run(2) x by metis
  from opens_child_kind obtain n asn1
    where "opens A d (open_child A d c) (identifier_octets c) n asn1 16" by blast
  from discard_opened [OF this s w ok t] obtain V
    where V: "view d s = Some V" "cbb_inv t" "chain t = take (Suc d) (chain s)"
      "content (bufr t) = V @ identifier_octets c" "same_kind (bufr s) (bufr t)" by blast
  from V(2) obtain b where b: "base t = Some b" by (auto simp: cbb_inv_def)
  from s(1) obtain b0 where b0: "base s = Some b0" by (auto simp: cbb_inv_def)
  have dt: "view d t = Some (V @ identifier_octets c)" using V(3,4) b s(2) by (simp add: view_def)
  moreover have "view j t = view j s" if "identifier_octets c = []" "j \<le> d" for j
    using view_of_parent [OF that(2) s(2) b0 V(1)] view_of_parent [OF that(2) _ b dt] that(1) V(3) s(2) by simp
  ultimately show ?thesis using V by simp
qed

lemma child_opens_total:
  assumes "cbb_inv s" and "d < length (chain s)" and "weight s + (16 + costs ps) \<le> 2 ^ 62"
    and "view d s = Some V" and "encs ps = Some x" and "length x < 256" and "\<And>n. roomy A (bufr s) n"
  shows "\<exists>u s'. chk (open_child A d c) (\<lambda>_. runs A (Suc d) ps) s = (Some u, s')"
proof (cases "chk (open_child A d c) (\<lambda>_. runs A (Suc d) ps) s")
  case (Pair r s')
  define p where "p = (case c of Length_prefixed k \<Rightarrow> Prefixed k ps | Asn1_element tag \<Rightarrow> Element tag ps)"
  have p: "run A d p s = (r, s')" "cost p \<le> 16 + costs ps"
    using Pair by (cases c; simp add: p_def)+
  have "\<exists>y. enc p = Some y"
  proof (cases c)
    case (Length_prefixed k)
    then show ?thesis using assms(5,6) by (cases k) (auto simp: p_def Let_def)
  qed (use assms(5,6) in \<open>simp add: p_def\<close>)
  then obtain y where y: "enc p = Some y" ..
  have w: "weight s + cost p \<le> 2 ^ 62" "cost p \<le> 2 ^ 62" using p(2) assms(3) by simp_all
  have "r \<noteq> None"
  proof
    assume "r = None"
    then have "run A d p s = (None, s')" using p(1) by simp
    from writesD_fail [OF writes_run(1) [OF w(2)] assms(1,2) w(1) this assms(4) y] assms(7) show False by blast
  qed
  then show ?thesis using Pair by auto
qed

theorem discard_child_restores_witness:
  "\<exists>s s1 s2. CBB_init malloc_total 4 = (Some (), s) \<and>
     chk (open_child malloc_total 0 (Length_prefixed P8)) (\<lambda>_. runs malloc_total 1 [U8 7]) s = (Some (), s1) \<and>
     view 0 (CBB_discard_child 0 s1) = Some [] \<and>
     chk (open_child malloc_total 0 (Asn1_element 0x20000010)) (\<lambda>_. runs malloc_total 1 [U8 7]) s =
       (Some (), s2) \<and>
     view 0 (CBB_discard_child 0 s2) = Some [0x30]"
proof (rule CBB_init_cases [of 4 malloc_total])
  fix s
  assume s: "CBB_init malloc_total 4 = (Some (), s)" "cbb_inv s" "length (chain s) = 1" "view 0 s = Some []"
    "weight s = 0" "can_resize (bufr s)"
  have h: "0 < length (chain s)" "weight s + (16 + costs [U8 7]) \<le> 2 ^ 62" "encs [U8 7] = Some [7]"
    using s by simp_all
  have "alloc_ok malloc_total m" for m by simp
  then have r: "roomy malloc_total (bufr s) n" for n using s(6) unfolding roomy_def by metis
  have open_it: "\<exists>s'. chk (open_child malloc_total 0 c) (\<lambda>_. runs malloc_total (Suc 0) [U8 7]) s = (Some (), s')" for c
    using child_opens_total [OF s(2) h(1,2) s(4) h(3) _ r, of c] by simp
  obtain s1 where s1: "chk (open_child malloc_total 0 (Length_prefixed P8)) (\<lambda>_. runs malloc_total (Suc 0) [U8 7]) s
      = (Some (), s1)" using open_it by blast
  obtain s2 where s2: "chk (open_child malloc_total 0 (Asn1_element 0x20000010))
      (\<lambda>_. runs malloc_total (Suc 0) [U8 7]) s = (Some (), s2)" using open_it by blast
  have tag: "identifier_octets (Asn1_element 0x20000010) = [0x30]" by (simp add: der_tag_def tag_number_def tag_top_def)
  have "view 0 (CBB_discard_child 0 s1) = Some []"
    using discard_child_restores [OF s(2) h s1 refl] by (simp only: s(4) identifier_octets.simps cat_simps append_Nil)
  moreover have "view 0 (CBB_discard_child 0 s2) = Some [0x30]"
    using discard_child_restores [OF s(2) h s2 refl] by (simp only: s(4) tag cat_simps append_Nil)
  ultimately show ?thesis unfolding One_nat_def using s(1) s1 s2 by blast
qed simp_all

end
