(* ===== verification/Exchange.thy ===== *)
theory Exchange
  imports Builder
begin

text \<open>
  The writer and the reader together: what a \<open>CBB\<close> program writes, the \<open>CBS\<close> readers accept and take
  apart again, and what the DER readers accept is only what the writers write.
\<close>

section \<open>The readers accept the encodings and nothing else\<close>

text \<open>A reader that refines the parser of an encoding, at one input.\<close>

lemma reader_exact:
  assumes m: "refines cbs_rep R m p" and c: "cbs_rep c xs"
    and p: "\<And>b ys. p xs = Some (b, ys) \<longleftrightarrow> ok b \<and> xs = code b @ ys"
  shows "m c = (Some a, c') \<Longrightarrow> \<exists>b ys. R a b \<and> ok b \<and> xs = code b @ ys \<and> cbs_rep c' ys"
    and "ok b \<Longrightarrow> xs = code b @ ys \<Longrightarrow> \<exists>a c'. m c = (Some a, c') \<and> R a b \<and> cbs_rep c' ys"
proof -
  assume "m c = (Some a, c')"
  then obtain b ys where "p xs = Some (b, ys)" "R a b" "cbs_rep c' ys"
    using m c by (blast elim: refines_result)
  then show "\<exists>b ys. R a b \<and> ok b \<and> xs = code b @ ys \<and> cbs_rep c' ys" using p by auto
next
  assume "ok b" "xs = code b @ ys"
  then have "p xs = Some (b, ys)" using p by simp
  then show "\<exists>a c'. m c = (Some a, c') \<and> R a b \<and> cbs_rep c' ys" using refines_SomeE [OF m c] by metis
qed

text \<open>
  C9: \<open>CBS_get_any_asn1\<close> is a DER parser: it accepts exactly the inputs that begin with the DER encoding
  of an element of less than 4 GiB, and returns its tag and contents and what follows it. So
  non-minimal tags, non-minimal lengths, indefinite lengths and truncated elements are refused.
\<close>

theorem get_any_asn1_exact:
  assumes "cbs_rep c xs"
  shows "(\<exists>out c'. CBS_get_any_asn1 c = (Some (out, tag), c') \<and> cbs_rep out body \<and> cbs_rep c' rest) \<longleftrightarrow>
    length body < 2 ^ 32 \<and> xs = der_element (tag, body) @ rest"
proof
  assume "\<exists>out c'. CBS_get_any_asn1 c = (Some (out, tag), c') \<and> cbs_rep out body \<and> cbs_rep c' rest"
  then obtain out c' where m: "CBS_get_any_asn1 c = (Some (out, tag), c')" "cbs_rep out body" "cbs_rep c' rest"
    by blast
  obtain b ys where b: "tagged (out, tag) b" "case b of (t, body) \<Rightarrow> length body < 2 ^ 32"
    "xs = der_element b @ ys" "cbs_rep c' ys"
    using reader_exact(1) [OF refines_CBS_get_any_asn1 assms der_element.dec_iff m(1)] by blast
  then have "b = (tag, body)" using cbs_rep_unique [OF m(2)] by (cases b) (simp add: tagged_def)
  with b cbs_rep_unique [OF m(3)] show "length body < 2 ^ 32 \<and> xs = der_element (tag, body) @ rest" by auto
next
  assume "length body < 2 ^ 32 \<and> xs = der_element (tag, body) @ rest"
  then obtain a c' where "CBS_get_any_asn1 c = (Some a, c')" "tagged a (tag, body)" "cbs_rep c' rest"
    using reader_exact(2) [OF refines_CBS_get_any_asn1 assms der_element.dec_iff, of "(tag, body)" rest] by auto
  then show "\<exists>out c'. CBS_get_any_asn1 c = (Some (out, tag), c') \<and> cbs_rep out body \<and> cbs_rep c' rest"
    by (cases a) (auto simp: tagged_def)
qed

lemmas der_simps = der_element_def der_header_def der_tag_def tag_number_def tag_top_def der_length_def

theorem get_any_asn1_exact_witness:
  "\<exists>out c'. CBS_get_any_asn1 (CBS_init [0x30, 1, 5, 9] 4) = (Some (out, 0x20000010), c') \<and>
     cbs_rep out [5] \<and> cbs_rep c' [9]"
proof (rule get_any_asn1_exact [THEN iffD2])
  show "cbs_rep (CBS_init [0x30, 1, 5, 9] 4) [0x30, 1, 5, 9]" by (simp add: cbs_rep_def CBS_init_def)
  show "length [5 :: u8] < 2 ^ 32 \<and> [0x30, 1, 5, 9] = der_element (0x20000010, [5]) @ [9]"
    by (simp add: der_simps)
qed

text \<open>
  C10: An INTEGER has one encoding for the reader: whatever \<open>CBS_get_asn1_int64\<close> accepts as \<open>v\<close> is the
  minimal two's complement encoding of \<open>v\<close>, and it accepts that encoding of every 64-bit \<open>v\<close>.
\<close>

theorem asn1_int64_canonical:
  assumes "cbs_rep c xs"
  shows "(\<exists>c'. CBS_get_asn1_int64 c = (Some v, c') \<and> cbs_rep c' rest) \<longleftrightarrow> xs = der_int64 (sint v) @ rest"
proof
  assume "\<exists>c'. CBS_get_asn1_int64 c = (Some v, c') \<and> cbs_rep c' rest"
  then obtain c' where m: "CBS_get_asn1_int64 c = (Some v, c')" "cbs_rep c' rest" by blast
  with reader_exact(1) [OF refines_CBS_get_asn1_int64 assms der_int64.dec_iff m(1)] show "xs = der_int64 (sint v) @ rest"
    using cbs_rep_unique by blast
next
  assume "xs = der_int64 (sint v) @ rest"
  moreover have "- (2 ^ 63) \<le> sint v \<and> sint v < 2 ^ 63"
    using sint_ge [of v] sint_less [of v] by simp
  ultimately obtain a c' where "CBS_get_asn1_int64 c = (Some a, c')" "sint a = sint v" "cbs_rep c' rest"
    using reader_exact(2) [OF refines_CBS_get_asn1_int64 assms der_int64.dec_iff, of "sint v" rest] by blast
  then show "\<exists>c'. CBS_get_asn1_int64 c = (Some v, c') \<and> cbs_rep c' rest" by (auto simp: signed_word_eqI)
qed

theorem asn1_int64_canonical_witness:
  "\<exists>c'. CBS_get_asn1_int64 (CBS_init [2, 1, 0xfe, 7] 4) = (Some (- 2), c') \<and> cbs_rep c' [7]"
proof -
  have "cbs_rep (CBS_init [2, 1, 0xfe, 7] 4) [2, 1, 0xfe, 7]" by (simp add: cbs_rep_def CBS_init_def)
  moreover have "octets 2 = 1" by (subst octets.simps) simp
  then have "[2, 1, 0xfe, 7] = der_int64 (sint (- 2 :: 64 word)) @ [7]"
    by (simp add: der_int64_def der_int_def der_simps CBS_ASN1_INTEGER_def)
  ultimately show ?thesis by (rule asn1_int64_canonical [THEN iffD2])
qed

section \<open>Round trips\<close>

lemma get_asn1_of_element:
  assumes "cbs_rep c (der_element (tag, body) @ rest)" and "length body < 2 ^ 32"
  obtains child c' where "CBS_get_asn1 tag c = (Some child, c')" "cbs_rep child body" "cbs_rep c' rest"
  using reader_exact(2) [OF refines_CBS_get_asn1 assms(1) asn1.dec_iff assms(2) refl] that by blast

fun get_prefixed :: "prefix \<Rightarrow> (cbs, cbs) op" where
  "get_prefixed P8 = CBS_get_u8_length_prefixed"
| "get_prefixed P16 = CBS_get_u16_length_prefixed"
| "get_prefixed P24 = CBS_get_u24_length_prefixed"

lemma refines_get_prefixed: "refines cbs_rep cbs_rep (get_prefixed k) (p_prefixed (unat (prefix_len k)))"
  using refines_length_prefixed_readers by (cases k) simp_all

text \<open>
  What a \<open>CBB\<close> length prefix wraps, the \<open>CBS\<close> reader of the same width unwraps: it returns a \<open>CBS\<close>
  of exactly the bytes written into the child and leaves what follows.
\<close>

theorem prefixed_roundtrip:
  assumes "unat n \<le> 2 ^ 62" and "7 + costs ps \<le> 2 ^ 62" and "build A n [Prefixed k ps] = Some out"
    and "cbs_rep c (out @ rest)"
  shows "\<exists>child c' x. get_prefixed k c = (Some child, c') \<and> encs ps = Some x \<and> cbs_rep child x \<and> cbs_rep c' rest"
proof -
  have "encs [Prefixed k ps] = Some out" using assms by (intro build_returns) simp_all
  then obtain x where x: "encs ps = Some x" "length x < 256 ^ unat (prefix_len k)"
    "out = prefixed (unat (prefix_len k)) x"
    by (auto simp: Let_def split: option.splits if_splits)
  from reader_exact(2) [OF refines_get_prefixed assms(4) prefixed.dec_iff x(2)] x show ?thesis by blast
qed

theorem prefixed_roundtrip_witness:
  "\<exists>child c' x. get_prefixed P8 (CBS_init [3, 7, 1, 2, 9] 5) = (Some child, c') \<and>
     encs [U8 7, U16 258] = Some x \<and> cbs_rep child x \<and> cbs_rep c' [9]"
proof (rule prefixed_roundtrip [of 0 _ malloc_total])
  show "build malloc_total 0 [Prefixed P8 [U8 7, U16 258]] = Some [3, 7, 1, 2]" by code_simp
  show "cbs_rep (CBS_init [3, 7, 1, 2, 9] 5) ([3, 7, 1, 2] @ [9])" by (simp add: cbs_rep_def CBS_init_def)
qed simp_all

text \<open>
  C8: An ASN.1 element written with \<open>CBB_add_asn1\<close>, whatever its tag and however long its contents,
  is read back by \<open>CBS_get_asn1\<close> with that tag, as a \<open>CBS\<close> of exactly the contents.
\<close>

theorem element_roundtrip:
  assumes "unat n \<le> 2 ^ 62" and "16 + costs ps \<le> 2 ^ 62" and "build A n [Element tag ps] = Some out"
    and "cbs_rep c (out @ rest)"
  shows "\<exists>child c' x. CBS_get_asn1 tag c = (Some child, c') \<and> encs ps = Some x \<and> cbs_rep child x \<and> cbs_rep c' rest"
proof -
  have "encs [Element tag ps] = Some out" using assms by (intro build_returns) simp_all
  then obtain x where x: "encs ps = Some x" "length x < 2 ^ 32" "out = der_element (tag, x)"
    by (auto split: option.splits if_splits)
  from get_asn1_of_element [OF assms(4) [unfolded x(3)] x(2)] x(1) show ?thesis by metis
qed

theorem element_roundtrip_witness:
  "\<exists>child c' x. CBS_get_asn1 0x30 (CBS_init [31, 48, 3, 1, 2, 3, 9] 7) = (Some child, c') \<and>
     encs [U8 1, Bytes [2, 3]] = Some x \<and> cbs_rep child x \<and> cbs_rep c' [9]"
proof (rule element_roundtrip [of 4 _ malloc_total])
  show "build malloc_total 4 [Element 0x30 [U8 1, Bytes [2, 3]]] = Some [31, 48, 3, 1, 2, 3]" by code_simp
  show "cbs_rep (CBS_init [31, 48, 3, 1, 2, 3, 9] 7) ([31, 48, 3, 1, 2, 3] @ [9])"
    by (simp add: cbs_rep_def CBS_init_def)
qed simp_all

text \<open>
  \<open>CBB_add_asn1_int64\<close> followed by \<open>CBS_get_asn1_int64\<close> is the identity on all 64-bit integers.
\<close>

theorem asn1_int64_roundtrip:
  assumes "unat n \<le> 2 ^ 62" and "build A n [Asn1_int64 v] = Some out" and "cbs_rep c (out @ rest)"
  shows "\<exists>c'. CBS_get_asn1_int64 c = (Some v, c') \<and> cbs_rep c' rest"
proof -
  have "encs [Asn1_int64 v] = Some out" using assms by (intro build_returns) simp_all
  then have "out = der_int64 (sint v)" by simp
  moreover have "- (2 ^ 63) \<le> sint v \<and> sint v < 2 ^ 63"
    using sint_ge [of v] sint_less [of v] by simp
  ultimately obtain a c' where "CBS_get_asn1_int64 c = (Some a, c')" "sint a = sint v" "cbs_rep c' rest"
    using reader_exact(2) [OF refines_CBS_get_asn1_int64 assms(3) der_int64.dec_iff, of "sint v" rest] by blast
  then show ?thesis by (auto simp: signed_word_eqI)
qed

theorem asn1_int64_roundtrip_witness:
  "\<exists>c'. CBS_get_asn1_int64 (CBS_init [2, 2, 0xff, 0x7f] 4) = (Some (- 129), c') \<and> cbs_rep c' []"
proof (rule asn1_int64_roundtrip [of 16 malloc_total])
  show "build malloc_total 16 [Asn1_int64 (- 129)] = Some [2, 2, 0xff, 0x7f]" by code_simp
  show "cbs_rep (CBS_init [2, 2, 0xff, 0x7f] 4) ([2, 2, 0xff, 0x7f] @ [])" by (simp add: cbs_rep_def CBS_init_def)
qed simp

text \<open>
  C11: Object identifiers survive the trip from text to DER and back: when
  \<open>CBB_add_asn1_oid_from_text\<close> accepts a text, \<open>CBS_asn1_oid_to_text\<close> prints the element's contents as
  the same text.
\<close>

theorem oid_text_roundtrip:
  assumes "unat n \<le> 2 ^ 62" and "length oid \<le> 2 ^ 40"
    and "build A n [Element 6 [Asn1_oid_text oid]] = Some out" and "cbs_rep c (out @ rest)"
    and "\<forall>k. alloc_ok B k"
  shows "\<exists>child c' tail. CBS_get_asn1 6 c = (Some child, c') \<and>
    CBS_asn1_oid_to_text B child = Some (oid @ 0 # tail)"
proof -
  have "encs [Element 6 [Asn1_oid_text oid]] = Some out" using assms(1-3) by (intro build_returns) simp_all
  then obtain der where der: "oid_of_text oid = Some der" "length der < 2 ^ 32" "out = der_element (6, der)"
    by (auto split: option.splits if_splits)
  from der(1) obtain arcs where arcs: "oid_ok arcs" "oid = dotted arcs" "der = oid_bytes arcs"
    by (auto simp: oid_of_text_iff)
  then have p: "p_oid der = Some arcs" by (simp add: p_oid_iff)
  obtain child c' where child: "CBS_get_asn1 6 c = (Some child, c')" "cbs_rep child der"
    using get_asn1_of_element [OF assms(4) [unfolded der(3)] der(2)] by metis
  have len: "length der \<le> 2 ^ 50" using der(2) by simp
  from oid_to_text_result(2) [OF child(2) len assms(5) p] obtain str where
    str: "CBS_asn1_oid_to_text B child = Some str" by blast
  from oid_to_text_result(1) [OF child(2) len str] p arcs(2) str child(1) show ?thesis by auto
qed

theorem oid_text_roundtrip_witness:
  "\<exists>child c' tail. CBS_get_asn1 6 (CBS_init [6, 3, 42, 3, 4] 5) = (Some child, c') \<and>
     CBS_asn1_oid_to_text malloc_total child = Some ([49, 46, 50, 46, 51, 46, 52] @ 0 # tail)"
proof (rule oid_text_roundtrip [of 16 _ malloc_total])
  show "build malloc_total 16 [Element 6 [Asn1_oid_text [49, 46, 50, 46, 51, 46, 52]]] = Some [6, 3, 42, 3, 4]"
    by code_simp
  show "cbs_rep (CBS_init [6, 3, 42, 3, 4] 5) ([6, 3, 42, 3, 4] @ [])" by (simp add: cbs_rep_def CBS_init_def)
qed simp_all

end
