(* ===== verification/Stack.thy ===== *)
theory Stack
  imports Mem "HOL-Library.Multiset"
begin

text \<open>
  \<open>crypto/stack/stack.c\<close>: the growable array of pointers behind every \<open>STACK_OF(T)\<close>. Every operation
  refines one on plain lists; \<open>sk_find\<close> and \<open>sk_sort\<close> are proved against the contracts of the
  comparison function and of the C library's \<open>qsort\<close>.
\<close>

section \<open>Arrays of pointers\<close>

text \<open>A \<open>void *\<close> is its address. \<open>*p\<close> is not read here: what a comparison or copy function makes of
  a pointer is a parameter.\<close>

type_synonym ptr = u64

abbreviation NULL :: ptr where "NULL \<equiv> 0"

definition sizeof_ptr :: size_t where "sizeof_ptr = 8"

text \<open>The pointers in a block of bytes, little-endian.\<close>

definition ptr_at :: "bytes \<Rightarrow> nat \<Rightarrow> ptr" where
  "ptr_at bs i = foldr (\<lambda>b v. push_bit 8 v OR ucast b) (take 8 (drop (8 * i) bs)) 0"

definition ptrs_of :: "bytes \<Rightarrow> ptr list" where
  "ptrs_of bs = map (ptr_at bs) [0..<length bs div 8]"

definition malloc_ptrs :: "allocator \<Rightarrow> size_t \<Rightarrow> ptr list option" where
  "malloc_ptrs A n = map_option ptrs_of (OPENSSL_malloc A n)"

text \<open>\<open>OPENSSL_realloc\<close> of an array: the old elements that fit, then what the new block holds.\<close>

definition realloc_ptrs :: "allocator \<Rightarrow> ptr list \<Rightarrow> size_t \<Rightarrow> ptr list option" where
  "realloc_ptrs A old n =
     map_option (\<lambda>new. take (min (length old) (length new)) old @ drop (min (length old) (length new)) new)
       (malloc_ptrs A n)"

lemma malloc_ptrs_length:
  assumes "malloc_ptrs A (n * sizeof_ptr) = Some ps" and "unat n < 2 ^ 60"
  shows "length ps = unat n"
proof -
  have n: "unat (n * 8) = 8 * unat n" using assms(2) by (simp add: unat_word_ariths)
  obtain bs where "OPENSSL_malloc A (n * 8) = Some bs" "ps = ptrs_of bs"
    using assms(1) by (auto simp: malloc_ptrs_def sizeof_ptr_def)
  moreover from this have "length bs = unat (n * 8)" by (intro malloc_length) (use n assms(2) in simp_all)
  ultimately show ?thesis by (simp add: ptrs_of_def n)
qed

lemma realloc_ptrs_Some:
  assumes "realloc_ptrs A old (n * sizeof_ptr) = Some ps" and "unat n < 2 ^ 60" and "length old \<le> unat n"
  shows "length ps = unat n" and "take (length old) ps = old"
proof -
  from assms(1) obtain new where new: "malloc_ptrs A (n * sizeof_ptr) = Some new"
    and ps: "ps = take (min (length old) (length new)) old @ drop (min (length old) (length new)) new"
    by (auto simp: realloc_ptrs_def)
  have "length new = unat n" by (rule malloc_ptrs_length [OF new assms(2)])
  with ps assms(3) show "length ps = unat n" "take (length old) ps = old" by simp_all
qed

section \<open>The structure and its operations\<close>

text \<open>
  \<open>comp\<close> names the comparison function, a C function pointer that may be \<open>NULL\<close> (\<open>None\<close>); calls go
  through the \<open>call_cmp_func\<close> helper, as in the code. A \<open>_STACK *\<close> argument may be \<open>NULL\<close> too.
\<close>

record 'f stack =
  st_num :: size_t
  st_data :: "ptr list"
  st_sorted :: bool
  st_num_alloc :: size_t
  st_comp :: "'f option"

definition kMinSize :: size_t where "kMinSize = 4"

text \<open>\<open>sizeof(_STACK)\<close> on the 64-bit targets.\<close>

definition sizeof_stack :: size_t where "sizeof_stack = 40"

definition sk_new :: "allocator \<Rightarrow> 'f option \<Rightarrow> 'f stack option" where
  "sk_new A cmp =
     (case OPENSSL_malloc A sizeof_stack of
        None \<Rightarrow> None
      | Some _ \<Rightarrow>
          (case malloc_ptrs A (sizeof_ptr * kMinSize) of
             None \<Rightarrow> None
           | Some d \<Rightarrow>
               Some \<lparr>st_num = 0, st_data = map (\<lambda>_. NULL) d, st_sorted = False, st_num_alloc = kMinSize, st_comp = cmp\<rparr>))"

definition sk_new_null :: "allocator \<Rightarrow> 'f stack option" where
  "sk_new_null A = sk_new A None"

definition sk_num :: "'f stack option \<Rightarrow> size_t" where
  "sk_num sk = (case sk of None \<Rightarrow> 0 | Some s \<Rightarrow> st_num s)"

definition sk_zero :: "'f stack option \<Rightarrow> 'f stack option" where
  "sk_zero sk =
     (case sk of
        None \<Rightarrow> None
      | Some s \<Rightarrow>
          if st_num s = 0 then Some s
          else Some (s\<lparr>st_data := replicate (unat (st_num s)) NULL @ drop (unat (st_num s)) (st_data s),
                       st_num := 0, st_sorted := False\<rparr>))"

definition sk_value :: "'f stack option \<Rightarrow> size_t \<Rightarrow> ptr" where
  "sk_value sk i =
     (case sk of None \<Rightarrow> NULL | Some s \<Rightarrow> if i \<ge> st_num s then NULL else st_data s ! unat i)"

definition sk_set :: "'f stack option \<Rightarrow> size_t \<Rightarrow> ptr \<Rightarrow> ptr \<times> 'f stack option" where
  "sk_set sk i v =
     (case sk of
        None \<Rightarrow> (NULL, None)
      | Some s \<Rightarrow>
          if i \<ge> st_num s then (NULL, Some s)
          else (v, Some (s\<lparr>st_data := (st_data s)[unat i := v]\<rparr>)))"

text \<open>
  The functions that release or copy elements call back into the application; \<open>'w\<close> is the state
  those calls change, so their order is part of the result.
\<close>

definition sk_pop_free_ex :: "(ptr \<Rightarrow> 'w \<Rightarrow> 'w) \<Rightarrow> 'f stack option \<Rightarrow> 'w \<Rightarrow> 'w" where
  "sk_pop_free_ex free_elem sk w =
     (case sk of
        None \<Rightarrow> w
      | Some s \<Rightarrow>
          fold (\<lambda>i w. if st_data s ! i \<noteq> NULL then free_elem (st_data s ! i) w else w) [0..<unat (st_num s)] w)"

definition sk_pop_free :: "(ptr \<Rightarrow> 'w \<Rightarrow> 'w) \<Rightarrow> 'f stack option \<Rightarrow> 'w \<Rightarrow> 'w" where
  "sk_pop_free free_func = sk_pop_free_ex (\<lambda>p. free_func p)"

text \<open>Room for one more element and a spare one: double the array, or add one if that overflows.\<close>

definition stack_grow :: "allocator \<Rightarrow> 'f stack \<Rightarrow> 'f stack option" where
  "stack_grow A s =
     (if st_num_alloc s \<le> st_num s + 1 then
        (let new_alloc = push_bit 1 (st_num_alloc s); alloc_size = new_alloc * sizeof_ptr;
             doubled = \<not> (new_alloc < st_num_alloc s \<or> alloc_size div sizeof_ptr \<noteq> new_alloc);
             new_alloc = (if doubled then new_alloc else st_num_alloc s + 1);
             alloc_size = (if doubled then alloc_size else new_alloc * sizeof_ptr) in
         if new_alloc < st_num_alloc s \<or> alloc_size div sizeof_ptr \<noteq> new_alloc then None
         else case realloc_ptrs A (st_data s) alloc_size of
                None \<Rightarrow> None
              | Some d \<Rightarrow> Some (s\<lparr>st_data := d, st_num_alloc := new_alloc\<rparr>))
      else Some s)"

definition memmove_ptrs :: "nat \<Rightarrow> nat \<Rightarrow> nat \<Rightarrow> ptr list \<Rightarrow> ptr list" where
  "memmove_ptrs dst src n d = take dst d @ take n (drop src d) @ drop (dst + n) d"

definition sk_insert :: "allocator \<Rightarrow> 'f stack option \<Rightarrow> ptr \<Rightarrow> size_t \<Rightarrow> size_t \<times> 'f stack option" where
  "sk_insert A sk p where =
     (case sk of
        None \<Rightarrow> (0, None)
      | Some s0 \<Rightarrow>
          (case stack_grow A s0 of
             None \<Rightarrow> (0, Some s0)
           | Some s \<Rightarrow>
               (let d = (if where \<ge> st_num s then (st_data s)[unat (st_num s) := p]
                         else (memmove_ptrs (unat where + 1) (unat where) (unat (st_num s - where)) (st_data s))
                                [unat where := p]);
                    n = st_num s + 1
                in (n, Some (s\<lparr>st_data := d, st_num := n, st_sorted := False\<rparr>)))))"

definition sk_delete :: "'f stack option \<Rightarrow> size_t \<Rightarrow> ptr \<times> 'f stack option" where
  "sk_delete sk where =
     (case sk of
        None \<Rightarrow> (NULL, None)
      | Some s \<Rightarrow>
          if where \<ge> st_num s then (NULL, Some s)
          else
            (let ret = st_data s ! unat where;
                 d = (if where \<noteq> st_num s - 1
                      then memmove_ptrs (unat where) (unat where + 1) (unat (st_num s - where - 1)) (st_data s)
                      else st_data s)
             in (ret, Some (s\<lparr>st_data := d, st_num := st_num s - 1\<rparr>))))"

text \<open>The first index in a range that satisfies a test: the \<open>for\<close> loops that return early.\<close>

definition first_index :: "(nat \<Rightarrow> bool) \<Rightarrow> nat \<Rightarrow> nat option" where
  "first_index P n = List.find P [0..<n]"

definition sk_delete_ptr :: "'f stack option \<Rightarrow> ptr \<Rightarrow> ptr \<times> 'f stack option" where
  "sk_delete_ptr sk p =
     (case sk of
        None \<Rightarrow> (NULL, None)
      | Some s \<Rightarrow>
          (case first_index (\<lambda>i. st_data s ! i = p) (unat (st_num s)) of
             Some i \<Rightarrow> sk_delete sk (of_nat i)
           | None \<Rightarrow> (NULL, Some s)))"

definition sk_is_sorted :: "'f stack option \<Rightarrow> bool" where
  "sk_is_sorted sk = (case sk of None \<Rightarrow> True | Some s \<Rightarrow> st_sorted s)"

lemma unat_mid:
  fixes lo hi :: size_t
  assumes "lo < hi"
  shows "unat (lo + (hi - lo - 1) div 2) = unat lo + (unat hi - unat lo - 1) div 2"
    and "unat (lo + (hi - lo - 1) div 2 + 1) = unat lo + (unat hi - unat lo - 1) div 2 + 1"
    and "hi - lo = 1 \<longleftrightarrow> unat hi - unat lo = 1"
proof -
  have le: "lo \<le> hi" "unat lo < unat hi" using assms by (auto simp: word_less_nat_alt word_le_nat_alt)
  have d: "unat (hi - lo) = unat hi - unat lo" using le(1) by (rule unat_sub_le)
  then show "hi - lo = 1 \<longleftrightarrow> unat hi - unat lo = 1" using le by (simp add: word_unat_eq_iff)
  have "1 \<le> hi - lo" using d le by (simp add: word_le_nat_alt)
  then have "unat ((hi - lo - 1) div 2) = (unat hi - unat lo - 1) div 2"
    by (simp add: unat_div unat_sub_le d)
  moreover have b: "unat lo + (unat hi - unat lo - 1) div 2 < unat hi" using le by linarith
  then have "unat lo + (unat hi - unat lo - 1) div 2 + 1 < 2 ^ 64" using unat_lt_size_max [of hi] by linarith
  ultimately show "unat (lo + (hi - lo - 1) div 2) = unat lo + (unat hi - unat lo - 1) div 2"
    and "unat (lo + (hi - lo - 1) div 2 + 1) = unat lo + (unat hi - unat lo - 1) div 2 + 1"
    by (simp_all add: unat_word_ariths)
qed

lemma half_less: "l < h \<Longrightarrow> h - Suc (l + (h - Suc l) div 2) < h - l" for l h :: nat
  by linarith

text \<open>The binary search over the half-open interval from \<open>lo\<close> to \<open>hi\<close>.\<close>

function sk_search :: "(nat \<Rightarrow> int) \<Rightarrow> size_t \<Rightarrow> size_t \<Rightarrow> size_t option" where
  "sk_search r lo hi =
     (if lo < hi then
        (let mid = lo + (hi - lo - 1) div 2 in
         if r (unat mid) > 0 then sk_search r (mid + 1) hi
         else if r (unat mid) < 0 then sk_search r lo mid
         else if hi - lo = 1 then Some mid
         else sk_search r lo (mid + 1))
      else None)"
  by pat_completeness auto

termination
proof (relation "measure (\<lambda>(r, lo, hi). unat hi - unat lo)", goal_cases)
  case (2 r lo hi mid)
  then show ?case using unat_mid [OF 2(1)] half_less by (simp add: word_less_nat_alt)
next
  case (3 r lo hi mid)
  then show ?case using unat_mid [OF 3(1)] by (simp add: word_less_nat_alt)
next
  case (4 r lo hi mid)
  then have "unat hi - unat lo \<noteq> 1" using unat_mid(3) [OF 4(1)] by simp
  with 4 show ?case using unat_mid [OF 4(1)] by (simp add: word_less_nat_alt) linarith
qed simp

declare sk_search.simps [simp del]

definition sk_find :: "('f \<Rightarrow> ptr \<Rightarrow> ptr \<Rightarrow> int) \<Rightarrow> 'f stack option \<Rightarrow> ptr \<Rightarrow> size_t option" where
  "sk_find call_cmp sk p =
     (case sk of
        None \<Rightarrow> None
      | Some s \<Rightarrow>
          (case st_comp s of
             None \<Rightarrow> map_option of_nat (first_index (\<lambda>i. st_data s ! i = p) (unat (st_num s)))
           | Some cmp \<Rightarrow>
               if p = NULL then None
               else if \<not> sk_is_sorted sk then
                 map_option of_nat (first_index (\<lambda>i. call_cmp cmp p (st_data s ! i) = 0) (unat (st_num s)))
               else sk_search (\<lambda>mid. call_cmp cmp p (st_data s ! mid)) 0 (st_num s)))"

definition sk_shift :: "'f stack option \<Rightarrow> ptr \<times> 'f stack option" where
  "sk_shift sk =
     (case sk of None \<Rightarrow> (NULL, None)
      | Some s \<Rightarrow> if st_num s = 0 then (NULL, Some s) else sk_delete sk 0)"

definition sk_push :: "allocator \<Rightarrow> 'f stack option \<Rightarrow> ptr \<Rightarrow> size_t \<times> 'f stack option" where
  "sk_push A sk p = sk_insert A sk p (sk_num sk)"

definition sk_pop :: "'f stack option \<Rightarrow> ptr \<times> 'f stack option" where
  "sk_pop sk =
     (case sk of None \<Rightarrow> (NULL, None)
      | Some s \<Rightarrow> if st_num s = 0 then (NULL, Some s) else sk_delete sk (st_num s - 1))"

definition sk_dup :: "allocator \<Rightarrow> 'f stack option \<Rightarrow> 'f stack option" where
  "sk_dup A sk =
     (case sk of
        None \<Rightarrow> None
      | Some s \<Rightarrow>
          (case sk_new A (st_comp s) of
             None \<Rightarrow> None
           | Some ret \<Rightarrow>
               (case realloc_ptrs A (st_data ret) (sizeof_ptr * st_num_alloc s) of
                  None \<Rightarrow> None
                | Some d \<Rightarrow>
                    Some (ret\<lparr>st_num := st_num s,
                              st_data := take (unat (st_num s)) (st_data s) @ drop (unat (st_num s)) d,
                              st_sorted := st_sorted s, st_num_alloc := st_num_alloc s,
                              st_comp := st_comp s\<rparr>))))"

text \<open>\<open>qsort\<close> is the C library's; it is given the comparison function and the elements.\<close>

definition sk_sort ::
  "((ptr \<Rightarrow> ptr \<Rightarrow> int) \<Rightarrow> ptr list \<Rightarrow> ptr list) \<Rightarrow> ('f \<Rightarrow> ptr \<Rightarrow> ptr \<Rightarrow> int) \<Rightarrow>
   'f stack option \<Rightarrow> 'f stack option" where
  "sk_sort qsort call_cmp sk =
     (case sk of
        None \<Rightarrow> None
      | Some s \<Rightarrow>
          (case st_comp s of
             None \<Rightarrow> Some s
           | Some cmp \<Rightarrow>
               if st_sorted s then Some s
               else
                 (let n = unat (st_num s);
                      d = (if st_num s \<ge> 2
                           then qsort (call_cmp cmp) (take n (st_data s)) @ drop n (st_data s)
                           else st_data s)
                  in Some (s\<lparr>st_data := d, st_sorted := True\<rparr>))))"

definition sk_set_cmp_func :: "'f stack \<Rightarrow> 'f option \<Rightarrow> 'f option \<times> 'f stack" where
  "sk_set_cmp_func s cmp =
     (let old = st_comp s;
          s' = (if st_comp s \<noteq> cmp then s\<lparr>st_sorted := False\<rparr> else s)
      in (old, s'\<lparr>st_comp := cmp\<rparr>))"

text \<open>The copying loop from index \<open>i\<close> on; a copy that fails frees the copies made before it.\<close>

definition free_copies :: "(ptr \<Rightarrow> 'w \<Rightarrow> 'w) \<Rightarrow> ptr list \<Rightarrow> nat \<Rightarrow> 'w \<Rightarrow> 'w" where
  "free_copies free_elem d i w =
     fold (\<lambda>j w. if d ! j \<noteq> NULL then free_elem (d ! j) w else w) [0..<i] w"

function copy_loop ::
  "(ptr \<Rightarrow> 'w \<Rightarrow> ptr \<times> 'w) \<Rightarrow> (ptr \<Rightarrow> 'w \<Rightarrow> 'w) \<Rightarrow> nat \<Rightarrow> nat \<Rightarrow> ptr list \<Rightarrow> 'w \<Rightarrow> ptr list option \<times> 'w" where
  "copy_loop copy_elem free_elem i n d w =
     (if i < n then
        (if d ! i = NULL then copy_loop copy_elem free_elem (Suc i) n d w
         else (case copy_elem (d ! i) w of
                 (q, w') \<Rightarrow>
                   if q = NULL then (None, free_copies free_elem d i w')
                   else copy_loop copy_elem free_elem (Suc i) n (d[i := q]) w'))
      else (Some d, w))"
  by pat_completeness auto
termination by (relation "measure (\<lambda>(_, _, i, n, _). n - i)") auto

declare copy_loop.simps [simp del]

definition sk_deep_copy ::
  "allocator \<Rightarrow> (ptr \<Rightarrow> 'w \<Rightarrow> ptr \<times> 'w) \<Rightarrow> (ptr \<Rightarrow> 'w \<Rightarrow> 'w) \<Rightarrow> 'f stack option \<Rightarrow> 'w \<Rightarrow> 'f stack option \<times> 'w" where
  "sk_deep_copy A copy_elem free_elem sk w =
     (case sk_dup A sk of
        None \<Rightarrow> (None, w)
      | Some ret \<Rightarrow>
          (case copy_loop copy_elem free_elem 0 (unat (st_num ret)) (st_data ret) w of
             (None, w') \<Rightarrow> (None, w')
           | (Some d, w') \<Rightarrow> (Some (ret\<lparr>st_data := d\<rparr>), w')))"

section \<open>The invariant and the elements\<close>

text \<open>
  There is always one unused slot, and the array is far from the end of the address space (2 to the
  60 pointers), which is what keeps the size computations from wrapping.
\<close>

definition stack_inv :: "'f stack \<Rightarrow> bool" where
  "stack_inv s \<longleftrightarrow> length (st_data s) = unat (st_num_alloc s) \<and> st_num s < st_num_alloc s \<and>
     unat (st_num_alloc s) < 2 ^ 60"

definition elems :: "'f stack \<Rightarrow> ptr list" where
  "elems s = take (unat (st_num s)) (st_data s)"

lemma stack_invD:
  assumes "stack_inv s"
  shows "length (st_data s) = unat (st_num_alloc s)" "unat (st_num s) < unat (st_num_alloc s)"
    "unat (st_num_alloc s) < 2 ^ 60" "length (elems s) = unat (st_num s)"
  using assms by (simp_all add: stack_inv_def elems_def word_less_nat_alt)

lemma sk_new_inv: "sk_new A cmp = Some s \<Longrightarrow> stack_inv s \<and> elems s = [] \<and> st_comp s = cmp \<and> \<not> st_sorted s"
proof -
  assume "sk_new A cmp = Some s"
  then obtain d where d: "malloc_ptrs A (kMinSize * sizeof_ptr) = Some d"
    and s: "s = \<lparr>st_num = 0, st_data = map (\<lambda>_. NULL) d, st_sorted = False, st_num_alloc = kMinSize, st_comp = cmp\<rparr>"
    by (auto simp: sk_new_def mult.commute split: option.splits)
  have "length d = unat kMinSize" by (rule malloc_ptrs_length [OF d]) (simp add: kMinSize_def)
  then show ?thesis unfolding s by (simp add: stack_inv_def elems_def kMinSize_def)
qed

lemma unat_ptrs: "unat w < 2 ^ 60 \<Longrightarrow> unat (w * sizeof_ptr) = 8 * unat w"
  by (simp add: sizeof_ptr_def unat_word_ariths)

lemma stack_grow_cases:
  assumes s: "stack_inv s" and n: "unat (st_num s) + 2 < 2 ^ 59"
  obtains (fail) "stack_grow A s = None" "\<not> (\<forall>m. alloc_ok A m)"
  | (ok) s' where "stack_grow A s = Some s'" "stack_inv s'" "elems s' = elems s" "st_num s' = st_num s"
      "unat (st_num s) + 1 < unat (st_num_alloc s')" "st_comp s' = st_comp s" "st_sorted s' = st_sorted s"
proof (cases "st_num_alloc s \<le> st_num s + 1")
  case False
  have "unat (st_num s + 1) = unat (st_num s) + 1" using n by (simp add: unat_word_ariths)
  with False show thesis
    by (intro ok [of s]) (simp_all add: stack_grow_def s word_le_nat_alt)
next
  case True
  note inv = stack_invD [OF s]
  have n1: "unat (st_num s + 1) = unat (st_num s) + 1" using n by (simp add: unat_word_ariths)
  with True inv(2) have na: "unat (st_num_alloc s) = unat (st_num s) + 1" by (simp add: word_le_nat_alt)
  define m where "m = push_bit 1 (st_num_alloc s)"
  have m: "unat m = 2 * unat (st_num_alloc s)" using na n by (simp add: m_def push_bit_eq_mult unat_word_ariths)
  have m60: "unat m < 2 ^ 60" using m na n by simp
  have m8: "unat (m * sizeof_ptr) = 8 * unat m" using m60 by (rule unat_ptrs)
  have "\<not> m < st_num_alloc s" using m by (simp add: word_less_nat_alt)
  moreover have "m * sizeof_ptr div sizeof_ptr = m"
    using m8 by (simp add: word_unat_eq_iff unat_div) (simp add: sizeof_ptr_def)
  ultimately have g: "stack_grow A s = (case realloc_ptrs A (st_data s) (m * sizeof_ptr) of
      None \<Rightarrow> None | Some d \<Rightarrow> Some (s\<lparr>st_data := d, st_num_alloc := m\<rparr>))"
    using True unfolding stack_grow_def m_def [symmetric] by (simp add: Let_def)
  show thesis
  proof (cases "realloc_ptrs A (st_data s) (m * sizeof_ptr)")
    case None
    then have "OPENSSL_malloc A (m * sizeof_ptr) = None" by (simp add: realloc_ptrs_def malloc_ptrs_def)
    then have "\<not> (\<forall>m. alloc_ok A m)" by (auto simp: OPENSSL_malloc_def Let_def split: if_splits)
    with None show thesis using g by (intro fail) simp_all
  next
    case (Some d)
    have le: "length (st_data s) \<le> unat m" using inv(1) m by simp
    note d = realloc_ptrs_Some [OF Some m60 le]
    have "take (unat (st_num s)) d = take (unat (st_num s)) (take (length (st_data s)) d)"
      using inv(1,2) by (simp add: min_absorb1)
    then have "take (unat (st_num s)) d = elems s" using d(2) by (simp add: elems_def)
    then show thesis using g Some d(1) m m60 na s
      by (intro ok [of "s\<lparr>st_data := d, st_num_alloc := m\<rparr>"])
        (simp_all add: stack_inv_def elems_def word_less_nat_alt)
  qed
qed

section \<open>Operations on the elements\<close>

lemma sk_insert_cases:
  assumes s: "stack_inv s" and n: "length (elems s) + 2 < 2 ^ 59"
  obtains (fail) "sk_insert A (Some s) p w = (0, Some s)" "\<not> (\<forall>m. alloc_ok A m)"
  | (ok) s' where "sk_insert A (Some s) p w = (of_nat (length (elems s) + 1), Some s')" "stack_inv s'"
      "elems s' = take (unat w) (elems s) @ p # drop (unat w) (elems s)" "\<not> st_sorted s'" "st_comp s' = st_comp s"
proof -
  note inv = stack_invD [OF s]
  have n': "unat (st_num s) + 2 < 2 ^ 59" using n inv(4) by simp
  show thesis
  proof (rule stack_grow_cases [OF s n', of A])
    assume "stack_grow A s = None" "\<not> (\<forall>m. alloc_ok A m)"
    then show thesis by (intro fail) (simp_all add: sk_insert_def)
  next
    fix t
    assume t: "stack_grow A s = Some t" "stack_inv t" "elems t = elems s" "st_num t = st_num s"
      "unat (st_num s) + 1 < unat (st_num_alloc t)" "st_comp t = st_comp s"
    note it = stack_invD [OF t(2)]
    let ?k = "unat (st_num s)"
    let ?d = "if st_num t \<le> w then (st_data t)[unat (st_num t) := p]
        else (memmove_ptrs (unat w + 1) (unat w) (unat (st_num t - w)) (st_data t))[unat w := p]"
    have n1: "unat (st_num t + 1) = ?k + 1" using n' t(4) by (simp add: unat_word_ariths)
    have len: "?k < length (st_data t)" using it(1,2) t(4) by simp
    have "length ?d = length (st_data t) \<and> take (?k + 1) ?d = take (unat w) (elems s) @ p # drop (unat w) (elems s)"
    proof (cases "st_num t \<le> w")
      case True
      then have w: "?k \<le> unat w" using t(4) by (simp add: word_le_nat_alt)
      have "take (Suc ?k) ((st_data t)[?k := p]) = take ?k (st_data t) @ [p]"
        using len by (simp add: take_Suc_conv_app_nth)
      moreover have "take ?k (st_data t) = elems s" using t(3,4) by (simp add: elems_def)
      ultimately show ?thesis using True w t(4) inv(4) by simp
    next
      case False
      then have w: "unat w < ?k" and sub: "unat (st_num t - w) = ?k - unat w"
        using t(4) by (simp_all add: word_le_nat_alt unat_sub_le)
      have e: "take (unat w) (elems s) = take (unat w) (st_data t)"
        "drop (unat w) (elems s) = take (?k - unat w) (drop (unat w) (st_data t))"
        unfolding t(3) [symmetric] using w t(4) by (simp_all add: elems_def min_absorb1 take_drop)
      let ?m = "memmove_ptrs (unat w + 1) (unat w) (?k - unat w) (st_data t)"
      have m: "?m = take (unat w) (st_data t) @ st_data t ! unat w #
          take (?k - unat w) (drop (unat w) (st_data t)) @ drop (?k + 1) (st_data t)"
        using w len by (simp add: memmove_ptrs_def take_Suc_conv_app_nth)
      have "?m[unat w := p] = take (unat w) (st_data t) @ p #
          take (?k - unat w) (drop (unat w) (st_data t)) @ drop (?k + 1) (st_data t)"
        unfolding m using w len by (simp add: list_update_append)
      moreover have "Suc ?k - unat w = Suc (?k - unat w)" using w by simp
      moreover have "st_data t \<noteq> []" using len by auto
      ultimately show ?thesis using False w len unfolding sub e by simp
    qed
    note d = this
    define t' where "t' = t\<lparr>st_data := ?d, st_num := st_num t + 1, st_sorted := False\<rparr>"
    have "stack_inv t'" "elems t' = take (unat w) (elems s) @ p # drop (unat w) (elems s)"
      unfolding t'_def using d it n1 t(5) by (simp_all add: stack_inv_def elems_def word_less_nat_alt)
    moreover have "st_num t + 1 = of_nat (length (elems s) + 1)" using t(4) inv(4) by simp
    then have "sk_insert A (Some s) p w = (of_nat (length (elems s) + 1), Some t')"
      unfolding t'_def using t(1) by (simp add: sk_insert_def Let_def)
    ultimately show thesis using t(6) by (intro ok [of t']) (simp_all add: t'_def)
  qed
qed

lemma take_memmove_down:
  assumes "w < k" and "k \<le> length d"
  shows "length (memmove_ptrs w (w + 1) (k - w - 1) d) = length d"
    and "take (k - 1) (memmove_ptrs w (w + 1) (k - w - 1) d) = take w d @ take (k - w - 1) (drop (w + 1) d)"
proof -
  have "w + (k - w - 1) = k - 1" using assms by simp
  then have m: "memmove_ptrs w (w + 1) (k - w - 1) d =
      (take w d @ take (k - w - 1) (drop (w + 1) d)) @ drop (k - 1) d"
    by (simp add: memmove_ptrs_def)
  have l: "length (take w d @ take (k - w - 1) (drop (w + 1) d)) = k - 1" using assms by simp
  show "length (memmove_ptrs w (w + 1) (k - w - 1) d) = length d"
    unfolding m using l assms by simp
  show "take (k - 1) (memmove_ptrs w (w + 1) (k - w - 1) d) = take w d @ take (k - w - 1) (drop (w + 1) d)"
    unfolding m by (metis append_eq_conv_conj l)
qed

lemma sk_delete_eq:
  assumes s: "stack_inv s" and w: "unat w < length (elems s)"
  obtains s' where "sk_delete (Some s) w = (elems s ! unat w, Some s')" "stack_inv s'"
    "elems s' = take (unat w) (elems s) @ drop (unat w + 1) (elems s)" "st_sorted s' = st_sorted s"
    "st_comp s' = st_comp s"
proof -
  note inv = stack_invD [OF s]
  let ?k = "unat (st_num s)"
  have w': "unat w < ?k" "\<not> st_num s \<le> w" using w inv(4) by (simp_all add: word_le_nat_alt)
  then have k1: "unat (st_num s - 1) = ?k - 1" by (intro unat_minus_one) auto
  let ?d = "if w \<noteq> st_num s - 1 then memmove_ptrs (unat w) (unat w + 1) (unat (st_num s - w - 1)) (st_data s)
      else st_data s"
  have e: "take (unat w) (elems s) = take (unat w) (st_data s)"
    "drop (unat w + 1) (elems s) = take (?k - unat w - 1) (drop (unat w + 1) (st_data s))"
    using w' by (simp_all add: elems_def min_absorb1 drop_take)
  have d: "length ?d = length (st_data s) \<and> take (?k - 1) ?d = take (unat w) (elems s) @ drop (unat w + 1) (elems s)"
  proof (cases "w = st_num s - 1")
    case True
    then have "unat w = ?k - 1" using k1 by simp
    then show ?thesis using True w' inv unfolding e by simp
  next
    case False
    have sw: "unat (st_num s - w) = ?k - unat w" using w' by (simp add: unat_sub_le)
    then have "st_num s - w \<noteq> 0" using w' by auto
    then have sub: "unat (st_num s - w - 1) = ?k - unat w - 1" using sw by (simp add: unat_minus_one)
    have le: "?k \<le> length (st_data s)" using inv by simp
    show ?thesis using False take_memmove_down [OF w'(1) le] unfolding sub e by (simp only: if_True simp_thms)
  qed
  let ?s = "s\<lparr>st_data := ?d, st_num := st_num s - 1\<rparr>"
  have "stack_inv ?s" "elems ?s = take (unat w) (elems s) @ drop (unat w + 1) (elems s)"
    using d inv k1 by (simp_all add: stack_inv_def elems_def word_less_nat_alt)
  moreover have "sk_delete (Some s) w = (elems s ! unat w, Some ?s)"
    using w' by (simp add: sk_delete_def Let_def elems_def)
  ultimately show thesis by (intro that [of ?s]) simp_all
qed

text \<open>The first index with a property, as a number below the length.\<close>

lemma first_index_Some: "first_index P n = Some i \<longleftrightarrow> i < n \<and> P i \<and> (\<forall>j < i. \<not> P j)"
  unfolding first_index_def find_Some_iff by (auto intro!: exI [of _ i])

lemma first_index_None: "first_index P n = None \<longleftrightarrow> (\<forall>j < n. \<not> P j)"
  by (auto simp: first_index_def find_None_iff)

lemma first_index_cong: "(\<And>i. i < n \<Longrightarrow> P i = Q i) \<Longrightarrow> first_index P n = first_index Q n"
  unfolding first_index_def by (rule find_cong) simp_all

lemma elems_nth: "stack_inv s \<Longrightarrow> i < length (elems s) \<Longrightarrow> st_data s ! i = elems s ! i"
  by (simp add: elems_def)

lemma first_index_elems:
  "stack_inv s \<Longrightarrow> first_index (\<lambda>i. P (st_data s ! i)) (unat (st_num s)) =
    first_index (\<lambda>i. P (elems s ! i)) (length (elems s))"
  using stack_invD(4) [of s] elems_nth [of s] by (auto intro!: first_index_cong)

lemma num_word: "stack_inv s \<Longrightarrow> st_num s = of_nat (length (elems s))"
  using stack_invD(4) [of s] by simp

lemma unat_of_index: "stack_inv s \<Longrightarrow> i \<le> length (elems s) \<Longrightarrow> unat (of_nat i :: size_t) = i"
  using stack_invD [of s] by (intro unat_of_nat_size) simp

lemma num_le: "stack_inv s \<Longrightarrow> st_num s \<le> w \<longleftrightarrow> length (elems s) \<le> unat w"
  using stack_invD(4) [of s] by (simp add: word_le_nat_alt)

section \<open>Sequences of operations\<close>

datatype stack_op =
    Push ptr | Insert ptr size_t | Pop | Shift | Delete size_t | Delete_ptr ptr
  | Set size_t ptr | Value size_t | Num | Zero

fun exec :: "allocator \<Rightarrow> stack_op \<Rightarrow> 'f stack option \<Rightarrow> u64 \<times> 'f stack option" where
  "exec A (Push p) sk = sk_push A sk p"
| "exec A (Insert p w) sk = sk_insert A sk p w"
| "exec A Pop sk = sk_pop sk"
| "exec A Shift sk = sk_shift sk"
| "exec A (Delete w) sk = sk_delete sk w"
| "exec A (Delete_ptr p) sk = sk_delete_ptr sk p"
| "exec A (Set i p) sk = sk_set sk i p"
| "exec A (Value i) sk = (sk_value sk i, sk)"
| "exec A Num sk = (sk_num sk, sk)"
| "exec A Zero sk = (0, sk_zero sk)"

fun exec_all :: "allocator \<Rightarrow> stack_op list \<Rightarrow> 'f stack option \<Rightarrow> u64 list \<times> 'f stack option" where
  "exec_all A [] sk = ([], sk)"
| "exec_all A (x # xs) sk =
     (case exec A x sk of (v, sk') \<Rightarrow> case exec_all A xs sk' of (vs, sk'') \<Rightarrow> (v # vs, sk''))"

text \<open>The same on a list of pointers.\<close>

definition remove_nth :: "nat \<Rightarrow> 'a list \<Rightarrow> 'a list" where
  "remove_nth i xs = take i xs @ drop (i + 1) xs"

definition insert_nth :: "nat \<Rightarrow> 'a \<Rightarrow> 'a list \<Rightarrow> 'a list" where
  "insert_nth i x xs = take i xs @ x # drop i xs"

definition delete_spec :: "nat \<Rightarrow> ptr list \<Rightarrow> ptr \<times> ptr list" where
  "delete_spec i xs = (if i < length xs then (xs ! i, remove_nth i xs) else (NULL, xs))"

fun spec :: "stack_op \<Rightarrow> ptr list \<Rightarrow> u64 \<times> ptr list" where
  "spec (Push p) xs = (of_nat (length xs + 1), xs @ [p])"
| "spec (Insert p w) xs = (of_nat (length xs + 1), insert_nth (unat w) p xs)"
| "spec Pop xs = delete_spec (length xs - 1) xs"
| "spec Shift xs = delete_spec 0 xs"
| "spec (Delete w) xs = delete_spec (unat w) xs"
| "spec (Delete_ptr p) xs = (case first_index (\<lambda>i. xs ! i = p) (length xs) of
      Some i \<Rightarrow> (p, remove_nth i xs) | None \<Rightarrow> (NULL, xs))"
| "spec (Set i p) xs = (if unat i < length xs then (p, xs[unat i := p]) else (NULL, xs))"
| "spec (Value i) xs = (if unat i < length xs then xs ! unat i else NULL, xs)"
| "spec Num xs = (of_nat (length xs), xs)"
| "spec Zero xs = (0, [])"

fun spec_all :: "stack_op list \<Rightarrow> ptr list \<Rightarrow> u64 list \<times> ptr list" where
  "spec_all [] xs = ([], xs)"
| "spec_all (x # ops) xs = (case spec x xs of (v, ys) \<Rightarrow> case spec_all ops ys of (vs, zs) \<Rightarrow> (v # vs, zs))"

lemma sk_delete_spec:
  assumes s: "stack_inv s"
  shows "\<exists>s'. sk_delete (Some s) w = (fst (delete_spec (unat w) (elems s)), Some s') \<and> stack_inv s' \<and>
    elems s' = snd (delete_spec (unat w) (elems s))"
proof (cases "unat w < length (elems s)")
  case True
  from sk_delete_eq [OF s True] show ?thesis using True by (metis delete_spec_def remove_nth_def fst_conv snd_conv)
next
  case False
  then show ?thesis using s by (simp add: sk_delete_def num_le delete_spec_def)
qed

lemma exec_spec:
  assumes s: "stack_inv s" and n: "length (elems s) + 2 < 2 ^ 59" and A: "\<forall>m. alloc_ok A m"
  shows "\<exists>s'. exec A x (Some s) = (fst (spec x (elems s)), Some s') \<and> stack_inv s' \<and> elems s' = snd (spec x (elems s))"
proof -
  note inv = stack_invD [OF s]
  have ins: "\<exists>s'. sk_insert A (Some s) p w = (of_nat (length (elems s) + 1), Some s') \<and> stack_inv s' \<and>
      elems s' = insert_nth (unat w) p (elems s)" for p w
    by (rule sk_insert_cases [OF s n, of A p w]) (use A in \<open>simp_all add: insert_nth_def\<close>)
  show ?thesis
  proof (cases x)
    case (Push p)
    then show ?thesis using ins [of p "st_num s"] inv(4) by (simp add: sk_push_def sk_num_def insert_nth_def)
  next
    case (Insert p w)
    then show ?thesis using ins [of p w] by simp
  next
    case Pop
    show ?thesis
    proof (cases "st_num s = 0")
      case True
      then show ?thesis using Pop s inv(4) by (simp add: sk_pop_def delete_spec_def)
    next
      case False
      then have "unat (st_num s - 1) = length (elems s) - 1" using inv(4) by (simp add: unat_minus_one)
      then show ?thesis using Pop False sk_delete_spec [OF s, of "st_num s - 1"] by (simp add: sk_pop_def)
    qed
  next
    case Shift
    show ?thesis
    proof (cases "st_num s = 0")
      case True
      then show ?thesis using Shift s inv(4) by (simp add: sk_shift_def delete_spec_def)
    next
      case False
      then show ?thesis using Shift sk_delete_spec [OF s, of 0] by (simp add: sk_shift_def)
    qed
  next
    case (Delete w)
    then show ?thesis using sk_delete_spec [OF s, of w] by simp
  next
    case (Delete_ptr p)
    have f: "first_index (\<lambda>i. st_data s ! i = p) (unat (st_num s)) =
        first_index (\<lambda>i. elems s ! i = p) (length (elems s))"
      by (rule first_index_elems [OF s])
    show ?thesis
    proof (cases "first_index (\<lambda>i. elems s ! i = p) (length (elems s))")
      case None
      then show ?thesis using Delete_ptr s f by (simp add: sk_delete_ptr_def)
    next
      case (Some i)
      then have i: "i < length (elems s)" "elems s ! i = p" by (simp_all add: first_index_Some)
      then have "unat (of_nat i :: size_t) = i" using unat_of_index [OF s] by simp
      then show ?thesis using Delete_ptr Some f i sk_delete_spec [OF s, of "of_nat i"]
        by (simp add: sk_delete_ptr_def delete_spec_def)
    qed
  next
    case (Set i p)
    then show ?thesis
      using s inv by (cases "length (elems s) \<le> unat i")
        (simp_all add: sk_set_def num_le stack_inv_def elems_def take_update_swap)
  next
    case (Value i)
    then show ?thesis using s elems_nth [OF s, of "unat i"] by (simp add: sk_value_def num_le not_less)
  next
    case Num
    then show ?thesis using s by (simp add: sk_num_def num_word)
  next
    case Zero
    show ?thesis
    proof (cases "st_num s = 0")
      case True
      then show ?thesis using Zero s by (simp add: sk_zero_def elems_def)
    next
      case False
      then show ?thesis using Zero inv by (simp add: sk_zero_def elems_def stack_inv_def word_less_nat_alt)
    qed
  qed
qed

lemma spec_length: "length (snd (spec x xs)) \<le> length xs + 1"
  by (cases x) (auto simp: delete_spec_def remove_nth_def insert_nth_def split: option.splits)

text \<open>
  C3: A stack behaves as a list of pointers. Any sequence of pushes, insertions, deletions, lookups,
  assignments and resets returns what the list operations return and leaves the same elements, with
  the array invariant kept, however often the array is reallocated.
\<close>

theorem stack_refines_list:
  assumes "stack_inv s" and "length (elems s) + length ops + 2 < 2 ^ 59" and "\<forall>m. alloc_ok A m"
  shows "\<exists>s'. exec_all A ops (Some s) = (fst (spec_all ops (elems s)), Some s') \<and> stack_inv s' \<and>
    elems s' = snd (spec_all ops (elems s))"
  using assms
proof (induction ops arbitrary: s)
  case (Cons x ops)
  have "length (elems s) + 2 < 2 ^ 59" using Cons.prems(2) by simp
  from exec_spec [OF Cons.prems(1) this Cons.prems(3), of x] obtain s1 where
    s1: "exec A x (Some s) = (fst (spec x (elems s)), Some s1)" "stack_inv s1" "elems s1 = snd (spec x (elems s))"
    by blast
  have "length (elems s1) + length ops + 2 < 2 ^ 59" using spec_length [of x "elems s"] Cons.prems(2) s1(3) by simp
  from Cons.IH [OF s1(2) this Cons.prems(3)] s1 show ?case
    by (cases "spec x (elems s)") (auto split: prod.splits)
qed simp

theorem stack_refines_list_witness:
  "\<exists>s s' :: unit stack. sk_new malloc_total None = Some s \<and>
     exec_all malloc_total [Push 7, Insert 8 0, Push 9, Delete_ptr 7, Pop, Num] (Some s) =
       ([1, 2, 3, 7, 9, 1], Some s') \<and> elems s' = [8]"
proof -
  obtain s :: "unit stack" where s: "sk_new malloc_total None = Some s"
    by (simp add: sk_new_def OPENSSL_malloc_def malloc_ptrs_def Let_def)
  then have i: "stack_inv s" "elems s = []" using sk_new_inv by blast+
  have "spec_all [Push 7, Insert 8 0, Push 9, Delete_ptr 7, Pop, Num] [] = ([1, 2, 3, 7, 9, 1], [8])" by code_simp
  with stack_refines_list [OF i(1), of "[Push 7, Insert 8 0, Push 9, Delete_ptr 7, Pop, Num]" malloc_total] i(2) s
  show ?thesis by auto
qed

text \<open>
  A push that fails for lack of memory returns 0 and leaves the stack as it was; otherwise the
  element is at the end.
\<close>

theorem sk_push_outcome:
  assumes "stack_inv s" and "length (elems s) + 2 < 2 ^ 59"
  shows "sk_push A (Some s) p = (0, Some s) \<or>
    (\<exists>s'. sk_push A (Some s) p = (of_nat (length (elems s) + 1), Some s') \<and> stack_inv s' \<and>
       elems s' = elems s @ [p] \<and> \<not> st_sorted s')"
  by (rule sk_insert_cases [OF assms, of A p "st_num s"])
    (use stack_invD(4) [OF assms(1)] in \<open>simp_all add: sk_push_def sk_num_def\<close>)

section \<open>Searching and sorting\<close>

text \<open>The comparison function orders the pointers: the contract of \<open>stack_cmp_func\<close>.\<close>

definition cmp_ok :: "('a \<Rightarrow> 'a \<Rightarrow> int) \<Rightarrow> bool" where
  "cmp_ok c \<longleftrightarrow> (\<forall>a b. c a b < 0 \<longleftrightarrow> 0 < c b a) \<and> (\<forall>a b d. c a b \<le> 0 \<longrightarrow> c b d \<le> 0 \<longrightarrow> c a d \<le> 0)"

definition in_order :: "('a \<Rightarrow> 'a \<Rightarrow> int) \<Rightarrow> 'a list \<Rightarrow> bool" where
  "in_order c xs \<longleftrightarrow> (\<forall>i j. i < j \<longrightarrow> j < length xs \<longrightarrow> c (xs ! i) (xs ! j) \<le> 0)"

lemma in_order_Nil: "in_order c []"
  by (simp add: in_order_def)

lemma in_order_Cons: "in_order c (x # xs) \<longleftrightarrow> in_order c xs \<and> (\<forall>y \<in> set xs. c x y \<le> 0)"
proof
  assume o: "in_order c (x # xs)"
  have "c x (xs ! j) \<le> 0" if "j < length xs" for j
    using o that unfolding in_order_def by (metis Suc_less_eq length_Cons nth_Cons_0 nth_Cons_Suc zero_less_Suc)
  moreover have "in_order c xs"
    using o unfolding in_order_def by (metis Suc_less_eq length_Cons nth_Cons_Suc)
  ultimately show "in_order c xs \<and> (\<forall>y \<in> set xs. c x y \<le> 0)" by (auto simp: in_set_conv_nth)
next
  assume "in_order c xs \<and> (\<forall>y \<in> set xs. c x y \<le> 0)"
  then show "in_order c (x # xs)" by (auto simp: in_order_def nth_Cons split: nat.splits)
qed

text \<open>What \<open>sorted\<close> promises, and who relies on it.\<close>

definition sorted_ok :: "('f \<Rightarrow> ptr \<Rightarrow> ptr \<Rightarrow> int) \<Rightarrow> 'f stack \<Rightarrow> bool" where
  "sorted_ok call_cmp s \<longleftrightarrow> (st_sorted s \<longrightarrow> (\<exists>cmp. st_comp s = Some cmp \<and> in_order (call_cmp cmp) (elems s)))"

text \<open>
  The search keeps: everything before \<open>lo\<close> is below the key, and at \<open>hi\<close> and beyond nothing is,
  nor is anything before a match beyond \<open>hi\<close> but inside it.
\<close>

definition below :: "(nat \<Rightarrow> int) \<Rightarrow> nat \<Rightarrow> bool" where "below r n \<longleftrightarrow> (\<forall>i < n. 0 < r i)"

definition descending :: "(nat \<Rightarrow> int) \<Rightarrow> nat \<Rightarrow> bool" where
  "descending r n \<longleftrightarrow> (\<forall>i j. i < j \<longrightarrow> j < n \<longrightarrow> (r i < 0 \<longrightarrow> r j < 0) \<and> (r i = 0 \<longrightarrow> r j \<le> 0))"

lemma sk_search_result:
  "lo \<le> hi \<Longrightarrow> unat hi \<le> n \<Longrightarrow> descending r n \<Longrightarrow> below r (unat lo) \<Longrightarrow>
   (unat hi = n \<or> r (unat hi) < 0 \<or> (unat lo < unat hi \<and> r (unat hi - 1) = 0)) \<Longrightarrow>
   (case sk_search r lo hi of
      Some i \<Rightarrow> unat i < n \<and> r (unat i) = 0 \<and> below r (unat i)
    | None \<Rightarrow> \<forall>i < n. r i \<noteq> 0)"
proof (induction r lo hi rule: sk_search.induct)
  case (1 r lo hi)
  show ?case
  proof (cases "lo < hi")
    case False
    then have e: "unat lo = unat hi" using "1.prems"(1) by (simp add: word_le_nat_alt word_less_nat_alt)
    have "r i \<noteq> 0" if "i < n" for i
    proof (cases "i < unat lo")
      case True
      then show ?thesis using "1.prems"(4) by (auto simp: below_def)
    next
      case not: False
      then have "unat hi \<le> i" using e by simp
      show ?thesis
      proof (cases "i = unat hi")
        case True
        then show ?thesis using that e "1.prems"(5) by auto
      next
        case False
        then have i: "unat hi < i" using not e by simp
        then have "r (unat hi) < 0" using that e "1.prems"(5) by auto
        then show ?thesis using "1.prems"(3) i that unfolding descending_def by fastforce
      qed
    qed
    then show ?thesis using False by (simp add: sk_search.simps)
  next
    case True
    let ?m = "lo + (hi - lo - 1) div 2"
    note mid = unat_mid [OF True]
    have lt: "unat lo < unat hi" using True by (simp add: word_less_nat_alt)
    then have m: "unat lo \<le> unat ?m" "unat ?m < unat hi" using mid(1) by linarith+
    have mn: "unat ?m < n" using m(2) "1.prems"(2) by linarith
    note d = "1.prems"(3)
    have code: "sk_search r lo hi = (if 0 < r (unat ?m) then sk_search r (?m + 1) hi
        else if r (unat ?m) < 0 then sk_search r lo ?m
        else if hi - lo = 1 then Some ?m else sk_search r lo (?m + 1))"
      by (subst sk_search.simps) (simp only: True if_True Let_def)
    have m1: "?m + 1 \<le> hi" "lo \<le> ?m + 1" "lo \<le> ?m" using mid m by (simp_all add: word_le_nat_alt)
    consider (low) "0 < r (unat ?m)" | (high) "r (unat ?m) < 0" | (hit) "r (unat ?m) = 0" by linarith
    then show ?thesis
    proof cases
      case low
      have "0 < r i" if "i \<le> unat ?m" for i
      proof (cases "i = unat ?m")
        case False
        with that have "i < unat ?m" by linarith
        then have "(r i < 0 \<longrightarrow> r (unat ?m) < 0) \<and> (r i = 0 \<longrightarrow> r (unat ?m) \<le> 0)"
          using d mn by (simp add: descending_def)
        with low show ?thesis by linarith
      qed (use low in simp)
      then have b: "below r (unat (?m + 1))" using mid by (simp add: below_def)
      have "unat hi - 1 \<noteq> unat ?m" if "r (unat hi - 1) = 0" using that low by auto
      then have e: "unat hi = n \<or> r (unat hi) < 0 \<or> (unat (?m + 1) < unat hi \<and> r (unat hi - 1) = 0)"
        using "1.prems"(5) mid(1,2) m(2) by linarith
      from "1.IH"(1) [OF True refl low m1(1) "1.prems"(2) d b e] low show ?thesis by (simp only: code if_True)
    next
      case high
      then have n: "\<not> 0 < r (unat ?m)" by simp
      have "unat ?m \<le> n" using mn by simp
      from "1.IH"(2) [OF True refl n high m1(3) this d "1.prems"(4)] high n show ?thesis
        by (simp only: code if_True if_False simp_thms)
    next
      case hit
      then have n: "\<not> 0 < r (unat ?m)" "\<not> r (unat ?m) < 0" by simp_all
      show ?thesis
      proof (cases "hi - lo = 1")
        case one: True
        then have "unat ?m = unat lo" using mid m by linarith
        then have "below r (unat ?m)" using "1.prems"(4) by simp
        moreover have "sk_search r lo hi = Some ?m"
          unfolding code if_not_P [OF n(1)] if_not_P [OF n(2)] if_P [OF one] ..
        ultimately show ?thesis using hit mn by (simp only: option.case simp_thms)
      next
        case False
        have le: "unat (?m + 1) \<le> n" using mid(1,2) mn by linarith
        have e: "unat (?m + 1) = n \<or> r (unat (?m + 1)) < 0 \<or> (unat lo < unat (?m + 1) \<and> r (unat (?m + 1) - 1) = 0)"
          using mid(1,2) m hit by simp
        from "1.IH"(3) [OF True refl n False m1(2) le d "1.prems"(4) e] n False show ?thesis
          by (simp only: code if_False)
      qed
    qed
  qed
qed

lemma cmp_ok_trans_strict: "cmp_ok c \<Longrightarrow> c a b < 0 \<Longrightarrow> c b d \<le> 0 \<Longrightarrow> c a d < 0"
  unfolding cmp_ok_def by (metis linorder_not_less)

lemma in_order_descending:
  assumes "cmp_ok c" and "in_order c xs"
  shows "descending (\<lambda>i. c p (xs ! i)) (length xs)"
  unfolding descending_def
proof (intro allI impI)
  fix i j
  assume "i < j" "j < length xs"
  then have "c (xs ! i) (xs ! j) \<le> 0" using assms(2) by (simp add: in_order_def)
  with assms(1) cmp_ok_trans_strict [OF assms(1), of p "xs ! i" "xs ! j"]
  show "(c p (xs ! i) < 0 \<longrightarrow> c p (xs ! j) < 0) \<and> (c p (xs ! i) = 0 \<longrightarrow> c p (xs ! j) \<le> 0)"
    unfolding cmp_ok_def by (metis order_refl)
qed

lemma search_first:
  assumes "descending r n" and "unat h = n"
  shows "sk_search r 0 h = map_option of_nat (first_index (\<lambda>i. r i = 0) n)"
proof -
  have s: "case sk_search r 0 h of Some i \<Rightarrow> unat i < n \<and> r (unat i) = 0 \<and> below r (unat i) | None \<Rightarrow> \<forall>i < n. r i \<noteq> 0"
    by (rule sk_search_result) (use assms in \<open>simp_all add: below_def\<close>)
  show ?thesis
  proof (cases "sk_search r 0 h")
    case None
    then have "first_index (\<lambda>i. r i = 0) n = None" using s by (simp add: first_index_None)
    with None show ?thesis by simp
  next
    case (Some i)
    then have "first_index (\<lambda>i. r i = 0) n = Some (unat i)"
      using s by (auto simp: first_index_Some below_def)
    with Some show ?thesis by simp
  qed
qed

text \<open>
  C14: \<open>sk_find\<close> returns the index of the first element that compares equal to the key. On a sorted
  stack the binary search finds the same index as the linear scan, and never one less.
\<close>

theorem sk_find_first:
  assumes "stack_inv s" and "st_comp s = Some cmp" and "p \<noteq> NULL"
    and "cmp_ok (call_cmp cmp)" and "sorted_ok call_cmp s"
  shows "sk_find call_cmp (Some s) p =
    map_option of_nat (first_index (\<lambda>i. call_cmp cmp p (elems s ! i) = 0) (length (elems s)))"
proof (cases "st_sorted s")
  case False
  then show ?thesis
    using assms(2,3) first_index_elems [OF assms(1), of "\<lambda>x. call_cmp cmp p x = 0"]
    by (simp add: sk_find_def sk_is_sorted_def)
next
  case True
  then have o: "in_order (call_cmp cmp) (elems s)" using assms(2,5) by (simp add: sorted_ok_def)
  have "descending (\<lambda>i. call_cmp cmp p (st_data s ! i)) (length (elems s))"
    using in_order_descending [OF assms(4) o, of p] elems_nth [OF assms(1)] by (simp add: descending_def)
  moreover have "unat (st_num s) = length (elems s)" using stack_invD(4) [OF assms(1)] by simp
  ultimately have "sk_search (\<lambda>i. call_cmp cmp p (st_data s ! i)) 0 (st_num s) =
      map_option of_nat (first_index (\<lambda>i. call_cmp cmp p (st_data s ! i) = 0) (length (elems s)))"
    by (rule search_first)
  then show ?thesis
    using True assms(2,3) first_index_elems [OF assms(1), of "\<lambda>x. call_cmp cmp p x = 0"] stack_invD(4) [OF assms(1)]
    by (simp add: sk_find_def sk_is_sorted_def)
qed

text \<open>What the C standard says of \<open>qsort\<close>.\<close>

definition qsort_ok :: "(('a \<Rightarrow> 'a \<Rightarrow> int) \<Rightarrow> 'a list \<Rightarrow> 'a list) \<Rightarrow> bool" where
  "qsort_ok qsort \<longleftrightarrow> (\<forall>c xs. mset (qsort c xs) = mset xs \<and> (cmp_ok c \<longrightarrow> in_order c (qsort c xs)))"

text \<open>
  \<open>sk_sort\<close> permutes the elements into the order of the comparison function and marks the stack
  sorted, truthfully; the C library's \<open>qsort\<close> is assumed to sort.
\<close>

theorem sk_sort_sorts:
  assumes "qsort_ok qsort" and "stack_inv s" and "st_comp s = Some cmp"
    and "cmp_ok (call_cmp cmp)" and "sorted_ok call_cmp s"
  shows "\<exists>s'. sk_sort qsort call_cmp (Some s) = Some s' \<and> stack_inv s' \<and> mset (elems s') = mset (elems s) \<and>
    st_sorted s' \<and> sorted_ok call_cmp s'"
proof (cases "st_sorted s")
  case True
  then show ?thesis using assms by (simp add: sk_sort_def)
next
  case False
  note inv = stack_invD [OF assms(2)]
  let ?n = "unat (st_num s)"
  define d where "d = (if st_num s \<ge> 2 then qsort (call_cmp cmp) (take ?n (st_data s)) @ drop ?n (st_data s)
      else st_data s)"
  have q: "mset (qsort (call_cmp cmp) (elems s)) = mset (elems s)" "in_order (call_cmp cmp) (qsort (call_cmp cmp) (elems s))"
    using assms(1,4) by (simp_all add: qsort_ok_def)
  then have l: "length (qsort (call_cmp cmp) (elems s)) = ?n" using inv(4) by (metis size_mset)
  have d: "length d = length (st_data s) \<and> mset (take ?n d) = mset (elems s) \<and> in_order (call_cmp cmp) (take ?n d)"
  proof (cases "st_num s \<ge> 2")
    case True
    then have "d = qsort (call_cmp cmp) (elems s) @ drop ?n (st_data s)" by (simp add: d_def elems_def)
    then show ?thesis using q l inv by simp
  next
    case False
    then have "?n < 2" by (simp add: word_le_nat_alt)
    then show ?thesis using False inv by (auto simp: d_def elems_def in_order_def)
  qed
  have "sk_sort qsort call_cmp (Some s) = Some (s\<lparr>st_data := d, st_sorted := True\<rparr>)"
    using False assms(3) by (simp add: sk_sort_def d_def Let_def)
  then show ?thesis using d inv assms(2,3) by (simp add: stack_inv_def elems_def sorted_ok_def)
qed

lemma remove_nth_in_order: "in_order c xs \<Longrightarrow> in_order c (remove_nth i xs)"
proof (cases "i < length xs")
  case True
  assume o: "in_order c xs"
  let ?f = "\<lambda>k. if k < i then k else k + 1"
  have "remove_nth i xs ! k = xs ! ?f k" if "k < length xs - 1" for k
    using True that by (simp add: remove_nth_def nth_append)
  moreover have "length (remove_nth i xs) = length xs - 1" using True by (simp add: remove_nth_def)
  ultimately show ?thesis using o True by (auto simp: in_order_def)
qed (simp add: remove_nth_def)

lemma sk_delete_sorted:
  assumes "stack_inv s" and "sorted_ok call_cmp s" and "sk_delete (Some s) w = (v, Some s')"
  shows "sorted_ok call_cmp s'"
proof (cases "unat w < length (elems s)")
  case True
  from sk_delete_eq [OF assms(1) True] obtain t where t: "sk_delete (Some s) w = (elems s ! unat w, Some t)"
    "elems t = remove_nth (unat w) (elems s)" "st_sorted t = st_sorted s" "st_comp t = st_comp s"
    by (metis remove_nth_def)
  then have "s' = t" using assms(3) by simp
  then show ?thesis using t assms(2) remove_nth_in_order by (auto simp: sorted_ok_def)
next
  case False
  then show ?thesis using assms by (simp add: sk_delete_def num_le)
qed

lemma exec_keeps_sorted:
  assumes "stack_inv s" and "sorted_ok call_cmp s" and "length (elems s) + 2 < 2 ^ 59"
    and "\<forall>i p. x \<noteq> Set i p" and "exec A x (Some s) = (v, Some s')"
  shows "sorted_ok call_cmp s'"
proof -
  have ins: "sorted_ok call_cmp t" if "sk_insert A (Some s) p w = (u, Some t)" for p w u t
    by (rule sk_insert_cases [OF assms(1,3), of A p w]) (use that assms(2) in \<open>auto simp: sorted_ok_def\<close>)
  note del = sk_delete_sorted [OF assms(1,2)]
  from assms(5) show ?thesis
  proof (cases x)
    case (Delete_ptr p)
    with assms(2,5) show ?thesis by (auto simp: sk_delete_ptr_def split: option.splits dest: del)
  next
    case Zero
    with assms(2,5) show ?thesis by (auto simp: sk_zero_def sorted_ok_def split: if_splits)
  qed (use assms(2,4,5) ins del in \<open>auto simp: sk_push_def sk_pop_def sk_shift_def split: if_splits\<close>)
qed

text \<open>
  C16: \<open>sk_set\<close> does not reset the flag. After storing a large element into the first place of a sorted
  stack, \<open>sk_find\<close> no longer finds an element that is there.
\<close>

definition by_address :: "unit \<Rightarrow> ptr \<Rightarrow> ptr \<Rightarrow> int" where
  "by_address f a b = (if a < b then -1 else if b < a then 1 else 0)"

definition three_sorted :: "unit stack" where
  "three_sorted = \<lparr>st_num = 3, st_data = [1, 2, 3, 0], st_sorted = True, st_num_alloc = 4, st_comp = Some ()\<rparr>"

theorem sk_set_breaks_find:
  "stack_inv three_sorted \<and> sorted_ok by_address three_sorted \<and>
   (\<exists>s'. sk_set (Some three_sorted) 1 9 = (9, Some s') \<and> st_sorted s' \<and> elems s' = [1, 9, 3] \<and>
      sk_find by_address (Some s') 3 = None)"
proof (intro conjI exI)
  let ?s = "three_sorted\<lparr>st_data := [1, 9, 3, 0]\<rparr>"
  show "stack_inv three_sorted" by (simp add: three_sorted_def stack_inv_def)
  have "elems three_sorted = [1, 2, 3]" by (simp add: three_sorted_def elems_def)
  then show "sorted_ok by_address three_sorted"
    by (simp add: sorted_ok_def three_sorted_def in_order_Cons in_order_Nil by_address_def)
  show "sk_set (Some three_sorted) 1 9 = (9, Some ?s)"
    by (simp add: sk_set_def three_sorted_def word_le_nat_alt)
  show "st_sorted ?s" by (simp add: three_sorted_def)
  show "elems ?s = [1, 9, 3]" by (simp add: three_sorted_def elems_def)
  show "sk_find by_address (Some ?s) 3 = None" by code_simp
qed

section \<open>Copies\<close>

definition owned :: "ptr list \<Rightarrow> ptr multiset" where
  "owned ps = mset (filter (\<lambda>p. p \<noteq> NULL) ps)"

lemma free_copies_owned:
  assumes "i \<le> length d" and "\<And>p w. live (free_elem p w) = live w - {#p#}"
  shows "live (free_copies free_elem d i w) = live w - owned (take i d)"
  using assms(1)
proof (induction i)
  case (Suc i)
  then have "owned (take (Suc i) d) = owned (take i d) + (if d ! i \<noteq> NULL then {#d ! i#} else {#})"
    by (simp add: take_Suc_conv_app_nth owned_def)
  then show ?case using Suc assms(2) by (simp add: free_copies_def)
qed (simp add: free_copies_def owned_def)

lemma copy_loop_owned:
  "\<forall>p w q w'. copy_elem p w = (q, w') \<longrightarrow> live w' = live w + owned [q] \<Longrightarrow>
   \<forall>p w. live (free_elem p w) = live w - {#p#} \<Longrightarrow>
   copy_loop copy_elem free_elem i n d w = (r, w') \<Longrightarrow> n \<le> length d \<Longrightarrow> i \<le> n \<Longrightarrow> live w = L + owned (take i d) \<Longrightarrow>
    (case r of None \<Rightarrow> live w' = L | Some d' \<Rightarrow> live w' = L + owned (take n d') \<and> length d' = length d)"
proof (induction copy_elem free_elem i n d w rule: copy_loop.induct)
  case (1 copy_elem free_elem i n d w)
  note copy = "1.prems"(1) and free = "1.prems"(2)
  show ?case
  proof (cases "i < n")
    case False
    then show ?thesis using "1.prems" by (auto simp: copy_loop.simps)
  next
    case True
    then have i: "i < length d" using "1.prems"(4) by simp
    have step: "owned (take (Suc i) (d[i := q])) = owned (take i d) + owned [q]" for q
      using i by (simp add: take_Suc_conv_app_nth owned_def)
    show ?thesis
    proof (cases "d ! i = NULL")
      case null: True
      have "owned (take (Suc i) d) = owned (take i d)"
        using step [of NULL] null i by (simp add: owned_def) (metis list_update_id)
      then show ?thesis
        using "1.IH"(1) [OF True null copy free] "1.prems" True null by (subst (asm) copy_loop.simps) auto
    next
      case False
      obtain q w1 where q: "copy_elem (d ! i) w = (q, w1)" by (cases "copy_elem (d ! i) w")
      have w1: "live w1 = L + owned (take i d) + owned [q]" using copy q "1.prems"(6) by simp
      show ?thesis
      proof (cases "q = NULL")
        case fail: True
        then have "live (free_copies free_elem d i w1) = L"
          using free_copies_owned [of i d live free_elem w1] free i w1 by (simp add: owned_def)
        moreover have "(r, w') = (None, free_copies free_elem d i w1)"
          using "1.prems"(3) True False q fail by (subst (asm) copy_loop.simps) simp
        ultimately show ?thesis by simp
      next
        case ok: False
        have "copy_loop copy_elem free_elem (Suc i) n (d[i := q]) w1 = (r, w')"
          using "1.prems"(3) True False q ok by (subst (asm) copy_loop.simps) simp
        from "1.IH"(2) [OF True False q [symmetric] ok copy free this] "1.prems"(4) True w1 step [of q]
        show ?thesis by (cases r) (simp_all add: add.assoc)
      qed
    qed
  qed
qed

lemma sk_dup_eq:
  assumes s: "stack_inv s" and "sk_dup A (Some s) = Some t"
  shows "stack_inv t \<and> elems t = elems s \<and> st_sorted t = st_sorted s \<and> st_comp t = st_comp s"
proof -
  note inv = stack_invD [OF s]
  from assms(2) obtain new d where new: "sk_new A (st_comp s) = Some new"
    and d: "realloc_ptrs A (st_data new) (st_num_alloc s * sizeof_ptr) = Some d"
    and t: "t = new\<lparr>st_num := st_num s, st_data := take (unat (st_num s)) (st_data s) @ drop (unat (st_num s)) d,
                    st_sorted := st_sorted s, st_num_alloc := st_num_alloc s, st_comp := st_comp s\<rparr>"
    by (auto simp: sk_dup_def mult.commute split: option.splits)
  obtain ps where "malloc_ptrs A (st_num_alloc s * sizeof_ptr) = Some ps" "length d = length ps"
    using d by (auto simp: realloc_ptrs_def)
  then have "length d = unat (st_num_alloc s)" using malloc_ptrs_length [of A "st_num_alloc s" ps] inv(3) by simp
  then show ?thesis unfolding t using inv s by (simp add: stack_inv_def elems_def)
qed

text \<open>Copying the elements of a list in order, stopping at the first copy that fails; \<open>NULL\<close> stays.\<close>

fun copy_each :: "(ptr \<Rightarrow> 'w \<Rightarrow> ptr \<times> 'w) \<Rightarrow> ptr list \<Rightarrow> 'w \<Rightarrow> ptr list option \<times> 'w" where
  "copy_each copy_elem [] w = (Some [], w)"
| "copy_each copy_elem (p # ps) w =
     (if p = NULL then (case copy_each copy_elem ps w of (r, w') \<Rightarrow> (map_option (\<lambda>qs. NULL # qs) r, w'))
      else (case copy_elem p w of (q, w1) \<Rightarrow>
        if q = NULL then (None, w1)
        else (case copy_each copy_elem ps w1 of (r, w') \<Rightarrow> (map_option (\<lambda>qs. q # qs) r, w'))))"

definition copy_of :: "(ptr \<Rightarrow> 'w \<Rightarrow> ptr \<times> 'w) \<Rightarrow> ptr \<Rightarrow> ptr \<Rightarrow> bool" where
  "copy_of copy_elem p q \<longleftrightarrow>
     (if p = NULL then q = NULL else q \<noteq> NULL \<and> (\<exists>w w'. copy_elem p w = (q, w')))"

lemma copy_each_copies:
  "copy_each copy_elem ps w = (Some qs, w') \<Longrightarrow> list_all2 (copy_of copy_elem) ps qs"
proof (induction ps arbitrary: qs w)
  case (Cons p ps)
  show ?case
  proof (cases "p = NULL")
    case True
    then obtain z where z: "copy_each copy_elem ps w = (Some z, w')" "qs = NULL # z"
      using Cons.prems by (auto split: prod.splits)
    have "list_all2 (copy_of copy_elem) ps z" by (rule Cons.IH [OF z(1)])
    then show ?thesis using True z(2) by (simp add: copy_of_def [of copy_elem NULL NULL])
  next
    case False
    obtain q w1 where "copy_elem p w = (q, w1)" by (cases "copy_elem p w")
    moreover from this False Cons.prems obtain z where "copy_each copy_elem ps w1 = (Some z, w')" "qs = q # z" "q \<noteq> NULL"
      by (auto split: prod.splits if_splits)
    ultimately show ?thesis using False Cons.IH [of w1 z] by (auto simp: copy_of_def)
  qed
qed simp

lemma copy_loop_each:
  "n \<le> length d \<Longrightarrow> i \<le> n \<Longrightarrow>
   (case copy_each copy_elem (take (n - i) (drop i d)) w of
      (None, _) \<Rightarrow> fst (copy_loop copy_elem free_elem i n d w) = None
    | (Some qs, w') \<Rightarrow> copy_loop copy_elem free_elem i n d w = (Some (take i d @ qs @ drop n d), w'))"
proof (induction copy_elem free_elem i n d w rule: copy_loop.induct)
  case (1 copy_elem free_elem i n d w)
  show ?case
  proof (cases "i < n")
    case False
    then show ?thesis using "1.prems" by (simp add: copy_loop.simps)
  next
    case True
    then have i: "i < length d" using "1.prems"(1) by simp
    have l: "take (n - i) (drop i d) = d ! i # take (n - Suc i) (drop (Suc i) d)"
      using True i by (metis Cons_nth_drop_Suc Suc_diff_Suc take_Suc_Cons)
    show ?thesis
    proof (cases "d ! i = NULL")
      case null: True
      have "take (Suc i) d = take i d @ [NULL]" using i null by (simp add: take_Suc_conv_app_nth)
      then show ?thesis
        using "1.IH"(1) [OF True null "1.prems"(1)] True null
        by (subst copy_loop.simps, subst (2) copy_loop.simps) (simp add: l split: prod.splits option.splits)
    next
      case False
      obtain q w1 where q: "copy_elem (d ! i) w = (q, w1)" by (cases "copy_elem (d ! i) w")
      show ?thesis
      proof (cases "q = NULL")
        case fail: True
        then show ?thesis using True False q by (simp add: l copy_loop.simps)
      next
        case ok: False
        have "take (Suc i) (d[i := q]) = take i d @ [q]" "drop n (d[i := q]) = drop n d"
          "drop (Suc i) (d[i := q]) = drop (Suc i) d"
          using i True by (simp_all add: take_Suc_conv_app_nth)
        then show ?thesis
          using "1.IH"(2) [OF True False q [symmetric] ok] "1.prems"(1) True False q ok
          by (subst copy_loop.simps, subst (2) copy_loop.simps) (simp add: l split: prod.splits option.splits)
      qed
    qed
  qed
qed

lemma sk_deep_copy_each:
  assumes s: "stack_inv s" and r: "sk_deep_copy A copy_elem free_elem (Some s) w = (r, w')"
  shows "case r of
      None \<Rightarrow> sk_dup A (Some s) = None \<or> fst (copy_each copy_elem (elems s) w) = None
    | Some t \<Rightarrow> stack_inv t \<and> st_sorted t = st_sorted s \<and> st_comp t = st_comp s \<and>
        copy_each copy_elem (elems s) w = (Some (elems t), w')"
proof (cases "sk_dup A (Some s)")
  case None
  then show ?thesis using r by (auto simp: sk_deep_copy_def)
next
  case (Some t)
  note t = sk_dup_eq [OF s Some]
  note inv = stack_invD [OF t [THEN conjunct1]]
  have "unat (st_num t) \<le> length (st_data t)" using inv by simp
  from copy_loop_each [OF this le0, where copy_elem = copy_elem and w = w and free_elem = free_elem]
  have c: "case copy_each copy_elem (elems s) w of
      (None, _) \<Rightarrow> fst (copy_loop copy_elem free_elem 0 (unat (st_num t)) (st_data t) w) = None
    | (Some qs, w') \<Rightarrow> copy_loop copy_elem free_elem 0 (unat (st_num t)) (st_data t) w =
        (Some (qs @ drop (unat (st_num t)) (st_data t)), w')"
    using t by (simp add: elems_def split: prod.splits option.splits)
  show ?thesis
  proof (cases "copy_each copy_elem (elems s) w")
    case (Pair qs v)
    show ?thesis
    proof (cases qs)
      case None
      then show ?thesis using Pair c Some r by (auto simp: sk_deep_copy_def split: prod.splits option.splits)
    next
      case q: (Some ps)
      have l: "length ps = unat (st_num t)"
        using copy_each_copies [of copy_elem "elems s" w ps v] Pair q t inv(4) by (auto dest: list_all2_lengthD)
      then have "r = Some (t\<lparr>st_data := ps @ drop (unat (st_num t)) (st_data t)\<rparr>) \<and> w' = v"
        using Pair q c Some r by (simp add: sk_deep_copy_def)
      then show ?thesis using Pair q l t inv by (simp add: stack_inv_def elems_def)
    qed
  qed
qed

text \<open>
  C17: \<open>sk_deep_copy\<close> returns a stack with the flag and the comparison function of the source, whose element
  at every index is the copy of the source's element there, or \<open>NULL\<close> for \<open>NULL\<close>; the copying function is
  called once for each of them, in order. Nothing leaks and nothing is freed twice: exactly these
  copies have been added to what is allocated. When it fails, because the stack cannot be allocated
  or because a copy fails, every copy made so far has been freed once and the allocations are those of before.
\<close>

theorem deep_copy_owned:
  assumes "stack_inv s"
    and "\<And>p w q w'. copy_elem p w = (q, w') \<Longrightarrow> live w' = live w + owned [q]"
    and "\<And>p w. live (free_elem p w) = live w - {#p#}"
    and "sk_deep_copy A copy_elem free_elem (Some s) w = (r, w')"
  shows "case r of
      None \<Rightarrow> live w' = live w \<and>
        (sk_dup A (Some s) = None \<or> fst (copy_each copy_elem (elems s) w) = None)
    | Some t \<Rightarrow> stack_inv t \<and> list_all2 (copy_of copy_elem) (elems s) (elems t) \<and>
        copy_each copy_elem (elems s) w = (Some (elems t), w') \<and>
        st_sorted t = st_sorted s \<and> st_comp t = st_comp s \<and> live w' = live w + owned (elems t)"
proof -
  note each = sk_deep_copy_each [OF assms(1,4)]
  show ?thesis
  proof (cases "sk_dup A (Some s)")
    case None
    then show ?thesis using assms(4) by (auto simp: sk_deep_copy_def)
  next
    case (Some t)
    then have t: "stack_inv t" "elems t = elems s" using sk_dup_eq [OF assms(1)] by blast+
    note inv = stack_invD [OF t(1)]
    obtain res w1 where l: "copy_loop copy_elem free_elem 0 (unat (st_num t)) (st_data t) w = (res, w1)"
      by (metis prod.exhaust)
    have le: "unat (st_num t) \<le> length (st_data t)" using inv by simp
    have c: "case res of None \<Rightarrow> live w1 = live w
        | Some d' \<Rightarrow> live w1 = live w + owned (take (unat (st_num t)) d') \<and> length d' = length (st_data t)"
      using copy_loop_owned [where live = live and L = "live w", OF _ _ l le] assms(2,3) by (simp add: owned_def)
    show ?thesis
    proof (cases res)
      case None
      then show ?thesis using each c l Some assms(4) by (auto simp: sk_deep_copy_def)
    next
      case (Some d)
      then have "r = Some (t\<lparr>st_data := d\<rparr>)" "w' = w1"
        using l \<open>sk_dup A (Some s) = Some t\<close> assms(4) by (auto simp: sk_deep_copy_def)
      moreover have "elems (t\<lparr>st_data := d\<rparr>) = take (unat (st_num t)) d" by (simp add: elems_def)
      ultimately show ?thesis using c Some each by (auto dest: copy_each_copies)
    qed
  qed
qed


section \<open>Sequences with sorting and copies\<close>

datatype 'f any_op = Plain stack_op | Sort | Set_cmp_func "'f option" | Dup | Deep_copy

fun exec_any ::
  "allocator \<Rightarrow> ((ptr \<Rightarrow> ptr \<Rightarrow> int) \<Rightarrow> ptr list \<Rightarrow> ptr list) \<Rightarrow> ('f \<Rightarrow> ptr \<Rightarrow> ptr \<Rightarrow> int) \<Rightarrow>
   (ptr \<Rightarrow> 'w \<Rightarrow> ptr \<times> 'w) \<Rightarrow> (ptr \<Rightarrow> 'w \<Rightarrow> 'w) \<Rightarrow> 'f any_op \<Rightarrow> 'f stack \<Rightarrow> 'w \<Rightarrow> 'f stack option \<times> 'w" where
  "exec_any A qsort call_cmp copy_elem free_elem (Plain x) s w = (snd (exec A x (Some s)), w)"
| "exec_any A qsort call_cmp copy_elem free_elem Sort s w = (sk_sort qsort call_cmp (Some s), w)"
| "exec_any A qsort call_cmp copy_elem free_elem (Set_cmp_func f) s w = (Some (snd (sk_set_cmp_func s f)), w)"
| "exec_any A qsort call_cmp copy_elem free_elem Dup s w = (sk_dup A (Some s), w)"
| "exec_any A qsort call_cmp copy_elem free_elem Deep_copy s w = sk_deep_copy A copy_elem free_elem (Some s) w"

text \<open>A sequence goes on with the stack an operation leaves, or, when a copy fails, with the one there was.\<close>

fun exec_any_all ::
  "allocator \<Rightarrow> ((ptr \<Rightarrow> ptr \<Rightarrow> int) \<Rightarrow> ptr list \<Rightarrow> ptr list) \<Rightarrow> ('f \<Rightarrow> ptr \<Rightarrow> ptr \<Rightarrow> int) \<Rightarrow>
   (ptr \<Rightarrow> 'w \<Rightarrow> ptr \<times> 'w) \<Rightarrow> (ptr \<Rightarrow> 'w \<Rightarrow> 'w) \<Rightarrow> 'f any_op list \<Rightarrow> 'f stack \<Rightarrow> 'w \<Rightarrow> 'f stack \<times> 'w" where
  "exec_any_all A qsort call_cmp copy_elem free_elem [] s w = (s, w)"
| "exec_any_all A qsort call_cmp copy_elem free_elem (x # ops) s w =
     (case exec_any A qsort call_cmp copy_elem free_elem x s w of
        (None, w') \<Rightarrow> exec_any_all A qsort call_cmp copy_elem free_elem ops s w'
      | (Some t, w') \<Rightarrow> exec_any_all A qsort call_cmp copy_elem free_elem ops t w')"

lemma exec_keeps:
  assumes "stack_inv s" and "length (elems s) + 2 < 2 ^ 59"
  shows "\<exists>t. snd (exec A x (Some s)) = Some t \<and> stack_inv t \<and> length (elems t) \<le> length (elems s) + 1"
proof -
  have ins: "\<exists>t. snd (sk_insert A (Some s) p w) = Some t \<and> stack_inv t \<and> length (elems t) \<le> length (elems s) + 1"
    for p w
    by (rule sk_insert_cases [OF assms, of A p w]) (use assms(1) in auto)
  have "alloc_ok malloc_total m" for m by simp
  then have total: "\<exists>t. snd (exec malloc_total x (Some s)) = Some t \<and> stack_inv t \<and> length (elems t) \<le> length (elems s) + 1"
    using exec_spec [OF assms, of malloc_total x] spec_length [of x "elems s"] by fastforce
  show ?thesis
    by (cases x) (use ins total in \<open>auto simp: sk_push_def\<close>)
qed

lemma set_cmp_func_keeps:
  "stack_inv s \<Longrightarrow> sorted_ok call_cmp s \<Longrightarrow>
   stack_inv (snd (sk_set_cmp_func s f)) \<and> elems (snd (sk_set_cmp_func s f)) = elems s \<and>
   sorted_ok call_cmp (snd (sk_set_cmp_func s f))"
  by (auto simp: sk_set_cmp_func_def Let_def stack_inv_def elems_def sorted_ok_def)

text \<open>The copies compare as the originals do.\<close>

definition copies_alike :: "('f \<Rightarrow> ptr \<Rightarrow> ptr \<Rightarrow> int) \<Rightarrow> (ptr \<Rightarrow> 'w \<Rightarrow> ptr \<times> 'w) \<Rightarrow> bool" where
  "copies_alike call_cmp copy_elem \<longleftrightarrow>
     (\<forall>f a b p q. copy_of copy_elem a p \<longrightarrow> copy_of copy_elem b q \<longrightarrow> call_cmp f p q = call_cmp f a b)"

lemma in_order_copies:
  assumes "in_order c xs" and "list_all2 R xs ys"
    and "\<And>a b p q. R a p \<Longrightarrow> R b q \<Longrightarrow> c p q = c a b"
  shows "in_order c ys"
proof -
  have "c (ys ! i) (ys ! j) = c (xs ! i) (xs ! j)" if "i < j" "j < length ys" for i j
    using that assms(2,3) by (auto simp: list_all2_conv_all_nth)
  then show ?thesis using assms(1) list_all2_lengthD [OF assms(2)] by (simp add: in_order_def)
qed

lemma exec_any_keeps:
  assumes s: "stack_inv s" "sorted_ok call_cmp s" "length (elems s) + 2 < 2 ^ 59"
    and x: "\<forall>i p. x \<noteq> Plain (Set i p)"
    and q: "qsort_ok qsort" and c: "\<forall>f. cmp_ok (call_cmp f)"
    and alike: "copies_alike call_cmp copy_elem"
    and r: "exec_any A qsort call_cmp copy_elem free_elem x s w = (Some t, w')"
  shows "stack_inv t \<and> sorted_ok call_cmp t \<and> length (elems t) \<le> length (elems s) + 1"
proof (cases x)
  case (Plain y)
  then have e: "exec A y (Some s) = (fst (exec A y (Some s)), Some t)" using r by (simp add: prod_eq_iff)
  from exec_keeps [OF s(1,3), of A y] obtain u where u: "snd (exec A y (Some s)) = Some u" "stack_inv u"
    "length (elems u) \<le> length (elems s) + 1" by blast
  moreover have "sorted_ok call_cmp t" by (rule exec_keeps_sorted [OF s _ e]) (use x Plain in auto)
  moreover have "u = t" using u(1) Plain r by simp
  ultimately show ?thesis by simp
next
  case Sort
  show ?thesis
  proof (cases "st_comp s")
    case None
    then show ?thesis using Sort r s by (auto simp: sk_sort_def)
  next
    case (Some f)
    obtain t' where t': "sk_sort qsort call_cmp (Some s) = Some t'" "stack_inv t'" "mset (elems t') = mset (elems s)"
      "sorted_ok call_cmp t'"
      using sk_sort_sorts [OF q s(1) Some _ s(2)] c by blast
    have "length (elems t') = length (elems s)" using t'(3) by (metis size_mset)
    then show ?thesis using t' Sort r by simp
  qed
next
  case (Set_cmp_func f)
  then show ?thesis using r set_cmp_func_keeps [OF s(1,2), of f] by auto
next
  case Dup
  then show ?thesis using r s(2) sk_dup_eq [OF s(1), of A t] by (auto simp: sorted_ok_def)
next
  case Deep_copy
  then have "sk_deep_copy A copy_elem free_elem (Some s) w = (Some t, w')" using r by simp
  from sk_deep_copy_each [OF s(1) this] have t: "stack_inv t" "st_sorted t = st_sorted s" "st_comp t = st_comp s"
    "list_all2 (copy_of copy_elem) (elems s) (elems t)" by (auto dest: copy_each_copies)
  have "in_order (call_cmp f) (elems s) \<Longrightarrow> in_order (call_cmp f) (elems t)" for f
    by (rule in_order_copies [OF _ t(4)]) (use alike in \<open>auto simp: copies_alike_def\<close>)
  then show ?thesis using s(2) t list_all2_lengthD [OF t(4)] unfolding sorted_ok_def by auto
qed

text \<open>
  C15: The \<open>sorted\<close> flag keeps its promise, that the elements are in the order of the comparison function if
  it is set, through any sequence of operations other than \<open>sk_set\<close>: the changes to the list, \<open>sk_sort\<close>, a
  change of the comparison function, and going on with a copy of the stack. The comparison
  functions order the elements, \<open>qsort\<close> sorts, and the deep copies compare as their originals do.
\<close>

theorem sorted_flag_kept:
  assumes "stack_inv s" and "sorted_ok call_cmp s" and "length (elems s) + length ops + 2 < 2 ^ 59"
    and "\<forall>i p. Plain (Set i p) \<notin> set ops"
    and "qsort_ok qsort" and "\<forall>f. cmp_ok (call_cmp f)"
    and "copies_alike call_cmp copy_elem"
    and "exec_any_all A qsort call_cmp copy_elem free_elem ops s w = (t, w')"
  shows "stack_inv t \<and> sorted_ok call_cmp t"
  using assms
proof (induction ops arbitrary: s w)
  case (Cons x ops)
  have n: "length (elems s) + 2 < 2 ^ 59" "\<forall>i p. x \<noteq> Plain (Set i p)" using Cons.prems(3,4) by auto
  obtain r v where e: "exec_any A qsort call_cmp copy_elem free_elem x s w = (r, v)" by (metis prod.exhaust)
  show ?case
  proof (cases r)
    case None
    show ?thesis
      by (rule Cons.IH [OF Cons.prems(1,2) _ _ Cons.prems(5-7)]) (use Cons.prems(3,4,8) e None in simp_all)
  next
    case (Some s1)
    from exec_any_keeps [OF Cons.prems(1,2) n Cons.prems(5-7) e [unfolded Some]]
    have k: "stack_inv s1" "sorted_ok call_cmp s1" "length (elems s1) \<le> length (elems s) + 1" by simp_all
    show ?thesis
      by (rule Cons.IH [OF k(1,2) _ _ Cons.prems(5-7)]) (use k(3) Cons.prems(3,4,8) e Some in simp_all)
  qed
qed simp

section \<open>Witnesses\<close>

lemma by_address_ok: "cmp_ok (by_address f)"
  by (auto simp: cmp_ok_def by_address_def)

lemma three_sorted_ok: "stack_inv three_sorted" "sorted_ok by_address three_sorted" "elems three_sorted = [1, 2, 3]"
  by (simp_all add: three_sorted_def stack_inv_def elems_def sorted_ok_def in_order_Cons in_order_Nil by_address_def)

theorem sk_push_outcome_witness:
  "sk_push \<lparr>alloc_ok = \<lambda>_. False, junk = \<lambda>_. 0\<rparr> (Some three_sorted) 8 = (0, Some three_sorted) \<and>
   fst (sk_push malloc_total (Some three_sorted) 8) = 4"
proof -
  let ?A = "\<lparr>alloc_ok = \<lambda>_. False, junk = \<lambda>_. 0\<rparr> :: allocator"
  have l: "length (elems three_sorted) + 2 < 2 ^ 59" by (simp add: three_sorted_ok)
  have "fst (sk_push ?A (Some three_sorted) 8) = 0" by code_simp
  then have "sk_push ?A (Some three_sorted) 8 = (0, Some three_sorted)"
    using sk_push_outcome [OF three_sorted_ok(1) l, of ?A 8] by (auto simp: three_sorted_ok(3))
  moreover have "fst (sk_push malloc_total (Some three_sorted) 8) = 4" by code_simp
  ultimately show ?thesis by blast
qed

theorem sk_find_first_witness: "sk_find by_address (Some three_sorted) 2 = Some 1"
proof -
  have "sk_find by_address (Some three_sorted) 2 =
      map_option of_nat (first_index (\<lambda>i. by_address () 2 (elems three_sorted ! i) = 0) (length (elems three_sorted)))"
    by (rule sk_find_first [OF three_sorted_ok(1) _ _ by_address_ok three_sorted_ok(2)])
      (simp_all add: three_sorted_def)
  also have "\<dots> = Some 1" by code_simp
  finally show ?thesis .
qed

text \<open>A sorting function that meets the contract: insertion.\<close>

fun insert_by :: "('a \<Rightarrow> 'a \<Rightarrow> int) \<Rightarrow> 'a \<Rightarrow> 'a list \<Rightarrow> 'a list" where
  "insert_by c x [] = [x]"
| "insert_by c x (y # ys) = (if c x y \<le> 0 then x # y # ys else y # insert_by c x ys)"

definition insertion_sort :: "('a \<Rightarrow> 'a \<Rightarrow> int) \<Rightarrow> 'a list \<Rightarrow> 'a list" where
  "insertion_sort c xs = foldr (insert_by c) xs []"

lemma mset_insert_by: "mset (insert_by c x xs) = add_mset x (mset xs)"
  by (induction xs) auto

lemma in_order_insert_by:
  assumes "cmp_ok c"
  shows "in_order c xs \<Longrightarrow> in_order c (insert_by c x xs)"
proof (induction xs)
  case (Cons y ys)
  have s: "set (insert_by c x ys) = insert x (set ys)" using mset_insert_by [of c x ys] by (metis set_mset_add_mset_insert set_mset_mset)
  show ?case
  proof (cases "c x y \<le> 0")
    case True
    then show ?thesis using Cons.prems assms by (auto simp: in_order_Cons cmp_ok_def)
  next
    case False
    then have "c y x \<le> 0" using assms unfolding cmp_ok_def by (metis linorder_not_less not_less_iff_gr_or_eq order_le_less)
    then show ?thesis using False Cons s by (simp add: in_order_Cons)
  qed
qed (simp add: in_order_Cons in_order_Nil)

lemma insertion_sort_ok: "qsort_ok insertion_sort"
proof -
  have "mset (insertion_sort c xs) = mset xs \<and> (cmp_ok c \<longrightarrow> in_order c (insertion_sort c xs))" for c :: "'a \<Rightarrow> 'a \<Rightarrow> int" and xs
    by (induction xs) (simp_all add: insertion_sort_def mset_insert_by in_order_insert_by in_order_Nil)
  then show ?thesis by (simp add: qsort_ok_def)
qed

theorem sk_sort_sorts_witness:
  "\<exists>s'. sk_sort insertion_sort by_address (Some (three_sorted\<lparr>st_data := [2, 3, 1, 0], st_sorted := False\<rparr>)) = Some s' \<and>
     st_sorted s' \<and> mset (elems s') = {#1, 2, 3#}"
proof -
  let ?s = "three_sorted\<lparr>st_data := [2, 3, 1, 0], st_sorted := False\<rparr>"
  have "stack_inv ?s" "st_comp ?s = Some ()" "sorted_ok by_address ?s"
    by (simp_all add: three_sorted_def stack_inv_def sorted_ok_def)
  moreover have "mset (elems ?s) = {#1, 2, 3#}" by (simp add: elems_def three_sorted_def)
  ultimately show ?thesis using sk_sort_sorts [OF insertion_sort_ok, of ?s "()" by_address] by_address_ok by auto
qed

theorem sorted_flag_kept_witness:
  "\<exists>t. exec_any_all malloc_total insertion_sort by_address (\<lambda>p w. (p, w)) (\<lambda>p w. w)
      [Plain (Push 2), Sort, Deep_copy, Plain Shift] three_sorted () = (t, ()) \<and> st_sorted t \<and>
    sorted_ok by_address t \<and> elems t = [2, 2, 3]"
proof -
  let ?r = "exec_any_all malloc_total insertion_sort by_address (\<lambda>p w. (p, w)) (\<lambda>p w. w)
      [Plain (Push 2), Sort, Deep_copy, Plain Shift] three_sorted ()"
  obtain t where r: "?r = (t, ())" by (metis old.unit.exhaust prod.exhaust)
  have alike: "copies_alike by_address (\<lambda>p w :: unit. (p, w))"
    by (auto simp: copies_alike_def copy_of_def)
  have "stack_inv t \<and> sorted_ok by_address t"
    by (rule sorted_flag_kept [OF three_sorted_ok(1,2) _ _ insertion_sort_ok _ alike r])
      (simp_all add: three_sorted_ok by_address_ok)
  moreover have "elems (fst ?r) = [2, 2, 3]" "st_sorted (fst ?r)" by code_simp+
  then have "elems t = [2, 2, 3]" "st_sorted t" unfolding r by simp_all
  ultimately show ?thesis using r by blast
qed

text \<open>Copies that succeed once: the second one fails and the first is freed.\<close>

definition copy_once :: "ptr \<Rightarrow> ptr list \<times> nat \<Rightarrow> ptr \<times> (ptr list \<times> nat)" where
  "copy_once p w = (case snd w of 0 \<Rightarrow> (NULL, w) | Suc n \<Rightarrow>
     (let q = p + 100 in (q, (if q = NULL then fst w else q # fst w, n))))"

definition free_one :: "ptr \<Rightarrow> ptr list \<times> nat \<Rightarrow> ptr list \<times> nat" where
  "free_one p w = (remove1 p (fst w), snd w)"

theorem deep_copy_owned_witness:
  "\<exists>w' t v. sk_deep_copy malloc_total copy_once free_one (Some three_sorted) ([], 1) = (None, w') \<and> mset (fst w') = {#} \<and>
     sk_deep_copy malloc_total copy_once free_one (Some three_sorted) ([], 3) = (Some t, v) \<and>
     elems t = [101, 102, 103] \<and> mset (fst v) = {#101, 102, 103#}"
proof -
  have copy: "copy_once p w = (q, w') \<Longrightarrow> mset (fst w') = mset (fst w) + owned [q]" for p w q w'
    by (auto simp: copy_once_def owned_def Let_def split: nat.splits if_splits)
  have free: "mset (fst (free_one p w)) = mset (fst w) - {#p#}" for p w
    by (simp add: free_one_def)
  have owned: "case r of None \<Rightarrow> mset (fst w') = mset (fst w)
      | Some t \<Rightarrow> mset (fst w') = mset (fst w) + owned (elems t)"
    if e: "sk_deep_copy malloc_total copy_once free_one (Some three_sorted) w = (r, w')" for r w w'
    using deep_copy_owned [where live = "\<lambda>w. mset (fst w)", OF three_sorted_ok(1) _ _ e] copy free
    by (auto split: option.splits)
  obtain r w' where r: "sk_deep_copy malloc_total copy_once free_one (Some three_sorted) ([], 1) = (r, w')"
    by (metis prod.exhaust)
  have "fst (sk_deep_copy malloc_total copy_once free_one (Some three_sorted) ([], 1)) = None" by code_simp
  then have n: "r = None" using r by simp
  obtain q v where q: "sk_deep_copy malloc_total copy_once free_one (Some three_sorted) ([], 3) = (q, v)"
    by (metis prod.exhaust)
  have "map_option elems (fst (sk_deep_copy malloc_total copy_once free_one (Some three_sorted) ([], 3))) =
      Some [101, 102, 103]" by code_simp
  then obtain t where t: "q = Some t" "elems t = [101, 102, 103]" using q by auto
  have "mset (fst w') = {#}" using owned [OF r] n by simp
  moreover have "mset (fst v) = {#101, 102, 103#}" using owned [OF q] t by (simp add: owned_def)
  ultimately show ?thesis using r n q t by blast
qed

end
