(* ===== verification/Lhash.thy ===== *)
theory Lhash
  imports Mem "HOL-Library.Multiset"
begin

text \<open>
  \<open>crypto/lhash/lhash.c\<close>: the chaining hash table that grows and shrinks with its contents. The
  contract of the hash and comparison functions is a locale, and so is the interface of a keyed
  collection that the table provides under that contract.
\<close>

section \<open>The table and its operations\<close>

text \<open>The \<open>next\<close> pointers of a chain make it a list. \<open>hash\<close> and \<open>comp\<close> are function pointers, called
  through the helpers \<open>call_hash_func\<close> and \<open>call_cmp_func\<close>; \<open>'d\<close> is what \<open>void *data\<close> points to.\<close>

record 'd lhash_item =
  item_data :: 'd
  item_hash :: u32

record ('d, 'h, 'c) lhash =
  num_items :: size_t
  buckets :: "'d lhash_item list list"
  num_buckets :: size_t
  callback_depth :: u32
  lh_comp :: 'c
  lh_hash :: 'h

definition kMinNumBuckets :: size_t where "kMinNumBuckets = 16"
definition kMaxAverageChainLength :: size_t where "kMaxAverageChainLength = 2"
definition kMinAverageChainLength :: size_t where "kMinAverageChainLength = 1"

text \<open>Sizes of \<open>_LHASH\<close>, \<open>LHASH_ITEM\<close> and a pointer on the 64-bit targets.\<close>

definition sizeof_lhash :: size_t where "sizeof_lhash = 48"
definition sizeof_item :: size_t where "sizeof_item = 24"
definition sizeof_bucket :: size_t where "sizeof_bucket = 8"

definition lh_new :: "allocator \<Rightarrow> 'h \<Rightarrow> 'c \<Rightarrow> ('d, 'h, 'c) lhash option" where
  "lh_new A hash cmp =
     (case OPENSSL_malloc A sizeof_lhash of
        None \<Rightarrow> None
      | Some _ \<Rightarrow>
          (case OPENSSL_malloc A (sizeof_bucket * kMinNumBuckets) of
             None \<Rightarrow> None
           | Some _ \<Rightarrow>
               Some \<lparr>num_items = 0, buckets = replicate (unat kMinNumBuckets) [], num_buckets = kMinNumBuckets,
                     callback_depth = 0, lh_comp = cmp, lh_hash = hash\<rparr>))"

definition lh_num_items :: "('d, 'h, 'c) lhash \<Rightarrow> size_t" where
  "lh_num_items lh = num_items lh"

text \<open>The loop along a chain: how many links it follows before it stops at a match or at the end.\<close>

fun chain_pos :: "('d \<Rightarrow> bool) \<Rightarrow> 'd lhash_item list \<Rightarrow> nat" where
  "chain_pos match [] = 0"
| "chain_pos match (cur # chain) = (if match (item_data cur) then 0 else Suc (chain_pos match chain))"

text \<open>A \<open>LHASH_ITEM **\<close> is a bucket and a position in its chain; at the end of the chain, it points to
  the \<open>NULL\<close> there.\<close>

type_synonym link = "nat \<times> nat"

definition get_next_ptr_and_hash ::
  "('h \<Rightarrow> 'd \<Rightarrow> u32) \<Rightarrow> ('c \<Rightarrow> 'd \<Rightarrow> 'd \<Rightarrow> int) \<Rightarrow> ('d, 'h, 'c) lhash \<Rightarrow> 'd \<Rightarrow> link \<times> u32" where
  "get_next_ptr_and_hash call_hash call_cmp lh data =
     (let hash = call_hash (lh_hash lh) data;
          b = unat (ucast hash mod num_buckets lh)
      in ((b, chain_pos (\<lambda>x. call_cmp (lh_comp lh) x data = 0) (buckets lh ! b)), hash))"

definition get_next_ptr_by_key ::
  "('d, 'h, 'c) lhash \<Rightarrow> 'k \<Rightarrow> u32 \<Rightarrow> ('k \<Rightarrow> 'd \<Rightarrow> int) \<Rightarrow> link" where
  "get_next_ptr_by_key lh key key_hash cmp_key =
     (let b = unat (ucast key_hash mod num_buckets lh)
      in (b, chain_pos (\<lambda>x. cmp_key key x = 0) (buckets lh ! b)))"

text \<open>\<open>*next_ptr\<close>.\<close>

definition link_item :: "('d, 'h, 'c) lhash \<Rightarrow> link \<Rightarrow> 'd lhash_item option" where
  "link_item lh = (\<lambda>(b, i). if i < length (buckets lh ! b) then Some (buckets lh ! b ! i) else None)"

definition lh_retrieve ::
  "('h \<Rightarrow> 'd \<Rightarrow> u32) \<Rightarrow> ('c \<Rightarrow> 'd \<Rightarrow> 'd \<Rightarrow> int) \<Rightarrow> ('d, 'h, 'c) lhash \<Rightarrow> 'd \<Rightarrow> 'd option" where
  "lh_retrieve call_hash call_cmp lh data =
     (case get_next_ptr_and_hash call_hash call_cmp lh data of
        (next_ptr, _) \<Rightarrow> map_option item_data (link_item lh next_ptr))"

definition lh_retrieve_key ::
  "('d, 'h, 'c) lhash \<Rightarrow> 'k \<Rightarrow> u32 \<Rightarrow> ('k \<Rightarrow> 'd \<Rightarrow> int) \<Rightarrow> 'd option" where
  "lh_retrieve_key lh key key_hash cmp_key =
     map_option item_data (link_item lh (get_next_ptr_by_key lh key key_hash cmp_key))"

text \<open>Each item moves to the front of its new chain.\<close>

definition move_item :: "size_t \<Rightarrow> 'd lhash_item \<Rightarrow> 'd lhash_item list list \<Rightarrow> 'd lhash_item list list" where
  "move_item n cur bs = (let i = unat (ucast (item_hash cur) mod n) in bs[i := cur # bs ! i])"

definition lh_rebucket :: "allocator \<Rightarrow> ('d, 'h, 'c) lhash \<Rightarrow> size_t \<Rightarrow> ('d, 'h, 'c) lhash" where
  "lh_rebucket A lh new_num_buckets =
     (let alloc_size = sizeof_bucket * new_num_buckets in
      if alloc_size div sizeof_bucket \<noteq> new_num_buckets then lh
      else case OPENSSL_malloc A alloc_size of
             None \<Rightarrow> lh
           | Some _ \<Rightarrow>
               lh\<lparr>buckets := fold (\<lambda>chain bs. fold (move_item new_num_buckets) chain bs) (buckets lh)
                    (replicate (unat new_num_buckets) []),
                  num_buckets := new_num_buckets\<rparr>)"

definition lh_maybe_resize :: "allocator \<Rightarrow> ('d, 'h, 'c) lhash \<Rightarrow> ('d, 'h, 'c) lhash" where
  "lh_maybe_resize A lh =
     (if callback_depth lh > 0 then lh
      else
        (let avg_chain_length = num_items lh div num_buckets lh in
         if avg_chain_length > kMaxAverageChainLength then
           (let new_num_buckets = num_buckets lh * 2 in
            if new_num_buckets > num_buckets lh then lh_rebucket A lh new_num_buckets else lh)
         else if avg_chain_length < kMinAverageChainLength \<and> num_buckets lh > kMinNumBuckets then
           (let new_num_buckets = num_buckets lh div 2;
                new_num_buckets = (if new_num_buckets < kMinNumBuckets then kMinNumBuckets else new_num_buckets)
            in lh_rebucket A lh new_num_buckets)
         else lh))"

definition update_chain ::
  "nat \<Rightarrow> ('d lhash_item list \<Rightarrow> 'd lhash_item list) \<Rightarrow> ('d, 'h, 'c) lhash \<Rightarrow> ('d, 'h, 'c) lhash" where
  "update_chain b f lh = lh\<lparr>buckets := (buckets lh)[b := f (buckets lh ! b)]\<rparr>"

text \<open>The result is the return value, \<open>*old_data\<close> and the table.\<close>

definition lh_insert ::
  "allocator \<Rightarrow> ('h \<Rightarrow> 'd \<Rightarrow> u32) \<Rightarrow> ('c \<Rightarrow> 'd \<Rightarrow> 'd \<Rightarrow> int) \<Rightarrow> ('d, 'h, 'c) lhash \<Rightarrow> 'd \<Rightarrow>
   bool \<times> 'd option \<times> ('d, 'h, 'c) lhash" where
  "lh_insert A call_hash call_cmp lh data =
     (case get_next_ptr_and_hash call_hash call_cmp lh data of
        ((b, i), hash) \<Rightarrow>
          (case link_item lh (b, i) of
             Some item \<Rightarrow>
               (True, Some (item_data item), update_chain b (\<lambda>chain. chain[i := item\<lparr>item_data := data\<rparr>]) lh)
           | None \<Rightarrow>
               (case OPENSSL_malloc A sizeof_item of
                  None \<Rightarrow> (False, None, lh)
                | Some _ \<Rightarrow>
                    (let item = \<lparr>item_data = data, item_hash = hash\<rparr>;
                         lh = update_chain b (\<lambda>chain. take i chain @ [item]) lh;
                         lh = lh\<lparr>num_items := num_items lh + 1\<rparr>
                     in (True, None, lh_maybe_resize A lh)))))"

definition lh_delete ::
  "allocator \<Rightarrow> ('h \<Rightarrow> 'd \<Rightarrow> u32) \<Rightarrow> ('c \<Rightarrow> 'd \<Rightarrow> 'd \<Rightarrow> int) \<Rightarrow> ('d, 'h, 'c) lhash \<Rightarrow> 'd \<Rightarrow>
   'd option \<times> ('d, 'h, 'c) lhash" where
  "lh_delete A call_hash call_cmp lh data =
     (case get_next_ptr_and_hash call_hash call_cmp lh data of
        ((b, i), _) \<Rightarrow>
          (case link_item lh (b, i) of
             None \<Rightarrow> (None, lh)
           | Some item \<Rightarrow>
               (let lh = update_chain b (\<lambda>chain. take i chain @ drop (i + 1) chain) lh;
                    lh = lh\<lparr>num_items := num_items lh - 1\<rparr>
                in (Some (item_data item), lh_maybe_resize A lh))))"

text \<open>
  The callback of \<open>lh_doall_arg\<close> sees every item and changes the state \<open>'w\<close> behind \<open>arg\<close>; callbacks that
  change the table itself are outside the model.
\<close>

definition lh_doall_arg ::
  "allocator \<Rightarrow> ('d \<Rightarrow> 'w \<Rightarrow> 'w) \<Rightarrow> ('d, 'h, 'c) lhash option \<Rightarrow> 'w \<Rightarrow> ('d, 'h, 'c) lhash option \<times> 'w" where
  "lh_doall_arg A func lh w =
     (case lh of
        None \<Rightarrow> (None, w)
      | Some lh \<Rightarrow>
          (let lh = (if callback_depth lh < - 1 then lh\<lparr>callback_depth := callback_depth lh + 1\<rparr> else lh);
               w = fold (\<lambda>i w. fold (\<lambda>cur w. func (item_data cur) w) (buckets lh ! i) w)
                     [0..<unat (num_buckets lh)] w;
               lh = (if callback_depth lh < - 1 then lh\<lparr>callback_depth := callback_depth lh - 1\<rparr> else lh)
           in (Some (lh_maybe_resize A lh), w)))"

definition lh_strhash :: "bytes option \<Rightarrow> u32" where
  "lh_strhash c = (case c of None \<Rightarrow> 0 | Some s \<Rightarrow> OPENSSL_hash32 s (of_nat (strlen s)))"

section \<open>Contracts\<close>

text \<open>The comparison function given to \<open>lh_new\<close> decides an equivalence.\<close>

locale equality_contract =
  fixes same :: "'d \<Rightarrow> 'd \<Rightarrow> bool"
  assumes same_refl: "same a a"
    and same_sym: "same a b \<Longrightarrow> same b a"
    and same_trans: "same a b \<Longrightarrow> same b c \<Longrightarrow> same a c"

text \<open>Equal data hash alike.\<close>

locale hash_contract = equality_contract +
  fixes hash :: "'a \<Rightarrow> u32"
  assumes same_hash: "same a b \<Longrightarrow> hash a = hash b"

text \<open>
  A collection that holds at most one datum of each equivalence class, as its clients see it: what a
  lookup returns after an insertion and after a deletion.
\<close>

locale keyed_collection = equality_contract same
  for same :: "'d \<Rightarrow> 'd \<Rightarrow> bool" +
  fixes inv :: "'t \<Rightarrow> bool"
    and retrieve :: "'t \<Rightarrow> 'd \<Rightarrow> 'd option"
    and insert_datum :: "'t \<Rightarrow> 'd \<Rightarrow> 'd option \<times> 't"
    and delete_datum :: "'t \<Rightarrow> 'd \<Rightarrow> 'd option \<times> 't"
  assumes insert_inv: "inv t \<Longrightarrow> inv (snd (insert_datum t d))"
    and insert_old: "inv t \<Longrightarrow> fst (insert_datum t d) = retrieve t d"
    and retrieve_insert: "inv t \<Longrightarrow>
      retrieve (snd (insert_datum t d)) e = (if same d e then Some d else retrieve t e)"
    and delete_inv: "inv t \<Longrightarrow> inv (snd (delete_datum t d))"
    and delete_old: "inv t \<Longrightarrow> fst (delete_datum t d) = retrieve t d"
    and retrieve_delete: "inv t \<Longrightarrow>
      retrieve (snd (delete_datum t d)) e = (if same d e then None else retrieve t e)"

text \<open>The same operations on a list.\<close>

datatype 'd table_op = Insert 'd | Delete 'd | Retrieve 'd

definition list_find :: "('d \<Rightarrow> 'd \<Rightarrow> bool) \<Rightarrow> 'd list \<Rightarrow> 'd \<Rightarrow> 'd option" where
  "list_find same xs d = List.find (\<lambda>x. same x d) xs"

fun list_op :: "('d \<Rightarrow> 'd \<Rightarrow> bool) \<Rightarrow> 'd list \<Rightarrow> 'd table_op \<Rightarrow> 'd option \<times> 'd list" where
  "list_op same xs (Insert d) = (list_find same xs d, d # filter (\<lambda>x. \<not> same d x) xs)"
| "list_op same xs (Delete d) = (list_find same xs d, filter (\<lambda>x. \<not> same d x) xs)"
| "list_op same xs (Retrieve d) = (list_find same xs d, xs)"

text \<open>Performing a list of operations, with the results they return.\<close>

fun perform :: "('t \<Rightarrow> 'o \<Rightarrow> 'r \<times> 't) \<Rightarrow> 't \<Rightarrow> 'o list \<Rightarrow> 'r list \<times> 't" where
  "perform f t [] = ([], t)"
| "perform f t (x # ops) = (case f t x of (r, t') \<Rightarrow> case perform f t' ops of (rs, t'') \<Rightarrow> (r # rs, t''))"

fun collection_op ::
  "('t \<Rightarrow> 'd \<Rightarrow> 'd option) \<Rightarrow> ('t \<Rightarrow> 'd \<Rightarrow> 'd option \<times> 't) \<Rightarrow> ('t \<Rightarrow> 'd \<Rightarrow> 'd option \<times> 't) \<Rightarrow>
   't \<Rightarrow> 'd table_op \<Rightarrow> 'd option \<times> 't" where
  "collection_op retrieve insert_datum delete_datum t (Insert d) = insert_datum t d"
| "collection_op retrieve insert_datum delete_datum t (Delete d) = delete_datum t d"
| "collection_op retrieve insert_datum delete_datum t (Retrieve d) = (retrieve t d, t)"

context keyed_collection
begin

lemma find_filter: "list_find same (filter (\<lambda>x. \<not> same d x) xs) e = (if same d e then None else list_find same xs e)"
proof (induction xs)
  case (Cons x xs)
  have "same d x \<Longrightarrow> same x e \<Longrightarrow> same d e" "same d e \<Longrightarrow> same x e \<Longrightarrow> same d x"
    using same_trans same_sym by blast+
  with Cons show ?case by (auto simp: list_find_def)
qed (simp add: list_find_def)

lemma op_refines_list:
  assumes "inv t" and "\<And>e. retrieve t e = list_find same xs e"
  shows "fst (collection_op retrieve insert_datum delete_datum t x) = fst (list_op same xs x)"
    and "inv (snd (collection_op retrieve insert_datum delete_datum t x))"
    and "retrieve (snd (collection_op retrieve insert_datum delete_datum t x)) e =
      list_find same (snd (list_op same xs x)) e"
proof -
  have "list_find same (d # ys) e = (if same d e then Some d else list_find same ys e)" for d ys
    by (simp add: list_find_def)
  then show "fst (collection_op retrieve insert_datum delete_datum t x) = fst (list_op same xs x)"
    "inv (snd (collection_op retrieve insert_datum delete_datum t x))"
    "retrieve (snd (collection_op retrieve insert_datum delete_datum t x)) e =
      list_find same (snd (list_op same xs x)) e"
    using assms by (cases x; simp add: insert_inv insert_old retrieve_insert delete_inv delete_old retrieve_delete find_filter)+
qed

text \<open>So a history of operations returns what the list returns.\<close>

lemma perform_refines_list:
  assumes "inv t" and "\<And>e. retrieve t e = list_find same xs e"
    and "perform (collection_op retrieve insert_datum delete_datum) t ops = (rs, t')"
  shows "rs = fst (perform (list_op same) xs ops) \<and> inv t' \<and>
    (\<forall>e. retrieve t' e = list_find same (snd (perform (list_op same) xs ops)) e)"
  using assms
proof (induction ops arbitrary: t xs rs)
  case (Cons x ops)
  let ?r = "collection_op retrieve insert_datum delete_datum t x"
  obtain qs where p: "perform (collection_op retrieve insert_datum delete_datum) (snd ?r) ops = (qs, t')"
    "rs = fst ?r # qs" using Cons.prems(3) by (auto split: prod.splits)
  note o = op_refines_list [OF Cons.prems(1,2), of x]
  from Cons.IH [OF o(2) o(3) p(1)] p(2) o(1) show ?case
    by (cases "list_op same xs x") (auto split: prod.splits)
qed auto

end

section \<open>The invariant\<close>

definition lh_contents :: "('d, 'h, 'c) lhash \<Rightarrow> 'd list" where
  "lh_contents lh = map item_data (concat (buckets lh))"

text \<open>Items sit in the bucket of their hash, with the hash of their data cached; no two items are equal;
  the counters count.\<close>

definition placed :: "('d \<Rightarrow> u32) \<Rightarrow> size_t \<Rightarrow> nat \<Rightarrow> 'd lhash_item list \<Rightarrow> bool" where
  "placed hash n b chain \<longleftrightarrow>
     (\<forall>x \<in> set chain. item_hash x = hash (item_data x) \<and> unat (ucast (hash (item_data x)) mod n) = b)"

definition all_placed :: "('d \<Rightarrow> u32) \<Rightarrow> size_t \<Rightarrow> 'd lhash_item list list \<Rightarrow> bool" where
  "all_placed hash n bs \<longleftrightarrow> length bs = unat n \<and> (\<forall>b < unat n. placed hash n b (bs ! b))"

definition apart :: "('d \<Rightarrow> 'd \<Rightarrow> bool) \<Rightarrow> 'd list \<Rightarrow> bool" where
  "apart same xs \<longleftrightarrow> sorted_wrt (\<lambda>x y. \<not> same x y) xs"

definition lh_inv :: "('d \<Rightarrow> u32) \<Rightarrow> ('d \<Rightarrow> 'd \<Rightarrow> bool) \<Rightarrow> ('d, 'h, 'c) lhash \<Rightarrow> bool" where
  "lh_inv hash same lh \<longleftrightarrow> kMinNumBuckets \<le> num_buckets lh \<and>
     all_placed hash (num_buckets lh) (buckets lh) \<and> apart same (lh_contents lh) \<and>
     num_items lh = of_nat (length (lh_contents lh))"

abbreviation slot :: "('d \<Rightarrow> u32) \<Rightarrow> size_t \<Rightarrow> 'd \<Rightarrow> nat" where
  "slot hash n d \<equiv> unat (ucast (hash d) mod n)"

lemma slot_lt: "0 < n \<Longrightarrow> slot hash n d < unat n"
  by (simp add: word_less_nat_alt unat_mod)

lemma lh_invD:
  assumes "lh_inv hash same lh"
  shows "0 < num_buckets lh" "all_placed hash (num_buckets lh) (buckets lh)"
    "length (buckets lh) = unat (num_buckets lh)" "kMinNumBuckets \<le> num_buckets lh"
    "apart same (lh_contents lh)" "num_items lh = of_nat (length (lh_contents lh))"
proof -
  show k: "kMinNumBuckets \<le> num_buckets lh" and a: "all_placed hash (num_buckets lh) (buckets lh)"
    and "apart same (lh_contents lh)" "num_items lh = of_nat (length (lh_contents lh))"
    using assms by (simp_all add: lh_inv_def)
  show "0 < num_buckets lh" using k by (simp add: kMinNumBuckets_def word_le_nat_alt word_less_nat_alt)
  show "length (buckets lh) = unat (num_buckets lh)" using a by (simp add: all_placed_def)
qed

lemma placed_member:
  assumes "all_placed hash n bs" and "x \<in> set (concat bs)"
  shows "x \<in> set (bs ! slot hash n (item_data x))"
proof -
  from assms(2) obtain c where c: "c \<in> set bs" "x \<in> set c" by auto
  then obtain b where b: "b < length bs" "x \<in> set (bs ! b)" by (metis in_set_conv_nth)
  then have "placed hash n b (bs ! b)" using assms(1) by (simp add: all_placed_def)
  with b show ?thesis by (auto simp: placed_def)
qed

text \<open>One chain of many.\<close>

lemma concat_at:
  assumes "b < length bs"
  obtains ls rs where "concat bs = ls @ bs ! b @ rs" "\<And>c. concat (bs[b := c]) = ls @ c @ rs"
proof
  show "concat bs = concat (take b bs) @ bs ! b @ concat (drop (Suc b) bs)"
    using id_take_nth_drop [OF assms] by (metis concat.simps(2) concat_append)
  show "concat (bs[b := c]) = concat (take b bs) @ c @ concat (drop (Suc b) bs)" for c
    by (simp add: upd_conv_take_nth_drop [OF assms])
qed

lemma all_placed_update:
  "all_placed hash n bs \<Longrightarrow> placed hash n b c \<Longrightarrow> all_placed hash n (bs[b := c])"
  unfolding all_placed_def by (metis length_list_update nth_list_update_eq nth_list_update_neq)

lemma chain_pos_split:
  "chain_pos P chain = i \<Longrightarrow> i \<le> length chain \<and> (\<forall>x \<in> set (take i chain). \<not> P (item_data x)) \<and>
     (i < length chain \<longrightarrow> P (item_data (chain ! i)))"
proof (induction chain arbitrary: i)
  case (Cons x chain)
  then show ?case by (cases "P (item_data x)") auto
qed simp

section \<open>Collections without equal members\<close>

context equality_contract
begin

lemma apart_Cons: "apart same (x # xs) \<longleftrightarrow> (\<forall>y \<in> set xs. \<not> same x y) \<and> apart same xs"
  by (auto simp: apart_def)

lemma apart_count: "apart same xs \<longleftrightarrow> (\<forall>x \<in> set xs. length (filter (same x) xs) \<le> 1)"
proof (induction xs)
  case (Cons x xs)
  have none: "(\<forall>y \<in> set xs. \<not> same x y) \<longleftrightarrow> length (filter (same x) (x # xs)) \<le> 1"
    by (simp add: same_refl filter_empty_conv)
  have eq: "length (filter (same y) (x # xs)) = length (filter (same y) xs)" if "\<forall>y \<in> set xs. \<not> same x y" "y \<in> set xs" for y
    using that same_sym by auto
  show ?case
  proof (cases "\<forall>y \<in> set xs. \<not> same x y")
    case True
    then show ?thesis using Cons none eq by (auto simp: apart_Cons)
  next
    case False
    then show ?thesis using none unfolding apart_Cons by auto
  qed
qed (simp add: apart_def)

lemma apart_mset:
  assumes "apart same xs" and "mset ys = mset xs"
  shows "apart same ys"
proof -
  have "length (filter P ys) = length (filter P xs)" for P
    using assms(2) by (metis mset_filter size_mset)
  moreover have "set ys = set xs" using assms(2) by (metis set_mset_mset)
  ultimately show ?thesis using assms(1) by (simp add: apart_count)
qed

lemma apart_add: "apart same (d # ys) \<longleftrightarrow> apart same ys \<and> (\<forall>y \<in> set ys. \<not> same d y)"
  by (auto simp: apart_Cons)

text \<open>The member of a class, taken out.\<close>

lemma apart_take_out:
  assumes "apart same xs" and "mset xs = add_mset x (mset ys)" and "same x d"
  shows "apart same ys" and "set ys = {y \<in> set xs. \<not> same d y}"
proof -
  have "apart same (x # ys)" using assms(1,2) by (intro apart_mset [OF assms(1)]) simp
  then have a: "apart same ys" "\<forall>y \<in> set ys. \<not> same x y" by (simp_all add: apart_Cons)
  then show "apart same ys" by blast
  have "set xs = insert x (set ys)" using assms(2) by (metis set_mset_add_mset_insert set_mset_mset)
  moreover have "same d y \<Longrightarrow> same x y" "same d x" for y
    using same_trans [OF assms(3)] same_sym [OF assms(3)] by blast+
  ultimately show "set ys = {y \<in> set xs. \<not> same d y}" using a(2) by auto
qed

lemma apart_unique: "apart same xs \<Longrightarrow> x \<in> set xs \<Longrightarrow> y \<in> set xs \<Longrightarrow> same x y \<Longrightarrow> x = y"
proof (induction xs)
  case (Cons z xs)
  then show ?case using same_sym by (auto simp: apart_Cons)
qed simp

end

section \<open>Rebucketing\<close>

lemma fold_fold_concat: "fold (\<lambda>chain bs. fold f chain bs) css bs = fold f (concat css) bs"
  by (induction css arbitrary: bs) simp_all

lemma move_item_step:
  assumes "0 < n" and "all_placed hash n bs" and "item_hash x = hash (item_data x)"
  shows "all_placed hash n (move_item n x bs)" and "mset (concat (move_item n x bs)) = add_mset x (mset (concat bs))"
proof -
  let ?b = "unat (ucast (item_hash x) mod n)"
  have b: "?b < length bs" using slot_lt [OF assms(1)] assms(2,3) by (simp add: all_placed_def)
  have "placed hash n ?b (x # bs ! ?b)" using assms(2,3) b by (auto simp: all_placed_def placed_def)
  then show "all_placed hash n (move_item n x bs)"
    using all_placed_update [OF assms(2)] by (simp add: move_item_def Let_def)
  obtain ls rs where "concat bs = ls @ bs ! ?b @ rs" "\<And>c. concat (bs[?b := c]) = ls @ c @ rs"
    using b by (rule concat_at) blast
  then show "mset (concat (move_item n x bs)) = add_mset x (mset (concat bs))"
    by (simp add: move_item_def Let_def)
qed

lemma move_items:
  "0 < n \<Longrightarrow> \<forall>x \<in> set xs. item_hash x = hash (item_data x) \<Longrightarrow> all_placed hash n bs \<Longrightarrow>
   all_placed hash n (fold (move_item n) xs bs) \<and>
   mset (concat (fold (move_item n) xs bs)) = mset xs + mset (concat bs)"
proof (induction xs arbitrary: bs)
  case (Cons x xs)
  have h: "item_hash x = hash (item_data x)" using Cons.prems(2) by simp
  note m = move_item_step [OF Cons.prems(1,3) h]
  show ?case using Cons.IH [OF Cons.prems(1) _ m(1)] m(2) Cons.prems(2) by simp
qed simp

text \<open>What the tables before and after a resize share.\<close>

definition same_table :: "('d, 'h, 'c) lhash \<Rightarrow> ('d, 'h, 'c) lhash \<Rightarrow> bool" where
  "same_table s t \<longleftrightarrow> mset (lh_contents t) = mset (lh_contents s) \<and> lh_hash t = lh_hash s \<and>
     lh_comp t = lh_comp s \<and> num_items t = num_items s \<and> callback_depth t = callback_depth s"

context hash_contract
begin

lemma rebucket_inv:
  assumes "lh_inv hash same lh" and "kMinNumBuckets \<le> n"
  shows "lh_inv hash same (lh_rebucket A lh n) \<and> same_table lh (lh_rebucket A lh n)"
proof -
  note inv = lh_invD [OF assms(1)]
  have n: "0 < n" using assms(2) by (simp add: kMinNumBuckets_def word_le_nat_alt word_less_nat_alt)
  let ?bs = "fold (\<lambda>chain bs. fold (move_item n) chain bs) (buckets lh) (replicate (unat n) [])"
  have "item_hash x = hash (item_data x)" if "x \<in> set (concat (buckets lh))" for x
  proof -
    have "x \<in> set (buckets lh ! slot hash (num_buckets lh) (item_data x))"
      using inv(2) that by (rule placed_member)
    then show ?thesis
      using inv(2) slot_lt [OF inv(1), of hash "item_data x"] unfolding all_placed_def placed_def by blast
  qed
  moreover have "all_placed hash n (replicate (unat n) [])" by (simp add: all_placed_def placed_def)
  ultimately have m: "all_placed hash n ?bs" "mset (concat ?bs) = mset (concat (buckets lh))"
    unfolding fold_fold_concat using move_items [OF n, of "concat (buckets lh)" hash "replicate (unat n) []"] by simp_all
  then have c: "mset (map item_data (concat ?bs)) = mset (lh_contents lh)" by (simp add: lh_contents_def)
  then have "apart same (map item_data (concat ?bs))" "length (map item_data (concat ?bs)) = length (lh_contents lh)"
    using apart_mset [OF inv(5)] by (blast, metis size_mset)
  then have "lh_inv hash same (lh\<lparr>buckets := ?bs, num_buckets := n\<rparr>)"
    using m(1) assms(2) inv(6) by (simp add: lh_inv_def lh_contents_def)
  moreover have "same_table lh (lh\<lparr>buckets := ?bs, num_buckets := n\<rparr>)"
    using c by (simp add: same_table_def lh_contents_def)
  moreover have "lh_rebucket A lh n = lh \<or> lh_rebucket A lh n = lh\<lparr>buckets := ?bs, num_buckets := n\<rparr>"
    by (simp add: lh_rebucket_def Let_def split: option.splits)
  moreover have "same_table lh lh" by (simp add: same_table_def)
  ultimately show ?thesis using assms(1) by metis
qed

lemma resize_inv:
  assumes "lh_inv hash same lh"
  shows "lh_inv hash same (lh_maybe_resize A lh) \<and> same_table lh (lh_maybe_resize A lh)"
proof -
  note inv = lh_invD [OF assms]
  have "kMinNumBuckets \<le> num_buckets lh * 2" if "num_buckets lh < num_buckets lh * 2"
    using inv(4) that by (rule order_trans [OF _ less_imp_le])
  then show ?thesis
    using assms rebucket_inv [OF assms] by (auto simp: lh_maybe_resize_def Let_def same_table_def)
qed

end

section \<open>The operations on the contents\<close>

text \<open>A table is used with helpers under which its functions are \<open>hash\<close> and \<open>same\<close>.\<close>

definition uses ::
  "('h \<Rightarrow> 'd \<Rightarrow> u32) \<Rightarrow> ('c \<Rightarrow> 'd \<Rightarrow> 'd \<Rightarrow> int) \<Rightarrow> ('d \<Rightarrow> u32) \<Rightarrow> ('d \<Rightarrow> 'd \<Rightarrow> bool) \<Rightarrow> ('d, 'h, 'c) lhash \<Rightarrow> bool" where
  "uses call_hash call_cmp hash same lh \<longleftrightarrow>
     call_hash (lh_hash lh) = hash \<and> (\<lambda>x d. call_cmp (lh_comp lh) x d = 0) = same"

lemma uses_same_table: "same_table s t \<Longrightarrow> uses call_hash call_cmp hash same t = uses call_hash call_cmp hash same s"
  by (simp add: uses_def same_table_def)

lemma next_ptr_eq:
  assumes "uses call_hash call_cmp hash same lh"
  shows "get_next_ptr_and_hash call_hash call_cmp lh d =
    ((slot hash (num_buckets lh) d, chain_pos (\<lambda>x. same x d) (buckets lh ! slot hash (num_buckets lh) d)), hash d)"
proof -
  have c: "call_hash (lh_hash lh) = hash" and "\<And>x. (call_cmp (lh_comp lh) x d = 0) = same x d"
    using assms by (auto simp: uses_def fun_eq_iff)
  then show ?thesis by (simp add: get_next_ptr_and_hash_def Let_def)
qed

context hash_contract
begin

text \<open>Where the search for \<open>d\<close> stops: at the member of its class, or at the end of the chain when there
  is none in the whole table.\<close>

lemma search_chain:
  assumes w: "all_placed hash n bs" and n: "0 < n"
    and i: "i = chain_pos (\<lambda>x. same x d) (bs ! slot hash n d)"
  shows "i < length (bs ! slot hash n d) \<Longrightarrow> same (item_data (bs ! slot hash n d ! i)) d"
    and "i < length (bs ! slot hash n d) \<or> i = length (bs ! slot hash n d) \<and>
      (\<forall>x \<in> set (map item_data (concat bs)). \<not> same x d)"
proof -
  let ?c = "bs ! slot hash n d"
  note s = chain_pos_split [of "\<lambda>x. same x d" ?c i, OF i [symmetric]]
  show "i < length ?c \<Longrightarrow> same (item_data (?c ! i)) d" using s by blast
  show "i < length ?c \<or> i = length ?c \<and> (\<forall>x \<in> set (map item_data (concat bs)). \<not> same x d)"
  proof (cases "i < length ?c")
    case False
    then have none: "\<forall>x \<in> set ?c. \<not> same (item_data x) d" "i = length ?c" using s by simp_all
    have "\<not> same (item_data x) d" if x: "x \<in> set (concat bs)" for x
    proof
      assume e: "same (item_data x) d"
      then have "x \<in> set ?c" using placed_member [OF w x] same_hash [OF e] by simp
      with none(1) e show False by blast
    qed
    with none(2) show ?thesis by auto
  qed simp
qed

lemma retrieve_iff:
  assumes inv: "lh_inv hash same lh" and f: "uses call_hash call_cmp hash same lh"
  shows "lh_retrieve call_hash call_cmp lh d = Some x \<longleftrightarrow> x \<in> set (lh_contents lh) \<and> same x d"
proof -
  note I = lh_invD [OF inv]
  let ?c = "buckets lh ! slot hash (num_buckets lh) d"
  let ?i = "chain_pos (\<lambda>x. same x d) ?c"
  note S = search_chain [OF I(2,1) refl, of d]
  have r: "lh_retrieve call_hash call_cmp lh d = (if ?i < length ?c then Some (item_data (?c ! ?i)) else None)"
    by (simp add: lh_retrieve_def next_ptr_eq [OF f] link_item_def)
  show ?thesis
  proof (cases "?i < length ?c")
    case True
    let ?y = "item_data (?c ! ?i)"
    have "?c \<in> set (buckets lh)" using slot_lt [OF I(1), of hash d] I(3) by simp
    then have y: "?y \<in> set (lh_contents lh)" using nth_mem [OF True] by (auto simp: lh_contents_def)
    have s: "same ?y d" using S(1) True by simp
    have "x \<in> set (lh_contents lh) \<and> same x d \<longleftrightarrow> x = ?y"
      using apart_unique [OF I(5) _ y] same_trans [OF _ same_sym [OF s]] y s by blast
    then show ?thesis using r True by auto
  next
    case False
    then show ?thesis using r S(2) by (auto simp: lh_contents_def)
  qed
qed

lemma retrieve_eqI:
  assumes "lh_inv hash same lh" and "uses call_hash call_cmp hash same lh"
    and "\<And>x. r = Some x \<longleftrightarrow> x \<in> set (lh_contents lh) \<and> same x d"
  shows "lh_retrieve call_hash call_cmp lh d = r"
  using retrieve_iff [OF assms(1,2)] assms(3) by (metis not_None_eq)

end

context hash_contract
begin

text \<open>Changing one chain and the counter, and then resizing.\<close>

lemma changed_inv:
  assumes "lh_inv hash same lh" and "b < length (buckets lh)" and "placed hash (num_buckets lh) b c"
    and "concat (buckets lh) = ls @ buckets lh ! b @ rs"
    and "\<And>c. concat ((buckets lh)[b := c]) = ls @ c @ rs"
    and "apart same (map item_data (ls @ c @ rs))" and "n = of_nat (length (ls @ c @ rs))"
  shows "lh_inv hash same (update_chain b (\<lambda>_. c) lh\<lparr>num_items := n\<rparr>)"
    and "lh_contents (update_chain b (\<lambda>_. c) lh\<lparr>num_items := n\<rparr>) = map item_data (ls @ c @ rs)"
proof -
  note inv = lh_invD [OF assms(1)]
  show e: "lh_contents (update_chain b (\<lambda>_. c) lh\<lparr>num_items := n\<rparr>) = map item_data (ls @ c @ rs)"
    by (simp add: update_chain_def lh_contents_def assms(5))
  have "all_placed hash (num_buckets lh) ((buckets lh)[b := c])"
    using inv(2) assms(3) by (rule all_placed_update)
  then show "lh_inv hash same (update_chain b (\<lambda>_. c) lh\<lparr>num_items := n\<rparr>)"
    using inv(4) assms(6,7) e by (simp add: lh_inv_def update_chain_def)
qed

text \<open>The place of \<open>d\<close> in the table: the rest of the items, and the chain split at the stopping point.\<close>

lemma locate:
  assumes inv: "lh_inv hash same lh" and f: "uses call_hash call_cmp hash same lh"
  obtains (found) b i item ls rs where "get_next_ptr_and_hash call_hash call_cmp lh d = ((b, i), hash d)"
      "b < length (buckets lh)" "i < length (buckets lh ! b)" "buckets lh ! b ! i = item"
      "placed hash (num_buckets lh) b (buckets lh ! b)" "b = slot hash (num_buckets lh) d" "same (item_data item) d"
      "concat (buckets lh) = ls @ buckets lh ! b @ rs" "\<And>c. concat ((buckets lh)[b := c]) = ls @ c @ rs"
  | (absent) b ls rs where
      "get_next_ptr_and_hash call_hash call_cmp lh d = ((b, length (buckets lh ! b)), hash d)"
      "b < length (buckets lh)" "placed hash (num_buckets lh) b (buckets lh ! b)"
      "b = slot hash (num_buckets lh) d" "\<forall>y \<in> set (lh_contents lh). \<not> same y d"
      "concat (buckets lh) = ls @ buckets lh ! b @ rs" "\<And>c. concat ((buckets lh)[b := c]) = ls @ c @ rs"
proof -
  note I = lh_invD [OF inv]
  let ?b = "slot hash (num_buckets lh) d"
  let ?i = "chain_pos (\<lambda>x. same x d) (buckets lh ! ?b)"
  note S = search_chain [OF I(2,1) refl, of d]
  have b: "?b < length (buckets lh)" using slot_lt [OF I(1), of hash d] I(3) by simp
  have p: "placed hash (num_buckets lh) ?b (buckets lh ! ?b)" using I(2) b by (simp add: all_placed_def)
  obtain ls rs where c: "concat (buckets lh) = ls @ buckets lh ! ?b @ rs"
    "\<And>c. concat ((buckets lh)[?b := c]) = ls @ c @ rs"
    using b by (rule concat_at) blast
  show thesis
  proof (cases "?i < length (buckets lh ! ?b)")
    case True
    show thesis by (rule found [OF next_ptr_eq [OF f] b True refl p refl S(1) [OF True] c])
  next
    case False
    then have i: "?i = length (buckets lh ! ?b)" and n: "\<forall>y \<in> set (lh_contents lh). \<not> same y d"
      using S(2) by (auto simp: lh_contents_def)
    show thesis by (rule absent [OF next_ptr_eq [OF f, of d, unfolded i] b p refl n c])
  qed
qed

lemma lh_delete_contents:
  assumes inv: "lh_inv hash same lh" and f: "uses call_hash call_cmp hash same lh"
    and r: "lh_delete A call_hash call_cmp lh d = (old, t)"
  shows "old = lh_retrieve call_hash call_cmp lh d \<and> lh_inv hash same t \<and> uses call_hash call_cmp hash same t \<and>
    set (lh_contents t) = {y \<in> set (lh_contents lh). \<not> same d y}"
proof (rule locate [OF inv f, of d])
  fix b ls rs
  assume a: "get_next_ptr_and_hash call_hash call_cmp lh d = ((b, length (buckets lh ! b)), hash d)"
    "\<forall>y \<in> set (lh_contents lh). \<not> same y d"
  have "lh_retrieve call_hash call_cmp lh d = None"
    using retrieve_eqI [OF inv f, where r = None] a(2) by auto
  moreover have "old = None" "t = lh" using r a(1) by (simp_all add: lh_delete_def link_item_def)
  ultimately show ?thesis using inv f a(2) same_sym by auto
next
  fix b i item ls rs
  assume a: "get_next_ptr_and_hash call_hash call_cmp lh d = ((b, i), hash d)"
    "b < length (buckets lh)" "i < length (buckets lh ! b)" "buckets lh ! b ! i = item"
    "placed hash (num_buckets lh) b (buckets lh ! b)" "same (item_data item) d"
    "concat (buckets lh) = ls @ buckets lh ! b @ rs" "\<And>c. concat ((buckets lh)[b := c]) = ls @ c @ rs"
  note I = lh_invD [OF inv]
  let ?chain = "buckets lh ! b"
  let ?c = "take i ?chain @ drop (i + 1) ?chain"
  let ?t = "update_chain b (\<lambda>_. ?c) lh\<lparr>num_items := num_items lh - 1\<rparr>"
  have ch: "?chain = take i ?chain @ item # drop (i + 1) ?chain" using a(3,4) by (metis Suc_eq_plus1 id_take_nth_drop)
  have m: "mset (lh_contents lh) = add_mset (item_data item) (mset (map item_data (ls @ ?c @ rs)))"
    unfolding lh_contents_def a(7) by (subst ch) simp
  note T = apart_take_out [OF I(5) m a(6)]
  have n: "num_items lh - 1 = of_nat (length (ls @ ?c @ rs))"
    using I(6) arg_cong [OF m, of size] by simp
  have p: "placed hash (num_buckets lh) b ?c" using a(5) by (auto simp: placed_def dest: in_set_takeD in_set_dropD)
  note C = changed_inv [OF inv a(2) p a(7,8) T(1) n]
  have t: "t = lh_maybe_resize A ?t" "old = Some (item_data item)"
    using r a(1,3,4) by (auto simp: lh_delete_def link_item_def Let_def update_chain_def)
  note R = resize_inv [OF C(1), of A]
  have "item_data item \<in> set (lh_contents lh)" using m by (metis union_single_eq_member set_mset_mset)
  then have "lh_retrieve call_hash call_cmp lh d = Some (item_data item)" using retrieve_iff [OF inv f] a(6) by blast
  moreover have "set (lh_contents t) = set (lh_contents ?t)" using R unfolding t same_table_def by (metis set_mset_mset)
  moreover have "uses call_hash call_cmp hash same ?t" using f by (simp add: uses_def update_chain_def)
  then have "uses call_hash call_cmp hash same t" unfolding t using uses_same_table R by blast
  ultimately show ?thesis using R C(2) T(2) t by simp
qed

lemma lh_insert_ok_iff:
  assumes inv: "lh_inv hash same lh" and f: "uses call_hash call_cmp hash same lh"
    and r: "lh_insert A call_hash call_cmp lh d = (ok, old, t)"
  shows "ok \<longleftrightarrow> lh_retrieve call_hash call_cmp lh d \<noteq> None \<or> OPENSSL_malloc A sizeof_item \<noteq> None"
proof (rule locate [OF inv f, of d])
  fix b i item
  assume a: "get_next_ptr_and_hash call_hash call_cmp lh d = ((b, i), hash d)" "i < length (buckets lh ! b)"
  then have "lh_retrieve call_hash call_cmp lh d \<noteq> None" "ok"
    using r by (auto simp: lh_retrieve_def lh_insert_def link_item_def)
  then show ?thesis by simp
next
  fix b
  assume a: "get_next_ptr_and_hash call_hash call_cmp lh d = ((b, length (buckets lh ! b)), hash d)"
  then have "lh_retrieve call_hash call_cmp lh d = None" by (simp add: lh_retrieve_def link_item_def)
  moreover have "ok \<longleftrightarrow> OPENSSL_malloc A sizeof_item \<noteq> None"
    using r a by (auto simp: lh_insert_def link_item_def Let_def split: option.splits)
  ultimately show ?thesis by simp
qed

lemma lh_insert_contents:
  assumes inv: "lh_inv hash same lh" and f: "uses call_hash call_cmp hash same lh"
    and r: "lh_insert A call_hash call_cmp lh d = (ok, old, t)"
  shows "(\<not> ok \<and> old = None \<and> t = lh \<and> \<not> (\<forall>m. alloc_ok A m)) \<or>
    ok \<and> old = lh_retrieve call_hash call_cmp lh d \<and> lh_inv hash same t \<and> uses call_hash call_cmp hash same t \<and>
    set (lh_contents t) = insert d {y \<in> set (lh_contents lh). \<not> same d y}"
proof (rule locate [OF inv f, of d])
  fix b i item ls rs
  assume a: "get_next_ptr_and_hash call_hash call_cmp lh d = ((b, i), hash d)"
    "b < length (buckets lh)" "i < length (buckets lh ! b)" "buckets lh ! b ! i = item"
    "placed hash (num_buckets lh) b (buckets lh ! b)" "same (item_data item) d"
    "concat (buckets lh) = ls @ buckets lh ! b @ rs" "\<And>c. concat ((buckets lh)[b := c]) = ls @ c @ rs"
  note I = lh_invD [OF inv]
  let ?chain = "buckets lh ! b"
  let ?new = "item\<lparr>item_data := d\<rparr>"
  let ?c = "?chain[i := ?new]"
  let ?rest = "map item_data (ls @ take i ?chain @ drop (i + 1) ?chain @ rs)"
  have ch: "?chain = take i ?chain @ item # drop (i + 1) ?chain" using a(3,4) by (metis Suc_eq_plus1 id_take_nth_drop)
  have c: "?c = take i ?chain @ ?new # drop (i + 1) ?chain" using a(3) by (simp add: upd_conv_take_nth_drop)
  have m: "mset (lh_contents lh) = add_mset (item_data item) (mset ?rest)"
    unfolding lh_contents_def a(7) by (subst ch) simp
  note T = apart_take_out [OF I(5) m a(6)]
  have "apart same (d # ?rest)" unfolding apart_add using T same_sym by auto
  moreover have mc: "mset (map item_data (ls @ ?c @ rs)) = mset (d # ?rest)" unfolding c by simp
  ultimately have A: "apart same (map item_data (ls @ ?c @ rs))" by (rule apart_mset)
  have n: "num_items lh = of_nat (length (ls @ ?c @ rs))" using I(6) a(7) by (simp add: lh_contents_def)
  have it: "item_hash item = hash (item_data item)" "slot hash (num_buckets lh) (item_data item) = b"
    using a(3-5) by (auto simp: placed_def)
  then have "placed hash (num_buckets lh) b ?c"
    using a(5) same_hash [OF a(6)] unfolding c placed_def by (auto dest: in_set_takeD in_set_dropD)
  note C = changed_inv [OF inv a(2) this a(7,8) A n]
  have "update_chain b (\<lambda>_. ?c) lh\<lparr>num_items := num_items lh\<rparr> = t" "ok" "old = Some (item_data item)"
    using r a(1,3,4) by (auto simp: lh_insert_def link_item_def update_chain_def)
  moreover have "item_data item \<in> set (lh_contents lh)" using m by (metis union_single_eq_member set_mset_mset)
  then have "lh_retrieve call_hash call_cmp lh d = Some (item_data item)" using retrieve_iff [OF inv f] a(6) by blast
  moreover have "set (lh_contents t) = insert d (set ?rest)"
    using C(2) mc calculation(1) by (metis list.simps(15) set_mset_mset)
  moreover have "uses call_hash call_cmp hash same t" using f calculation(1) by (auto simp: uses_def update_chain_def)
  ultimately show ?thesis using C(1) T(2) by simp
next
  fix b ls rs
  assume a: "get_next_ptr_and_hash call_hash call_cmp lh d = ((b, length (buckets lh ! b)), hash d)"
    "b < length (buckets lh)" "placed hash (num_buckets lh) b (buckets lh ! b)"
    "b = slot hash (num_buckets lh) d" "\<forall>y \<in> set (lh_contents lh). \<not> same y d"
    "concat (buckets lh) = ls @ buckets lh ! b @ rs" "\<And>c. concat ((buckets lh)[b := c]) = ls @ c @ rs"
  note I = lh_invD [OF inv]
  have none: "lh_retrieve call_hash call_cmp lh d = None"
    using retrieve_eqI [OF inv f, where r = None] a(5) by auto
  show ?thesis
  proof (cases "OPENSSL_malloc A sizeof_item")
    case None
    then have "\<not> (\<forall>m. alloc_ok A m)" by (auto simp: OPENSSL_malloc_def Let_def split: if_splits)
    with None show ?thesis using r a(1) by (auto simp: lh_insert_def link_item_def)
  next
    case (Some blk)
    let ?new = "\<lparr>item_data = d, item_hash = hash d\<rparr>"
    let ?c = "buckets lh ! b @ [?new]"
    let ?t = "update_chain b (\<lambda>_. ?c) lh\<lparr>num_items := num_items lh + 1\<rparr>"
    have mc: "mset (map item_data (ls @ ?c @ rs)) = mset (d # lh_contents lh)"
      unfolding lh_contents_def a(6) by simp
    have "apart same (d # lh_contents lh)" unfolding apart_add using I(5) a(5) same_sym by auto
    then have A: "apart same (map item_data (ls @ ?c @ rs))" using mc by (rule apart_mset)
    have n: "num_items lh + 1 = of_nat (length (ls @ ?c @ rs))" using I(6) a(6) by (simp add: lh_contents_def)
    have p: "placed hash (num_buckets lh) b ?c" using a(3,4) by (auto simp: placed_def)
    note C = changed_inv [OF inv a(2) p a(6,7) A n]
    note R = resize_inv [OF C(1), of A]
    have t: "t = lh_maybe_resize A ?t" "ok" "old = None"
      using r a(1) Some by (auto simp: lh_insert_def link_item_def Let_def update_chain_def)
    moreover have "set (lh_contents t) = set (lh_contents ?t)" using R unfolding t same_table_def by (metis set_mset_mset)
    moreover have "set (lh_contents ?t) = insert d (set (lh_contents lh))"
      using C(2) mc by (metis list.simps(15) set_mset_mset)
    moreover have "uses call_hash call_cmp hash same ?t" using f by (simp add: uses_def update_chain_def)
    then have "uses call_hash call_cmp hash same t" unfolding t using uses_same_table R by blast
    moreover have "{y \<in> set (lh_contents lh). \<not> same d y} = set (lh_contents lh)" using a(5) same_sym by auto
    ultimately show ?thesis using R none by simp
  qed
qed

end

section \<open>The table provides the collection\<close>

locale lh_functions = hash_contract same hash
  for same :: "'d \<Rightarrow> 'd \<Rightarrow> bool" and hash :: "'d \<Rightarrow> u32" +
  fixes A :: allocator and call_hash :: "'h \<Rightarrow> 'd \<Rightarrow> u32" and call_cmp :: "'c \<Rightarrow> 'd \<Rightarrow> 'd \<Rightarrow> int"
  assumes memory: "alloc_ok A m"
begin

abbreviation table_inv :: "('d, 'h, 'c) lhash \<Rightarrow> bool" where
  "table_inv t \<equiv> lh_inv hash same t \<and> uses call_hash call_cmp hash same t"

lemma retrieve_after:
  assumes t: "table_inv t" and t': "table_inv t'"
    and c: "set (lh_contents t') = D \<union> {y \<in> set (lh_contents t). \<not> same d y}" and D: "D = {} \<or> D = {d}"
  shows "lh_retrieve call_hash call_cmp t' e =
    (if same d e then (if D = {} then None else Some d) else lh_retrieve call_hash call_cmp t e)"
proof -
  have i: "lh_inv hash same t" "uses call_hash call_cmp hash same t"
    "lh_inv hash same t'" "uses call_hash call_cmp hash same t'" using t t' by auto
  have eq: "same d e \<Longrightarrow> same y e \<Longrightarrow> same d y" "\<not> same d e \<Longrightarrow> same y e \<Longrightarrow> \<not> same d y" for y
    using same_trans same_sym by blast+
  show ?thesis
  proof (cases "same d e")
    case True
    have "x \<in> set (lh_contents t') \<and> same x e \<longleftrightarrow> x \<in> D" for x
      unfolding c using D eq(1) [OF True] True by blast
    then have "lh_retrieve call_hash call_cmp t' e = (if D = {} then None else Some d)"
      using D by (intro retrieve_eqI [OF i(3,4)]) auto
    then show ?thesis using True by simp
  next
    case False
    have "x \<in> set (lh_contents t') \<and> same x e \<longleftrightarrow> x \<in> set (lh_contents t) \<and> same x e" for x
      unfolding c using D eq(2) [OF False] False by blast
    then have "lh_retrieve call_hash call_cmp t' e = lh_retrieve call_hash call_cmp t e"
      using retrieve_iff [OF i(1,2), of e] by (intro retrieve_eqI [OF i(3,4)]) simp
    then show ?thesis using False by simp
  qed
qed

lemma delete_laws:
  assumes t: "table_inv t"
  shows "table_inv (snd (lh_delete A call_hash call_cmp t d))"
    and "fst (lh_delete A call_hash call_cmp t d) = lh_retrieve call_hash call_cmp t d"
    and "lh_retrieve call_hash call_cmp (snd (lh_delete A call_hash call_cmp t d)) e =
      (if same d e then None else lh_retrieve call_hash call_cmp t e)"
proof -
  obtain old t' where r: "lh_delete A call_hash call_cmp t d = (old, t')" by (metis prod.exhaust)
  have D: "old = lh_retrieve call_hash call_cmp t d \<and> lh_inv hash same t' \<and> uses call_hash call_cmp hash same t' \<and>
      set (lh_contents t') = {y \<in> set (lh_contents t). \<not> same d y}"
    using t r by (intro lh_delete_contents) simp_all
  show "table_inv (snd (lh_delete A call_hash call_cmp t d))"
    "fst (lh_delete A call_hash call_cmp t d) = lh_retrieve call_hash call_cmp t d" using D r by simp_all
  have "table_inv t'" "set (lh_contents t') = {} \<union> {y \<in> set (lh_contents t). \<not> same d y}" using D by simp_all
  from retrieve_after [OF t this, of e] r
  show "lh_retrieve call_hash call_cmp (snd (lh_delete A call_hash call_cmp t d)) e =
      (if same d e then None else lh_retrieve call_hash call_cmp t e)" by simp
qed

lemma insert_laws:
  assumes t: "table_inv t"
  shows "table_inv (snd (snd (lh_insert A call_hash call_cmp t d)))"
    and "fst (snd (lh_insert A call_hash call_cmp t d)) = lh_retrieve call_hash call_cmp t d"
    and "lh_retrieve call_hash call_cmp (snd (snd (lh_insert A call_hash call_cmp t d))) e =
      (if same d e then Some d else lh_retrieve call_hash call_cmp t e)"
proof -
  obtain ok old t' where r: "lh_insert A call_hash call_cmp t d = (ok, old, t')" by (metis prod.exhaust)
  have "(\<not> ok \<and> old = None \<and> t' = t \<and> \<not> (\<forall>m. alloc_ok A m)) \<or>
      ok \<and> old = lh_retrieve call_hash call_cmp t d \<and> lh_inv hash same t' \<and> uses call_hash call_cmp hash same t' \<and>
      set (lh_contents t') = insert d {y \<in> set (lh_contents t). \<not> same d y}"
    using t r by (intro lh_insert_contents) simp_all
  then have I: "old = lh_retrieve call_hash call_cmp t d" "table_inv t'"
    "set (lh_contents t') = {d} \<union> {y \<in> set (lh_contents t). \<not> same d y}"
    using memory by simp_all
  show "table_inv (snd (snd (lh_insert A call_hash call_cmp t d)))"
    "fst (snd (lh_insert A call_hash call_cmp t d)) = lh_retrieve call_hash call_cmp t d" using I r by simp_all
  from retrieve_after [OF t I(2,3), of e] r
  show "lh_retrieve call_hash call_cmp (snd (snd (lh_insert A call_hash call_cmp t d))) e =
      (if same d e then Some d else lh_retrieve call_hash call_cmp t e)" by simp
qed

end

sublocale lh_functions \<subseteq> table: keyed_collection same "\<lambda>t. lh_inv hash same t \<and> uses call_hash call_cmp hash same t"
  "lh_retrieve call_hash call_cmp" "\<lambda>t d. snd (lh_insert A call_hash call_cmp t d)" "lh_delete A call_hash call_cmp"
  by (intro keyed_collection.intro keyed_collection_axioms.intro)
    (rule equality_contract_axioms insert_laws delete_laws; assumption?)+

context lh_functions
begin

lemmas history = table.perform_refines_list

end

lemma lh_new_inv:
  assumes "lh_new A h c = Some t"
  shows "lh_inv hash same t" "lh_contents t = []" "lh_hash t = h" "lh_comp t = c"
proof -
  have t: "t = \<lparr>num_items = 0, buckets = replicate (unat kMinNumBuckets) [], num_buckets = kMinNumBuckets,
      callback_depth = 0, lh_comp = c, lh_hash = h\<rparr>"
    using assms by (auto simp: lh_new_def split: option.splits)
  show c: "lh_contents t = []" "lh_hash t = h" "lh_comp t = c" unfolding t by (simp_all add: lh_contents_def)
  show "lh_inv hash same t"
    using c(1) unfolding lh_inv_def t by (simp add: all_placed_def placed_def apart_def)
qed

text \<open>The operations of one table, as its callers issue them.\<close>

definition lh_op ::
  "allocator \<Rightarrow> ('h \<Rightarrow> 'd \<Rightarrow> u32) \<Rightarrow> ('c \<Rightarrow> 'd \<Rightarrow> 'd \<Rightarrow> int) \<Rightarrow> ('d, 'h, 'c) lhash \<Rightarrow> 'd table_op \<Rightarrow>
   'd option \<times> ('d, 'h, 'c) lhash" where
  "lh_op A call_hash call_cmp =
     collection_op (lh_retrieve call_hash call_cmp) (\<lambda>t d. snd (lh_insert A call_hash call_cmp t d))
       (lh_delete A call_hash call_cmp)"

text \<open>
  C4: The hash table is a dictionary. Any history of insertions, deletions and lookups on a new table,
  with the growing and shrinking it causes, returns what the same history returns on a plain list
  in which an insertion replaces the equal member; and so do all lookups afterwards.
\<close>

theorem lhash_refines_list:
  assumes "hash_contract (\<lambda>x d. call_cmp c x d = 0) (call_hash h)" and "\<forall>m. alloc_ok A m"
    and "lh_new A h c = Some t" and "perform (lh_op A call_hash call_cmp) t ops = (rs, t')"
  shows "rs = fst (perform (list_op (\<lambda>x d. call_cmp c x d = 0)) [] ops) \<and>
    (\<forall>e. lh_retrieve call_hash call_cmp t' e =
       list_find (\<lambda>x d. call_cmp c x d = 0) (snd (perform (list_op (\<lambda>x d. call_cmp c x d = 0)) [] ops)) e)"
proof -
  let ?same = "\<lambda>x d. call_cmp c x d = 0"
  have l: "lh_functions ?same (call_hash h) A"
    using assms(1,2) by (simp add: lh_functions_def lh_functions_axioms_def)
  note new = lh_new_inv [OF assms(3)]
  have i: "lh_inv (call_hash h) ?same t \<and> uses call_hash call_cmp (call_hash h) ?same t"
    using new by (simp add: uses_def)
  have "lh_retrieve call_hash call_cmp t e = list_find ?same [] e" for e
    using hash_contract.retrieve_eqI [OF assms(1), of t call_hash call_cmp None e] i new(2) by (simp add: list_find_def)
  from lh_functions.history [OF l i this assms(4) [unfolded lh_op_def]]
  show ?thesis by blast
qed

text \<open>
  C18: An insertion succeeds exactly when the table has an equal datum or the new item can be allocated;
  then the table holds the new datum in place of the equal one, which is handed back, and counts its
  items. Otherwise nothing changes.
\<close>

theorem lh_insert_outcome:
  assumes "hash_contract same hash" and "lh_inv hash same lh" and "uses call_hash call_cmp hash same lh"
    and "lh_insert A call_hash call_cmp lh d = (ok, old, t)"
  shows "(ok \<longleftrightarrow> lh_retrieve call_hash call_cmp lh d \<noteq> None \<or> OPENSSL_malloc A sizeof_item \<noteq> None) \<and>
    (if ok then lh_inv hash same t \<and> old = lh_retrieve call_hash call_cmp lh d \<and>
      set (lh_contents t) = insert d {y \<in> set (lh_contents lh). \<not> same d y} \<and>
      lh_num_items t = of_nat (length (lh_contents t))
    else t = lh \<and> old = None)"
  using hash_contract.lh_insert_contents [OF assms] hash_contract.lh_insert_ok_iff [OF assms]
  by (auto simp: lh_num_items_def dest: lh_invD(6))

lemma doall_visits:
  "fold (\<lambda>i w. fold (\<lambda>cur w. w @ [item_data cur]) (bs ! i) w) [0..<length bs] ws = ws @ map item_data (concat bs)"
proof -
  have chain: "fold (\<lambda>cur w. w @ [item_data cur]) c ws = ws @ map item_data c" for c ws
    by (induction c arbitrary: ws) simp_all
  have "fold (\<lambda>i w. fold (\<lambda>cur w. w @ [item_data cur]) (bs ! i) w) [0..<length bs] ws =
      fold (\<lambda>c w. w @ map item_data c) bs ws"
    using fold_upt_take [of "length bs" bs "\<lambda>c w. w @ map item_data c" ws] by (simp add: chain)
  also have "\<dots> = ws @ map item_data (concat bs)" by (induction bs arbitrary: ws) simp_all
  finally show ?thesis .
qed

text \<open>
  \<open>lh_doall_arg\<close> calls the function on every item of the table exactly once and leaves the contents
  alone: resizing waits until the iteration is over.
\<close>

theorem lh_doall_once:
  assumes "hash_contract same hash" and "lh_inv hash same lh" and "callback_depth lh < 100"
    and "lh_doall_arg A (\<lambda>d w. w @ [d]) (Some lh) [] = (t, visited)"
  shows "visited = lh_contents lh \<and> (\<exists>u. t = Some u \<and> lh_inv hash same u \<and>
    mset (lh_contents u) = mset (lh_contents lh) \<and> callback_depth u = callback_depth lh)"
proof -
  note inv = lh_invD [OF assms(2)]
  have d: "callback_depth lh < - 1" "callback_depth lh + 1 < - 1" "callback_depth lh + 1 - 1 = callback_depth lh"
  proof -
    have "unat (callback_depth lh) < 100" using assms(3) by (simp add: word_less_nat_alt)
    then show "callback_depth lh < - 1" "callback_depth lh + 1 < - 1"
      by (simp_all add: word_less_nat_alt unat_word_ariths unsigned_minus_1_eq_mask mask_eq_exp_minus_1)
  qed simp
  have l: "lh\<lparr>callback_depth := callback_depth lh + 1, callback_depth := callback_depth lh + 1 - 1\<rparr> = lh" by simp
  have "lh_doall_arg A (\<lambda>d w. w @ [d]) (Some lh) [] = (Some (lh_maybe_resize A lh), lh_contents lh)"
    using d(1,2) inv(3) doall_visits [of "buckets lh" "[]"] by (simp add: lh_doall_arg_def Let_def lh_contents_def)
  then show ?thesis
    using assms(4) hash_contract.resize_inv [OF assms(1,2), of A] by (auto simp: same_table_def)
qed

section \<open>Tables of strings\<close>

text \<open>The table of names in \<open>obj.c\<close> hashes with \<open>lh_strhash\<close> and compares with the C library's
  \<open>strcmp\<close>, here on strings without their terminating zero.\<close>

fun c_strcmp :: "bytes \<Rightarrow> bytes \<Rightarrow> int" where
  "c_strcmp [] [] = 0"
| "c_strcmp [] (b # bs) = - 1"
| "c_strcmp (a # as) [] = 1"
| "c_strcmp (a # as) (b # bs) = (if a = b then c_strcmp as bs else if a < b then - 1 else 1)"

lemma c_strcmp_0: "c_strcmp a b = 0 \<longleftrightarrow> a = b"
  by (induction a b rule: c_strcmp.induct) auto

definition name_hash :: "unit \<Rightarrow> bytes \<Rightarrow> u32" where
  "name_hash f s = lh_strhash (Some (s @ [0]))"

definition name_cmp :: "unit \<Rightarrow> bytes \<Rightarrow> bytes \<Rightarrow> int" where
  "name_cmp f a b = c_strcmp a b"

interpretation names: lh_functions "\<lambda>x d. name_cmp () x d = 0" "name_hash ()" malloc_total name_hash name_cmp
  by unfold_locales (auto simp: name_cmp_def c_strcmp_0)

lemma names_contract: "hash_contract (\<lambda>x d. name_cmp () x d = 0) (name_hash ())"
  by (rule names.hash_contract_axioms)

theorem lhash_refines_list_witness:
  "\<exists>t rs t'. lh_new malloc_total () () = Some t \<and>
     perform (lh_op malloc_total name_hash name_cmp) t
       [Insert [65], Insert [66], Insert [65], Delete [66], Retrieve [66], Retrieve [65]] = (rs, t') \<and>
     rs = [None, None, Some [65], Some [66], None, Some [65]]"
proof -
  obtain t :: "(bytes, unit, unit) lhash" where t: "lh_new malloc_total () () = Some t"
    by (simp add: lh_new_def OPENSSL_malloc_def Let_def)
  let ?ops = "[Insert [65], Insert [66], Insert [65], Delete [66], Retrieve [66], Retrieve [65]] :: bytes table_op list"
  obtain rs t' where p: "perform (lh_op malloc_total name_hash name_cmp) t ?ops = (rs, t')" by (metis prod.exhaust)
  have "rs = fst (perform (list_op (\<lambda>x d. name_cmp () x d = 0)) [] ?ops)"
    using lhash_refines_list [OF names_contract _ t p] by simp
  then show ?thesis using t p by (auto simp: list_find_def name_cmp_def c_strcmp_0)
qed

theorem lh_insert_outcome_witness:
  "\<exists>t u. lh_new malloc_total () () = Some t \<and>
     lh_insert malloc_total name_hash name_cmp t [65] = (True, None, u) \<and> set (lh_contents u) = {[65]}"
proof -
  obtain t :: "(bytes, unit, unit) lhash" where t: "lh_new malloc_total () () = Some t"
    by (simp add: lh_new_def OPENSSL_malloc_def Let_def)
  note n = lh_new_inv [OF t]
  obtain ok old u where r: "lh_insert malloc_total name_hash name_cmp t [65] = (ok, old, u)" by (metis prod.exhaust)
  have us: "uses name_hash name_cmp (name_hash ()) (\<lambda>x d. name_cmp () x d = 0) t" using n(3,4) by (simp add: uses_def)
  have ok: "ok" using lh_insert_outcome [OF names_contract n(1) us r] by (simp add: OPENSSL_malloc_def Let_def)
  have "lh_retrieve name_hash name_cmp t [65] = None"
    using hash_contract.retrieve_eqI [OF names_contract n(1) us, where r = None] n(2) by simp
  then show ?thesis using lh_insert_outcome [OF names_contract n(1) us r] ok n(2) t r by auto
qed

theorem lh_doall_once_witness:
  "\<exists>t u. lh_new malloc_total () () = Some t \<and>
     lh_doall_arg malloc_total (\<lambda>d w. w @ [d]) (Some t) ([] :: bytes list) = (u, [])"
proof -
  obtain t :: "(bytes, unit, unit) lhash" where t: "lh_new malloc_total () () = Some t"
    by (simp add: lh_new_def OPENSSL_malloc_def Let_def)
  note n = lh_new_inv [OF t]
  obtain u v where r: "lh_doall_arg malloc_total (\<lambda>d w. w @ [d]) (Some t) ([] :: bytes list) = (u, v)"
    by (metis prod.exhaust)
  have "callback_depth t = 0" using t by (auto simp: lh_new_def split: option.splits)
  then have "v = lh_contents t" using lh_doall_once [OF names_contract n(1) _ r] by simp
  then show ?thesis using t r n(2) by auto
qed

end
