(* ===== verification/Buf.thy ===== *)
theory Buf
  imports Mem
begin

text \<open>
  \<open>crypto/buf/buf.c\<close>: the growable byte buffer \<open>BUF_MEM\<close>. It refines a byte string that is appended
  to, cut, or extended with zeros; the buffer grows by a third when it grows.
\<close>

section \<open>The buffer\<close>

text \<open>\<open>buf_data\<close> is the block \<open>data\<close> points to, \<open>None\<close> for \<open>NULL\<close>.\<close>

record buf_mem =
  buf_length :: size_t
  buf_data :: "bytes option"
  buf_max :: size_t

definition sizeof_buf_mem :: size_t where "sizeof_buf_mem = 24"

definition BUF_MEM_new :: "allocator \<Rightarrow> buf_mem option" where
  "BUF_MEM_new A =
     (case OPENSSL_malloc A sizeof_buf_mem of
        None \<Rightarrow> None
      | Some _ \<Rightarrow> Some \<lparr>buf_length = 0, buf_data = None, buf_max = 0\<rparr>)"

definition BUF_MEM_reserve :: "allocator \<Rightarrow> size_t \<Rightarrow> (buf_mem, unit) op" where
  "BUF_MEM_reserve A cap buf =
     (if buf_max buf \<ge> cap then (Some (), buf)
      else
        (let n = cap + 3 in
         if n < cap then (None, buf)
         else
           (let n = n div 3; alloc_size = n * 4 in
            if alloc_size div 4 \<noteq> n then (None, buf)
            else case OPENSSL_realloc A (buf_data buf) alloc_size of
                   None \<Rightarrow> (None, buf)
                 | Some new_buf \<Rightarrow> (Some (), buf\<lparr>buf_data := Some new_buf, buf_max := alloc_size\<rparr>))))"

text \<open>The return value is the new length, 0 for failure.\<close>

definition BUF_MEM_grow :: "allocator \<Rightarrow> size_t \<Rightarrow> buf_mem \<Rightarrow> size_t \<times> buf_mem" where
  "BUF_MEM_grow A len buf =
     (case BUF_MEM_reserve A len buf of
        (None, buf) \<Rightarrow> (0, buf)
      | (Some _, buf) \<Rightarrow>
          (let buf = (if buf_length buf < len
                      then buf\<lparr>buf_data := map_option (\<lambda>d. take (unat (buf_length buf)) d @
                             replicate (unat (len - buf_length buf)) 0 @ drop (unat len) d) (buf_data buf)\<rparr>
                      else buf)
           in (len, buf\<lparr>buf_length := len\<rparr>)))"

definition BUF_MEM_grow_clean :: "allocator \<Rightarrow> size_t \<Rightarrow> buf_mem \<Rightarrow> size_t \<times> buf_mem" where
  "BUF_MEM_grow_clean A len buf = BUF_MEM_grow A len buf"

definition BUF_MEM_append :: "allocator \<Rightarrow> bytes \<Rightarrow> size_t \<Rightarrow> (buf_mem, unit) op" where
  "BUF_MEM_append A input len buf =
     (if len = 0 then (Some (), buf)
      else
        (let new_len = buf_length buf + len in
         if new_len < len then (None, buf)
         else
           chk (BUF_MEM_reserve A new_len) (\<lambda>_ buf.
             (Some (), buf\<lparr>buf_data := map_option (\<lambda>d. take (unat (buf_length buf)) d @ take (unat len) input @
                              drop (unat (buf_length buf) + unat len) d) (buf_data buf),
                           buf_length := new_len\<rparr>)) buf))"

section \<open>The deprecated names\<close>

definition BUF_strdup :: "allocator \<Rightarrow> bytes option \<Rightarrow> bytes option" where
  "BUF_strdup A str = OPENSSL_strdup A str"

definition BUF_strnlen :: "bytes \<Rightarrow> size_t \<Rightarrow> size_t" where
  "BUF_strnlen str max_len = OPENSSL_strnlen str max_len"

definition BUF_strndup :: "allocator \<Rightarrow> bytes option \<Rightarrow> size_t \<Rightarrow> bytes option" where
  "BUF_strndup A str sz = OPENSSL_strndup A str sz"

definition BUF_strlcpy :: "bytes \<Rightarrow> bytes \<Rightarrow> nat \<Rightarrow> bytes \<times> nat" where
  "BUF_strlcpy dst src dst_size = OPENSSL_strlcpy dst src dst_size"

definition BUF_strlcat :: "bytes \<Rightarrow> bytes \<Rightarrow> nat \<Rightarrow> bytes \<times> nat" where
  "BUF_strlcat dst src dst_size = OPENSSL_strlcat dst src dst_size"

definition BUF_memdup :: "allocator \<Rightarrow> bytes \<Rightarrow> size_t \<Rightarrow> bytes option" where
  "BUF_memdup A data sz = OPENSSL_memdup A data sz"

section \<open>The invariant and the contents\<close>

definition buf_block :: "buf_mem \<Rightarrow> bytes" where
  "buf_block b = (case buf_data b of None \<Rightarrow> [] | Some d \<Rightarrow> d)"

definition buf_inv :: "buf_mem \<Rightarrow> bool" where
  "buf_inv b \<longleftrightarrow> buf_length b \<le> buf_max b \<and> length (buf_block b) = unat (buf_max b)"

definition buf_content :: "buf_mem \<Rightarrow> bytes" where
  "buf_content b = take (unat (buf_length b)) (buf_block b)"

lemma buf_invD:
  "buf_inv b \<Longrightarrow> unat (buf_length b) \<le> unat (buf_max b) \<and> length (buf_block b) = unat (buf_max b) \<and>
     length (buf_content b) = unat (buf_length b)"
  by (simp add: buf_inv_def buf_content_def word_le_nat_alt)

lemma reserve_cases:
  assumes b: "buf_inv b" and cap: "unat cap \<le> 2 ^ 62"
  obtains (fail) "BUF_MEM_reserve A cap b = (None, b)" "\<not> (\<forall>m. alloc_ok A m)"
  | (ok) b' where "BUF_MEM_reserve A cap b = (Some (), b')" "buf_inv b'" "cap \<le> buf_max b'"
      "buf_content b' = buf_content b" "buf_length b' = buf_length b"
proof (cases "cap \<le> buf_max b")
  case True
  then show thesis using b by (intro ok [of b]) (simp_all add: BUF_MEM_reserve_def)
next
  case False
  define n where "n = (cap + 3) div 3"
  have c3: "unat (cap + 3) = unat cap + 3" using cap by (simp add: unat_word_ariths)
  then have n: "unat n = (unat cap + 3) div 3" by (simp add: n_def unat_div)
  have n4: "unat (n * 4) = 4 * unat n" using cap n by (simp add: unat_word_ariths)
  have "n * 4 div 4 = n" using n4 by (simp add: word_unat_eq_iff unat_div)
  moreover have "\<not> cap + 3 < cap" using c3 by (simp add: word_less_nat_alt)
  ultimately have r: "BUF_MEM_reserve A cap b = (case OPENSSL_realloc A (buf_data b) (n * 4) of
      None \<Rightarrow> (None, b) | Some d \<Rightarrow> (Some (), b\<lparr>buf_data := Some d, buf_max := n * 4\<rparr>))"
    using False unfolding BUF_MEM_reserve_def by (simp add: Let_def flip: n_def)
  have big: "unat cap \<le> unat (n * 4)" using n4 n by linarith
  have lim: "unat (n * 4) < 2 ^ 64 - 8" using n4 n cap by simp
  have lt: "unat (buf_max b) < unat cap" using False by (simp add: word_le_nat_alt)
  show thesis
  proof (cases "OPENSSL_realloc A (buf_data b) (n * 4)")
    case None
    then have "\<not> (\<forall>m. alloc_ok A m)"
      by (auto simp: OPENSSL_realloc_def OPENSSL_malloc_def Let_def split: option.splits if_splits)
    with None r show thesis by (intro fail) simp_all
  next
    case (Some d)
    have d: "length d = unat (n * 4) \<and> take (length (buf_block b)) d = buf_block b"
    proof (cases "buf_data b")
      case None
      then have "OPENSSL_malloc A (n * 4) = Some d" using Some by (simp add: OPENSSL_realloc_def)
      then show ?thesis using malloc_length [OF _ lim] None by (simp add: buf_block_def)
    next
      case (Some old)
      then have l: "length old \<le> unat (n * 4)" using buf_invD [OF b] lt big by (simp add: buf_block_def)
      show ?thesis using realloc_Some [of A old "n * 4" d] \<open>OPENSSL_realloc A (buf_data b) (n * 4) = Some d\<close> Some lim l
        by (simp add: buf_block_def min_absorb1)
    qed
    let ?b = "b\<lparr>buf_data := Some d, buf_max := n * 4\<rparr>"
    have "take (unat (buf_length b)) d = take (unat (buf_length b)) (take (length (buf_block b)) d)"
      using buf_invD [OF b] by (simp add: min_absorb1)
    then have "buf_content ?b = buf_content b" using d by (simp add: buf_content_def) (simp add: buf_block_def)
    moreover have "buf_inv ?b" using d buf_invD [OF b] lt big by (simp add: buf_inv_def buf_block_def word_le_nat_alt)
    ultimately show thesis using r Some big by (intro ok [of ?b]) (simp_all add: word_le_nat_alt)
  qed
qed

lemma BUF_MEM_new_inv: "BUF_MEM_new A = Some b \<Longrightarrow> buf_inv b \<and> buf_content b = []"
  by (auto simp: BUF_MEM_new_def buf_inv_def buf_block_def buf_content_def split: option.splits)

text \<open>What the two operations do to the contents.\<close>

definition zero_extend :: "nat \<Rightarrow> bytes \<Rightarrow> bytes" where
  "zero_extend n xs = take n xs @ replicate (n - length xs) 0"

lemma grow_cases:
  assumes b: "buf_inv b" and len: "unat len \<le> 2 ^ 62"
  obtains (fail) "BUF_MEM_grow A len b = (0, b)" "\<not> (\<forall>m. alloc_ok A m)"
  | (ok) b' where "BUF_MEM_grow A len b = (len, b')" "buf_inv b'" "buf_content b' = zero_extend (unat len) (buf_content b)"
proof (rule reserve_cases [OF b len, of A])
  assume "BUF_MEM_reserve A len b = (None, b)" "\<not> (\<forall>m. alloc_ok A m)"
  then show thesis by (intro fail) (simp_all add: BUF_MEM_grow_def)
next
  fix c
  assume c: "BUF_MEM_reserve A len b = (Some (), c)" "buf_inv c" "len \<le> buf_max c"
    "buf_content c = buf_content b" "buf_length c = buf_length b"
  note inv = buf_invD [OF c(2)]
  have le: "unat len \<le> unat (buf_max c)" using c(3) by (simp add: word_le_nat_alt)
  show thesis
  proof (cases "buf_length c < len")
    case False
    then have l: "unat len \<le> unat (buf_length c)" by (simp add: word_less_nat_alt)
    have e: "BUF_MEM_grow A len b = (len, c\<lparr>buf_length := len\<rparr>)" using c(1) False by (simp add: BUF_MEM_grow_def)
    have "buf_content (c\<lparr>buf_length := len\<rparr>) = zero_extend (unat len) (buf_content b)"
    proof -
      have "buf_content (c\<lparr>buf_length := len\<rparr>) = take (unat len) (buf_content c)"
        using l by (simp add: buf_content_def buf_block_def min_absorb1)
      then show ?thesis using inv l by (simp add: zero_extend_def c(4) [symmetric])
    qed
    moreover have "buf_inv (c\<lparr>buf_length := len\<rparr>)" using c(2,3) by (simp add: buf_inv_def buf_block_def)
    ultimately show thesis using e by (intro ok) simp_all
  next
    case True
    then have l: "unat (buf_length c) < unat len" by (simp add: word_less_nat_alt)
    have sub: "unat (len - buf_length c) = unat len - unat (buf_length c)" using True by (intro unat_sub_le) simp
    obtain d where d: "buf_data c = Some d" using inv le l by (cases "buf_data c") (auto simp: buf_block_def)
    let ?d = "take (unat (buf_length c)) d @ replicate (unat len - unat (buf_length c)) 0 @ drop (unat len) d"
    let ?c = "c\<lparr>buf_data := Some ?d, buf_length := len\<rparr>"
    have ld: "length d = unat (buf_max c)" using inv d by (simp add: buf_block_def)
    have "BUF_MEM_grow A len b = (len, ?c)" using c(1) True d sub by (simp add: BUF_MEM_grow_def)
    moreover have "buf_inv ?c" using ld le l c(3) by (simp add: buf_inv_def buf_block_def)
    moreover have "buf_content b = take (unat (buf_length c)) d" using c(4) d by (simp add: buf_content_def buf_block_def)
    then have "buf_content ?c = zero_extend (unat len) (buf_content b)"
      using ld le l by (simp add: buf_content_def buf_block_def zero_extend_def min_absorb1)
    ultimately show thesis by (intro ok)
  qed
qed

lemma append_cases:
  assumes b: "buf_inv b" and len: "unat (buf_length b) + unat len \<le> 2 ^ 62" and input: "unat len \<le> length input"
  obtains (fail) "BUF_MEM_append A input len b = (None, b)" "\<not> (\<forall>m. alloc_ok A m)"
  | (ok) b' where "BUF_MEM_append A input len b = (Some (), b')" "buf_inv b'"
      "buf_content b' = buf_content b @ take (unat len) input"
proof (cases "len = 0")
  case True
  then show thesis using b by (intro ok [of b]) (simp_all add: BUF_MEM_append_def)
next
  case False
  let ?n = "buf_length b + len"
  have n: "unat ?n = unat (buf_length b) + unat len" using len by (simp add: unat_word_ariths)
  have lim: "unat ?n \<le> 2 ^ 62" using n len by simp
  have r: "BUF_MEM_append A input len b = chk (BUF_MEM_reserve A ?n) (\<lambda>_ c.
      (Some (), c\<lparr>buf_data := map_option (\<lambda>d. take (unat (buf_length c)) d @ take (unat len) input @
                     drop (unat (buf_length c) + unat len) d) (buf_data c), buf_length := ?n\<rparr>)) b"
    using False n by (simp add: BUF_MEM_append_def Let_def word_less_nat_alt)
  show thesis
  proof (rule reserve_cases [OF b lim, of A])
    assume "BUF_MEM_reserve A ?n b = (None, b)" "\<not> (\<forall>m. alloc_ok A m)"
    then show thesis using r by (intro fail) simp_all
  next
    fix c
    assume c: "BUF_MEM_reserve A ?n b = (Some (), c)" "buf_inv c" "?n \<le> buf_max c"
      "buf_content c = buf_content b" "buf_length c = buf_length b"
    note inv = buf_invD [OF c(2)]
    have le: "unat (buf_length c) + unat len \<le> unat (buf_max c)" using c(3,5) n by (simp add: word_le_nat_alt)
    have "0 < unat len" using False by (simp add: unat_gt_0)
    then obtain d where d: "buf_data c = Some d" using inv le by (cases "buf_data c") (auto simp: buf_block_def)
    let ?d = "take (unat (buf_length c)) d @ take (unat len) input @ drop (unat (buf_length c) + unat len) d"
    let ?c = "c\<lparr>buf_data := Some ?d, buf_length := ?n\<rparr>"
    have ld: "length d = unat (buf_max c)" using inv d by (simp add: buf_block_def)
    have "BUF_MEM_append A input len b = (Some (), ?c)" using r c(1) d by simp
    moreover have "buf_inv ?c" using ld le c(3) input by (simp add: buf_inv_def buf_block_def)
    moreover have "buf_content b = take (unat (buf_length c)) d" using c(4) d by (simp add: buf_content_def buf_block_def)
    then have "buf_content ?c = buf_content b @ take (unat len) input"
      using ld le n c(5) input by (simp add: buf_content_def buf_block_def)
    ultimately show thesis by (intro ok)
  qed
qed

section \<open>Sequences of operations\<close>

datatype buf_op = Append bytes | Grow nat

fun buf_exec :: "allocator \<Rightarrow> buf_op \<Rightarrow> (buf_mem, unit) op" where
  "buf_exec A (Append xs) b = BUF_MEM_append A xs (of_nat (length xs)) b"
| "buf_exec A (Grow n) b =
     (case BUF_MEM_grow A (of_nat n) b of (r, b') \<Rightarrow> (if r = 0 \<and> n \<noteq> 0 then None else Some (), b'))"

fun buf_spec :: "buf_op \<Rightarrow> bytes \<Rightarrow> bytes" where
  "buf_spec (Append xs) c = c @ xs"
| "buf_spec (Grow n) c = zero_extend n c"

fun buf_cost :: "buf_op \<Rightarrow> nat" where
  "buf_cost (Append xs) = length xs"
| "buf_cost (Grow n) = n"

lemma exec_buf_spec:
  assumes b: "buf_inv b" and len: "length (buf_content b) + buf_cost x \<le> 2 ^ 62"
  shows "case buf_exec A x b of
      (None, b') \<Rightarrow> b' = b \<and> \<not> (\<forall>m. alloc_ok A m)
    | (Some _, b') \<Rightarrow> buf_inv b' \<and> buf_content b' = buf_spec x (buf_content b)"
proof (cases x)
  case (Append xs)
  have n: "unat (of_nat (length xs) :: size_t) = length xs" using len Append by (intro unat_of_nat_size) simp
  have l: "unat (buf_length b) + unat (of_nat (length xs) :: size_t) \<le> 2 ^ 62"
    using buf_invD [OF b] len Append unfolding n by simp
  have i: "unat (of_nat (length xs) :: size_t) \<le> length xs" unfolding n by simp
  show ?thesis
  proof (rule append_cases [OF b l i, of A])
    assume "BUF_MEM_append A xs (of_nat (length xs)) b = (None, b)" "\<not> (\<forall>m. alloc_ok A m)"
    then show ?thesis unfolding Append by simp
  next
    fix b'
    assume "BUF_MEM_append A xs (of_nat (length xs)) b = (Some (), b')" "buf_inv b'"
      "buf_content b' = buf_content b @ take (unat (of_nat (length xs) :: size_t)) xs"
    then show ?thesis unfolding Append n by simp
  qed
next
  case (Grow k)
  have n: "unat (of_nat k :: size_t) = k" using len Grow by (intro unat_of_nat_size) simp
  have z: "(of_nat k :: size_t) = 0 \<longleftrightarrow> k = 0"
  proof
    assume "(of_nat k :: size_t) = 0"
    then have "unat (of_nat k :: size_t) = 0" by (simp only: unat_0)
    then show "k = 0" unfolding n .
  qed simp
  have l: "unat (of_nat k :: size_t) \<le> 2 ^ 62" using len Grow unfolding n by simp
  show ?thesis
  proof (rule grow_cases [OF b l, of A])
    assume f: "BUF_MEM_grow A (of_nat k) b = (0, b)" "\<not> (\<forall>m. alloc_ok A m)"
    show ?thesis
    proof (cases "k = 0")
      case True
      then have "BUF_MEM_reserve A 0 b = (Some (), b)" by (simp add: BUF_MEM_reserve_def)
      then have "b = b\<lparr>buf_length := 0\<rparr>" using f(1) True by (simp add: BUF_MEM_grow_def)
      from arg_cong [OF this, of buf_length] have "buf_length b = 0" by simp
      then have "buf_content b = []" by (simp add: buf_content_def)
      then show ?thesis using f(1) True b Grow by (simp add: zero_extend_def)
    next
      case False
      then show ?thesis using f Grow by simp
    qed
  next
    fix b'
    assume "BUF_MEM_grow A (of_nat k) b = (of_nat k, b')" "buf_inv b'"
      "buf_content b' = zero_extend (unat (of_nat k :: size_t)) (buf_content b)"
    then show ?thesis unfolding Grow n by (cases "k = 0") (simp_all add: z)
  qed
qed

text \<open>
  C20: A \<open>BUF_MEM\<close> is a byte string: appending and growing (which fills with zeros, or cuts) do to its
  contents what they say, over any sequence of operations, and an operation that fails for lack of
  memory leaves it unchanged.
\<close>

theorem buf_refines_bytes:
  assumes "buf_inv b" and "length (buf_content b) + (\<Sum>x\<leftarrow>xs. buf_cost x) \<le> 2 ^ 62" and "\<forall>m. alloc_ok A m"
  shows "\<exists>b'. for_op (buf_exec A) xs b = (Some (), b') \<and> buf_inv b' \<and> buf_content b' = fold buf_spec xs (buf_content b)"
  using assms
proof (induction xs arbitrary: b)
  case (Cons x xs)
  have l: "length (buf_content b) + buf_cost x \<le> 2 ^ 62" using Cons.prems(2) by simp
  obtain r b1 where r: "buf_exec A x b = (r, b1)" by (cases "buf_exec A x b")
  with exec_buf_spec [OF Cons.prems(1) l, of A] Cons.prems(3) obtain u where
    u: "r = Some u" "buf_inv b1" "buf_content b1 = buf_spec x (buf_content b)"
    by (cases r) auto
  have "length (buf_spec x (buf_content b)) \<le> length (buf_content b) + buf_cost x"
    by (cases x) (auto simp: zero_extend_def)
  then have "length (buf_content b1) + (\<Sum>x\<leftarrow>xs. buf_cost x) \<le> 2 ^ 62" using Cons.prems(2) u(3) by simp
  from Cons.IH [OF u(2) this Cons.prems(3)] r u show ?case by simp
qed simp

theorem buf_refines_bytes_witness:
  "\<exists>b b'. BUF_MEM_new malloc_total = Some b \<and>
     for_op (buf_exec malloc_total) [Append [1, 2, 3], Grow 2, Grow 4, Append [9]] b = (Some (), b') \<and>
     buf_content b' = [1, 2, 0, 0, 9]"
proof -
  obtain b where b: "BUF_MEM_new malloc_total = Some b" 
    by (simp add: BUF_MEM_new_def OPENSSL_malloc_def Let_def)
  note i = BUF_MEM_new_inv [OF b]
  have "fold buf_spec [Append [1, 2, 3], Grow 2, Grow 4, Append [9]] [] = [1, 2, 0, 0, 9]"
    by (simp add: zero_extend_def numeral_2_eq_2)
  with buf_refines_bytes [of b "[Append [1, 2, 3], Grow 2, Grow 4, Append [9]]" malloc_total] i b show ?thesis by auto
qed

end
