(* ===== verification/Base64.thy ===== *)
theory Base64
  imports Parsing
begin

text \<open>
  \<open>crypto/base64/base64.c\<close>: base64 encoding and decoding, in one block and as streams. The
  constant-time selections compute the alphabet, the block functions agree with RFC 4648, and the
  streams do not depend on how their input is cut into calls.
\<close>

section \<open>Constant-time helpers\<close>

type_synonym crypto_word_t = "64 word"

definition constant_time_msb_w :: "crypto_word_t \<Rightarrow> crypto_word_t" where
  "constant_time_msb_w a = 0 - drop_bit (8 * 8 - 1) a"

definition constant_time_is_zero_w :: "crypto_word_t \<Rightarrow> crypto_word_t" where
  "constant_time_is_zero_w a = constant_time_msb_w (NOT a AND (a - 1))"

definition constant_time_eq_w :: "crypto_word_t \<Rightarrow> crypto_word_t \<Rightarrow> crypto_word_t" where
  "constant_time_eq_w a b = constant_time_is_zero_w (a XOR b)"

definition constant_time_eq_8 :: "crypto_word_t \<Rightarrow> crypto_word_t \<Rightarrow> u8" where
  "constant_time_eq_8 a b = ucast (constant_time_eq_w a b)"

text \<open>\<open>value_barrier_w\<close> returns its argument.\<close>

definition constant_time_select_w :: "crypto_word_t \<Rightarrow> crypto_word_t \<Rightarrow> crypto_word_t \<Rightarrow> crypto_word_t" where
  "constant_time_select_w m a b = (m AND a) OR (NOT m AND b)"

definition constant_time_select_8 :: "u8 \<Rightarrow> u8 \<Rightarrow> u8 \<Rightarrow> u8" where
  "constant_time_select_8 m a b = ucast (constant_time_select_w (ucast m) (ucast a) (ucast b))"

definition constant_time_lt_args_8 :: "u8 \<Rightarrow> u8 \<Rightarrow> u8" where
  "constant_time_lt_args_8 a b =
     (let aw = ucast a :: crypto_word_t; bw = ucast b in ucast (constant_time_msb_w (aw - bw)))"

definition constant_time_in_range_8 :: "u8 \<Rightarrow> u8 \<Rightarrow> u8 \<Rightarrow> u8" where
  "constant_time_in_range_8 a mn mx = (let a = a - mn in constant_time_lt_args_8 a (mx - mn + 1))"

lemma drop_63: "drop_bit 63 (a :: 64 word) = (if bit a 63 then 1 else 0)"
proof (rule bit_word_eqI)
  fix n
  assume "n < LENGTH(64)"
  show "bit (drop_bit 63 a) n \<longleftrightarrow> bit (if bit a 63 then 1 else 0 :: 64 word) n"
  proof (cases n)
    case (Suc m)
    have "\<not> bit a (63 + Suc m)" using bit_imp_le_length [of a "63 + Suc m"] by auto
    then show ?thesis using Suc by (simp add: bit_simps bit_1_iff)
  qed (simp add: bit_simps bit_1_iff)
qed

lemma msb_w: "constant_time_msb_w a = (if bit a 63 then - 1 else 0)"
  by (simp add: constant_time_msb_w_def drop_63)

lemma bit_63: "bit (a :: 64 word) 63 \<longleftrightarrow> 2 ^ 63 \<le> unat a"
proof -
  have "bit a 63 \<longleftrightarrow> bit (unat a) 63" by (simp only: bit_unsigned_iff) auto
  then have "bit a 63 \<longleftrightarrow> odd (unat a div 2 ^ 63)" by (simp only: bit_iff_odd)
  moreover have "unat a div 2 ^ 63 = (if 2 ^ 63 \<le> unat a then 1 else 0)"
    using unat_lt_size_max [of a] by auto
  ultimately show ?thesis by simp
qed

lemma is_zero_w: "constant_time_is_zero_w a = (if a = 0 then - 1 else 0)"
proof (cases "a = 0")
  case True
  then show ?thesis by (simp add: constant_time_is_zero_w_def msb_w)
next
  case False
  have "\<not> bit (NOT a AND (a - 1)) 63"
  proof
    assume "bit (NOT a AND (a - 1)) 63"
    then have "\<not> bit a 63" "bit (a - 1) 63" by (simp_all add: bit_simps)
    then have "unat a < 2 ^ 63" "2 ^ 63 \<le> unat (a - 1)" by (simp_all add: bit_63)
    moreover have "unat (a - 1) = unat a - 1" using False by (simp add: unat_minus_one)
    ultimately show False by linarith
  qed
  then show ?thesis using False by (simp add: constant_time_is_zero_w_def msb_w)
qed

lemma all_ones: "(ucast (- 1 :: 64 word) :: u8) = 0xff"
  by (rule u8_eqI) (auto simp: bit_simps)

lemma eq_8: "constant_time_eq_8 a b = (if a = b then 0xff else 0)"
proof -
  have "a XOR b = 0 \<longleftrightarrow> a = b"
  proof
    assume "a XOR b = 0"
    then have "(a XOR b) XOR b = b" by simp
    then show "a = b" by (simp add: xor.assoc)
  qed simp
  then show ?thesis by (simp add: constant_time_eq_8_def constant_time_eq_w_def is_zero_w all_ones)
qed

lemma select_8: "constant_time_select_8 (if c then 0xff else 0) a b = (if c then a else b)"
proof -
  have "(ucast (ucast (0xff :: u8) AND ucast a OR NOT (ucast (0xff :: u8)) AND ucast b :: 64 word) :: u8) = a"
    by (rule u8_eqI) (auto simp: bit_simps)
  moreover have "(ucast (ucast (0 :: u8) AND ucast a OR NOT (ucast (0 :: u8)) AND ucast b :: 64 word) :: u8) = b"
    by (rule u8_eqI) (auto simp: bit_simps)
  ultimately show ?thesis by (simp add: constant_time_select_8_def constant_time_select_w_def)
qed

lemma lt_args_8: "constant_time_lt_args_8 a b = (if a < b then 0xff else 0)"
proof -
  have u: "unat (ucast a :: 64 word) = unat a" "unat (ucast b :: 64 word) = unat b" by (simp_all add: unat_ucast_up)
  have "bit (ucast a - ucast b :: 64 word) 63 \<longleftrightarrow> a < b"
  proof (cases "a < b")
    case True
    then have lt: "unat a < unat b" by (simp add: word_less_nat_alt)
    have "ucast b - ucast a \<noteq> (0 :: 64 word)" using lt u by auto
    have "unat (ucast a - ucast b :: 64 word) = 2 ^ 64 + unat a - unat b"
      using lt u u8_cases_lt [of b] by (simp add: unat_sub_if' word_le_nat_alt)
    then show ?thesis using True lt u8_cases_lt [of b] by (simp add: bit_63)
  next
    case False
    then have le: "unat b \<le> unat a" by (simp add: word_less_nat_alt)
    then have "unat (ucast a - ucast b :: 64 word) = unat a - unat b"
      using u by (subst unat_sub_le) (simp_all add: word_le_nat_alt)
    then show ?thesis using False u8_cases_lt [of a] by (simp add: bit_63)
  qed
  then show ?thesis by (simp add: constant_time_lt_args_8_def Let_def msb_w all_ones)
qed

lemma in_range_8:
  assumes "mn \<le> mx" and "unat mx < 255"
  shows "constant_time_in_range_8 a mn mx = (if mn \<le> a \<and> a \<le> mx then 0xff else 0)"
proof -
  have w: "unat (mx - mn + 1) = unat mx - unat mn + 1"
    using assms by (simp add: unat_word_ariths unat_sub_le word_le_nat_alt)
  have "a - mn < mx - mn + 1 \<longleftrightarrow> mn \<le> a \<and> a \<le> mx"
  proof (cases "mn \<le> a")
    case True
    then show ?thesis using w assms by (simp add: word_less_nat_alt word_le_nat_alt unat_sub_le) linarith
  next
    case False
    then have "unat a < unat mn" by (simp add: word_le_nat_alt)
    then have "unat (a - mn) = 256 + unat a - unat mn"
      using u8_cases_lt [of mn] by (simp add: unat_sub_if' word_le_nat_alt)
    then show ?thesis using False w assms by (simp add: word_less_nat_alt word_le_nat_alt)
  qed
  then show ?thesis by (simp add: constant_time_in_range_8_def Let_def lt_args_8)
qed

section \<open>Encoding\<close>

definition conv_bin2ascii :: "u8 \<Rightarrow> u8" where
  "conv_bin2ascii a =
     (let a = a AND 0x3f;
          ret = constant_time_select_8 (constant_time_eq_8 (ucast a) 62) 43 47;
          ret = constant_time_select_8 (constant_time_lt_args_8 a 62) (a - 52 + 48) ret;
          ret = constant_time_select_8 (constant_time_lt_args_8 a 52) (a - 26 + 97) ret
      in constant_time_select_8 (constant_time_lt_args_8 a 26) (a + 65) ret)"

definition EVP_EncodedLength :: "size_t \<Rightarrow> size_t option" where
  "EVP_EncodedLength len =
     (if len + 2 < len then None
      else
        (let len = (len + 2) div 3 in
         if drop_bit 2 (push_bit 2 len) \<noteq> len then None
         else (let len = push_bit 2 len in if len + 1 < len then None else Some (len + 1))))"

text \<open>
  The bytes of \<open>src\<close> that are still unread, \<open>remaining\<close> of them; the result is what is written to
  \<open>dst\<close> up to the terminating zero.
\<close>

fun encode_blocks :: "bytes \<Rightarrow> nat \<Rightarrow> bytes" where
  "encode_blocks src remaining =
     (if remaining = 0 then []
      else if remaining \<ge> 3 then
        (let l = push_bit 16 (ucast (src ! 0)) OR push_bit 8 (ucast (src ! 1)) OR ucast (src ! 2) :: u32 in
         conv_bin2ascii (ucast (drop_bit 18 l)) # conv_bin2ascii (ucast (drop_bit 12 l)) #
         conv_bin2ascii (ucast (drop_bit 6 l)) # conv_bin2ascii (ucast l) # encode_blocks (drop 3 src) (remaining - 3))
      else
        (let l = push_bit 16 (ucast (src ! 0)) :: u32;
             l = (if remaining = 2 then l OR push_bit 8 (ucast (src ! 1)) else l) in
         [conv_bin2ascii (ucast (drop_bit 18 l)), conv_bin2ascii (ucast (drop_bit 12 l)),
          if remaining = 1 then 61 else conv_bin2ascii (ucast (drop_bit 6 l)), 61]))"

declare encode_blocks.simps [simp del]

text \<open>\<open>ret\<close> grows by 4 with every round.\<close>

definition EVP_EncodeBlock :: "bytes \<Rightarrow> size_t \<Rightarrow> bytes \<times> size_t" where
  "EVP_EncodeBlock src src_len =
     (let out = encode_blocks src (unat src_len) in (out @ [0], of_nat (length out)))"

text \<open>RFC 4648, section 4: 24 bits at a time, in four characters of the alphabet.\<close>

definition alphabet :: bytes where
  "alphabet = map of_nat ([65..<91] @ [97..<123] @ [48..<58] @ [43, 47])"

definition b64 :: "nat \<Rightarrow> u8" where "b64 n = alphabet ! (n mod 64)"

fun base64 :: "bytes \<Rightarrow> bytes" where
  "base64 [] = []"
| "base64 [a] = (let n = 65536 * unat a in [b64 (n div 262144), b64 (n div 4096), 61, 61])"
| "base64 [a, b] = (let n = 65536 * unat a + 256 * unat b in
     [b64 (n div 262144), b64 (n div 4096), b64 (n div 64), 61])"
| "base64 (a # b # c # xs) = (let n = 65536 * unat a + 256 * unat b + unat c in
     [b64 (n div 262144), b64 (n div 4096), b64 (n div 64), b64 n] @ base64 xs)"

lemma conv_cases:
  "conv_bin2ascii a = (let n = unat a mod 64 in
     if n < 26 then of_nat (65 + n) else if n < 52 then of_nat (71 + n)
     else if n < 62 then of_nat (n - 4) else if n = 62 then 43 else 47)"
proof -
  have "a AND 0x3f = take_bit 6 a" by (rule u8_eqI) (auto simp: bit_simps)
  then have n: "unat (a AND 0x3f) = unat a mod 64" by (simp add: unat_take_bit)
  define x where "x = a AND 0x3f"
  define n where "n = unat a mod 64"
  have x: "unat x = n" "n < 64" using n by (simp_all add: x_def n_def)
  have e: "conv_bin2ascii a = (if x < 26 then x + 65 else if x < 52 then x - 26 + 97
      else if x < 62 then x - 52 + 48 else if (ucast x :: 64 word) = 62 then 43 else 47)"
    unfolding conv_bin2ascii_def x_def [symmetric] Let_def lt_args_8 eq_8 select_8 by simp
  have "(ucast x :: 64 word) = 62 \<longleftrightarrow> n = 62" using x by (simp add: word_unat_eq_iff unat_ucast_up)
  moreover have "x + 65 = of_nat (65 + n)" "x - 26 + 97 = of_nat (71 + n)" using x(1) by auto
  moreover have "52 \<le> n \<Longrightarrow> x - 52 + 48 = of_nat (n - 4)" using x(1) by (auto simp: of_nat_diff)
  ultimately show ?thesis unfolding e n_def [symmetric] Let_def using x by (simp add: word_less_nat_alt)
qed

lemma alphabet_nth:
  "n < 64 \<Longrightarrow> alphabet ! n = (if n < 26 then of_nat (65 + n) else if n < 52 then of_nat (71 + n)
     else if n < 62 then of_nat (n - 4) else if n = 62 then 43 else 47)"
  by (auto simp: alphabet_def nth_append nth_Cons' simp del: upt_rec_numeral)

lemma conv_alphabet: "conv_bin2ascii a = b64 (unat a)"
  unfolding b64_def conv_cases Let_def by (rule alphabet_nth [symmetric]) simp

text \<open>The 24-bit group as a number.\<close>

lemma group_word:
  fixes a b c :: u8
  shows "unat (push_bit 16 (ucast a) OR push_bit 8 (ucast b) OR ucast c :: u32) = 65536 * unat a + 256 * unat b + unat c"
proof -
  have "push_bit 16 (ucast a) OR push_bit 8 (ucast b) OR ucast c = (of_nat (256 * (256 * unat a + unat b) + unat c) :: u32)"
    (is "?l = _")
  proof -
    have "push_bit 8 (ucast a) AND ucast b = (0 :: u32)" "push_bit 8 (push_bit 8 (ucast a) OR ucast b) AND ucast c = (0 :: u32)"
      by (rule bit_word_eqI; auto simp: bit_simps dest: bit_imp_le_length)+
    then have "push_bit 8 (ucast a) OR ucast b = 256 * ucast a + (ucast b :: u32)"
      and "push_bit 8 (push_bit 8 (ucast a) OR ucast b) OR ucast c = 256 * (push_bit 8 (ucast a) OR ucast b) + (ucast c :: u32)"
      by (simp_all add: disjunctive_add_eq_or [symmetric] push_bit_eq_mult mult.commute)
    moreover have "?l = push_bit 8 (push_bit 8 (ucast a) OR ucast b) OR ucast c" by (simp add: push_bit_or or.assoc)
    ultimately have "?l = 256 * (256 * ucast a + ucast b) + ucast c" by (simp only:)
    then show ?thesis by simp
  qed
  moreover have "256 * (256 * unat a + unat b) + unat c < 2 ^ 32"
    using u8_cases_lt [of a] u8_cases_lt [of b] u8_cases_lt [of c] by simp
  then have "unat (of_nat (256 * (256 * unat a + unat b) + unat c) :: u32) = 256 * (256 * unat a + unat b) + unat c"
    by (simp only: unat_of_nat) simp
  ultimately show ?thesis by simp
qed

lemma conv_group:
  fixes l :: u32
  shows "conv_bin2ascii (ucast (drop_bit k l)) = b64 (unat l div 2 ^ k)"
proof -
  have "unat (ucast (drop_bit k l) :: u8) mod 64 = unat l div 2 ^ k mod 64"
  proof -
    have "unat (ucast (drop_bit k l) :: u8) = unat l div 2 ^ k mod 256"
      by (simp add: unsigned_ucast_eq take_bit_eq_mod unat_drop_bit)
    then show ?thesis by (simp add: mod_mod_cancel)
  qed
  then show ?thesis by (simp add: conv_alphabet b64_def)
qed

lemmas conv_group_0 = conv_group [of 0, simplified]

lemma encode_blocks_append: "encode_blocks (xs @ ys) (length xs) = base64 xs"
proof (induction xs rule: base64.induct)
  case 1
  then show ?case by (simp add: encode_blocks.simps)
next
  case (2 a)
  note g = group_word [of a 0 0]
  then show ?case by (simp add: encode_blocks.simps Let_def conv_group conv_group_0 unat_drop_bit)
next
  case (3 a b)
  note g = group_word [of a b 0]
  then show ?case by (simp add: encode_blocks.simps Let_def conv_group conv_group_0 unat_drop_bit)
next
  case (4 a b c xs)
  then show ?case
    by (subst encode_blocks.simps) (simp add: Let_def conv_group conv_group_0 group_word unat_drop_bit)
qed

lemmas encode_blocks_base64 = encode_blocks_append [where ys = "[]", simplified]

lemma encode_blocks_take: "n \<le> length xs \<Longrightarrow> encode_blocks xs n = base64 (take n xs)"
  using encode_blocks_append [of "take n xs" "drop n xs"] by simp

lemma encode_block_eq:
  assumes "length src < 2 ^ 64"
  shows "EVP_EncodeBlock src (of_nat (length src)) = (base64 src @ [0], of_nat (length (base64 src)))"
  using unat_of_nat_size [OF assms] encode_blocks_base64 [of src] by (simp add: EVP_EncodeBlock_def Let_def)

lemma length_base64: "length (base64 xs) = 4 * ((length xs + 2) div 3)"
proof (induction xs rule: base64.induct)
  case (4 a b c xs)
  have "(length (a # b # c # xs) + 2) div 3 = (length xs + 2) div 3 + 1" by simp
  with 4 show ?case by (simp add: Let_def)
qed (simp_all add: Let_def)

text \<open>
  C19: \<open>EVP_EncodeBlock\<close> computes the base64 encoding of RFC 4648, padding included, followed by a zero
  byte, and returns its length.
\<close>

theorem encode_block_rfc4648:
  assumes "length src < 2 ^ 62" and "EVP_EncodeBlock src (of_nat (length src)) = (dst, n)"
  shows "dst = base64 src @ [0] \<and> unat n = length (base64 src)"
proof (rule conjI)
  have "length src < 2 ^ 64" using assms(1) by simp
  with assms(2) have e: "dst = base64 src @ [0]" "n = of_nat (length (base64 src))"
    by (simp_all add: encode_block_eq)
  show "dst = base64 src @ [0]" by (rule e)
  show "unat n = length (base64 src)"
    unfolding e by (intro unat_of_nat_size) (use assms(1) length_base64 [of src] in simp)
qed

theorem encode_block_rfc4648_witness: "unat (8 :: size_t) = length (base64 [1, 2, 3, 4])"
proof -
  have "EVP_EncodeBlock [1, 2, 3, 4] (of_nat (length [1, 2, 3, 4 :: u8])) = ([65, 81, 73, 68, 66, 65, 61, 61, 0], 8)"
    by code_simp
  from encode_block_rfc4648 [OF _ this] show ?thesis by simp
qed

section \<open>The encoding stream\<close>

text \<open>
  \<open>EVP_ENCODE_CTX\<close>. A call returns the context it leaves, the bytes it leaves in \<open>out\<close> (the
  terminating zero included, when one is written) and \<open>*out_len\<close>.
\<close>

record evp_encode_ctx =
  data_used :: u32
  ctx_data :: bytes
  eof_seen :: bool
  error_encountered :: bool

definition INT_MAX :: size_t where "INT_MAX = 0x7fffffff"

definition copy_to :: "nat \<Rightarrow> bytes \<Rightarrow> bytes \<Rightarrow> bytes" where
  "copy_to off bs d = take off d @ bs @ drop (off + length bs) d"

definition terminated :: "bytes \<Rightarrow> bytes" where
  "terminated out = (if out = [] then [] else out @ [0])"

definition EVP_EncodeInit :: evp_encode_ctx where
  "EVP_EncodeInit = \<lparr> data_used = 0, ctx_data = replicate 48 0, eof_seen = False, error_encountered = False \<rparr>"

text \<open>The line \<open>EVP_EncodeBlock\<close> writes and the newline over its zero; \<open>encoded + 1\<close> bytes.\<close>

definition encode_line :: "bytes \<Rightarrow> bytes \<times> size_t" where
  "encode_line src = (let (dst, encoded) = EVP_EncodeBlock src 48 in (take (unat encoded) dst @ [10], encoded))"

text \<open>The loop over full lines: \<open>Inl\<close> where the total wraps around and the function returns.\<close>

function encode_lines :: "bytes \<Rightarrow> size_t \<Rightarrow> size_t \<Rightarrow> bytes \<Rightarrow> bytes + (bytes \<times> size_t \<times> size_t \<times> bytes)" where
  "encode_lines input in_len tot out =
     (if in_len \<ge> 48 then
        (let (line, encoded) = encode_line input; input = drop 48 input; in_len = in_len - 48; out = out @ line in
         if tot + encoded + 1 < tot then Inl out
         else encode_lines input in_len (tot + encoded + 1) out)
      else Inr (input, in_len, tot, out))"
  by pat_completeness auto
termination
  by (relation "measure (\<lambda>(_, n, _). unat n)") (auto simp: word_le_nat_alt unat_sub_le)

declare encode_lines.simps [simp del]

definition EVP_EncodeUpdate :: "evp_encode_ctx \<Rightarrow> bytes \<Rightarrow> size_t \<Rightarrow> evp_encode_ctx \<times> bytes \<times> u32" where
  "EVP_EncodeUpdate ctx input in_len =
     (if in_len = 0 then (ctx, [], 0)
      else if 48 - ucast (data_used ctx) > in_len then
        (ctx\<lparr>ctx_data := copy_to (unat (data_used ctx)) (take (unat in_len) input) (ctx_data ctx),
             data_used := data_used ctx + ucast in_len\<rparr>, [], 0)
      else
        (let (ctx, input, in_len, tot, out) =
           (if data_used ctx \<noteq> 0 then
              (let todo = 48 - ucast (data_used ctx);
                   ctx = ctx\<lparr>ctx_data := copy_to (unat (data_used ctx)) (take (unat todo) input) (ctx_data ctx)\<rparr>;
                   (line, encoded) = encode_line (ctx_data ctx)
               in (ctx\<lparr>data_used := 0\<rparr>, drop (unat todo) input, in_len - todo, encoded + 1, line))
            else (ctx, input, in_len, 0, [])) in
         case encode_lines input in_len tot out of
           Inl out \<Rightarrow> (ctx, terminated out, 0)
         | Inr (input, in_len, tot, out) \<Rightarrow>
             (let ctx = (if in_len \<noteq> 0 then ctx\<lparr>ctx_data := copy_to 0 (take (unat in_len) input) (ctx_data ctx)\<rparr> else ctx);
                  ctx = ctx\<lparr>data_used := ucast in_len\<rparr>;
                  tot = (if tot > INT_MAX then 0 else tot)
              in (ctx, terminated out, ucast tot))))"

definition EVP_EncodeFinal :: "evp_encode_ctx \<Rightarrow> evp_encode_ctx \<times> bytes \<times> u32" where
  "EVP_EncodeFinal ctx =
     (if data_used ctx = 0 then (ctx, [], 0)
      else
        (let (dst, encoded) = EVP_EncodeBlock (ctx_data ctx) (ucast (data_used ctx)) in
         (ctx\<lparr>data_used := 0\<rparr>, take (unat encoded) dst @ [10, 0], ucast (encoded + 1))))"

text \<open>A caller of the stream: one \<open>EVP_EncodeUpdate\<close> per chunk, then \<open>EVP_EncodeFinal\<close>.\<close>

fun encode_stream :: "evp_encode_ctx \<Rightarrow> bytes list \<Rightarrow> bytes" where
  "encode_stream ctx [] = (let (_, out, out_len) = EVP_EncodeFinal ctx in take (unat out_len) out)"
| "encode_stream ctx (c # cs) =
     (let (ctx, out, out_len) = EVP_EncodeUpdate ctx c (of_nat (length c))
      in take (unat out_len) out @ encode_stream ctx cs)"

text \<open>What it promises: lines of 48 bytes, and a last shorter one.\<close>

function pem_lines :: "bytes \<Rightarrow> bytes" where
  "pem_lines xs = (if length xs < 48 then [] else base64 (take 48 xs) @ [10] @ pem_lines (drop 48 xs))"
  by pat_completeness auto
termination by (relation "measure length") auto

declare pem_lines.simps [simp del]

definition pem_rest :: "bytes \<Rightarrow> bytes" where "pem_rest xs = drop (48 * (length xs div 48)) xs"

definition pem :: "bytes \<Rightarrow> bytes" where
  "pem xs = pem_lines xs @ (if pem_rest xs = [] then [] else base64 (pem_rest xs) @ [10])"

lemma encode_block_take:
  assumes "unat n \<le> length src"
  shows "EVP_EncodeBlock src n = (base64 (take (unat n) src) @ [0], of_nat (length (base64 (take (unat n) src))))"
  using assms by (simp add: EVP_EncodeBlock_def encode_blocks_take Let_def)

lemma encode_line_eq: "48 \<le> length src \<Longrightarrow> encode_line src = (base64 (take 48 src) @ [10], 64)"
  using encode_block_take [of 48 src] length_base64 [of "take 48 src"] by (simp add: encode_line_def)

lemma length_pem_lines: "length (pem_lines xs) = 65 * (length xs div 48)"
proof (induction xs rule: pem_lines.induct)
  case (1 xs)
  show ?case
  proof (cases "length xs < 48")
    case False
    then have "length xs div 48 = (length xs - 48) div 48 + 1" by (simp add: le_div_geq)
    with False 1 show ?thesis by (subst pem_lines.simps) (simp add: length_base64)
  qed (simp add: pem_lines.simps)
qed

lemma pem_rest_short: "length xs < 48 \<Longrightarrow> pem_rest xs = xs"
  by (simp add: pem_rest_def)

lemma length_pem_rest: "length (pem_rest xs) = length xs mod 48"
  by (simp add: pem_rest_def minus_mult_div_eq_mod)

lemma pem_step:
  assumes "48 \<le> length xs"
  shows "pem_lines xs = base64 (take 48 xs) @ [10] @ pem_lines (drop 48 xs)" "pem_rest xs = pem_rest (drop 48 xs)"
proof -
  show "pem_lines xs = base64 (take 48 xs) @ [10] @ pem_lines (drop 48 xs)" using assms by (subst pem_lines.simps) simp
  have "48 * (length xs div 48) = 48 + 48 * ((length xs - 48) div 48)" using assms by (simp add: le_div_geq)
  then show "pem_rest xs = pem_rest (drop 48 xs)" by (simp add: pem_rest_def add.commute)
qed

text \<open>What a prefix has written does not depend on the rest.\<close>

lemma pem_append: "pem_lines (xs @ ys) = pem_lines xs @ pem_lines (pem_rest xs @ ys)" "pem_rest (xs @ ys) = pem_rest (pem_rest xs @ ys)"
proof (induction xs rule: pem_lines.induct)
  case (1 xs)
  {
    case 1
    show ?case
    proof (cases "length xs < 48")
      case False
      with "1.IH"(1) show ?thesis by (simp add: pem_step [of xs] pem_step [of "xs @ ys"])
    qed (simp add: pem_rest_short pem_lines.simps [of xs])
  next
    case 2
    show ?case
    proof (cases "length xs < 48")
      case False
      with "1.IH"(2) show ?thesis by (simp add: pem_step [of xs] pem_step [of "xs @ ys"])
    qed (simp add: pem_rest_short)
  }
qed

lemma encode_lines_eq:
  "length input = unat n \<Longrightarrow> unat tot + 65 * (unat n div 48) < 2 ^ 64 \<Longrightarrow>
   encode_lines input n tot out =
     Inr (pem_rest input, of_nat (length (pem_rest input)), tot + of_nat (length (pem_lines input)), out @ pem_lines input)"
proof (induction input n tot out rule: encode_lines.induct)
  case (1 input n tot out)
  show ?case
  proof (cases "48 \<le> n")
    case True
    then have n: "48 \<le> unat n" "unat (n - 48) = unat n - 48" by (simp_all add: word_le_nat_alt unat_sub_le)
    then have d: "unat n div 48 = (unat n - 48) div 48 + 1" by (simp add: le_div_geq)
    have t: "unat (tot + 64 + 1) = unat tot + 65" using "1.prems"(2) d
      by (simp add: unat_word_ariths)
    then have "\<not> tot + 64 + 1 < tot" by (simp add: word_less_nat_alt)
    moreover have "encode_lines (drop 48 input) (n - 48) (tot + 64 + 1) (out @ base64 (take 48 input) @ [10]) =
      Inr (pem_rest (drop 48 input), of_nat (length (pem_rest (drop 48 input))),
        tot + 64 + 1 + of_nat (length (pem_lines (drop 48 input))), (out @ base64 (take 48 input) @ [10]) @ pem_lines (drop 48 input))"
      by (rule "1.IH" [OF True]) (use "1.prems" n d t encode_line_eq [of input] calculation in simp_all)
    ultimately show ?thesis
      using "1.prems"(1) n True by (subst encode_lines.simps) (simp add: encode_line_eq pem_step [of input] length_base64)
  next
    case False
    then have "unat n < 48" by (simp add: word_le_nat_alt)
    with "1.prems"(1) False show ?thesis
      by (subst encode_lines.simps) (simp add: pem_rest_short pem_lines.simps)
  qed
qed

text \<open>The invariant of an encoding context: \<open>p\<close> waits for the rest of its line.\<close>

definition pending :: "evp_encode_ctx \<Rightarrow> bytes \<Rightarrow> bool" where
  "pending ctx p \<longleftrightarrow> length (ctx_data ctx) = 48 \<and> length p < 48 \<and> unat (data_used ctx) = length p \<and>
     take (length p) (ctx_data ctx) = p"

lemma pending_init: "pending EVP_EncodeInit []"
  by (simp add: pending_def EVP_EncodeInit_def)

lemma copy_to_simps:
  assumes "off + length bs \<le> length d"
  shows "length (copy_to off bs d) = length d" "take (off + length bs) (copy_to off bs d) = take off d @ bs"
  using assms by (simp_all add: copy_to_def)

lemma pending_copy:
  assumes "pending ctx p" and "length p + length bs < 48" and "unat (n :: u32) = length p + length bs"
  shows "pending (ctx\<lparr>ctx_data := copy_to (length p) bs (ctx_data ctx), data_used := n\<rparr>) (p @ bs)"
  using assms copy_to_simps [of "length p" bs "ctx_data ctx"] by (simp add: pending_def)

lemma used_size: "pending ctx p \<Longrightarrow> unat (48 - ucast (data_used ctx) :: size_t) = 48 - length p"
  unfolding pending_def by (subst unat_sub_le) (simp_all add: unat_ucast_up word_le_nat_alt)

lemma pending_zero: "pending ctx p \<Longrightarrow> data_used ctx = 0 \<longleftrightarrow> p = []"
  by (auto simp: pending_def word_unat_eq_iff)

text \<open>\<open>EVP_EncodeUpdate\<close> on a context in which \<open>p\<close> is pending: the two paths.\<close>

lemma encode_update_short:
  assumes "pending ctx p" and "length p + length bs < 48"
  shows "\<exists>ctx'. EVP_EncodeUpdate ctx bs (of_nat (length bs)) = (ctx', [], 0) \<and> pending ctx' (p @ bs)"
proof (cases "bs = []")
  case False
  have l: "unat (of_nat (length bs) :: size_t) = length bs" "unat (data_used ctx) = length p"
    using assms by (auto simp: pending_def intro: unat_of_nat_size)
  have "unat (data_used ctx + ucast (of_nat (length bs) :: size_t)) = length p + length bs"
    using l assms by (simp add: unat_word_ariths unsigned_ucast_eq take_bit_eq_mod)
  then have "pending (ctx\<lparr>ctx_data := copy_to (length p) bs (ctx_data ctx),
      data_used := data_used ctx + ucast (of_nat (length bs) :: size_t)\<rparr>) (p @ bs)"
    by (rule pending_copy [OF assms])
  moreover have "of_nat (length bs) \<noteq> (0 :: size_t)" using l(1) False by auto
  moreover have "48 - ucast (data_used ctx) > (of_nat (length bs) :: size_t)"
    using used_size [OF assms(1)] l assms(2) by (simp add: word_less_nat_alt)
  ultimately show ?thesis using l by (simp add: EVP_EncodeUpdate_def)
qed (use assms(1) in \<open>simp add: EVP_EncodeUpdate_def\<close>)

lemma encode_update_fill:
  assumes p: "pending ctx p" and "p \<noteq> []" and "48 \<le> length p + length bs"
  defines "todo \<equiv> 48 - length p"
  shows "take 48 (p @ bs) = copy_to (length p) (take todo bs) (ctx_data ctx)" "drop 48 (p @ bs) = drop todo bs"
proof -
  have "copy_to (length p) (take todo bs) (ctx_data ctx) = take (length p) (ctx_data ctx) @ take todo bs"
    using assms by (simp add: copy_to_def pending_def)
  then show "take 48 (p @ bs) = copy_to (length p) (take todo bs) (ctx_data ctx)"
    using p by (simp add: pending_def todo_def)
  show "drop 48 (p @ bs) = drop todo bs" using p by (simp add: pending_def todo_def)
qed

lemma pending_rest:
  assumes "length (ctx_data ctx) = 48" and "n = (of_nat (length (pem_rest xs)) :: size_t)"
  shows "pending ((if n \<noteq> 0 then ctx\<lparr>ctx_data := copy_to 0 (take (unat n) (pem_rest xs)) (ctx_data ctx)\<rparr> else ctx)
     \<lparr>data_used := ucast n\<rparr>) (pem_rest xs)"
proof -
  have l: "length (pem_rest xs) < 48" by (simp add: length_pem_rest)
  then have n: "unat n = length (pem_rest xs)" unfolding assms(2) by (intro unat_of_nat_size) simp
  then have "unat (ucast n :: u32) = length (pem_rest xs)"
    using l by (simp add: unsigned_ucast_eq take_bit_eq_mod)
  moreover have "n = 0 \<longleftrightarrow> pem_rest xs = []" using n by (auto simp: word_unat_eq_iff)
  ultimately show ?thesis
    using assms(1) l n copy_to_simps [of 0 "pem_rest xs" "ctx_data ctx"] by (simp add: pending_def)
qed

lemma encode_update_lines:
  assumes p: "pending ctx p" and long: "48 \<le> length p + length bs" and "length bs < 2 ^ 63"
  shows "\<exists>ctx'. EVP_EncodeUpdate ctx bs (of_nat (length bs)) =
      (ctx', terminated (pem_lines (p @ bs)),
       ucast (if of_nat (length (pem_lines (p @ bs))) > INT_MAX then 0 else of_nat (length (pem_lines (p @ bs))) :: size_t)) \<and>
      pending ctx' (pem_rest (p @ bs))"
proof -
  define n :: size_t where "n = of_nat (length bs)"
  have n: "unat n = length bs" unfolding n_def using assms(3) by (intro unat_of_nat_size) simp
  have pl: "length p < 48" "length (ctx_data ctx) = 48" "unat (data_used ctx) = length p" using p by (simp_all add: pending_def)
  have g: "n \<noteq> 0" "\<not> 48 - ucast (data_used ctx) > n"
    using used_size [OF p] n long pl by (auto simp: word_less_nat_alt)
  show ?thesis
  proof (cases "p = []")
    case True
    have "encode_lines bs n 0 [] = Inr (pem_rest bs, of_nat (length (pem_rest bs)), 0 + of_nat (length (pem_lines bs)), [] @ pem_lines bs)"
      by (rule encode_lines_eq) (use n assms(3) in simp_all)
    with g True pending_zero [OF p] pending_rest [OF pl(2) refl, of bs] show ?thesis
      unfolding n_def [symmetric] by (simp add: EVP_EncodeUpdate_def Let_def)
  next
    case False
    note fill = encode_update_fill [OF p False long]
    define todo :: size_t where "todo = 48 - ucast (data_used ctx)"
    have t: "unat todo = 48 - length p" unfolding todo_def by (rule used_size [OF p])
    define d where "d = copy_to (length p) (take (unat todo) bs) (ctx_data ctx)"
    have d: "take 48 (p @ bs) = d" "drop 48 (p @ bs) = drop (unat todo) bs" unfolding d_def t by (rule fill)+
    have ld: "length d = 48" using d(1) long by (metis length_append length_take min.absorb2)
    have sub: "unat (n - todo) = length bs - unat todo" using t n long by (subst unat_sub_le) (simp_all add: word_le_nat_alt)
    have step: "pem_lines (p @ bs) = (base64 d @ [10]) @ pem_lines (drop (unat todo) bs)"
      "pem_rest (p @ bs) = pem_rest (drop (unat todo) bs)"
      using pem_step [of "p @ bs"] long d by simp_all
    have "encode_lines (drop (unat todo) bs) (n - todo) 65 (base64 d @ [10]) =
      Inr (pem_rest (drop (unat todo) bs), of_nat (length (pem_rest (drop (unat todo) bs))),
        65 + of_nat (length (pem_lines (drop (unat todo) bs))), (base64 d @ [10]) @ pem_lines (drop (unat todo) bs))"
      by (rule encode_lines_eq) (use sub n assms(3) in simp_all)
    moreover have "65 + of_nat (length (pem_lines (drop (unat todo) bs))) = (of_nat (length (pem_lines (p @ bs))) :: size_t)"
      unfolding step using ld by (simp add: length_base64)
    ultimately have "encode_lines (drop (unat todo) bs) (n - todo) 65 (base64 d @ [10]) =
      Inr (pem_rest (p @ bs), of_nat (length (pem_rest (p @ bs))), of_nat (length (pem_lines (p @ bs))), pem_lines (p @ bs))"
      unfolding step by simp
    moreover have "encode_line d = (base64 d @ [10], 64)" using encode_line_eq [of d] ld by simp
    ultimately show ?thesis
      using g False pending_zero [OF p] pl pending_rest [of "ctx\<lparr>ctx_data := d, data_used := 0\<rparr>", OF _ refl, of "p @ bs"] ld
      unfolding n_def [symmetric] EVP_EncodeUpdate_def todo_def [symmetric] pl(3) d_def [symmetric]
      by (simp add: Let_def todo_def [symmetric] pl(3) d_def [symmetric])
  qed
qed

lemma out_len_small:
  assumes "n \<le> 0x7fffffff"
  shows "unat (ucast (if (of_nat n :: size_t) > INT_MAX then 0 else of_nat n :: size_t) :: u32) = n"
proof -
  have "unat (of_nat n :: size_t) = n" by (rule unat_of_nat_size) (use assms in simp)
  with assms show ?thesis
    by (simp add: INT_MAX_def word_less_nat_alt unsigned_ucast_eq take_bit_eq_mod)
qed

lemma encode_update_eq:
  assumes p: "pending ctx p" and len: "length bs < 2 ^ 30"
  shows "\<exists>ctx' out n. EVP_EncodeUpdate ctx bs (of_nat (length bs)) = (ctx', out, n) \<and>
      take (unat n) out = pem_lines (p @ bs) \<and> pending ctx' (pem_rest (p @ bs))"
proof (cases "length p + length bs < 48")
  case True
  then show ?thesis using encode_update_short [OF p True] by (auto simp: pem_rest_short pem_lines.simps)
next
  case False
  have "length p + length bs \<le> 47 + 2 ^ 30" using len p by (simp add: pending_def)
  then have "(length p + length bs) div 48 \<le> (47 + 2 ^ 30) div 48" by (rule div_le_mono)
  then have "length (pem_lines (p @ bs)) \<le> 0x7fffffff" by (simp add: length_pem_lines)
  note n = out_len_small [OF this]
  have "48 \<le> length p + length bs" "length bs < 2 ^ 63" using False len by simp_all
  from encode_update_lines [OF p this] obtain ctx' where
    "EVP_EncodeUpdate ctx bs (of_nat (length bs)) = (ctx', terminated (pem_lines (p @ bs)),
       ucast (if of_nat (length (pem_lines (p @ bs))) > INT_MAX then 0 else of_nat (length (pem_lines (p @ bs))) :: size_t))"
    "pending ctx' (pem_rest (p @ bs))" by blast
  moreover have "take (length (pem_lines (p @ bs))) (terminated (pem_lines (p @ bs))) = pem_lines (p @ bs)"
    by (simp add: terminated_def)
  ultimately show ?thesis using n by metis
qed

lemma encode_final_eq:
  assumes p: "pending ctx p"
  shows "\<exists>ctx' out n. EVP_EncodeFinal ctx = (ctx', out, n) \<and>
     take (unat n) out = (if p = [] then [] else base64 p @ [10]) \<and> pending ctx' []"
proof (cases "p = []")
  case True
  then show ?thesis using p pending_zero [OF p] by (simp add: EVP_EncodeFinal_def)
next
  case False
  have u: "unat (ucast (data_used ctx) :: size_t) = length p" using p by (simp add: pending_def unat_ucast_up)
  have pl: "length p < 48" "take (length p) (ctx_data ctx) = p" "length (ctx_data ctx) = 48" using p by (simp_all add: pending_def)
  define k where "k = length (base64 p)"
  have k: "k \<le> 64" using pl(1) by (simp add: k_def length_base64)
  have b: "EVP_EncodeBlock (ctx_data ctx) (ucast (data_used ctx)) = (base64 p @ [0], of_nat k)"
    using encode_block_take [of "ucast (data_used ctx)" "ctx_data ctx"] u pl by (simp add: k_def)
  have "unat (of_nat k :: size_t) = k" "unat (of_nat k + 1 :: size_t) = k + 1"
    using k unat_of_nat_size [of k] unat_of_nat_size [of "k + 1"] by (simp_all add: add.commute)
  then have "EVP_EncodeFinal ctx = (ctx\<lparr>data_used := 0\<rparr>, base64 p @ [10, 0], ucast (of_nat k + 1 :: size_t))"
    "unat (ucast (of_nat k + 1 :: size_t) :: u32) = k + 1"
    using b False k pending_zero [OF p] k_def
    by (simp_all add: EVP_EncodeFinal_def unsigned_ucast_eq take_bit_eq_mod)
  moreover have "pending (ctx\<lparr>data_used := 0\<rparr>) []" using pl by (simp add: pending_def)
  ultimately show ?thesis using False k_def by simp
qed

lemma encode_stream_pem:
  "pending ctx p \<Longrightarrow> \<forall>c \<in> set cs. length c < 2 ^ 30 \<Longrightarrow>
   encode_stream ctx cs = pem (p @ concat cs)"
proof (induction cs arbitrary: ctx p)
  case Nil
  then have "length p < 48" by (simp add: pending_def)
  then have "pem p = (if p = [] then [] else base64 p @ [10])"
    by (simp add: pem_def pem_rest_short pem_lines.simps)
  with encode_final_eq [OF Nil.prems(1)] show ?case by auto
next
  case (Cons c cs)
  from encode_update_eq [OF Cons.prems(1), of c] Cons.prems(2)
  obtain ctx' out n where u: "EVP_EncodeUpdate ctx c (of_nat (length c)) = (ctx', out, n)"
    "take (unat n) out = pem_lines (p @ c)" and p: "pending ctx' (pem_rest (p @ c))" by auto
  have "pem (p @ concat (c # cs)) = pem_lines (p @ c) @ pem (pem_rest (p @ c) @ concat cs)"
    using pem_append [of "p @ c" "concat cs"] by (simp add: pem_def)
  then show ?case using Cons.IH [OF p] Cons.prems(2) u by simp
qed

text \<open>
  C6: The encoding stream does not depend on how the input is cut into \<open>EVP_EncodeUpdate\<close> calls: the
  bytes announced by the \<open>*out_len\<close>s, up to and with \<open>EVP_EncodeFinal\<close>, are the base64 lines of 48
  bytes each of the whole input, every line ended by a newline.
\<close>

theorem encode_stream_chunks:
  assumes "\<forall>c \<in> set cs. length c < 2 ^ 30"
  shows "encode_stream EVP_EncodeInit cs = pem (concat cs)"
  using encode_stream_pem [OF pending_init assms] by simp

theorem encode_stream_chunks_witness:
  "encode_stream EVP_EncodeInit [[1], [2, 3], replicate 48 7] = pem (1 # 2 # 3 # replicate 48 7)"
  using encode_stream_chunks [of "[[1], [2, 3], replicate 48 7]"] by simp

section \<open>Decoding\<close>

definition EVP_DecodedLength :: "size_t \<Rightarrow> size_t option" where
  "EVP_DecodedLength len = (if len mod 4 \<noteq> 0 then None else Some (len div 4 * 3))"

definition base64_ascii_to_bin :: "u8 \<Rightarrow> u8" where
  "base64_ascii_to_bin a =
     (let is_upper = constant_time_in_range_8 a 65 90;
          is_lower = constant_time_in_range_8 a 97 122;
          is_digit = constant_time_in_range_8 a 48 57;
          is_plus = constant_time_eq_8 (ucast a) 43;
          is_slash = constant_time_eq_8 (ucast a) 47;
          is_equals = constant_time_eq_8 (ucast a) 61;
          ret = 0xff;
          ret = constant_time_select_8 is_upper (a - 65) ret;
          ret = constant_time_select_8 is_lower (a - 97 + 26) ret;
          ret = constant_time_select_8 is_digit (a - 48 + 52) ret;
          ret = constant_time_select_8 is_plus 62 ret;
          ret = constant_time_select_8 is_slash 63 ret
      in constant_time_select_8 is_equals 0 ret)"

text \<open>The result is what is written to \<open>out\<close>; \<open>*out_num_bytes\<close> is its length.\<close>

definition base64_decode_quad :: "bytes \<Rightarrow> bytes option" where
  "base64_decode_quad input =
     (let a = base64_ascii_to_bin (input ! 0); b = base64_ascii_to_bin (input ! 1);
          c = base64_ascii_to_bin (input ! 2); d = base64_ascii_to_bin (input ! 3) in
      if a = 0xff \<or> b = 0xff \<or> c = 0xff \<or> d = 0xff then None
      else
        (let v = push_bit 18 (ucast a) OR push_bit 12 (ucast b) OR push_bit 6 (ucast c) OR ucast d :: u32;
             padding_pattern = (if input ! 0 = 61 then 8 else 0) OR (if input ! 1 = 61 then 4 else 0) OR
               (if input ! 2 = 61 then 2 else 0) OR (if input ! 3 = 61 then 1 else 0 :: u32) in
         if padding_pattern = 0 then
           Some [ucast (drop_bit 16 v), ucast (drop_bit 8 v), ucast v]
         else if padding_pattern = 1 then Some [ucast (drop_bit 16 v), ucast (drop_bit 8 v)]
         else if padding_pattern = 3 then Some [ucast (drop_bit 16 v)]
         else None))"

text \<open>The loop of \<open>EVP_DecodeBase64\<close> over the quads from \<open>i\<close> on; \<open>acc\<close> has been written to \<open>out\<close>.\<close>

function decode_quads :: "bytes \<Rightarrow> size_t \<Rightarrow> nat \<Rightarrow> bytes \<Rightarrow> bytes option" where
  "decode_quads input in_len i acc =
     (if i < unat in_len then
        (case base64_decode_quad (drop i input) of
           None \<Rightarrow> None
         | Some bs \<Rightarrow>
             if length bs \<noteq> 3 \<and> of_nat i \<noteq> in_len - 4 then None
             else decode_quads input in_len (i + 4) (acc @ bs))
      else Some acc)"
  by pat_completeness auto
termination by (relation "measure (\<lambda>(_, n, i, _). unat n - i)") auto

declare decode_quads.simps [simp del]

definition EVP_DecodeBase64 :: "size_t \<Rightarrow> bytes \<Rightarrow> size_t \<Rightarrow> bytes option" where
  "EVP_DecodeBase64 max_out input in_len =
     (if in_len mod 4 \<noteq> 0 then None
      else case EVP_DecodedLength in_len of
             None \<Rightarrow> None
           | Some max_len \<Rightarrow> if max_out < max_len then None else decode_quads input in_len 0 [])"

text \<open>The inverse of the alphabet, and of one group.\<close>

definition unb64 :: "u8 \<Rightarrow> nat option" where
  "unb64 c = (if 65 \<le> unat c \<and> unat c \<le> 90 then Some (unat c - 65)
     else if 97 \<le> unat c \<and> unat c \<le> 122 then Some (unat c - 71)
     else if 48 \<le> unat c \<and> unat c \<le> 57 then Some (unat c + 4)
     else if c = 43 then Some 62 else if c = 47 then Some 63 else None)"

lemma ascii_to_bin_cases:
  "base64_ascii_to_bin c = (if c = 61 then 0 else case unb64 c of None \<Rightarrow> 0xff | Some n \<Rightarrow> of_nat n)"
proof -
  have w: "(ucast c :: 64 word) = ucast d \<longleftrightarrow> c = d" for d :: u8
    by (simp add: word_unat_eq_iff unat_ucast_up)
  have u: "(ucast (43 :: u8) :: 64 word) = 43" "(ucast (47 :: u8) :: 64 word) = 47" "(ucast (61 :: u8) :: 64 word) = 61"
    by simp_all
  have r: "65 \<le> c \<and> c \<le> 90 \<longleftrightarrow> 65 \<le> unat c \<and> unat c \<le> 90" "97 \<le> c \<and> c \<le> 122 \<longleftrightarrow> 97 \<le> unat c \<and> unat c \<le> 122"
    "48 \<le> c \<and> c \<le> 57 \<longleftrightarrow> 48 \<le> unat c \<and> unat c \<le> 57" by (simp_all add: word_le_nat_alt)
  have n: "65 \<le> unat c \<Longrightarrow> of_nat (unat c - 65) = c - 65" "97 \<le> unat c \<Longrightarrow> of_nat (unat c - 71) = c - 97 + 26"
    "of_nat (unat c + 4) = c - 48 + 52" by (auto simp: of_nat_diff)
  have e: "c = 43 \<longleftrightarrow> unat c = 43" "c = 47 \<longleftrightarrow> unat c = 47" "c = 61 \<longleftrightarrow> unat c = 61" by (simp_all add: word_unat_eq_iff)
  have "base64_ascii_to_bin c = (if c = 61 then 0 else if c = 47 then 63 else if c = 43 then 62
      else if 48 \<le> c \<and> c \<le> 57 then c - 48 + 52 else if 97 \<le> c \<and> c \<le> 122 then c - 97 + 26
      else if 65 \<le> c \<and> c \<le> 90 then c - 65 else 0xff)"
    unfolding base64_ascii_to_bin_def Let_def eq_8 u [symmetric] w select_8
    by (simp add: in_range_8 select_8 word_le_nat_alt)
  then show ?thesis unfolding unb64_def r e using n by auto
qed

lemma unb64_lt: "unb64 c = Some n \<Longrightarrow> n < 64"
  by (auto simp: unb64_def split: if_splits)

lemma unb64_b64: "unb64 (b64 n) = Some (n mod 64)"
proof -
  have "list_all (\<lambda>k. unb64 (alphabet ! k) = Some k) [0..<64]" by code_simp
  then have "\<forall>k < 64. unb64 (alphabet ! k) = Some k" by (simp add: list_all_iff del: upt_rec_numeral)
  then show ?thesis by (simp add: b64_def)
qed

lemma b64_not_equals [simp]: "b64 n \<noteq> 61"
proof
  assume "b64 n = 61"
  then have "unb64 61 = Some (n mod 64)" using unb64_b64 [of n] by simp
  then show False by (simp add: unb64_def)
qed

lemma ascii_to_bin_b64: "base64_ascii_to_bin (b64 n) = of_nat (n mod 64)"
  using unb64_b64 [of n] by (simp add: ascii_to_bin_cases)

lemma ascii_to_bin_equals: "base64_ascii_to_bin 61 = 0"
  by (simp add: ascii_to_bin_cases)

lemma small_not_ff: "n < 64 \<Longrightarrow> (of_nat n :: u8) \<noteq> 0xff"
  by (simp add: word_unat_eq_iff)

lemma quad_word:
  assumes "a < 64" and "b < 64" and "c < 64" and "d < 64"
  shows "unat (push_bit 18 (ucast (of_nat a :: u8)) OR push_bit 12 (ucast (of_nat b :: u8)) OR
      push_bit 6 (ucast (of_nat c :: u8)) OR ucast (of_nat d :: u8) :: u32) = 262144 * a + 4096 * b + 64 * c + d"
proof -
  have u: "n < 64 \<Longrightarrow> (ucast (of_nat n :: u8) :: u32) = of_nat n" for n
    by (simp add: word_unat_eq_iff unat_ucast_up unat_of_nat)
  have or_low: "push_bit 6 x OR of_nat n = 64 * x + of_nat n" if "n < 64" for x :: u32 and n
  proof -
    have "take_bit 6 n = n" using that by (intro take_bit_nat_eq_self) simp
    then have n: "bit n i \<Longrightarrow> i < 6" for i by (metis bit_take_bit_iff)
    have "push_bit 6 x AND of_nat n = (0 :: u32)"
      by (rule bit_word_eqI) (auto simp: bit_simps dest: n)
    then show ?thesis by (simp add: disjunctive_add_eq_or [symmetric] push_bit_eq_mult mult.commute)
  qed
  have "push_bit 18 (of_nat a) OR push_bit 12 (of_nat b) OR push_bit 6 (of_nat c) OR (of_nat d :: u32) =
      push_bit 6 (push_bit 6 (push_bit 6 (of_nat a) OR of_nat b) OR of_nat c) OR of_nat d"
    by (simp add: push_bit_or or.assoc)
  also have "\<dots> = of_nat (64 * (64 * (64 * a + b) + c) + d)" using assms by (simp add: or_low)
  finally have "push_bit 18 (of_nat a) OR push_bit 12 (of_nat b) OR push_bit 6 (of_nat c) OR (of_nat d :: u32) =
      of_nat (64 * (64 * (64 * a + b) + c) + d)" .
  moreover have "unat (of_nat (64 * (64 * (64 * a + b) + c) + d) :: u32) = 64 * (64 * (64 * a + b) + c) + d"
    using assms by (simp only: unat_of_nat) simp
  ultimately show ?thesis using assms by (simp add: u)
qed

text \<open>A group of three, two or one bytes comes back.\<close>

lemma regroup: "262144 * (n div 262144 mod 64) + 4096 * (n div 4096 mod 64) + 64 * (n div 64 mod 64) + n mod 64 = n"
  if "n < 16777216" for n :: nat
proof -
  have "n div 262144 < 64" using that by (simp add: div_less_iff_less_mult)
  then have "n div 262144 mod 64 = n div 4096 div 64" by (simp add: div_mult2_eq [symmetric])
  moreover have "n div 4096 = n div 64 div 64" by (simp add: div_mult2_eq [symmetric])
  moreover have "64 * (n div 4096 div 64) + n div 4096 mod 64 = n div 4096"
    "64 * (n div 64 div 64) + n div 64 mod 64 = n div 64" "64 * (n div 64) + n mod 64 = n" by simp_all
  ultimately show ?thesis by linarith
qed

lemma group_bytes:
  fixes a b c :: u8 and v :: u32
  assumes "unat v = 65536 * unat a + 256 * unat b + unat c"
  shows "ucast (drop_bit 16 v) = a" "ucast (drop_bit 8 v) = b" "ucast v = c"
proof -
  have lt: "unat a < 256" "unat b < 256" "unat c < 256" by (rule u8_cases_lt)+
  have d: "unat (ucast (drop_bit k v) :: u8) = unat v div 2 ^ k mod 256" for k
    by (simp add: unsigned_ucast_eq take_bit_eq_mod unat_drop_bit)
  have v: "unat v = 256 * (256 * unat a + unat b) + unat c" using assms by simp
  then have e: "unat v div 256 = 256 * unat a + unat b" "unat v mod 256 = unat c"
    using lt by (simp_all only: mod_mult_self4 div_mult_self4 mod_less div_less)
  have "unat v div 65536 = unat v div 256 div 256" by (simp add: div_mult2_eq [symmetric])
  then have "unat v div 65536 = unat a" "unat v div 256 mod 256 = unat b" "unat v mod 256 = unat c"
    unfolding e using lt e(2) by simp_all
  then show "ucast (drop_bit 16 v) = a" "ucast (drop_bit 8 v) = b" "ucast v = c"
    using d [of 16] d [of 8] d [of 0] lt by (simp_all add: word_unat_eq_iff)
qed

text \<open>The decoder on a quad whose characters have the values \<open>k1\<close> to \<open>k4\<close>.\<close>

lemma decode_quad_values:
  fixes v :: u32
  assumes k: "k1 < 64" "k2 < 64" "k3 < 64" "k4 < 64"
    and c: "base64_ascii_to_bin p = of_nat k1" "base64_ascii_to_bin q = of_nat k2"
      "base64_ascii_to_bin r = of_nat k3" "base64_ascii_to_bin s = of_nat k4"
    and ne: "p \<noteq> 61" "q \<noteq> 61"
    and v: "unat v = 262144 * k1 + 4096 * k2 + 64 * k3 + k4"
  shows "base64_decode_quad (p # q # r # s # xs) =
    (if r \<noteq> 61 \<and> s \<noteq> 61 then Some [ucast (drop_bit 16 v), ucast (drop_bit 8 v), ucast v]
     else if r \<noteq> 61 then Some [ucast (drop_bit 16 v), ucast (drop_bit 8 v)]
     else if s = 61 then Some [ucast (drop_bit 16 v)] else None)"
proof -
  have w: "push_bit 18 (ucast (of_nat k1 :: u8)) OR push_bit 12 (ucast (of_nat k2 :: u8)) OR
      push_bit 6 (ucast (of_nat k3 :: u8)) OR ucast (of_nat k4 :: u8) = v"
    using quad_word [OF k] v by (simp only: word_unat_eq_iff)
  have nth: "(p # q # r # s # xs) ! 0 = p" "(p # q # r # s # xs) ! 1 = q" "(p # q # r # s # xs) ! 2 = r"
    "(p # q # r # s # xs) ! 3 = s" by (simp_all add: numeral_2_eq_2 numeral_3_eq_3)
  have ff: "(of_nat k1 :: u8) \<noteq> 0xff" "(of_nat k2 :: u8) \<noteq> 0xff" "(of_nat k3 :: u8) \<noteq> 0xff" "(of_nat k4 :: u8) \<noteq> 0xff"
    using k small_not_ff by blast+
  show ?thesis
    unfolding base64_decode_quad_def nth c w Let_def
    using ff ne by (cases "r = 61"; cases "s = 61") simp_all
qed

lemma decode_quad_base64:
  fixes a b c :: u8
  defines "n \<equiv> 65536 * unat a + 256 * unat b + unat c"
  shows "base64_decode_quad (b64 (n div 262144) # b64 (n div 4096) # b64 (n div 64) # b64 n # xs) = Some [a, b, c]"
    and "c = 0 \<Longrightarrow> base64_decode_quad (b64 (n div 262144) # b64 (n div 4096) # b64 (n div 64) # 61 # xs) = Some [a, b]"
    and "b = 0 \<Longrightarrow> c = 0 \<Longrightarrow> base64_decode_quad (b64 (n div 262144) # b64 (n div 4096) # 61 # 61 # xs) = Some [a]"
proof -
  have lt: "n < 16777216" unfolding n_def using u8_cases_lt [of a] u8_cases_lt [of b] u8_cases_lt [of c] by simp
  define v :: u32 where "v = of_nat n"
  have vn: "unat v = n" using lt unfolding v_def by (simp add: unat_of_nat)
  then have v: "unat v = 262144 * (n div 262144 mod 64) + 4096 * (n div 4096 mod 64) + 64 * (n div 64 mod 64) + n mod 64"
    by (simp only: vn regroup [OF lt])
  have g: "unat v = 65536 * unat a + 256 * unat b + unat c" using vn by (simp add: n_def)
  have m: "k mod 64 < 64" for k :: nat by simp
  note vals = decode_quad_values [OF m m m m _ _ _ _ _ _ v, OF ascii_to_bin_b64 ascii_to_bin_b64]
  show "base64_decode_quad (b64 (n div 262144) # b64 (n div 4096) # b64 (n div 64) # b64 n # xs) = Some [a, b, c]"
    using vals [OF ascii_to_bin_b64 ascii_to_bin_b64] group_bytes [OF g] by simp
  {
    assume "c = 0"
    then have n64: "n = 64 * (1024 * unat a + 4 * unat b)" by (simp add: n_def)
    then have "n mod 64 = 0" by simp
    then have z: "base64_ascii_to_bin 61 = of_nat (n mod 64)" by (simp add: ascii_to_bin_equals)
    show "base64_decode_quad (b64 (n div 262144) # b64 (n div 4096) # b64 (n div 64) # 61 # xs) = Some [a, b]"
      using vals [OF ascii_to_bin_b64 z] group_bytes [OF g] by simp
    assume "b = 0"
    then have "n div 64 mod 64 = 0" using n64 by simp
    then have z': "base64_ascii_to_bin 61 = of_nat (n div 64 mod 64)" by (simp add: ascii_to_bin_equals)
    show "base64_decode_quad (b64 (n div 262144) # b64 (n div 4096) # 61 # 61 # xs) = Some [a]"
      using vals [OF z' z] group_bytes [OF g] by simp
  }
qed

lemma last_quad: "unat n = i + 4 \<Longrightarrow> n - 4 = (of_nat i :: size_t)"
proof -
  assume n: "unat n = i + 4"
  then have "unat (n - 4) = i" by (subst unat_sub_le) (simp_all add: word_le_nat_alt)
  then show ?thesis by auto
qed

lemma decode_quads_end: "\<not> i < unat n \<Longrightarrow> decode_quads input n i acc = Some acc"
  by (subst decode_quads.simps) simp

lemma drop_4: "drop 4 (p # q # r # s # zs) = zs"
  by (simp add: numeral_eq_Suc)

lemma decode_quads_base64:
  "drop i input = base64 xs @ tail \<Longrightarrow> unat n = i + length (base64 xs) \<Longrightarrow>
   decode_quads input n i acc = Some (acc @ xs)"
proof (induction xs arbitrary: i acc rule: base64.induct)
  case 1
  then show ?case by (simp add: decode_quads_end)
next
  case (2 a)
  let ?n = "65536 * unat a"
  have e: "drop i input = b64 (?n div 262144) # b64 (?n div 4096) # 61 # 61 # tail" using "2.prems"(1) by (simp add: Let_def)
  have n: "unat n = i + 4" using "2.prems"(2) by (simp add: Let_def)
  have "n - 4 = of_nat i" using n by (rule last_quad)
  moreover have "base64_decode_quad (drop i input) = Some [a]"
    unfolding e using decode_quad_base64(3) [of 0 0 a tail] by simp
  moreover have "decode_quads input n (i + 4) (acc @ [a]) = Some (acc @ [a])"
    by (rule decode_quads_end) (simp add: n)
  ultimately show ?case using n by (subst decode_quads.simps) simp
next
  case (3 a b)
  let ?n = "65536 * unat a + 256 * unat b"
  have e: "drop i input = b64 (?n div 262144) # b64 (?n div 4096) # b64 (?n div 64) # 61 # tail"
    using "3.prems"(1) by (simp add: Let_def)
  have n: "unat n = i + 4" using "3.prems"(2) by (simp add: Let_def)
  have "n - 4 = of_nat i" using n by (rule last_quad)
  moreover have "base64_decode_quad (drop i input) = Some [a, b]"
    unfolding e using decode_quad_base64(2) [of 0 a b tail] by simp
  moreover have "decode_quads input n (i + 4) (acc @ [a, b]) = Some (acc @ [a, b])"
    by (rule decode_quads_end) (simp add: n)
  ultimately show ?case using n by (subst decode_quads.simps) simp
next
  case (4 a b c xs)
  let ?n = "65536 * unat a + 256 * unat b + unat c"
  have e: "drop i input = b64 (?n div 262144) # b64 (?n div 4096) # b64 (?n div 64) # b64 ?n # base64 xs @ tail"
    using "4.prems"(1) by (simp add: Let_def)
  have n: "unat n = i + 4 + length (base64 xs)" using "4.prems"(2) by (simp add: Let_def)
  have "drop (i + 4) input = drop 4 (drop i input)" by (simp add: add.commute)
  then have d: "drop (i + 4) input = base64 xs @ tail" by (simp only: e drop_4)
  have "base64_decode_quad (drop i input) = Some [a, b, c]"
    unfolding e using decode_quad_base64(1) [of a b c] by simp
  then have "decode_quads input n i acc = decode_quads input n (i + 4) (acc @ [a, b, c])"
    using n by (subst decode_quads.simps) simp
  also have "\<dots> = Some ((acc @ [a, b, c]) @ xs)" by (rule "4.IH" [OF refl d n])
  finally show ?case by simp
qed

lemma decode_base64_of_block:
  assumes "length src < 2 ^ 60" and "EVP_EncodeBlock src (of_nat (length src)) = (out, n)"
    and "EVP_DecodedLength n = Some m" and "m \<le> max_out"
  shows "EVP_DecodeBase64 max_out out n = Some src"
proof -
  have "length src < 2 ^ 64" using assms(1) by simp
  then have o: "out = base64 src @ [0]" "n = of_nat (length (base64 src))"
    using assms(2) encode_block_eq by simp_all
  have n: "unat n = length (base64 src)" unfolding o(2) by (intro unat_of_nat_size) (use assms(1) length_base64 [of src] in simp)
  have "decode_quads out n 0 [] = Some ([] @ src)"
    by (rule decode_quads_base64 [where tail = "[0]"]) (simp_all add: o(1) n)
  then show ?thesis using assms(3,4) by (auto simp: EVP_DecodeBase64_def EVP_DecodedLength_def split: if_splits)
qed

text \<open>
  Decoding inverts encoding: \<open>EVP_DecodeBase64\<close> on what \<open>EVP_EncodeBlock\<close> wrote returns the source
  bytes, for any length and any padding, given an output buffer of the size \<open>EVP_DecodedLength\<close> says.
\<close>

theorem base64_roundtrip:
  assumes "length src < 2 ^ 60" and "EVP_EncodeBlock src (of_nat (length src)) = (out, n)"
  shows "\<exists>m. EVP_DecodedLength n = Some m \<and> (\<forall>max_out \<ge> m. EVP_DecodeBase64 max_out out n = Some src)"
proof -
  have "length src < 2 ^ 64" using assms(1) by simp
  then have n: "n = of_nat (4 * ((length src + 2) div 3))"
    using assms(2) encode_block_eq length_base64 [of src] by simp
  have "unat n = 4 * ((length src + 2) div 3)" unfolding n by (intro unat_of_nat_size) (use assms(1) in simp)
  then have "n mod 4 = 0" by (simp add: word_unat_eq_iff unat_mod)
  then have "EVP_DecodedLength n = Some (n div 4 * 3)" by (simp add: EVP_DecodedLength_def)
  with decode_base64_of_block [OF assms] show ?thesis by blast
qed

theorem base64_roundtrip_witness: "EVP_DecodeBase64 6 [65, 81, 73, 68, 66, 65, 61, 61, 0] 8 = Some [1, 2, 3, 4]"
proof -
  have "EVP_EncodeBlock [1, 2, 3, 4] (of_nat (length [1, 2, 3, 4 :: u8])) = ([65, 81, 73, 68, 66, 65, 61, 61, 0], 8)"
    by code_simp
  from base64_roundtrip [OF _ this] obtain m where
    m: "EVP_DecodedLength 8 = Some m" "\<forall>max_out \<ge> m. EVP_DecodeBase64 max_out [65, 81, 73, 68, 66, 65, 61, 61, 0] 8 = Some [1, 2, 3, 4]"
    by auto
  have "EVP_DecodedLength 8 = Some 6" by code_simp
  with m show ?thesis by simp
qed

section \<open>The decoding stream\<close>

definition EVP_DecodeInit :: evp_encode_ctx where
  "EVP_DecodeInit = \<lparr> data_used = 0, ctx_data = replicate 48 0, eof_seen = False, error_encountered = False \<rparr>"

abbreviation is_space :: "u8 \<Rightarrow> bool" where
  "is_space c \<equiv> c = 32 \<or> c = 9 \<or> c = 13 \<or> c = 10"

text \<open>The loop of \<open>EVP_DecodeUpdate\<close>; \<open>False\<close> where it returns -1.\<close>

fun decode_chars :: "evp_encode_ctx \<Rightarrow> bytes \<Rightarrow> bytes \<Rightarrow> bool \<times> evp_encode_ctx \<times> bytes" where
  "decode_chars ctx out [] = (True, ctx, out)"
| "decode_chars ctx out (c # cs) =
     (if is_space c then decode_chars ctx out cs
      else if eof_seen ctx then (False, ctx\<lparr>error_encountered := True\<rparr>, out)
      else
        (let ctx = ctx\<lparr>ctx_data := (ctx_data ctx)[unat (data_used ctx) := c], data_used := data_used ctx + 1\<rparr> in
         if data_used ctx = 4 then
           (case base64_decode_quad (ctx_data ctx) of
              None \<Rightarrow> (False, ctx\<lparr>error_encountered := True\<rparr>, out)
            | Some bs \<Rightarrow>
                (let ctx = ctx\<lparr>data_used := 0\<rparr>;
                     ctx = (if length bs < 3 then ctx\<lparr>eof_seen := True\<rparr> else ctx)
                 in decode_chars ctx (out @ bs) cs))
         else decode_chars ctx out cs))"

text \<open>The returned int, the context, the bytes written and \<open>*out_len\<close>.\<close>

definition EVP_DecodeUpdate :: "evp_encode_ctx \<Rightarrow> bytes \<Rightarrow> int \<times> evp_encode_ctx \<times> bytes \<times> u32" where
  "EVP_DecodeUpdate ctx input =
     (if error_encountered ctx then (- 1, ctx, [], 0)
      else case decode_chars ctx [] input of
        (False, ctx, out) \<Rightarrow> (- 1, ctx, out, 0)
      | (True, ctx, out) \<Rightarrow>
          (let bytes_out = of_nat (length out) :: size_t in
           if bytes_out > INT_MAX then (- 1, ctx\<lparr>error_encountered := True\<rparr>, out, 0)
           else (if eof_seen ctx then 0 else 1, ctx, out, ucast bytes_out)))"

definition EVP_DecodeFinal :: "evp_encode_ctx \<Rightarrow> int" where
  "EVP_DecodeFinal ctx = (if error_encountered ctx \<or> data_used ctx \<noteq> 0 then - 1 else 1)"

text \<open>A caller of the stream, which gives up at the first error.\<close>

fun decode_stream :: "evp_encode_ctx \<Rightarrow> bytes list \<Rightarrow> bytes option" where
  "decode_stream ctx [] = (if EVP_DecodeFinal ctx = - 1 then None else Some [])"
| "decode_stream ctx (c # cs) =
     (let (ret, ctx, out, out_len) = EVP_DecodeUpdate ctx c in
      if ret = - 1 then None else map_option ((@) (take (unat out_len) out)) (decode_stream ctx cs))"

text \<open>\<open>EVP_DecodeBlock\<close>: the two trimming loops, and the zeros for the padding.\<close>

fun trim_front :: "bytes \<Rightarrow> nat \<Rightarrow> bytes \<times> nat" where
  "trim_front src 0 = (src, 0)"
| "trim_front src (Suc n) = (if src ! 0 \<noteq> 32 \<and> src ! 0 \<noteq> 9 then (src, Suc n) else trim_front (drop 1 src) n)"

fun trim_back :: "bytes \<Rightarrow> nat \<Rightarrow> nat" where
  "trim_back src 0 = 0"
| "trim_back src (Suc n) = (if is_space (src ! n) then trim_back src n else Suc n)"

function restore_nuls :: "bytes \<Rightarrow> bytes" where
  "restore_nuls dst = (if length dst mod 3 \<noteq> 0 then restore_nuls (dst @ [0]) else dst)"
  by pat_completeness auto
termination
proof (relation "measure (\<lambda>dst. (3 - length dst mod 3) mod 3)")
  fix dst :: bytes
  assume "length dst mod 3 \<noteq> 0"
  moreover have "length dst mod 3 < 3" by simp
  ultimately have "length dst mod 3 = 1 \<or> length dst mod 3 = 2" by linarith
  then show "(dst @ [0], dst) \<in> measure (\<lambda>dst. (3 - length dst mod 3) mod 3)"
    by (elim disjE) (simp_all add: mod_Suc)
qed simp

declare restore_nuls.simps [simp del]

definition EVP_DecodeBlock :: "bytes \<Rightarrow> size_t \<Rightarrow> int \<times> bytes" where
  "EVP_DecodeBlock src src_len =
     (let (src, n) = trim_front src (unat src_len); src_len = of_nat (trim_back src n) in
      case EVP_DecodedLength src_len of
        None \<Rightarrow> (- 1, [])
      | Some dst_len \<Rightarrow>
          if dst_len > INT_MAX then (- 1, [])
          else case EVP_DecodeBase64 dst_len src src_len of
                 None \<Rightarrow> (- 1, [])
               | Some dst \<Rightarrow> (let dst = restore_nuls dst in (int (length dst), dst)))"

text \<open>
  The common specification: groups of four characters, each decoded, and nothing after a group
  that ends in padding.
\<close>

fun quads :: "bytes \<Rightarrow> bytes option" where
  "quads [] = Some []"
| "quads (p # q # r # s # xs) =
     (case base64_decode_quad [p, q, r, s] of
        None \<Rightarrow> None
      | Some bs \<Rightarrow> if length bs < 3 then (if xs = [] then Some bs else None) else map_option ((@) bs) (quads xs))"
| "quads _ = None"

lemma decode_quad_prefix: "base64_decode_quad (p # q # r # s # xs) = base64_decode_quad [p, q, r, s]"
proof -
  have nth: "(p # q # r # s # xs) ! 0 = p" "(p # q # r # s # xs) ! 1 = q" "(p # q # r # s # xs) ! 2 = r"
    "(p # q # r # s # xs) ! 3 = s" for xs by (simp_all add: numeral_2_eq_2 numeral_3_eq_3)
  show ?thesis unfolding base64_decode_quad_def nth by (rule refl)
qed

lemma decode_quad_length: "base64_decode_quad xs = Some bs \<Longrightarrow> length bs \<le> 3 \<and> 0 < length bs"
  unfolding base64_decode_quad_def Let_def by (simp only: split: if_splits) auto

lemma four_chars:
  assumes "length xs mod 4 = 0" and "xs \<noteq> []"
  obtains p q r s ys where "xs = p # q # r # s # ys" "length ys mod 4 = 0"
proof -
  have "4 \<le> length xs" using assms by (metis dvd_imp_le length_greater_0_conv mod_0_imp_dvd)
  then obtain p q r s ys where "xs = p # q # r # s # ys"
    by (auto simp: numeral_eq_Suc Suc_le_length_iff)
  with assms(1) that show thesis by simp
qed

lemma map_append_Nil [simp]: "map_option ((@) []) x = x"
  by (cases x) simp_all

lemma map_append_append: "map_option ((@) a) (map_option ((@) b) x) = map_option ((@) (a @ b)) x"
  by (cases x) simp_all

lemma quads_length: "quads xs = Some ys \<Longrightarrow> length xs mod 4 = 0"
proof (induction xs arbitrary: ys rule: quads.induct)
  case (2 p q r s xs)
  have "length xs mod 4 = 0"
    using "2.prems" "2.IH" by (cases "xs = []") (auto split: option.splits if_splits)
  moreover have "length (p # q # r # s # xs) = length xs + 4" by simp
  ultimately show ?case by (simp only: mod_add_self2)
qed simp_all

text \<open>\<open>EVP_DecodeBase64\<close> and the stream against the specification.\<close>

lemma decode_quads_spec:
  assumes "unat n \<le> length input"
  shows "take (unat n - i) (drop i input) = xs \<Longrightarrow> i \<le> unat n \<Longrightarrow> length xs mod 4 = 0 \<Longrightarrow>
    decode_quads input n i acc = map_option ((@) acc) (quads xs)"
proof (induction xs arbitrary: i acc rule: quads.induct)
  case 1
  then have "\<not> i < unat n" using assms by auto
  then show ?case by (simp add: decode_quads_end)
next
  case (2 p q r s xs)
  have len: "unat n - i = length xs + 4" using arg_cong [OF "2.prems"(1), of length] assms by simp
  then have i: "i < unat n" "i + 4 \<le> unat n" by simp_all
  have d: "drop i input = p # q # r # s # (xs @ drop (unat n) input)"
    using append_take_drop_id [of "unat n - i" "drop i input"] "2.prems"(1) i by simp
  have "drop (i + 4) input = drop 4 (drop i input)" by (simp add: add.commute)
  then have "drop (i + 4) input = xs @ drop (unat n) input" by (simp only: d drop_4)
  then have x: "take (unat n - (i + 4)) (drop (i + 4) input) = xs" using len by simp
  have at_end: "of_nat i \<noteq> n - 4 \<longleftrightarrow> xs \<noteq> []"
  proof -
    have "unat (n - 4) = unat n - 4" using i by (subst unat_sub_le) (simp_all add: word_le_nat_alt)
    moreover have "unat (of_nat i :: size_t) = i" using i unat_lt_size_max [of n] by (intro unat_of_nat_size) simp
    ultimately have "of_nat i = n - 4 \<longleftrightarrow> i = unat n - 4" by (metis word_unat_eq_iff)
    then show ?thesis using len i by auto
  qed
  have e: "decode_quads input n i acc = (case base64_decode_quad [p, q, r, s] of None \<Rightarrow> None
      | Some bs \<Rightarrow> if length bs \<noteq> 3 \<and> xs \<noteq> [] then None else decode_quads input n (i + 4) (acc @ bs))"
    unfolding decode_quads.simps [of input n i acc] if_P [OF i(1)] at_end d decode_quad_prefix [of p q r s "xs @ drop (unat n) input"]
    by (rule refl)
  show ?case
  proof (cases "base64_decode_quad [p, q, r, s]")
    case (Some bs)
    have bs: "length bs \<noteq> 3 \<longleftrightarrow> length bs < 3" using decode_quad_length [OF Some] by auto
    show ?thesis
    proof (cases "length bs < 3")
      case True
      have "xs = [] \<Longrightarrow> decode_quads input n (i + 4) (acc @ bs) = Some (acc @ bs)"
        using len by (intro decode_quads_end) simp
      then show ?thesis using e Some True bs by simp
    next
      case False
      have "decode_quads input n (i + 4) (acc @ bs) = map_option ((@) (acc @ bs)) (quads xs)"
        by (rule "2.IH" [OF Some False x]) (use i "2.prems"(3) in simp_all)
      then show ?thesis using e Some False bs by (simp add: map_append_append)
    qed
  qed (use e in simp)
qed (simp_all add: mod_Suc)

lemma decode_base64_quads:
  assumes "length input < 2 ^ 63" and "length input div 4 * 3 \<le> unat max_out"
  shows "EVP_DecodeBase64 max_out input (of_nat (length input)) = quads input"
proof -
  define n :: size_t where "n = of_nat (length input)"
  have n: "unat n = length input" unfolding n_def using assms(1) by (intro unat_of_nat_size) simp
  have m: "n mod 4 = 0 \<longleftrightarrow> length input mod 4 = 0" using n by (simp add: word_unat_eq_iff unat_mod)
  show ?thesis
  proof (cases "length input mod 4 = 0")
    case True
    have "unat (n div 4 * 3) = length input div 4 * 3" using n assms(1) by (simp add: unat_word_ariths unat_div)
    then have "\<not> max_out < n div 4 * 3" using assms(2) by (simp add: word_less_nat_alt)
    moreover have "decode_quads input n 0 [] = quads input"
      using decode_quads_spec [of n input 0 input "[]"] n True by (cases "quads input") simp_all
    ultimately show ?thesis using True m by (simp add: EVP_DecodeBase64_def EVP_DecodedLength_def flip: n_def)
  next
    case False
    then have "quads input = None" using quads_length by (cases "quads input") auto
    with False m show ?thesis by (simp add: EVP_DecodeBase64_def flip: n_def)
  qed
qed

definition decode_state :: "evp_encode_ctx \<Rightarrow> bytes \<Rightarrow> bool" where
  "decode_state ctx p \<longleftrightarrow> length (ctx_data ctx) = 48 \<and> length p < 4 \<and> unat (data_used ctx) = length p \<and>
     take (length p) (ctx_data ctx) = p \<and> \<not> error_encountered ctx \<and> (eof_seen ctx \<longrightarrow> p = [])"

text \<open>What remains to be read, from a context in which \<open>p\<close> waits for the rest of its group.\<close>

definition remaining :: "evp_encode_ctx \<Rightarrow> bytes \<Rightarrow> bytes \<Rightarrow> bytes option" where
  "remaining ctx p cs = (if eof_seen ctx then (if cs = [] then Some [] else None) else quads (p @ cs))"

abbreviation strip :: "bytes \<Rightarrow> bytes" where "strip \<equiv> filter (\<lambda>c. \<not> is_space c)"

lemma decode_state_step:
  fixes c :: u8
  assumes "decode_state ctx p" and "\<not> eof_seen ctx"
  defines "ctx1 \<equiv> ctx\<lparr>ctx_data := (ctx_data ctx)[unat (data_used ctx) := c], data_used := data_used ctx + 1\<rparr>"
  shows "length p = 3 \<Longrightarrow> data_used ctx1 = 4 \<and> base64_decode_quad (ctx_data ctx1) = base64_decode_quad (p @ [c]) \<and>
      decode_state (ctx1\<lparr>data_used := 0\<rparr>) [] \<and> decode_state (ctx1\<lparr>data_used := 0, eof_seen := True\<rparr>) []"
    and "length p \<noteq> 3 \<Longrightarrow> data_used ctx1 \<noteq> 4 \<and> decode_state ctx1 (p @ [c])"
proof -
  have s: "length (ctx_data ctx) = 48" "length p < 4" "unat (data_used ctx) = length p" "take (length p) (ctx_data ctx) = p"
    "\<not> error_encountered ctx" using assms(1) by (simp_all add: decode_state_def)
  have u: "unat (data_used ctx1) = length p + 1" using s by (simp add: ctx1_def unat_word_ariths)
  have d: "take (length p + 1) (ctx_data ctx1) = p @ [c]" using s by (simp add: ctx1_def take_Suc_conv_app_nth)
  {
    assume l: "length p = 3"
    have "unat (data_used ctx1) = unat (4 :: u32)" using u l by simp
    then have 4: "data_used ctx1 = 4" by (simp only: word_unat_eq_iff)
    obtain x y z where p: "p = [x, y, z]" using l by (auto simp: numeral_3_eq_3 length_Suc_conv)
    define tail where "tail = drop (length p + 1) (ctx_data ctx1)"
    have "ctx_data ctx1 = (p @ [c]) @ tail" unfolding tail_def d [symmetric] by (rule append_take_drop_id [symmetric])
    then have "ctx_data ctx1 = x # y # z # c # tail" using p by simp
    then have "base64_decode_quad (ctx_data ctx1) = base64_decode_quad (p @ [c])"
      using decode_quad_prefix [of x y z c tail] p by simp
    with 4 show "data_used ctx1 = 4 \<and> base64_decode_quad (ctx_data ctx1) = base64_decode_quad (p @ [c]) \<and>
      decode_state (ctx1\<lparr>data_used := 0\<rparr>) [] \<and> decode_state (ctx1\<lparr>data_used := 0, eof_seen := True\<rparr>) []"
      using s by (simp add: decode_state_def ctx1_def)
  }
  assume l: "length p \<noteq> 3"
  then have "unat (data_used ctx1) \<noteq> unat (4 :: u32)" using u by simp
  then have "data_used ctx1 \<noteq> 4" by auto
  with l s u d assms(2) show "data_used ctx1 \<noteq> 4 \<and> decode_state ctx1 (p @ [c])"
    by (simp add: decode_state_def) (simp add: ctx1_def)
qed

definition decoded :: "evp_encode_ctx \<Rightarrow> bytes \<Rightarrow> bytes \<Rightarrow> bytes \<Rightarrow> bool \<times> evp_encode_ctx \<times> bytes \<Rightarrow> bool" where
  "decoded ctx p out cs r \<longleftrightarrow>
     (case r of
        (False, ctx', _) \<Rightarrow> (\<forall>ds. remaining ctx p (strip cs @ ds) = None)
      | (True, ctx', out') \<Rightarrow>
          (\<exists>p' bs. decode_state ctx' p' \<and> out' = out @ bs \<and> length bs + length p' \<le> length p + length cs \<and>
             (\<forall>ds. remaining ctx p (strip cs @ ds) = map_option ((@) bs) (remaining ctx' p' ds))))"

lemma decoded_step:
  assumes "decoded ctx1 p1 (out @ bs) cs r" and "length bs + length p1 \<le> length p + 1"
    and "\<And>ds. remaining ctx p (strip (c # cs) @ ds) = map_option ((@) bs) (remaining ctx1 p1 (strip cs @ ds))"
  shows "decoded ctx p out (c # cs) r"
proof -
  obtain ok ctx' out' where r: "r = (ok, ctx', out')" by (cases r)
  show ?thesis
  proof (cases ok)
    case True
    with assms(1) r obtain p' bs' where "decode_state ctx' p'" "out' = (out @ bs) @ bs'"
      "length bs' + length p' \<le> length p1 + length cs"
      "\<forall>ds. remaining ctx1 p1 (strip cs @ ds) = map_option ((@) bs') (remaining ctx' p' ds)"
      by (auto simp: decoded_def)
    with assms(2) have "decode_state ctx' p' \<and> out' = out @ (bs @ bs') \<and> length (bs @ bs') + length p' \<le> length p + length (c # cs) \<and>
      (\<forall>ds. remaining ctx p (strip (c # cs) @ ds) = map_option ((@) (bs @ bs')) (remaining ctx' p' ds))"
      unfolding assms(3) by (simp add: map_append_append)
    then show ?thesis unfolding decoded_def r by (simp only: True prod.case bool.case) blast
  next
    case False
    with assms r show ?thesis by (simp only: decoded_def prod.case bool.case) simp
  qed
qed

lemma decode_chars_spec: "decode_state ctx p \<Longrightarrow> decoded ctx p out cs (decode_chars ctx out cs)"
proof (induction cs arbitrary: ctx p out)
  case Nil
  then have "decode_state ctx p \<and> out = out @ [] \<and> length ([] :: bytes) + length p \<le> length p + length ([] :: bytes) \<and>
      (\<forall>ds. remaining ctx p (strip [] @ ds) = map_option ((@) []) (remaining ctx p ds))"
    by simp
  then show ?case unfolding decoded_def decode_chars.simps prod.case bool.case by blast
next
  case (Cons c cs)
  show ?case
  proof (cases "is_space c")
    case True
    then have "strip (c # cs) = strip cs" by auto
    then have "decoded ctx p out (c # cs) (decode_chars ctx (out @ []) cs)"
      by (intro decoded_step [OF Cons.IH [OF Cons.prems]]) (simp_all only:, simp_all)
    then show ?thesis using True by auto
  next
    case ns: False
    show ?thesis
    proof (cases "eof_seen ctx")
      case True
      then show ?thesis using ns by (simp add: decoded_def remaining_def)
    next
      case eof: False
      define ctx1 where "ctx1 = ctx\<lparr>ctx_data := (ctx_data ctx)[unat (data_used ctx) := c], data_used := data_used ctx + 1\<rparr>"
      note step = decode_state_step [OF Cons.prems eof, of c, folded ctx1_def]
      have dc: "decode_chars ctx out (c # cs) = (if data_used ctx1 = 4 then
           (case base64_decode_quad (ctx_data ctx1) of None \<Rightarrow> (False, ctx1\<lparr>error_encountered := True\<rparr>, out)
            | Some bs \<Rightarrow> decode_chars (if length bs < 3 then ctx1\<lparr>data_used := 0, eof_seen := True\<rparr> else ctx1\<lparr>data_used := 0\<rparr>) (out @ bs) cs)
         else decode_chars ctx1 out cs)"
        using ns eof by (simp add: ctx1_def [symmetric] Let_def cong: option.case_cong)
      have neof: "\<not> eof_seen ctx1" using eof by (simp add: ctx1_def)
      have strip: "strip (c # cs) = c # strip cs" using ns by simp
      show ?thesis
      proof (cases "length p = 3")
        case True
        then obtain x y z where p: "p = [x, y, z]" by (auto simp: numeral_3_eq_3 length_Suc_conv)
        note step = step(1) [OF True]
        show ?thesis
        proof (cases "base64_decode_quad (p @ [c])")
          case None
          then have "decode_chars ctx out (c # cs) = (False, ctx1\<lparr>error_encountered := True\<rparr>, out)"
            unfolding dc using step by simp
          moreover have "remaining ctx p (strip (c # cs) @ ds) = None" for ds
            unfolding strip using None p eof by (simp add: remaining_def)
          ultimately show ?thesis by (simp add: decoded_def)
        next
          case (Some bs)
          define ctx2 where "ctx2 = (if length bs < 3 then ctx1\<lparr>data_used := 0, eof_seen := True\<rparr> else ctx1\<lparr>data_used := 0\<rparr>)"
          have e: "decode_chars ctx out (c # cs) = decode_chars ctx2 (out @ bs) cs"
            unfolding dc using step Some by (simp add: ctx2_def)
          have "decode_state ctx2 []" using step by (simp add: ctx2_def)
          then show ?thesis
            unfolding e
          proof (rule decoded_step [OF Cons.IH])
            show "length bs + length [] \<le> length p + 1" using decode_quad_length [OF Some] True by simp
            show "remaining ctx p (strip (c # cs) @ ds) = map_option ((@) bs) (remaining ctx2 [] (strip cs @ ds))" for ds
              unfolding strip using Some p eof neof by (simp add: remaining_def ctx2_def)
          qed
        qed
      next
        case False
        note step = step(2) [OF False]
        have e: "decode_chars ctx out (c # cs) = decode_chars ctx1 (out @ []) cs"
          unfolding dc using step by simp
        show ?thesis
          unfolding e
        proof (rule decoded_step [OF Cons.IH])
          show "decode_state ctx1 (p @ [c])" using step by simp
          show "length [] + length (p @ [c]) \<le> length p + 1" by simp
          show "remaining ctx p (strip (c # cs) @ ds) = map_option ((@) []) (remaining ctx1 (p @ [c]) (strip cs @ ds))" for ds
            unfolding strip using eof neof by (simp add: remaining_def)
        qed
      qed
    qed
  qed
qed

lemma decode_state_init: "decode_state EVP_DecodeInit []"
  by (simp add: decode_state_def EVP_DecodeInit_def)

lemma remaining_end: "decode_state ctx p \<Longrightarrow> remaining ctx p [] = (if EVP_DecodeFinal ctx = - 1 then None else Some [])"
  using quads_length [of p] by (cases "p = []"; cases "quads p")
    (auto simp: remaining_def EVP_DecodeFinal_def decode_state_def word_unat_eq_iff)

lemma out_len_decoded:
  assumes "n < 2 ^ 31"
  shows "\<not> (of_nat n :: size_t) > INT_MAX" "unat (ucast (of_nat n :: size_t) :: u32) = n"
proof -
  have "unat (of_nat n :: size_t) = n" by (rule unat_of_nat_size) (use assms in simp)
  with assms show "\<not> (of_nat n :: size_t) > INT_MAX" "unat (ucast (of_nat n :: size_t) :: u32) = n"
    by (simp_all add: INT_MAX_def word_less_nat_alt unsigned_ucast_eq take_bit_eq_mod)
qed

lemma decode_stream_remaining:
  "decode_state ctx p \<Longrightarrow> \<forall>c \<in> set cs. length c < 2 ^ 30 \<Longrightarrow>
   decode_stream ctx cs = remaining ctx p (strip (concat cs))"
proof (induction cs arbitrary: ctx p)
  case Nil
  then show ?case by (simp add: remaining_end)
next
  case (Cons c cs)
  obtain ok ctx' out where d: "decode_chars ctx [] c = (ok, ctx', out)" by (cases "decode_chars ctx [] c")
  have spec: "decoded ctx p [] c (ok, ctx', out)" using decode_chars_spec [OF Cons.prems(1), of "[]" c] d by simp
  have err: "\<not> error_encountered ctx" "length p < 4" using Cons.prems(1) by (simp_all add: decode_state_def)
  show ?case
  proof (cases ok)
    case False
    then have "remaining ctx p (strip c @ strip (concat cs)) = None" using spec by (simp only: decoded_def prod.case bool.case)
    then show ?thesis using False d err by (simp add: EVP_DecodeUpdate_def)
  next
    case True
    with spec obtain p' where p': "decode_state ctx' p'" "length out + length p' \<le> length p + length c"
      and r: "\<And>ds. remaining ctx p (strip c @ ds) = map_option ((@) out) (remaining ctx' p' ds)"
      by (auto simp: decoded_def)
    have "length out < 2 ^ 31" using p'(2) err(2) Cons.prems(2) by simp
    note n = out_len_decoded [OF this]
    have "EVP_DecodeUpdate ctx c = (if eof_seen ctx' then 0 else 1, ctx', out, ucast (of_nat (length out) :: size_t))"
      using True d err n by (simp add: EVP_DecodeUpdate_def)
    then have "decode_stream ctx (c # cs) = map_option ((@) out) (decode_stream ctx' cs)" using n by simp
    also have "\<dots> = remaining ctx p (strip c @ strip (concat cs))" using Cons.IH [OF p'(1)] Cons.prems(2) r by simp
    finally show ?thesis by simp
  qed
qed

lemma decode_stream_quads:
  "\<forall>c \<in> set cs. length c < 2 ^ 30 \<Longrightarrow> decode_stream EVP_DecodeInit cs = quads (strip (concat cs))"
  using decode_stream_remaining [OF decode_state_init] by (simp add: remaining_def EVP_DecodeInit_def)

text \<open>
  C5: The decoding stream is \<open>EVP_DecodeBase64\<close> on the characters that are not white space, whatever
  the cuts between the calls of \<open>EVP_DecodeUpdate\<close>: both return the same bytes, and both fail on the
  same inputs.
\<close>

theorem decode_stream_equiv:
  assumes "\<forall>c \<in> set cs. length c < 2 ^ 30" and "length (strip (concat cs)) < 2 ^ 63"
    and "length (strip (concat cs)) div 4 * 3 \<le> unat max_out"
  shows "decode_stream EVP_DecodeInit cs =
    EVP_DecodeBase64 max_out (strip (concat cs)) (of_nat (length (strip (concat cs))))"
  unfolding decode_stream_quads [OF assms(1)] by (rule decode_base64_quads [OF assms(2,3), symmetric])

theorem decode_stream_equiv_witness:
  "decode_stream EVP_DecodeInit [[65, 10, 81], [73, 32], [68]] = EVP_DecodeBase64 3 [65, 81, 73, 68] 4"
  using decode_stream_equiv [of "[[65, 10, 81], [73, 32], [68]]" 3] by simp

text \<open>The base64 text of the encoder has no white space except its newlines.\<close>

lemma b64_not_space [simp]: "\<not> is_space (b64 n)"
proof -
  have "unb64 (b64 n) \<noteq> None" using unb64_b64 [of n] by simp
  then show ?thesis by (auto simp: unb64_def)
qed

lemma strip_base64: "strip (base64 xs) = base64 xs"
proof (induction xs rule: base64.induct)
  case (4 a b c xs)
  then show ?case using b64_not_space by (auto simp: Let_def)
qed (use b64_not_space in \<open>auto simp: Let_def\<close>)

lemma quads_base64: "quads (base64 xs) = Some xs"
proof (induction xs rule: base64.induct)
  case (2 a)
  have "quads (base64 [a]) = Some [a]" using decode_quad_base64(3) [of 0 0 a "[]"] by (simp add: Let_def)
  then show ?case .
next
  case (3 a b)
  then show ?case using decode_quad_base64(2) [of 0 a b "[]"] by (simp add: Let_def)
next
  case (4 a b c xs)
  then show ?case using decode_quad_base64(1) [of a b c "[]"] by (simp add: Let_def)
qed simp

lemma quads_append: "length xs mod 3 = 0 \<Longrightarrow> quads (base64 xs @ ys) = map_option ((@) xs) (quads ys)"
proof (induction xs rule: base64.induct)
  case (4 a b c xs)
  have "length xs mod 3 = 0" using "4.prems" by (simp add: mod_Suc split: if_splits)
  then have "quads (base64 xs @ ys) = map_option ((@) xs) (quads ys)" by (rule "4.IH" [OF refl])
  then show ?case using decode_quad_base64(1) [of a b c "[]"] by (cases "quads ys") (simp_all add: Let_def)
qed simp_all

lemma quads_pem: "quads (strip (pem_lines xs @ base64 (pem_rest xs))) = Some xs"
proof (induction xs rule: pem_lines.induct)
  case (1 xs)
  show ?case
  proof (cases "length xs < 48")
    case True
    then show ?thesis using strip_base64 [of xs] quads_base64 [of xs] by (simp add: pem_lines.simps pem_rest_short)
  next
    case False
    then have "strip (pem_lines xs @ base64 (pem_rest xs)) =
        base64 (take 48 xs) @ strip (pem_lines (drop 48 xs) @ base64 (pem_rest (drop 48 xs)))"
      using strip_base64 [of "take 48 xs"] by (simp add: pem_step [of xs])
    moreover have "length (take 48 xs) mod 3 = 0" using False by simp
    ultimately show ?thesis using quads_append "1.IH" [OF False] by simp
  qed
qed

text \<open>
  C7: The streams invert each other: what the encoding stream writes for any chunks, cut anywhere into
  chunks of its own, decodes to the bytes that went in.
\<close>

theorem stream_roundtrip:
  assumes "\<forall>c \<in> set cs. length c < 2 ^ 30" and "\<forall>d \<in> set ds. length d < 2 ^ 30"
    and "concat ds = encode_stream EVP_EncodeInit cs"
  shows "decode_stream EVP_DecodeInit ds = Some (concat cs)"
proof -
  have "strip (concat ds) = strip (pem_lines (concat cs) @ base64 (pem_rest (concat cs)))"
    using encode_stream_pem [OF pending_init assms(1)] assms(3) by (simp add: pem_def)
  then show ?thesis using decode_stream_quads [OF assms(2)] quads_pem by simp
qed

theorem stream_roundtrip_witness:
  "decode_stream EVP_DecodeInit [[65, 81], [73, 61, 10]] = Some [1, 2]"
proof -
  have "encode_stream EVP_EncodeInit [[1], [2]] = [65, 81, 73, 61, 10]" by code_simp
  then show ?thesis using stream_roundtrip [of "[[1], [2]]" "[[65, 81], [73, 61, 10]]"] by simp
qed

text \<open>\<open>EVP_DecodeBlock\<close>: trimming, and the zeros in place of the padding.\<close>

lemma trim_front_eq:
  "\<forall>c \<in> set w. c = 32 \<or> c = 9 \<Longrightarrow> n = 0 \<or> rest ! 0 \<noteq> 32 \<and> rest ! 0 \<noteq> 9 \<Longrightarrow>
   trim_front (w @ rest) (length w + n) = (rest, n)"
proof (induction w)
  case Nil
  then show ?case by (cases n) auto
qed auto

lemma trim_back_eq:
  "\<forall>i. m \<le> i \<and> i < n \<longrightarrow> is_space (src ! i) \<Longrightarrow> m = 0 \<or> \<not> is_space (src ! (m - 1)) \<Longrightarrow> m \<le> n \<Longrightarrow>
   trim_back src n = m"
proof (induction n)
  case (Suc n)
  show ?case
  proof (cases "m = Suc n")
    case True
    then have "\<not> is_space (src ! n)" using Suc.prems(2) by simp
    then show ?thesis unfolding True trim_back.simps by (rule if_not_P)
  next
    case False
    then have "is_space (src ! n)" "m \<le> n" using Suc.prems(1,3) by auto
    moreover have "trim_back src n = m" using Suc.IH Suc.prems(1,2) \<open>m \<le> n\<close> by (meson less_SucI)
    ultimately show ?thesis by simp
  qed
qed simp

lemma restore_nuls_eq: "restore_nuls xs = xs @ replicate (3 * ((length xs + 2) div 3) - length xs) 0"
proof -
  obtain q r where n: "length xs = 3 * q + r" "r < 3" using div_mult_mod_eq [of "length xs" 3] mod_less_divisor [of 3 "length xs"]
    by (metis mult.commute zero_less_numeral)
  then consider "r = 0" | "r = 1" | "r = 2" by linarith
  then show ?thesis
  proof cases
    case 1
    then show ?thesis using n by (subst restore_nuls.simps) simp
  next
    case 2
    then have "length xs mod 3 = 1" "length xs = 3 * q + 1" using n by simp_all
    then show ?thesis
      by (subst restore_nuls.simps, subst restore_nuls.simps, subst restore_nuls.simps)
        (simp add: mod_Suc numeral_2_eq_2)
  next
    case 3
    then have l: "length xs = 3 * q + 2" using n by simp
    then have "length xs mod 3 = 2" by (simp only: mod_mult_self4) simp
    with l show ?thesis
      by (subst restore_nuls.simps, subst restore_nuls.simps) (simp add: mod_Suc)
  qed
qed

lemma decode_base64_tail:
  assumes "length xs < 2 ^ 60" and "n = of_nat (length (base64 xs))"
  shows "EVP_DecodedLength n = Some (of_nat (3 * ((length xs + 2) div 3))) \<and>
    EVP_DecodeBase64 (of_nat (3 * ((length xs + 2) div 3))) (base64 xs @ tail) n = Some xs"
proof -
  have n: "unat n = 4 * ((length xs + 2) div 3)"
    unfolding assms(2) length_base64 by (intro unat_of_nat_size) (use assms(1) in simp)
  have q: "unat (n div 4) = (length xs + 2) div 3" using n by (simp add: unat_div)
  have "n div 4 = of_nat (unat (n div 4))" by simp
  then have "n div 4 = of_nat ((length xs + 2) div 3)" unfolding q .
  moreover have "n mod 4 = 0" using n by (simp add: word_unat_eq_iff unat_mod)
  moreover have "decode_quads (base64 xs @ tail) n 0 [] = Some ([] @ xs)"
    by (rule decode_quads_base64 [where tail = tail]) (simp_all add: n length_base64)
  ultimately show ?thesis by (simp add: EVP_DecodeBase64_def EVP_DecodedLength_def mult.commute)
qed

text \<open>
  C21: \<open>EVP_DecodeBlock\<close> drops spaces and tabs in front of the text and white space behind it, and
  returns the decoded bytes filled up with zeros to a multiple of three.
\<close>

theorem decode_block_trims:
  assumes "length xs < 2 ^ 30" and "\<forall>c \<in> set w. c = 32 \<or> c = 9" and "\<forall>c \<in> set w'. is_space c"
    and "length w < 2 ^ 30" and "length w' < 2 ^ 30" and "src = w @ base64 xs @ w'"
    and "xs \<noteq> []"
  shows "EVP_DecodeBlock src (of_nat (length src)) =
    (int (3 * ((length xs + 2) div 3)), xs @ replicate (3 * ((length xs + 2) div 3) - length xs) 0)"
proof -
  define m where "m = length (base64 xs)"
  have m: "m = 4 * ((length xs + 2) div 3)" by (simp add: m_def length_base64)
  have "0 < (length xs + 2) div 3" using assms(7) by (simp add: div_greater_zero_iff Suc_le_eq)
  then have mb: "0 < m" "m < 2 ^ 31" using m assms(1) by simp_all
  have len: "unat (of_nat (length src) :: size_t) = length w + (m + length w')"
    using assms(4,5) mb by (subst unat_of_nat_size) (simp_all add: assms(6) m_def)
  have ns: "\<not> is_space (base64 xs ! k)" if "k < m" for k
    using strip_base64 [of xs] that nth_mem [of k "base64 xs"] unfolding filter_id_conv m_def by blast
  have f: "trim_front src (length w + (m + length w')) = (base64 xs @ w', m + length w')"
    unfolding assms(6) by (rule trim_front_eq) (use assms(2) ns [of 0] mb m_def in \<open>auto simp: nth_append\<close>)
  have b: "trim_back (base64 xs @ w') (m + length w') = m"
  proof (rule trim_back_eq)
    show "\<forall>i. m \<le> i \<and> i < m + length w' \<longrightarrow> is_space ((base64 xs @ w') ! i)"
    proof (intro allI impI)
      fix i
      assume i: "m \<le> i \<and> i < m + length w'"
      then have "(base64 xs @ w') ! i = w' ! (i - m)" by (simp add: nth_append m_def)
      moreover have "w' ! (i - m) \<in> set w'" using i by (intro nth_mem) auto
      ultimately show "is_space ((base64 xs @ w') ! i)" using assms(3) by (simp only:)
    qed
    have "(base64 xs @ w') ! (m - 1) = base64 xs ! (m - 1)" using mb by (simp add: nth_append m_def)
    with ns [of "m - 1"] mb show "m = 0 \<or> \<not> is_space ((base64 xs @ w') ! (m - 1))" by (simp only:) simp
  qed simp
  have "length xs < 2 ^ 60" using assms(1) by simp
  note d = decode_base64_tail [OF this refl, of w', folded m_def]
  have "\<not> (of_nat (3 * ((length xs + 2) div 3)) :: size_t) > INT_MAX"
    by (rule out_len_decoded(1)) (use assms(1) in simp)
  then show ?thesis using len f b d by (simp add: EVP_DecodeBlock_def restore_nuls_eq)
qed

theorem decode_block_trims_witness:
  "EVP_DecodeBlock [32, 9, 65, 81, 61, 61, 13, 10] 8 = (3, [1, 0, 0])"
proof -
  have "fst (EVP_EncodeBlock [1] (of_nat (length [1 :: u8]))) = [65, 81, 61, 61, 0]" by code_simp
  then have e: "base64 [1] = [65, 81, 61, 61]" using encode_block_eq [of "[1]"] by simp
  have "EVP_DecodeBlock [32, 9, 65, 81, 61, 61, 13, 10] (of_nat (length [32, 9, 65, 81, 61, 61, 13, 10 :: u8])) =
    (int (3 * ((length [1 :: u8] + 2) div 3)), [1] @ replicate (3 * ((length [1 :: u8] + 2) div 3) - length [1 :: u8]) 0)"
    by (rule decode_block_trims [where w = "[32, 9]" and w' = "[13, 10]"]) (simp_all only: e, simp_all)
  moreover have "(of_nat (length [32, 9, 65, 81, 61, 61, 13, 10 :: u8]) :: size_t) = 8" by simp
  moreover have "3 * ((length [1 :: u8] + 2) div 3) = 3" "3 - length [1 :: u8] = Suc (Suc 0)" by simp_all
  ultimately show ?thesis by (simp only: replicate.simps append.simps of_nat_numeral)
qed

end
