(* ===== verification/Unicode.thy ===== *)
theory Unicode
  imports Exchange
begin

text \<open>
  \<open>crypto/bytestring/unicode.c\<close>: code points read and written in UTF-8, Latin-1, UCS-2 and UTF-32. Each
  reader refines the parser of its encoding, each writer appends the encoding, and the encodings
  are uniquely decodable.
\<close>

section \<open>The code\<close>

definition is_valid_code_point :: "u32 \<Rightarrow> bool" where
  "is_valid_code_point v =
     (if v > 0x10ffff \<or> v AND 0xfffe = 0xfffe \<or> (v \<ge> 0xfdd0 \<and> v \<le> 0xfdef) \<or> (v \<ge> 0xd800 \<and> v \<le> 0xdfff)
      then False else True)"

definition BOTTOM_BITS :: "nat \<Rightarrow> u8" where
  "BOTTOM_BITS n = ucast (push_bit n (1 :: u32) - 1)"

definition TOP_BITS :: "nat \<Rightarrow> u8" where
  "TOP_BITS n = NOT (BOTTOM_BITS (8 - n))"

text \<open>The loop over the \<open>len\<close> continuation bytes.\<close>

fun utf8_loop :: "nat \<Rightarrow> u32 \<Rightarrow> (cbs, u32) op" where
  "utf8_loop 0 v = succeed v"
| "utf8_loop (Suc k) v =
     chk CBS_get_u8 (\<lambda>c. chk (require (c AND TOP_BITS 2 = TOP_BITS 1)) (\<lambda>_.
       utf8_loop k (push_bit 6 v OR ucast (c AND BOTTOM_BITS 6))))"

definition cbs_get_utf8 :: "(cbs, u32) op" where
  "cbs_get_utf8 =
     chk CBS_get_u8 (\<lambda>c.
       if c \<le> 0x7f then succeed (ucast c)
       else
         (let multibyte = (\<lambda>v len lower_bound. chk (utf8_loop len v) (\<lambda>v.
                if \<not> is_valid_code_point v \<or> v < lower_bound then failure else succeed v)) in
          if c AND TOP_BITS 3 = TOP_BITS 2 then multibyte (ucast (c AND BOTTOM_BITS 5)) 1 0x80
          else if c AND TOP_BITS 4 = TOP_BITS 3 then multibyte (ucast (c AND BOTTOM_BITS 4)) 2 0x800
          else if c AND TOP_BITS 5 = TOP_BITS 4 then multibyte (ucast (c AND BOTTOM_BITS 3)) 3 0x10000
          else failure))"

definition cbs_get_latin1 :: "(cbs, u32) op" where
  "cbs_get_latin1 = chk CBS_get_u8 (\<lambda>c. succeed (ucast c))"

definition cbs_get_ucs2_be :: "(cbs, u32) op" where
  "cbs_get_ucs2_be = chk CBS_get_u16 (\<lambda>c. chk (require (is_valid_code_point (ucast c))) (\<lambda>_. succeed (ucast c)))"

definition cbs_get_utf32_be :: "(cbs, u32) op" where
  "cbs_get_utf32_be = chk CBS_get_u32 (\<lambda>v. chk (require (is_valid_code_point v)) (\<lambda>_. succeed v))"

definition cbb_get_utf8_len :: "u32 \<Rightarrow> size_t" where
  "cbb_get_utf8_len u = (if u \<le> 0x7f then 1 else if u \<le> 0x7ff then 2 else if u \<le> 0xffff then 3 else 4)"

text \<open>The bytes are computed as \<open>int\<close>s and converted by the call.\<close>

definition cbb_add_utf8 :: "allocator \<Rightarrow> nat \<Rightarrow> u32 \<Rightarrow> (cbb, unit) op" where
  "cbb_add_utf8 A d u =
     (if \<not> is_valid_code_point u then failure
      else if u \<le> 0x7f then CBB_add_u8 A d (ucast u)
      else if u \<le> 0x7ff then
        chk (CBB_add_u8 A d (ucast (ucast (TOP_BITS 2) OR drop_bit 6 u)))
          (\<lambda>_. CBB_add_u8 A d (ucast (ucast (TOP_BITS 1) OR u AND ucast (BOTTOM_BITS 6))))
      else if u \<le> 0xffff then
        chk (CBB_add_u8 A d (ucast (ucast (TOP_BITS 3) OR drop_bit 12 u)))
          (\<lambda>_. chk (CBB_add_u8 A d (ucast (ucast (TOP_BITS 1) OR drop_bit 6 u AND ucast (BOTTOM_BITS 6))))
            (\<lambda>_. CBB_add_u8 A d (ucast (ucast (TOP_BITS 1) OR u AND ucast (BOTTOM_BITS 6)))))
      else if u \<le> 0x10ffff then
        chk (CBB_add_u8 A d (ucast (ucast (TOP_BITS 4) OR drop_bit 18 u)))
          (\<lambda>_. chk (CBB_add_u8 A d (ucast (ucast (TOP_BITS 1) OR drop_bit 12 u AND ucast (BOTTOM_BITS 6))))
            (\<lambda>_. chk (CBB_add_u8 A d (ucast (ucast (TOP_BITS 1) OR drop_bit 6 u AND ucast (BOTTOM_BITS 6))))
              (\<lambda>_. CBB_add_u8 A d (ucast (ucast (TOP_BITS 1) OR u AND ucast (BOTTOM_BITS 6))))))
      else failure)"

definition cbb_add_latin1 :: "allocator \<Rightarrow> nat \<Rightarrow> u32 \<Rightarrow> (cbb, unit) op" where
  "cbb_add_latin1 A d u = chk (require (u \<le> 0xff)) (\<lambda>_. CBB_add_u8 A d (ucast u))"

definition cbb_add_ucs2_be :: "allocator \<Rightarrow> nat \<Rightarrow> u32 \<Rightarrow> (cbb, unit) op" where
  "cbb_add_ucs2_be A d u =
     chk (require (u \<le> 0xffff \<and> is_valid_code_point u)) (\<lambda>_. CBB_add_u16 A d (ucast u))"

definition cbb_add_utf32_be :: "allocator \<Rightarrow> nat \<Rightarrow> u32 \<Rightarrow> (cbb, unit) op" where
  "cbb_add_utf32_be A d u = chk (require (is_valid_code_point u)) (\<lambda>_. CBB_add_u32 A d u)"

section \<open>The encodings\<close>

text \<open>
  A code point is below \<open>0x110000\<close>, not a surrogate and not a noncharacter. UTF-8 (RFC 3629) writes it
  as a lead byte and continuation bytes of six bits each, as few as possible.
\<close>

definition code_point :: "nat \<Rightarrow> bool" where
  "code_point n \<longleftrightarrow> n < 0x110000 \<and> n mod 0x10000 < 0xfffe \<and> \<not> (0xfdd0 \<le> n \<and> n < 0xfdf0) \<and> \<not> (0xd800 \<le> n \<and> n < 0xe000)"

fun continuation :: "nat \<Rightarrow> nat \<Rightarrow> bytes" where
  "continuation 0 m = []"
| "continuation (Suc k) m = of_nat (128 + m div 64 ^ k) # continuation k (m mod 64 ^ k)"

definition utf8 :: "nat \<Rightarrow> bytes" where
  "utf8 n = (if n < 128 then [of_nat n]
     else if n < 2048 then of_nat (192 + n div 64) # continuation 1 (n mod 64)
     else if n < 65536 then of_nat (224 + n div 4096) # continuation 2 (n mod 4096)
     else of_nat (240 + n div 262144) # continuation 3 (n mod 262144))"

fun p_continuation :: "nat \<Rightarrow> nat \<Rightarrow> nat parser" where
  "p_continuation 0 v = p_return v"
| "p_continuation (Suc k) v =
     p_bind p_u8 (\<lambda>c. p_bind (p_guard (unat c div 64 = 2)) (\<lambda>_. p_continuation k (64 * v + unat c mod 64)))"

definition p_multibyte :: "nat \<Rightarrow> nat \<Rightarrow> nat \<Rightarrow> nat parser" where
  "p_multibyte k v lower = p_bind (p_continuation k v)
     (\<lambda>n. if \<not> code_point n \<or> n < lower then p_fail else p_return n)"

definition p_utf8 :: "nat parser" where
  "p_utf8 = p_bind p_u8 (\<lambda>c.
     if unat c < 128 then p_return (unat c)
     else if unat c div 32 = 6 then p_multibyte 1 (unat c mod 32) 128
     else if unat c div 16 = 14 then p_multibyte 2 (unat c mod 16) 2048
     else if unat c div 8 = 30 then p_multibyte 3 (unat c mod 8) 65536
     else p_fail)"

lemma u8_of_parts:
  assumes "unat (c :: u8) div k = q"
  shows "of_nat (k * q + unat c mod k) = c"
proof -
  have "k * q + unat c mod k = unat c" using assms by auto
  then show ?thesis by simp
qed

lemma lead_byte:
  assumes "k * q + k \<le> 256" and "0 < k"
  shows "unat (c :: u8) div k = q \<and> a = unat c mod k \<longleftrightarrow> c = of_nat (k * q + a) \<and> a < k"
proof
  assume "unat c div k = q \<and> a = unat c mod k"
  then show "c = of_nat (k * q + a) \<and> a < k"
    using u8_of_parts [of c k q] assms by (simp del: of_nat_add of_nat_mult)
next
  assume "c = of_nat (k * q + a) \<and> a < k"
  moreover from this have "unat c = k * q + a" using assms by (simp del: of_nat_add of_nat_mult)
  ultimately show "unat c div k = q \<and> a = unat c mod k" using assms by simp
qed

lemma p_continuation_iff:
  "p_continuation k v xs = Some (n, ys) \<longleftrightarrow> n div 64 ^ k = v \<and> xs = continuation k (n mod 64 ^ k) @ ys"
proof (induction k arbitrary: v xs)
  case 0
  then show ?case by auto
next
  case (Suc k)
  have split: "n div 64 ^ k = 64 * v + a \<longleftrightarrow> n div 64 ^ Suc k = v \<and> n div 64 ^ k mod 64 = a" if "a < 64" for a
  proof -
    have "n div 64 ^ Suc k = n div 64 ^ k div 64" by (simp only: power_Suc2 div_mult2_eq)
    then show ?thesis using that by auto
  qed
  have m: "n mod 64 ^ Suc k div 64 ^ k = n div 64 ^ k mod 64" "n mod 64 ^ Suc k mod 64 ^ k = n mod 64 ^ k"
  proof -
    have "n mod 64 ^ Suc k = 64 ^ k * (n div 64 ^ k mod 64) + n mod 64 ^ k" by (simp only: power_Suc2 mod_mult2_eq)
    then show "n mod 64 ^ Suc k div 64 ^ k = n div 64 ^ k mod 64" "n mod 64 ^ Suc k mod 64 ^ k = n mod 64 ^ k" by simp_all
  qed
  have "p_continuation (Suc k) v xs = Some (n, ys) \<longleftrightarrow>
      (\<exists>c zs. xs = c # zs \<and> unat c div 64 = 2 \<and> n div 64 ^ k = 64 * v + unat c mod 64 \<and> zs = continuation k (n mod 64 ^ k) @ ys)"
    by (auto simp: p_bind_eq_Some_iff p_u8_eq_Some_iff p_guard_def Suc.IH split: if_splits)
  also have "\<dots> \<longleftrightarrow> (\<exists>c zs. xs = c # zs \<and> n div 64 ^ Suc k = v \<and>
      (unat c div 64 = 2 \<and> n div 64 ^ k mod 64 = unat c mod 64) \<and> zs = continuation k (n mod 64 ^ k) @ ys)"
    using split [of "unat c mod 64" for c] by auto
  also have "\<dots> \<longleftrightarrow> n div 64 ^ Suc k = v \<and> xs = continuation (Suc k) (n mod 64 ^ Suc k) @ ys"
    unfolding lead_byte [of 64 2, simplified] by (auto simp: m simp del: power_Suc)
  finally show ?case .
qed

lemma p_multibyte_iff:
  "p_multibyte k v lower xs = Some (n, ys) \<longleftrightarrow>
     code_point n \<and> lower \<le> n \<and> n div 64 ^ k = v \<and> xs = continuation k (n mod 64 ^ k) @ ys"
  by (auto simp: p_multibyte_def p_bind_eq_Some_iff p_continuation_iff)

lemma p_utf8_iff: "p_utf8 xs = Some (n, ys) \<longleftrightarrow> code_point n \<and> xs = utf8 n @ ys"
proof -
  have cp: "code_point n" if "n < 128" using that by (simp add: code_point_def)
  have cp': "n < 1114112" if "code_point n" using that by (simp add: code_point_def)
  have "p_utf8 xs = Some (n, ys) \<longleftrightarrow> (\<exists>c zs. xs = c # zs \<and>
      (unat c < 128 \<and> n = unat c \<and> zs = ys \<or>
       128 \<le> n \<and> code_point n \<and> (unat c div 32 = 6 \<and> n div 64 = unat c mod 32) \<and> zs = continuation 1 (n mod 64) @ ys \<or>
       2048 \<le> n \<and> code_point n \<and> (unat c div 16 = 14 \<and> n div 4096 = unat c mod 16) \<and> zs = continuation 2 (n mod 4096) @ ys \<or>
       65536 \<le> n \<and> code_point n \<and> (unat c div 8 = 30 \<and> n div 262144 = unat c mod 8) \<and> zs = continuation 3 (n mod 262144) @ ys))"
    by (cases xs) (auto simp: p_utf8_def p_bind_eq_Some_iff p_u8_eq_Some_iff p_multibyte_iff split: if_splits)
  also have "\<dots> \<longleftrightarrow> code_point n \<and> xs = utf8 n @ ys"
  proof -
    have ascii: "unat c < 128 \<and> n = unat c \<longleftrightarrow> n < 128 \<and> c = of_nat n" for c :: u8 by auto
    have l: "unat c div 32 = 6 \<and> n div 64 = unat c mod 32 \<longleftrightarrow> c = of_nat (192 + n div 64) \<and> n div 64 < 32"
      "unat c div 16 = 14 \<and> n div 4096 = unat c mod 16 \<longleftrightarrow> c = of_nat (224 + n div 4096) \<and> n div 4096 < 16"
      "unat c div 8 = 30 \<and> n div 262144 = unat c mod 8 \<longleftrightarrow> c = of_nat (240 + n div 262144) \<and> n div 262144 < 8" for c :: u8
      using lead_byte [of 32 6 c "n div 64"] lead_byte [of 16 14 c "n div 4096"] lead_byte [of 8 30 c "n div 262144"] by simp_all
    have r: "n div 64 < 32 \<longleftrightarrow> n < 2048" "n div 4096 < 16 \<longleftrightarrow> n < 65536" "code_point n \<Longrightarrow> n div 262144 < 8"
      using cp' by (auto simp: div_less_iff_less_mult)
    consider "n < 128" | "128 \<le> n" "n < 2048" | "2048 \<le> n" "n < 65536" | "65536 \<le> n" by linarith
    then show ?thesis
      unfolding l r ascii conj_assoc [symmetric]
      by cases (use cp r(3) in \<open>auto simp: utf8_def simp del: of_nat_add\<close>)
  qed
  finally show ?thesis .
qed

lemma utf8_nonempty: "utf8 n \<noteq> []"
  by (simp add: utf8_def)

interpretation utf8: nonempty_codec utf8 p_utf8 code_point
  by unfold_locales (simp_all add: p_utf8_iff utf8_nonempty)

section \<open>The words of the code are those numbers\<close>

lemma bits_masks [simp]:
  "BOTTOM_BITS 3 = 7" "BOTTOM_BITS 4 = 15" "BOTTOM_BITS 5 = 31" "BOTTOM_BITS 6 = 63"
  "TOP_BITS 1 = 128" "TOP_BITS 2 = 192" "TOP_BITS 3 = 224" "TOP_BITS 4 = 240" "TOP_BITS 5 = 248"
  by (simp_all add: BOTTOM_BITS_def TOP_BITS_def push_bit_eq_mult)

lemma unat_top_bits:
  assumes "c AND m = push_bit k (drop_bit k c)"
  shows "unat (c AND m :: u8) = unat c div 2 ^ k * 2 ^ k"
proof -
  have "unat (c AND m) = (unat c div 2 ^ k * 2 ^ k) mod 256"
    unfolding assms unsigned_push_bit_eq unat_drop_bit by (simp add: take_bit_eq_mod push_bit_eq_mult)
  also have "\<dots> = unat c div 2 ^ k * 2 ^ k"
    using u8_cases_lt [of c] by (intro mod_less) (meson div_times_less_eq_dividend le_less_trans)
  finally show ?thesis .
qed

lemma top_bits:
  fixes c :: u8
  shows "c AND 192 = 128 \<longleftrightarrow> unat c div 64 = 2" "c AND 224 = 192 \<longleftrightarrow> unat c div 32 = 6"
    "c AND 240 = 224 \<longleftrightarrow> unat c div 16 = 14" "c AND 248 = 240 \<longleftrightarrow> unat c div 8 = 30"
proof -
  have "c AND 192 = push_bit 6 (drop_bit 6 c)" "c AND 224 = push_bit 5 (drop_bit 5 c)"
    "c AND 240 = push_bit 4 (drop_bit 4 c)" "c AND 248 = push_bit 3 (drop_bit 3 c)"
    by (rule u8_eqI; auto simp: bit_simps)+
  then show "c AND 192 = 128 \<longleftrightarrow> unat c div 64 = 2" "c AND 224 = 192 \<longleftrightarrow> unat c div 32 = 6"
    "c AND 240 = 224 \<longleftrightarrow> unat c div 16 = 14" "c AND 248 = 240 \<longleftrightarrow> unat c div 8 = 30"
    using unat_top_bits [of c 192 6] unat_top_bits [of c 224 5] unat_top_bits [of c 240 4] unat_top_bits [of c 248 3]
    by (simp_all add: word_unat_eq_iff)
qed

lemma bottom_bits:
  fixes c :: u8
  shows "unat (c AND 63) = unat c mod 64" "unat (c AND 31) = unat c mod 32" "unat (c AND 15) = unat c mod 16"
    "unat (c AND 7) = unat c mod 8"
proof -
  have "c AND 63 = take_bit 6 c" "c AND 31 = take_bit 5 c" "c AND 15 = take_bit 4 c" "c AND 7 = take_bit 3 c"
    by (rule u8_eqI; auto simp: bit_simps)+
  then show "unat (c AND 63) = unat c mod 64" "unat (c AND 31) = unat c mod 32" "unat (c AND 15) = unat c mod 16"
    "unat (c AND 7) = unat c mod 8" by (simp_all add: unat_take_bit)
qed

lemma valid_code_point: "is_valid_code_point v = code_point (unat v)"
proof -
  define z where "z = push_bit 1 (drop_bit 1 (take_bit 16 v))"
  have "bit z n \<longleftrightarrow> n < 16 \<and> 0 < n \<and> bit v n" for n
    unfolding z_def bit_push_bit_iff bit_drop_bit_eq o_def bit_take_bit_iff by (cases n) auto
  moreover have "\<forall>n < 32. bit (0xfffe :: u32) n \<longleftrightarrow> 0 < n \<and> n < 16" unfolding all_lt_32 by simp
  ultimately have "v AND 0xfffe = z" by (intro bit_word_eqI) (auto simp: bit_and_iff)
  then have "v AND 0xfffe = push_bit 1 (drop_bit 1 (take_bit 16 v))" by (simp only: z_def)
  moreover define x where "x = unat v mod 65536"
  moreover have x: "x < 65536" by (simp add: x_def)
  ultimately have "unat (v AND 0xfffe) = (x div 2 * 2) mod 2 ^ 32"
    by (simp only: unsigned_push_bit_eq unat_drop_bit unat_take_bit) (simp add: take_bit_eq_mod push_bit_eq_mult)
  moreover have "x div 2 * 2 < 2 ^ 32" using x by (intro le_less_trans [OF div_times_less_eq_dividend]) simp
  ultimately have "v AND 0xfffe = 0xfffe \<longleftrightarrow> x div 2 * 2 = 65534" by (simp add: word_unat_eq_iff)
  moreover have "x div 2 * 2 = 65534 \<longleftrightarrow> 65534 \<le> x"
  proof
    assume "65534 \<le> x"
    then have "x = 65534 \<or> x = 65535" using x by linarith
    then show "x div 2 * 2 = 65534" by (elim disjE) simp_all
  next
    assume "x div 2 * 2 = 65534"
    then show "65534 \<le> x" by (metis div_times_less_eq_dividend)
  qed
  ultimately have "v AND 0xfffe = 0xfffe \<longleftrightarrow> 65534 \<le> unat v mod 65536" by (simp only: x_def)
  then show ?thesis
    by (auto simp: is_valid_code_point_def code_point_def word_less_nat_alt word_le_nat_alt)
qed

section \<open>The readers refine the parsers\<close>

lemma continuation_word:
  fixes v :: u32 and c :: u8
  assumes "unat v < 2 ^ 26"
  shows "unat (push_bit 6 v OR ucast (c AND 63)) = 64 * unat v + unat c mod 64"
proof -
  define x where "x = c AND 63"
  have x: "unat x = unat c mod 64" by (simp add: x_def bottom_bits)
  then have "take_bit 6 x = x" by (simp add: word_unat_eq_iff unat_take_bit)
  then have "bit x n \<Longrightarrow> n < 6" for n by (metis bit_take_bit_iff)
  then have "push_bit 6 v AND ucast x = (0 :: u32)"
    by (intro bit_word_eqI) (force simp: bit_simps)
  then have "push_bit 6 v OR ucast x = 64 * v + (ucast x :: u32)"
    by (simp add: disjunctive_add_eq_or [symmetric] push_bit_eq_mult mult.commute)
  then show ?thesis unfolding x_def [symmetric] using assms by (simp add: unat_word_ariths unat_ucast_up x)
qed

lemma refines_utf8_loop:
  "word_is v n \<Longrightarrow> (n + 1) * 64 ^ k \<le> 2 ^ 30 \<Longrightarrow> refines cbs_rep word_is (utf8_loop k v) (p_continuation k n)"
proof (induction k arbitrary: v n)
  case 0
  then show ?case by (simp only: utf8_loop.simps p_continuation.simps refines_succeed)
next
  case (Suc k)
  have k: "(64 * n + 64) * 64 ^ k \<le> 2 ^ 30" using Suc.prems(2) by (simp add: algebra_simps)
  have "64 * n + 64 \<le> (64 * n + 64) * 64 ^ k" by simp
  from order_trans [OF this k] have n: "n < 2 ^ 26" by simp
  show ?case
    unfolding utf8_loop.simps p_continuation.simps bits_masks
  proof (rule refines_chk [OF refines_CBS_get_u8], rule refines_chk [OF refines_require])
    fix c b :: u8
    assume "c = b"
    show "(c AND 192 = 128) = (unat b div 64 = 2)" unfolding \<open>c = b\<close> by (rule top_bits)
    have "(64 * n + unat b mod 64 + 1) * 64 ^ k \<le> 2 ^ 30"
      by (rule le_trans [OF mult_le_mono1 k]) (simp add: Suc_le_eq)
    then show "refines cbs_rep word_is (utf8_loop k (push_bit 6 v OR ucast (c AND 63))) (p_continuation k (64 * n + unat b mod 64))"
      using Suc.prems(1) n \<open>c = b\<close> continuation_word [of v b] by (intro Suc.IH) (simp_all add: word_is_def)
  qed
qed

lemma refines_multibyte:
  assumes "word_is v n" and "(n + 1) * 64 ^ k \<le> 2 ^ 30" and "unat l = lower"
  shows "refines cbs_rep word_is (chk (utf8_loop k v) (\<lambda>v. if \<not> is_valid_code_point v \<or> v < l then failure else succeed v))
    (p_multibyte k n lower)"
  unfolding p_multibyte_def
  by (rule refines_chk [OF refines_utf8_loop [OF assms(1,2)]], rule refines_if)
    (auto simp: word_is_def valid_code_point word_less_nat_alt assms(3) intro: refines_failure refines_succeed)

lemma refines_cbs_get_utf8 [refine_intros]: "refines cbs_rep word_is cbs_get_utf8 p_utf8"
  unfolding cbs_get_utf8_def p_utf8_def Let_def bits_masks
proof (rule refines_chk [OF refines_CBS_get_u8], goal_cases)
  case (1 c b)
  have m: "m < 64 \<Longrightarrow> k \<le> 3 \<Longrightarrow> (m + 1) * 64 ^ k \<le> 2 ^ 30" for m k :: nat
  proof -
    assume "m < 64" "k \<le> 3"
    then have "(m + 1) * 64 ^ k \<le> 64 * 64 ^ 3" by (intro mult_le_mono power_increasing) auto
    then show ?thesis by simp
  qed
  show ?case
    unfolding \<open>c = b\<close>
    by (intro refines_if refines_multibyte m refines_succeed refines_failure)
      (auto simp: word_is_def top_bits word_le_nat_alt unat_ucast_up bottom_bits intro: order.strict_trans1)
qed

section \<open>The four encodings\<close>

datatype charset = Utf8 | Latin1 | Ucs2 | Utf32

fun get_char :: "charset \<Rightarrow> (cbs, u32) op" where
  "get_char Utf8 = cbs_get_utf8"
| "get_char Latin1 = cbs_get_latin1"
| "get_char Ucs2 = cbs_get_ucs2_be"
| "get_char Utf32 = cbs_get_utf32_be"

fun add_char :: "charset \<Rightarrow> allocator \<Rightarrow> nat \<Rightarrow> u32 \<Rightarrow> (cbb, unit) op" where
  "add_char Utf8 = cbb_add_utf8"
| "add_char Latin1 = cbb_add_latin1"
| "add_char Ucs2 = cbb_add_ucs2_be"
| "add_char Utf32 = cbb_add_utf32_be"

fun represents :: "charset \<Rightarrow> nat \<Rightarrow> bool" where
  "represents Utf8 n = code_point n"
| "represents Latin1 n = (n < 256)"
| "represents Ucs2 n = (code_point n \<and> n < 65536)"
| "represents Utf32 n = code_point n"

fun char_bytes :: "charset \<Rightarrow> nat \<Rightarrow> bytes" where
  "char_bytes Utf8 n = utf8 n"
| "char_bytes Latin1 n = be_bytes 1 n"
| "char_bytes Ucs2 n = be_bytes 2 n"
| "char_bytes Utf32 n = be_bytes 4 n"

fun p_char :: "charset \<Rightarrow> nat parser" where
  "p_char Utf8 = p_utf8"
| "p_char Latin1 = p_be 1"
| "p_char Ucs2 = p_bind (p_be 2) (\<lambda>n. p_bind (p_guard (code_point n)) (\<lambda>_. p_return n))"
| "p_char Utf32 = p_bind (p_be 4) (\<lambda>n. p_bind (p_guard (code_point n)) (\<lambda>_. p_return n))"

lemma p_char_iff: "p_char k xs = Some (n, ys) \<longleftrightarrow> represents k n \<and> xs = char_bytes k n @ ys"
  by (cases k) (auto simp: p_utf8_iff p_be_eq_Some_iff p_bind_eq_Some_iff p_guard_def code_point_def split: if_splits)

interpretation char: nonempty_codec "char_bytes k" "p_char k" "represents k" for k
proof unfold_locales
  fix a
  have "length (char_bytes k a) \<noteq> 0" by (cases k) (simp_all add: utf8_nonempty)
  then show "char_bytes k a \<noteq> []" by (simp only: length_0_conv not_False_eq_True)
qed (simp_all add: p_char_iff)

lemma refines_get_char: "refines cbs_rep word_is (get_char k) (p_char k)"
proof (cases k)
  case Utf8
  then show ?thesis by (simp add: refines_cbs_get_utf8)
next
  case Latin1
  have "p_be 1 = p_bind p_u8 (\<lambda>c. p_return (unat c))"
    by (rule ext) (auto simp: p_be_def p_bind_def p_take_def p_u8_def be_nat_def split: list.splits)
  then show ?thesis unfolding Latin1 get_char.simps p_char.simps cbs_get_latin1_def
    by (auto simp: word_is_def unat_ucast_up intro!: refines_chk [OF refines_CBS_get_u8] refines_succeed)
next
  case Ucs2
  show ?thesis unfolding Ucs2 get_char.simps p_char.simps cbs_get_ucs2_be_def
    by (rule refines_chk [OF refines_CBS_get_u16], rule refines_chk [OF refines_require])
      (auto simp: word_is_def valid_code_point unat_ucast_up intro: refines_succeed)
next
  case Utf32
  show ?thesis unfolding Utf32 get_char.simps p_char.simps cbs_get_utf32_be_def
    by (rule refines_chk [OF refines_CBS_get_u32], rule refines_chk [OF refines_require])
      (auto simp: word_is_def valid_code_point intro: refines_succeed)
qed

section \<open>The writers append the encodings\<close>

lemma prefix_octet:
  fixes x :: u32 and t :: u8
  assumes "unat x < 2 ^ k" and "k < 8" and "t AND mask k = 0"
  shows "ucast (ucast t OR x) = (of_nat (unat t + unat x) :: u8)"
proof -
  have "take_bit k x = x" using assms(1) by (simp add: word_unat_eq_iff unat_take_bit)
  then have x: "bit x n \<Longrightarrow> n < k" for n by (metis bit_take_bit_iff)
  have t: "\<not> (bit t n \<and> n < k)" for n
    using arg_cong [OF assms(3), of "\<lambda>w. bit w n"] assms(2) by (auto simp: bit_and_iff bit_mask_iff)
  have "ucast (ucast t OR x) = (t OR ucast x :: u8)"
    by (rule bit_word_eqI) (auto simp: bit_simps dest: bit_imp_le_length)
  also have "\<dots> = t + ucast x"
    by (rule disjunctive_add_eq_or [symmetric], rule bit_word_eqI) (use x t in \<open>auto simp: bit_simps\<close>)
  also have "ucast x = (of_nat (unat x) :: u8)" by simp
  finally show ?thesis by simp
qed

lemma low_six: "unat (w AND 63 :: u32) = unat w mod 64"
proof -
  have "w AND 63 = w AND mask 6" by (simp add: mask_eq_exp_minus_1)
  then have "w AND 63 = take_bit 6 w" by (simp only: take_bit_eq_mask)
  then show ?thesis by (simp add: unat_take_bit)
qed

lemma continuation_octet: "ucast (ucast (128 :: u8) OR w AND 63 :: u32) = (of_nat (128 + unat w mod 64) :: u8)"
  using prefix_octet [of "w AND 63" 6 128] by (simp add: low_six mask_eq_exp_minus_1)

lemma lead_octets:
  fixes u :: u32
  shows "unat u < 2048 \<Longrightarrow> ucast (ucast (192 :: u8) OR drop_bit 6 u) = (of_nat (192 + unat u div 64) :: u8)"
    "unat u < 65536 \<Longrightarrow> ucast (ucast (224 :: u8) OR drop_bit 12 u) = (of_nat (224 + unat u div 4096) :: u8)"
    "unat u < 2097152 \<Longrightarrow> ucast (ucast (240 :: u8) OR drop_bit 18 u) = (of_nat (240 + unat u div 262144) :: u8)"
  using prefix_octet [of "drop_bit 6 u" 5 192] prefix_octet [of "drop_bit 12 u" 4 224] prefix_octet [of "drop_bit 18 u" 3 240]
  by (simp_all add: unat_drop_bit div_less_iff_less_mult mask_eq_exp_minus_1)

lemma drop_word: "unat (drop_bit k (u :: u32)) = unat u div 2 ^ k"
  by (rule unat_drop_bit)

lemma continuation_octets:
  fixes u :: u32
  shows "continuation 1 (unat u mod 64) = [ucast (ucast (128 :: u8) OR u AND 63)]"
    "continuation 2 (unat u mod 4096) =
       [ucast (ucast (128 :: u8) OR drop_bit 6 u AND 63), ucast (ucast (128 :: u8) OR u AND 63)]"
    "continuation 3 (unat u mod 262144) =
       [ucast (ucast (128 :: u8) OR drop_bit 12 u AND 63), ucast (ucast (128 :: u8) OR drop_bit 6 u AND 63),
        ucast (ucast (128 :: u8) OR u AND 63)]"
proof -
  have a: "continuation 1 (n mod 64) = [of_nat (128 + n mod 64)]" for n by (simp add: One_nat_def)
  have "n mod 4096 = 64 * (n div 64 mod 64) + n mod 64" for n :: nat using mod_mult2_eq [of n 64 64] by simp
  then have b: "continuation 2 (n mod 4096) = of_nat (128 + n div 64 mod 64) # continuation 1 (n mod 64)" for n
    by (simp add: numeral_2_eq_2)
  have "n mod 262144 = 4096 * (n div 4096 mod 64) + n mod 4096" for n :: nat using mod_mult2_eq [of n 4096 64] by simp
  then have c: "continuation 3 (n mod 262144) = of_nat (128 + n div 4096 mod 64) # continuation 2 (n mod 4096)" for n
    by (simp add: numeral_3_eq_3 numeral_2_eq_2)
  show "continuation 1 (unat u mod 64) = [ucast (ucast (128 :: u8) OR u AND 63)]"
    "continuation 2 (unat u mod 4096) =
       [ucast (ucast (128 :: u8) OR drop_bit 6 u AND 63), ucast (ucast (128 :: u8) OR u AND 63)]"
    "continuation 3 (unat u mod 262144) =
       [ucast (ucast (128 :: u8) OR drop_bit 12 u AND 63), ucast (ucast (128 :: u8) OR drop_bit 6 u AND 63),
        ucast (ucast (128 :: u8) OR u AND 63)]"
    unfolding a b c continuation_octet drop_word by simp_all
qed

lemma writes_octets2: "writes A d (chk (CBB_add_u8 A d x) (\<lambda>_. m)) (Some (x # ys)) (1 + w)"
  if "writes A d m (Some ys) w"
  using writes_chk [OF writes_add_u8 that] by simp

lemma writes_add_utf8:
  "writes A d (cbb_add_utf8 A d u) (if code_point (unat u) then Some (utf8 (unat u)) else None) 4"
proof (cases "code_point (unat u)")
  case False
  then show ?thesis unfolding cbb_add_utf8_def
    by (auto simp: valid_code_point intro!: writesI)
next
  case True
  then have lt: "unat u < 1114112" by (simp add: code_point_def)
  have v: "\<not> \<not> is_valid_code_point u" using True by (simp add: valid_code_point)
  have le: "u \<le> 0x7f \<longleftrightarrow> unat u < 128" "u \<le> 0x7ff \<longleftrightarrow> unat u < 2048" "u \<le> 0xffff \<longleftrightarrow> unat u < 65536"
    "u \<le> 0x10ffff" using lt by (auto simp: word_le_nat_alt)
  have w: "writes A d (cbb_add_utf8 A d u) (Some (utf8 (unat u))) 4"
  proof -
    consider "unat u < 128" | "128 \<le> unat u" "unat u < 2048" | "2048 \<le> unat u" "unat u < 65536" | "65536 \<le> unat u" by linarith
    then show ?thesis
    proof cases
      case 1
      then have "utf8 (unat u) = [ucast u]" by (simp add: utf8_def)
      with 1 v show ?thesis unfolding cbb_add_utf8_def le by (auto intro: writes_weaken [OF writes_add_u8])
    next
      case 2
      then have "utf8 (unat u) = [ucast (ucast (192 :: u8) OR drop_bit 6 u), ucast (ucast (128 :: u8) OR u AND 63)]"
        by (simp only: utf8_def continuation_octets lead_octets if_True if_False not_less [symmetric])
      with 2 v show ?thesis unfolding cbb_add_utf8_def le bits_masks
        by (auto intro!: writes_weaken [OF writes_octets2 [OF writes_add_u8]])
    next
      case 3
      then have "utf8 (unat u) = [ucast (ucast (224 :: u8) OR drop_bit 12 u), ucast (ucast (128 :: u8) OR drop_bit 6 u AND 63),
          ucast (ucast (128 :: u8) OR u AND 63)]"
        by (simp only: utf8_def continuation_octets lead_octets if_True if_False not_less [symmetric]) simp
      with 3 v show ?thesis unfolding cbb_add_utf8_def le bits_masks
        by (auto intro!: writes_weaken [OF writes_octets2 [OF writes_octets2 [OF writes_add_u8]]])
    next
      case 4
      have l: "unat u < 2097152" using lt by simp
      have "utf8 (unat u) = [ucast (ucast (240 :: u8) OR drop_bit 18 u), ucast (ucast (128 :: u8) OR drop_bit 12 u AND 63),
          ucast (ucast (128 :: u8) OR drop_bit 6 u AND 63), ucast (ucast (128 :: u8) OR u AND 63)]"
        using 4 by (simp only: utf8_def continuation_octets lead_octets(3) [OF l]) simp
      with 4 v le(4) show ?thesis unfolding cbb_add_utf8_def le(1-3) bits_masks
        by (auto intro!: writes_weaken [OF writes_octets2 [OF writes_octets2 [OF writes_octets2 [OF writes_add_u8]]]])
    qed
  qed
  then show ?thesis using True by simp
qed

lemma length_continuation [simp]: "length (continuation k m) = k"
  by (induction k arbitrary: m) simp_all

lemma length_utf8: "code_point (unat u) \<Longrightarrow> length (utf8 (unat u)) = unat (cbb_get_utf8_len u)"
  by (simp add: utf8_def cbb_get_utf8_len_def word_le_nat_alt)

lemma writes_require: "writes A d m (Some x) w \<Longrightarrow> writes A d (chk (require b) (\<lambda>_. m)) (if b then Some x else None) w"
  by (cases b) (auto intro: writes_fail simp: chk_def split: prod.splits)

lemma be_bytes_mod: "be_bytes k (n mod 256 ^ k) = be_bytes k n"
  using be_bytes_be_nat [of "be_bytes k n"] by (simp add: be_nat_be_bytes)

lemma writes_add_char:
  "writes A d (add_char k A d u) (if represents k (unat u) then Some (char_bytes k (unat u)) else None) 4"
proof (cases k)
  case Utf8
  then show ?thesis using writes_add_utf8 [of A d u]
    by (simp only: add_char.simps represents.simps char_bytes.simps)
next
  case Latin1
  have "be_bytes 1 (unat u) = [ucast u]" by (simp add: word_unat_eq_iff unsigned_ucast_eq take_bit_eq_mod)
  then have "writes A d (CBB_add_u8 A d (ucast u)) (Some (be_bytes 1 (unat u))) 4"
    using writes_weaken [OF writes_add_u8] by simp
  note w = writes_require [OF this, of "u \<le> 0xff"]
  have "u \<le> 0xff \<longleftrightarrow> unat u < 256" by (auto simp: word_le_nat_alt)
  with w show ?thesis
    by (simp only: Latin1 add_char.simps cbb_add_latin1_def represents.simps char_bytes.simps)
next
  case Ucs2
  have "be_bytes 2 (unat (ucast u :: u16)) = be_bytes 2 (unat u)"
    using be_bytes_mod [of 2 "unat u"] by (simp add: unsigned_ucast_eq take_bit_eq_mod)
  then have "writes A d (CBB_add_u16 A d (ucast u)) (Some (be_bytes 2 (unat u))) 4"
    using writes_weaken [OF writes_add_u16 [of A d "ucast u"], of 4] by simp
  note w = writes_require [OF this, of "u \<le> 0xffff \<and> is_valid_code_point u"]
  have "u \<le> 0xffff \<and> is_valid_code_point u \<longleftrightarrow> code_point (unat u) \<and> unat u < 65536"
    by (auto simp: word_le_nat_alt valid_code_point)
  with w show ?thesis
    by (simp only: Ucs2 add_char.simps cbb_add_ucs2_be_def represents.simps char_bytes.simps)
next
  case Utf32
  from writes_require [OF writes_add_u32 [of A d u], of "is_valid_code_point u"] show ?thesis
    by (simp only: Utf32 add_char.simps cbb_add_utf32_be_def represents.simps char_bytes.simps valid_code_point)
qed

text \<open>A string of code points, added one by one, and read until nothing is left.\<close>

fun encode_text :: "charset \<Rightarrow> u32 list \<Rightarrow> bytes option" where
  "encode_text k [] = Some []"
| "encode_text k (u # us) = cat (if represents k (unat u) then Some (char_bytes k (unat u)) else None) (encode_text k us)"

lemma writes_text: "writes A d (for_op (add_char k A d) us) (encode_text k us) (4 * length us)"
proof (induction us)
  case (Cons u us)
  from writes_chk [OF writes_add_char Cons.IH] show ?case by simp
qed (simp only: for_op.simps encode_text.simps list.size mult_0_right writes_succeed)

lemma encode_text_iff:
  "encode_text k us = Some x \<longleftrightarrow> (\<forall>u \<in> set us. represents k (unat u)) \<and> x = concat (map (\<lambda>u. char_bytes k (unat u)) us)"
  by (induction us arbitrary: x) (auto simp: cat_def split: option.splits if_splits)

fun read_text :: "charset \<Rightarrow> nat \<Rightarrow> cbs \<Rightarrow> u32 list option" where
  "read_text k fuel c =
     (if CBS_len c = 0 then Some []
      else case fuel of
             0 \<Rightarrow> None
           | Suc fuel \<Rightarrow>
               (case get_char k c of
                  (None, _) \<Rightarrow> None
                | (Some u, c) \<Rightarrow> map_option (Cons u) (read_text k fuel c)))"

declare read_text.simps [simp del]

lemma read_text_eq: "cbs_rep c xs \<Longrightarrow> map_option (map unat) (read_text k fuel c) = p_many (p_char k) fuel xs"
proof (induction fuel arbitrary: c xs)
  case 0
  then show ?case by (cases xs) (auto simp: read_text.simps CBS_len_def word_unat_eq_iff dest: cbs_rep_length)
next
  case (Suc fuel)
  have e: "CBS_len c = 0 \<longleftrightarrow> xs = []" using cbs_rep_length [OF Suc.prems] by (auto simp: CBS_len_def word_unat_eq_iff)
  show ?case
  proof (cases xs)
    case Nil
    then show ?thesis using e by (simp add: read_text.simps)
  next
    case (Cons x ys)
    show ?thesis
    proof (cases "p_char k xs")
      case None
      then have "fst (get_char k c) = None" using refines_None [OF refines_get_char Suc.prems] by simp
      with None Cons e show ?thesis by (subst read_text.simps) (auto split: prod.splits)
    next
      case (Some r)
      then obtain n zs where p: "p_char k xs = Some (n, zs)" by (cases r) auto
      obtain u c' where u: "get_char k c = (Some u, c')" "word_is u n" "cbs_rep c' zs"
        by (rule refines_SomeE [OF refines_get_char Suc.prems p])
      have "read_text k (Suc fuel) c = map_option (Cons u) (read_text k fuel c')"
        using u(1) e Cons by (subst read_text.simps) simp
      moreover have "p_many (p_char k) (Suc fuel) xs = map_option (Cons n) (p_many (p_char k) fuel zs)"
        using p Cons by simp
      ultimately show ?thesis
        unfolding Suc.IH [OF u(3), symmetric] using u(2) by (simp add: option.map_comp comp_def word_is_def)
    qed
  qed
qed

text \<open>
  C21: \<open>cbs_get_utf8\<close> accepts exactly well-formed UTF-8: it returns the code point whose shortest
  encoding the input starts with. Overlong forms, surrogates, noncharacters, values above 0x10ffff
  and truncated or stray continuation bytes are refused.
\<close>

theorem utf8_reader_exact:
  assumes "cbs_rep c xs"
  shows "(\<exists>c'. cbs_get_utf8 c = (Some u, c') \<and> cbs_rep c' rest) \<longleftrightarrow> code_point (unat u) \<and> xs = utf8 (unat u) @ rest"
proof
  assume "\<exists>c'. cbs_get_utf8 c = (Some u, c') \<and> cbs_rep c' rest"
  then obtain c' where g: "cbs_get_utf8 c = (Some u, c')" "cbs_rep c' rest" by blast
  obtain b ys where "word_is u b" "code_point b" "xs = utf8 b @ ys" "cbs_rep c' ys"
    using reader_exact(1) [OF refines_cbs_get_utf8 assms utf8.dec_iff g(1)] by blast
  with cbs_rep_unique [OF g(2)] show "code_point (unat u) \<and> xs = utf8 (unat u) @ rest" by (simp add: word_is_def)
next
  assume a: "code_point (unat u) \<and> xs = utf8 (unat u) @ rest"
  obtain v c' where "cbs_get_utf8 c = (Some v, c')" "word_is v (unat u)" "cbs_rep c' rest"
    using reader_exact(2) [OF refines_cbs_get_utf8 assms utf8.dec_iff conjunct1 [OF a] conjunct2 [OF a]] by blast
  then show "\<exists>c'. cbs_get_utf8 c = (Some u, c') \<and> cbs_rep c' rest" by (auto simp: word_is_def word_unat_eq_iff)
qed

text \<open>
  C22: Text survives the trip through any of the four encodings: code points added to a fresh builder
  with \<open>cbb_add_utf8\<close>, \<open>cbb_add_latin1\<close>, \<open>cbb_add_ucs2_be\<close> or \<open>cbb_add_utf32_be\<close> come back from the
  reader of the same encoding, in order; the additions succeed only on code points it represents.
\<close>

theorem charset_roundtrip:
  assumes "unat n \<le> 2 ^ 62" and "4 * length us \<le> 2 ^ 62" and "CBB_init A n = (Some (), s)"
    and "chk (for_op (add_char k A 0) us) (\<lambda>_. CBB_finish A 0 True True) s = (Some (Some data, Some m), s')"
    and "cbs_rep c (take (unat m) data)"
  shows "(\<forall>u \<in> set us. represents k (unat u)) \<and> read_text k (length us) c = Some us"
proof -
  have "encode_text k us = Some (take (unat m) data)"
  proof (rule CBB_init_cases [OF assms(1), of A])
    fix s1
    assume s1: "CBB_init A n = (Some (), s1)" "cbb_inv s1" "length (chain s1) = 1" "view 0 s1 = Some []"
      "weight s1 = 0" "\<not> is_child (chain s1 ! 0)"
    show ?thesis
      by (rule write_finish_cases [OF writes_text [of A 0 k us] s1(2-6) assms(2)]) (use assms(3,4) s1(1) in auto)
  qed (use assms(3) in auto)
  then have r: "\<forall>u \<in> set us. represents k (unat u)" and x: "take (unat m) data = concat (map (char_bytes k) (map unat us))"
    by (simp_all add: encode_text_iff comp_def)
  have "p_many (p_char k) (length us) (take (unat m) data) = Some (map unat us)"
    unfolding x by (rule char.p_many_enc) (use r in auto)
  then have "map_option (map unat) (read_text k (length us) c) = Some (map unat us)"
    using read_text_eq [OF assms(5)] by simp
  then obtain vs where "read_text k (length us) c = Some vs" "map unat vs = map unat us" by auto
  moreover from this(2) have "vs = us" by (rule map_injective) (simp add: inj_def word_unat_eq_iff)
  ultimately show ?thesis using r by simp
qed

theorem utf8_reader_exact_witness:
  "\<exists>c'. cbs_get_utf8 (CBS_init [0xe2, 0x82, 0xac, 7] 4) = (Some 0x20ac, c') \<and> cbs_rep c' [7]"
proof -
  have c: "cbs_rep (CBS_init [0xe2, 0x82, 0xac, 7] 4) [0xe2, 0x82, 0xac, 7]" by (simp add: cbs_rep_def CBS_init_def)
  have "continuation (Suc (Suc 0)) m = [of_nat (128 + m div 64), of_nat (128 + m mod 64)]" for m by simp
  then have "continuation 2 m = [of_nat (128 + m div 64), of_nat (128 + m mod 64)]" for m by (simp only: numeral_2_eq_2)
  then have "[0xe2, 0x82, 0xac, 7] = utf8 (unat (0x20ac :: u32)) @ [7]" by (simp add: utf8_def)
  moreover have "code_point (unat (0x20ac :: u32))" by (simp add: code_point_def)
  ultimately show ?thesis by (intro utf8_reader_exact [OF c, THEN iffD2] conjI)
qed

theorem charset_roundtrip_witness:
  "read_text Utf8 (length [0x41, 0xe9 :: u32]) (CBS_init [0x41, 0xc3, 0xa9] 3) = Some [0x41, 0xe9]"
proof -
  define s where "s = snd (CBB_init malloc_total 8)"
  define r where "r = chk (for_op (add_char Utf8 malloc_total 0) [0x41, 0xe9]) (\<lambda>_. CBB_finish malloc_total 0 True True) s"
  have i: "CBB_init malloc_total 8 = (Some (), s)" unfolding s_def by code_simp
  have "fst r = Some (Some [0x41, 0xc3, 0xa9, 0, 0, 0, 0, 0], Some 3)" unfolding r_def s_def by code_simp
  then obtain s' where r: "r = (Some (Some [0x41, 0xc3, 0xa9, 0, 0, 0, 0, 0], Some 3), s')" by (cases r) simp
  have "cbs_rep (CBS_init [0x41, 0xc3, 0xa9] 3) (take (unat (3 :: size_t)) [0x41, 0xc3, 0xa9, 0, 0, 0, 0, 0])"
    by (simp add: cbs_rep_def CBS_init_def)
  from charset_roundtrip [OF _ _ i r [unfolded r_def] this] show ?thesis by simp
qed

end
