(* ===== verification/Ber.thy ===== *)
theory Ber
  imports Exchange
begin

text \<open>
  \<open>crypto/bytestring/ber.c\<close>: the conversion of BER to DER, and implicitly tagged strings. BER values are
  trees; the converter writes the DER of the tree it reads, unless a BIT STRING in it is in parts.
\<close>

section \<open>The code\<close>

definition kMaxDepth :: nat where "kMaxDepth = 2048"

definition CBS_ASN1_BITSTRING :: u32 where "CBS_ASN1_BITSTRING = 0x3"

definition is_string_type :: "u32 \<Rightarrow> bool" where
  "is_string_type tag \<longleftrightarrow> tag AND NOT CBS_ASN1_CONSTRUCTED \<in>
     {CBS_ASN1_BITSTRING, 0x4, 0xc, 0x12, 0x13, 0x14, 0x15, 0x16, 0x1a, 0x19, 0x1b, 0x1c, 0x1e}"

text \<open>The header octets are all there is, and the last one announces an indefinite length.\<close>

definition is_indefinite :: "size_t \<Rightarrow> cbs \<Rightarrow> bool" where
  "is_indefinite header_len contents \<longleftrightarrow>
     CBS_len contents = header_len \<and> header_len > 0 \<and> CBS_data contents ! (unat header_len - 1) = 0x80"

definition is_eoc :: "size_t \<Rightarrow> cbs \<Rightarrow> bool" where
  "is_eoc header_len contents \<longleftrightarrow>
     header_len = 2 \<and> CBS_len contents = 2 \<and> take 2 (CBS_data contents) = [0, 0]"

text \<open>An element has at least two header octets, and reading it consumes at least those.\<close>

lemma get_u8_len: "CBS_get_u8 c = (Some b, c') \<Longrightarrow> unat (cbs_len c) = unat (cbs_len c') + 1"
proof -
  assume "CBS_get_u8 c = (Some b, c')"
  then have "cbs_len c \<noteq> 0" "cbs_len c' = cbs_len c - 1"
    by (auto simp: CBS_get_u8_def chk_eq_Some_iff cbs_get_def split: if_splits)
  then show ?thesis by (simp add: unat_minus_one unat_gt_0 Suc_leI)
qed

lemma base128_loop_step:
  assumes "parse_base128_loop v c = (Some r, c')"
  obtains b c1 where "CBS_get_u8 c = (Some b, c1)" "drop_bit 57 v = 0" "\<not> (v = 0 \<and> b = 0x80)"
    "if b AND 0x80 \<noteq> 0 then parse_base128_loop (push_bit 7 v OR ucast (b AND 0x7f)) c1 = (Some r, c') else c1 = c'"
proof -
  obtain rb c1 where u: "CBS_get_u8 c = (rb, c1)" by (cases "CBS_get_u8 c")
  show thesis
  proof (cases rb)
    case None
    with assms u show thesis by (simp add: parse_base128_loop.simps [of v c])
  next
    case (Some b)
    have "parse_base128_loop v c = (if drop_bit 57 v \<noteq> 0 then (None, c1) else if v = 0 \<and> b = 0x80 then (None, c1)
        else if b AND 0x80 \<noteq> 0 then parse_base128_loop (push_bit 7 v OR ucast (b AND 0x7f)) c1
        else (Some (push_bit 7 v OR ucast (b AND 0x7f)), c1))"
      using u Some by (simp add: parse_base128_loop.simps [of v c] Let_def)
    then show thesis using that [of b c1] assms u Some by (simp split: if_splits)
  qed
qed

lemma base128_loop_len:
  "parse_base128_loop v c = (Some r, c') \<Longrightarrow> 2 ^ (7 * k) \<le> unat v \<Longrightarrow> k + n = 9 \<Longrightarrow>
   unat (cbs_len c) \<le> unat (cbs_len c') + n"
proof (induction n arbitrary: v c k)
  case (0 v c k)
  from "0.prems"(1) have "drop_bit 57 v = 0" by (rule base128_loop_step)
  from base128_shift(1) [OF this] "0.prems"(2,3) show ?case by simp
next
  case (Suc n v c k)
  from Suc.prems(1) obtain b c1 where b: "CBS_get_u8 c = (Some b, c1)" and d: "drop_bit 57 v = 0"
    and r: "if b AND 0x80 \<noteq> 0 then parse_base128_loop (push_bit 7 v OR ucast (b AND 0x7f)) c1 = (Some r, c') else c1 = c'"
    by (rule base128_loop_step)
  have "2 ^ (7 * Suc k) \<le> unat (push_bit 7 v OR ucast (b AND 0x7f))"
    unfolding base128_shift(2) [OF d, of b] using Suc.prems(2) by (simp add: power_add)
  with Suc.IH [of "push_bit 7 v OR ucast (b AND 0x7f)" c1 "Suc k"] Suc.prems(3) r get_u8_len [OF b]
  show ?case by (auto split: if_splits)
qed

lemma base128_integer_len:
  assumes "parse_base128_integer c = (Some r, c')"
  shows "unat (cbs_len c) \<le> unat (cbs_len c') + 10"
proof -
  from assms obtain b c1 where b: "CBS_get_u8 c = (Some b, c1)" and nz: "b \<noteq> 0x80"
    and r: "if b AND 0x80 \<noteq> 0 then parse_base128_loop (push_bit 7 0 OR ucast (b AND 0x7f)) c1 = (Some r, c') else c1 = c'"
    unfolding parse_base128_integer_def by (auto elim!: base128_loop_step)
  show ?thesis
  proof (cases "b AND 0x80 = 0")
    case True
    with r get_u8_len [OF b] show ?thesis by simp
  next
    case False
    have "unat b \<noteq> 128" using nz by (auto simp: word_unat_eq_iff)
    with False have "unat b mod 128 \<noteq> 0" using u8_cases_lt [of b] by (simp add: and_80_eq_0 le_mod_geq)
    then have "2 ^ (7 * 0) \<le> unat (push_bit 7 0 OR ucast (b AND 0x7f) :: u64)"
      using base128_shift(2) [of 0 b] by simp
    from base128_loop_len [OF _ this, of c1 r c' 9] r False get_u8_len [OF b] show ?thesis by simp
  qed
qed

lemma parse_tag_len:
  assumes "parse_asn1_tag c = (Some t, c')"
  shows "unat (cbs_len c') < unat (cbs_len c) \<and> unat (cbs_len c) \<le> unat (cbs_len c') + 11"
proof -
  from assms obtain b c1 where b: "CBS_get_u8 c = (Some b, c1)"
    and r: "c1 = c' \<or> (\<exists>v. parse_base128_integer c1 = (Some v, c'))"
    by (auto simp: parse_asn1_tag_def Let_def elim!: chk_SomeE split: if_splits)
  from r show ?thesis
  proof
    assume "\<exists>v. parse_base128_integer c1 = (Some v, c')"
    then obtain v where "parse_base128_integer c1 = (Some v, c')" by blast
    from base128_integer_len [OF this] parse_base128_shorter [OF this [unfolded parse_base128_integer_def]]
      get_u8_len [OF b] show ?thesis by simp
  qed (use get_u8_len [OF b] in simp)
qed

lemma get_bytes_len:
  assumes "CBS_get_bytes n c = (Some out, c')"
  shows "unat n \<le> unat (cbs_len c)" "unat (cbs_len c') = unat (cbs_len c) - unat n" "cbs_len out = n"
  using assms by (auto simp: CBS_get_bytes_def cbs_get_def CBS_init_def chk_eq_Some_iff word_less_nat_alt unat_sub_le word_le_nat_alt split: if_splits)

lemma any_element_len:
  assumes "cbs_get_any_asn1_element ber c = (Some (contents, t, h), c')"
  shows "unat (cbs_len c') < unat (cbs_len c)" "unat (cbs_len contents) \<le> unat (cbs_len c)" "0 < unat h"
proof -
  obtain rt h1 where t0: "parse_asn1_tag c = (rt, h1)" by (cases "parse_asn1_tag c")
  obtain rl h2 where l0: "CBS_get_u8 h1 = (rl, h2)" by (cases "CBS_get_u8 h1")
  from assms t0 obtain tag where rt: "rt = Some tag"
    by (cases rt) (simp_all add: cbs_get_any_asn1_element_def)
  from assms t0 l0 rt obtain lb where rl: "rl = Some lb"
    by (cases rl) (simp_all add: cbs_get_any_asn1_element_def)
  note t = t0 [unfolded rt] and l = l0 [unfolded rl]
  define hl where "hl = cbs_len c - cbs_len h2"
  note lens = parse_tag_len [OF t] get_u8_len [OF l]
  have "unat hl = unat (cbs_len c) - unat (cbs_len h2)"
    unfolding hl_def by (rule unat_sub_le) (use lens in \<open>simp add: word_le_nat_alt\<close>)
  then have hl: "2 \<le> unat hl" "unat hl \<le> 12" using lens by linarith+
  define nb :: size_t where "nb = ucast (lb AND 0x7f)"
  have e: "cbs_get_any_asn1_element ber c =
     (if lb AND 0x80 = 0 then chk (CBS_get_bytes (ucast lb + hl)) (\<lambda>out. succeed (out, tag, hl)) c
      else if ber \<and> tag AND CBS_ASN1_CONSTRUCTED \<noteq> 0 \<and> nb = 0 then chk (CBS_get_bytes hl) (\<lambda>out. succeed (out, tag, hl)) c
      else if nb = 0 \<or> nb > 4 then (None, c)
      else (case cbs_get_u nb h2 of
              (None, _) \<Rightarrow> (None, c)
            | (Some len64, header) \<Rightarrow>
                if len64 < 128 then (None, c)
                else if drop_bit ((unat nb - 1) * 8) len64 = 0 then (None, c)
                else if len64 + hl + nb < len64 then (None, c)
                else chk (CBS_get_bytes (len64 + (hl + nb))) (\<lambda>out. succeed (out, tag, hl + nb)) c))"
    unfolding cbs_get_any_asn1_element_def
    by (simp only: t l prod.case option.case Let_def CBS_len_def hl_def nb_def simp_thms)
  have fin: "\<exists>n. CBS_get_bytes n c = (Some contents, c') \<and> h = x \<and> m = n"
    if "chk (CBS_get_bytes m) (\<lambda>out. succeed (out, tag, x)) c = (Some (contents, t, h), c')" for m x
    using that by (auto elim!: chk_SomeE)
  have "\<exists>n k. CBS_get_bytes n c = (Some contents, c') \<and> h = hl + k \<and> 0 < unat n \<and> unat k \<le> 4"
  proof (cases "lb AND 0x80 = 0")
    case True
    then have "unat lb < 128" by (simp add: and_80_eq_0)
    then have "0 < unat (ucast lb + hl)" using hl by (simp add: unat_word_ariths unat_ucast_up)
    moreover have "\<exists>n. CBS_get_bytes n c = (Some contents, c') \<and> h = hl \<and> ucast lb + hl = n"
      by (rule fin) (use assms e True in simp)
    ultimately show ?thesis by (intro exI [of _ "ucast lb + hl"] exI [of _ 0]) auto
  next
    case False
    show ?thesis
    proof (cases "ber \<and> tag AND CBS_ASN1_CONSTRUCTED \<noteq> 0 \<and> nb = 0")
      case True
      have "\<exists>n. CBS_get_bytes n c = (Some contents, c') \<and> h = hl \<and> hl = n"
        by (rule fin) (use assms e True False in simp)
      with hl show ?thesis by (intro exI [of _ hl] exI [of _ 0]) auto
    next
      case long: False
      obtain r header where g: "cbs_get_u nb h2 = (r, header)" by (cases "cbs_get_u nb h2")
      with assms e long False obtain len64 where r: "r = Some len64" by (cases r) (auto split: if_splits)
      have c: "\<not> (nb = 0 \<or> nb > 4)" "\<not> len64 < 128" "\<not> len64 + hl + nb < len64"
        and x: "chk (CBS_get_bytes (len64 + (hl + nb))) (\<lambda>out. succeed (out, tag, hl + nb)) c = (Some (contents, t, h), c')"
        using assms e long False g r by (auto split: if_splits)
      have "128 \<le> unat (len64 + (hl + nb))" using c(2,3) by (simp add: word_less_nat_alt add.assoc)
      moreover have "unat nb \<le> 4" using c(1) by (simp add: word_less_nat_alt)
      ultimately show ?thesis using fin [OF x] by (intro exI [of _ "len64 + (hl + nb)"] exI [of _ nb]) auto
    qed
  qed
  then obtain n k where n: "CBS_get_bytes n c = (Some contents, c')" "h = hl + k" "0 < unat n" "unat k \<le> 4" by blast
  show "unat (cbs_len c') < unat (cbs_len c)" "unat (cbs_len contents) \<le> unat (cbs_len c)"
    using get_bytes_len [OF n(1)] n(3) by auto
  show "0 < unat h" using n(2,4) hl by (simp add: unat_word_ariths)
qed

lemmas any_ber_len = any_element_len [where ber = True, folded CBS_get_any_ber_asn1_element_def]

lemma skip_len: "CBS_skip h c = (Some u, c') \<Longrightarrow> 0 < unat h \<Longrightarrow> unat (cbs_len c') < unat (cbs_len c)"
  by (auto simp: CBS_skip_def cbs_get_def chk_eq_Some_iff word_less_nat_alt unat_sub_le word_le_nat_alt split: if_splits)

lemma ber_child_len:
  "CBS_get_any_ber_asn1_element c = (Some (contents, t, h), c') \<Longrightarrow> CBS_skip h contents = (Some u, child) \<Longrightarrow>
   unat (cbs_len child) < unat (cbs_len c)"
  by (rule order.strict_trans2 [OF skip_len any_ber_len(2)], assumption) (rule any_ber_len(3))

text \<open>
  The loop of \<open>cbs_find_ber\<close>; \<open>found\<close> is \<open>*ber_found\<close>, which the recursive call resets.
\<close>

function find_ber_loop :: "nat \<Rightarrow> cbs \<Rightarrow> bool \<Rightarrow> bool option" where
  "find_ber_loop depth input found =
     (if CBS_len input > 0 then
        (case CBS_get_any_ber_asn1_element input of
           (None, _) \<Rightarrow> None
         | (Some (contents, tag, header_len), input) \<Rightarrow>
             if is_indefinite header_len contents then Some True
             else if tag AND CBS_ASN1_CONSTRUCTED \<noteq> 0 then
               (if is_string_type tag then Some True
                else
                  (case CBS_skip header_len contents of
                     (None, _) \<Rightarrow> None
                   | (Some _, contents) \<Rightarrow>
                       (case (if depth + 1 > kMaxDepth then None else find_ber_loop (depth + 1) contents False) of
                          None \<Rightarrow> None
                        | Some found \<Rightarrow> find_ber_loop depth input found)))
             else find_ber_loop depth input found)
      else Some found)"
  by pat_completeness auto
termination
  by (relation "measure (\<lambda>(depth, input, found). unat (cbs_len input))")
    (auto dest: any_ber_len(1) [OF sym] ber_child_len [OF sym sym])

declare find_ber_loop.simps [simp del]

definition cbs_find_ber :: "cbs \<Rightarrow> nat \<Rightarrow> bool option" where
  "cbs_find_ber orig_in depth = (if depth > kMaxDepth then None else find_ber_loop depth orig_in False)"

text \<open>
  \<open>cbs_convert_ber\<close>, on the \<open>CBB\<close> at depth \<open>d\<close> of the builder; a child opened with \<open>CBB_add_asn1\<close> is at
  \<open>d + 1\<close>. The value is where \<open>in\<close> stands afterwards; callers give up when the function returns 0.
  Every round of the loop is a call with the same \<open>depth\<close>, for which the test at the top is false.
\<close>

definition child_string_tag :: "u32 \<Rightarrow> u32 \<Rightarrow> u32" where
  "child_string_tag string_tag tag =
     (if string_tag = 0 \<and> tag AND CBS_ASN1_CONSTRUCTED \<noteq> 0 \<and> is_string_type tag
      then tag AND NOT CBS_ASN1_CONSTRUCTED else string_tag)"

definition out_tag :: "u32 \<Rightarrow> u32" where
  "out_tag tag =
     (if tag AND CBS_ASN1_CONSTRUCTED \<noteq> 0 \<and> is_string_type tag then tag AND NOT CBS_ASN1_CONSTRUCTED else tag)"

definition open_contents :: "allocator \<Rightarrow> nat \<Rightarrow> u32 \<Rightarrow> u32 \<Rightarrow> (cbb, nat) op" where
  "open_contents A d string_tag tag =
     (if string_tag \<noteq> 0 then
        (if tag AND NOT CBS_ASN1_CONSTRUCTED \<noteq> string_tag then failure else succeed d)
      else chk (CBB_add_asn1 A d (out_tag tag)) (\<lambda>_. succeed (Suc d)))"

function cbs_convert_ber ::
  "allocator \<Rightarrow> nat \<Rightarrow> u32 \<Rightarrow> bool \<Rightarrow> nat \<Rightarrow> cbs \<Rightarrow> cbb \<Rightarrow> cbs option \<times> cbb" where
  "cbs_convert_ber A d string_tag looking_for_eoc depth input s =
     (if depth > kMaxDepth then (None, s)
      else if CBS_len input > 0 then
        (case CBS_get_any_ber_asn1_element input of
           (None, _) \<Rightarrow> (None, s)
         | (Some (contents, tag, header_len), input) \<Rightarrow>
             if is_eoc header_len contents then (if looking_for_eoc then Some input else None, s)
             else
               chk (open_contents A d string_tag tag) (\<lambda>out_contents s.
                 if is_indefinite header_len contents then
                   chk (\<lambda>s. cbs_convert_ber A out_contents (child_string_tag string_tag tag) True (depth + 1) input s)
                     (\<lambda>input s. chk (CBB_flush A d)
                       (\<lambda>_ s. cbs_convert_ber A d string_tag looking_for_eoc depth input s) s) s
                 else
                   (case CBS_skip header_len contents of
                      (None, _) \<Rightarrow> (None, s)
                    | (Some _, contents) \<Rightarrow>
                        chk (\<lambda>s. if tag AND CBS_ASN1_CONSTRUCTED \<noteq> 0 then
                               chk (\<lambda>s. cbs_convert_ber A out_contents (child_string_tag string_tag tag) False (depth + 1) contents s)
                                 (\<lambda>_. succeed ()) s
                             else CBB_add_bytes A out_contents (CBS_data contents) (CBS_len contents) s)
                          (\<lambda>_ s. chk (CBB_flush A d)
                            (\<lambda>_ s. cbs_convert_ber A d string_tag looking_for_eoc depth input s) s) s)) s)
      else (if looking_for_eoc then None else Some input, s))"
  by pat_completeness auto

lemma convert_ber_len:
  "cbs_convert_ber_dom (A, d, st, look, depth, input, s) \<Longrightarrow>
   cbs_convert_ber A d st look depth input s = (Some input', s') \<Longrightarrow> unat (cbs_len input') \<le> unat (cbs_len input)"
proof (induction A d st look depth input s arbitrary: input' s' rule: cbs_convert_ber.pinduct)
  case (1 A d st look depth input s)
  note e = "1.prems" [unfolded cbs_convert_ber.psimps [OF "1.hyps"]]
  show ?case
  proof (cases "0 < CBS_len input \<and> \<not> kMaxDepth < depth")
    case False
    then show ?thesis using e by (auto split: if_splits)
  next
    case g: True
    then obtain contents tag h in1 where el: "CBS_get_any_ber_asn1_element input = (Some (contents, tag, h), in1)"
      using e by (cases "CBS_get_any_ber_asn1_element input") (auto split: option.splits)
    note len1 = any_ber_len(1) [OF el]
    show ?thesis
    proof (cases "is_eoc h contents")
      case True
      then show ?thesis using e g el len1 by (auto split: if_splits)
    next
      case ne: False
      note IH = "1.IH" [OF conjunct2 [OF g] conjunct1 [OF g] el [symmetric] refl refl refl ne]
      let ?more = "\<lambda>m input s. chk m (\<lambda>_ s. chk (CBB_flush A d) (\<lambda>_ s. cbs_convert_ber A d st look depth input s) s) s"
      obtain out s1 where o: "open_contents A d st tag s = (Some out, s1)"
        and k: "(if is_indefinite h contents then
             chk (\<lambda>s. cbs_convert_ber A out (child_string_tag st tag) True (depth + 1) in1 s)
               (\<lambda>input s. chk (CBB_flush A d) (\<lambda>_ s. cbs_convert_ber A d st look depth input s) s) s1
           else (case CBS_skip h contents of (None, _) \<Rightarrow> (None, s1)
             | (Some _, contents) \<Rightarrow> ?more (\<lambda>s. if tag AND CBS_ASN1_CONSTRUCTED \<noteq> 0 then
                  chk (\<lambda>s. cbs_convert_ber A out (child_string_tag st tag) False (depth + 1) contents s) (\<lambda>_. succeed ()) s
                else CBB_add_bytes A out (CBS_data contents) (CBS_len contents) s) in1 s1)) = (Some input', s')"
        using e g el ne by (auto elim!: chk_SomeE)
      show ?thesis
      proof (cases "is_indefinite h contents")
        case True
        with k obtain in2 s2 u s3 where r: "cbs_convert_ber A out (child_string_tag st tag) True (depth + 1) in1 s1 = (Some in2, s2)"
          "CBB_flush A d s2 = (Some u, s3)" "cbs_convert_ber A d st look depth in2 s3 = (Some input', s')"
          by (auto elim!: chk_SomeE)
        from IH(1) [OF o True r(1)] IH(2) [OF o True r] len1 show ?thesis by linarith
      next
        case False
        with k obtain child where sk: "CBS_skip h contents = (Some (), child)"
          by (cases "CBS_skip h contents") (auto split: option.splits)
        with k False obtain u s2 v s3 where r: "(if tag AND CBS_ASN1_CONSTRUCTED \<noteq> 0 then
              chk (cbs_convert_ber A out (child_string_tag st tag) False (depth + 1) child) (\<lambda>_. succeed ()) s1
            else CBB_add_bytes A out (CBS_data child) (CBS_len child) s1) = (Some u, s2)"
          "CBB_flush A d s2 = (Some v, s3)" "cbs_convert_ber A d st look depth in1 s3 = (Some input', s')"
          by (auto elim!: chk_SomeE)
        from IH(4) [OF o False sk [symmetric] refl r] len1 show ?thesis by linarith
      qed
    qed
  qed
qed

termination cbs_convert_ber
proof (relation "measure (\<lambda>(A, d, st, look, depth, input, s). unat (cbs_len input))", goal_cases)
  case (3 A d st look depth input s)
  then show ?case by (auto dest!: convert_ber_len any_ber_len(1) [OF sym])
qed (auto dest: any_ber_len(1) [OF sym] ber_child_len [OF sym sym])

declare cbs_convert_ber.simps [simp del]

text \<open>
  The results are \<open>*out\<close> and \<open>*out_storage\<close>. After a failed conversion \<open>in\<close> is given back as it was;
  the C code leaves it at the offending element.
\<close>

definition CBS_asn1_ber_to_der :: "allocator \<Rightarrow> (cbs, cbs \<times> bytes option) op" where
  "CBS_asn1_ber_to_der A input =
     (case cbs_find_ber input 0 of
        None \<Rightarrow> (None, input)
      | Some conversion_needed \<Rightarrow>
          if \<not> conversion_needed then
            chk CBS_get_any_asn1_element (\<lambda>(out, _, _). succeed (out, None)) input
          else
            (case CBB_init A (CBS_len input) of
               (None, _) \<Rightarrow> (None, input)
             | (Some _, s) \<Rightarrow>
                 (case chk (cbs_convert_ber A 0 0 False 0 input)
                     (\<lambda>input'. chk (CBB_finish A 0 True True) (\<lambda>(out, len). succeed (input', the out, the len))) s of
                    (None, _) \<Rightarrow> (None, input)
                  | (Some (input', data, len), _) \<Rightarrow> (Some (CBS_init data len, Some data), input'))))"

lemma get_asn1_len:
  "CBS_get_asn1 t c = (Some out, c') \<Longrightarrow> unat (cbs_len c') < unat (cbs_len c)"
  by (auto simp: CBS_get_asn1_def cbs_get_asn1_def on_child_def CBS_get_any_asn1_element_def elim!: chk_SomeE
      split: prod.splits option.splits if_splits dest: any_element_len(1))

function implicit_chunks :: "allocator \<Rightarrow> u32 \<Rightarrow> cbs \<Rightarrow> cbb \<Rightarrow> unit option \<times> cbb" where
  "implicit_chunks A inner_tag child s =
     (if CBS_len child > 0 then
        (case CBS_get_asn1 inner_tag child of
           (None, _) \<Rightarrow> (None, s)
         | (Some chunk, child) \<Rightarrow>
             chk (CBB_add_bytes A 0 (CBS_data chunk) (CBS_len chunk)) (\<lambda>_ s. implicit_chunks A inner_tag child s) s)
      else (Some (), s))"
  by pat_completeness auto
termination
  by (relation "measure (\<lambda>(A, t, child, s). unat (cbs_len child))") (auto dest: get_asn1_len [OF sym])

declare implicit_chunks.simps [simp del]

definition CBS_get_asn1_implicit_string :: "allocator \<Rightarrow> u32 \<Rightarrow> u32 \<Rightarrow> (cbs, cbs \<times> bytes option) op" where
  "CBS_get_asn1_implicit_string A outer_tag inner_tag input =
     (if CBS_peek_asn1_tag input outer_tag then
        chk (CBS_get_asn1 outer_tag) (\<lambda>out. succeed (out, None)) input
      else
        (case CBB_init A (CBS_len input) of
           (None, _) \<Rightarrow> (None, input)
         | (Some _, s) \<Rightarrow>
             (case CBS_get_asn1 (outer_tag OR CBS_ASN1_CONSTRUCTED) input of
                (None, input) \<Rightarrow> (None, input)
              | (Some child, input) \<Rightarrow>
                  (case chk (implicit_chunks A inner_tag child) (\<lambda>_. CBB_finish A 0 True True) s of
                     (None, _) \<Rightarrow> (None, input)
                   | (Some (data, len), _) \<Rightarrow> (Some (CBS_init (the data) (the len), Some (the data)), input)))))"

section \<open>BER values\<close>

text \<open>
  A primitive element, or a constructed one with the form of its length: indefinite or not. Lengths
  that are given are in the shortest form, which the reader insists on. \<open>string\<close> is the tag of the
  constructed string the element is part of, 0 outside of strings.
\<close>

datatype ber = Prim u32 bytes | Constr u32 bool "ber list"

fun ber_enc :: "ber \<Rightarrow> bytes" where
  "ber_enc (Prim t b) = der_element (t, b)"
| "ber_enc (Constr t indefinite ts) =
     (let body = concat (map ber_enc ts)
      in if indefinite then der_tag t @ 0x80 # body @ [0, 0] else der_element (t, body))"

abbreviation ber_encs :: "ber list \<Rightarrow> bytes" where "ber_encs ts \<equiv> concat (map ber_enc ts)"

fun ber_ok :: "u32 \<Rightarrow> ber \<Rightarrow> bool" where
  "ber_ok string (Prim t b) \<longleftrightarrow>
     t AND CBS_ASN1_CONSTRUCTED = 0 \<and> (string \<noteq> 0 \<longrightarrow> t = string) \<and> length b < 2 ^ 32 \<and> \<not> (t = 0 \<and> b = [])"
| "ber_ok string (Constr t indefinite ts) \<longleftrightarrow>
     t AND CBS_ASN1_CONSTRUCTED \<noteq> 0 \<and> (string \<noteq> 0 \<longrightarrow> t AND NOT CBS_ASN1_CONSTRUCTED = string) \<and>
     length (ber_encs ts) < 2 ^ 32 \<and> (\<forall>x \<in> set ts. ber_ok (child_string_tag string t) x)"

fun ber_depth :: "ber \<Rightarrow> nat" where
  "ber_depth (Prim t b) = 0"
| "ber_depth (Constr t indefinite ts) = Suc (foldr max (map ber_depth ts) 0)"

text \<open>
  Its DER: every length given, and the parts of a constructed string put together. The part of a BIT
  STRING starts with the number of unused bits at its end, 0 in all parts but the last; the whole
  string has one such octet, that of its last part. What is inside primitive elements, and the order in
  a SET, stay. \<open>None\<close> when an element is too long, or is no BIT STRING at all.
\<close>

definition cats :: "bytes option list \<Rightarrow> bytes option" where
  "cats es = foldr cat es (Some [])"

fun string_parts :: "ber \<Rightarrow> bytes list" where
  "string_parts (Prim t b) = [b]"
| "string_parts (Constr t indefinite ts) = concat (map string_parts ts)"

definition bit_string_value :: "bytes list \<Rightarrow> bytes option" where
  "bit_string_value parts =
     (if parts = [] then Some [0]
      else if (\<forall>p \<in> set parts. p \<noteq> []) \<and> (\<forall>p \<in> set (butlast parts). hd p = 0)
      then Some (hd (last parts) # concat (map tl parts)) else None)"

definition string_value :: "u32 \<Rightarrow> bytes list \<Rightarrow> bytes option" where
  "string_value tag parts = (if tag = CBS_ASN1_BITSTRING then bit_string_value parts else Some (concat parts))"

fun der_of :: "ber \<Rightarrow> bytes option" where
  "der_of (Prim t b) = element_of t (Some b)"
| "der_of (Constr t indefinite ts) =
     (if is_string_type t
      then element_of (out_tag t) (string_value (out_tag t) (concat (map string_parts ts)))
      else element_of t (cats (map der_of ts)))"

text \<open>
  What the converter writes: it puts the parts of all strings together alike, those of a BIT STRING too.
\<close>

fun joined :: "u32 \<Rightarrow> ber \<Rightarrow> bytes option" where
  "joined string (Prim t b) = (if string \<noteq> 0 then Some b else element_of t (Some b))"
| "joined string (Constr t indefinite ts) =
     (let body = cats (map (joined (child_string_tag string t)) ts)
      in if string \<noteq> 0 then body else element_of (out_tag t) body)"


section \<open>Reading one element\<close>

lemma any_element_definite:
  assumes "length b < 2 ^ 32"
  shows "p_any_element ber (der_element (t, b) @ rest) =
    Some ((der_element (t, b), t, length (der_header t (length b))), rest)"
proof -
  have t: "p_tag (der_element (t, b) @ rest) = Some (t, der_length (length b) @ b @ rest)"
    by (simp add: der_element_def der_header_def p_tag_complete)
  have l: "p_length i (der_length (length b) @ b @ rest) = Some (Some (length b), b @ rest)" for i
    using assms by (rule p_length_complete)
  show ?thesis unfolding p_any_element_def t prod.case option.case l Let_def
    by (simp add: der_element_def)
qed

lemma any_element_indefinite:
  assumes "t AND CBS_ASN1_CONSTRUCTED \<noteq> 0"
  shows "p_any_element True (der_tag t @ 0x80 # rest) =
    Some ((der_tag t @ [0x80], t, length (der_tag t) + 1), rest)"
proof -
  have t: "p_tag (der_tag t @ 0x80 # rest) = Some (t, 0x80 # rest)" by (rule p_tag_complete)
  have l: "p_length (True \<and> t AND CBS_ASN1_CONSTRUCTED \<noteq> 0) (0x80 # rest) = Some (None, rest)"
    using assms by (simp add: p_length_indefinite)
  show ?thesis unfolding p_any_element_def t prod.case option.case l Let_def by simp
qed

text \<open>The three kinds of elements the code tells apart.\<close>

lemma element_flags:
  assumes "cbs_rep out e" and "unat h = length hdr" and "e = hdr @ b" and "hdr \<noteq> []"
  shows "is_indefinite h out \<longleftrightarrow> b = [] \<and> last hdr = 0x80"
    "is_eoc h out \<longleftrightarrow> length hdr = 2 \<and> e = [0, 0]"
proof -
  have l: "length e = unat (CBS_len out)" and e: "e = take (unat (CBS_len out)) (CBS_data out)"
    "unat (CBS_len out) \<le> length (CBS_data out)"
    using assms(1) by (simp_all add: cbs_rep_def CBS_len_def CBS_data_def)
  have "CBS_len out = h \<longleftrightarrow> b = []" using l assms(2,3) by (auto simp: word_unat_eq_iff)
  moreover have "h > 0" using assms(2,4) by (simp add: word_less_nat_alt)
  moreover have "b = [] \<Longrightarrow> CBS_data out ! (unat h - 1) = last hdr"
  proof -
    assume "b = []"
    then have "CBS_data out ! (unat h - 1) = e ! (length hdr - 1)" using e l assms(2-4) by simp
    then show "CBS_data out ! (unat h - 1) = last hdr" using \<open>b = []\<close> assms(3,4) by (simp add: last_conv_nth)
  qed
  ultimately show "is_indefinite h out \<longleftrightarrow> b = [] \<and> last hdr = 0x80" by (auto simp: is_indefinite_def)
  have "CBS_len out = 2 \<longleftrightarrow> length e = 2" using l by (auto simp: word_unat_eq_iff)
  moreover have "length e = 2 \<Longrightarrow> take 2 (CBS_data out) = e" using e l by simp
  ultimately show "is_eoc h out \<longleftrightarrow> length hdr = 2 \<and> e = [0, 0]"
    using assms(2) by (auto simp: is_eoc_def word_unat_eq_iff)
qed

lemma eoc_element: "der_element (0, []) = [0, 0]"
  by (simp add: der_element_def der_header_def der_tag_def tag_number_def tag_top_def der_length_def)

lemma header_last: "last (der_header t 0) = 0"
  by (simp add: der_header_def der_length_def)

lemma not_eoc:
  assumes "der_element (t, b) = [0, 0]"
  shows "t = 0 \<and> b = []"
proof -
  have "length b < 2 ^ 32" using arg_cong [OF assms, of length] by (simp add: der_element_def)
  then have "(t, b) = (0, [])"
    by (intro der_element.enc_inj) (simp_all add: assms eoc_element)
  then show ?thesis by simp
qed

text \<open>What the converter and the checker see of a value at the front of their input.\<close>

lemma read_definite:
  assumes c: "cbs_rep c (der_element (t, b) @ rest)" and b: "length b < 2 ^ 32" "\<not> (t = 0 \<and> b = [])"
  obtains contents h c' child where "CBS_get_any_ber_asn1_element c = (Some (contents, t, h), c')" "cbs_rep c' rest"
    "\<not> is_indefinite h contents" "\<not> is_eoc h contents" "CBS_skip h contents = (Some (), child)" "cbs_rep child b"
proof -
  obtain r c' where r: "CBS_get_any_ber_asn1_element c = (Some r, c')"
    "element_is r (der_element (t, b), t, length (der_header t (length b)))" "cbs_rep c' rest"
    by (rule refines_SomeE [OF refines_CBS_get_any_ber_asn1_element c any_element_definite [OF b(1)]])
  then obtain contents h where rr: "r = (contents, t, h)" "cbs_rep contents (der_element (t, b))"
    "unat h = length (der_header t (length b))" by (cases r) (auto simp: element_is_def)
  obtain child where child: "CBS_skip h contents = (Some (), child)" "cbs_rep child b"
    by (rule skip_header [OF rr(2,3)])
  note fl = element_flags [OF rr(2,3), of b]
  have "der_element (t, b) = der_header t (length b) @ b" by (simp add: der_element_def)
  note fl = fl [OF this der_header_nonempty]
  have "\<not> is_indefinite h contents" unfolding fl using header_last [of t] by auto
  moreover have "\<not> is_eoc h contents" unfolding fl using not_eoc b(2) by blast
  ultimately show thesis using that r(1,3) rr(1) child by blast
qed

lemma read_indefinite:
  assumes c: "cbs_rep c (der_tag t @ 0x80 # rest)" and t: "t AND CBS_ASN1_CONSTRUCTED \<noteq> 0"
  obtains contents h c' where "CBS_get_any_ber_asn1_element c = (Some (contents, t, h), c')" "cbs_rep c' rest"
    "is_indefinite h contents" "\<not> is_eoc h contents"
proof -
  obtain r c' where r: "CBS_get_any_ber_asn1_element c = (Some r, c')"
    "element_is r (der_tag t @ [0x80], t, length (der_tag t) + 1)" "cbs_rep c' rest"
    by (rule refines_SomeE [OF refines_CBS_get_any_ber_asn1_element c any_element_indefinite [OF t]])
  then obtain contents h where rr: "r = (contents, t, h)" "cbs_rep contents (der_tag t @ [0x80])"
    "unat h = length (der_tag t @ [0x80])" by (cases r) (auto simp: element_is_def)
  note fl = element_flags [OF rr(2,3), of "[]"]
  have "is_indefinite h contents" "\<not> is_eoc h contents" by (subst fl; simp)+
  with that r(1,3) rr(1) show thesis by blast
qed

lemma read_eoc:
  assumes "cbs_rep c (0 # 0 # rest)"
  obtains contents t h c' where "CBS_get_any_ber_asn1_element c = (Some (contents, t, h), c')" "cbs_rep c' rest"
    "is_eoc h contents"
proof -
  have c: "cbs_rep c (der_element (0, []) @ rest)" using assms by (simp add: eoc_element)
  have e: "p_any_element True (der_element (0, []) @ rest) =
      Some ((der_element (0, []), 0, length (der_header 0 (length ([] :: bytes)))), rest)"
    by (rule any_element_definite) simp
  obtain r c' where r: "CBS_get_any_ber_asn1_element c = (Some r, c')"
    "element_is r (der_element (0, []), 0, length (der_header 0 (length ([] :: bytes))))" "cbs_rep c' rest"
    by (rule refines_SomeE [OF refines_CBS_get_any_ber_asn1_element c e])
  then obtain contents h where rr: "r = (contents, 0, h)" "cbs_rep contents (der_element (0, []))"
    "unat h = length (der_header 0 (length ([] :: bytes)))" by (cases r) (auto simp: element_is_def)
  have hd: "der_header 0 0 = [0, 0]" using eoc_element by (simp add: der_element_def)
  have "is_eoc h contents" using element_flags(2) [OF rr(2,3), of "[]"] hd by (simp add: eoc_element)
  with that r(1,3) rr(1) show thesis by blast
qed

section \<open>The converter writes the DER of what it reads\<close>

text \<open>What every value returned satisfies; later operations may depend on it.\<close>

definition returns :: "('s, 'a) op \<Rightarrow> ('a \<Rightarrow> bool) \<Rightarrow> bool" where
  "returns m P \<longleftrightarrow> (\<forall>s a s'. m s = (Some a, s') \<longrightarrow> P a)"

lemma returns_succeed: "P a \<Longrightarrow> returns (succeed a) P"
  by (simp add: returns_def)

lemma returns_True: "returns m (\<lambda>_. True)"
  by (simp add: returns_def)

lemma returns_chk: "returns m P \<Longrightarrow> (\<And>a. P a \<Longrightarrow> returns (f a) Q) \<Longrightarrow> returns (chk m f) Q"
  unfolding returns_def by (auto elim!: chk_SomeE) blast

lemma writes_chk_returns:
  assumes "writes A d m e v" and "returns m P" and "P a0" and "\<And>a. P a \<Longrightarrow> writes A d (f a) g w"
  shows "writes A d (chk m f) (cat e g) (v + w)"
proof -
  have "chk m f = chk m (\<lambda>a. if P a then f a else f a0)"
    using assms(2) by (auto simp: chk_def returns_def fun_eq_iff split: prod.splits option.splits)
  moreover have "writes A d (chk m (\<lambda>a. if P a then f a else f a0)) (cat e g) (v + w)"
    by (rule writes_chk [OF assms(1)]) (use assms(3,4) in simp)
  ultimately show ?thesis by simp
qed

text \<open>\<open>writes\<close> does not look at the value.\<close>

lemma writes_same_effect:
  assumes "writes A d m e w" and "\<And>s. snd (m' s) = snd (m s) \<and> (fst (m' s) = None \<longleftrightarrow> fst (m s) = None)"
  shows "writes A d m' e w"
proof (rule writesI)
  fix s s' V x
  assume s: "cbb_inv s" "d < length (chain s)" "weight s + w \<le> 2 ^ 62" "m' s = (None, s')" "view d s = Some V" "e = Some x"
  then have "m s = (None, s')" using assms(2) [of s] by (cases "m s") auto
  from writesD_fail [OF assms(1) s(1-3) this s(5,6)] show "\<not> roomy A (bufr s) (length V + length x)" .
next
  fix s a s'
  assume s: "cbb_inv s" "d < length (chain s)" "weight s + w \<le> 2 ^ 62" "m' s = (Some a, s')"
  then obtain b where "m s = (Some b, s')" using assms(2) [of s] by (cases "m s"; cases "fst (m s)") auto
  from writesE [OF assms(1) s(1-3) this]
  show "cbb_inv s' \<and> take (Suc d) (chain s') = take (Suc d) (chain s) \<and>
      view d s' = cat (view d s) e \<and> weight s' \<le> weight s + w \<and> same_kind (bufr s) (bufr s')" by simp
qed

text \<open>One element: \<open>body\<close> writes its contents, \<open>more\<close> what follows.\<close>

lemma writes_element:
  assumes body: "\<And>d. writes A d (body d) e w" and P: "\<And>d. returns (body d) P" "P a0"
    and nxt: "\<And>a. P a \<Longrightarrow> writes A d (nxt a) g v"
    and st: "st \<noteq> 0 \<Longrightarrow> tag AND NOT CBS_ASN1_CONSTRUCTED = st"
  shows "writes A d (chk (open_contents A d st tag) (\<lambda>out. chk (body out) (\<lambda>a. chk (CBB_flush A d) (\<lambda>_. nxt a))))
    (cat (if st \<noteq> 0 then e else element_of (out_tag tag) e) g) (16 + w + v)"
proof (cases "st = 0")
  case False
  have "writes A d (chk (body d) (\<lambda>a. chk (CBB_flush A d) (\<lambda>_. nxt a))) (cat e (cat (Some []) g)) (w + (0 + v))"
    by (rule writes_chk_returns [OF body P], rule writes_chk [OF writes_flush]) (rule nxt)
  then show ?thesis using False st by (simp add: open_contents_def) (erule writes_weaken, simp)
next
  case True
  let ?in = "chk (CBB_add_asn1 A d (out_tag tag)) (\<lambda>_. chk (body (Suc d)) (\<lambda>a. chk (CBB_flush A d) (\<lambda>_. succeed a)))"
  have "writes A d (chk (CBB_add_asn1 A d (out_tag tag)) (\<lambda>_. chk (body (Suc d)) (\<lambda>_. CBB_flush A d)))
      (element_of (out_tag tag) e) (16 + w)" by (rule writes_asn1_flushed) (rule body)
  then have "writes A d ?in (element_of (out_tag tag) e) (16 + w)"
    by (rule writes_same_effect) (simp add: chk_def split: prod.splits option.splits)
  moreover have "returns ?in P"
    by (intro returns_chk [OF returns_True] returns_chk [OF P(1)] returns_succeed)
  ultimately have "writes A d (chk ?in nxt) (cat (element_of (out_tag tag) e) g) (16 + w + v)"
    using P(2) nxt by (rule writes_chk_returns)
  moreover have "chk (open_contents A d st tag) (\<lambda>out. chk (body out) (\<lambda>a. chk (CBB_flush A d) (\<lambda>_. nxt a))) = chk ?in nxt"
    using True by (simp add: open_contents_def chk_assoc)
  ultimately show ?thesis using True by simp
qed

text \<open>The equations of the converter at an element of definite and of indefinite length, and at the end.\<close>

lemma nonempty_len: "cbs_rep c xs \<Longrightarrow> xs \<noteq> [] \<Longrightarrow> CBS_len c > 0"
  using cbs_rep_length [of c xs] by (cases xs) (auto simp: CBS_len_def word_less_nat_alt)

lemma convert_definite:
  assumes "depth \<le> kMaxDepth" and "cbs_rep c xs" "xs \<noteq> []"
    and "CBS_get_any_ber_asn1_element c = (Some (contents, t, h), c')"
    and "\<not> is_indefinite h contents" "\<not> is_eoc h contents" "CBS_skip h contents = (Some (), child)"
  shows "cbs_convert_ber A d st look depth c =
    chk (open_contents A d st t) (\<lambda>out. chk
      (if t AND CBS_ASN1_CONSTRUCTED \<noteq> 0 then
         chk (cbs_convert_ber A out (child_string_tag st t) False (depth + 1) child) (\<lambda>_. succeed ())
       else CBB_add_bytes A out (CBS_data child) (CBS_len child))
      (\<lambda>_. chk (CBB_flush A d) (\<lambda>_. cbs_convert_ber A d st look depth c')))"
proof (rule ext)
  fix s
  have "CBS_len c > 0" by (rule nonempty_len [OF assms(2,3)])
  moreover have "\<not> kMaxDepth < depth" using assms(1) by simp
  ultimately show "cbs_convert_ber A d st look depth c s =
    chk (open_contents A d st t) (\<lambda>out. chk
      (if t AND CBS_ASN1_CONSTRUCTED \<noteq> 0 then
         chk (cbs_convert_ber A out (child_string_tag st t) False (depth + 1) child) (\<lambda>_. succeed ())
       else CBB_add_bytes A out (CBS_data child) (CBS_len child))
      (\<lambda>_. chk (CBB_flush A d) (\<lambda>_. cbs_convert_ber A d st look depth c'))) s"
    by (subst cbs_convert_ber.simps) (cases "t AND CBS_ASN1_CONSTRUCTED = 0"; simp add: assms(4-7))
qed

lemma convert_indefinite:
  assumes "depth \<le> kMaxDepth" and "cbs_rep c xs" "xs \<noteq> []"
    and "CBS_get_any_ber_asn1_element c = (Some (contents, t, h), c')"
    and "is_indefinite h contents" "\<not> is_eoc h contents"
  shows "cbs_convert_ber A d st look depth c =
    chk (open_contents A d st t) (\<lambda>out. chk
      (cbs_convert_ber A out (child_string_tag st t) True (depth + 1) c')
      (\<lambda>c'. chk (CBB_flush A d) (\<lambda>_. cbs_convert_ber A d st look depth c')))"
proof (rule ext)
  fix s
  have "CBS_len c > 0" by (rule nonempty_len [OF assms(2,3)])
  moreover have "\<not> kMaxDepth < depth" using assms(1) by simp
  ultimately show "cbs_convert_ber A d st look depth c s =
    chk (open_contents A d st t) (\<lambda>out. chk
      (cbs_convert_ber A out (child_string_tag st t) True (depth + 1) c')
      (\<lambda>c'. chk (CBB_flush A d) (\<lambda>_. cbs_convert_ber A d st look depth c'))) s"
    by (subst cbs_convert_ber.simps) (simp add: assms(4-6))
qed

lemma cats_simps [simp]: "cats [] = Some []" "cats (e # es) = cat e (cats es)"
  by (simp_all add: cats_def)

lemma ber_enc_nonempty [simp]: "ber_enc t \<noteq> []"
  by (cases t) (simp_all add: Let_def)

text \<open>The size of an encoding bounds the size of its parts.\<close>

lemma der_element_length: "length (der_element (t, b)) \<ge> length b + 2"
proof -
  have "0 < length (der_tag t)" by simp
  moreover have "0 < length (der_length (length b))" by (simp add: der_length_def)
  ultimately show ?thesis unfolding der_element_def der_header_def prod.case length_append by linarith
qed

definition reads_to :: "bool \<Rightarrow> bytes \<Rightarrow> bytes \<Rightarrow> bool" where
  "reads_to looking tail rest \<longleftrightarrow> (if looking then tail = 0 # 0 # rest else tail = [] \<and> rest = [])"

lemma convert_end:
  assumes "depth \<le> kMaxDepth" and "cbs_rep c tail" and "reads_to looking tail rest"
  obtains c' where "cbs_convert_ber A d st looking depth c = succeed c'" "cbs_rep c' rest"
proof (cases looking)
  case True
  then have c: "cbs_rep c (0 # 0 # rest)" using assms(2,3) by (simp add: reads_to_def)
  obtain contents t h c' where r: "CBS_get_any_ber_asn1_element c = (Some (contents, t, h), c')" "cbs_rep c' rest"
    "is_eoc h contents" by (rule read_eoc [OF c])
  have "cbs_convert_ber A d st looking depth c = succeed c'"
  proof (rule ext)
    fix s
    show "cbs_convert_ber A d st looking depth c s = succeed c' s"
      using nonempty_len [OF c] assms(1) r True by (subst cbs_convert_ber.simps) simp
  qed
  with r(2) that show thesis by blast
next
  case False
  then have e: "tail = []" "rest = []" using assms(3) by (simp_all add: reads_to_def)
  then have "\<not> 0 < CBS_len c" using cbs_rep_length [OF assms(2)] by (simp add: CBS_len_def word_less_nat_alt)
  then have "cbs_convert_ber A d st looking depth c s = succeed c s" for s
    using assms(1) False by (subst cbs_convert_ber.simps) simp
  then have "cbs_convert_ber A d st looking depth c = succeed c" by (rule ext)
  with assms(2) e that show thesis by simp
qed

lemma and_not_id: "g AND m = 0 \<Longrightarrow> g AND NOT m = g" for g :: "'a::len word"
proof -
  assume "g AND m = 0"
  then have "g AND NOT m = (g AND NOT m) OR (g AND m)" by simp
  also have "\<dots> = g AND (NOT m OR m)" by (simp only: bit.conj_disj_distrib)
  finally show ?thesis by simp
qed

lemma length_fits:
  assumes "cbs_rep c (xs @ ys)"
  shows "\<exists>c'. cbs_rep c' ys"
proof -
  have "length ys < 2 ^ 64" using cbs_rep_length [OF assms] unat_lt_size_max [of "cbs_len c"] by simp
  then have "cbs_rep (CBS_init ys (of_nat (length ys))) ys"
    by (simp add: cbs_rep_def CBS_init_def unat_of_nat_size)
  then show ?thesis by blast
qed

lemma convert_definite_writes:
  assumes c: "cbs_rep c (der_element (t, b) @ rest)" and b: "length b < 2 ^ 32" "\<not> (t = 0 \<and> b = [])"
    and depth: "depth \<le> kMaxDepth" and st: "st \<noteq> 0 \<Longrightarrow> t AND NOT CBS_ASN1_CONSTRUCTED = st"
    and body: "\<And>d child. cbs_rep child b \<Longrightarrow>
      writes A d (if t AND CBS_ASN1_CONSTRUCTED \<noteq> 0 then
          chk (cbs_convert_ber A d (child_string_tag st t) False (depth + 1) child) (\<lambda>_. succeed ())
        else CBB_add_bytes A d (CBS_data child) (CBS_len child)) e w"
    and nxt: "\<And>c'. cbs_rep c' rest \<Longrightarrow> writes A d (cbs_convert_ber A d st look depth c') g v \<and>
      returns (cbs_convert_ber A d st look depth c') Q"
  shows "writes A d (cbs_convert_ber A d st look depth c) (cat (if st \<noteq> 0 then e else element_of (out_tag t) e) g) (16 + w + v) \<and>
    returns (cbs_convert_ber A d st look depth c) Q"
proof -
  obtain contents h c' child where r: "CBS_get_any_ber_asn1_element c = (Some (contents, t, h), c')" "cbs_rep c' rest"
    "\<not> is_indefinite h contents" "\<not> is_eoc h contents" "CBS_skip h contents = (Some (), child)" "cbs_rep child b"
    by (rule read_definite [OF c b])
  have ne: "der_element (t, b) @ rest \<noteq> []" by (simp add: der_element_def)
  note e = convert_definite [OF depth c ne r(1,3,4,5)]
  show ?thesis unfolding e
    by (intro conjI writes_element [where P = "\<lambda>_. True", OF body [OF r(6)] returns_True TrueI conjunct1 [OF nxt [OF r(2)]] st]
        returns_chk [OF returns_True] conjunct2 [OF nxt [OF r(2)]])
qed

lemma convert_indefinite_writes:
  assumes c: "cbs_rep c (der_tag t @ 0x80 # body @ 0 # 0 # rest)" and t: "t AND CBS_ASN1_CONSTRUCTED \<noteq> 0"
    and depth: "depth \<le> kMaxDepth" and st: "st \<noteq> 0 \<Longrightarrow> t AND NOT CBS_ASN1_CONSTRUCTED = st"
    and body: "\<And>d c'. cbs_rep c' (body @ 0 # 0 # rest) \<Longrightarrow>
      writes A d (cbs_convert_ber A d (child_string_tag st t) True (depth + 1) c') e w \<and>
      returns (cbs_convert_ber A d (child_string_tag st t) True (depth + 1) c') (\<lambda>c'. cbs_rep c' rest)"
    and nxt: "\<And>c'. cbs_rep c' rest \<Longrightarrow> writes A d (cbs_convert_ber A d st look depth c') g v \<and>
      returns (cbs_convert_ber A d st look depth c') Q"
  shows "writes A d (cbs_convert_ber A d st look depth c) (cat (if st \<noteq> 0 then e else element_of (out_tag t) e) g) (16 + w + v) \<and>
    returns (cbs_convert_ber A d st look depth c) Q"
proof -
  obtain contents h c' where r: "CBS_get_any_ber_asn1_element c = (Some (contents, t, h), c')"
    "cbs_rep c' (body @ 0 # 0 # rest)" "is_indefinite h contents" "\<not> is_eoc h contents"
    by (rule read_indefinite [OF c t])
  have ne: "der_tag t @ 0x80 # body @ 0 # 0 # rest \<noteq> []" by simp
  note e = convert_indefinite [OF depth c ne r(1,3,4)]
  obtain c0 where c0: "cbs_rep c0 rest" using length_fits [of c' "body @ [0, 0]" rest] r(2) by auto
  show ?thesis unfolding e
    by (intro conjI writes_element [OF conjunct1 [OF body [OF r(2)]] conjunct2 [OF body [OF r(2)]] c0 conjunct1 [OF nxt] st]
        returns_chk [OF returns_True] returns_chk [OF conjunct2 [OF body [OF r(2)]]] conjunct2 [OF nxt])
qed

lemma convert_writes:
  assumes "\<forall>t \<in> set ts. ber_ok st t" and "depth + foldr max (map ber_depth ts) 0 \<le> kMaxDepth"
    and "cbs_rep c (ber_encs ts @ tail)" and "reads_to looking tail rest"
  shows "writes A d (cbs_convert_ber A d st looking depth c) (cats (map (joined st) ts)) (16 * length (ber_encs ts)) \<and>
    returns (cbs_convert_ber A d st looking depth c) (\<lambda>c'. cbs_rep c' rest)"
  using assms
proof (induction "length (ber_encs ts)" arbitrary: ts d st looking depth c tail rest rule: less_induct)
  case less
  show ?case
  proof (cases ts)
    case Nil
    have d: "depth \<le> kMaxDepth" "cbs_rep c tail" using less.prems(2,3) Nil by simp_all
    obtain c' where "cbs_convert_ber A d st looking depth c = succeed c'" "cbs_rep c' rest"
      by (rule convert_end [OF d less.prems(4)])
    then show ?thesis using Nil writes_succeed [of A d c'] returns_succeed [of "\<lambda>c. cbs_rep c rest" c'] by simp
  next
    case (Cons t us)
    have us: "\<forall>t \<in> set us. ber_ok st t" "depth + foldr max (map ber_depth us) 0 \<le> kMaxDepth" "depth \<le> kMaxDepth"
      "length (ber_encs us) < length (ber_encs ts)"
      using less.prems(1,2) Cons by auto
    note nxt = less.hyps [OF us(4,1,2) _ less.prems(4)]
    have t: "ber_ok st t" "depth + ber_depth t \<le> kMaxDepth" using less.prems(1,2) Cons by auto
    show ?thesis
    proof (cases t)
      case (Prim g b)
      have c: "cbs_rep c (der_element (g, b) @ ber_encs us @ tail)" using less.prems(3) Cons Prim by simp
      have g: "g AND CBS_ASN1_CONSTRUCTED = 0" "st \<noteq> 0 \<Longrightarrow> g = st" "length b < 2 ^ 32" "\<not> (g = 0 \<and> b = [])"
        using t(1) Prim by auto
      have body: "writes A d' (if g AND CBS_ASN1_CONSTRUCTED \<noteq> 0 then
          chk (cbs_convert_ber A d' (child_string_tag st g) False (depth + 1) child) (\<lambda>_. succeed ())
          else CBB_add_bytes A d' (CBS_data child) (CBS_len child)) (Some b) (length b)" if "cbs_rep child b" for d' child
        using writes_add_bytes [of "CBS_len child" "CBS_data child" A d'] that g(1)
        by (simp add: cbs_rep_def CBS_len_def CBS_data_def)
      have "g AND NOT CBS_ASN1_CONSTRUCTED = g" using g(1) by (rule and_not_id)
      then have st: "st \<noteq> 0 \<Longrightarrow> g AND NOT CBS_ASN1_CONSTRUCTED = st" using g(2) by simp
      have "(if st \<noteq> 0 then Some b else element_of (out_tag g) (Some b)) = joined st t"
        using Prim g(1) by (simp add: out_tag_def)
      moreover have "16 + length b + 16 * length (ber_encs us) \<le> 16 * length (ber_encs ts)"
        using der_element_length [of b g] Cons Prim by simp
      ultimately show ?thesis using convert_definite_writes [OF c g(3,4) us(3) st body nxt, of d]
        unfolding Cons list.map cats_simps by (auto elim: writes_weaken)
    next
      case (Constr g ind ks)
      have g: "g AND CBS_ASN1_CONSTRUCTED \<noteq> 0" "st \<noteq> 0 \<Longrightarrow> g AND NOT CBS_ASN1_CONSTRUCTED = st"
        "length (ber_encs ks) < 2 ^ 32" "\<forall>x \<in> set ks. ber_ok (child_string_tag st g) x"
        "depth + 1 + foldr max (map ber_depth ks) 0 \<le> kMaxDepth"
        using t Constr by auto
      have len: "length (ber_encs ks) + 2 \<le> length (ber_enc t)"
        using der_element_length [of "ber_encs ks" g] Constr by (cases ind) (simp_all add: Let_def)
      then have l: "length (ber_encs ks) < length (ber_encs ts)" using Cons by simp
      note IH = less.hyps [OF l g(4) g(5)]
      have out: "(if st \<noteq> 0 then cats (map (joined (child_string_tag st g)) ks)
          else element_of (out_tag g) (cats (map (joined (child_string_tag st g)) ks))) = joined st t"
        using Constr by (simp add: Let_def)
      have w: "16 + 16 * length (ber_encs ks) + 16 * length (ber_encs us) \<le> 16 * length (ber_encs ts)"
        using len Cons by simp
      show ?thesis
      proof (cases ind)
        case True
        have c: "cbs_rep c (der_tag g @ 0x80 # ber_encs ks @ 0 # 0 # ber_encs us @ tail)"
          using less.prems(3) Cons Constr True by (simp add: Let_def)
        have "reads_to True (0 # 0 # ber_encs us @ tail) (ber_encs us @ tail)" by (simp add: reads_to_def)
        note body = IH [OF _ this]
        show ?thesis using convert_indefinite_writes [OF c g(1) us(3) g(2) body nxt, of d] w
          unfolding Cons list.map cats_simps out by (auto elim: writes_weaken)
      next
        case False
        have c: "cbs_rep c (der_element (g, ber_encs ks) @ ber_encs us @ tail)"
          using less.prems(3) Cons Constr False by (simp add: Let_def)
        have "g \<noteq> 0" using g(1) by auto
        then have nz: "\<not> (g = 0 \<and> ber_encs ks = [])" by simp
        have "reads_to False [] []" by (simp add: reads_to_def)
        note body = conjunct1 [OF IH [OF _ this]]
        have body: "writes A d' (if g AND CBS_ASN1_CONSTRUCTED \<noteq> 0 then
            chk (cbs_convert_ber A d' (child_string_tag st g) False (depth + 1) child) (\<lambda>_. succeed ())
            else CBB_add_bytes A d' (CBS_data child) (CBS_len child))
            (cats (map (joined (child_string_tag st g)) ks)) (16 * length (ber_encs ks))"
          if "cbs_rep child (ber_encs ks)" for d' child
          using writes_chk [OF body writes_succeed, of child d'] that g(1) by simp
        show ?thesis using convert_definite_writes [OF c g(3) nz us(3) g(2) body nxt, of d] w
          unfolding Cons list.map cats_simps out by (auto elim: writes_weaken)
      qed
    qed
  qed
qed

section \<open>What the checker looks at\<close>

text \<open>
  The answer for a list of elements, \<open>found\<close> being the answer so far: an indefinite length or a constructed
  string gives \<open>1\<close> at once; behind any other constructed element only what is inside of it counts.
\<close>

fun flagged :: "bool \<Rightarrow> ber list \<Rightarrow> bool" where
  "flagged found [] = found"
| "flagged found (Prim t b # ts) = flagged found ts"
| "flagged found (Constr t indefinite ks # ts) =
     (indefinite \<or> is_string_type t \<or> flagged (flagged False ks) ts)"

lemma find_step:
  assumes "cbs_rep c xs" "xs \<noteq> []" and "CBS_get_any_ber_asn1_element c = (Some (contents, t, h), c')"
  shows "find_ber_loop depth c found =
    (if is_indefinite h contents then Some True
     else if t AND CBS_ASN1_CONSTRUCTED \<noteq> 0 then
       (if is_string_type t then Some True
        else (case CBS_skip h contents of (None, _) \<Rightarrow> None
          | (Some _, contents) \<Rightarrow>
              (case (if depth + 1 > kMaxDepth then None else find_ber_loop (depth + 1) contents False) of
                 None \<Rightarrow> None | Some found \<Rightarrow> find_ber_loop depth c' found)))
     else find_ber_loop depth c' found)"
  using nonempty_len [OF assms(1,2)] assms(3) by (subst find_ber_loop.simps) simp

lemma find_definite:
  assumes c: "cbs_rep c (der_element (t, b) @ rest)" and b: "length b < 2 ^ 32" "\<not> (t = 0 \<and> b = [])"
    and child: "\<And>child. t AND CBS_ASN1_CONSTRUCTED \<noteq> 0 \<Longrightarrow> \<not> is_string_type t \<Longrightarrow> cbs_rep child b \<Longrightarrow>
      depth + 1 \<le> kMaxDepth \<and> find_ber_loop (depth + 1) child False = Some f"
  obtains c' where "cbs_rep c' rest" "find_ber_loop depth c found =
    (if t AND CBS_ASN1_CONSTRUCTED \<noteq> 0 then if is_string_type t then Some True else find_ber_loop depth c' f
     else find_ber_loop depth c' found)"
proof -
  obtain contents h c' ch where r: "CBS_get_any_ber_asn1_element c = (Some (contents, t, h), c')" "cbs_rep c' rest"
    "\<not> is_indefinite h contents" "\<not> is_eoc h contents" "CBS_skip h contents = (Some (), ch)" "cbs_rep ch b"
    by (rule read_definite [OF c b])
  have ne: "der_element (t, b) @ rest \<noteq> []" by (simp add: der_element_def)
  show thesis
    by (rule that [OF r(2)], subst find_step [OF c ne r(1)]) (use r(3,5) child [OF _ _ r(6)] in \<open>auto simp: not_less\<close>)
qed

lemma find_indefinite:
  assumes "cbs_rep c (der_tag t @ 0x80 # rest)" "t AND CBS_ASN1_CONSTRUCTED \<noteq> 0"
  shows "find_ber_loop depth c found = Some True"
proof -
  obtain contents h c' where r: "CBS_get_any_ber_asn1_element c = (Some (contents, t, h), c')" "is_indefinite h contents"
    by (rule read_indefinite [OF assms])
  have ne: "der_tag t @ 0x80 # rest \<noteq> []" by simp
  show ?thesis by (subst find_step [OF assms(1) ne r(1)]) (use r(2) in simp)
qed

lemma find_loop_flagged:
  assumes "\<forall>t \<in> set ts. ber_ok st t" and "depth + foldr max (map ber_depth ts) 0 \<le> kMaxDepth"
    and "cbs_rep c (ber_encs ts)"
  shows "find_ber_loop depth c found = Some (flagged found ts)"
  using assms
proof (induction found ts arbitrary: st depth c rule: flagged.induct)
  case (1 found)
  then have "\<not> 0 < CBS_len c" using cbs_rep_length [of c "[]"] by (simp add: CBS_len_def word_less_nat_alt)
  then show ?case by (subst find_ber_loop.simps) simp
next
  case (2 found t b ts)
  have c: "cbs_rep c (der_element (t, b) @ ber_encs ts)" using "2.prems"(3) by simp
  have b: "length b < 2 ^ 32" "\<not> (t = 0 \<and> b = [])" and t: "t AND CBS_ASN1_CONSTRUCTED = 0"
    using "2.prems"(1) by auto
  obtain c' where "cbs_rep c' (ber_encs ts)" "find_ber_loop depth c found = find_ber_loop depth c' found"
    by (rule find_definite [OF c b, of depth True found]) (use t in auto)
  with "2.IH" [of st depth c'] "2.prems"(1,2) show ?case by simp
next
  case (3 found t ind ks ts)
  have t: "t AND CBS_ASN1_CONSTRUCTED \<noteq> 0" "length (ber_encs ks) < 2 ^ 32"
    "\<forall>x \<in> set ks. ber_ok (child_string_tag st t) x" "\<forall>x \<in> set ts. ber_ok st x"
    "depth + 1 + foldr max (map ber_depth ks) 0 \<le> kMaxDepth" "depth + foldr max (map ber_depth ts) 0 \<le> kMaxDepth"
    using "3.prems"(1,2) by auto
  show ?case
  proof (cases ind)
    case True
    then have "cbs_rep c (der_tag t @ 0x80 # (ber_encs ks @ 0 # 0 # ber_encs ts))"
      using "3.prems"(3) by (simp add: Let_def)
    from find_indefinite [OF this t(1)] True show ?thesis by simp
  next
    case False
    then have c: "cbs_rep c (der_element (t, ber_encs ks) @ ber_encs ts)" using "3.prems"(3) by (simp add: Let_def)
    have nz: "\<not> (t = 0 \<and> ber_encs ks = [])" using t(1) by auto
    have child: "depth + 1 \<le> kMaxDepth \<and> find_ber_loop (depth + 1) child False = Some (flagged False ks)"
      if "\<not> is_string_type t" "cbs_rep child (ber_encs ks)" for child
      using "3.IH"(1) [OF t(3,5) that(2)] False that(1) t(5) by simp
    obtain c' where "cbs_rep c' (ber_encs ts)" "find_ber_loop depth c found =
        (if t AND CBS_ASN1_CONSTRUCTED \<noteq> 0 then if is_string_type t then Some True else find_ber_loop depth c' (flagged False ks)
         else find_ber_loop depth c' found)"
      by (rule find_definite [OF c t(2) nz, of depth "flagged False ks" found]) (use child in auto)
    with "3.IH"(2) [OF t(4,6)] False t(1) show ?thesis by simp
  qed
qed

section \<open>Whole conversions\<close>

lemma finish_value_cases:
  assumes W: "writes A 0 m e w" and P: "returns m P"
    and s: "cbb_inv s" "length (chain s) = 1" "view 0 s = Some []" "weight s = 0" "\<not> is_child (chain s ! 0)"
    and w: "w \<le> 2 ^ 62"
  obtains (fail) s' where "chk m (\<lambda>a. chk (CBB_finish A 0 True True) (\<lambda>(out, n). succeed (a, the out, the n))) s = (None, s')"
      "\<forall>x. e = Some x \<longrightarrow> \<not> roomy A (bufr s) (length x)"
  | (ok) s' a data n where
      "chk m (\<lambda>a. chk (CBB_finish A 0 True True) (\<lambda>(out, n). succeed (a, the out, the n))) s = (Some (a, data, n), s')"
      "P a" "e = Some (take (unat n) data)" "unat n \<le> length data"
proof (rule write_finish_cases [OF W s w])
  fix s'
  assume f: "chk m (\<lambda>_. CBB_finish A 0 True True) s = (None, s')" and "\<forall>x. e = Some x \<longrightarrow> \<not> roomy A (bufr s) (length x)"
  then show thesis by (intro fail [of s']) (auto simp: chk_def split: prod.splits option.splits)
next
  fix s' data n
  assume f: "chk m (\<lambda>_. CBB_finish A 0 True True) s = (Some (Some data, Some n), s')"
    and "e = Some (take (unat n) data)" "unat n \<le> length data"
  moreover obtain a s1 where a: "m s = (Some a, s1)" "CBB_finish A 0 True True s1 = (Some (Some data, Some n), s')"
    using f by (auto elim!: chk_SomeE)
  moreover have "P a" using P a(1) unfolding returns_def by blast
  ultimately show thesis by (intro ok [of a data n s']) simp_all
qed

text \<open>
  C23: \<open>cbs_find_ber\<close> reads every well-formed forest of BER elements whose nesting is at most the limit, and
  answers what \<open>flagged\<close> says: an element of indefinite length or a constructed string is seen unless a
  constructed element of the same level follows the one that holds it.
\<close>

theorem find_ber_exact:
  assumes "\<forall>t \<in> set ts. ber_ok 0 t" and "foldr max (map ber_depth ts) 0 \<le> kMaxDepth" and "cbs_rep c (ber_encs ts)"
  shows "cbs_find_ber c 0 = Some (flagged False ts)"
  using find_loop_flagged [OF assms(1) _ assms(3), of 0] assms(2) by (simp add: cbs_find_ber_def)


lemmas ber_simps = der_simps CBS_ASN1_TAG_SHIFT_def CBS_ASN1_CONSTRUCTED_def child_string_tag_def is_string_type_def out_tag_def
  string_value_def CBS_ASN1_BITSTRING_def   kMaxDepth_def Let_def

theorem find_ber_exact_witness:
  "cbs_find_ber (CBS_init [0x30, 0x80, 4, 1, 7, 0, 0] 7) 0 = Some True"
proof -
  let ?t = "Constr 0x20000010 True [Prim 4 [7]]"
  have "cbs_find_ber (CBS_init [0x30, 0x80, 4, 1, 7, 0, 0] 7) 0 = Some (flagged False [?t])"
    by (rule find_ber_exact) (simp_all add: ber_simps cbs_rep_def CBS_init_def)
  then show ?thesis by simp
qed

text \<open>When the checker reports BER, the whole input is consumed, and \<open>joined\<close> is what comes out.\<close>

lemma ber_to_der_joins:
  assumes "\<forall>t \<in> set ts. ber_ok 0 t" and "foldr max (map ber_depth ts) 0 \<le> kMaxDepth" and "cbs_rep c (ber_encs ts)"
    and "length (ber_encs ts) \<le> 2 ^ 58" and "cbs_find_ber c 0 = Some True"
  shows "case CBS_asn1_ber_to_der A c of
      (None, _) \<Rightarrow> (\<forall>m. alloc_ok A m) \<longrightarrow> cats (map (joined 0) ts) = None
    | (Some (out, storage), c') \<Rightarrow>
        storage \<noteq> None \<and> cbs_rep c' [] \<and> (\<exists>der. cats (map (joined 0) ts) = Some der \<and> cbs_rep out der)"
proof -
  let ?run = "chk (cbs_convert_ber A 0 0 False 0 c) (\<lambda>a. chk (CBB_finish A 0 True True) (\<lambda>(out, n). succeed (a, the out, the n)))"
  have c: "cbs_rep c (ber_encs ts @ [])" "reads_to False [] []" using assms(3) by (simp_all add: reads_to_def)
  have d: "0 + foldr max (map ber_depth ts) 0 \<le> kMaxDepth" using assms(2) by simp
  note W = convert_writes [OF assms(1) d c, of A 0]
  have w: "16 * length (ber_encs ts) \<le> 2 ^ 62" using assms(4) by simp
  have "unat (CBS_len c) = length (ber_encs ts)" using cbs_rep_length [OF assms(3)] by (simp add: CBS_len_def)
  then have n: "unat (CBS_len c) \<le> 2 ^ 62" using assms(4) by simp
  show ?thesis
  proof (rule CBB_init_cases [OF n, of A])
    fix s
    assume "CBB_init A (CBS_len c) = (None, s)" "\<not> (\<forall>m. alloc_ok A m)"
    then show ?thesis using assms(5) by (auto simp: CBS_asn1_ber_to_der_def)
  next
    fix s
    assume s: "CBB_init A (CBS_len c) = (Some (), s)" "cbb_inv s" "length (chain s) = 1" "view 0 s = Some []"
      "weight s = 0" "can_resize (bufr s)" "\<not> is_child (chain s ! 0)"
    have e: "CBS_asn1_ber_to_der A c =
        (case ?run s of (None, _) \<Rightarrow> (None, c) | (Some (input', data, len), _) \<Rightarrow> (Some (CBS_init data len, Some data), input'))"
      using s(1) assms(5) by (simp add: CBS_asn1_ber_to_der_def)
    show ?thesis
    proof (rule finish_value_cases [OF conjunct1 [OF W] conjunct2 [OF W] s(2-5,7) w])
      fix s'
      assume r: "?run s = (None, s')"
        and "\<forall>x. cats (map (joined 0) ts) = Some x \<longrightarrow> \<not> roomy A (bufr s) (length x)"
      then have "(\<forall>m. alloc_ok A m) \<longrightarrow> cats (map (joined 0) ts) = None"
        using s(6) by (cases "cats (map (joined 0) ts)") (auto simp: roomy_def)
      then show ?thesis unfolding e r by simp
    next
      fix s' a data n
      assume r: "?run s = (Some (a, data, n), s')" and "cbs_rep a []"
        "cats (map (joined 0) ts) = Some (take (unat n) data)" "unat n \<le> length data"
      then show ?thesis unfolding e r by (simp add: cbs_rep_def CBS_init_def)
    qed
  qed
qed

lemma cats_Some: "\<forall>t \<in> set ts. g t = Some (f t) \<Longrightarrow> cats (map g ts) = Some (concat (map f ts))"
  by (induction ts) (simp_all add: cats_def)







lemma der_element_inj:
  assumes "der_element (t, x) = der_element (t, y)" and "length x < 2 ^ 32" and "length y < 2 ^ 32"
  shows "x = y"
  using asn1.dec_enc [OF assms(2), of t "[]"] asn1.dec_enc [OF assms(3), of t "[]"] assms(1) by simp

lemma bit_string_tags:
  "CBS_ASN1_BITSTRING AND CBS_ASN1_CONSTRUCTED = 0" "(CBS_ASN1_BITSTRING OR CBS_ASN1_CONSTRUCTED) AND CBS_ASN1_CONSTRUCTED \<noteq> 0"
  "(CBS_ASN1_BITSTRING OR CBS_ASN1_CONSTRUCTED) AND NOT CBS_ASN1_CONSTRUCTED = CBS_ASN1_BITSTRING"
  "is_string_type (CBS_ASN1_BITSTRING OR CBS_ASN1_CONSTRUCTED)"
  "out_tag (CBS_ASN1_BITSTRING OR CBS_ASN1_CONSTRUCTED) = CBS_ASN1_BITSTRING"
  "child_string_tag 0 (CBS_ASN1_BITSTRING OR CBS_ASN1_CONSTRUCTED) = CBS_ASN1_BITSTRING" "CBS_ASN1_BITSTRING \<noteq> 0"
  by (simp_all add: CBS_ASN1_BITSTRING_def CBS_ASN1_CONSTRUCTED_def CBS_ASN1_TAG_SHIFT_def is_string_type_def
      out_tag_def child_string_tag_def)

lemma parts_length:
  "length (concat ps) \<le> length (concat (map (\<lambda>p. der_element (t, p)) ps))"
  "p \<in> set ps \<Longrightarrow> length p + 2 \<le> length (concat (map (\<lambda>p. der_element (t, p)) ps))"
proof -
  show "length (concat ps) \<le> length (concat (map (\<lambda>p. der_element (t, p)) ps))"
  proof (induction ps)
    case (Cons p ps)
    then show ?case using der_element_length [of p t] by simp
  qed simp
  show "p \<in> set ps \<Longrightarrow> length p + 2 \<le> length (concat (map (\<lambda>p. der_element (t, p)) ps))"
    using der_element_length [of p t] by (induction ps) auto
qed

lemma unused_octets_length:
  assumes "2 \<le> length ps" and "\<forall>p \<in> set ps. p \<noteq> []"
  shows "length (hd (last ps) # concat (map tl ps)) < length (concat ps)"
proof -
  have "length (concat ps) = length (concat (map tl ps)) + length ps" using assms(2) by (induction ps) auto
  then show ?thesis using assms(1) by simp
qed

text \<open>
  The parts of a constructed BIT STRING are put together like those of an OCTET STRING: with two parts or
  more the result of the conversion has the octet for the unused bits of every part inside, and is not
  the DER of the string, which has the contents of the parts behind the octet of the last one.
\<close>

theorem bit_string_parts_joined:
  assumes "\<forall>m. alloc_ok A m" and "2 \<le> length ps" and "\<forall>p \<in> set ps. p \<noteq> []" and "\<forall>p \<in> set (butlast ps). hd p = 0"
    and "t = Constr (CBS_ASN1_BITSTRING OR CBS_ASN1_CONSTRUCTED) indefinite (map (Prim CBS_ASN1_BITSTRING) ps)"
    and "length (ber_enc t) < 2 ^ 32 - 1" and "cbs_rep c (ber_enc t)"
  shows "\<exists>out storage c'. CBS_asn1_ber_to_der A c = (Some (out, Some storage), c') \<and>
    cbs_rep out (der_element (CBS_ASN1_BITSTRING, concat ps)) \<and> cbs_rep c' [] \<and>
    der_of t = Some (der_element (CBS_ASN1_BITSTRING, hd (last ps) # concat (map tl ps))) \<and>
    der_element (CBS_ASN1_BITSTRING, concat ps) \<noteq> der_element (CBS_ASN1_BITSTRING, hd (last ps) # concat (map tl ps))"
proof -
  let ?B = "CBS_ASN1_BITSTRING" and ?body = "concat (map (\<lambda>p. der_element (CBS_ASN1_BITSTRING, p)) ps)"
  note tag = bit_string_tags
  have encs: "ber_encs (map (Prim ?B) ps) = ?body" by (simp add: o_def)
  have body: "length ?body + 2 \<le> length (ber_enc t)"
    using der_element_length [of ?body "?B OR CBS_ASN1_CONSTRUCTED"] assms(5) encs
    by (cases indefinite) (simp_all add: Let_def)
  have cat: "concat (map string_parts (map (Prim ?B) ps)) = ps" by (induction ps) simp_all
  have ok: "\<forall>x \<in> set [t]. ber_ok 0 x" using assms(5,6) tag encs body by (auto dest: parts_length(2) [where t = ?B])
  have d: "foldr max (map ber_depth [t]) 0 \<le> kMaxDepth"
  proof -
    have "foldr max (map ber_depth (map (Prim ?B) ps)) 0 = 0" by (induction ps) simp_all
    then show ?thesis using assms(5) by (simp add: kMaxDepth_def)
  qed
  have c: "cbs_rep c (ber_encs [t])" "length (ber_encs [t]) \<le> 2 ^ 58" using assms(6,7) by simp_all
  have f: "cbs_find_ber c 0 = Some True"
    using find_loop_flagged [OF ok _ c(1), of 0 False] d assms(5) tag(4) by (simp add: cbs_find_ber_def)
  have l: "length (concat ps) < 2 ^ 32 - 1" using parts_length(1) [of ps ?B] body assms(6) by simp
  have "cats (map (joined ?B) (map (Prim ?B) ps)) = Some (concat ps)"
    using tag(7) cats_Some [of "map (Prim ?B) ps" "joined ?B" "\<lambda>x. concat (string_parts x)"] by (simp add: o_def)
  then have j: "cats (map (joined 0) [t]) = Some (der_element (?B, concat ps))"
    using assms(5) tag l by (simp add: Let_def)
  note v = unused_octets_length [OF assms(2,3)]
  have der: "der_of t = Some (der_element (?B, hd (last ps) # concat (map tl ps)))"
  proof -
    have "ps \<noteq> []" using assms(2) by auto
    then have "string_value ?B ps = Some (hd (last ps) # concat (map tl ps))"
      using assms(3,4) by (simp add: string_value_def bit_string_value_def)
    moreover have "length (hd (last ps) # concat (map tl ps)) < 2 ^ 32 - 1" using v l by linarith
    ultimately show ?thesis using assms(5) tag cat by simp
  qed
  have "concat ps \<noteq> hd (last ps) # concat (map tl ps)" using v by (metis less_irrefl)
  moreover have "length (concat ps) < 2 ^ 32" "length (hd (last ps) # concat (map tl ps)) < 2 ^ 32"
    using l v by linarith+
  ultimately have "der_element (?B, concat ps) \<noteq> der_element (?B, hd (last ps) # concat (map tl ps))"
    using der_element_inj by blast
  with der show ?thesis using ber_to_der_joins [OF ok d c f, of A] assms(1) unfolding j
    by (cases "CBS_asn1_ber_to_der A c") (auto split: option.splits)
qed

theorem bit_string_parts_joined_witness:
  "\<exists>out storage c'. CBS_asn1_ber_to_der malloc_total (CBS_init [0x23, 0x80, 3, 2, 0, 0xf0, 3, 2, 4, 0xa0, 0, 0] 12) =
      (Some (out, Some storage), c') \<and> cbs_rep out [3, 4, 0, 0xf0, 4, 0xa0] \<and>
     der_of (Constr 0x20000003 True [Prim 3 [0, 0xf0], Prim 3 [4, 0xa0]]) = Some [3, 3, 4, 0xf0, 0xa0]"
proof -
  let ?ps = "[[0, 0xf0], [4, 0xa0]] :: bytes list"
  let ?t = "Constr (CBS_ASN1_BITSTRING OR CBS_ASN1_CONSTRUCTED) True (map (Prim CBS_ASN1_BITSTRING) ?ps)"
  let ?c = "CBS_init [0x23, 0x80, 3, 2, 0, 0xf0, 3, 2, 4, 0xa0, 0, 0] 12"
  have e: "ber_enc ?t = [0x23, 0x80, 3, 2, 0, 0xf0, 3, 2, 4, 0xa0, 0, 0]" by (simp add: ber_simps CBS_ASN1_BITSTRING_def)
  have "\<exists>out storage c'. CBS_asn1_ber_to_der malloc_total ?c = (Some (out, Some storage), c') \<and>
    cbs_rep out (der_element (CBS_ASN1_BITSTRING, concat ?ps)) \<and> cbs_rep c' [] \<and>
    der_of ?t = Some (der_element (CBS_ASN1_BITSTRING, hd (last ?ps) # concat (map tl ?ps))) \<and>
    der_element (CBS_ASN1_BITSTRING, concat ?ps) \<noteq> der_element (CBS_ASN1_BITSTRING, hd (last ?ps) # concat (map tl ?ps))"
  proof (rule bit_string_parts_joined [OF _ _ _ _ refl])
    show "length (ber_enc ?t) < 2 ^ 32 - 1" "cbs_rep ?c (ber_enc ?t)" unfolding e by (simp_all add: cbs_rep_def CBS_init_def)
  qed simp_all
  moreover have "der_element (CBS_ASN1_BITSTRING, concat ?ps) = [3, 4, 0, 0xf0, 4, 0xa0]"
    "der_element (CBS_ASN1_BITSTRING, hd (last ?ps) # concat (map tl ?ps)) = [3, 3, 4, 0xf0, 0xa0]"
    "?t = Constr 0x20000003 True [Prim 3 [0, 0xf0], Prim 3 [4, 0xa0]]"
    by (simp_all add: ber_simps CBS_ASN1_BITSTRING_def)
  ultimately show ?thesis by auto
qed

lemma read_der:
  assumes c: "cbs_rep c (der_element (t, b) @ rest)" and b: "length b < 2 ^ 32"
  obtains out h c' where "CBS_get_any_asn1_element c = (Some (out, t, h), c')" "cbs_rep out (der_element (t, b))" "cbs_rep c' rest"
proof -
  obtain r c' where r: "CBS_get_any_asn1_element c = (Some r, c')"
    "element_is r (der_element (t, b), t, length (der_header t (length b)))" "cbs_rep c' rest"
    by (rule refines_SomeE [OF refines_CBS_get_any_asn1_element c any_element_definite [OF b]])
  moreover from r(2) obtain out h where "r = (out, t, h)" "cbs_rep out (der_element (t, b))"
    by (cases r) (auto simp: element_is_def)
  ultimately show thesis using that by blast
qed

lemma keeps_first:
  assumes c: "cbs_rep c (der_element (g, b) @ rest)" and b: "length b < 2 ^ 32" and f: "cbs_find_ber c 0 = Some False"
  shows "\<exists>out c'. CBS_asn1_ber_to_der A c = (Some (out, None), c') \<and> cbs_rep out (der_element (g, b)) \<and> cbs_rep c' rest"
  by (rule read_der [OF c b]) (use f in \<open>simp add: CBS_asn1_ber_to_der_def chk_def\<close>)

text \<open>
  When the checker reports no BER, the first element of the input is returned as it stands, without
  copying, and the rest stays in \<open>in\<close>.
\<close>

theorem ber_to_der_keeps:
  assumes "\<forall>t \<in> set (t # ts). ber_ok 0 t" and "foldr max (map ber_depth (t # ts)) 0 \<le> kMaxDepth"
    and "cbs_rep c (ber_encs (t # ts))" and "cbs_find_ber c 0 = Some False"
  shows "\<exists>out c'. CBS_asn1_ber_to_der A c = (Some (out, None), c') \<and> cbs_rep out (ber_enc t) \<and> cbs_rep c' (ber_encs ts)"
proof -
  have "\<not> flagged False (t # ts)"
    using find_loop_flagged [OF assms(1) _ assms(3), of 0 False] assms(2,4) by (simp add: cbs_find_ber_def)
  then obtain g b where g: "ber_enc t = der_element (g, b)" "length b < 2 ^ 32"
    using assms(1) by (cases t) (auto simp: Let_def)
  have "cbs_rep c (der_element (g, b) @ ber_encs ts)" using assms(3) g(1) by simp
  from keeps_first [OF this g(2) assms(4)] show ?thesis by (simp add: g(1))
qed

theorem ber_to_der_keeps_witness:
  "\<exists>out c'. CBS_asn1_ber_to_der malloc_total (CBS_init [4, 1, 7, 5, 0] 5) = (Some (out, None), c') \<and>
     cbs_rep out [4, 1, 7] \<and> cbs_rep c' [5, 0]"
proof -
  let ?c = "CBS_init [4, 1, 7, 5, 0] 5" and ?t = "Prim 4 [7]" and ?ts = "[Prim 5 []]"
  have e: "ber_enc ?t = [4, 1, 7]" "ber_encs ?ts = [5, 0]" by (simp_all add: ber_simps)
  have ok: "\<forall>t \<in> set (?t # ?ts). ber_ok 0 t" "foldr max (map ber_depth (?t # ?ts)) 0 \<le> kMaxDepth"
    and c: "cbs_rep ?c (ber_encs (?t # ?ts))"
    unfolding list.map concat.simps e by (simp_all add: ber_simps cbs_rep_def CBS_init_def)
  have f: "cbs_find_ber ?c 0 = Some False"
    using find_loop_flagged [OF ok(1) _ c, of 0 False] ok(2) by (simp add: cbs_find_ber_def)
  show ?thesis using ber_to_der_keeps [OF ok c f, of malloc_total] unfolding e .
qed

text \<open>
  C25: BER content can be overlooked: in a SEQUENCE of a SEQUENCE that holds an OCTET STRING of indefinite
  length and of an empty SEQUENCE, the checker's answer for the first is overwritten by the second's, and
  the input is returned as if it were DER, though it is not.
\<close>

theorem ber_hidden_by_sibling:
  "cbs_find_ber (CBS_init [0x30, 8, 0x30, 4, 0x24, 0x80, 0, 0, 0x30, 0] 10) 0 = Some False \<and>
   cbs_find_ber (CBS_init [0x30, 6, 0x30, 4, 0x24, 0x80, 0, 0] 8) 0 = Some True \<and>
   (\<exists>out c'. CBS_asn1_ber_to_der A (CBS_init [0x30, 8, 0x30, 4, 0x24, 0x80, 0, 0, 0x30, 0] 10) = (Some (out, None), c') \<and>
     cbs_rep out [0x30, 8, 0x30, 4, 0x24, 0x80, 0, 0, 0x30, 0]) \<and>
   der_of (Constr 0x20000010 False [Constr 0x20000010 False [Constr 0x20000004 True []], Constr 0x20000010 False []]) =
     Some [0x30, 6, 0x30, 2, 4, 0, 0x30, 0]"
proof -
  let ?in = "Constr 0x20000010 False [Constr 0x20000004 True []]"
  let ?t = "Constr 0x20000010 False [?in, Constr 0x20000010 False []]"
  let ?c = "CBS_init [0x30, 8, 0x30, 4, 0x24, 0x80, 0, 0, 0x30, 0] 10" and ?s = "CBS_init [0x30, 6, 0x30, 4, 0x24, 0x80, 0, 0] 8"
  have e: "ber_encs [?t] = [0x30, 8, 0x30, 4, 0x24, 0x80, 0, 0, 0x30, 0]"
    "ber_encs [Constr 0x20000010 False [?in]] = [0x30, 6, 0x30, 4, 0x24, 0x80, 0, 0]" by (simp_all add: ber_simps)
  have c: "cbs_rep ?c (ber_encs [?t])" "cbs_rep ?s (ber_encs [Constr 0x20000010 False [?in]])"
    unfolding e by (simp_all add: cbs_rep_def CBS_init_def)
  have ok: "\<forall>t \<in> set [?t]. ber_ok 0 t" "\<forall>t \<in> set [Constr 0x20000010 False [?in]]. ber_ok 0 t" by (simp_all add: ber_simps)
  have d: "0 + foldr max (map ber_depth [?t]) 0 \<le> kMaxDepth" "0 + foldr max (map ber_depth [Constr 0x20000010 False [?in]]) 0 \<le> kMaxDepth"
    by (simp_all add: kMaxDepth_def)
  have f: "cbs_find_ber ?c 0 = Some False" "cbs_find_ber ?s 0 = Some True"
    using find_loop_flagged [OF ok(1) d(1) c(1), of False] find_loop_flagged [OF ok(2) d(2) c(2), of False]
    by (simp_all add: cbs_find_ber_def ber_simps)
  have g: "[0x30, 8, 0x30, 4, 0x24, 0x80, 0, 0, 0x30, 0] = der_element (0x20000010, [0x30, 4, 0x24, 0x80, 0, 0, 0x30, 0]) @ []"
    by (simp add: ber_simps)
  have c0: "cbs_rep ?c (der_element (0x20000010, [0x30, 4, 0x24, 0x80, 0, 0, 0x30, 0]) @ [])"
    unfolding g [symmetric] using c(1) unfolding e .
  have "length [0x30, 4, 0x24, 0x80, 0, 0, 0x30, 0 :: u8] < 2 ^ 32" by simp
  from keeps_first [OF c0 this f(1), of A] have "\<exists>out c'. CBS_asn1_ber_to_der A ?c = (Some (out, None), c') \<and>
     cbs_rep out [0x30, 8, 0x30, 4, 0x24, 0x80, 0, 0, 0x30, 0]"
    unfolding g [simplified, symmetric] by blast
  moreover have "der_of ?t = Some [0x30, 6, 0x30, 2, 4, 0, 0x30, 0]" by (simp add: ber_simps)
  ultimately show ?thesis using f by blast
qed

section \<open>Implicitly tagged strings\<close>

abbreviation chunks_of :: "u32 \<Rightarrow> bytes list \<Rightarrow> bytes" where
  "chunks_of tag bs \<equiv> concat (map (\<lambda>b. der_element (tag, b)) bs)"

lemma get_asn1_element:
  assumes "cbs_rep c (der_element (t, b) @ rest)" and "length b < 2 ^ 32"
  obtains out c' where "CBS_get_asn1 t c = (Some out, c')" "cbs_rep out b" "cbs_rep c' rest"
proof -
  have "p_asn1 t (der_element (t, b) @ rest) = Some (b, rest)" using assms(2) by (rule asn1.dec_enc)
  from refines_SomeE [OF refines_CBS_get_asn1 assms(1) this] that show thesis by blast
qed

lemma chunks_write:
  assumes "cbs_rep c (chunks_of t bs)" and "\<forall>b \<in> set bs. length b < 2 ^ 32"
  shows "writes A 0 (implicit_chunks A t c) (Some (concat bs)) (length (concat bs))"
  using assms
proof (induction bs arbitrary: c)
  case Nil
  then have "\<not> 0 < CBS_len c" using cbs_rep_length [of c "[]"] by (simp add: CBS_len_def word_less_nat_alt)
  then have "implicit_chunks A t c s = succeed () s" for s by (subst implicit_chunks.simps) simp
  then have "implicit_chunks A t c = succeed ()" by (rule ext)
  then show ?case by (simp only: concat.simps list.size writes_succeed)
next
  case (Cons b bs)
  obtain out c' where r: "CBS_get_asn1 t c = (Some out, c')" "cbs_rep out b" "cbs_rep c' (chunks_of t bs)"
    by (rule get_asn1_element [of c t b "chunks_of t bs"]) (use Cons.prems in simp_all)
  have "CBS_len c > 0" by (rule nonempty_len [OF Cons.prems(1)]) (simp add: der_element_def)
  then have "implicit_chunks A t c s =
      chk (CBB_add_bytes A 0 (CBS_data out) (CBS_len out)) (\<lambda>_. implicit_chunks A t c') s" for s
    using r(1) by (subst implicit_chunks.simps) simp
  then have e: "implicit_chunks A t c = chk (CBB_add_bytes A 0 (CBS_data out) (CBS_len out)) (\<lambda>_. implicit_chunks A t c')"
    by (rule ext)
  have "writes A 0 (CBB_add_bytes A 0 (CBS_data out) (CBS_len out)) (Some b) (length b)"
    using writes_add_bytes [of "CBS_len out" "CBS_data out" A 0] r(2) by (simp add: cbs_rep_def CBS_len_def CBS_data_def)
  from writes_chk [OF this Cons.IH [OF r(3)]] Cons.prems(2) show ?case unfolding e by simp
qed

lemma finish_at_root_total:
  assumes W: "writes A 0 m (Some x) w" and A: "\<forall>m. alloc_ok A m" and n: "unat n \<le> 2 ^ 62" and w: "w \<le> 2 ^ 62"
  obtains s s' data k where "CBB_init A n = (Some (), s)"
    "chk m (\<lambda>_. CBB_finish A 0 True True) s = (Some (Some data, Some k), s')" "cbs_rep (CBS_init data k) x"
proof (rule CBB_init_cases [OF n, of A])
  fix s
  assume "\<not> (\<forall>m. alloc_ok A m)"
  with A show thesis by simp
next
  fix s
  assume s: "CBB_init A n = (Some (), s)" "cbb_inv s" "length (chain s) = 1" "view 0 s = Some []"
    "weight s = 0" "can_resize (bufr s)" "\<not> is_child (chain s ! 0)"
  show thesis
  proof (rule write_finish_cases [OF W s(2-5,7) w])
    assume "\<forall>y. Some x = Some y \<longrightarrow> \<not> roomy A (bufr s) (length y)"
    with A s(6) show thesis by (simp add: roomy_def)
  next
    fix s' data k
    assume "chk m (\<lambda>_. CBB_finish A 0 True True) s = (Some (Some data, Some k), s')"
      "Some x = Some (take (unat k) data)" "unat k \<le> length data"
    with s(1) that [of s data k s'] show thesis by (simp add: cbs_rep_def CBS_init_def)
  qed
qed

text \<open>
  C26: \<open>CBS_get_asn1_implicit_string\<close> reads a string in either form: a primitive element is returned in place,
  a constructed one of any number of primitive parts is put together in new storage, and \<open>in\<close> is advanced
  behind the element.
\<close>

theorem implicit_string_both_forms:
  assumes "\<forall>m. alloc_ok A m" and "outer AND CBS_ASN1_CONSTRUCTED = 0"
    and "\<forall>b \<in> set bs. length b < 2 ^ 32" and "length (chunks_of inner bs) < 2 ^ 32" and "length (concat bs) < 2 ^ 32"
    and "cbs_rep c (e @ rest)" and "length (e @ rest) \<le> 2 ^ 62"
    and "e = der_element (outer, concat bs) \<or> e = der_element (outer OR CBS_ASN1_CONSTRUCTED, chunks_of inner bs)"
  shows "\<exists>out storage c'. CBS_get_asn1_implicit_string A outer inner c = (Some (out, storage), c') \<and>
    cbs_rep out (concat bs) \<and> cbs_rep c' rest \<and> (storage = None \<longleftrightarrow> e = der_element (outer, concat bs))"
proof (cases "e = der_element (outer, concat bs)")
  case True
  then have c: "cbs_rep c (der_element (outer, concat bs) @ rest)" using assms(6) by simp
  obtain out c' where r: "CBS_get_asn1 outer c = (Some out, c')" "cbs_rep out (concat bs)" "cbs_rep c' rest"
    by (rule get_asn1_element [OF c assms(5)])
  have "CBS_peek_asn1_tag c outer" unfolding CBS_peek_asn1_tag_iff [OF c] by (simp add: der_element_def der_header_def)
  then show ?thesis using r True by (simp add: CBS_get_asn1_implicit_string_def chk_def)
next
  case False
  then have e: "e = der_element (outer OR CBS_ASN1_CONSTRUCTED, chunks_of inner bs)" using assms(8) by blast
  have c: "cbs_rep c (der_element (outer OR CBS_ASN1_CONSTRUCTED, chunks_of inner bs) @ rest)" using assms(6) e by simp
  obtain child c' where r: "CBS_get_asn1 (outer OR CBS_ASN1_CONSTRUCTED) c = (Some child, c')"
    "cbs_rep child (chunks_of inner bs)" "cbs_rep c' rest"
    by (rule get_asn1_element [OF c assms(4)])
  have "outer \<noteq> outer OR CBS_ASN1_CONSTRUCTED"
  proof
    assume "outer = outer OR CBS_ASN1_CONSTRUCTED"
    then have "outer AND CBS_ASN1_CONSTRUCTED = CBS_ASN1_CONSTRUCTED" by (metis word_ao_absorbs(5) word_bw_comms(1))
    with assms(2) show False by (simp add: CBS_ASN1_CONSTRUCTED_def CBS_ASN1_TAG_SHIFT_def)
  qed
  then have "\<not> CBS_peek_asn1_tag c outer" unfolding CBS_peek_asn1_tag_iff [OF c]
    unfolding der_element_def der_header_def prod.case append_assoc by (auto dest!: der_tag.enc_prefix_free(1) [rotated 2])
  moreover have n: "unat (CBS_len c) \<le> 2 ^ 62" using cbs_rep_length [OF assms(6)] assms(7) by (simp add: CBS_len_def)
  have w: "length (concat bs) \<le> 2 ^ 62" using assms(5) by simp
  obtain s s' data k where "CBB_init A (CBS_len c) = (Some (), s)"
    "chk (implicit_chunks A inner child) (\<lambda>_. CBB_finish A 0 True True) s = (Some (Some data, Some k), s')"
    "cbs_rep (CBS_init data k) (concat bs)"
    by (rule finish_at_root_total [OF chunks_write [OF r(2) assms(3)] assms(1) n w])
  ultimately show ?thesis using r False by (simp add: CBS_get_asn1_implicit_string_def)
qed

theorem implicit_string_both_forms_witness:
  "\<exists>out storage c'. CBS_get_asn1_implicit_string malloc_total 0x80000000 4
      (CBS_init [0xa0, 7, 4, 2, 1, 2, 4, 1, 3, 9] 10) = (Some (out, storage), c') \<and> cbs_rep out [1, 2, 3] \<and> cbs_rep c' [9]"
proof -
  let ?c = "CBS_init [0xa0, 7, 4, 2, 1, 2, 4, 1, 3, 9] 10"
  let ?e = "der_element (0x80000000 OR CBS_ASN1_CONSTRUCTED, chunks_of 4 [[1, 2], [3]])"
  have e: "?e = [0xa0, 7, 4, 2, 1, 2, 4, 1, 3]" by (simp add: ber_simps)
  have "\<exists>out storage c'. CBS_get_asn1_implicit_string malloc_total 0x80000000 4 ?c = (Some (out, storage), c') \<and>
      cbs_rep out (concat [[1, 2], [3]]) \<and> cbs_rep c' [9] \<and> (storage = None \<longleftrightarrow> ?e = der_element (0x80000000, concat [[1, 2], [3]]))"
  proof (rule implicit_string_both_forms)
    show "cbs_rep ?c (?e @ [9])" "length (?e @ [9]) \<le> 2 ^ 62" unfolding e by (simp_all add: cbs_rep_def CBS_init_def)
  qed (simp_all add: ber_simps)
  then show ?thesis by auto
qed

end
