(* ===== verification/Cbb_Set.thy ===== *)
theory Cbb_Set
  imports Ber Stack
begin

text \<open>
  The rest of \<open>crypto/bytestring\<close>: \<open>CBB_flush_asn1_set_of\<close> of \<open>cbb.c\<close>, which sorts the elements of a SET OF,
  and \<open>CBB_finish_i2d\<close> of \<open>asn1_compat.c\<close>, which gives a finished \<open>CBB\<close> out in the manner of the
  \<open>i2d\<close> functions. The C library's \<open>qsort\<close> is a parameter.
\<close>

section \<open>The code\<close>

text \<open>\<open>memcmp\<close>: of its value only the sign is used. Bytes are read up to the first that differ.\<close>

fun memcmp :: "bytes \<Rightarrow> bytes \<Rightarrow> nat \<Rightarrow> int" where
  "memcmp (x # xs) (y # ys) (Suc n) = (if x \<noteq> y then uint x - uint y else memcmp xs ys n)"
| "memcmp _ _ _ = 0"

definition OPENSSL_memcmp :: "bytes \<Rightarrow> bytes \<Rightarrow> size_t \<Rightarrow> int" where
  "OPENSSL_memcmp s1 s2 n = (if n = 0 then 0 else memcmp s1 s2 (unat n))"

definition compare_set_of_element :: "cbs \<Rightarrow> cbs \<Rightarrow> int" where
  "compare_set_of_element a b =
     (let a_len = CBS_len a; b_len = CBS_len b;
          min_len = (if a_len < b_len then a_len else b_len);
          ret = OPENSSL_memcmp (CBS_data a) (CBS_data b) min_len
      in if ret \<noteq> 0 then ret
         else if a_len = b_len then 0
         else if a_len < b_len then -1 else 1)"

text \<open>The loop that counts the children.\<close>

function count_children :: "cbs \<Rightarrow> size_t \<Rightarrow> size_t option" where
  "count_children cbs num_children =
     (if CBS_len cbs \<noteq> 0 then
        (case CBS_get_any_asn1_element cbs of
           (None, _) \<Rightarrow> None
         | (Some _, cbs) \<Rightarrow> count_children cbs (num_children + 1))
      else Some num_children)"
  by pat_completeness auto
termination
  by (relation "measure (\<lambda>(c, n). unat (cbs_len c))")
    (auto simp: CBS_get_any_asn1_element_def dest: any_element_len(1) [OF sym])

declare count_children.simps [simp del]

fun read_children :: "nat \<Rightarrow> cbs \<Rightarrow> cbs list option" where
  "read_children 0 cbs = Some []"
| "read_children (Suc n) cbs =
     (case CBS_get_any_asn1_element cbs of
        (None, _) \<Rightarrow> None
      | (Some (child, _, _), cbs) \<Rightarrow> map_option (Cons child) (read_children n cbs))"

definition sizeof_CBS :: size_t where "sizeof_CBS = 16"

text \<open>\<open>cbb->base->len = cbb->offset + cbb->pending_len_len\<close>.\<close>

definition rewind :: "nat \<Rightarrow> cbb \<Rightarrow> cbb" where
  "rewind d s =
     s\<lparr>base := map_option (blen_update (\<lambda>_. offset (chain s ! d) + ucast (pending_len_len (chain s ! d)))) (base s)\<rparr>"

definition CBB_flush_asn1_set_of ::
  "allocator \<Rightarrow> ((cbs \<Rightarrow> cbs \<Rightarrow> int) \<Rightarrow> cbs list \<Rightarrow> cbs list) \<Rightarrow> nat \<Rightarrow> (cbb, unit) op" where
  "CBB_flush_asn1_set_of A qsort d =
     chk (CBB_flush A d) (\<lambda>_ s.
       case count_children (CBS_init (CBB_data d s) (CBB_len d s)) 0 of
         None \<Rightarrow> (None, s)
       | Some num_children \<Rightarrow>
           if num_children < 2 then (Some (), s)
           else if num_children > (- 1) div sizeof_CBS then (None, s)
           else
             (let buf_len = CBB_len d s in
              case (OPENSSL_memdup A (CBB_data d s) buf_len, OPENSSL_malloc A (num_children * sizeof_CBS)) of
                (Some copy, Some _) \<Rightarrow>
                  (case read_children (unat num_children) (CBS_init copy buf_len) of
                     None \<Rightarrow> (None, s)
                   | Some children \<Rightarrow>
                       for_op (\<lambda>c. CBB_add_bytes A d (CBS_data c) (CBS_len c))
                         (qsort compare_set_of_element children) (rewind d s))
              | _ \<Rightarrow> (None, s)))"

text \<open>
  \<open>outp\<close> is NULL (\<open>None\<close>), or points to a pointer that is NULL (\<open>Some None\<close>) or to an index of a block.
  The function demands a \<open>CBB\<close> that can grow.
\<close>

definition CBB_finish_i2d ::
  "allocator \<Rightarrow> nat \<Rightarrow> (bytes \<times> nat) option option \<Rightarrow> cbb \<Rightarrow> int \<times> (bytes \<times> nat) option option \<times> cbb" where
  "CBB_finish_i2d A d outp s =
     (case CBB_finish A d True True s of
        (None, s) \<Rightarrow> (- 1, outp, CBB_cleanup d s)
      | (Some (der, der_len), s) \<Rightarrow>
          (let der = the der; der_len = the der_len in
           if der_len > 0x7fffffff then (- 1, outp, s)
           else
             (int (unat der_len),
              (case outp of
                 None \<Rightarrow> None
               | Some None \<Rightarrow> Some (Some (der, 0))
               | Some (Some (block, i)) \<Rightarrow>
                   Some (Some (take i block @ take (unat der_len) der @ drop (i + unat der_len) block, i + unat der_len))),
              s)))"

section \<open>The order of the elements\<close>

lemma memcmp_take: "memcmp xs ys n = memcmp (take n xs) (take n ys) n"
  by (induction xs ys n rule: memcmp.induct) auto

definition cmp_bytes :: "bytes \<Rightarrow> bytes \<Rightarrow> int" where
  "cmp_bytes xs ys =
     (let r = memcmp xs ys (min (length xs) (length ys)) in
      if r \<noteq> 0 then r else if length xs = length ys then 0 else if length xs < length ys then - 1 else 1)"

lemma cmp_bytes_Nil: "cmp_bytes [] ys = (if ys = [] then 0 else - 1)" "cmp_bytes xs [] = (if xs = [] then 0 else 1)"
  by (cases ys; cases xs; simp add: cmp_bytes_def)+

lemma cmp_bytes_Cons: "cmp_bytes (x # xs) (y # ys) = (if x \<noteq> y then uint x - uint y else cmp_bytes xs ys)"
proof (cases "x = y")
  case False
  then have "uint x - uint y \<noteq> 0" by (simp add: word_uint_eq_iff)
  with False show ?thesis by (simp add: cmp_bytes_def)
qed (simp add: cmp_bytes_def)

lemma cmp_bytes_le: "cmp_bytes xs ys \<le> 0 \<longleftrightarrow> lexordp_eq xs ys"
proof (induction xs arbitrary: ys)
  case (Cons x xs)
  show ?case
  proof (cases ys)
    case ys: (Cons y zs)
    then show ?thesis using Cons.IH [of zs] by (auto simp: cmp_bytes_Cons word_less_def word_uint_eq_iff)
  qed (simp add: cmp_bytes_Nil)
qed (simp add: cmp_bytes_Nil)

lemma cmp_bytes_swap: "cmp_bytes xs ys < 0 \<longleftrightarrow> 0 < cmp_bytes ys xs"
proof (induction xs arbitrary: ys)
  case (Cons x xs)
  then show ?case by (cases ys) (auto simp: cmp_bytes_Cons cmp_bytes_Nil)
qed (simp add: cmp_bytes_Nil)

lemma compare_rep:
  assumes "cbs_rep a xs" and "cbs_rep b ys"
  shows "compare_set_of_element a b = cmp_bytes xs ys"
proof -
  let ?n = "min (length xs) (length ys)"
  have l: "unat (CBS_len a) = length xs" "unat (CBS_len b) = length ys"
    and t: "take (length xs) (CBS_data a) = xs" "take (length ys) (CBS_data b) = ys"
    using assms by (auto simp: cbs_rep_def CBS_len_def CBS_data_def)
  let ?m = "if CBS_len a < CBS_len b then CBS_len a else CBS_len b"
  have m: "unat ?m = ?n" using l by (simp add: word_less_nat_alt min_def)
  have "take ?n (CBS_data a) = take ?n xs" "take ?n (CBS_data b) = take ?n ys"
    using t by (metis min.commute min.cobounded1 take_take min_absorb1 min.cobounded2)+
  then have "OPENSSL_memcmp (CBS_data a) (CBS_data b) ?m = memcmp xs ys ?n"
    using m memcmp_take [of "CBS_data a" "CBS_data b" ?n] memcmp_take [of xs ys ?n]
    by (auto simp: OPENSSL_memcmp_def unat_eq_0)
  then show ?thesis using l unfolding compare_set_of_element_def cmp_bytes_def Let_def
    by (simp add: word_less_nat_alt word_unat_eq_iff)
qed

text \<open>
  \<open>qsort\<close> permutes the array, and sorts it when the comparison function is consistent on its elements.
\<close>

definition consistent_on :: "'a set \<Rightarrow> ('a \<Rightarrow> 'a \<Rightarrow> int) \<Rightarrow> bool" where
  "consistent_on S c \<longleftrightarrow> (\<forall>a \<in> S. \<forall>b \<in> S. c a b < 0 \<longleftrightarrow> 0 < c b a) \<and>
     (\<forall>a \<in> S. \<forall>b \<in> S. \<forall>d \<in> S. c a b \<le> 0 \<longrightarrow> c b d \<le> 0 \<longrightarrow> c a d \<le> 0)"

definition qsort_sorts :: "(('a \<Rightarrow> 'a \<Rightarrow> int) \<Rightarrow> 'a list \<Rightarrow> 'a list) \<Rightarrow> bool" where
  "qsort_sorts qsort \<longleftrightarrow>
     (\<forall>c xs. mset (qsort c xs) = mset xs \<and> (consistent_on (set xs) c \<longrightarrow> in_order c (qsort c xs)))"

abbreviation octets :: "cbs \<Rightarrow> bytes" where "octets c \<equiv> take (unat (cbs_len c)) (cbs_data c)"

abbreviation well_formed :: "cbs \<Rightarrow> bool" where "well_formed c \<equiv> unat (cbs_len c) \<le> length (cbs_data c)"

lemma sorted_children:
  assumes "qsort_sorts qsort" and "\<forall>c \<in> set cs. well_formed c"
  defines "ds \<equiv> qsort compare_set_of_element cs"
  shows "\<forall>c \<in> set ds. well_formed c" and "mset (map octets ds) = mset (map octets cs)"
    and "sorted_wrt lexordp_eq (map octets ds)"
proof -
  have c: "compare_set_of_element a b = cmp_bytes (octets a) (octets b)" if "a \<in> set cs" "b \<in> set cs" for a b
    by (rule compare_rep) (use assms(2) that in \<open>auto simp: cbs_rep_def\<close>)
  have "consistent_on (set cs) compare_set_of_element"
    unfolding consistent_on_def by (auto simp: c cmp_bytes_le cmp_bytes_swap intro: lexordp_eq_trans)
  with assms(1) have m: "mset ds = mset cs" and o: "in_order compare_set_of_element ds"
    unfolding ds_def by (simp_all add: qsort_sorts_def)
  from m have s: "set ds = set cs" by (metis set_mset_mset)
  with assms(2) show "\<forall>c \<in> set ds. well_formed c" by simp
  from m show "mset (map octets ds) = mset (map octets cs)" by (simp add: mset_map)
  have "lexordp_eq (octets (ds ! i)) (octets (ds ! j))" if "i < j" "j < length ds" for i j
  proof -
    have "ds ! i \<in> set cs" "ds ! j \<in> set cs" using that s nth_mem [of i ds] nth_mem [of j ds] by simp_all
    note e = c [OF this]
    have "compare_set_of_element (ds ! i) (ds ! j) \<le> 0" using o that by (simp add: in_order_def)
    then show ?thesis unfolding e cmp_bytes_le .
  qed
  then show "sorted_wrt lexordp_eq (map octets ds)" by (simp add: sorted_wrt_iff_nth_less)
qed

section \<open>The elements in the buffer\<close>

abbreviation elements_ok :: "(u32 \<times> bytes) list \<Rightarrow> bool" where
  "elements_ok es \<equiv> \<forall>(t, b) \<in> set es. length b < 2 ^ 32"

abbreviation elements :: "(u32 \<times> bytes) list \<Rightarrow> bytes" where "elements es \<equiv> concat (map der_element es)"

lemma count_children_elements:
  "cbs_rep c (elements es) \<Longrightarrow> elements_ok es \<Longrightarrow> count_children c n = Some (n + of_nat (length es))"
proof (induction es arbitrary: c n)
  case Nil
  then have "CBS_len c = 0" using cbs_rep_length [of c "[]"] by (simp add: CBS_len_def unat_eq_0)
  then show ?case by (subst count_children.simps) simp
next
  case (Cons e es)
  obtain t b where e: "e = (t, b)" by (cases e)
  obtain out h c' where r: "CBS_get_any_asn1_element c = (Some (out, t, h), c')" "cbs_rep c' (elements es)"
    by (rule read_der [of c t b "elements es"]) (use Cons.prems e in auto)
  have "CBS_len c > 0" by (rule nonempty_len [OF Cons.prems(1)]) simp
  then show ?case using r(1) Cons.IH [OF r(2)] Cons.prems(2) by (subst count_children.simps) (auto simp: algebra_simps)
qed

lemma read_children_elements:
  "cbs_rep c (elements es) \<Longrightarrow> elements_ok es \<Longrightarrow>
   \<exists>cs. read_children (length es) c = Some cs \<and> (\<forall>c \<in> set cs. well_formed c) \<and> map octets cs = map der_element es"
proof (induction es arbitrary: c)
  case (Cons e es)
  obtain t b where e: "e = (t, b)" by (cases e)
  obtain out h c' where r: "CBS_get_any_asn1_element c = (Some (out, t, h), c')" "cbs_rep out (der_element (t, b))"
    "cbs_rep c' (elements es)"
    by (rule read_der [of c t b "elements es"]) (use Cons.prems e in auto)
  obtain cs where "read_children (length es) c' = Some cs" "\<forall>c \<in> set cs. well_formed c" "map octets cs = map der_element es"
    using Cons.IH [OF r(3)] Cons.prems(2) by auto
  then show ?case using r(1,2) e by (auto simp: cbs_rep_def)
qed simp

lemma add_children_writes:
  assumes "\<forall>c \<in> set cs. well_formed c"
  shows "writes A d (for_op (\<lambda>c. CBB_add_bytes A d (CBS_data c) (CBS_len c)) cs) (Some (concat (map octets cs)))
    (length (concat (map octets cs)))"
  using assms
proof (induction cs)
  case (Cons c cs)
  then have "writes A d (CBB_add_bytes A d (CBS_data c) (CBS_len c)) (Some (octets c)) (length (octets c))"
    using writes_add_bytes [of "CBS_len c" "CBS_data c" A d] by (simp add: CBS_len_def CBS_data_def)
  from writes_chk [OF this Cons.IH] Cons.prems show ?case by simp
qed (simp only: for_op.simps list.map concat.simps list.size writes_succeed)

text \<open>Rewinding forgets the contents of the innermost \<open>CBB\<close>.\<close>

lemma chain_ok_at_start: "chain_ok n (cs @ [c]) \<Longrightarrow> chain_ok (body_start c) (cs @ [c])"
  by (induction cs) auto

lemma rewind_props:
  assumes s: "cbb_inv s" "length (chain s) = Suc d" "weight s \<le> 2 ^ 60"
    and pre: "content (bufr s) = pre @ xs" "length pre = body_start (chain s ! d)"
  shows "cbb_inv (rewind d s)" "view d (rewind d s) = Some pre" "weight (rewind d s) + length xs \<le> weight s"
    "chain (rewind d s) = chain s" "same_kind (bufr s) (bufr (rewind d s))"
    "cbs_rep (CBS_init (CBB_data d s) (CBB_len d s)) xs"
proof -
  from s(1) obtain b where b: "base s = Some b" "buffer_ok b" "\<not> error b" "chain_ok (unat (blen b)) (tl (chain s))"
    by (auto simp: cbb_inv_def)
  let ?c = "chain s ! d"
  have le: "unat (blen b) \<le> length (buf b)" "unat (blen b) \<le> 2 ^ 60"
    using b(2) s(3) b(1) by (simp_all add: buffer_ok_def weight_def)
  then have l: "length pre + length xs = unat (blen b)" using arg_cong [OF pre(1), of length] b(1) by (simp add: content_def)
  have u: "unat (offset ?c + ucast (pending_len_len ?c)) = length pre"
    using pre(2) l le(2) by (subst unat_add_lem [THEN iffD1]) (simp_all add: unat_ucast_up)
  have base: "base (rewind d s) = Some (b\<lparr>blen := offset ?c + ucast (pending_len_len ?c)\<rparr>)"
    and ch: "chain (rewind d s) = chain s" by (simp_all add: rewind_def b(1))
  have "chain_ok (length pre) (tl (chain s))"
  proof (cases "d = 0")
    case True
    then have "tl (chain s) = []" using s(2) by (cases "chain s") auto
    then show ?thesis by simp
  next
    case False
    then have ne: "tl (chain s) \<noteq> []" and "last (tl (chain s)) = ?c"
      using s(2) by (cases "chain s"; auto simp: last_conv_nth nth_Cons')+
    then have e: "butlast (tl (chain s)) @ [?c] = tl (chain s)" by (metis append_butlast_last_id)
    from chain_ok_at_start [of "unat (blen b)" "butlast (tl (chain s))" ?c] b(4) pre(2) show ?thesis unfolding e by simp
  qed
  then show "cbb_inv (rewind d s)"
    using b(2,3) u l le unfolding cbb_inv_def base ch by (auto simp: buffer_ok_def)
  show "view d (rewind d s) = Some pre"
  proof -
    have "take (length pre) (buf b) = take (length pre) (take (unat (blen b)) (buf b))" using l by simp
    also have "\<dots> = pre" using pre(1) b(1) by (simp add: content_def)
    finally show ?thesis using u s(2) by (simp add: view_def base ch content_def)
  qed
  show "weight (rewind d s) + length xs \<le> weight s" using u l b(1) by (simp add: weight_def base ch)
  show "chain (rewind d s) = chain s" by (rule ch)
  show "same_kind (bufr s) (bufr (rewind d s))" using b(1) by (simp add: base same_kind_def)
  have "unat (CBB_len d s) = length xs"
  proof -
    have "CBB_len d s = blen b - (offset ?c + ucast (pending_len_len ?c))" by (simp add: CBB_len_def b(1))
    also have "unat \<dots> = unat (blen b) - length pre"
      using u l by (subst unat_sub_le) (simp_all add: word_le_nat_alt)
    finally show ?thesis using l by simp
  qed
  moreover have "take (length xs) (CBB_data d s) = xs"
  proof -
    have "CBB_data d s = drop (length pre) (buf b)" by (simp add: CBB_data_def b(1) u)
    then have "take (length xs) (CBB_data d s) = drop (length pre) (take (unat (blen b)) (buf b))"
      using l [symmetric] by (simp add: drop_take)
    then show ?thesis using pre(1) b(1) by (simp add: content_def)
  qed
  moreover have "length xs \<le> length (CBB_data d s)" using l le(1) u by (simp add: CBB_data_def b(1))
  ultimately show "cbs_rep (CBS_init (CBB_data d s) (CBB_len d s)) xs" by (simp add: cbs_rep_def CBS_init_def)
qed

section \<open>SET OF\<close>

lemma word_count:
  assumes "2 * n \<le> 2 ^ 60"
  shows "unat (of_nat n :: size_t) = n" "(of_nat n :: size_t) < 2 \<longleftrightarrow> n < 2" "\<not> (of_nat n :: size_t) > (- 1) div sizeof_CBS"
proof -
  have n: "n < 2 ^ 64" "n \<le> 2 ^ 59" using assms by simp_all
  then show u: "unat (of_nat n :: size_t) = n" by (simp add: unat_of_nat_size)
  show "(of_nat n :: size_t) < 2 \<longleftrightarrow> n < 2" using u by (simp add: word_less_nat_alt)
  have "(- 1 :: size_t) div sizeof_CBS = 0xfffffffffffffff" by (simp add: sizeof_CBS_def)
  then show "\<not> (of_nat n :: size_t) > (- 1) div sizeof_CBS" using u n(2) by (simp add: word_less_nat_alt)
qed

lemma length_elements: "2 * length es \<le> length (elements es)"
proof (induction es)
  case (Cons e es)
  then show ?case using der_element_length [of "snd e" "fst e"] by simp
qed simp

lemma memdup_rep:
  assumes "cbs_rep (CBS_init data n) xs" and "length xs \<le> 2 ^ 60" and "OPENSSL_memdup A data n = Some copy"
  shows "cbs_rep (CBS_init copy n) xs"
proof -
  have n: "unat n = length xs" "take (unat n) data = xs" "unat n \<le> length data"
    using assms(1) by (auto simp: cbs_rep_def CBS_init_def)
  then show ?thesis using memdup_Some [OF assms(3)] assms(2) by (auto simp: cbs_rep_def CBS_init_def)
qed

lemma length_concat_mset: "mset xs = mset ys \<Longrightarrow> length (concat xs) = length (concat ys)"
proof -
  have "length (concat zs) = sum_mset (image_mset length (mset zs))" for zs :: "'a list list"
    by (induction zs) simp_all
  then show "mset xs = mset ys \<Longrightarrow> length (concat xs) = length (concat ys)" by simp
qed

lemma set_of_sorts:
  assumes q: "qsort_sorts qsort" and s1: "cbb_inv s1" "length (chain s1) = Suc d" "weight s1 \<le> 2 ^ 60"
    and pre: "content (bufr s1) = pre @ elements es" "length pre = body_start (chain s1 ! d)" and es: "elements_ok es"
    and cs: "read_children (length es) c = Some cs" "cbs_rep c (elements es)"
  shows "case for_op (\<lambda>c. CBB_add_bytes A d (CBS_data c) (CBS_len c)) (qsort compare_set_of_element cs) (rewind d s1) of
      (None, _) \<Rightarrow> \<not> roomy A (bufr s1) (length (pre @ elements es))
    | (Some _, s') \<Rightarrow> cbb_inv s' \<and> take (Suc d) (chain s') = chain s1 \<and>
        (\<exists>es'. mset es' = mset (map der_element es) \<and> sorted_wrt lexordp_eq es' \<and> view d s' = Some (pre @ concat es'))"
proof -
  let ?ds = "qsort compare_set_of_element cs"
  have w: "\<forall>c \<in> set cs. well_formed c" and m: "map octets cs = map der_element es"
    using read_children_elements [OF cs(2) es] cs(1) by simp_all
  note sorted = sorted_children [OF q w]
  note W = add_children_writes [OF sorted(1), of A d]
  note R = rewind_props [OF s1 pre]
  have l: "length (concat (map octets ?ds)) = length (elements es)"
    by (rule length_concat_mset) (use sorted(2) m in metis)
  have d: "d < length (chain (rewind d s1))" "weight (rewind d s1) + length (concat (map octets ?ds)) \<le> 2 ^ 62"
    using s1(2,3) R(3,4) l by simp_all
  obtain r s' where r: "for_op (\<lambda>c. CBB_add_bytes A d (CBS_data c) (CBS_len c)) ?ds (rewind d s1) = (r, s')"
    by (cases "for_op (\<lambda>c. CBB_add_bytes A d (CBS_data c) (CBS_len c)) ?ds (rewind d s1)")
  show ?thesis
  proof (cases r)
    case None
    have "\<not> roomy A (bufr (rewind d s1)) (length pre + length (concat (map octets ?ds)))"
      by (rule writesD_fail [OF W R(1) d r [unfolded None] R(2)]) simp
    with None r show ?thesis using roomy_same_kind [OF R(5)] l by simp
  next
    case (Some u)
    note E = writesE [OF W R(1) d r [unfolded Some]]
    have "view d s' = Some (pre @ concat (map octets ?ds))" using E(3) R(2) by simp
    moreover have "mset (map octets ?ds) = mset (map der_element es)" using sorted(2) m by metis
    moreover have "take (Suc d) (chain s') = chain s1" using E(2) R(4) s1(2) by simp
    ultimately show ?thesis using Some r E(1) sorted(3) by (auto intro!: exI [of _ "map octets ?ds"])
  qed
qed

text \<open>
  C27: \<open>CBB_flush_asn1_set_of\<close> sorts the DER elements the \<open>CBB\<close> holds by their encodings, as DER demands of
  a SET OF, and leaves what is in front of them alone; it fails only when memory or room is lacking.
\<close>

theorem flush_set_of_sorts:
  assumes "qsort_sorts qsort" and "cbb_inv s" and "d < length (chain s)" and "weight s \<le> 2 ^ 60"
    and "view d s = Some (pre @ elements es)" and "length pre = body_start (chain s ! d)" and "elements_ok es"
  shows "case CBB_flush_asn1_set_of A qsort d s of
      (None, _) \<Rightarrow> \<not> roomy A (bufr s) (length (pre @ elements es)) \<or> \<not> (\<forall>m. alloc_ok A m)
    | (Some _, s') \<Rightarrow> cbb_inv s' \<and> take (Suc d) (chain s') = take (Suc d) (chain s) \<and>
        (\<exists>es'. mset es' = mset (map der_element es) \<and> sorted_wrt lexordp_eq es' \<and> view d s' = Some (pre @ concat es'))"
proof -
  have w62: "weight s \<le> 2 ^ 62" using assms(4) by simp
  show ?thesis
  proof (rule CBB_flush_cases [OF assms(2,3) w62, of A])
    fix s1
    assume "CBB_flush A d s = (None, s1)" "\<forall>V. view d s = Some V \<longrightarrow> \<not> roomy A (bufr s) (length V)"
    then show ?thesis using assms(5) by (simp add: CBB_flush_asn1_set_of_def)
  next
    fix s1 b
    assume f: "CBB_flush A d s = (Some (), s1)" "base s1 = Some b" "view d s = Some (content b)"
      "cbb_inv s1" "chain s1 = take (Suc d) (chain s)" "same_kind (bufr s) b" "weight s1 \<le> weight s"
    have c1: "content (bufr s1) = pre @ elements es" using f(2,3) assms(5) by simp
    have ch: "length (chain s1) = Suc d" "chain s1 ! d = chain s ! d" using f(5) assms(3) by simp_all
    have w1: "weight s1 \<le> 2 ^ 60" using f(7) assms(4) by simp
    have pl: "length pre = body_start (chain s1 ! d)" using assms(6) ch by simp
    note R = rewind_props [OF f(4) ch(1) w1 c1 pl]
    let ?n = "of_nat (length es) :: size_t"
    have le: "length (elements es) \<le> 2 ^ 60" using R(3) w1 by simp
    then have n: "2 * length es \<le> 2 ^ 60" using length_elements [of es] by linarith
    note N = word_count [OF n]
    have cnt: "count_children (CBS_init (CBB_data d s1) (CBB_len d s1)) 0 = Some ?n"
      using count_children_elements [OF R(6) assms(7), of 0] by simp
    have v1: "view d s1 = Some (pre @ elements es)" using ch(1) f(2) c1 by (simp add: view_def)
    show ?thesis
    proof (cases "length es < 2")
      case True
      then have "CBB_flush_asn1_set_of A qsort d s = (Some (), s1)"
        using f(1) cnt N(2) by (simp add: CBB_flush_asn1_set_of_def)
      moreover have "sorted_wrt lexordp_eq (map der_element es)"
        using True by (cases es) (auto simp: length_Suc_conv numeral_2_eq_2)
      ultimately show ?thesis using f(4,5) v1 by (auto intro!: exI [of _ "map der_element es"])
    next
      case False
      let ?dup = "OPENSSL_memdup A (CBB_data d s1) (CBB_len d s1)" and ?arr = "OPENSSL_malloc A (?n * sizeof_CBS)"
      have e: "CBB_flush_asn1_set_of A qsort d s =
          (case (?dup, ?arr) of
             (Some copy, Some _) \<Rightarrow>
               (case read_children (length es) (CBS_init copy (CBB_len d s1)) of
                  None \<Rightarrow> (None, s1)
                | Some children \<Rightarrow>
                    for_op (\<lambda>c. CBB_add_bytes A d (CBS_data c) (CBS_len c)) (qsort compare_set_of_element children) (rewind d s1))
           | _ \<Rightarrow> (None, s1))"
        using f(1) cnt N False by (simp add: CBB_flush_asn1_set_of_def Let_def split: option.splits)
      show ?thesis
      proof (cases "?dup \<noteq> None \<and> ?arr \<noteq> None")
        case no: False
        have "0 < length (elements es)" using length_elements [of es] False by linarith
        then have "CBB_len d s1 \<noteq> 0" using R(6) by (auto simp: cbs_rep_def CBS_init_def)
        then have "\<not> (\<forall>m. alloc_ok A m)" using no by (auto simp: OPENSSL_memdup_def OPENSSL_malloc_def Let_def split: if_splits option.splits)
        then show ?thesis using no unfolding e by (auto split: option.splits)
      next
        case True
        then obtain copy arr where ca: "?dup = Some copy" "?arr = Some arr" by auto
        have c: "cbs_rep (CBS_init copy (CBB_len d s1)) (elements es)" by (rule memdup_rep [OF R(6) le ca(1)])
        obtain cs where cs: "read_children (length es) (CBS_init copy (CBB_len d s1)) = Some cs"
          using read_children_elements [OF c assms(7)] by blast
        have k: "roomy A (bufr s1) n \<longleftrightarrow> roomy A (bufr s) n" for n using roomy_same_kind [OF f(6)] f(2) by simp
        show ?thesis
          using set_of_sorts [OF assms(1) f(4) ch(1) w1 c1 pl assms(7) cs c, of A] unfolding k f(5)
          by (simp add: e ca cs) (auto split: option.splits)
      qed
    qed
  qed
qed

text \<open>A consistent instance of \<open>qsort\<close>.\<close>

lemma consistent_on_mono: "consistent_on S c \<Longrightarrow> T \<subseteq> S \<Longrightarrow> consistent_on T c"
  unfolding consistent_on_def by (meson subsetD)

lemma consistent_onD:
  assumes "consistent_on S c" and "a \<in> S" and "b \<in> S"
  shows "c a b < 0 \<longleftrightarrow> 0 < c b a" and "d \<in> S \<Longrightarrow> c a b \<le> 0 \<Longrightarrow> c b d \<le> 0 \<Longrightarrow> c a d \<le> 0"
  using assms unfolding consistent_on_def by blast+

lemma in_order_insert:
  assumes "consistent_on (insert x (set xs)) c" and "in_order c xs"
  shows "in_order c (insert_by c x xs)"
  using assms
proof (induction xs)
  case (Cons y ys)
  have s: "set (insert_by c x ys) = insert x (set ys)" using mset_insert_by [of c x ys] by (metis set_mset_add_mset_insert set_mset_mset)
  have IH: "in_order c (insert_by c x ys)"
  proof (rule Cons.IH)
    show "consistent_on (insert x (set ys)) c" by (rule consistent_on_mono [OF Cons.prems(1)]) auto
    show "in_order c ys" using Cons.prems(2) by (simp add: in_order_Cons)
  qed
  show ?case
  proof (cases "c x y \<le> 0")
    case True
    have "c x z \<le> 0" if z: "z \<in> set ys" for z
    proof -
      have "c y z \<le> 0" using Cons.prems(2) z by (simp add: in_order_Cons)
      from consistent_onD(2) [OF Cons.prems(1) _ _ _ True this] z show ?thesis by simp
    qed
    then show ?thesis using Cons.prems(2) True by (simp add: in_order_Cons)
  next
    case False
    moreover have "c y x < 0 \<longleftrightarrow> 0 < c x y" by (rule consistent_onD(1) [OF Cons.prems(1)]) simp_all
    ultimately have "c y x \<le> 0" by linarith
    then show ?thesis using IH False s Cons.prems(2) by (auto simp: in_order_Cons)
  qed
qed (simp add: in_order_Cons in_order_Nil)

lemma insertion_sort_sorts: "qsort_sorts insertion_sort"
proof -
  have m: "mset (insertion_sort c xs) = mset xs" for c :: "'a \<Rightarrow> 'a \<Rightarrow> int" and xs
    by (induction xs) (simp_all add: insertion_sort_def mset_insert_by)
  have "in_order c (insertion_sort c xs)" if "consistent_on (set xs) c" for c :: "'a \<Rightarrow> 'a \<Rightarrow> int" and xs
    using that
  proof (induction xs)
    case (Cons x xs)
    then have "in_order c (insertion_sort c xs)" using consistent_on_mono [OF Cons.prems, of "set xs"] by auto
    moreover have "set (insertion_sort c xs) = set xs" using m [of c xs] by (metis set_mset_mset)
    ultimately show ?case using Cons.prems by (simp add: insertion_sort_def in_order_insert)
  qed (simp add: insertion_sort_def in_order_Nil)
  with m show ?thesis by (simp add: qsort_sorts_def)
qed

definition two_octet_strings :: cbb where
  "two_octet_strings = CBB_zero\<lparr>base := Some \<lparr>buf = [4, 1, 9, 4, 1, 3, 0, 0], blen = 6, cap = 8, can_resize = True, error = False\<rparr>\<rparr>"

theorem flush_set_of_sorts_witness:
  "\<exists>s'. CBB_flush_asn1_set_of malloc_total insertion_sort 0 two_octet_strings = (Some (), s') \<and>
     view 0 s' = Some [4, 1, 3, 4, 1, 9]"
proof -
  let ?es = "[(4, [9]), (4, [3])] :: (u32 \<times> bytes) list"
  have e: "der_element (4, [9]) = [4, 1, 9]" "der_element (4, [3]) = [4, 1, 3]" by (simp_all add: ber_simps)
  have s: "cbb_inv two_octet_strings" "0 < length (chain two_octet_strings)" "weight two_octet_strings \<le> 2 ^ 60"
    "view 0 two_octet_strings = Some ([] @ elements ?es)" "length ([] :: bytes) = body_start (chain two_octet_strings ! 0)"
    unfolding e list.map by (simp_all add: two_octet_strings_def CBB_zero_def cbb_inv_def buffer_ok_def weight_def view_def content_def)
  have r: "roomy malloc_total b n" if "can_resize b" for b n using that by (simp add: roomy_def malloc_total_def)
  have "can_resize (bufr two_octet_strings)" by (simp add: two_octet_strings_def)
  then obtain s' es' where f: "CBB_flush_asn1_set_of malloc_total insertion_sort 0 two_octet_strings = (Some (), s')"
    "mset es' = mset (map der_element ?es)" "sorted_wrt lexordp_eq es'" "view 0 s' = Some (concat es')"
    using flush_set_of_sorts [OF insertion_sort_sorts s, of malloc_total]
    by (cases "CBB_flush_asn1_set_of malloc_total insertion_sort 0 two_octet_strings")
      (auto simp: roomy_def malloc_total_def split: option.splits)
  have "es' = [[4, 1, 9], [4, 1, 3]] \<or> es' = [[4, 1, 3], [4, 1, 9]]"
  proof -
    have "length es' = 2" using arg_cong [OF f(2), of size] by simp
    then obtain x y where xy: "es' = [x, y]" by (auto simp: length_Suc_conv numeral_2_eq_2)
    from f(2) have "{#x, y#} = {#[4, 1, 9], [4, 1, 3]#}" unfolding xy by (simp add: e)
    then show ?thesis unfolding xy by (auto simp: add_eq_conv_ex)
  qed
  with f show ?thesis by auto
qed

section \<open>Finishing in the manner of i2d\<close>

text \<open>What \<open>*outp\<close> becomes when the bytes \<open>V\<close> are given out.\<close>

definition given_out :: "bytes \<Rightarrow> (bytes \<times> nat) option option \<Rightarrow> (bytes \<times> nat) option option \<Rightarrow> bool" where
  "given_out V outp outp' =
     (case outp of
        None \<Rightarrow> outp' = None
      | Some None \<Rightarrow> (case outp' of Some (Some (der, i)) \<Rightarrow> i = 0 \<and> take (length V) der = V | _ \<Rightarrow> False)
      | Some (Some (block, i)) \<Rightarrow>
          outp' = Some (Some (take i block @ V @ drop (i + length V) block, i + length V)))"

text \<open>
  \<open>CBB_finish_i2d\<close> returns the length of what the \<open>CBB\<close> holds and gives it out: in new storage when
  \<open>*outp\<close> is NULL, otherwise into the caller's block, whose pointer it advances. When it returns -1, memory
  is short or the length is not an \<open>int\<close>, and \<open>*outp\<close> is as it was.
\<close>

theorem finish_i2d_gives_out:
  assumes "cbb_inv s" and "0 < length (chain s)" and "weight s \<le> 2 ^ 62" and "\<not> is_child (chain s ! 0)"
    and "can_resize (bufr s)" and "view 0 s = Some V" and "CBB_finish_i2d A 0 outp s = (r, outp', s')"
  shows "r = int (length V) \<and> length V < 2 ^ 31 \<and> given_out V outp outp' \<and> base s' = None \<or>
    r = - 1 \<and> outp' = outp \<and> (2 ^ 31 \<le> length V \<or> \<not> (\<forall>m. alloc_ok A m))"
proof (rule CBB_finish_cases [OF assms(1-4), of A])
  fix s1
  assume "CBB_finish A 0 True True s = (None, s1)" "\<forall>V. view 0 s = Some V \<longrightarrow> \<not> roomy A (bufr s) (length V)"
  then show ?thesis using assms(5-7) by (simp add: CBB_finish_i2d_def roomy_def)
next
  fix s1 data n
  assume f: "CBB_finish A 0 True True s = (Some (Some data, Some n), s1)" "view 0 s = Some (take (unat n) data)"
    "unat n \<le> length data" "base s1 = None"
  then have V: "V = take (unat n) data" "length V = unat n" using assms(6) by simp_all
  have big: "n > 0x7fffffff \<longleftrightarrow> 2 ^ 31 \<le> length V" unfolding V(2) by (simp add: word_less_nat_alt) arith
  show ?thesis
  proof (cases "n > 0x7fffffff")
    case True
    then show ?thesis using assms(7) f(1) big by (simp add: CBB_finish_i2d_def)
  next
    case False
    have "CBB_finish_i2d A 0 outp s = (int (unat n), (case outp of
        None \<Rightarrow> None
      | Some None \<Rightarrow> Some (Some (data, 0))
      | Some (Some (block, i)) \<Rightarrow>
          Some (Some (take i block @ take (unat n) data @ drop (i + unat n) block, i + unat n))), s1)"
      using f(1) False by (simp add: CBB_finish_i2d_def)
    moreover have "given_out V outp (case outp of
        None \<Rightarrow> None
      | Some None \<Rightarrow> Some (Some (data, 0))
      | Some (Some (block, i)) \<Rightarrow>
          Some (Some (take i block @ take (unat n) data @ drop (i + unat n) block, i + unat n)))"
      using V by (auto simp: given_out_def split: option.splits)
    ultimately show ?thesis using assms(7) V(2) f(4) False big by auto
  qed
qed

theorem finish_i2d_gives_out_witness:
  "fst (CBB_finish_i2d malloc_total 0 None two_octet_strings) = 6 \<and>
   fst (snd (CBB_finish_i2d malloc_total 0 (Some (Some ([1, 1, 1, 1, 1, 1, 1, 1], 1))) two_octet_strings)) =
     Some (Some ([1, 4, 1, 9, 4, 1, 3, 1], 7))"
proof -
  have s: "cbb_inv two_octet_strings" "0 < length (chain two_octet_strings)" "weight two_octet_strings \<le> 2 ^ 62"
    "\<not> is_child (chain two_octet_strings ! 0)" "can_resize (bufr two_octet_strings)"
    "view 0 two_octet_strings = Some [4, 1, 9, 4, 1, 3]"
    by (simp_all add: two_octet_strings_def CBB_zero_def cbb_inv_def buffer_ok_def weight_def view_def content_def)
  have "fst (CBB_finish_i2d malloc_total 0 outp two_octet_strings) = 6 \<and>
      given_out [4, 1, 9, 4, 1, 3] outp (fst (snd (CBB_finish_i2d malloc_total 0 outp two_octet_strings)))" for outp
    using finish_i2d_gives_out [OF s, of malloc_total outp]
    by (cases "CBB_finish_i2d malloc_total 0 outp two_octet_strings") (auto simp: malloc_total_def)
  from this [of None] this [of "Some (Some ([1, 1, 1, 1, 1, 1, 1, 1], 1))"] show ?thesis
    by (simp add: given_out_def)
qed

end
