(* ===== verification/Pb_Stream.thy ===== *)
theory Pb_Stream
  imports Prelude
begin

text \<open>
  nanopb's streams: \<open>pb_istream_t\<close> and \<open>pb_read\<close> of \<open>pb_decode.c\<close>, \<open>pb_ostream_t\<close> and \<open>pb_write\<close> of
  \<open>pb_encode.c\<close>. The contracts that the wire format relies on are the locales \<open>byte_source\<close> and \<open>byte_sink\<close>,
  proved here for streams on memory blocks.
\<close>

section \<open>Input streams\<close>

text \<open>
  A callback is asked for a number of bytes in a state of its own. It delivers them, or fails; at the end
  of its input it may set \<open>bytes_left\<close> to 0 when it fails.
\<close>

datatype 's reading = Data bytes 's | Io_error 's | End_of_input 's

type_synonym 's reader = "size_t \<Rightarrow> 's \<Rightarrow> 's reading"

text \<open>
  The fields \<open>callback\<close> and \<open>state\<close> together: \<open>buf_read\<close> with what is left of the block that \<open>state\<close> points
  into, or another function with its state.
\<close>

datatype 's source = Buffer bytes | Callback "'s reader" 's

record 's istream =
  source :: "'s source"
  bytes_left :: size_t
  errmsg :: "string option"

text \<open>\<open>PB_RETURN_ERROR\<close>: the first message is kept.\<close>

definition istream_error :: "string \<Rightarrow> ('s istream, 'a) op" where
  "istream_error msg s = (None, s\<lparr>errmsg := (case errmsg s of Some m \<Rightarrow> Some m | None \<Rightarrow> Some msg)\<rparr>)"

definition buf_read :: "size_t \<Rightarrow> bytes \<Rightarrow> bytes \<times> bytes" where
  "buf_read count src = (take (unat count) src, drop (unat count) src)"

text \<open>\<open>stream->callback(stream, buf, count)\<close>; the value is what \<open>buf\<close> receives.\<close>

definition run_callback :: "size_t \<Rightarrow> ('s istream, bytes) op" where
  "run_callback count s =
     (case source s of
        Buffer src \<Rightarrow> (case buf_read count src of (out, rest) \<Rightarrow> (Some out, s\<lparr>source := Buffer rest\<rparr>))
      | Callback f st \<Rightarrow>
          (case f count st of
             Data out st' \<Rightarrow> (Some out, s\<lparr>source := Callback f st'\<rparr>)
           | Io_error st' \<Rightarrow> (None, s\<lparr>source := Callback f st'\<rparr>)
           | End_of_input st' \<Rightarrow> (None, s\<lparr>source := Callback f st', bytes_left := 0\<rparr>)))"

text \<open>\<open>pb_read\<close> behind the part that skips: with a buffer, or on a memory block.\<close>

definition pb_read_direct :: "size_t \<Rightarrow> ('s istream, bytes) op" where
  "pb_read_direct count s =
     (if count = 0 then (Some [], s)
      else if bytes_left s < count then istream_error ''end-of-stream'' s
      else
        (case run_callback count s of
           (None, s) \<Rightarrow> istream_error ''io error'' s
         | (Some out, s) \<Rightarrow> (Some out, s\<lparr>bytes_left := bytes_left s - count\<rparr>)))"

text \<open>Skipping on a callback: 16 bytes at a time.\<close>

function skip_chunks :: "size_t \<Rightarrow> ('s istream, unit) op" where
  "skip_chunks count s =
     (if count > 16 then chk (pb_read_direct 16) (\<lambda>_. skip_chunks (count - 16)) s
      else chk (pb_read_direct count) (\<lambda>_. succeed ()) s)"
  by pat_completeness auto
termination
  by (relation "measure (\<lambda>(count, s). unat count)") (auto simp: word_less_nat_alt unat_sub_le word_le_nat_alt)

declare skip_chunks.simps [simp del]

text \<open>\<open>buf == NULL\<close> and not.\<close>

definition pb_skip :: "size_t \<Rightarrow> ('s istream, unit) op" where
  "pb_skip count s =
     (if count = 0 then (Some (), s)
      else case source s of
        Callback _ _ \<Rightarrow> skip_chunks count s
      | Buffer _ \<Rightarrow> chk (pb_read_direct count) (\<lambda>_. succeed ()) s)"

definition pb_read :: "size_t \<Rightarrow> ('s istream, bytes) op" where
  "pb_read count = pb_read_direct count"

definition pb_readbyte :: "('s istream, u8) op" where
  "pb_readbyte s =
     (if bytes_left s = 0 then istream_error ''end-of-stream'' s
      else
        (case run_callback 1 s of
           (None, s) \<Rightarrow> istream_error ''io error'' s
         | (Some out, s) \<Rightarrow> (Some (hd out), s\<lparr>bytes_left := bytes_left s - 1\<rparr>)))"

definition pb_istream_from_buffer :: "bytes \<Rightarrow> size_t \<Rightarrow> 's istream" where
  "pb_istream_from_buffer src bufsize = \<lparr>source = Buffer src, bytes_left = bufsize, errmsg = None\<rparr>"

section \<open>Output streams\<close>

text \<open>
  \<open>callback\<close> and \<open>state\<close>: NULL for a stream that only counts, \<open>buf_write\<close> with the block and the index
  \<open>state\<close> points to, or another function with its state, which returns \<open>false\<close> or takes the bytes.
\<close>

type_synonym 's writer = "bytes \<Rightarrow> 's \<Rightarrow> bool \<times> 's"

datatype 's sink = Sizing | Block bytes nat | Writer "'s writer" 's

record 's ostream =
  sink :: "'s sink"
  max_size :: size_t
  bytes_written :: size_t
  oerrmsg :: "string option"

definition ostream_error :: "string \<Rightarrow> ('s ostream, 'a) op" where
  "ostream_error msg s = (None, s\<lparr>oerrmsg := (case oerrmsg s of Some m \<Rightarrow> Some m | None \<Rightarrow> Some msg)\<rparr>)"

definition buf_write :: "bytes \<Rightarrow> bytes \<Rightarrow> nat \<Rightarrow> bytes \<times> nat" where
  "buf_write src block i = (take i block @ src @ drop (i + length src) block, i + length src)"

definition put :: "bytes \<Rightarrow> 's sink \<Rightarrow> bool \<times> 's sink" where
  "put src c =
     (case c of
        Sizing \<Rightarrow> (True, Sizing)
      | Block block i \<Rightarrow> (case buf_write src block i of (block, i) \<Rightarrow> (True, Block block i))
      | Writer f st \<Rightarrow> (case f src st of (ok, st) \<Rightarrow> (ok, Writer f st)))"

text \<open>\<open>count\<close> is the length of \<open>buf\<close>, except on a stream that only counts, whose callers may pass NULL.\<close>

definition pb_write_n :: "bytes \<Rightarrow> size_t \<Rightarrow> ('s ostream, unit) op" where
  "pb_write_n src count s =
     (if count > 0 \<and> sink s \<noteq> Sizing then
        (if bytes_written s + count < bytes_written s \<or> bytes_written s + count > max_size s
         then ostream_error ''stream full'' s
         else
           (case put (take (unat count) src) (sink s) of
              (ok, c) \<Rightarrow>
                if \<not> ok then ostream_error ''io error'' (s\<lparr>sink := c\<rparr>)
                else (Some (), s\<lparr>sink := c, bytes_written := bytes_written s + count\<rparr>)))
      else (Some (), s\<lparr>bytes_written := bytes_written s + count\<rparr>))"

definition pb_write :: "bytes \<Rightarrow> ('s ostream, unit) op" where
  "pb_write src = pb_write_n src (of_nat (length src))"

definition pb_ostream_from_buffer :: "bytes \<Rightarrow> size_t \<Rightarrow> 's ostream" where
  "pb_ostream_from_buffer block bufsize =
     \<lparr>sink = Block block 0, max_size = bufsize, bytes_written = 0, oerrmsg = None\<rparr>"

definition PB_OSTREAM_SIZING :: "'s ostream" where
  "PB_OSTREAM_SIZING = \<lparr>sink = Sizing, max_size = 0, bytes_written = 0, oerrmsg = None\<rparr>"

section \<open>What readers rely on\<close>

text \<open>
  \<open>holds c xs\<close>: the source \<open>c\<close> still has the bytes \<open>xs\<close>. Asked for no more than that, it delivers them in
  order. A stream
  offers as many of them as \<open>bytes_left\<close> says; \<open>zs\<close> are those behind.
\<close>

locale byte_source =
  fixes holds :: "'s source \<Rightarrow> bytes \<Rightarrow> bool"
  assumes deliver: "holds (source s) xs \<Longrightarrow> 0 < count \<Longrightarrow> unat count \<le> length xs \<Longrightarrow>
    \<exists>c. run_callback count s = (Some (take (unat count) xs), s\<lparr>source := c\<rparr>) \<and> holds c (drop (unat count) xs)"
begin

definition offers :: "'s istream \<Rightarrow> bytes \<Rightarrow> bytes \<Rightarrow> bool" where
  "offers s xs zs \<longleftrightarrow> length xs = unat (bytes_left s) \<and> holds (source s) (xs @ zs)"

lemma offers_length: "offers s xs zs \<Longrightarrow> length xs = unat (bytes_left s)"
  by (simp add: offers_def)

lemma read_direct_offers:
  assumes "offers s xs zs" and "unat count \<le> length xs"
  shows "\<exists>s'. pb_read_direct count s = (Some (take (unat count) xs), s') \<and> offers s' (drop (unat count) xs) zs \<and>
    errmsg s' = errmsg s"
proof (cases "count = 0")
  case True
  with assms show ?thesis by (simp add: pb_read_direct_def)
next
  case False
  have h: "holds (source s) (xs @ zs)" and l: "length xs = unat (bytes_left s)"
    using assms(1) by (auto simp: offers_def)
  obtain c where c: "run_callback count s = (Some (take (unat count) (xs @ zs)), s\<lparr>source := c\<rparr>)"
    "holds c (drop (unat count) (xs @ zs))"
    using deliver [OF h, of count] False assms(2) by (auto simp: word_neq_0_conv)
  have "\<not> bytes_left s < count" using assms(2) l by (simp add: word_less_nat_alt)
  then have "pb_read_direct count s = (Some (take (unat count) xs), s\<lparr>source := c, bytes_left := bytes_left s - count\<rparr>)"
    using False c(1) assms(2) by (simp add: pb_read_direct_def)
  moreover have "unat (bytes_left s - count) = unat (bytes_left s) - unat count"
    using assms(2) l by (simp add: unat_sub_le word_le_nat_alt)
  ultimately show ?thesis using c(2) assms(2) l by (auto simp: offers_def)
qed

lemma read_direct_short:
  assumes "offers s xs zs" and "length xs < unat count"
  shows "\<exists>s'. pb_read_direct count s = (None, s') \<and> offers s' xs zs"
proof -
  have "bytes_left s < count" "count \<noteq> 0" using assms by (auto simp: offers_def word_less_nat_alt)
  then show ?thesis using assms(1) by (simp add: pb_read_direct_def istream_error_def offers_def)
qed

lemma readbyte_offers:
  assumes "offers s (x # xs) zs"
  shows "\<exists>s'. pb_readbyte s = (Some x, s') \<and> offers s' xs zs \<and> errmsg s' = errmsg s"
proof -
  have l: "1 \<le> length (x # xs)" by simp
  then have nz: "bytes_left s \<noteq> 0" "\<not> bytes_left s < 1" using assms by (auto simp: offers_def word_less_nat_alt)
  obtain s' where "pb_read_direct 1 s = (Some [x], s')" "offers s' xs zs" "errmsg s' = errmsg s"
    using read_direct_offers [OF assms, of 1] by auto
  then show ?thesis using nz
    by (auto simp: pb_read_direct_def pb_readbyte_def istream_error_def split: prod.splits option.splits)
qed

lemma readbyte_end:
  assumes "offers s [] zs"
  shows "\<exists>s'. pb_readbyte s = (None, s') \<and> offers s' [] zs \<and> bytes_left s' = 0"
proof -
  have "bytes_left s = 0" using offers_length [OF assms] by (simp add: unat_eq_0)
  then show ?thesis using assms by (simp add: pb_readbyte_def istream_error_def offers_def)
qed

lemma skip_chunks_offers:
  "offers s xs zs \<Longrightarrow> unat count \<le> length xs \<Longrightarrow>
   \<exists>s'. skip_chunks count s = (Some (), s') \<and> offers s' (drop (unat count) xs) zs \<and> errmsg s' = errmsg s"
proof (induction count s arbitrary: xs rule: skip_chunks.induct)
  case (1 count s)
  show ?case
  proof (cases "count > 16")
    case True
    have sub: "unat (count - 16) = unat count - 16"
      using True by (simp add: unat_sub_le word_le_nat_alt word_less_nat_alt)
    have "16 \<le> length xs" using True "1.prems"(2) by (simp add: word_less_nat_alt)
    then obtain s1 where s1: "pb_read_direct 16 s = (Some (take 16 xs), s1)" "offers s1 (drop 16 xs) zs" "errmsg s1 = errmsg s"
      using read_direct_offers [OF "1.prems"(1), of 16] by auto
    obtain s2 where "skip_chunks (count - 16) s1 = (Some (), s2)" "offers s2 (drop (unat (count - 16)) (drop 16 xs)) zs"
      "errmsg s2 = errmsg s1"
      using "1.IH" [OF True s1(1,2)] diff_le_mono [OF "1.prems"(2), of 16] sub by auto
    then show ?thesis using s1 True sub "1.prems"(2)
      by (subst skip_chunks.simps) (simp add: word_less_nat_alt)
  next
    case False
    obtain s1 where "pb_read_direct count s = (Some (take (unat count) xs), s1)" "offers s1 (drop (unat count) xs) zs"
      "errmsg s1 = errmsg s"
      using read_direct_offers [OF "1.prems"] by blast
    then show ?thesis using False by (subst skip_chunks.simps) simp
  qed
qed

lemma skip_offers:
  assumes "offers s xs zs" and "unat count \<le> length xs"
  shows "\<exists>s'. pb_skip count s = (Some (), s') \<and> offers s' (drop (unat count) xs) zs \<and> errmsg s' = errmsg s"
proof (cases "count = 0")
  case True
  with assms show ?thesis by (simp add: pb_skip_def)
next
  case False
  obtain s' where "pb_read_direct count s = (Some (take (unat count) xs), s')" "offers s' (drop (unat count) xs) zs"
    "errmsg s' = errmsg s" using read_direct_offers [OF assms] by blast
  then show ?thesis using False skip_chunks_offers [OF assms]
    by (cases "source s") (simp_all add: pb_skip_def)
qed

lemma skip_chunks_short:
  "offers s xs zs \<Longrightarrow> length xs < unat count \<Longrightarrow> \<exists>s'. skip_chunks count s = (None, s')"
proof (induction count s arbitrary: xs rule: skip_chunks.induct)
  case (1 count s)
  show ?case
  proof (cases "count > 16 \<and> 16 \<le> length xs")
    case True
    then have sub: "unat (count - 16) = unat count - 16"
      by (simp add: unat_sub_le word_le_nat_alt word_less_nat_alt)
    obtain s1 where s1: "pb_read_direct 16 s = (Some (take 16 xs), s1)" "offers s1 (drop 16 xs) zs"
      using read_direct_offers [OF "1.prems"(1), of 16] True by auto
    obtain s2 where "skip_chunks (count - 16) s1 = (None, s2)"
      using "1.IH" [OF _ s1] True sub diff_less_mono [OF "1.prems"(2), of 16] by auto
    then show ?thesis using s1 True by (subst skip_chunks.simps) simp
  next
    case False
    let ?n = "if count > 16 then 16 else count"
    have "length xs < unat ?n" using False "1.prems"(2) by auto
    then obtain s1 where "pb_read_direct ?n s = (None, s1)" using read_direct_short [OF "1.prems"(1)] by blast
    then show ?thesis by (subst skip_chunks.simps) (simp split: if_splits)
  qed
qed

lemma skip_short:
  assumes "offers s xs zs" and "length xs < unat count"
  shows "\<exists>s'. pb_skip count s = (None, s')"
proof -
  have "count \<noteq> 0" using assms(2) by auto
  then show ?thesis using read_direct_short [OF assms] skip_chunks_short [OF assms]
    by (cases "source s") (auto simp: pb_skip_def)
qed

end

text \<open>A memory block holds its bytes.\<close>

interpretation buffer: byte_source "\<lambda>c xs. c = Buffer xs"
  by unfold_locales (simp add: run_callback_def buf_read_def)

text \<open>So does a callback that hands out a byte string, and reports the end of its input.\<close>

definition string_reader :: "bytes reader" where
  "string_reader n st =
     (if unat n \<le> length st then Data (take (unat n) st) (drop (unat n) st) else End_of_input st)"

interpretation callback: byte_source "\<lambda>c xs. c = Callback string_reader xs"
  by unfold_locales (simp add: run_callback_def string_reader_def)

lemma buffer_offers_init:
  "length xs = unat n \<Longrightarrow> buffer.offers (pb_istream_from_buffer (xs @ ys) n) xs ys"
  by (auto simp: buffer.offers_def pb_istream_from_buffer_def)

section \<open>What writers rely on\<close>

text \<open>
  \<open>wrote c xs c'\<close>: \<open>c'\<close> is \<open>c\<close> after writing \<open>xs\<close>. A sink takes what there is room for.
\<close>

locale byte_sink =
  fixes wrote :: "'s sink \<Rightarrow> bytes \<Rightarrow> 's sink \<Rightarrow> bool" and room :: "'s sink \<Rightarrow> nat"
  assumes accept: "c \<noteq> Sizing \<Longrightarrow> xs \<noteq> [] \<Longrightarrow> length xs \<le> room c \<Longrightarrow> \<exists>c'. put xs c = (True, c') \<and> wrote c xs c'"
    and wrote_Nil: "wrote c [] c"
    and wrote_append: "wrote c xs c' \<Longrightarrow> wrote c' ys c'' \<Longrightarrow> wrote c (xs @ ys) c''"
    and wrote_room: "wrote c xs c' \<Longrightarrow> room c = room c' + length xs"
    and wrote_kind: "wrote c xs c' \<Longrightarrow> c' = Sizing \<longleftrightarrow> c = Sizing"
begin

definition accepts :: "'s ostream \<Rightarrow> bool" where
  "accepts s \<longleftrightarrow> sink s \<noteq> Sizing \<and> bytes_written s \<le> max_size s \<and>
     unat (max_size s) \<le> unat (bytes_written s) + room (sink s)"

definition emits :: "('s ostream, 'a) op \<Rightarrow> bytes \<Rightarrow> bool" where
  "emits m xs \<longleftrightarrow>
     (\<forall>s. accepts s \<longrightarrow>
        (case m s of
           (None, s') \<Rightarrow> unat (max_size s) < unat (bytes_written s) + length xs
         | (Some _, s') \<Rightarrow> accepts s' \<and> wrote (sink s) xs (sink s') \<and> max_size s' = max_size s \<and>
             unat (bytes_written s') = unat (bytes_written s) + length xs)) \<and>
     (\<forall>s. sink s = Sizing \<longrightarrow>
        (\<exists>a. m s = (Some a, s\<lparr>bytes_written := bytes_written s + of_nat (length xs)\<rparr>)))"

lemma emits_full:
  "emits m xs \<Longrightarrow> accepts s \<Longrightarrow> m s = (None, s') \<Longrightarrow> unat (max_size s) < unat (bytes_written s) + length xs"
  unfolding emits_def by fastforce

lemma emits_done:
  assumes "emits m xs" and "accepts s" and "m s = (Some a, s')"
  shows "accepts s'" "wrote (sink s) xs (sink s')" "max_size s' = max_size s"
    "unat (bytes_written s') = unat (bytes_written s) + length xs"
  using assms unfolding emits_def by fastforce+

lemma emits_sizing:
  "emits m xs \<Longrightarrow> sink s = Sizing \<Longrightarrow> \<exists>a. m s = (Some a, s\<lparr>bytes_written := bytes_written s + of_nat (length xs)\<rparr>)"
  unfolding emits_def by blast

lemma emitsI:
  assumes "\<And>s s'. accepts s \<Longrightarrow> m s = (None, s') \<Longrightarrow> unat (max_size s) < unat (bytes_written s) + length xs"
    and "\<And>s a s'. accepts s \<Longrightarrow> m s = (Some a, s') \<Longrightarrow> accepts s' \<and> wrote (sink s) xs (sink s') \<and>
      max_size s' = max_size s \<and> unat (bytes_written s') = unat (bytes_written s) + length xs"
    and "\<And>s. sink s = Sizing \<Longrightarrow> \<exists>a. m s = (Some a, s\<lparr>bytes_written := bytes_written s + of_nat (length xs)\<rparr>)"
  shows "emits m xs"
  unfolding emits_def
proof (intro conjI allI impI)
  fix s
  assume "accepts s"
  then show "case m s of (None, s') \<Rightarrow> unat (max_size s) < unat (bytes_written s) + length xs
      | (Some a, s') \<Rightarrow> accepts s' \<and> wrote (sink s) xs (sink s') \<and> max_size s' = max_size s \<and>
          unat (bytes_written s') = unat (bytes_written s) + length xs"
    using assms(1,2) [of s] by (cases "m s"; cases "fst (m s)") auto
qed (rule assms(3))

lemma emits_succeed: "emits (succeed a) []"
  by (rule emitsI) (auto simp: wrote_Nil)

lemma emits_chk:
  assumes m: "emits m xs" and f: "\<And>a. emits (f a) ys"
  shows "emits (chk m f) (xs @ ys)"
proof (rule emitsI)
  fix s s'
  assume s: "accepts s" "chk m f s = (None, s')"
  show "unat (max_size s) < unat (bytes_written s) + length (xs @ ys)"
  proof (cases "m s")
    case (Pair r s1)
    show ?thesis
    proof (cases r)
      case None
      then show ?thesis using emits_full [OF m s(1)] Pair by fastforce
    next
      case (Some a)
      note d = emits_done [OF m s(1) Pair [unfolded Some]]
      have "f a s1 = (None, s')" using s(2) Pair Some by simp
      from emits_full [OF f d(1) this] d(3,4) show ?thesis by simp
    qed
  qed
next
  fix s b s'
  assume s: "accepts s" "chk m f s = (Some b, s')"
  then obtain a s1 where r: "m s = (Some a, s1)" "f a s1 = (Some b, s')" by (auto elim: chk_SomeE)
  note d = emits_done [OF m s(1) r(1)]
  note e = emits_done [OF f d(1) r(2)]
  show "accepts s' \<and> wrote (sink s) (xs @ ys) (sink s') \<and> max_size s' = max_size s \<and>
      unat (bytes_written s') = unat (bytes_written s) + length (xs @ ys)"
    using d e wrote_append by simp
next
  fix s :: "'s ostream"
  assume s: "sink s = Sizing"
  then obtain a where a: "m s = (Some a, s\<lparr>bytes_written := bytes_written s + of_nat (length xs)\<rparr>)"
    using emits_sizing [OF m] by blast
  have "sink (s\<lparr>bytes_written := bytes_written s + of_nat (length xs)\<rparr>) = Sizing" using s by simp
  from emits_sizing [OF f this, of a] a
  show "\<exists>b. chk m f s = (Some b, s\<lparr>bytes_written := bytes_written s + of_nat (length (xs @ ys))\<rparr>)"
    by (auto simp: add.assoc)
qed

lemma emits_write:
  assumes "length xs < 2 ^ 64"
  shows "emits (pb_write xs) xs"
proof (rule emitsI)
  have n: "unat (of_nat (length xs) :: size_t) = length xs" using assms by (rule unat_of_nat_size)
  let ?n = "of_nat (length xs) :: size_t"
  have fits: "\<not> (bytes_written s + ?n < bytes_written s \<or> bytes_written s + ?n > max_size s) \<longleftrightarrow>
      unat (bytes_written s) + length xs \<le> unat (max_size s)"
    if "bytes_written s \<le> max_size s" for s :: "'s ostream"
  proof -
    have "unat (bytes_written s) < 2 ^ 64" "unat (max_size s) < 2 ^ 64" using unat_lt_size_max by blast+
    then show ?thesis using n assms unfolding word_less_nat_alt unat_word_ariths by (auto simp: not_less mod_if)
  qed
  {
    fix s :: "'s ostream"
    assume a: "accepts s"
    have "unat (max_size s) < unat (bytes_written s) + length xs \<and> (\<exists>s'. pb_write xs s = (None, s')) \<or>
      (\<exists>s'. pb_write xs s = (Some (), s') \<and> accepts s' \<and> wrote (sink s) xs (sink s') \<and>
        max_size s' = max_size s \<and> unat (bytes_written s') = unat (bytes_written s) + length xs)"
    proof (cases "xs = []")
      case True
      then show ?thesis using a by (simp add: pb_write_def pb_write_n_def wrote_Nil)
    next
      case ne: False
      then have "?n > 0" using n by (auto simp: word_neq_0_conv [symmetric] simp flip: unat_eq_0)
      then have e: "pb_write xs s =
          (if bytes_written s + ?n < bytes_written s \<or> bytes_written s + ?n > max_size s then ostream_error ''stream full'' s
           else (case put xs (sink s) of
              (ok, c) \<Rightarrow>
                if \<not> ok then ostream_error ''io error'' (s\<lparr>sink := c\<rparr>)
                else (Some (), s\<lparr>sink := c, bytes_written := bytes_written s + ?n\<rparr>)))"
        using a n by (simp add: pb_write_def pb_write_n_def accepts_def)
      show ?thesis
      proof (cases "unat (bytes_written s) + length xs \<le> unat (max_size s)")
        case True
        then have le: "length xs \<le> room (sink s)" "sink s \<noteq> Sizing" using a by (auto simp: accepts_def)
        then obtain c where c: "put xs (sink s) = (True, c)" "wrote (sink s) xs c" using accept ne by blast
        have u: "unat (bytes_written s + ?n) = unat (bytes_written s) + length xs"
          using True n unat_lt_size_max [of "max_size s"] by (subst unat_add_lem [THEN iffD1]) simp_all
        have "pb_write xs s = (Some (), s\<lparr>sink := c, bytes_written := bytes_written s + ?n\<rparr>)"
          using e c(1) fits [of s] True a by (simp add: accepts_def)
        moreover have "accepts (s\<lparr>sink := c, bytes_written := bytes_written s + ?n\<rparr>)"
          using a True u wrote_room [OF c(2)] wrote_kind [OF c(2)] by (simp add: accepts_def word_le_nat_alt)
        ultimately show ?thesis using c(2) u by simp
      next
        case False
        then show ?thesis using e fits [of s] a by (auto simp: accepts_def ostream_error_def)
      qed
    qed
  }
  note w = this
  show "unat (max_size s) < unat (bytes_written s) + length xs" if "accepts s" "pb_write xs s = (None, s')" for s s'
    using w [OF that(1)] that(2) by auto
  show "accepts s' \<and> wrote (sink s) xs (sink s') \<and> max_size s' = max_size s \<and>
      unat (bytes_written s') = unat (bytes_written s) + length xs" if "accepts s" "pb_write xs s = (Some a, s')" for s a s'
    using w [OF that(1)] that(2) by auto
  show "\<exists>a. pb_write xs s = (Some a, s\<lparr>bytes_written := bytes_written s + ?n\<rparr>)" if "sink s = Sizing" for s :: "'s ostream"
    using that by (simp add: pb_write_def pb_write_n_def)
qed

end

text \<open>A memory block.\<close>

definition block_wrote :: "'s sink \<Rightarrow> bytes \<Rightarrow> 's sink \<Rightarrow> bool" where
  "block_wrote c xs c' \<longleftrightarrow>
     (xs = [] \<and> c' = c) \<or>
     (\<exists>b i. c = Block b i \<and> i + length xs \<le> length b \<and>
        c' = Block (take i b @ xs @ drop (i + length xs) b) (i + length xs))"

definition block_room :: "'s sink \<Rightarrow> nat" where
  "block_room c = (case c of Block b i \<Rightarrow> length b - i | _ \<Rightarrow> 0)"

lemma fits_room: "xs \<noteq> [] \<Longrightarrow> length xs \<le> a - b \<Longrightarrow> b + length xs \<le> a"
  by (cases xs) auto

interpretation block: byte_sink block_wrote block_room
proof unfold_locales
  fix c :: "'s sink" and xs :: bytes
  assume "c \<noteq> Sizing" "xs \<noteq> []" "length xs \<le> block_room c"
  then show "\<exists>c'. put xs c = (True, c') \<and> block_wrote c xs c'"
    by (cases c) (auto simp: block_room_def put_def buf_write_def block_wrote_def intro: fits_room)
next
  fix c c' c'' :: "'s sink" and xs ys :: bytes
  assume "block_wrote c xs c'" "block_wrote c' ys c''"
  then show "block_wrote c (xs @ ys) c''"
    by (auto simp: block_wrote_def min_absorb1 add.assoc add.commute [of "length ys"])
qed (auto simp: block_wrote_def block_room_def)

lemma block_run:
  assumes m: "block.emits m xs" and b: "length b = unat n"
  obtains (full) s' where "m (pb_ostream_from_buffer b n) = (None, s')" "length b < length xs"
  | (fits) a s' where "m (pb_ostream_from_buffer b n) = (Some a, s')" "length xs \<le> length b"
      "sink s' = Block (xs @ drop (length xs) b) (length xs)" "unat (bytes_written s') = length xs"
proof -
  let ?s = "pb_ostream_from_buffer b n"
  have ok: "block.accepts ?s" using b by (simp add: block.accepts_def pb_ostream_from_buffer_def block_room_def)
  obtain r s' where r: "m ?s = (r, s')" by (cases "m ?s")
  show thesis
  proof (cases r)
    case None
    with r block.emits_full [OF m ok] b show thesis
      by (intro full [of s']) (auto simp: pb_ostream_from_buffer_def)
  next
    case (Some a)
    note d = block.emits_done [OF m ok r [unfolded Some]]
    have "length xs \<le> length b"
      using d(1,3,4) b by (simp add: block.accepts_def pb_ostream_from_buffer_def word_le_nat_alt)
    then show thesis using r Some d(2,4)
      by (intro fits [of a s']) (auto simp: pb_ostream_from_buffer_def block_wrote_def)
  qed
qed

text \<open>A callback that appends to a byte vector, as a writer with \<open>max_size = SIZE_MAX\<close> does.\<close>

definition append_writer :: "bytes writer" where
  "append_writer src v = (True, v @ src)"

definition vector_wrote :: "bytes sink \<Rightarrow> bytes \<Rightarrow> bytes sink \<Rightarrow> bool" where
  "vector_wrote c xs c' \<longleftrightarrow>
     (xs = [] \<and> c' = c) \<or>
     (\<exists>v. c = Writer append_writer v \<and> length v + length xs \<le> unat SIZE_MAX \<and> c' = Writer append_writer (v @ xs))"

definition vector_room :: "bytes sink \<Rightarrow> nat" where
  "vector_room c = (case c of Writer f v \<Rightarrow> if f = append_writer then unat SIZE_MAX - length v else 0 | _ \<Rightarrow> 0)"

interpretation vector: byte_sink vector_wrote vector_room
proof unfold_locales
  fix c :: "bytes sink" and xs :: bytes
  assume "c \<noteq> Sizing" "xs \<noteq> []" "length xs \<le> vector_room c"
  then show "\<exists>c'. put xs c = (True, c') \<and> vector_wrote c xs c'"
    by (cases c) (auto simp: vector_room_def put_def append_writer_def vector_wrote_def split: if_splits intro: fits_room)
qed (auto simp: vector_wrote_def vector_room_def)

end
