(* ===== verification/Pb_Wire.thy ===== *)
theory Pb_Wire
  imports Pb_Stream
begin

text \<open>
  The protocol buffers wire format as nanopb writes (\<open>pb_encode.c\<close>) and reads it (\<open>pb_decode.c\<close>): varints,
  fixed-width values, tags, strings, the skipping of fields, and substreams.
\<close>

section \<open>Writing\<close>

text \<open>The loop that fills \<open>buffer\<close>, as the list of the octets stored.\<close>

function varint_buffer :: "u64 \<Rightarrow> bytes" where
  "varint_buffer val =
     (if val = 0 then [] else ucast ((val AND 0x7F) OR 0x80) # varint_buffer (drop_bit 7 val))"
  by pat_completeness auto
termination
proof (relation "measure unat")
  fix val :: u64
  assume "val \<noteq> 0"
  then have "0 < unat val" by (simp add: unat_gt_0)
  then show "(drop_bit 7 val, val) \<in> measure unat"
    by (simp add: unat_drop_bit_eq drop_bit_eq_div [where 'a = nat])
qed simp

declare varint_buffer.simps [simp del]

definition pb_encode_varint :: "u64 \<Rightarrow> ('s ostream, unit) op" where
  "pb_encode_varint val =
     (if val \<le> 0x7F then pb_write [ucast val]
      else
        (let buffer = varint_buffer val; i = length buffer in
         pb_write (buffer[i - 1 := buffer ! (i - 1) AND 0x7F])))"

text \<open>Signed arguments are words read as two's complement.\<close>

definition pb_encode_svarint :: "u64 \<Rightarrow> ('s ostream, unit) op" where
  "pb_encode_svarint val =
     (let zigzagged = (if sint val < 0 then NOT (push_bit 1 val) else push_bit 1 val)
      in pb_encode_varint zigzagged)"

definition pb_encode_fixed32 :: "u32 \<Rightarrow> ('s ostream, unit) op" where
  "pb_encode_fixed32 val =
     pb_write [ucast (val AND 0xFF), ucast (drop_bit 8 val AND 0xFF), ucast (drop_bit 16 val AND 0xFF),
       ucast (drop_bit 24 val AND 0xFF)]"

definition pb_encode_fixed64 :: "u64 \<Rightarrow> ('s ostream, unit) op" where
  "pb_encode_fixed64 val =
     pb_write [ucast (val AND 0xFF), ucast (drop_bit 8 val AND 0xFF), ucast (drop_bit 16 val AND 0xFF),
       ucast (drop_bit 24 val AND 0xFF), ucast (drop_bit 32 val AND 0xFF), ucast (drop_bit 40 val AND 0xFF),
       ucast (drop_bit 48 val AND 0xFF), ucast (drop_bit 56 val AND 0xFF)]"

definition PB_WT_VARINT :: u32 where "PB_WT_VARINT = 0"
definition PB_WT_64BIT :: u32 where "PB_WT_64BIT = 1"
definition PB_WT_STRING :: u32 where "PB_WT_STRING = 2"
definition PB_WT_32BIT :: u32 where "PB_WT_32BIT = 5"

lemmas wire_types = PB_WT_VARINT_def PB_WT_64BIT_def PB_WT_STRING_def PB_WT_32BIT_def

definition pb_encode_tag :: "u32 \<Rightarrow> u32 \<Rightarrow> ('s ostream, unit) op" where
  "pb_encode_tag wiretype field_number = pb_encode_varint (push_bit 3 (ucast field_number) OR ucast wiretype)"

definition pb_encode_string :: "bytes \<Rightarrow> size_t \<Rightarrow> ('s ostream, unit) op" where
  "pb_encode_string src sz = chk (pb_encode_varint sz) (\<lambda>_. pb_write_n src sz)"

section \<open>Reading\<close>

text \<open>Every octet read costs one of \<open>bytes_left\<close>.\<close>

lemma run_callback_left: "run_callback n s = (Some out, s') \<Longrightarrow> bytes_left s' = bytes_left s"
  by (auto simp: run_callback_def split: source.splits reading.splits prod.splits)

lemma readbyte_left:
  assumes "pb_readbyte s = (Some b, s')"
  shows "unat (bytes_left s') < unat (bytes_left s)"
proof -
  from assms have nz: "bytes_left s \<noteq> 0" and "bytes_left s' = bytes_left s - 1"
    by (auto simp: pb_readbyte_def istream_error_def dest: run_callback_left split: if_splits prod.splits option.splits)
  then show ?thesis by (simp add: unat_minus_one unat_gt_0)
qed

lemma read1_left:
  assumes "pb_read 1 s = (Some b, s')"
  shows "unat (bytes_left s') < unat (bytes_left s)"
proof -
  from assms have nz: "bytes_left s \<noteq> 0" and "bytes_left s' = bytes_left s - 1"
    by (auto simp: pb_read_def pb_read_direct_def istream_error_def dest: run_callback_left split: if_splits prod.splits option.splits)
  then show ?thesis by (simp add: unat_minus_one unat_gt_0)
qed

text \<open>
  The loop of \<open>pb_decode_varint32_eof\<close>. \<open>bitpos\<close> is a \<open>uint_fast8_t\<close>, of eight bits on the targets. The value is
  \<open>result\<close>, \<open>bitpos\<close> and \<open>byte\<close> after the loop.
\<close>

function varint32_loop :: "u8 \<Rightarrow> u32 \<Rightarrow> ('s istream, u32 \<times> u8 \<times> u8) op" where
  "varint32_loop bitpos result s =
     (case pb_readbyte s of
        (None, s) \<Rightarrow> (None, s)
      | (Some byte, s) \<Rightarrow>
          (let sign_extension = (if bitpos < 63 then 0xFF else 0x01 :: u8) in
           if bitpos \<ge> 32 \<and> byte AND 0x7F \<noteq> 0x00 \<and> (drop_bit 31 result = 0 \<or> byte \<noteq> sign_extension)
           then istream_error ''varint overflow'' s
           else
             (let result = (if bitpos \<ge> 32 then result else result OR push_bit (unat bitpos) (ucast (byte AND 0x7F)));
                  bitpos = bitpos + 7
              in if byte AND 0x80 \<noteq> 0 then varint32_loop bitpos result s else (Some (result, bitpos, byte), s))))"
  by pat_completeness auto
termination
  by (relation "measure (\<lambda>(bitpos, result, s). unat (bytes_left s))") (auto dest: readbyte_left [OF sym])

declare varint32_loop.simps [simp del]

text \<open>The second component is whether \<open>*eof\<close> is set.\<close>

definition pb_decode_varint32_eof :: "'s istream \<Rightarrow> (u32 option \<times> bool) \<times> 's istream" where
  "pb_decode_varint32_eof s =
     (case pb_readbyte s of
        (None, s) \<Rightarrow> ((None, bytes_left s = 0), s)
      | (Some byte, s) \<Rightarrow>
          if byte AND 0x80 = 0 then ((Some (ucast byte), False), s)
          else
            (case varint32_loop 7 (ucast (byte AND 0x7F)) s of
               (None, s) \<Rightarrow> ((None, False), s)
             | (Some (result, bitpos, byte), s) \<Rightarrow>
                 if bitpos = 35 \<and> byte AND 0x70 \<noteq> 0
                 then (case istream_error ''varint overflow'' s of (r, s) \<Rightarrow> ((r, False), s))
                 else ((Some result, False), s)))"

definition pb_decode_varint32 :: "('s istream, u32) op" where
  "pb_decode_varint32 s = (case pb_decode_varint32_eof s of ((r, _), s) \<Rightarrow> (r, s))"

function varint_loop :: "u8 \<Rightarrow> u64 \<Rightarrow> ('s istream, u64) op" where
  "varint_loop bitpos result s =
     (if bitpos \<ge> 64 then istream_error ''varint overflow'' s
      else
        (case pb_readbyte s of
           (None, s) \<Rightarrow> (None, s)
         | (Some byte, s) \<Rightarrow>
             (let result = result OR push_bit (unat bitpos) (ucast (byte AND 0x7F)); bitpos = bitpos + 7 in
              if byte AND 0x80 \<noteq> 0 then varint_loop bitpos result s else (Some result, s))))"
  by pat_completeness auto
termination
  by (relation "measure (\<lambda>(bitpos, result, s). unat (bytes_left s))") (auto dest: readbyte_left [OF sym])

declare varint_loop.simps [simp del]

definition pb_decode_varint :: "('s istream, u64) op" where
  "pb_decode_varint = varint_loop 0 0"

function pb_skip_varint :: "('s istream, unit) op" where
  "pb_skip_varint s =
     (case pb_read 1 s of
        (None, s) \<Rightarrow> (None, s)
      | (Some byte, s) \<Rightarrow> if hd byte AND 0x80 \<noteq> 0 then pb_skip_varint s else (Some (), s))"
  by pat_completeness auto
termination
  by (relation "measure (\<lambda>s. unat (bytes_left s))") (auto dest: read1_left [OF sym])

declare pb_skip_varint.simps [simp del]

definition pb_skip_string :: "('s istream, unit) op" where
  "pb_skip_string = chk pb_decode_varint32 (\<lambda>len. pb_skip (ucast len))"

text \<open>The value is \<open>*wire_type\<close> and \<open>*tag\<close>, which are 0 on failure, and \<open>*eof\<close>.\<close>

definition pb_decode_tag :: "'s istream \<Rightarrow> ((u32 \<times> u32) option \<times> bool) \<times> 's istream" where
  "pb_decode_tag s =
     (case pb_decode_varint32_eof s of
        ((None, eof), s) \<Rightarrow> ((None, eof), s)
      | ((Some temp, eof), s) \<Rightarrow>
          if temp = 0 then ((None, True), s)
          else ((Some (temp AND 7, drop_bit 3 temp), eof), s))"

definition pb_skip_field :: "u32 \<Rightarrow> ('s istream, unit) op" where
  "pb_skip_field wire_type =
     (if wire_type = PB_WT_VARINT then pb_skip_varint
      else if wire_type = PB_WT_64BIT then pb_skip 8
      else if wire_type = PB_WT_STRING then pb_skip_string
      else if wire_type = PB_WT_32BIT then pb_skip 4
      else istream_error ''invalid wire_type'')"

text \<open>\<open>read_raw_value\<close>: what lands in \<open>buf\<close>, at most \<open>max_size\<close> (here \<open>limit\<close>) octets; its length is \<open>*size\<close>.\<close>

function raw_varint :: "size_t \<Rightarrow> size_t \<Rightarrow> ('s istream, bytes) op" where
  "raw_varint limit sz s =
     (if sz + 1 > limit then (None, s)
      else
        (case pb_read 1 s of
           (None, s) \<Rightarrow> (None, s)
         | (Some byte, s) \<Rightarrow>
             if hd byte AND 0x80 \<noteq> 0 then chk (raw_varint limit (sz + 1)) (\<lambda>rest. succeed (hd byte # rest)) s
             else (Some [hd byte], s)))"
  by pat_completeness auto
termination
  by (relation "measure (\<lambda>(m, sz, s). unat (bytes_left s))") (auto dest: read1_left [OF sym])

declare raw_varint.simps [simp del]

definition read_raw_value :: "u32 \<Rightarrow> size_t \<Rightarrow> ('s istream, bytes) op" where
  "read_raw_value wire_type sz =
     (if wire_type = PB_WT_VARINT then raw_varint sz 0
      else if wire_type = PB_WT_64BIT then pb_read 8
      else if wire_type = PB_WT_32BIT then pb_read 4
      else istream_error ''invalid wire_type'')"

definition pb_make_string_substream :: "('s istream, 's istream) op" where
  "pb_make_string_substream =
     chk pb_decode_varint32 (\<lambda>sz stream.
       let substream = stream in
       if bytes_left substream < ucast sz then istream_error ''parent stream too short'' stream
       else (Some (substream\<lparr>bytes_left := ucast sz\<rparr>), stream\<lparr>bytes_left := bytes_left stream - ucast sz\<rparr>))"

text \<open>The result also holds the substream as it is left.\<close>

definition pb_close_string_substream :: "'s istream \<Rightarrow> 's istream \<Rightarrow> bool \<times> 's istream \<times> 's istream" where
  "pb_close_string_substream stream substream =
     (case (if bytes_left substream \<noteq> 0 then pb_skip (bytes_left substream) substream else (Some (), substream)) of
        (None, substream) \<Rightarrow> (False, stream, substream)
      | (Some _, substream) \<Rightarrow>
          (True, stream\<lparr>source := source substream, errmsg := errmsg substream\<rparr>, substream))"

definition pb_decode_svarint :: "('s istream, u64) op" where
  "pb_decode_svarint =
     chk pb_decode_varint (\<lambda>val.
       succeed (if val AND 1 \<noteq> 0 then NOT (drop_bit 1 val) else drop_bit 1 val))"

definition pb_decode_fixed32 :: "('s istream, u32) op" where
  "pb_decode_fixed32 =
     chk (pb_read 4) (\<lambda>bytes.
       succeed (push_bit 0 (ucast (bytes ! 0)) OR push_bit 8 (ucast (bytes ! 1)) OR
         push_bit 16 (ucast (bytes ! 2)) OR push_bit 24 (ucast (bytes ! 3))))"

definition pb_decode_fixed64 :: "('s istream, u64) op" where
  "pb_decode_fixed64 =
     chk (pb_read 8) (\<lambda>bytes.
       succeed (push_bit 0 (ucast (bytes ! 0)) OR push_bit 8 (ucast (bytes ! 1)) OR
         push_bit 16 (ucast (bytes ! 2)) OR push_bit 24 (ucast (bytes ! 3)) OR
         push_bit 32 (ucast (bytes ! 4)) OR push_bit 40 (ucast (bytes ! 5)) OR
         push_bit 48 (ucast (bytes ! 6)) OR push_bit 56 (ucast (bytes ! 7))))"

definition pb_dec_bool :: "('s istream, bool) op" where
  "pb_dec_bool = chk pb_decode_varint32 (\<lambda>val. succeed (val \<noteq> 0))"

definition pb_decode_bool :: "('s istream, bool) op" where
  "pb_decode_bool = pb_dec_bool"

section \<open>The format\<close>

fun varint :: "nat \<Rightarrow> bytes" where
  "varint n = (if n < 128 then [of_nat n] else of_nat (n mod 128 + 128) # varint (n div 128))"

declare varint.simps [simp del]

lemma varint_small: "n < 128 \<Longrightarrow> varint n = [of_nat n]"
  by (simp add: varint.simps)

lemma varint_big: "\<not> n < 128 \<Longrightarrow> varint n = of_nat (n mod 128 + 128) # varint (n div 128)"
  by (subst varint.simps) simp

lemma varint_length: "n < 2 ^ (7 * Suc k) \<Longrightarrow> length (varint n) \<le> Suc k"
proof (induction k arbitrary: n)
  case (Suc k)
  then have "n div 128 < 2 ^ (7 * Suc k)" by (simp add: power_add less_mult_imp_div_less)
  with Suc.IH [of "n div 128"] show ?case by (cases "n < 128") (simp_all add: varint_small varint_big)
qed (simp add: varint_small)

lemma varint_length_u64: "length (varint (unat (v :: u64))) \<le> 10"
  using varint_length [of "unat v" 9] unat_lt_size_max [of v] by simp

text \<open>The octets of the loop, and the last one with its top bit cleared.\<close>

lemma unat_and_7f_u64: "unat ((v :: u64) AND 0x7F) = unat v mod 128"
proof -
  have "v AND 0x7F = take_bit 7 v" by (simp add: take_bit_eq_mask mask_eq_exp_minus_1)
  then show ?thesis by (simp add: unat_take_bit)
qed

lemma unat_drop_7: "unat (drop_bit 7 (v :: u64)) = unat v div 128"
  by (simp add: unat_drop_bit)

lemma unat_octet: "unat (ucast (v AND 0x7F) :: u8) = unat (v :: u64) mod 128"
proof -
  have "unat v mod 128 < 256" by (rule order.strict_trans [of _ 128]) simp_all
  then show ?thesis by (simp only: unsigned_ucast_eq unat_and_7f_u64 take_bit_nat_eq_self) (simp add: take_bit_eq_mod)
qed

lemma varint_octet: "ucast ((v AND 0x7F) OR 0x80) = (of_nat (unat (v :: u64) mod 128 + 128) :: u8)"
proof -
  have "ucast ((v AND 0x7F) OR 0x80) = (ucast (v AND 0x7F) OR 0x80 :: u8)" by (simp add: unsigned_or_eq)
  moreover have "unat (ucast (v AND 0x7F) OR 0x80 :: u8) = unat v mod 128 + 128"
    unfolding unat_or_80 unat_octet by simp
  moreover have "unat v mod 128 + 128 < 256" by (simp add: add_strict_right_mono)
  ultimately show ?thesis by (simp only: word_unat_eq_iff unat_of_nat) simp
qed

lemma octet_last: "n < 128 \<Longrightarrow> of_nat (n + 128) AND 0x7F = (of_nat n :: u8)"
  by (simp only: word_unat_eq_iff unat_and_7f unat_of_nat) simp

lemma varint_buffer_ends:
  assumes "v \<noteq> 0"
  shows "(varint_buffer v)[length (varint_buffer v) - 1 := varint_buffer v ! (length (varint_buffer v) - 1) AND 0x7F] =
    varint (unat v)"
  using assms
proof (induction v rule: varint_buffer.induct)
  case (1 v)
  let ?x = "of_nat (unat v mod 128 + 128) :: u8"
  have b: "varint_buffer v = ?x # varint_buffer (drop_bit 7 v)"
    using "1.prems" by (subst varint_buffer.simps) (simp add: varint_octet)
  show ?case
  proof (cases "unat v < 128")
    case True
    then have "drop_bit 7 v = 0" by (simp add: word_unat_eq_iff unat_drop_7)
    then have "varint_buffer v = [?x]" using b by (simp add: varint_buffer.simps [of 0])
    moreover have "?x AND 0x7F = of_nat (unat v)"
      using octet_last [OF True] True by (simp only: mod_less)
    ultimately show ?thesis using True by (simp add: varint_small)
  next
    case False
    then have nz: "drop_bit 7 v \<noteq> 0" by (simp add: word_unat_eq_iff unat_drop_7)
    then have "varint_buffer (drop_bit 7 v) \<noteq> []" by (subst varint_buffer.simps) simp
    then have "(varint_buffer v)[length (varint_buffer v) - 1 := varint_buffer v ! (length (varint_buffer v) - 1) AND 0x7F] =
        ?x # (varint_buffer (drop_bit 7 v))[length (varint_buffer (drop_bit 7 v)) - 1 :=
          varint_buffer (drop_bit 7 v) ! (length (varint_buffer (drop_bit 7 v)) - 1) AND 0x7F]"
      unfolding b by (cases "varint_buffer (drop_bit 7 v)") simp_all
    then show ?thesis using "1.IH" [OF "1.prems" nz] False by (simp add: varint_big unat_drop_7)
  qed
qed

section \<open>What the writers emit\<close>

context byte_sink
begin

lemma emits_varint: "emits (pb_encode_varint v) (varint (unat v))"
proof (cases "v \<le> 0x7F")
  case True
  then have lt: "unat v < 128" by (simp add: word_le_nat_alt)
  have "emits (pb_write [ucast v]) [ucast v]" by (rule emits_write) simp
  then show ?thesis using True unfolding varint_small [OF lt] pb_encode_varint_def by simp
next
  case False
  then have "v \<noteq> 0" by auto
  have "length (varint (unat v)) < 2 ^ 64" using varint_length_u64 [of v] by simp
  then have "emits (pb_write (varint (unat v))) (varint (unat v))" by (rule emits_write)
  then show ?thesis unfolding pb_encode_varint_def Let_def varint_buffer_ends [OF \<open>v \<noteq> 0\<close>] using False by simp
qed

end

section \<open>What the readers take\<close>

text \<open>The octets of a varint, as the loops see them.\<close>

lemma octet_flags:
  "n < 128 \<Longrightarrow> (of_nat n :: u8) AND 0x80 = 0"
  "n < 128 \<Longrightarrow> (of_nat (n + 128) :: u8) AND 0x80 \<noteq> 0"
  by (simp_all only: and_80_eq_0 unat_of_nat) simp_all

lemma octet_bits:
  fixes w :: "'a::len word"
  assumes "8 \<le> LENGTH('a)"
  shows "n < 128 \<Longrightarrow> ucast ((of_nat n :: u8) AND 0x7F) = (of_nat n :: 'a word)"
    "n < 128 \<Longrightarrow> ucast ((of_nat (n + 128) :: u8) AND 0x7F) = (of_nat n :: 'a word)"
proof -
  show "ucast ((of_nat n :: u8) AND 0x7F) = (of_nat n :: 'a word)" if "n < 128"
  proof -
    have "unat ((of_nat n :: u8) AND 0x7F) = n" using that by (simp only: unat_and_7f unat_of_nat) simp
    then show ?thesis by (metis of_nat_unat unsigned_of_nat)
  qed
  show "ucast ((of_nat (n + 128) :: u8) AND 0x7F) = (of_nat n :: 'a word)" if "n < 128"
  proof -
    have "unat ((of_nat (n + 128) :: u8) AND 0x7F) = n" using that by (simp only: unat_and_7f unat_of_nat) simp
    then show ?thesis by (metis of_nat_unat unsigned_of_nat)
  qed
qed

lemma word_groups:
  "push_bit b (of_nat n :: 'a::len word) = push_bit b (of_nat (n mod 128)) OR push_bit (b + 7) (of_nat (n div 128))"
proof -
  have "n mod 128 = take_bit 7 n" "n div 128 = drop_bit 7 n" by (simp_all add: take_bit_eq_mod drop_bit_eq_div)
  note groups = this
  have key: "7 + (k - (b + 7)) = k - b" if "\<not> k - b < 7" for k using that by simp
  from groups show ?thesis by (intro bit_word_eqI) (auto simp: bit_simps, metis key)
qed

context byte_source
begin

definition reads :: "('s istream, 'a) op \<Rightarrow> bytes \<Rightarrow> 'a \<Rightarrow> bool" where
  "reads m xs a \<longleftrightarrow>
     (\<forall>s ys zs. offers s (xs @ ys) zs \<longrightarrow> (\<exists>s'. m s = (Some a, s') \<and> offers s' ys zs \<and> errmsg s' = errmsg s))"

lemma readsD:
  "reads m xs a \<Longrightarrow> offers s (xs @ ys) zs \<Longrightarrow> \<exists>s'. m s = (Some a, s') \<and> offers s' ys zs \<and> errmsg s' = errmsg s"
  unfolding reads_def by blast

lemma reads_succeed: "reads (succeed a) [] a"
  by (simp add: reads_def)

lemma reads_chk: "reads m xs a \<Longrightarrow> reads (f a) ys b \<Longrightarrow> reads (chk m f) (xs @ ys) b"
  unfolding reads_def
proof (intro allI impI)
  fix s us zs
  assume m: "\<forall>s ys zs. offers s (xs @ ys) zs \<longrightarrow> (\<exists>s'. m s = (Some a, s') \<and> offers s' ys zs \<and> errmsg s' = errmsg s)"
    and f: "\<forall>s us zs. offers s (ys @ us) zs \<longrightarrow> (\<exists>s'. f a s = (Some b, s') \<and> offers s' us zs \<and> errmsg s' = errmsg s)"
    and s: "offers s ((xs @ ys) @ us) zs"
  from m [rule_format, of s "ys @ us" zs] s obtain s1 where s1: "m s = (Some a, s1)" "offers s1 (ys @ us) zs" "errmsg s1 = errmsg s"
    by auto
  from f [rule_format, OF s1(2)] s1 show "\<exists>s'. chk m f s = (Some b, s') \<and> offers s' us zs \<and> errmsg s' = errmsg s" by auto
qed

lemma reads_then: "reads m xs a \<Longrightarrow> f a = succeed b \<Longrightarrow> reads (chk m f) xs b"
proof -
  assume m: "reads m xs a" and f: "f a = succeed b"
  have "reads (f a) [] b" unfolding f by (rule reads_succeed)
  from reads_chk [of m xs a f "[]" b, OF m this] show ?thesis by (simp only: append_Nil2)
qed

lemma reads_bytes: "reads (pb_read (of_nat (length xs))) xs xs" if "length xs < 2 ^ 64"
  using that read_direct_offers [of _ "xs @ _" _ "of_nat (length xs)"]
  by (force simp: reads_def pb_read_def unat_of_nat_size)

lemma reads_skip: "reads (pb_skip (of_nat (length xs))) xs ()" if "length xs < 2 ^ 64"
  using that skip_offers [of _ "xs @ _" _ "of_nat (length xs)"]
  by (force simp: reads_def unat_of_nat_size)

text \<open>The 64-bit loop.\<close>

lemma reads_varint_loop:
  "n * 2 ^ b < 2 ^ 64 \<Longrightarrow> b < 64 \<Longrightarrow> reads (varint_loop (of_nat b) r) (varint n) (r OR push_bit b (of_nat n))"
proof (induction n arbitrary: b r rule: varint.induct)
  case (1 n)
  have b: "unat (of_nat b :: u8) = b" using "1.prems"(2) by (simp add: unat_of_nat)
  then have lt: "\<not> (of_nat b :: u8) \<ge> 64" using "1.prems"(2) by (simp add: word_le_nat_alt)
  have b7: "of_nat b + 7 = (of_nat (b + 7) :: u8)" by simp
  show ?case
  proof (cases "n < 128")
    case True
    show ?thesis
      unfolding reads_def
    proof (intro allI impI)
      fix s ys zs
      assume "offers s (varint n @ ys) zs"
      then have "offers s (of_nat n # ys) zs" using True by (simp add: varint_small)
      from readbyte_offers [OF this] obtain s' where "pb_readbyte s = (Some (of_nat n), s')" "offers s' ys zs" "errmsg s' = errmsg s"
        by blast
      then show "\<exists>s'. varint_loop (of_nat b) r s = (Some (r OR push_bit b (of_nat n)), s') \<and> offers s' ys zs \<and> errmsg s' = errmsg s"
        using lt octet_flags(1) [OF True] octet_bits(1) [OF _ True, where 'a = 64] b
        by (subst varint_loop.simps) simp
    qed
  next
    case False
    have m: "n mod 128 < 128" by simp
    have "2 ^ (b + 7) \<le> n * 2 ^ b" using False by (simp add: power_add)
    then have "(2 :: nat) ^ (b + 7) < 2 ^ 64" using "1.prems"(1) by linarith
    then have b64: "b + 7 < 64" by (metis nat_power_less_imp_less zero_less_numeral)
    have "n div 128 * 2 ^ (b + 7) \<le> n * 2 ^ b" using div_times_less_eq_dividend [of n 128] by (simp add: power_add)
    then have "n div 128 * 2 ^ (b + 7) < 2 ^ 64" using "1.prems"(1) by linarith
    note IH = "1.IH" [OF False this b64, of "r OR push_bit b (of_nat (n mod 128))"]
    have e: "r OR push_bit b (of_nat n) = (r OR push_bit b (of_nat (n mod 128))) OR push_bit (b + 7) (of_nat (n div 128) :: u64)"
      using word_groups [of b n, where 'a = 64] by (simp only: or.assoc)
    show ?thesis
      unfolding reads_def
    proof (intro allI impI)
      fix s ys zs
      assume "offers s (varint n @ ys) zs"
      then have "offers s (of_nat (n mod 128 + 128) # varint (n div 128) @ ys) zs" using False by (simp add: varint_big)
      from readbyte_offers [OF this] obtain s' where s': "pb_readbyte s = (Some (of_nat (n mod 128 + 128)), s')"
        "offers s' (varint (n div 128) @ ys) zs" "errmsg s' = errmsg s" by blast
      have "varint_loop (of_nat b) r s = varint_loop (of_nat (b + 7)) (r OR push_bit b (of_nat (n mod 128))) s'"
        using s'(1) lt octet_flags(2) [OF m] octet_bits(2) [OF _ m, where 'a = 64] b unfolding b7 [symmetric]
        by (subst varint_loop.simps) simp
      with readsD [OF IH s'(2)] s'(3) show
        "\<exists>s'. varint_loop (of_nat b) r s = (Some (r OR push_bit b (of_nat n)), s') \<and> offers s' ys zs \<and> errmsg s' = errmsg s"
        unfolding e by auto
    qed
  qed
qed

lemma reads_varint: "reads pb_decode_varint (varint (unat v)) v"
proof -
  have "unat v * 2 ^ 0 < 2 ^ 64" using unat_lt_size_max [of v] by simp
  from reads_varint_loop [OF this, of 0] show ?thesis by (simp add: pb_decode_varint_def)
qed

end

section \<open>Fixed-width values\<close>

lemma split_octet:
  assumes "m = k + 8"
  shows "drop_bit k w = take_bit 8 (drop_bit k w) OR push_bit 8 (drop_bit m (w :: 'a::len word))"
proof -
  have "x = take_bit 8 x OR push_bit 8 (drop_bit 8 x)" for x :: "'a word"
    by (rule bit_word_eqI) (auto simp: bit_simps, metis le_add_diff_inverse not_less)
  from this [of "drop_bit k w"] assms show ?thesis by (simp add: drop_bit_drop_bit add.commute)
qed

lemma octet_chain:
  fixes v :: "'a::len word"
  assumes "v = t0 OR push_bit 8 d1" "d1 = t1 OR push_bit 8 d2" "d2 = t2 OR push_bit 8 d3" "d3 = t3 OR push_bit 8 d4"
  shows "v = t0 OR push_bit 8 t1 OR push_bit 16 t2 OR push_bit 24 t3 OR push_bit 32 d4"
  unfolding assms by (simp add: push_bit_or or.assoc)

lemma octets32: "take_bit 8 v OR push_bit 8 (take_bit 8 (drop_bit 8 v)) OR push_bit 16 (take_bit 8 (drop_bit 16 v)) OR
  push_bit 24 (take_bit 8 (drop_bit 24 v)) = (v :: u32)"
proof -
  have "v = take_bit 8 v OR push_bit 8 (drop_bit 8 v)" using split_octet [of 8 0 v] by simp
  from octet_chain [OF this split_octet [of 16 8 v] split_octet [of 24 16 v] split_octet [of 32 24 v]] show ?thesis by simp
qed

lemma octets64: "take_bit 8 v OR push_bit 8 (take_bit 8 (drop_bit 8 v)) OR push_bit 16 (take_bit 8 (drop_bit 16 v)) OR
  push_bit 24 (take_bit 8 (drop_bit 24 v)) OR push_bit 32 (take_bit 8 (drop_bit 32 v)) OR push_bit 40 (take_bit 8 (drop_bit 40 v)) OR
  push_bit 48 (take_bit 8 (drop_bit 48 v)) OR push_bit 56 (take_bit 8 (drop_bit 56 v)) = (v :: u64)"
proof -
  have s: "drop_bit (8 * j) v = take_bit 8 (drop_bit (8 * j) v) OR push_bit 8 (drop_bit (8 * j + 8) v)" for j
    by (rule split_octet) simp
  have e: "v = take_bit 8 v OR push_bit 8 (take_bit 8 (drop_bit 8 v)) OR push_bit 16 (take_bit 8 (drop_bit 16 v)) OR
      push_bit 24 (take_bit 8 (drop_bit 24 v)) OR push_bit 32 (drop_bit 32 v)"
    by (rule octet_chain) (use s [of 0] s [of 1] s [of 2] s [of 3] in simp_all)
  have "drop_bit 32 v = take_bit 8 (drop_bit 32 v) OR push_bit 8 (take_bit 8 (drop_bit 40 v)) OR
      push_bit 16 (take_bit 8 (drop_bit 48 v)) OR push_bit 24 (take_bit 8 (drop_bit 56 v)) OR push_bit 32 (drop_bit 64 v)"
    by (rule octet_chain) (use s [of 4] s [of 5] s [of 6] s [of 7] in simp_all)
  then have "push_bit 32 (drop_bit 32 v) = push_bit 32 (take_bit 8 (drop_bit 32 v) OR push_bit 8 (take_bit 8 (drop_bit 40 v)) OR
      push_bit 16 (take_bit 8 (drop_bit 48 v)) OR push_bit 24 (take_bit 8 (drop_bit 56 v)))"
    by simp
  then show ?thesis by (subst (9) e) (simp add: push_bit_or or.assoc)
qed

lemma octet_of: "ucast (ucast (w AND 0xFF) :: u8) = take_bit 8 (w :: u32)" "ucast (ucast (x AND 0xFF) :: u8) = take_bit 8 (x :: u64)"
proof -
  have "w AND 0xFF = take_bit 8 w" "x AND 0xFF = take_bit 8 x" by (simp_all add: take_bit_eq_mask mask_eq_exp_minus_1)
  then show "ucast (ucast (w AND 0xFF) :: u8) = take_bit 8 w" "ucast (ucast (x AND 0xFF) :: u8) = take_bit 8 x"
    by (simp_all only:) (rule bit_word_eqI, auto simp: bit_simps)+
qed

definition le_octets :: "nat \<Rightarrow> 'a::len word \<Rightarrow> bytes" where
  "le_octets k w = map (\<lambda>i. ucast (drop_bit (8 * i) w AND 0xFF)) [0..<k]"

lemma upt_4_8: "[0..<4] = [0, 1, 2, 3]" "[0..<8] = [0, 1, 2, 3, 4, 5, 6, 7]"
  by (simp_all add: upt_rec)

lemma le_octets_4: "le_octets 4 w = [ucast (w AND 0xFF), ucast (drop_bit 8 w AND 0xFF), ucast (drop_bit 16 w AND 0xFF),
    ucast (drop_bit 24 w AND 0xFF)]"
  by (simp add: le_octets_def upt_4_8)

lemma le_octets_8: "le_octets 8 w = [ucast (w AND 0xFF), ucast (drop_bit 8 w AND 0xFF), ucast (drop_bit 16 w AND 0xFF),
    ucast (drop_bit 24 w AND 0xFF), ucast (drop_bit 32 w AND 0xFF), ucast (drop_bit 40 w AND 0xFF),
    ucast (drop_bit 48 w AND 0xFF), ucast (drop_bit 56 w AND 0xFF)]"
  by (simp add: le_octets_def upt_4_8)

context byte_sink
begin

lemma emits_fixed32: "emits (pb_encode_fixed32 v) (le_octets 4 v)"
  unfolding pb_encode_fixed32_def le_octets_4 by (rule emits_write) simp

lemma emits_fixed64: "emits (pb_encode_fixed64 v) (le_octets 8 v)"
  unfolding pb_encode_fixed64_def le_octets_8 by (rule emits_write) simp

lemma emits_string: "length xs < 2 ^ 64 \<Longrightarrow> emits (pb_encode_string xs (of_nat (length xs))) (varint (length xs) @ xs)"
  using emits_chk [OF emits_varint emits_write, of xs "of_nat (length xs)"]
  by (simp add: pb_encode_string_def pb_write_def unat_of_nat_size)

end

context byte_source
begin

lemma reads_fixed32: "reads pb_decode_fixed32 (le_octets 4 v) v"
proof -
  have "reads (pb_read 4) (le_octets 4 v) (le_octets 4 v)" using reads_bytes [of "le_octets 4 v"] by (simp add: le_octets_4)
  then show ?thesis unfolding pb_decode_fixed32_def
    by (rule reads_then) (simp add: le_octets_4 octet_of octets32)
qed

lemma reads_fixed64: "reads pb_decode_fixed64 (le_octets 8 v) v"
proof -
  have "reads (pb_read 8) (le_octets 8 v) (le_octets 8 v)" using reads_bytes [of "le_octets 8 v"] by (simp add: le_octets_8)
  then show ?thesis unfolding pb_decode_fixed64_def
    by (rule reads_then) (simp add: le_octets_8 octet_of octets64)
qed

end

text \<open>Zigzag.\<close>

definition zigzag :: "u64 \<Rightarrow> u64" where
  "zigzag v = (if sint v < 0 then NOT (push_bit 1 v) else push_bit 1 v)"

lemma shift_low: "0 < k \<Longrightarrow> \<not> bit (push_bit k (v :: u64)) 0" "0 < k \<Longrightarrow> bit (NOT (push_bit k (v :: u64))) 0"
  by (auto simp: bit_simps)

lemma shift_back:
  fixes v :: "'a::len word"
  shows "\<forall>n. bit v n \<longrightarrow> n + k < LENGTH('a) \<Longrightarrow> drop_bit k (push_bit k v) = v"
    and "\<forall>n < LENGTH('a). \<not> bit v n \<longrightarrow> n + k < LENGTH('a) \<Longrightarrow> NOT (drop_bit k (NOT (push_bit k v))) = v"
  by (rule bit_word_eqI, auto simp: bit_simps add.commute)+

lemma zigzag_low: "zigzag v AND 1 \<noteq> 0 \<longleftrightarrow> sint v < 0"
proof -
  have "w AND 1 \<noteq> 0 \<longleftrightarrow> bit w 0" for w :: u64 by (simp add: and_one_eq odd_iff_mod_2_eq_one bit_0)
  with shift_low [of 1 v] show ?thesis unfolding zigzag_def by (cases "sint v < 0") (simp_all only: if_True if_False zero_less_one)
qed

lemma zigzag_back: "(if zigzag v AND 1 \<noteq> 0 then NOT (drop_bit 1 (zigzag v)) else drop_bit 1 (zigzag v)) = v"
proof -
  have len: "LENGTH(64) = 64" by simp
  have sign: "bit v 63 \<longleftrightarrow> sint v < 0" using bit_last_iff [of v] by simp
  have top: "n + 1 < 64" if "n \<noteq> 63" "n < 64" for n :: nat using that by simp
  have lt: "bit v n \<Longrightarrow> n < 64" for n using bit_imp_le_length [of v n] by simp
  show ?thesis
  proof (cases "sint v < 0")
    case True
    then have "\<forall>n < LENGTH(64). \<not> bit v n \<longrightarrow> n + 1 < LENGTH(64)" using sign top unfolding len by metis
    from shift_back(2) [OF this] True show ?thesis unfolding zigzag_low by (simp only: zigzag_def if_True)
  next
    case False
    then have "\<forall>n. bit v n \<longrightarrow> n + 1 < LENGTH(64)" using sign top lt unfolding len by metis
    from shift_back(1) [OF this] False show ?thesis unfolding zigzag_low by (simp only: zigzag_def if_False)
  qed
qed

context byte_sink
begin

lemma emits_svarint: "emits (pb_encode_svarint v) (varint (unat (zigzag v)))"
  using emits_varint [of "zigzag v"] by (simp only: pb_encode_svarint_def zigzag_def Let_def)

end

context byte_source
begin

lemma reads_svarint: "reads pb_decode_svarint (varint (unat (zigzag v))) v"
  unfolding pb_decode_svarint_def
  by (rule reads_then [OF reads_varint]) (simp only: zigzag_back)

end

section \<open>The 32-bit reader\<close>

lemma bitpos_small: "b < 32 \<Longrightarrow> \<not> (of_nat b :: u8) \<ge> 32 \<and> unat (of_nat b :: u8) = b"
  by (simp add: word_le_nat_alt unat_of_nat)

lemma octet_top: "n < 16 \<Longrightarrow> (of_nat n :: u8) AND 0x70 = 0"
proof -
  assume "n < 16"
  then have "take_bit 4 n = n" by (simp add: take_bit_eq_mod)
  then have "\<not> bit n k" if "4 \<le> k" for k using that bit_take_bit_iff [of 4 n k] by simp
  then show ?thesis by (intro u8_eqI) (auto simp: bit_simps)
qed

context byte_source
begin

lemma reads_varint32_loop:
  "n * 2 ^ b < 2 ^ 32 \<Longrightarrow> b < 32 \<Longrightarrow>
   \<exists>bp x. reads (varint32_loop (of_nat b) r) (varint n) (r OR push_bit b (of_nat n), bp, x) \<and> (bp = 35 \<longrightarrow> x AND 0x70 = 0)"
proof (induction n arbitrary: b r rule: varint.induct)
  case (1 n)
  note bp = bitpos_small [OF "1.prems"(2)]
  have b7: "of_nat b + 7 = (of_nat (b + 7) :: u8)" by simp
  show ?case
  proof (cases "n < 128")
    case True
    have "n < 16" if "(of_nat b + 7 :: u8) = 35"
    proof -
      have "unat (of_nat b + 7 :: u8) = b + 7" using "1.prems"(2) unfolding b7 by (simp only: unat_of_nat) simp
      then have "b = 28" using that by simp
      then show ?thesis using "1.prems"(1) by simp
    qed
    then have top: "(of_nat b + 7 :: u8) = 35 \<longrightarrow> (of_nat n :: u8) AND 0x70 = 0" using octet_top by blast
    have "reads (varint32_loop (of_nat b) r) (varint n) (r OR push_bit b (of_nat n), of_nat b + 7, of_nat n)"
      unfolding reads_def
    proof (intro allI impI)
      fix s ys zs
      assume "offers s (varint n @ ys) zs"
      then have "offers s (of_nat n # ys) zs" using True by (simp add: varint_small)
      from readbyte_offers [OF this] obtain s' where "pb_readbyte s = (Some (of_nat n), s')" "offers s' ys zs" "errmsg s' = errmsg s"
        by blast
      then show "\<exists>s'. varint32_loop (of_nat b) r s = (Some (r OR push_bit b (of_nat n), of_nat b + 7, of_nat n), s') \<and>
          offers s' ys zs \<and> errmsg s' = errmsg s"
        using bp octet_flags(1) [OF True] octet_bits(1) [OF _ True, where 'a = 32]
        by (subst varint32_loop.simps) simp
    qed
    with top show ?thesis by blast
  next
    case False
    have m: "n mod 128 < 128" by simp
    have "2 ^ (b + 7) \<le> n * 2 ^ b" using False by (simp add: power_add)
    then have "(2 :: nat) ^ (b + 7) < 2 ^ 32" using "1.prems"(1) by linarith
    then have b32: "b + 7 < 32" by (metis nat_power_less_imp_less zero_less_numeral)
    have "n div 128 * 2 ^ (b + 7) \<le> n * 2 ^ b" using div_times_less_eq_dividend [of n 128] by (simp add: power_add)
    then have "n div 128 * 2 ^ (b + 7) < 2 ^ 32" using "1.prems"(1) by linarith
    from "1.IH" [OF False this b32, of "r OR push_bit b (of_nat (n mod 128))"] obtain bp' x where
      IH: "reads (varint32_loop (of_nat (b + 7)) (r OR push_bit b (of_nat (n mod 128)))) (varint (n div 128))
        ((r OR push_bit b (of_nat (n mod 128))) OR push_bit (b + 7) (of_nat (n div 128)), bp', x)"
      and x: "bp' = 35 \<longrightarrow> x AND 0x70 = 0" by blast
    have e: "(r OR push_bit b (of_nat (n mod 128))) OR push_bit (b + 7) (of_nat (n div 128) :: u32) = r OR push_bit b (of_nat n)"
      using word_groups [of b n, where 'a = 32] by (simp only: or.assoc)
    have "reads (varint32_loop (of_nat b) r) (varint n) (r OR push_bit b (of_nat n), bp', x)"
      unfolding reads_def
    proof (intro allI impI)
      fix s ys zs
      assume "offers s (varint n @ ys) zs"
      then have "offers s (of_nat (n mod 128 + 128) # varint (n div 128) @ ys) zs" using False by (simp add: varint_big)
      from readbyte_offers [OF this] obtain s' where s': "pb_readbyte s = (Some (of_nat (n mod 128 + 128)), s')"
        "offers s' (varint (n div 128) @ ys) zs" "errmsg s' = errmsg s" by blast
      have "varint32_loop (of_nat b) r s = varint32_loop (of_nat (b + 7)) (r OR push_bit b (of_nat (n mod 128))) s'"
        using s'(1) bp octet_flags(2) [OF m] octet_bits(2) [OF _ m, where 'a = 32] unfolding b7 [symmetric]
        by (subst varint32_loop.simps) simp
      with readsD [OF IH s'(2)] s'(3) show "\<exists>s'. varint32_loop (of_nat b) r s = (Some (r OR push_bit b (of_nat n), bp', x), s') \<and>
          offers s' ys zs \<and> errmsg s' = errmsg s"
        unfolding e by auto
    qed
    with x show ?thesis by blast
  qed
qed

lemma varint32_eof_offers:
  assumes n: "n < 2 ^ 32" and s: "offers s (varint n @ ys) zs"
  shows "\<exists>s'. pb_decode_varint32_eof s = ((Some (of_nat n), False), s') \<and> offers s' ys zs \<and> errmsg s' = errmsg s"
proof (cases "n < 128")
  case True
  then have "offers s (of_nat n # ys) zs" using s by (simp add: varint_small)
  from readbyte_offers [OF this] obtain s' where "pb_readbyte s = (Some (of_nat n), s')" "offers s' ys zs" "errmsg s' = errmsg s"
    by blast
  moreover have "ucast (of_nat n :: u8) = (of_nat n :: u32)" using True by (simp add: word_unat_eq_iff unat_ucast_up unat_of_nat)
  ultimately show ?thesis using octet_flags(1) [OF True] by (simp add: pb_decode_varint32_eof_def)
next
  case False
  have m: "n mod 128 < 128" by simp
  from False s have "offers s (of_nat (n mod 128 + 128) # varint (n div 128) @ ys) zs" by (simp add: varint_big)
  from readbyte_offers [OF this] obtain s1 where s1: "pb_readbyte s = (Some (of_nat (n mod 128 + 128)), s1)"
    "offers s1 (varint (n div 128) @ ys) zs" "errmsg s1 = errmsg s" by blast
  have "n div 128 * 2 ^ 7 \<le> n" using div_times_less_eq_dividend [of n 128] by simp
  then have "n div 128 * 2 ^ 7 < 2 ^ 32" using n by linarith
  from reads_varint32_loop [OF this, of "of_nat (n mod 128)"] obtain bp x where
    r: "reads (varint32_loop (of_nat 7) (of_nat (n mod 128))) (varint (n div 128))
      (of_nat (n mod 128) OR push_bit 7 (of_nat (n div 128)), bp, x)" and x: "bp = 35 \<longrightarrow> x AND 0x70 = 0" by auto
  have "of_nat (n mod 128) OR push_bit 7 (of_nat (n div 128)) = (of_nat n :: u32)"
    using word_groups [of 0 n, where 'a = 32] by simp
  with readsD [OF r s1(2)] obtain s2 where s2: "varint32_loop 7 (of_nat (n mod 128)) s1 = (Some (of_nat n, bp, x), s2)"
    "offers s2 ys zs" "errmsg s2 = errmsg s1" by auto
  have "pb_decode_varint32_eof s = ((Some (of_nat n), False), s2)"
    using s1(1) s2(1) octet_flags(2) [OF m] octet_bits(2) [OF _ m, where 'a = 32] x
    by (cases "bp = 35") (simp_all add: pb_decode_varint32_eof_def)
  with s1 s2 show ?thesis by simp
qed

lemma reads_varint32: "n < 2 ^ 32 \<Longrightarrow> reads pb_decode_varint32 (varint n) (of_nat n)"
  unfolding reads_def pb_decode_varint32_def using varint32_eof_offers by fastforce

end

section \<open>Tags, strings and whole fields\<close>

definition tag_number :: "u32 \<Rightarrow> u32 \<Rightarrow> nat" where
  "tag_number wire field = 8 * unat field + unat wire"

lemma tag_word:
  assumes "unat w < 8"
  shows "unat (push_bit 3 (ucast f) OR ucast w :: u64) = tag_number w f"
proof -
  have w: "unat (ucast w :: u64) = unat w" by (simp add: unat_ucast_up)
  have lt: "unat f < 2 ^ 32" using unsigned_less [of f, where 'a = nat] by simp
  have "\<not> (bit (push_bit 3 (ucast f :: u64)) k \<and> bit (ucast w :: u64) k)" for k
  proof (cases "k < 3")
    case False
    have "take_bit 3 (unat w) = unat w" using assms by (simp add: take_bit_eq_mod)
    then have "\<not> bit (unat w) k" using False bit_take_bit_iff [of 3 "unat w" k] by simp
    then show ?thesis by (simp add: bit_simps)
  qed (simp add: bit_simps)
  then have "push_bit 3 (ucast f) AND (ucast w :: u64) = 0" by (intro bit_word_eqI) (simp add: bit_simps)
  then have "push_bit 3 (ucast f) OR ucast w = (ucast f * 8 + ucast w :: u64)"
    by (simp add: disjunctive_add_eq_or [symmetric] push_bit_eq_mult)
  then show ?thesis using w lt assms by (simp add: unat_word_ariths unat_ucast_up tag_number_def)
qed

lemma wire_tag_parts:
  assumes "unat w < 8" and "unat f < 2 ^ 29"
  shows "(of_nat (tag_number w f) :: u32) AND 7 = w" "drop_bit 3 (of_nat (tag_number w f) :: u32) = f"
    "tag_number w f < 2 ^ 32"
proof -
  have lt: "8 * unat f + unat w < 2 ^ 32" using assms by simp
  then show "tag_number w f < 2 ^ 32" by (simp add: tag_number_def)
  have u: "unat (of_nat (tag_number w f) :: u32) = 8 * unat f + unat w"
    using lt by (simp only: unat_of_nat tag_number_def) simp
  have "(of_nat (tag_number w f) :: u32) AND 7 = take_bit 3 (of_nat (tag_number w f))"
    by (simp add: take_bit_eq_mask mask_eq_exp_minus_1)
  also have "unat \<dots> = unat w" unfolding unat_take_bit u using assms(1) by simp
  finally show "(of_nat (tag_number w f) :: u32) AND 7 = w" by (simp add: word_unat_eq_iff)
  have "unat (drop_bit 3 (of_nat (tag_number w f) :: u32)) = unat f"
    unfolding unat_drop_bit u using assms(1) by simp
  then show "drop_bit 3 (of_nat (tag_number w f) :: u32) = f" by (simp add: word_unat_eq_iff)
qed

context byte_sink
begin

lemma emits_tag: "unat w < 8 \<Longrightarrow> emits (pb_encode_tag w f) (varint (tag_number w f))"
  using emits_varint [of "push_bit 3 (ucast f) OR ucast w"] by (simp only: pb_encode_tag_def tag_word)

end

context byte_source
begin

lemma tag_offers:
  assumes w: "unat w < 8" and f: "unat f < 2 ^ 29" "f \<noteq> 0" and s: "offers s (varint (tag_number w f) @ ys) zs"
  shows "\<exists>s'. pb_decode_tag s = ((Some (w, f), False), s') \<and> offers s' ys zs \<and> errmsg s' = errmsg s"
proof -
  note parts = wire_tag_parts [OF w f(1)]
  obtain s' where s': "pb_decode_varint32_eof s = ((Some (of_nat (tag_number w f)), False), s')" "offers s' ys zs"
    "errmsg s' = errmsg s"
    using varint32_eof_offers [OF parts(3) s] by blast
  have "(of_nat (tag_number w f) :: u32) \<noteq> 0"
  proof
    assume "(of_nat (tag_number w f) :: u32) = 0"
    then have "drop_bit 3 (of_nat (tag_number w f) :: u32) = 0" by (simp only:) simp
    with parts(2) f(2) show False by simp
  qed
  with s' parts show ?thesis by (simp add: pb_decode_tag_def)
qed

lemma tag_at_end:
  assumes "offers s [] zs"
  shows "\<exists>s'. pb_decode_tag s = ((None, True), s')"
proof -
  obtain s' where "pb_readbyte s = (None, s')" "bytes_left s' = 0" using readbyte_end [OF assms] by blast
  then show ?thesis by (simp add: pb_decode_tag_def pb_decode_varint32_eof_def)
qed

lemma reads_skip_varint: "reads pb_skip_varint (varint n) ()"
proof (induction n rule: varint.induct)
  case (1 n)
  have one: "offers s (x # ys) zs \<Longrightarrow> \<exists>s'. pb_read 1 s = (Some [x], s') \<and> offers s' ys zs \<and> errmsg s' = errmsg s" for s x ys zs
    using readsD [OF reads_bytes, of "[x]"] by simp
  show ?case
    unfolding reads_def
  proof (intro allI impI)
    fix s ys zs
    assume s: "offers s (varint n @ ys) zs"
    show "\<exists>s'. pb_skip_varint s = (Some (), s') \<and> offers s' ys zs \<and> errmsg s' = errmsg s"
    proof (cases "n < 128")
      case True
      with s one [of s "of_nat n" ys zs] obtain s' where "pb_read 1 s = (Some [of_nat n], s')" "offers s' ys zs" "errmsg s' = errmsg s"
        by (auto simp: varint_small)
      then show ?thesis using octet_flags(1) [OF True] by (subst pb_skip_varint.simps) simp
    next
      case False
      have m: "n mod 128 < 128" by simp
      from False s one [of s "of_nat (n mod 128 + 128)" "varint (n div 128) @ ys" zs] obtain s1 where
        s1: "pb_read 1 s = (Some [of_nat (n mod 128 + 128)], s1)" "offers s1 (varint (n div 128) @ ys) zs" "errmsg s1 = errmsg s"
        by (auto simp: varint_big)
      have "pb_skip_varint s = pb_skip_varint s1"
        using s1(1) octet_flags(2) [OF m] by (subst pb_skip_varint.simps) simp
      with readsD [OF "1.IH" [OF False] s1(2)] s1(3) show ?thesis by auto
    qed
  qed
qed

lemma reads_skip_string:
  assumes "length xs < 2 ^ 32"
  shows "reads pb_skip_string (varint (length xs) @ xs) ()"
proof -
  have "reads (pb_skip (of_nat (length xs))) xs ()" by (rule reads_skip) (use assms in simp)
  moreover have "ucast (of_nat (length xs) :: u32) = (of_nat (length xs) :: size_t)"
    using assms by (simp add: word_unat_eq_iff unat_ucast_up unat_of_nat)
  ultimately show ?thesis unfolding pb_skip_string_def by (intro reads_chk [OF reads_varint32 [OF assms]]) simp
qed

end

section \<open>Varints that do not fit in 32 bits\<close>

lemma bitpos_big: "32 \<le> b \<Longrightarrow> b < 64 \<Longrightarrow> (of_nat b :: u8) \<ge> 32 \<and> ((of_nat b :: u8) < 63 \<longleftrightarrow> b < 63)"
  by (simp add: word_le_nat_alt word_less_nat_alt unat_of_nat)

lemma octet_7f: "n < 128 \<Longrightarrow> (of_nat n :: u8) AND 0x7F = of_nat n" "n < 128 \<Longrightarrow> (of_nat (n + 128) :: u8) AND 0x7F = of_nat n"
proof -
  show "(of_nat n :: u8) AND 0x7F = of_nat n" if "n < 128"
    using that by (simp only: word_unat_eq_iff unat_and_7f unat_of_nat) simp
  show "(of_nat (n + 128) :: u8) AND 0x7F = of_nat n" if "n < 128" using that by (rule octet_last)
qed

lemma octet_eq: "m < 256 \<Longrightarrow> n < 256 \<Longrightarrow> (of_nat m :: u8) = of_nat n \<longleftrightarrow> m = n"
  by (simp only: word_unat_eq_iff unat_of_nat) simp

context byte_source
begin

lemma varint32_next:
  assumes "b < 32" and "\<not> n < 128" and "offers s (varint n @ ys) zs"
  obtains s1 where "varint32_loop (of_nat b) r s = varint32_loop (of_nat (b + 7)) (r OR push_bit b (of_nat (n mod 128))) s1"
    "offers s1 (varint (n div 128) @ ys) zs" "errmsg s1 = errmsg s"
proof -
  have m: "n mod 128 < 128" by simp
  have b7: "of_nat b + 7 = (of_nat (b + 7) :: u8)" by simp
  from assms(2,3) have "offers s (of_nat (n mod 128 + 128) # varint (n div 128) @ ys) zs" by (simp add: varint_big)
  from readbyte_offers [OF this] obtain s' where s': "pb_readbyte s = (Some (of_nat (n mod 128 + 128)), s')"
    "offers s' (varint (n div 128) @ ys) zs" "errmsg s' = errmsg s" by blast
  have "varint32_loop (of_nat b) r s = varint32_loop (of_nat (b + 7)) (r OR push_bit b (of_nat (n mod 128))) s'"
    using s'(1) bitpos_small [OF assms(1)] octet_flags(2) [OF m] octet_bits(2) [OF _ m, where 'a = 32] unfolding b7 [symmetric]
    by (subst varint32_loop.simps) simp
  with s' that show thesis by blast
qed

text \<open>Beyond bit 32, a group that is not zero must be all ones and the value negative.\<close>

lemma varint32_high_rejects:
  "0 < n \<Longrightarrow> n * 2 ^ b < 2 ^ 63 \<Longrightarrow> 32 \<le> b \<Longrightarrow> offers s (varint n @ ys) zs \<Longrightarrow> errmsg s = None \<Longrightarrow>
   \<exists>s'. varint32_loop (of_nat b) r s = (None, s') \<and> errmsg s' = Some ''varint overflow''"
proof (induction n arbitrary: b s rule: varint.induct)
  case (1 n)
  have "(2 :: nat) ^ b \<le> n * 2 ^ b" using "1.prems"(1) by simp
  then have "(2 :: nat) ^ b < 2 ^ 63" using "1.prems"(2) by linarith
  then have b63: "b < 63" by (metis nat_power_less_imp_less zero_less_numeral)
  then have bp: "(of_nat b :: u8) \<ge> 32" "(of_nat b :: u8) < 63" using bitpos_big [of b] "1.prems"(3) by simp_all
  have b7: "of_nat b + 7 = (of_nat (b + 7) :: u8)" by simp
  show ?case
  proof (cases "n < 128")
    case True
    then have "offers s (of_nat n # ys) zs" using "1.prems"(4) by (simp add: varint_small)
    from readbyte_offers [OF this] obtain s' where s': "pb_readbyte s = (Some (of_nat n), s')" "errmsg s' = errmsg s" by blast
    have "(of_nat n :: u8) AND 0x7F \<noteq> 0" "(of_nat n :: u8) \<noteq> 0xFF"
      using True "1.prems"(1) octet_7f(1) [OF True] octet_eq [of n 0] octet_eq [of n 255] by simp_all
    then have "varint32_loop (of_nat b) r s = istream_error ''varint overflow'' s'"
      using s'(1) bp by (subst varint32_loop.simps) simp
    then show ?thesis using s'(2) "1.prems"(5) by (simp add: istream_error_def)
  next
    case False
    have m: "n mod 128 < 128" by simp
    from False "1.prems"(4) have "offers s (of_nat (n mod 128 + 128) # varint (n div 128) @ ys) zs" by (simp add: varint_big)
    from readbyte_offers [OF this] obtain s' where s': "pb_readbyte s = (Some (of_nat (n mod 128 + 128)), s')"
      "offers s' (varint (n div 128) @ ys) zs" "errmsg s' = errmsg s" by blast
    have e: "varint32_loop (of_nat b) r s = istream_error ''varint overflow'' s' \<or>
        varint32_loop (of_nat b) r s = varint32_loop (of_nat (b + 7)) r s'"
      using s'(1) bp octet_flags(2) [OF m] unfolding b7 [symmetric] by (subst (1 2) varint32_loop.simps) simp
    have "n div 128 * 2 ^ (b + 7) \<le> n * 2 ^ b" using div_times_less_eq_dividend [of n 128] by (simp add: power_add)
    then have lt: "n div 128 * 2 ^ (b + 7) < 2 ^ 63" using "1.prems"(2) by linarith
    have pos: "0 < n div 128" using False by (simp add: div_greater_zero_iff)
    have "32 \<le> b + 7" "errmsg s' = None" using "1.prems"(3,5) s'(3) by simp_all
    from "1.IH" [OF False pos lt this(1) s'(2) this(2)] e s'(3) "1.prems"(5) show ?thesis by (auto simp: istream_error_def)
  qed
qed

lemma varint32_low_rejects:
  "2 ^ (32 - b) \<le> n \<Longrightarrow> n * 2 ^ b < 2 ^ 63 \<Longrightarrow> b \<in> {7, 14, 21, 28} \<Longrightarrow> offers s (varint n @ ys) zs \<Longrightarrow> errmsg s = None \<Longrightarrow>
   (\<exists>s'. varint32_loop (of_nat b) r s = (None, s') \<and> errmsg s' = Some ''varint overflow'') \<or>
   (\<exists>v x s'. varint32_loop (of_nat b) r s = (Some (v, 35, x), s') \<and> x AND 0x70 \<noteq> 0 \<and> errmsg s' = None)"
proof (induction n arbitrary: b r s rule: varint.induct)
  case (1 n)
  have b: "b < 32" using "1.prems"(3) by auto
  show ?case
  proof (cases "n < 128")
    case True
    then have b28: "b = 28" "16 \<le> n" using "1.prems"(1,3) by auto
    from True have "offers s (of_nat n # ys) zs" using "1.prems"(4) by (simp add: varint_small)
    from readbyte_offers [OF this] obtain s' where s': "pb_readbyte s = (Some (of_nat n), s')" "errmsg s' = errmsg s" by blast
    have "varint32_loop (of_nat b) r s = (Some (r OR push_bit b (of_nat n), 35, of_nat n), s')"
      using s'(1) bitpos_small [OF b] octet_flags(1) [OF True] octet_bits(1) [OF _ True, where 'a = 32] b28(1)
      by (subst varint32_loop.simps) simp
    moreover have "(of_nat n :: u8) AND 0x70 \<noteq> 0"
    proof
      assume z: "(of_nat n :: u8) AND 0x70 = 0"
      have "(of_nat n :: u8) = ((of_nat n AND 0x70) OR (of_nat n AND 0x0F)) OR (of_nat n AND 0x80)"
        by (rule u8_eqI) (auto simp: bit_simps)
      then have "(of_nat n :: u8) = of_nat n AND 0x0F" using z octet_flags(1) [OF True] by simp
      moreover have "(of_nat n :: u8) AND 0x0F = take_bit 4 (of_nat n)" by (simp add: take_bit_eq_mask mask_eq_exp_minus_1)
      ultimately have "unat (of_nat n :: u8) = unat (of_nat n :: u8) mod 2 ^ 4" by (metis unat_take_bit)
      then have "n = n mod 16" using True by (simp only: unat_of_nat) simp
      with b28(2) show False by simp
    qed
    ultimately show ?thesis using s'(2) "1.prems"(5) by simp
  next
    case False
    obtain s1 where s1: "varint32_loop (of_nat b) r s = varint32_loop (of_nat (b + 7)) (r OR push_bit b (of_nat (n mod 128))) s1"
      "offers s1 (varint (n div 128) @ ys) zs" "errmsg s1 = errmsg s"
      by (rule varint32_next [OF b False "1.prems"(4)])
    have "n div 128 * 2 ^ (b + 7) \<le> n * 2 ^ b" using div_times_less_eq_dividend [of n 128] by (simp add: power_add)
    then have lt: "n div 128 * 2 ^ (b + 7) < 2 ^ 63" using "1.prems"(2) by linarith
    have err: "errmsg s1 = None" using s1(3) "1.prems"(5) by simp
    show ?thesis
    proof (cases "b = 28")
      case True
      have "0 < n div 128" using False by (simp add: div_greater_zero_iff)
      from varint32_high_rejects [OF this lt _ s1(2) err] True show ?thesis unfolding s1(1) by simp
    next
      case nb: False
      have "2 ^ (32 - (b + 7)) \<le> n div 128"
        using div_le_mono [OF "1.prems"(1), of 128] "1.prems"(3) nb by auto
      from "1.IH" [OF False this lt _ s1(2) err] "1.prems"(3) nb show ?thesis unfolding s1(1) by auto
    qed
  qed
qed

lemma varint32_rejects:
  assumes n: "2 ^ 32 \<le> n" "n < 2 ^ 63" and s: "offers s (varint n @ ys) zs" "errmsg s = None"
  shows "\<exists>s'. pb_decode_varint32 s = (None, s') \<and> errmsg s' = Some ''varint overflow''"
proof -
  have m: "n mod 128 < 128" by simp
  have big: "\<not> n < 128" using n(1) by simp
  with s(1) have "offers s (of_nat (n mod 128 + 128) # varint (n div 128) @ ys) zs" by (simp add: varint_big)
  from readbyte_offers [OF this] obtain s1 where s1: "pb_readbyte s = (Some (of_nat (n mod 128 + 128)), s1)"
    "offers s1 (varint (n div 128) @ ys) zs" "errmsg s1 = errmsg s" by blast
  have lo: "2 ^ (32 - 7) \<le> n div 128" using div_le_mono [OF n(1), of 128] by simp
  have hi: "n div 128 * 2 ^ 7 < 2 ^ 63" using div_times_less_eq_dividend [of n 128] n(2) by simp
  have err: "errmsg s1 = None" using s1(3) s(2) by simp
  have e: "pb_decode_varint32_eof s =
      (case varint32_loop (of_nat 7) (of_nat (n mod 128)) s1 of
         (None, s) \<Rightarrow> ((None, False), s)
       | (Some (result, bitpos, byte), s) \<Rightarrow>
           if bitpos = 35 \<and> byte AND 0x70 \<noteq> 0
           then (case istream_error ''varint overflow'' s of (r, s) \<Rightarrow> ((r, False), s)) else ((Some result, False), s))"
    using s1(1) octet_flags(2) [OF m] octet_bits(2) [OF _ m, where 'a = 32] by (simp add: pb_decode_varint32_eof_def)
  from varint32_low_rejects [OF lo hi _ s1(2) err, of "of_nat (n mod 128)"] show ?thesis
    unfolding pb_decode_varint32_def e by (auto simp: istream_error_def)
qed

end

text \<open>Negative 32-bit numbers are written with ten octets; the upper groups are dropped.\<close>

text \<open>The numbers that are negative as 32-bit integers, sign extended.\<close>

lemma negative_groups:
  assumes n: "2 ^ 64 - 2 ^ 31 \<le> (n :: nat)" "n < 2 ^ 64"
  shows "\<not> n < 128" "\<not> n div 128 < 128" "\<not> n div 128 div 128 < 128" "\<not> n div 128 div 128 div 128 < 128"
    "\<not> n div 128 div 128 div 128 div 128 < 128" "n div 128 div 128 div 128 div 128 div 128 = 2 ^ 29 - 1"
    "2 ^ 31 \<le> n mod 2 ^ 32"
proof -
  show "\<not> n < 128" "\<not> n div 128 < 128" "\<not> n div 128 div 128 < 128" "\<not> n div 128 div 128 div 128 < 128"
    "\<not> n div 128 div 128 div 128 div 128 < 128"
    using n(1) by (simp_all add: div_mult2_eq [symmetric] not_less less_eq_div_iff_mult_less_eq)
  have "n div 2 ^ 35 = 2 ^ 29 - 1" by (rule div_nat_eqI) (use n in simp_all)
  then show "n div 128 div 128 div 128 div 128 div 128 = 2 ^ 29 - 1" by (simp add: div_mult2_eq [symmetric])
  define k where "k = n - (2 ^ 64 - 2 ^ 32)"
  have k: "2 ^ 31 \<le> k" "k < 2 ^ 32" "n = k + (2 ^ 32 - 1) * 2 ^ 32" using n by (simp_all add: k_def)
  have "n mod 2 ^ 32 = k" unfolding k(3) using k(2) by (simp only: mod_mult_self1 mod_less)
  with k(1) show "2 ^ 31 \<le> n mod 2 ^ 32" by simp
qed

lemma negative_sign:
  assumes "2 ^ 64 - 2 ^ 31 \<le> n" "n < 2 ^ 64"
  shows "drop_bit 31 (of_nat n :: u32) \<noteq> 0"
proof -
  have "unat (of_nat n :: u32) = n mod 2 ^ 32" by (simp only: unat_of_nat) simp
  then have "unat (drop_bit 31 (of_nat n :: u32)) = n mod 2 ^ 32 div 2 ^ 31" by (simp only: unat_drop_bit)
  then show ?thesis using negative_groups(7) [OF assms] by (auto simp: div_eq_0_iff)
qed

context byte_source
begin

lemma varint32_ones:
  assumes "32 \<le> b" "b < 63" and "\<not> n < 128" "n mod 128 = 127" and "drop_bit 31 r \<noteq> 0" and "offers s (varint n @ ys) zs"
  obtains s1 where "varint32_loop (of_nat b) r s = varint32_loop (of_nat (b + 7)) r s1"
    "offers s1 (varint (n div 128) @ ys) zs" "errmsg s1 = errmsg s"
proof -
  have bp: "(of_nat b :: u8) \<ge> 32" "(of_nat b :: u8) < 63" using bitpos_big [of b] assms(1,2) by simp_all
  have b7: "of_nat b + 7 = (of_nat (b + 7) :: u8)" by simp
  from assms(3,4,6) have "offers s (0xFF # varint (n div 128) @ ys) zs" by (simp add: varint_big)
  from readbyte_offers [OF this] obtain s' where s': "pb_readbyte s = (Some 0xFF, s')"
    "offers s' (varint (n div 128) @ ys) zs" "errmsg s' = errmsg s" by blast
  have "varint32_loop (of_nat b) r s = varint32_loop (of_nat (b + 7)) r s'"
    using s'(1) bp assms(5) unfolding b7 [symmetric] by (subst varint32_loop.simps) simp
  with s' that show thesis by blast
qed

lemma varint32_tail:
  assumes "drop_bit 31 r \<noteq> 0" and "offers s (varint (2 ^ 29 - 1) @ ys) zs"
  shows "\<exists>s'. varint32_loop 35 r s = (Some (r, 70, 1), s') \<and> offers s' ys zs \<and> errmsg s' = errmsg s"
proof -
  have step: "\<exists>s1. varint32_loop (of_nat b) r s = varint32_loop (of_nat (b + 7)) r s1 \<and>
      offers s1 (varint (2 ^ (57 - b) - 1) @ ys) zs \<and> errmsg s1 = errmsg s"
    if s: "offers s (varint (2 ^ (64 - b) - 1) @ ys) zs" and b: "b \<in> {35, 42, 49, 56}" for s b
  proof -
    have "\<not> (2 :: nat) ^ (64 - b) - 1 < 128" "((2 :: nat) ^ (64 - b) - 1) mod 128 = 127"
      "((2 :: nat) ^ (64 - b) - 1) div 128 = 2 ^ (57 - b) - 1" using b by auto
    note ones = this
    have "32 \<le> b" "b < 63" using b by auto
    from this ones(1,2) assms(1) s show ?thesis by (rule varint32_ones) (use ones(3) in auto)
  qed
  obtain s1 where s1: "varint32_loop (of_nat 35) r s = varint32_loop (of_nat (35 + 7)) r s1"
    "offers s1 (varint (2 ^ 22 - 1) @ ys) zs" "errmsg s1 = errmsg s" using step [of s 35] assms(2) by auto
  obtain s2 where s2: "varint32_loop (of_nat 42) r s1 = varint32_loop (of_nat (42 + 7)) r s2"
    "offers s2 (varint (2 ^ 15 - 1) @ ys) zs" "errmsg s2 = errmsg s1" using step [of s1 42] s1(2) by auto
  obtain s3 where s3: "varint32_loop (of_nat 49) r s2 = varint32_loop (of_nat (49 + 7)) r s3"
    "offers s3 (varint (2 ^ 8 - 1) @ ys) zs" "errmsg s3 = errmsg s2" using step [of s2 49] s2(2) by auto
  obtain s4 where s4: "varint32_loop (of_nat 56) r s3 = varint32_loop (of_nat (56 + 7)) r s4"
    "offers s4 (varint 1 @ ys) zs" "errmsg s4 = errmsg s3" using step [of s3 56] s3(2) by auto
  from s4(2) have "offers s4 (1 # ys) zs" by (simp add: varint_small)
  from readbyte_offers [OF this] obtain s5 where "pb_readbyte s4 = (Some 1, s5)" "offers s5 ys zs" "errmsg s5 = errmsg s4" by blast
  moreover from this(1) have "varint32_loop 63 r s4 = (Some (r, 70, 1), s5)"
    using assms(1) by (subst varint32_loop.simps) simp
  ultimately show ?thesis using s1 s2 s3 s4 by simp
qed

lemma varint32_next_ex:
  assumes "b < 32" and "\<not> n < 128" and "offers s (varint n @ ys) zs"
  shows "\<exists>s1. varint32_loop (of_nat b) r s = varint32_loop (of_nat (b + 7)) (r OR push_bit b (of_nat (n mod 128))) s1 \<and>
    offers s1 (varint (n div 128) @ ys) zs \<and> errmsg s1 = errmsg s"
  using assms by (rule varint32_next) blast

lemma varint32_negative:
  assumes n: "2 ^ 64 - 2 ^ 31 \<le> n" "n < 2 ^ 64" and s: "offers s (varint n @ ys) zs"
  shows "\<exists>s'. pb_decode_varint32 s = (Some (of_nat n), s') \<and> offers s' ys zs \<and> errmsg s' = errmsg s"
proof -
  have m: "n mod 128 < 128" by simp
  note big = negative_groups [OF n]
  from big(1) s have "offers s (of_nat (n mod 128 + 128) # varint (n div 128) @ ys) zs" by (simp add: varint_big)
  from readbyte_offers [OF this] obtain s0 where s0: "pb_readbyte s = (Some (of_nat (n mod 128 + 128)), s0)"
    "offers s0 (varint (n div 128) @ ys) zs" "errmsg s0 = errmsg s" by blast
  define r0 where "r0 = (of_nat (n mod 128) :: u32)"
  define r1 where "r1 = r0 OR push_bit 7 (of_nat (n div 128 mod 128))"
  obtain s1 where s1: "varint32_loop (of_nat 7) r0 s0 = varint32_loop (of_nat (7 + 7)) r1 s1"
    "offers s1 (varint (n div 128 div 128) @ ys) zs" "errmsg s1 = errmsg s0"
    using varint32_next_ex [of 7, OF _ big(2) s0(2), of r0] unfolding r1_def by auto
  define r2 where "r2 = r1 OR push_bit 14 (of_nat (n div 128 div 128 mod 128))"
  obtain s2 where s2: "varint32_loop (of_nat 14) r1 s1 = varint32_loop (of_nat (14 + 7)) r2 s2"
    "offers s2 (varint (n div 128 div 128 div 128) @ ys) zs" "errmsg s2 = errmsg s1"
    using varint32_next_ex [of 14, OF _ big(3) s1(2), of r1] unfolding r2_def by auto
  define r3 where "r3 = r2 OR push_bit 21 (of_nat (n div 128 div 128 div 128 mod 128))"
  obtain s3 where s3: "varint32_loop (of_nat 21) r2 s2 = varint32_loop (of_nat (21 + 7)) r3 s3"
    "offers s3 (varint (n div 128 div 128 div 128 div 128) @ ys) zs" "errmsg s3 = errmsg s2"
    using varint32_next_ex [of 21, OF _ big(4) s2(2), of r2] unfolding r3_def by auto
  define r4 where "r4 = r3 OR push_bit 28 (of_nat (n div 128 div 128 div 128 div 128 mod 128))"
  obtain s4 where s4: "varint32_loop (of_nat 28) r3 s3 = varint32_loop (of_nat (28 + 7)) r4 s4"
    "offers s4 (varint (n div 128 div 128 div 128 div 128 div 128) @ ys) zs" "errmsg s4 = errmsg s3"
    using varint32_next_ex [of 28, OF _ big(5) s3(2), of r3] unfolding r4_def by auto
  have r4: "r4 = of_nat n"
  proof -
    let ?g = "\<lambda>b m. push_bit b (of_nat m :: u32)"
    have "(of_nat n :: u32) = ?g 0 n" by simp
    also have "\<dots> = r0 OR ?g 7 (n div 128)" using word_groups [of 0 n, where 'a = 32] by (simp add: r0_def)
    also have "\<dots> = r1 OR ?g 14 (n div 128 div 128)" using word_groups [of 7 "n div 128", where 'a = 32] by (simp add: r1_def or.assoc)
    also have "\<dots> = r2 OR ?g 21 (n div 128 div 128 div 128)" using word_groups [of 14 "n div 128 div 128", where 'a = 32] by (simp add: r2_def or.assoc)
    also have "\<dots> = r3 OR ?g 28 (n div 128 div 128 div 128 div 128)" using word_groups [of 21 "n div 128 div 128 div 128", where 'a = 32] by (simp add: r3_def or.assoc)
    also have "\<dots> = r4 OR ?g 35 (n div 128 div 128 div 128 div 128 div 128)"
      using word_groups [of 28 "n div 128 div 128 div 128 div 128", where 'a = 32] by (simp add: r4_def or.assoc)
    finally show ?thesis by simp
  qed
  have o4: "offers s4 (varint (2 ^ 29 - 1) @ ys) zs" using s4(2) unfolding big(6) .
  from varint32_tail [OF negative_sign [OF n] o4] obtain s5 where s5: "varint32_loop 35 (of_nat n) s4 = (Some (of_nat n, 70, 1), s5)"
    "offers s5 ys zs" "errmsg s5 = errmsg s4" by blast
  have loop: "varint32_loop 7 r0 s0 = (Some (of_nat n, 70, 1), s5)" using s1(1) s2(1) s3(1) s4(1) s5(1) by (simp add: r4)
  have "pb_decode_varint32_eof s = ((Some (of_nat n), False), s5)"
    using s0(1) loop octet_flags(2) [OF m] octet_bits(2) [OF _ m, where 'a = 32]
    by (simp add: pb_decode_varint32_eof_def r0_def)
  then show ?thesis using s0 s1 s2 s3 s4 s5 by (simp add: pb_decode_varint32_def)
qed

end

context byte_source
begin

lemma varint32_zero_run:
  "offers s (replicate k 0x80 @ xs) zs \<Longrightarrow>
   \<exists>s'. varint32_loop bp r s = varint32_loop (bp + of_nat (7 * k)) r s' \<and> offers s' xs zs \<and> errmsg s' = errmsg s"
proof (induction k arbitrary: bp s)
  case (Suc k)
  then have "offers s (0x80 # replicate k 0x80 @ xs) zs" by simp
  from readbyte_offers [OF this] obtain s1 where s1: "pb_readbyte s = (Some 0x80, s1)" "offers s1 (replicate k 0x80 @ xs) zs"
    "errmsg s1 = errmsg s" by blast
  have "varint32_loop bp r s = varint32_loop (bp + 7) r s1"
    using s1(1) by (subst varint32_loop.simps) simp
  with Suc.IH [OF s1(2), of "bp + 7"] s1(3) show ?case by (auto simp: algebra_simps)
qed auto

lemma varint_zero_run:
  "offers s (replicate k 0x80 @ xs) zs \<Longrightarrow> b + 7 * k \<le> 70 \<Longrightarrow>
   \<exists>s'. varint_loop (of_nat b) r s = varint_loop (of_nat (b + 7 * k)) r s' \<and> offers s' xs zs"
proof (induction k arbitrary: b s)
  case (Suc k)
  then have "offers s (0x80 # replicate k 0x80 @ xs) zs" by simp
  from readbyte_offers [OF this] obtain s1 where s1: "pb_readbyte s = (Some 0x80, s1)" "offers s1 (replicate k 0x80 @ xs) zs"
    by blast
  have "\<not> (of_nat b :: u8) \<ge> 64" using Suc.prems(2) by (simp add: word_le_nat_alt unat_of_nat)
  then have "varint_loop (of_nat b) r s = varint_loop (of_nat (b + 7)) r s1"
    using s1(1) by (subst varint_loop.simps) simp
  with Suc.IH [OF s1(2), of "b + 7"] Suc.prems(2) show ?case by (auto simp: algebra_simps)
qed auto

end

section \<open>Properties\<close>

text \<open>
  C39: \<open>pb_decode_varint32\<close> returns every number below \<open>2 ^ 32\<close> and, of the ten-octet encodings of the negative
  32-bit integers, the low 32 bits; it refuses the encodings of all numbers from \<open>2 ^ 32\<close> to \<open>2 ^ 63 - 1\<close> as an
  overflow. This holds on every stream whose source delivers its bytes in order.
\<close>

theorem varint32_ranges:
  assumes "byte_source holds" and "byte_source.offers holds s (varint n @ ys) zs" and "errmsg s = None"
  shows "(n < 2 ^ 32 \<or> (2 ^ 64 - 2 ^ 31 \<le> n \<and> n < 2 ^ 64) \<longrightarrow>
      (\<exists>s'. pb_decode_varint32 s = (Some (of_nat n), s') \<and> byte_source.offers holds s' ys zs)) \<and>
    (2 ^ 32 \<le> n \<and> n < 2 ^ 63 \<longrightarrow>
      (\<exists>s'. pb_decode_varint32 s = (None, s') \<and> errmsg s' = Some ''varint overflow''))"
  using byte_source.readsD [OF assms(1) byte_source.reads_varint32 [OF assms(1)] assms(2)]
    byte_source.varint32_negative [OF assms(1) _ _ assms(2)] byte_source.varint32_rejects [OF assms(1) _ _ assms(2,3)] by blast

lemma buffer_is_source: "byte_source (\<lambda>c xs. c = Buffer xs)"
  by (rule buffer.byte_source_axioms)

theorem varint32_ranges_witness:
  "(\<exists>s'. pb_decode_varint32 (pb_istream_from_buffer [0xAC, 0x02, 9] 3 :: unit istream) = (Some 300, s')) \<and>
   (\<exists>s'. pb_decode_varint32 (pb_istream_from_buffer [0x80, 0x80, 0x80, 0x80, 0x10] 5 :: unit istream) = (None, s') \<and>
      errmsg s' = Some ''varint overflow'')"
proof
  have v: "varint 300 = [0xAC, 0x02]" "varint (2 ^ 32) = [0x80, 0x80, 0x80, 0x80, 0x10]"
    by (simp_all add: varint.simps)
  let ?s = "pb_istream_from_buffer [0xAC, 0x02, 9] 3 :: unit istream"
  have "buffer.offers ?s (varint 300 @ [9]) []" unfolding v using buffer_offers_init [of "[0xAC, 0x02, 9]" 3 "[]"] by simp
  from varint32_ranges [OF buffer_is_source this]
  show "\<exists>s'. pb_decode_varint32 ?s = (Some 300, s')" by (auto simp: pb_istream_from_buffer_def)
  let ?t = "pb_istream_from_buffer [0x80, 0x80, 0x80, 0x80, 0x10] 5 :: unit istream"
  have "buffer.offers ?t (varint (2 ^ 32) @ []) []"
    unfolding v using buffer_offers_init [of "[0x80, 0x80, 0x80, 0x80, 0x10]" 5 "[]"] by simp
  from varint32_ranges [OF buffer_is_source this]
  show "\<exists>s'. pb_decode_varint32 ?t = (None, s') \<and> errmsg s' = Some ''varint overflow''"
    by (simp add: pb_istream_from_buffer_def)
qed

text \<open>
  C40: Outside of that the 32-bit reader returns wrong numbers: bits that do not fit in the fifth octet are lost
  when a sixth octet follows, so that the encoding of \<open>7 * 2 ^ 32\<close> with a zero octet behind is read as 0; and there
  is no limit on the number of octets, while the bit position is counted in eight bits, so that an octet after
  37 octets of continuation lands at bit 3. The 64-bit reader gets the first right and refuses the second.
\<close>

theorem varint32_wrong_results:
  fixes s t :: "unit istream"
  defines "s \<equiv> pb_istream_from_buffer [0x80, 0x80, 0x80, 0x80, 0xF0, 0] 6"
    and "t \<equiv> pb_istream_from_buffer (replicate 37 0x80 @ [1]) 38"
  shows "fst (pb_decode_varint32 s) = Some 0 \<and> fst (pb_decode_varint s) = Some 0x700000000 \<and>
    fst (pb_decode_varint32 t) = Some 8 \<and> fst (pb_decode_varint t) = None"
proof -
  have "fst (pb_decode_varint32 s) = Some 0"
    by (simp add: s_def pb_decode_varint32_def pb_decode_varint32_eof_def pb_readbyte_def pb_istream_from_buffer_def
        run_callback_def buf_read_def varint32_loop.simps)
  moreover have "fst (pb_decode_varint s) = Some 0x700000000"
    by (simp add: s_def pb_decode_varint_def pb_readbyte_def pb_istream_from_buffer_def run_callback_def buf_read_def
        varint_loop.simps)
  moreover have t: "buffer.offers t (replicate 37 0x80 @ [1]) []"
    using buffer_offers_init [of "replicate 37 0x80 @ [1]" 38 "[]"] by (simp add: t_def)
  then have "buffer.offers t (0x80 # replicate 36 0x80 @ [1]) []" by (simp add: numeral_eq_Suc)
  then obtain t1 where t1: "pb_readbyte t = (Some 0x80, t1)" "buffer.offers t1 (replicate 36 0x80 @ [1]) []"
    using buffer.readbyte_offers by blast
  have wrap: "(259 :: u8) = 3" by simp
  obtain t2 where t2: "varint32_loop 7 0 t1 = varint32_loop 259 0 t2" "buffer.offers t2 [1] []"
    using buffer.varint32_zero_run [OF t1(2), of 7 0] by auto
  obtain t3 where "pb_readbyte t2 = (Some 1, t3)" using buffer.readbyte_offers [OF t2(2)] by blast
  then have "varint32_loop 7 0 t1 = (Some (8, 10, 1), t3)"
    unfolding t2(1) wrap by (subst varint32_loop.simps) simp
  with t1(1) have "fst (pb_decode_varint32 t) = Some 8" by (simp add: pb_decode_varint32_def pb_decode_varint32_eof_def)
  moreover have "fst (pb_decode_varint t) = None"
  proof -
    have "buffer.offers t (replicate 10 0x80 @ replicate 27 0x80 @ [1]) []" using t by (simp add: numeral_eq_Suc)
    from buffer.varint_zero_run [OF this, of 0 0] obtain t4 where "varint_loop 0 0 t = varint_loop 70 0 t4" by auto
    then show ?thesis by (simp add: pb_decode_varint_def varint_loop.simps [of 70] istream_error_def)
  qed
  ultimately show ?thesis by simp
qed

text \<open>Fields as a caller writes and reads them: a number and a scalar of one of the wire types.\<close>

datatype scalar = UVarint u64 | SVarint u64 | Fixed32 u32 | Fixed64 u64 | Octets bytes

datatype scalar_type = Is_uvarint | Is_svarint | Is_fixed32 | Is_fixed64 | Is_octets

fun type_of :: "scalar \<Rightarrow> scalar_type" where
  "type_of (UVarint v) = Is_uvarint"
| "type_of (SVarint v) = Is_svarint"
| "type_of (Fixed32 w) = Is_fixed32"
| "type_of (Fixed64 v) = Is_fixed64"
| "type_of (Octets xs) = Is_octets"

fun wire_of :: "scalar_type \<Rightarrow> u32" where
  "wire_of Is_uvarint = PB_WT_VARINT"
| "wire_of Is_svarint = PB_WT_VARINT"
| "wire_of Is_fixed32 = PB_WT_32BIT"
| "wire_of Is_fixed64 = PB_WT_64BIT"
| "wire_of Is_octets = PB_WT_STRING"

fun scalar_bytes :: "scalar \<Rightarrow> bytes" where
  "scalar_bytes (UVarint v) = varint (unat v)"
| "scalar_bytes (SVarint v) = varint (unat (zigzag v))"
| "scalar_bytes (Fixed32 w) = le_octets 4 w"
| "scalar_bytes (Fixed64 v) = le_octets 8 v"
| "scalar_bytes (Octets xs) = varint (length xs) @ xs"

fun scalar_ok :: "scalar \<Rightarrow> bool" where
  "scalar_ok (Octets xs) \<longleftrightarrow> length xs < 2 ^ 32"
| "scalar_ok _ \<longleftrightarrow> True"

abbreviation field_ok :: "u32 \<times> scalar \<Rightarrow> bool" where
  "field_ok x \<equiv> fst x \<noteq> 0 \<and> unat (fst x) < 2 ^ 29 \<and> scalar_ok (snd x)"

definition field_bytes :: "u32 \<times> scalar \<Rightarrow> bytes" where
  "field_bytes x = varint (tag_number (wire_of (type_of (snd x))) (fst x)) @ scalar_bytes (snd x)"

fun write_scalar :: "scalar \<Rightarrow> ('s ostream, unit) op" where
  "write_scalar (UVarint v) = pb_encode_varint v"
| "write_scalar (SVarint v) = pb_encode_svarint v"
| "write_scalar (Fixed32 w) = pb_encode_fixed32 w"
| "write_scalar (Fixed64 v) = pb_encode_fixed64 v"
| "write_scalar (Octets xs) = pb_encode_string xs (of_nat (length xs))"

definition write_field :: "u32 \<times> scalar \<Rightarrow> ('s ostream, unit) op" where
  "write_field x = chk (pb_encode_tag (wire_of (type_of (snd x))) (fst x)) (\<lambda>_. write_scalar (snd x))"

fun read_scalar :: "scalar_type \<Rightarrow> ('s istream, scalar) op" where
  "read_scalar Is_uvarint = chk pb_decode_varint (\<lambda>v. succeed (UVarint v))"
| "read_scalar Is_svarint = chk pb_decode_svarint (\<lambda>v. succeed (SVarint v))"
| "read_scalar Is_fixed32 = chk pb_decode_fixed32 (\<lambda>w. succeed (Fixed32 w))"
| "read_scalar Is_fixed64 = chk pb_decode_fixed64 (\<lambda>v. succeed (Fixed64 v))"
| "read_scalar Is_octets = chk pb_decode_varint32 (\<lambda>n. chk (pb_read (ucast n)) (\<lambda>xs. succeed (Octets xs)))"

text \<open>A reader that expects fields of the given types in order, and then the end of the stream.\<close>

fun read_fields :: "scalar_type list \<Rightarrow> ('s istream, (u32 \<times> scalar) list) op" where
  "read_fields [] s =
     (case pb_decode_tag s of ((None, True), s) \<Rightarrow> (Some [], s) | (_, s) \<Rightarrow> (None, s))"
| "read_fields (t # ts) s =
     (case pb_decode_tag s of
        ((Some (w, f), _), s) \<Rightarrow>
          if w = wire_of t
          then chk (read_scalar t) (\<lambda>v. chk (read_fields ts) (\<lambda>vs. succeed ((f, v) # vs))) s else (None, s)
      | (_, s) \<Rightarrow> (None, s))"

lemma wire_small: "unat (wire_of t) < 8"
  by (cases t) (simp_all add: wire_types)

context byte_sink
begin

lemma emits_scalar: "scalar_ok v \<Longrightarrow> emits (write_scalar v) (scalar_bytes v)"
  by (cases v) (simp_all add: emits_varint emits_svarint emits_fixed32 emits_fixed64 emits_string)

lemma emits_field: "field_ok x \<Longrightarrow> emits (write_field x) (field_bytes x)"
  unfolding write_field_def field_bytes_def by (intro emits_chk emits_tag emits_scalar wire_small) simp

lemma emits_fields: "\<forall>x \<in> set xs. field_ok x \<Longrightarrow> emits (for_op write_field xs) (concat (map field_bytes xs))"
proof (induction xs)
  case Nil
  show ?case unfolding for_op.simps list.map concat.simps by (rule emits_succeed)
next
  case (Cons x xs)
  then show ?case using emits_chk [OF emits_field [of x]] by simp
qed

end

context byte_source
begin

lemma reads_scalar: "scalar_ok v \<Longrightarrow> reads (read_scalar (type_of v)) (scalar_bytes v) v"
proof (cases v)
  case (Octets xs)
  assume "scalar_ok v"
  then have l: "length xs < 2 ^ 32" using Octets by simp
  have n: "ucast (of_nat (length xs) :: u32) = (of_nat (length xs) :: size_t)"
    using l by (simp add: word_unat_eq_iff unat_ucast_up unat_of_nat)
  have "reads (pb_read (of_nat (length xs))) xs xs" by (rule reads_bytes) (use l in simp)
  then have "reads (chk (pb_read (ucast (of_nat (length xs) :: u32))) (\<lambda>xs. succeed (Octets xs))) xs (Octets xs)"
    unfolding n by (rule reads_then) simp
  from reads_chk [of _ _ _ "\<lambda>n. chk (pb_read (ucast n)) (\<lambda>xs. succeed (Octets xs))", OF reads_varint32 [OF l] this]
  show ?thesis using Octets by simp
qed (auto intro!: reads_then [OF reads_varint] reads_then [OF reads_svarint] reads_then [OF reads_fixed32] reads_then [OF reads_fixed64])

lemma reads_fields:
  "\<forall>x \<in> set xs. field_ok x \<Longrightarrow> offers s (concat (map field_bytes xs)) zs \<Longrightarrow>
   \<exists>s'. read_fields (map (type_of \<circ> snd) xs) s = (Some xs, s')"
proof (induction xs arbitrary: s)
  case Nil
  from tag_at_end [of s zs] Nil show ?case by auto
next
  case (Cons x xs)
  obtain f v where x: "x = (f, v)" by (cases x)
  let ?w = "wire_of (type_of v)"
  have s: "offers s (varint (tag_number ?w f) @ scalar_bytes v @ concat (map field_bytes xs)) zs"
    using Cons.prems(2) x field_bytes_def [of x] by simp
  obtain s1 where s1: "pb_decode_tag s = ((Some (?w, f), False), s1)" "offers s1 (scalar_bytes v @ concat (map field_bytes xs)) zs"
    using tag_offers [OF wire_small _ _ s] Cons.prems(1) x by auto
  obtain s2 where s2: "read_scalar (type_of v) s1 = (Some v, s2)" "offers s2 (concat (map field_bytes xs)) zs"
    using readsD [OF reads_scalar s1(2)] Cons.prems(1) x by auto
  obtain s3 where "read_fields (map (type_of \<circ> snd) xs) s2 = (Some xs, s3)" using Cons.IH [OF _ s2(2)] Cons.prems(1) by (auto simp: comp_def)
  then show ?case using s1(1) s2(1) x by (simp add: comp_def)
qed

lemma skip_scalar: "scalar_ok v \<Longrightarrow> reads (pb_skip_field (wire_of (type_of v))) (scalar_bytes v) ()"
proof -
  have "length (le_octets 4 w) = 4" "length (le_octets 8 u) = 8" for w :: u32 and u :: u64
    by (simp_all add: le_octets_def)
  then have "reads (pb_skip 4) (le_octets 4 w) ()" "reads (pb_skip 8) (le_octets 8 u) ()" for w :: u32 and u :: u64
    using reads_skip [of "le_octets 4 w"] reads_skip [of "le_octets 8 u"] by simp_all
  then show "scalar_ok v \<Longrightarrow> reads (pb_skip_field (wire_of (type_of v))) (scalar_bytes v) ()"
    by (cases v) (simp_all add: pb_skip_field_def wire_types reads_skip_varint reads_skip_string)
qed

end

text \<open>
  C37: Fields written with \<open>pb_encode_tag\<close> and the scalar encoders into a block of memory are read back by
  \<open>pb_decode_tag\<close> and the scalar decoders, up to the end of the stream. Writing fails exactly when the block is too
  small, and never writes beyond it.
\<close>

theorem message_roundtrip:
  assumes "\<forall>x \<in> set xs. field_ok x" and "length block = unat n"
  shows "case for_op write_field xs (pb_ostream_from_buffer block n :: 'w ostream) of
      (None, _) \<Rightarrow> length block < length (concat (map field_bytes xs))
    | (Some _, s) \<Rightarrow>
        (\<exists>out. sink s = Block out (unat (bytes_written s)) \<and> length out = length block \<and>
          drop (unat (bytes_written s)) out = drop (unat (bytes_written s)) block \<and>
          (\<exists>s'. read_fields (map (type_of \<circ> snd) xs) (pb_istream_from_buffer out (bytes_written s) :: 'r istream) = (Some xs, s')))"
proof -
  let ?ys = "concat (map field_bytes xs)"
  show ?thesis
  proof (rule block_run [OF block.emits_fields [OF assms(1)] assms(2)])
    fix s' :: "'w ostream"
    assume "for_op write_field xs (pb_ostream_from_buffer block n) = (None, s')" "length block < length ?ys"
    then show ?thesis by simp
  next
    fix a and s' :: "'w ostream"
    assume s': "for_op write_field xs (pb_ostream_from_buffer block n) = (Some a, s')" "length ?ys \<le> length block"
      "sink s' = Block (?ys @ drop (length ?ys) block) (length ?ys)" "unat (bytes_written s') = length ?ys"
    have "buffer.offers (pb_istream_from_buffer (?ys @ drop (length ?ys) block) (bytes_written s') :: 'r istream) ?ys
        (drop (length ?ys) block)"
      by (rule buffer_offers_init) (simp add: s'(4))
    from buffer.reads_fields [OF assms(1) this] s' show ?thesis by auto
  qed
qed

theorem message_roundtrip_witness:
  "(\<exists>s. read_fields [Is_uvarint, Is_octets] (pb_istream_from_buffer [8, 0x96, 1, 0x12, 2, 7, 8] 7 :: unit istream) =
      (Some [(1, UVarint 150), (2, Octets [7, 8])], s)) \<and>
   fst (for_op write_field [(1, UVarint 150), (2, Octets [7, 8])] (pb_ostream_from_buffer (replicate 6 0) 6 :: unit ostream)) = None"
proof
  let ?xs = "[(1, UVarint 150), (2, Octets [7, 8])]"
  have b: "concat (map field_bytes ?xs) = [8, 0x96, 1, 0x12, 2, 7, 8]"
    by (simp add: field_bytes_def tag_number_def wire_types varint.simps)
  have ok: "\<forall>x \<in> set ?xs. field_ok x" by simp
  have l: "length (replicate 7 (0 :: u8)) = unat (7 :: size_t)" "length (replicate 6 (0 :: u8)) = unat (6 :: size_t)" by simp_all
  obtain u s where r: "for_op write_field ?xs (pb_ostream_from_buffer (replicate 7 0) 7 :: unit ostream) = (Some u, s)"
    and s: "sink s = Block [8, 0x96, 1, 0x12, 2, 7, 8] 7" "unat (bytes_written s) = 7"
    by (rule block_run [OF block.emits_fields [OF ok] l(1), where ?'a = unit, unfolded b]) (simp_all add: numeral_eq_Suc)
  have "bytes_written s = 7" using s(2) by (simp add: word_unat_eq_iff)
  with message_roundtrip [OF ok l(1), where 'w = unit and 'r = unit] r s(1)
  show "\<exists>s. read_fields [Is_uvarint, Is_octets] (pb_istream_from_buffer [8, 0x96, 1, 0x12, 2, 7, 8] 7 :: unit istream) =
      (Some ?xs, s)" by auto
  show "fst (for_op write_field ?xs (pb_ostream_from_buffer (replicate 6 0) 6 :: unit ostream)) = None"
    by (rule block_run [OF block.emits_fields [OF ok] l(2), where ?'a = unit, unfolded b]) simp_all
qed

text \<open>
  C38: \<open>pb_decode_tag\<close> followed by \<open>pb_skip_field\<close> passes over exactly one field, whatever its wire type, on every
  stream whose source delivers its bytes in order; so unknown fields do not disturb those behind them.
\<close>

theorem skip_field_exact:
  assumes "byte_source holds" and "field_ok (f, v)" and "byte_source.offers holds s (field_bytes (f, v) @ ys) zs"
  shows "\<exists>s1 s2. pb_decode_tag s = ((Some (wire_of (type_of v), f), False), s1) \<and>
    pb_skip_field (wire_of (type_of v)) s1 = (Some (), s2) \<and> byte_source.offers holds s2 ys zs \<and> errmsg s2 = errmsg s"
proof -
  note src = assms(1)
  have s: "byte_source.offers holds s (varint (tag_number (wire_of (type_of v)) f) @ scalar_bytes v @ ys) zs"
    using assms(3) by (simp add: field_bytes_def)
  obtain s1 where s1: "pb_decode_tag s = ((Some (wire_of (type_of v), f), False), s1)"
    "byte_source.offers holds s1 (scalar_bytes v @ ys) zs" "errmsg s1 = errmsg s"
    using byte_source.tag_offers [OF src wire_small _ _ s] assms(2) by auto
  with byte_source.readsD [OF src byte_source.skip_scalar [OF src, of v] s1(2)] assms(2) show ?thesis by auto
qed

theorem skip_field_exact_witness:
  "\<exists>s1 s2. pb_decode_tag \<lparr>source = Callback string_reader (0x12 # 20 # replicate 20 7 @ [8, 1]), bytes_left = 24, errmsg = None\<rparr> =
      ((Some (2, 2), False), s1) \<and>
    pb_skip_field 2 s1 = (Some (), s2) \<and> bytes_left s2 = 2"
proof -
  let ?s = "\<lparr>source = Callback string_reader (0x12 # 20 # replicate 20 7 @ [8, 1]), bytes_left = 24, errmsg = None\<rparr>"
  let ?v = "Octets (replicate 20 7)"
  have b: "field_bytes (2, ?v) = 0x12 # 20 # replicate 20 7"
    by (simp add: field_bytes_def tag_number_def wire_types varint.simps)
  have ok: "field_ok (2, ?v)" by simp
  have "callback.offers ?s (field_bytes (2, ?v) @ [8, 1]) []" unfolding b by (simp add: callback.offers_def)
  from skip_field_exact [OF callback.byte_source_axioms ok this] obtain s1 s2 where
    r: "pb_decode_tag ?s = ((Some (2, 2), False), s1)" "pb_skip_field 2 s1 = (Some (), s2)" "callback.offers s2 [8, 1] []"
    by (auto simp: wire_types)
  have "unat (bytes_left s2) = 2" using callback.offers_length [OF r(3)] by simp
  then have "bytes_left s2 = 2" by (simp add: word_unat_eq_iff)
  with r show ?thesis by blast
qed

text \<open>
  C40: \<open>pb_make_string_substream\<close> gives a stream on exactly the octets of a length-delimited field, and fails when
  the parent has fewer; after any use of it, \<open>pb_close_string_substream\<close> leaves the parent behind the field.
\<close>

theorem substream_exact:
  assumes "byte_source holds" and "n < 2 ^ 32" and "byte_source.offers holds s (varint n @ xs) zs"
  shows "(length xs < n \<longrightarrow> fst (pb_make_string_substream s) = None) \<and>
    (n \<le> length xs \<longrightarrow>
      (\<exists>s1 sub. pb_make_string_substream s = (Some sub, s1) \<and>
        byte_source.offers holds sub (take n xs) (drop n xs @ zs) \<and>
        (\<forall>sub' us. byte_source.offers holds sub' us (drop n xs @ zs) \<longrightarrow>
          (\<exists>s2 sub''. pb_close_string_substream s1 sub' = (True, s2, sub'') \<and> byte_source.offers holds s2 (drop n xs) zs))))"
proof -
  note src = assms(1)
  let ?n = "of_nat n :: u32"
  have un: "unat (ucast ?n :: size_t) = n" using assms(2) by (simp add: unat_ucast_up unat_of_nat)
  obtain s1 where s1: "pb_decode_varint32 s = (Some ?n, s1)" "byte_source.offers holds s1 xs zs"
    using byte_source.readsD [OF src byte_source.reads_varint32 [OF src assms(2)] assms(3)] by blast
  have l: "length xs = unat (bytes_left s1)" by (rule byte_source.offers_length [OF src s1(2)])
  have lt: "bytes_left s1 < ucast ?n \<longleftrightarrow> length xs < n" using l un by (simp add: word_less_nat_alt)
  have e: "pb_make_string_substream s =
      (if length xs < n then istream_error ''parent stream too short'' s1
       else (Some (s1\<lparr>bytes_left := ucast ?n\<rparr>), s1\<lparr>bytes_left := bytes_left s1 - ucast ?n\<rparr>))"
    using s1(1) by (simp add: pb_make_string_substream_def Let_def lt)
  show ?thesis
  proof (cases "length xs < n")
    case True
    then show ?thesis unfolding e by (simp add: istream_error_def)
  next
    case False
    let ?s1 = "s1\<lparr>bytes_left := bytes_left s1 - ucast ?n\<rparr>"
    have cut: "take n xs @ drop n xs @ zs = xs @ zs" by (simp flip: append_assoc)
    have "holds (source s1) (take n xs @ drop n xs @ zs)"
      unfolding cut using s1(2) by (simp add: byte_source.offers_def [OF src])
    then have sub: "byte_source.offers holds (s1\<lparr>bytes_left := ucast ?n\<rparr>) (take n xs) (drop n xs @ zs)"
      using False un by (simp add: byte_source.offers_def [OF src])
    have left: "unat (bytes_left ?s1) = length (drop n xs)"
      using l un False by (simp add: unat_sub_le word_le_nat_alt)
    have "\<exists>s2 sub''. pb_close_string_substream ?s1 sub' = (True, s2, sub'') \<and> byte_source.offers holds s2 (drop n xs) zs"
      if o: "byte_source.offers holds sub' us (drop n xs @ zs)" for sub' us
    proof -
      have lu: "length us = unat (bytes_left sub')" by (rule byte_source.offers_length [OF src o])
      obtain sub'' where sub'': "pb_skip (bytes_left sub') sub' = (Some (), sub'')"
        "byte_source.offers holds sub'' [] (drop n xs @ zs)"
        using byte_source.skip_offers [OF src o, of "bytes_left sub'"] lu by auto
      then have c: "pb_close_string_substream ?s1 sub' = (True, ?s1\<lparr>source := source sub'', errmsg := errmsg sub''\<rparr>, sub'')"
        by (cases "bytes_left sub' = 0") (simp_all add: pb_close_string_substream_def pb_skip_def [of 0])
      have "byte_source.offers holds (?s1\<lparr>source := source sub'', errmsg := errmsg sub''\<rparr>) (drop n xs) zs"
        using sub''(2) left by (simp add: byte_source.offers_def [OF src])
      with c show ?thesis by blast
    qed
    with False sub show ?thesis unfolding e by auto
  qed
qed

theorem substream_exact_witness:
  "\<exists>s1 sub. pb_make_string_substream (pb_istream_from_buffer [2, 7, 8, 9] 4 :: unit istream) = (Some sub, s1) \<and>
     bytes_left sub = 2 \<and> (\<exists>s2 sub'. pb_close_string_substream s1 sub = (True, s2, sub') \<and> bytes_left s2 = 1)"
proof -
  let ?s = "pb_istream_from_buffer [2, 7, 8, 9] 4 :: unit istream"
  have "buffer.offers ?s (varint 2 @ [7, 8, 9]) []"
    using buffer_offers_init [of "[2, 7, 8, 9]" 4 "[]"] by (simp add: varint_small)
  from substream_exact [OF buffer_is_source _ this] obtain s1 sub where
    r: "pb_make_string_substream ?s = (Some sub, s1)" "buffer.offers sub [7, 8] [9]"
    "\<forall>sub' us. buffer.offers sub' us [9] \<longrightarrow>
      (\<exists>s2 sub''. pb_close_string_substream s1 sub' = (True, s2, sub'') \<and> buffer.offers s2 [9] [])"
    by (auto simp: take_Cons drop_Cons split: nat.splits)
  then obtain s2 sub' where "pb_close_string_substream s1 sub = (True, s2, sub')" "buffer.offers s2 [9] []" by blast
  moreover have "bytes_left sub = 2" "bytes_left s2 = 1"
    using buffer.offers_length [OF r(2)] buffer.offers_length [OF calculation(2)] by (simp_all add: word_unat_eq_iff)
  ultimately show ?thesis using r(1) by blast
qed

text \<open>
  \<open>pb_read\<close> delivers the next bytes, and with a NULL buffer passes over them, when \<open>bytes_left\<close> has that
  many; otherwise it fails. It never asks the source for more than that.
\<close>

theorem pb_read_exact:
  assumes "byte_source holds" and "byte_source.offers holds s xs zs"
  shows "(case pb_read count s of
      (None, s') \<Rightarrow> length xs < unat count \<and> byte_source.offers holds s' xs zs
    | (Some out, s') \<Rightarrow> unat count \<le> length xs \<and> out = take (unat count) xs \<and>
        byte_source.offers holds s' (drop (unat count) xs) zs) \<and>
    (case pb_skip count s of
      (None, s') \<Rightarrow> length xs < unat count
    | (Some _, s') \<Rightarrow> unat count \<le> length xs \<and> byte_source.offers holds s' (drop (unat count) xs) zs)"
proof (cases "unat count \<le> length xs")
  case True
  with byte_source.read_direct_offers [OF assms True] byte_source.skip_offers [OF assms True]
  show ?thesis by (auto simp: pb_read_def)
next
  case False
  then have "length xs < unat count" by simp
  with byte_source.read_direct_short [OF assms this] byte_source.skip_short [OF assms this]
  show ?thesis by (auto simp: pb_read_def)
qed

theorem pb_read_exact_witness:
  "fst (pb_read 2 (pb_istream_from_buffer [5, 6, 7] 3 :: unit istream)) = Some [5, 6] \<and>
   fst (pb_skip 17 \<lparr>source = Callback string_reader (replicate 16 1), bytes_left = 16, errmsg = None\<rparr>) = None"
proof
  have "buffer.offers (pb_istream_from_buffer [5, 6, 7] 3 :: unit istream) [5, 6, 7] []"
    using buffer_offers_init [of "[5, 6, 7]" 3 "[]"] by simp
  from pb_read_exact [OF buffer_is_source this, of 2]
  show "fst (pb_read 2 (pb_istream_from_buffer [5, 6, 7] 3 :: unit istream)) = Some [5, 6]"
    by (auto split: prod.splits option.splits)
  let ?s = "\<lparr>source = Callback string_reader (replicate 16 1), bytes_left = 16, errmsg = None\<rparr>"
  have "callback.offers ?s (replicate 16 1) []" by (simp add: callback.offers_def)
  from pb_read_exact [OF callback.byte_source_axioms this, of 17]
  show "fst (pb_skip 17 ?s) = None" by (auto split: prod.splits option.splits)
qed

end
