(* ===== verification/Pb_Field.thy ===== *)
theory Pb_Field
  imports Pb_Wire
begin

text \<open>
  Message types as nanopb describes them: the field descriptors of \<open>pb.h\<close>, the iterator over them of
  \<open>pb_common.c\<close>, and the memory that holds the messages.
\<close>

section \<open>Memory\<close>

text \<open>
  Memory is a function from addresses to bytes. A message is a C structure in it; the targets are
  little-endian and their pointers have eight bytes.
\<close>

type_synonym address = u64

type_synonym memory = "address \<Rightarrow> u8"

definition mem_bytes :: "memory \<Rightarrow> address \<Rightarrow> nat \<Rightarrow> bytes" where
  "mem_bytes m a n = map (\<lambda>i. m (a + of_nat i)) [0..<n]"

definition of_le :: "bytes \<Rightarrow> 'a::len word" where
  "of_le xs = foldr (\<lambda>x w. push_bit 8 w OR ucast x) xs 0"

definition load8 :: "memory \<Rightarrow> address \<Rightarrow> u8" where "load8 m a = m a"
definition load16 :: "memory \<Rightarrow> address \<Rightarrow> 16 word" where "load16 m a = of_le (mem_bytes m a 2)"
definition load32 :: "memory \<Rightarrow> address \<Rightarrow> u32" where "load32 m a = of_le (mem_bytes m a 4)"
definition load64 :: "memory \<Rightarrow> address \<Rightarrow> u64" where "load64 m a = of_le (mem_bytes m a 8)"

lemma length_mem_bytes [simp]: "length (mem_bytes m a n) = n"
  by (simp add: mem_bytes_def)

section \<open>Descriptors\<close>

text \<open>
  \<open>ptr\<close> points to the descriptors of a submessage or to a default value. A message type is given by its
  number, so that types can refer to each other and to themselves.
\<close>

datatype pb_ptr = Null | Submessage nat | Default_value bytes

record pb_field =
  f_tag :: u32
  f_type :: u8
  f_data_offset :: u32
  f_size_offset :: u32
  f_data_size :: u32
  f_array_size :: u32
  f_ptr :: pb_ptr

definition PB_LTYPE_MASK :: u8 where "PB_LTYPE_MASK = 0x0F"
definition PB_HTYPE_MASK :: u8 where "PB_HTYPE_MASK = 0x30"
definition PB_ATYPE_MASK :: u8 where "PB_ATYPE_MASK = 0xC0"

definition PB_LTYPE :: "u8 \<Rightarrow> u8" where "PB_LTYPE x = x AND PB_LTYPE_MASK"
definition PB_HTYPE :: "u8 \<Rightarrow> u8" where "PB_HTYPE x = x AND PB_HTYPE_MASK"
definition PB_ATYPE :: "u8 \<Rightarrow> u8" where "PB_ATYPE x = x AND PB_ATYPE_MASK"

definition PB_LTYPE_BOOL :: u8 where "PB_LTYPE_BOOL = 0x00"
definition PB_LTYPE_VARINT :: u8 where "PB_LTYPE_VARINT = 0x01"
definition PB_LTYPE_UVARINT :: u8 where "PB_LTYPE_UVARINT = 0x02"
definition PB_LTYPE_SVARINT :: u8 where "PB_LTYPE_SVARINT = 0x03"
definition PB_LTYPE_FIXED32 :: u8 where "PB_LTYPE_FIXED32 = 0x04"
definition PB_LTYPE_FIXED64 :: u8 where "PB_LTYPE_FIXED64 = 0x05"
definition PB_LTYPE_LAST_PACKABLE :: u8 where "PB_LTYPE_LAST_PACKABLE = 0x05"
definition PB_LTYPE_BYTES :: u8 where "PB_LTYPE_BYTES = 0x06"
definition PB_LTYPE_STRING :: u8 where "PB_LTYPE_STRING = 0x07"
definition PB_LTYPE_SUBMESSAGE :: u8 where "PB_LTYPE_SUBMESSAGE = 0x08"
definition PB_LTYPE_EXTENSION :: u8 where "PB_LTYPE_EXTENSION = 0x09"
definition PB_LTYPE_FIXED_LENGTH_BYTES :: u8 where "PB_LTYPE_FIXED_LENGTH_BYTES = 0x0A"

definition PB_HTYPE_REQUIRED :: u8 where "PB_HTYPE_REQUIRED = 0x00"
definition PB_HTYPE_OPTIONAL :: u8 where "PB_HTYPE_OPTIONAL = 0x10"
definition PB_HTYPE_REPEATED :: u8 where "PB_HTYPE_REPEATED = 0x20"
definition PB_HTYPE_ONEOF :: u8 where "PB_HTYPE_ONEOF = 0x30"

definition PB_ATYPE_STATIC :: u8 where "PB_ATYPE_STATIC = 0x00"
definition PB_ATYPE_POINTER :: u8 where "PB_ATYPE_POINTER = 0x80"
definition PB_ATYPE_CALLBACK :: u8 where "PB_ATYPE_CALLBACK = 0x40"

definition PB_SIZE_MAX :: u32 where "PB_SIZE_MAX = - 1"

lemmas ltypes = PB_LTYPE_BOOL_def PB_LTYPE_VARINT_def PB_LTYPE_UVARINT_def PB_LTYPE_SVARINT_def PB_LTYPE_FIXED32_def
  PB_LTYPE_FIXED64_def PB_LTYPE_LAST_PACKABLE_def PB_LTYPE_BYTES_def PB_LTYPE_STRING_def PB_LTYPE_SUBMESSAGE_def
  PB_LTYPE_EXTENSION_def PB_LTYPE_FIXED_LENGTH_BYTES_def

lemmas htypes = PB_HTYPE_REQUIRED_def PB_HTYPE_OPTIONAL_def PB_HTYPE_REPEATED_def PB_HTYPE_ONEOF_def

lemmas atypes = PB_ATYPE_STATIC_def PB_ATYPE_POINTER_def PB_ATYPE_CALLBACK_def

lemmas type_masks = PB_LTYPE_def PB_HTYPE_def PB_ATYPE_def PB_LTYPE_MASK_def PB_HTYPE_MASK_def PB_ATYPE_MASK_def

text \<open>An array of descriptors ends with \<open>PB_LAST_FIELD\<close>; a table holds those before it.\<close>

definition PB_LAST_FIELD :: pb_field where
  "PB_LAST_FIELD = \<lparr>f_tag = 0, f_type = 0, f_data_offset = 0, f_size_offset = 0, f_data_size = 0, f_array_size = 0,
     f_ptr = Null\<rparr>"

definition descriptor :: "pb_field list \<Rightarrow> nat \<Rightarrow> pb_field" where
  "descriptor tbl i = (if i < length tbl then tbl ! i else PB_LAST_FIELD)"

section \<open>The iterator\<close>

text \<open>\<open>pos\<close> is the index of the descriptor; \<open>dest_struct\<close>, \<open>it_pData\<close> and \<open>it_pSize\<close> are addresses.\<close>

record pb_field_iter =
  it_start :: "pb_field list"
  it_pos :: nat
  required_field_index :: u32
  dest_struct :: address
  it_pData :: address
  it_pSize :: address

abbreviation it_field :: "pb_field_iter \<Rightarrow> pb_field" where
  "it_field it \<equiv> descriptor (it_start it) (it_pos it)"

definition pb_field_iter_begin :: "pb_field list \<Rightarrow> address \<Rightarrow> bool \<times> pb_field_iter" where
  "pb_field_iter_begin tbl dest =
     (let pos = descriptor tbl 0; d = dest + ucast (f_data_offset pos) in
      (f_tag pos \<noteq> 0,
       \<lparr>it_start = tbl, it_pos = 0, required_field_index = 0, dest_struct = dest, it_pData = d,
        it_pSize = d + scast (f_size_offset pos)\<rparr>))"

definition pb_field_iter_next :: "pb_field_iter \<Rightarrow> bool \<times> pb_field_iter" where
  "pb_field_iter_next it =
     (let prev_field = it_field it in
      if f_tag prev_field = 0 then (False, it)
      else
        (let it = it\<lparr>it_pos := it_pos it + 1\<rparr>; pos = it_field it in
         if f_tag pos = 0 then (False, snd (pb_field_iter_begin (it_start it) (dest_struct it)))
         else if PB_HTYPE (f_type prev_field) = PB_HTYPE_ONEOF \<and> PB_HTYPE (f_type pos) = PB_HTYPE_ONEOF \<and>
           f_data_offset pos = PB_SIZE_MAX then (True, it)
         else
           (let prev_size = (ucast (f_data_size prev_field) :: size_t);
                prev_size =
                  (if PB_ATYPE (f_type prev_field) = PB_ATYPE_STATIC \<and> PB_HTYPE (f_type prev_field) = PB_HTYPE_REPEATED
                   then prev_size * ucast (f_array_size prev_field)
                   else if PB_ATYPE (f_type prev_field) = PB_ATYPE_POINTER then 8 else prev_size);
                it = (if PB_HTYPE (f_type prev_field) = PB_HTYPE_REQUIRED
                      then it\<lparr>required_field_index := required_field_index it + 1\<rparr> else it);
                d = it_pData it + prev_size + ucast (f_data_offset pos)
            in (True, it\<lparr>it_pData := d, it_pSize := d + scast (f_size_offset pos)\<rparr>))))"

text \<open>
  The loop of \<open>pb_field_iter_find\<close> and \<open>find_extension_field\<close>, which differ in what they look for. It ends when
  it is back at \<open>start\<close>; an iterator that points behind the end of its array never gets there.
\<close>

partial_function (option) search :: "(pb_field \<Rightarrow> bool) \<Rightarrow> nat \<Rightarrow> pb_field_iter \<Rightarrow> (bool \<times> pb_field_iter) option" where
  "search P start it =
     (if P (it_field it) then Some (True, it)
      else
        (let it = snd (pb_field_iter_next it) in
         if it_pos it \<noteq> start then search P start it else Some (False, it)))"

declare search.simps [code]

definition pb_field_iter_find :: "pb_field_iter \<Rightarrow> u32 \<Rightarrow> (bool \<times> pb_field_iter) option" where
  "pb_field_iter_find it tag =
     search (\<lambda>pos. f_tag pos = tag \<and> PB_LTYPE (f_type pos) \<noteq> PB_LTYPE_EXTENSION) (it_pos it) it"

definition find_extension_field :: "pb_field_iter \<Rightarrow> (bool \<times> pb_field_iter) option" where
  "find_extension_field it = search (\<lambda>pos. PB_LTYPE (f_type pos) = PB_LTYPE_EXTENSION) (it_pos it) it"

section \<open>Where the iterator can be\<close>

text \<open>The fields of a table, and the iterator at each of them.\<close>

definition n_fields :: "pb_field list \<Rightarrow> nat" where
  "n_fields tbl = length (takeWhile (\<lambda>f. f_tag f \<noteq> 0) tbl)"

primrec iter_at :: "pb_field list \<Rightarrow> address \<Rightarrow> nat \<Rightarrow> pb_field_iter" where
  "iter_at tbl dest 0 = snd (pb_field_iter_begin tbl dest)"
| "iter_at tbl dest (Suc i) = snd (pb_field_iter_next (iter_at tbl dest i))"

lemma n_fields_tag: "i < n_fields tbl \<Longrightarrow> f_tag (descriptor tbl i) \<noteq> 0"
  unfolding n_fields_def descriptor_def
  using takeWhile_nth [of i "\<lambda>f. f_tag f \<noteq> 0" tbl] set_takeWhileD [of "takeWhile (\<lambda>f. f_tag f \<noteq> 0) tbl ! i" _ tbl]
    nth_mem [of i "takeWhile (\<lambda>f. f_tag f \<noteq> 0) tbl"] length_takeWhile_le [of _ tbl]
  by (metis (mono_tags, lifting) order_less_le_trans)

lemma n_fields_end: "f_tag (descriptor tbl (n_fields tbl)) = 0"
  using nth_length_takeWhile [of "\<lambda>f. f_tag f \<noteq> 0" tbl]
  by (auto simp: n_fields_def descriptor_def PB_LAST_FIELD_def)

lemma begin_props: "it_start (snd (pb_field_iter_begin tbl dest)) = tbl" "it_pos (snd (pb_field_iter_begin tbl dest)) = 0"
  "dest_struct (snd (pb_field_iter_begin tbl dest)) = dest"
  by (simp_all add: pb_field_iter_begin_def Let_def)

lemma next_inside:
  assumes "f_tag (it_field it) \<noteq> 0" and "f_tag (descriptor (it_start it) (Suc (it_pos it))) \<noteq> 0"
  shows "fst (pb_field_iter_next it)" "it_pos (snd (pb_field_iter_next it)) = Suc (it_pos it)"
    "it_start (snd (pb_field_iter_next it)) = it_start it" "dest_struct (snd (pb_field_iter_next it)) = dest_struct it"
  using assms by (simp_all add: pb_field_iter_next_def Let_def)

lemma next_wraps:
  assumes "f_tag (it_field it) \<noteq> 0" and "f_tag (descriptor (it_start it) (Suc (it_pos it))) = 0"
  shows "pb_field_iter_next it = (False, iter_at (it_start it) (dest_struct it) 0)"
  using assms by (simp add: pb_field_iter_next_def Let_def)

lemma iter_at_props:
  "i < n_fields tbl \<or> i = 0 \<Longrightarrow>
   it_pos (iter_at tbl dest i) = i \<and> it_start (iter_at tbl dest i) = tbl \<and> dest_struct (iter_at tbl dest i) = dest"
proof (induction i)
  case (Suc i)
  then have "it_pos (iter_at tbl dest i) = i" "it_start (iter_at tbl dest i) = tbl" "dest_struct (iter_at tbl dest i) = dest"
    by auto
  then show ?case using n_fields_tag [of i tbl] n_fields_tag [of "Suc i" tbl] Suc.prems
      next_inside [of "iter_at tbl dest i"] by simp
qed (simp add: begin_props)

lemma iter_at_field: "i < n_fields tbl \<Longrightarrow> it_field (iter_at tbl dest i) = descriptor tbl i"
  by (simp add: iter_at_props)

lemma next_iter_at:
  assumes "i < n_fields tbl"
  shows "pb_field_iter_next (iter_at tbl dest i) = (Suc i < n_fields tbl, iter_at tbl dest (if Suc i < n_fields tbl then Suc i else 0))"
proof -
  note p = iter_at_props [of i tbl dest] n_fields_tag [OF assms]
  show ?thesis
  proof (cases "Suc i < n_fields tbl")
    case True
    with p next_inside(1) [of "iter_at tbl dest i"] n_fields_tag [OF True] assms show ?thesis
      by (simp add: prod_eq_iff)
  next
    case False
    then have "Suc i = n_fields tbl" using assms by simp
    then have "f_tag (descriptor tbl (Suc i)) = 0" using n_fields_end [of tbl] by simp
    with False p assms next_wraps [of "iter_at tbl dest i"] show ?thesis by simp
  qed
qed

section \<open>What a search finds\<close>

definition search_result :: "(pb_field \<Rightarrow> bool) \<Rightarrow> pb_field list \<Rightarrow> address \<Rightarrow> nat \<Rightarrow> nat list \<Rightarrow> bool \<times> pb_field_iter" where
  "search_result P tbl dest start js =
     (case find (\<lambda>j. P (descriptor tbl j)) js of
        Some j \<Rightarrow> (True, iter_at tbl dest j) | None \<Rightarrow> (False, iter_at tbl dest start))"

lemma search_step:
  assumes "j < n_fields tbl" and "j' = (if Suc j < n_fields tbl then Suc j else 0)"
  shows "search P start (iter_at tbl dest j) =
    (if P (descriptor tbl j) then Some (True, iter_at tbl dest j)
     else if j' = start then Some (False, iter_at tbl dest j')
     else search P start (iter_at tbl dest j'))"
proof -
  have "j' < n_fields tbl" using assms by auto
  then have "it_pos (iter_at tbl dest j') = j'" by (simp add: iter_at_props)
  then show ?thesis
    by (subst search.simps) (simp add: next_iter_at [OF assms(1)] iter_at_field [OF assms(1)] assms(2) [symmetric] Let_def)
qed

lemma search_before:
  assumes "j < start" and "start < n_fields tbl"
  shows "search P start (iter_at tbl dest j) = Some (search_result P tbl dest start [j..<start])"
  using assms(1)
proof (induction rule: strict_inc_induct)
  case (base j)
  then have "[j..<start] = [j]" by (metis upt_conv_Cons lessI upt_rec less_irrefl)
  then show ?case using base assms(2) by (subst search_step [OF _ refl]) (auto simp: search_result_def)
next
  case (step j)
  then have "[j..<start] = j # [Suc j..<start]" by (simp add: upt_conv_Cons)
  then show ?case using step assms(2) by (subst search_step [OF _ refl]) (auto simp: search_result_def)
qed

lemma search_behind:
  assumes "start \<le> j" and "j < n_fields tbl"
  shows "search P start (iter_at tbl dest j) = Some (search_result P tbl dest start ([j..<n_fields tbl] @ [0..<start]))"
  using assms(2,1)
proof (induction rule: strict_inc_induct)
  case (base j)
  then have "[j..<n_fields tbl] = [j]" by (metis upt_conv_Cons lessI upt_rec less_irrefl)
  then show ?case
    using base search_before [of 0 start tbl P dest]
    by (subst search_step [OF _ refl]) (auto simp: search_result_def)
next
  case (step j)
  then have "[j..<n_fields tbl] = j # [Suc j..<n_fields tbl]" by (simp add: upt_conv_Cons)
  then show ?case using step by (subst search_step [OF _ refl]) (auto simp: search_result_def)
qed

lemma search_empty: "n_fields tbl = 0 \<Longrightarrow> search P 0 (iter_at tbl dest 0) = Some (P (descriptor tbl 0), iter_at tbl dest 0)"
proof -
  assume e: "n_fields tbl = 0"
  then have "f_tag (descriptor tbl 0) = 0" using n_fields_end [of tbl] by simp
  then have "snd (pb_field_iter_next (iter_at tbl dest 0)) = iter_at tbl dest 0"
    by (simp add: pb_field_iter_next_def begin_props Let_def)
  then show ?thesis by (subst search.simps) (simp add: begin_props del: iter_at.simps, simp add: begin_props)
qed

text \<open>
  C31: \<open>pb_field_iter_find\<close> always returns. From any field of a message type it finds the first field with the
  wanted tag that is not an extension placeholder, looking from that field to the last and then from the first,
  and leaves the iterator there, with the pointers a walk from the start of the message gives; when there is none,
  the iterator is where it was.
\<close>

theorem iter_find_returns:
  assumes "i < n_fields tbl"
  shows "pb_field_iter_find (iter_at tbl dest i) tag =
    Some (case find (\<lambda>j. f_tag (descriptor tbl j) = tag \<and> PB_LTYPE (f_type (descriptor tbl j)) \<noteq> PB_LTYPE_EXTENSION)
                 ([i..<n_fields tbl] @ [0..<i]) of
        Some j \<Rightarrow> (True, iter_at tbl dest j) | None \<Rightarrow> (False, iter_at tbl dest i))"
  using assms search_behind [of i i tbl]
  by (simp add: pb_field_iter_find_def iter_at_props search_result_def)

theorem iter_find_returns_witness:
  "pb_field_iter_find (iter_at [\<lparr>f_tag = 1, f_type = 0x12, f_data_offset = 4, f_size_offset = - 4, f_data_size = 4,
      f_array_size = 0, f_ptr = Null\<rparr>, \<lparr>f_tag = 2, f_type = 2, f_data_offset = 0, f_size_offset = 0, f_data_size = 8,
      f_array_size = 0, f_ptr = Null\<rparr>] 0x1000 1) 1 =
   Some (True, \<lparr>it_start = [\<lparr>f_tag = 1, f_type = 0x12, f_data_offset = 4, f_size_offset = - 4, f_data_size = 4,
      f_array_size = 0, f_ptr = Null\<rparr>, \<lparr>f_tag = 2, f_type = 2, f_data_offset = 0, f_size_offset = 0, f_data_size = 8,
      f_array_size = 0, f_ptr = Null\<rparr>], it_pos = 0, required_field_index = 0, dest_struct = 0x1000, it_pData = 0x1004,
      it_pSize = 0x1000\<rparr>)"
  by (subst iter_find_returns)
    (simp_all add: n_fields_def descriptor_def type_masks ltypes upt_rec pb_field_iter_begin_def Let_def)

end
