(* ===== verification/Pb_Encode.thy ===== *)
theory Pb_Encode
  imports Pb_Field
begin

text \<open>
  The encoder of \<open>pb_encode.c\<close>, which walks over a message in memory as its descriptors say.
\<close>

section \<open>Runs\<close>

text \<open>
  A run may have no result at all: when it calls through a null pointer or one from outside its table, reads a
  pointer of the wrong kind, or nests deeper than the bound it is given.
\<close>

type_synonym ('s, 'a) run = "'s \<Rightarrow> ('a option \<times> 's) option"

definition run_op :: "('s, 'a) op \<Rightarrow> ('s, 'a) run" where
  "run_op m s = Some (m s)"

definition stuck :: "('s, 'a) run" where
  "stuck s = None"

definition chk_run :: "('s, 'a) run \<Rightarrow> ('a \<Rightarrow> ('s, 'b) run) \<Rightarrow> ('s, 'b) run" where
  "chk_run m f s =
     (case m s of None \<Rightarrow> None | Some (None, s) \<Rightarrow> Some (None, s) | Some (Some a, s) \<Rightarrow> f a s)"

lemma run_op_apply [simp]: "run_op m s = Some (m s)"
  by (simp add: run_op_def)

lemma stuck_apply [simp]: "stuck s = None"
  by (simp add: stuck_def)

lemma chk_run_simps [simp]:
  "m s = None \<Longrightarrow> chk_run m f s = None"
  "m s = Some (None, s') \<Longrightarrow> chk_run m f s = Some (None, s')"
  "m s = Some (Some a, s') \<Longrightarrow> chk_run m f s = f a s'"
  by (simp_all add: chk_run_def)

lemma chk_run_cong [fundef_cong]:
  "m s = m' s' \<Longrightarrow> (\<And>a t. m' s' = Some (Some a, t) \<Longrightarrow> f a t = f' a t) \<Longrightarrow> chk_run m f s = chk_run m' f' s'"
  by (auto simp: chk_run_def split: option.splits prod.splits)

text \<open>A stream only counts when its callback is NULL.\<close>

fun is_sizing :: "'s sink \<Rightarrow> bool" where
  "is_sizing Sizing \<longleftrightarrow> True"
| "is_sizing _ \<longleftrightarrow> False"

lemma is_sizing [code_unfold]: "c = Sizing \<longleftrightarrow> is_sizing c" "HOL.equal c Sizing \<longleftrightarrow> is_sizing c"
  by (cases c; simp add: equal)+

section \<open>The surroundings of a message\<close>

text \<open>
  Message types by number, memory, the encoding callbacks by the address of their code, and, for an extension type
  at an address, its encoding function and the descriptor \<open>arg\<close> points to; 0 is the null pointer. Callbacks only
  read memory.
\<close>

record 's pb_env =
  types :: "nat \<Rightarrow> pb_field list"
  heap :: memory
  callbacks :: "u64 \<Rightarrow> pb_field \<Rightarrow> address \<Rightarrow> ('s ostream, unit) op"
  extension_type :: "address \<Rightarrow> u64 \<times> pb_field"
  extension_encoders :: "u64 \<Rightarrow> address \<Rightarrow> ('s ostream, unit) op"

text \<open>An encoder writes the value at an address as its descriptor says; a message encoder, a message.\<close>

type_synonym 's encoder = "pb_field \<Rightarrow> address \<Rightarrow> ('s ostream, unit) run"

type_synonym 's message_encoder = "nat \<Rightarrow> address \<Rightarrow> ('s ostream, unit) run"

section \<open>Scalars\<close>

text \<open>\<open>sizeof(bool)\<close> is 1.\<close>

definition safe_read_bool :: "memory \<Rightarrow> address \<Rightarrow> bool" where
  "safe_read_bool m pSize = (m pSize \<noteq> 0)"

definition pb_enc_bool :: "'s pb_env \<Rightarrow> 's encoder" where
  "pb_enc_bool E field src = run_op (pb_encode_varint (if safe_read_bool (heap E) src then 1 else 0))"

definition pb_enc_varint :: "'s pb_env \<Rightarrow> 's encoder" where
  "pb_enc_varint E field src =
     (if f_data_size field = 1 then run_op (pb_encode_varint (scast (load8 (heap E) src)))
      else if f_data_size field = 2 then run_op (pb_encode_varint (scast (load16 (heap E) src)))
      else if f_data_size field = 4 then run_op (pb_encode_varint (scast (load32 (heap E) src)))
      else if f_data_size field = 8 then run_op (pb_encode_varint (load64 (heap E) src))
      else run_op (ostream_error ''invalid data_size''))"

definition pb_enc_uvarint :: "'s pb_env \<Rightarrow> 's encoder" where
  "pb_enc_uvarint E field src =
     (if f_data_size field = 1 then run_op (pb_encode_varint (ucast (load8 (heap E) src)))
      else if f_data_size field = 2 then run_op (pb_encode_varint (ucast (load16 (heap E) src)))
      else if f_data_size field = 4 then run_op (pb_encode_varint (ucast (load32 (heap E) src)))
      else if f_data_size field = 8 then run_op (pb_encode_varint (load64 (heap E) src))
      else run_op (ostream_error ''invalid data_size''))"

definition pb_enc_svarint :: "'s pb_env \<Rightarrow> 's encoder" where
  "pb_enc_svarint E field src =
     (if f_data_size field = 1 then run_op (pb_encode_svarint (scast (load8 (heap E) src)))
      else if f_data_size field = 2 then run_op (pb_encode_svarint (scast (load16 (heap E) src)))
      else if f_data_size field = 4 then run_op (pb_encode_svarint (scast (load32 (heap E) src)))
      else if f_data_size field = 8 then run_op (pb_encode_svarint (load64 (heap E) src))
      else run_op (ostream_error ''invalid data_size''))"

definition pb_enc_fixed32 :: "'s pb_env \<Rightarrow> 's encoder" where
  "pb_enc_fixed32 E field src = run_op (pb_encode_fixed32 (load32 (heap E) src))"

definition pb_enc_fixed64 :: "'s pb_env \<Rightarrow> 's encoder" where
  "pb_enc_fixed64 E field src = run_op (pb_encode_fixed64 (load64 (heap E) src))"

text \<open>A \<open>pb_bytes_array_t\<close>: its size, and behind the four bytes of it, the bytes.\<close>

definition PB_BYTES_ARRAY_T_ALLOCSIZE :: "u32 \<Rightarrow> size_t" where
  "PB_BYTES_ARRAY_T_ALLOCSIZE n = ucast n + 4"

definition pb_enc_bytes :: "'s pb_env \<Rightarrow> 's encoder" where
  "pb_enc_bytes E field src =
     (if src = 0 then run_op (pb_encode_string [] 0)
      else
        (let sz = load32 (heap E) src; allocsize = PB_BYTES_ARRAY_T_ALLOCSIZE sz in
         if allocsize < ucast sz \<or>
           PB_ATYPE (f_type field) = PB_ATYPE_STATIC \<and> allocsize > ucast (f_data_size field)
         then run_op (ostream_error ''bytes size exceeded'')
         else run_op (pb_encode_string (mem_bytes (heap E) (src + 4) (unat sz)) (ucast sz))))"

function string_length :: "memory \<Rightarrow> size_t \<Rightarrow> size_t \<Rightarrow> address \<Rightarrow> size_t" where
  "string_length m limit sz p =
     (if sz < limit \<and> m p \<noteq> 0 then string_length m limit (sz + 1) (p + 1) else sz)"
  by pat_completeness auto
termination
proof (relation "measure (\<lambda>(m, limit, sz, p). unat limit - unat sz)")
  fix m :: memory and limit sz :: size_t and p :: address
  assume a: "sz < limit \<and> m p \<noteq> 0"
  then have "unat (sz + 1) = unat sz + 1"
    using unat_lt_size_max [of limit] by (simp add: word_less_nat_alt unat_word_ariths)
  with a show "((m, limit, sz + 1, p + 1), (m, limit, sz, p)) \<in> measure (\<lambda>(m, limit, sz, p). unat limit - unat sz)"
    by (auto simp: word_less_nat_alt)
qed simp

declare string_length.simps [simp del]

definition pb_enc_string :: "'s pb_env \<Rightarrow> 's encoder" where
  "pb_enc_string E field src =
     (let limit = (if PB_ATYPE (f_type field) = PB_ATYPE_POINTER then - 1 else ucast (f_data_size field) :: size_t);
          sz = (if src = 0 then 0 else string_length (heap E) limit 0 src)
      in run_op (pb_encode_string (mem_bytes (heap E) src (unat sz)) sz))"

definition pb_enc_fixed_length_bytes :: "'s pb_env \<Rightarrow> 's encoder" where
  "pb_enc_fixed_length_bytes E field src =
     run_op (pb_encode_string (mem_bytes (heap E) src (unat (f_data_size field))) (ucast (f_data_size field)))"

section \<open>Submessages\<close>

text \<open>From the test whether the stream only counts: the second pass, on a substream of the size found in the first.\<close>

definition write_submessage :: "'s message_encoder \<Rightarrow> nat \<Rightarrow> address \<Rightarrow> size_t \<Rightarrow> ('s ostream, unit) run" where
  "write_submessage pb_encode t src sz s =
     (if sink s = Sizing then run_op (pb_write_n [] sz) s
      else if bytes_written s + sz > max_size s then run_op (ostream_error ''stream full'') s
      else
        (case pb_encode t src \<lparr>sink = sink s, max_size = sz, bytes_written = 0, oerrmsg = None\<rparr> of
           None \<Rightarrow> None
         | Some (status, substream) \<Rightarrow>
             (let s = s\<lparr>bytes_written := bytes_written s + bytes_written substream, sink := sink substream,
                        oerrmsg := oerrmsg substream\<rparr> in
              if bytes_written substream \<noteq> sz then run_op (ostream_error ''submsg size changed'') s
              else Some (status, s))))"

definition pb_encode_submessage :: "'s message_encoder \<Rightarrow> 's message_encoder" where
  "pb_encode_submessage pb_encode t src s =
     (case pb_encode t src PB_OSTREAM_SIZING of
        None \<Rightarrow> None
      | Some (None, substream) \<Rightarrow> Some (None, s\<lparr>oerrmsg := oerrmsg substream\<rparr>)
      | Some (Some _, substream) \<Rightarrow>
          (let sz = bytes_written substream in
           chk_run (run_op (pb_encode_varint sz)) (\<lambda>_. write_submessage pb_encode t src sz) s))"

definition pb_enc_submessage :: "'s message_encoder \<Rightarrow> 's encoder" where
  "pb_enc_submessage pb_encode field src =
     (case f_ptr field of
        Null \<Rightarrow> run_op (ostream_error ''invalid field descriptor'')
      | Submessage t \<Rightarrow> pb_encode_submessage pb_encode t src
      | Default_value _ \<Rightarrow> stuck)"

section \<open>Fields\<close>

text \<open>The table of the encoders; there is none for extensions.\<close>

definition PB_ENCODERS :: "'s pb_env \<Rightarrow> 's message_encoder \<Rightarrow> u8 \<Rightarrow> 's encoder" where
  "PB_ENCODERS E pb_encode ltype =
     (if ltype = PB_LTYPE_BOOL then pb_enc_bool E
      else if ltype = PB_LTYPE_VARINT then pb_enc_varint E
      else if ltype = PB_LTYPE_UVARINT then pb_enc_uvarint E
      else if ltype = PB_LTYPE_SVARINT then pb_enc_svarint E
      else if ltype = PB_LTYPE_FIXED32 then pb_enc_fixed32 E
      else if ltype = PB_LTYPE_FIXED64 then pb_enc_fixed64 E
      else if ltype = PB_LTYPE_BYTES then pb_enc_bytes E
      else if ltype = PB_LTYPE_STRING then pb_enc_string E
      else if ltype = PB_LTYPE_SUBMESSAGE then pb_enc_submessage pb_encode
      else if ltype = PB_LTYPE_FIXED_LENGTH_BYTES then pb_enc_fixed_length_bytes E
      else (\<lambda>_ _. stuck))"

definition pb_encode_tag_for_field :: "pb_field \<Rightarrow> ('s ostream, unit) op" where
  "pb_encode_tag_for_field field =
     (let ltype = PB_LTYPE (f_type field) in
      if ltype \<in> {PB_LTYPE_BOOL, PB_LTYPE_VARINT, PB_LTYPE_UVARINT, PB_LTYPE_SVARINT}
      then pb_encode_tag PB_WT_VARINT (f_tag field)
      else if ltype = PB_LTYPE_FIXED32 then pb_encode_tag PB_WT_32BIT (f_tag field)
      else if ltype = PB_LTYPE_FIXED64 then pb_encode_tag PB_WT_64BIT (f_tag field)
      else if ltype \<in> {PB_LTYPE_BYTES, PB_LTYPE_STRING, PB_LTYPE_SUBMESSAGE, PB_LTYPE_FIXED_LENGTH_BYTES}
      then pb_encode_tag PB_WT_STRING (f_tag field)
      else ostream_error ''invalid field type'')"

text \<open>The loops over the items of an array.\<close>

primrec for_items :: "nat \<Rightarrow> u64 \<Rightarrow> (address \<Rightarrow> ('s, unit) run) \<Rightarrow> address \<Rightarrow> ('s, unit) run" where
  "for_items 0 sz f p = run_op (succeed ())"
| "for_items (Suc n) sz f p = chk_run (f p) (\<lambda>_. for_items n sz f (p + sz))"

definition packed_size :: "pb_field \<Rightarrow> address \<Rightarrow> size_t \<Rightarrow> 's encoder \<Rightarrow> size_t option option" where
  "packed_size field pData count func =
     (if PB_LTYPE (f_type field) = PB_LTYPE_FIXED32 then Some (Some (4 * count))
      else if PB_LTYPE (f_type field) = PB_LTYPE_FIXED64 then Some (Some (8 * count))
      else
        (case for_items (unat count) (ucast (f_data_size field)) (func field) pData PB_OSTREAM_SIZING of
           None \<Rightarrow> None
         | Some (None, _) \<Rightarrow> Some None
         | Some (Some _, sizestream) \<Rightarrow> Some (Some (bytes_written sizestream))))"

definition encode_array :: "'s pb_env \<Rightarrow> pb_field \<Rightarrow> address \<Rightarrow> size_t \<Rightarrow> 's encoder \<Rightarrow> ('s ostream, unit) run" where
  "encode_array E field pData count func =
     (if count = 0 then run_op (succeed ())
      else if PB_ATYPE (f_type field) \<noteq> PB_ATYPE_POINTER \<and> count > ucast (f_array_size field)
      then run_op (ostream_error ''array max size exceeded'')
      else if PB_LTYPE (f_type field) \<le> PB_LTYPE_LAST_PACKABLE then
        chk_run (run_op (pb_encode_tag PB_WT_STRING (f_tag field))) (\<lambda>_ s.
          case packed_size field pData count func of
            None \<Rightarrow> None
          | Some None \<Rightarrow> Some (None, s)
          | Some (Some sz) \<Rightarrow>
              chk_run (run_op (pb_encode_varint sz)) (\<lambda>_ s.
                if sink s = Sizing then run_op (pb_write_n [] sz) s
                else for_items (unat count) (ucast (f_data_size field)) (func field) pData s) s)
      else
        for_items (unat count) (ucast (f_data_size field))
          (\<lambda>p. chk_run (run_op (pb_encode_tag_for_field field)) (\<lambda>_.
             if PB_ATYPE (f_type field) = PB_ATYPE_POINTER \<and>
               (PB_LTYPE (f_type field) = PB_LTYPE_STRING \<or> PB_LTYPE (f_type field) = PB_LTYPE_BYTES)
             then func field (load64 (heap E) p)
             else func field p)) pData)"

section \<open>Loops over the fields\<close>

text \<open>
  \<open>do { ... } while (pb_field_iter_next(&iter))\<close>, with a condition that ends the loop with \<open>false\<close>, and with a
  run.
\<close>

lemma next_True:
  assumes "pb_field_iter_next it = (True, it')"
  shows "it_start it' = it_start it \<and> it_pos it' = Suc (it_pos it) \<and> Suc (it_pos it) < length (it_start it)"
proof -
  have "f_tag (descriptor (it_start it) (Suc (it_pos it))) \<noteq> 0" "it_start it' = it_start it" "it_pos it' = Suc (it_pos it)"
    using assms by (auto simp: pb_field_iter_next_def Let_def split: if_splits)
  then show ?thesis by (auto simp: descriptor_def PB_LAST_FIELD_def split: if_splits)
qed

function all_fields :: "(pb_field_iter \<Rightarrow> bool option) \<Rightarrow> pb_field_iter \<Rightarrow> bool option" where
  "all_fields body it =
     (case body it of
        None \<Rightarrow> None
      | Some False \<Rightarrow> Some False
      | Some True \<Rightarrow> (case pb_field_iter_next it of (True, it) \<Rightarrow> all_fields body it | (False, _) \<Rightarrow> Some True))"
  by pat_completeness auto
termination
  by (relation "measure (\<lambda>(body, it). length (it_start it) - it_pos it)") (auto dest: next_True [OF sym])

declare all_fields.simps [simp del]

function for_fields :: "(pb_field_iter \<Rightarrow> ('s, unit) run) \<Rightarrow> pb_field_iter \<Rightarrow> ('s, unit) run" where
  "for_fields body it s =
     chk_run (body it)
       (\<lambda>_. case pb_field_iter_next it of (True, it) \<Rightarrow> for_fields body it | (False, _) \<Rightarrow> run_op (succeed ())) s"
  by pat_completeness auto
termination
  by (relation "measure (\<lambda>(body, it, s). length (it_start it) - it_pos it)") (auto dest: next_True [OF sym])

declare for_fields.simps [simp del]

section \<open>Whole fields\<close>

text \<open>
  \<open>pb_check_proto3_default_value\<close> calls itself for submessages; the bound is on that nesting.
\<close>

primrec pb_check_proto3_default_value :: "'s pb_env \<Rightarrow> nat \<Rightarrow> pb_field \<Rightarrow> address \<Rightarrow> bool option" where
  "pb_check_proto3_default_value E 0 = (\<lambda>field pData. None)"
| "pb_check_proto3_default_value E (Suc d) = (\<lambda>field pData.
     let type = f_type field; pSize = pData + scast (f_size_offset field) in
     if PB_HTYPE type = PB_HTYPE_REQUIRED then Some False
     else if PB_HTYPE type = PB_HTYPE_REPEATED \<and> f_size_offset field \<noteq> 0 then Some (load32 (heap E) pSize = 0)
     else if PB_HTYPE type = PB_HTYPE_REPEATED \<and> PB_ATYPE type = PB_ATYPE_STATIC then Some False
     else if PB_HTYPE type = PB_HTYPE_ONEOF then Some (load32 (heap E) pSize = 0)
     else if PB_HTYPE type = PB_HTYPE_OPTIONAL \<and> f_size_offset field \<noteq> 0 then Some (\<not> safe_read_bool (heap E) pSize)
     else if PB_ATYPE type = PB_ATYPE_STATIC \<and> PB_LTYPE type = PB_LTYPE_BYTES then Some (load32 (heap E) pData = 0)
     else if PB_ATYPE type = PB_ATYPE_STATIC \<and> PB_LTYPE type = PB_LTYPE_STRING then Some (load8 (heap E) pData = 0)
     else if PB_ATYPE type = PB_ATYPE_STATIC \<and> PB_LTYPE type = PB_LTYPE_FIXED_LENGTH_BYTES then Some (f_data_size field = 0)
     else if PB_ATYPE type = PB_ATYPE_STATIC \<and> PB_LTYPE type = PB_LTYPE_SUBMESSAGE then
       (case f_ptr field of
          Submessage t \<Rightarrow>
            (case pb_field_iter_begin (types E t) pData of
               (True, it) \<Rightarrow> all_fields (\<lambda>it. pb_check_proto3_default_value E d (it_field it) (it_pData it)) it
             | (False, _) \<Rightarrow> Some True)
        | _ \<Rightarrow> None)
     else if PB_ATYPE type = PB_ATYPE_POINTER \<and> PB_LTYPE type > PB_LTYPE_LAST_PACKABLE then Some (load64 (heap E) pData = 0)
     else Some (list_all (\<lambda>x. x = 0) (mem_bytes (heap E) pData (unat (f_data_size field)))))"

text \<open>\<open>pSize\<close> points to \<open>implicit_has\<close>, here \<open>has\<close>, when the descriptor has no \<open>size_offset\<close>.\<close>

definition encode_basic_field :: "'s pb_env \<Rightarrow> nat \<Rightarrow> 's message_encoder \<Rightarrow> 's encoder" where
  "encode_basic_field E d pb_encode field pData =
     (let func = PB_ENCODERS E pb_encode (PB_LTYPE (f_type field));
          pSize = pData + scast (f_size_offset field);
          has = (if f_size_offset field \<noteq> 0 then Some True
                 else if PB_HTYPE (f_type field) = PB_HTYPE_OPTIONAL
                 then map_option Not (pb_check_proto3_default_value E d field pData)
                 else Some True);
          pointer = (PB_ATYPE (f_type field) = PB_ATYPE_POINTER);
          pData = (if pointer then load64 (heap E) pData else pData)
      in case has of
           None \<Rightarrow> stuck
         | Some implicit_has \<Rightarrow>
             (let implicit_has = (if pointer then pData \<noteq> 0 else implicit_has);
                  write = chk_run (run_op (pb_encode_tag_for_field field)) (\<lambda>_. func field pData)
              in if PB_HTYPE (f_type field) = PB_HTYPE_REQUIRED then
                   (if pData = 0 then run_op (ostream_error ''missing required field'') else write)
                 else if PB_HTYPE (f_type field) = PB_HTYPE_OPTIONAL then
                   (if (if f_size_offset field \<noteq> 0 then safe_read_bool (heap E) pSize else implicit_has)
                    then write else run_op (succeed ()))
                 else if PB_HTYPE (f_type field) = PB_HTYPE_REPEATED then
                   (let count = (if f_size_offset field \<noteq> 0 then load32 (heap E) pSize else f_array_size field)
                    in encode_array E field pData (ucast count) func)
                 else
                   (if f_size_offset field = 0 then stuck
                    else if load32 (heap E) pSize = f_tag field then write else run_op (succeed ()))))"

text \<open>A \<open>pb_callback_t\<close> is the address of the function and its argument, of eight bytes each.\<close>

definition encode_callback_field :: "'s pb_env \<Rightarrow> 's encoder" where
  "encode_callback_field E field pData =
     (if load64 (heap E) pData \<noteq> 0 then
        run_op (\<lambda>s. case callbacks E (load64 (heap E) pData) field (pData + 8) s of
            (None, s) \<Rightarrow> ostream_error ''callback error'' s
          | (Some _, s) \<Rightarrow> (Some (), s))
      else run_op (succeed ()))"

definition encode_field :: "'s pb_env \<Rightarrow> nat \<Rightarrow> 's message_encoder \<Rightarrow> 's encoder" where
  "encode_field E d pb_encode field pData =
     (if PB_ATYPE (f_type field) = PB_ATYPE_STATIC \<or> PB_ATYPE (f_type field) = PB_ATYPE_POINTER
      then encode_basic_field E d pb_encode field pData
      else if PB_ATYPE (f_type field) = PB_ATYPE_CALLBACK then encode_callback_field E field pData
      else run_op (ostream_error ''invalid field type''))"

text \<open>A \<open>pb_extension_t\<close>: \<open>type\<close>, \<open>dest\<close> and \<open>next\<close>, of eight bytes each.\<close>

definition default_extension_encoder :: "'s pb_env \<Rightarrow> nat \<Rightarrow> 's message_encoder \<Rightarrow> address \<Rightarrow> ('s ostream, unit) run" where
  "default_extension_encoder E d pb_encode extension =
     (let field = snd (extension_type E (load64 (heap E) extension)) in
      if PB_ATYPE (f_type field) = PB_ATYPE_POINTER then encode_field E d pb_encode field (extension + 8)
      else encode_field E d pb_encode field (load64 (heap E) (extension + 8)))"

text \<open>The loop over the list of the extensions, of at most \<open>n\<close> of them.\<close>

primrec encode_extensions :: "'s pb_env \<Rightarrow> nat \<Rightarrow> 's message_encoder \<Rightarrow> nat \<Rightarrow> address \<Rightarrow> ('s ostream, unit) run" where
  "encode_extensions E d pb_encode 0 extension = (if extension = 0 then run_op (succeed ()) else stuck)"
| "encode_extensions E d pb_encode (Suc n) extension =
     (if extension = 0 then run_op (succeed ())
      else
        (let encode = fst (extension_type E (load64 (heap E) extension)) in
         chk_run (if encode \<noteq> 0 then run_op (extension_encoders E encode extension)
                  else default_extension_encoder E d pb_encode extension)
           (\<lambda>_. encode_extensions E d pb_encode n (load64 (heap E) (extension + 16)))))"

definition encode_extension_field :: "'s pb_env \<Rightarrow> nat \<Rightarrow> 's message_encoder \<Rightarrow> address \<Rightarrow> ('s ostream, unit) run" where
  "encode_extension_field E d pb_encode pData = encode_extensions E d pb_encode d (load64 (heap E) pData)"

section \<open>Whole messages\<close>

text \<open>The bound is on the nesting of submessages and the length of lists of extensions.\<close>

primrec pb_encode :: "'s pb_env \<Rightarrow> nat \<Rightarrow> 's message_encoder" where
  "pb_encode E 0 = (\<lambda>t src. stuck)"
| "pb_encode E (Suc d) = (\<lambda>t src.
     case pb_field_iter_begin (types E t) src of
       (False, _) \<Rightarrow> run_op (succeed ())
     | (True, it) \<Rightarrow>
         for_fields (\<lambda>it.
           if PB_LTYPE (f_type (it_field it)) = PB_LTYPE_EXTENSION
           then encode_extension_field E d (pb_encode E d) (it_pData it)
           else encode_field E d (pb_encode E d) (it_field it) (it_pData it)) it)"

definition pb_encode_delimited :: "'s pb_env \<Rightarrow> nat \<Rightarrow> 's message_encoder" where
  "pb_encode_delimited E d = pb_encode_submessage (pb_encode E d)"

definition pb_encode_nullterminated :: "'s pb_env \<Rightarrow> nat \<Rightarrow> 's message_encoder" where
  "pb_encode_nullterminated E d t src = chk_run (pb_encode E d t src) (\<lambda>_. run_op (pb_write [0]))"

definition pb_get_encoded_size :: "'s pb_env \<Rightarrow> nat \<Rightarrow> nat \<Rightarrow> address \<Rightarrow> size_t option option" where
  "pb_get_encoded_size E d t src =
     (case pb_encode E d t src PB_OSTREAM_SIZING of
        None \<Rightarrow> None
      | Some (None, _) \<Rightarrow> Some None
      | Some (Some _, stream) \<Rightarrow> Some (Some (bytes_written stream)))"

end
