(* ===== verification/Pb_Message.thy ===== *)
theory Pb_Message
  imports Pb_Encode
begin

text \<open>
  What the encoder promises: the message that lies in memory, as a list of numbered fields, and the octets of it.
  \<open>pb_encode\<close> writes exactly these, whatever the stream; \<open>pb_get_encoded_size\<close> counts them.
\<close>

section \<open>Messages\<close>

text \<open>A callback or an extension encoder adds octets of its own.\<close>

datatype wire_value =
    Varint_value u64 | Fixed32_value u32 | Fixed64_value u64 | Octets_value bytes
  | Packed_values "wire_value list" | Message_value "item list"
  and item = Item u32 wire_value | Raw bytes

fun value_wire :: "wire_value \<Rightarrow> u32" where
  "value_wire (Varint_value v) = PB_WT_VARINT"
| "value_wire (Fixed32_value v) = PB_WT_32BIT"
| "value_wire (Fixed64_value v) = PB_WT_64BIT"
| "value_wire _ = PB_WT_STRING"

definition delimited :: "bytes \<Rightarrow> bytes" where
  "delimited xs = varint (length xs) @ xs"

fun value_octets :: "wire_value \<Rightarrow> bytes" and item_octets :: "item \<Rightarrow> bytes" where
  "value_octets (Varint_value v) = varint (unat v)"
| "value_octets (Fixed32_value v) = le_octets 4 v"
| "value_octets (Fixed64_value v) = le_octets 8 v"
| "value_octets (Octets_value xs) = delimited xs"
| "value_octets (Packed_values vs) = delimited (concat (map value_octets vs))"
| "value_octets (Message_value its) = delimited (concat (map item_octets its))"
| "item_octets (Item n v) = varint (tag_number (value_wire v) n) @ value_octets v"
| "item_octets (Raw xs) = xs"

definition message_octets :: "item list \<Rightarrow> bytes" where
  "message_octets its = concat (map item_octets its)"

lemma message_octets_simps [simp]:
  "message_octets [] = []" "message_octets (it # its) = item_octets it @ message_octets its"
  "message_octets (its @ its') = message_octets its @ message_octets its'"
  by (simp_all add: message_octets_def)

section \<open>Outcomes\<close>

text \<open>What is in memory may not be a message: there is no result to promise, or the encoder refuses it.\<close>

datatype 'a outcome = Undefined | Rejected | Accepted 'a

fun bind_outcome :: "'a outcome \<Rightarrow> ('a \<Rightarrow> 'b outcome) \<Rightarrow> 'b outcome" where
  "bind_outcome Undefined f = Undefined"
| "bind_outcome Rejected f = Rejected"
| "bind_outcome (Accepted a) f = f a"

abbreviation map_result :: "('a \<Rightarrow> 'b) \<Rightarrow> 'a outcome \<Rightarrow> 'b outcome" where
  "map_result f r \<equiv> bind_outcome r (\<lambda>a. Accepted (f a))"

primrec traverse :: "('a \<Rightarrow> 'b outcome) \<Rightarrow> 'a list \<Rightarrow> 'b list outcome" where
  "traverse f [] = Accepted []"
| "traverse f (x # xs) = bind_outcome (f x) (\<lambda>y. map_result ((#) y) (traverse f xs))"

section \<open>The message in memory\<close>

type_synonym view = "nat \<Rightarrow> address \<Rightarrow> item list outcome"

definition sized :: "pb_field \<Rightarrow> (u64 \<Rightarrow> wire_value) \<Rightarrow> u64 \<Rightarrow> u64 \<Rightarrow> u64 \<Rightarrow> u64 \<Rightarrow> wire_value outcome" where
  "sized field f v1 v2 v4 v8 =
     (if f_data_size field = 1 then Accepted (f v1)
      else if f_data_size field = 2 then Accepted (f v2)
      else if f_data_size field = 4 then Accepted (f v4)
      else if f_data_size field = 8 then Accepted (f v8)
      else Rejected)"

abbreviation signed_at :: "memory \<Rightarrow> pb_field \<Rightarrow> (u64 \<Rightarrow> wire_value) \<Rightarrow> address \<Rightarrow> wire_value outcome" where
  "signed_at m field f a \<equiv>
     sized field f (scast (load8 m a)) (scast (load16 m a)) (scast (load32 m a)) (load64 m a)"

abbreviation unsigned_at :: "memory \<Rightarrow> pb_field \<Rightarrow> (u64 \<Rightarrow> wire_value) \<Rightarrow> address \<Rightarrow> wire_value outcome" where
  "unsigned_at m field f a \<equiv>
     sized field f (ucast (load8 m a)) (ucast (load16 m a)) (ucast (load32 m a)) (load64 m a)"

definition bytes_at :: "memory \<Rightarrow> pb_field \<Rightarrow> address \<Rightarrow> wire_value outcome" where
  "bytes_at m field a =
     (if a = 0 then Accepted (Octets_value [])
      else if PB_ATYPE (f_type field) = PB_ATYPE_STATIC \<and> unat (load32 m a) + 4 > unat (f_data_size field) then Rejected
      else Accepted (Octets_value (mem_bytes m (a + 4) (unat (load32 m a)))))"

definition string_at :: "memory \<Rightarrow> pb_field \<Rightarrow> address \<Rightarrow> bytes" where
  "string_at m field a =
     (if a = 0 then []
      else takeWhile (\<lambda>x. x \<noteq> 0)
        (mem_bytes m a (if PB_ATYPE (f_type field) = PB_ATYPE_POINTER then 2 ^ 64 - 1 else unat (f_data_size field))))"

definition value_at :: "'s pb_env \<Rightarrow> view \<Rightarrow> pb_field \<Rightarrow> address \<Rightarrow> wire_value outcome" where
  "value_at E sub field a =
     (let ltype = PB_LTYPE (f_type field); m = heap E in
      if ltype = PB_LTYPE_BOOL then Accepted (Varint_value (if m a \<noteq> 0 then 1 else 0))
      else if ltype = PB_LTYPE_VARINT then signed_at m field Varint_value a
      else if ltype = PB_LTYPE_UVARINT then unsigned_at m field Varint_value a
      else if ltype = PB_LTYPE_SVARINT then signed_at m field (\<lambda>v. Varint_value (zigzag v)) a
      else if ltype = PB_LTYPE_FIXED32 then Accepted (Fixed32_value (load32 m a))
      else if ltype = PB_LTYPE_FIXED64 then Accepted (Fixed64_value (load64 m a))
      else if ltype = PB_LTYPE_BYTES then bytes_at m field a
      else if ltype = PB_LTYPE_STRING then Accepted (Octets_value (string_at m field a))
      else if ltype = PB_LTYPE_SUBMESSAGE then
        (case f_ptr field of
           Null \<Rightarrow> Rejected | Submessage t \<Rightarrow> map_result Message_value (sub t a) | Default_value _ \<Rightarrow> Undefined)
      else if ltype = PB_LTYPE_FIXED_LENGTH_BYTES
      then Accepted (Octets_value (mem_bytes m a (unat (f_data_size field))))
      else Rejected)"

text \<open>The items of an array; those of a pointer field with strings or bytes are pointers themselves.\<close>

definition items_at :: "'s pb_env \<Rightarrow> view \<Rightarrow> pb_field \<Rightarrow> address \<Rightarrow> nat \<Rightarrow> wire_value list outcome" where
  "items_at E sub field a n =
     traverse (\<lambda>i. let p = a + of_nat i * ucast (f_data_size field) in
         if PB_ATYPE (f_type field) = PB_ATYPE_POINTER \<and> PB_LTYPE (f_type field) \<in> {PB_LTYPE_STRING, PB_LTYPE_BYTES}
         then value_at E sub field (load64 (heap E) p) else value_at E sub field p) [0..<n]"

definition array_at :: "'s pb_env \<Rightarrow> view \<Rightarrow> pb_field \<Rightarrow> address \<Rightarrow> nat \<Rightarrow> item list outcome" where
  "array_at E sub field a n =
     (if n = 0 then Accepted []
      else if PB_ATYPE (f_type field) \<noteq> PB_ATYPE_POINTER \<and> n > unat (f_array_size field) then Rejected
      else if PB_LTYPE (f_type field) \<le> PB_LTYPE_LAST_PACKABLE
      then map_result (\<lambda>vs. [Item (f_tag field) (Packed_values vs)]) (items_at E sub field a n)
      else map_result (map (Item (f_tag field))) (items_at E sub field a n))"

text \<open>
  Whether a field is there, and its items. A field without \<open>size_offset\<close> that is optional is left out when it has
  its default value.
\<close>

definition field_at :: "'s pb_env \<Rightarrow> nat \<Rightarrow> view \<Rightarrow> pb_field \<Rightarrow> address \<Rightarrow> item list outcome" where
  "field_at E d sub field a =
     (let htype = PB_HTYPE (f_type field); is_pointer = (PB_ATYPE (f_type field) = PB_ATYPE_POINTER);
          b = (if is_pointer then load64 (heap E) a else a);
          sz = a + scast (f_size_offset field);
          one = map_result (\<lambda>v. [Item (f_tag field) v]) (value_at E sub field b)
      in if htype = PB_HTYPE_REQUIRED then (if b = 0 then Rejected else one)
         else if htype = PB_HTYPE_OPTIONAL then
           (case (if f_size_offset field \<noteq> 0 then Some (heap E sz \<noteq> 0)
                  else case pb_check_proto3_default_value E d field a of
                      None \<Rightarrow> None | Some zero \<Rightarrow> Some (if is_pointer then b \<noteq> 0 else \<not> zero)) of
              None \<Rightarrow> Undefined | Some True \<Rightarrow> one | Some False \<Rightarrow> Accepted [])
         else if htype = PB_HTYPE_REPEATED then
           array_at E sub field b (unat (if f_size_offset field \<noteq> 0 then load32 (heap E) sz else f_array_size field))
         else if f_size_offset field = 0 then Undefined
         else if load32 (heap E) sz = f_tag field then one else Accepted [])"

text \<open>\<open>C\<close> and \<open>X\<close> are the octets that the callbacks and the extension encoders write, \<open>None\<close> when they fail.\<close>

type_synonym callback_octets = "u64 \<Rightarrow> pb_field \<Rightarrow> address \<Rightarrow> bytes option"

type_synonym extension_octets = "u64 \<Rightarrow> address \<Rightarrow> bytes option"

definition raw :: "bytes option \<Rightarrow> item list outcome" where
  "raw r = (case r of None \<Rightarrow> Rejected | Some xs \<Rightarrow> Accepted [Raw xs])"

definition entry_at :: "'s pb_env \<Rightarrow> callback_octets \<Rightarrow> nat \<Rightarrow> view \<Rightarrow> pb_field \<Rightarrow> address \<Rightarrow> item list outcome" where
  "entry_at E C d sub field a =
     (let atype = PB_ATYPE (f_type field) in
      if atype = PB_ATYPE_STATIC \<or> atype = PB_ATYPE_POINTER then field_at E d sub field a
      else if atype = PB_ATYPE_CALLBACK
      then (if load64 (heap E) a = 0 then Accepted [] else raw (C (load64 (heap E) a) field (a + 8)))
      else Rejected)"

primrec extensions_at ::
  "'s pb_env \<Rightarrow> callback_octets \<Rightarrow> extension_octets \<Rightarrow> nat \<Rightarrow> view \<Rightarrow> nat \<Rightarrow> address \<Rightarrow> item list outcome" where
  "extensions_at E C X d sub 0 a = (if a = 0 then Accepted [] else Undefined)"
| "extensions_at E C X d sub (Suc n) a =
     (if a = 0 then Accepted []
      else
        (let (encode, field) = extension_type E (load64 (heap E) a) in
         bind_outcome
           (if encode \<noteq> 0 then raw (X encode a)
            else entry_at E C d sub field
              (if PB_ATYPE (f_type field) = PB_ATYPE_POINTER then a + 8 else load64 (heap E) (a + 8)))
           (\<lambda>its. map_result ((@) its) (extensions_at E C X d sub n (load64 (heap E) (a + 16))))))"

primrec message_at :: "'s pb_env \<Rightarrow> callback_octets \<Rightarrow> extension_octets \<Rightarrow> nat \<Rightarrow> view" where
  "message_at E C X 0 = (\<lambda>t a. Undefined)"
| "message_at E C X (Suc d) = (\<lambda>t a.
     map_result concat
       (traverse (\<lambda>i. let field = descriptor (types E t) i; p = it_pData (iter_at (types E t) a i); sub = message_at E C X d in
          if PB_LTYPE (f_type field) = PB_LTYPE_EXTENSION
          then extensions_at E C X d sub d (load64 (heap E) p)
          else entry_at E C d sub field p) [0..<n_fields (types E t)]))"

section \<open>Sending\<close>

text \<open>
  A run that sends \<open>xs\<close> always has a result. While the number of octets fits \<open>size_t\<close>, on a stream that writes it
  writes \<open>xs\<close>, or fails because there is no room for that, and on a stream that counts it counts them.
\<close>

context byte_sink
begin

definition sent :: "'s ostream \<Rightarrow> bytes \<Rightarrow> 'a option \<Rightarrow> 's ostream \<Rightarrow> bool" where
  "sent s xs r s' \<longleftrightarrow>
     (unat (bytes_written s) + length xs < 2 ^ 64 \<longrightarrow>
        (accepts s \<longrightarrow>
           (case r of None \<Rightarrow> unat (max_size s) < unat (bytes_written s) + length xs
            | Some _ \<Rightarrow> accepts s' \<and> wrote (sink s) xs (sink s') \<and> max_size s' = max_size s \<and>
                unat (bytes_written s') = unat (bytes_written s) + length xs)) \<and>
        (sink s = Sizing \<longrightarrow> r \<noteq> None \<and> s' = s\<lparr>bytes_written := bytes_written s + of_nat (length xs)\<rparr>))"

definition sends :: "('s ostream, 'a) run \<Rightarrow> bytes \<Rightarrow> bool" where
  "sends m xs \<longleftrightarrow> (\<forall>s. \<exists>r s'. m s = Some (r, s') \<and> sent s xs r s')"

lemma sends_total: "sends m xs \<Longrightarrow> \<exists>r s'. m s = Some (r, s')"
  unfolding sends_def by blast

lemma sends_sent: "sends m xs \<Longrightarrow> m s = Some (r, s') \<Longrightarrow> sent s xs r s'"
  unfolding sends_def by (metis option.inject prod.inject)

lemma sends_full:
  assumes "sends m xs" and "unat (bytes_written s) + length xs < 2 ^ 64" and "accepts s" and "m s = Some (None, s')"
  shows "unat (max_size s) < unat (bytes_written s) + length xs"
  using sends_sent [OF assms(1,4)] assms(2,3) by (simp add: sent_def)

lemma sends_done:
  assumes "sends m xs" and "unat (bytes_written s) + length xs < 2 ^ 64" and "accepts s" and "m s = Some (Some a, s')"
  shows "accepts s'" "wrote (sink s) xs (sink s')" "max_size s' = max_size s"
    "unat (bytes_written s') = unat (bytes_written s) + length xs"
  using sends_sent [OF assms(1,4)] assms(2,3) by (simp_all add: sent_def)

lemma sends_sizing:
  assumes "sends m xs" and "unat (bytes_written s) + length xs < 2 ^ 64" and "sink s = Sizing"
  shows "\<exists>a. m s = Some (Some a, s\<lparr>bytes_written := bytes_written s + of_nat (length xs)\<rparr>)"
proof -
  obtain r s' where r: "m s = Some (r, s')" using sends_total [OF assms(1)] by blast
  from sends_sent [OF assms(1) r] assms(2,3) have "r \<noteq> None" "s' = s\<lparr>bytes_written := bytes_written s + of_nat (length xs)\<rparr>"
    by (simp_all add: sent_def)
  with r show ?thesis by auto
qed

lemma sendsI:
  assumes total: "\<And>s. \<exists>r s'. m s = Some (r, s')"
    and full: "\<And>s s'. unat (bytes_written s) + length xs < 2 ^ 64 \<Longrightarrow> accepts s \<Longrightarrow> m s = Some (None, s') \<Longrightarrow>
      unat (max_size s) < unat (bytes_written s) + length xs"
    and wrt: "\<And>s a s'. unat (bytes_written s) + length xs < 2 ^ 64 \<Longrightarrow> accepts s \<Longrightarrow> m s = Some (Some a, s') \<Longrightarrow>
      accepts s' \<and> wrote (sink s) xs (sink s') \<and> max_size s' = max_size s \<and>
      unat (bytes_written s') = unat (bytes_written s) + length xs"
    and counts: "\<And>s. unat (bytes_written s) + length xs < 2 ^ 64 \<Longrightarrow> sink s = Sizing \<Longrightarrow>
      \<exists>a. m s = Some (Some a, s\<lparr>bytes_written := bytes_written s + of_nat (length xs)\<rparr>)"
  shows "sends m xs"
  unfolding sends_def
proof
  fix s
  obtain r s' where m: "m s = Some (r, s')" using total by blast
  have "sent s xs r s'"
    unfolding sent_def
  proof (intro impI conjI)
    assume b: "unat (bytes_written s) + length xs < 2 ^ 64"
    show "case r of None \<Rightarrow> unat (max_size s) < unat (bytes_written s) + length xs
            | Some _ \<Rightarrow> accepts s' \<and> wrote (sink s) xs (sink s') \<and> max_size s' = max_size s \<and>
                unat (bytes_written s') = unat (bytes_written s) + length xs" if a: "accepts s"
    proof (cases r)
      case None
      with full [OF b a, of s'] m show ?thesis by simp
    next
      case (Some x)
      with wrt [OF b a, of x s'] m show ?thesis by simp
    qed
    show "r \<noteq> None" "s' = s\<lparr>bytes_written := bytes_written s + of_nat (length xs)\<rparr>" if "sink s = Sizing"
      using counts [OF b that] m by auto
  qed
  with m show "\<exists>r s'. m s = Some (r, s') \<and> sent s xs r s'" by blast
qed

lemma sends_op: "emits m xs \<Longrightarrow> sends (run_op m) xs"
proof (rule sendsI)
  assume m: "emits m xs"
  show "\<exists>r s'. run_op m s = Some (r, s')" for s by simp
  show "unat (max_size s) < unat (bytes_written s) + length xs" if "accepts s" "run_op m s = Some (None, s')" for s s'
    using emits_full [OF m that(1)] that(2) by simp
  show "accepts s' \<and> wrote (sink s) xs (sink s') \<and> max_size s' = max_size s \<and>
      unat (bytes_written s') = unat (bytes_written s) + length xs" if "accepts s" "run_op m s = Some (Some a, s')" for s a s'
    using emits_done [OF m that(1)] that(2) by simp
  show "\<exists>a. run_op m s = Some (Some a, s\<lparr>bytes_written := bytes_written s + of_nat (length xs)\<rparr>)" if "sink s = Sizing" for s
    using emits_sizing [OF m that] by auto
qed

lemma chk_run_SomeE:
  assumes "chk_run m f s = Some (Some b, s'')"
  obtains a s' where "m s = Some (Some a, s')" "f a s' = Some (Some b, s'')"
  using assms by (auto simp: chk_run_def split: option.splits prod.splits)

lemma chk_run_total:
  "(\<And>s. \<exists>r s'. m s = Some (r, s')) \<Longrightarrow> (\<And>a s. \<exists>r s'. f a s = Some (r, s')) \<Longrightarrow> \<exists>r s'. chk_run m f s = Some (r, s')"
proof -
  assume m: "\<And>s. \<exists>r s'. m s = Some (r, s')" and f: "\<And>a s. \<exists>r s'. f a s = Some (r, s')"
  obtain r s' where "m s = Some (r, s')" using m by blast
  with f show ?thesis by (cases r) auto
qed

lemma sends_chk:
  assumes m: "sends m xs" and f: "\<And>a. sends (f a) ys"
  shows "sends (chk_run m f) (xs @ ys)"
proof (rule sendsI)
  show "\<exists>r s'. chk_run m f s = Some (r, s')" for s
    by (rule chk_run_total) (use sends_total m f in blast)+
next
  fix s s'
  assume b: "unat (bytes_written s) + length (xs @ ys) < 2 ^ 64" and s: "accepts s" "chk_run m f s = Some (None, s')"
  then have bx: "unat (bytes_written s) + length xs < 2 ^ 64" by simp
  obtain r s1 where r: "m s = Some (r, s1)" using sends_total [OF m] by blast
  show "unat (max_size s) < unat (bytes_written s) + length (xs @ ys)"
  proof (cases r)
    case None
    with sends_full [OF m bx s(1)] r show ?thesis by fastforce
  next
    case (Some a)
    note d = sends_done [OF m bx s(1) r [unfolded Some]]
    from s(2) r Some have fs: "f a s1 = Some (None, s')" by simp
    have "unat (bytes_written s1) + length ys < 2 ^ 64" using d(4) b by simp
    from sends_full [OF f this d(1) fs] d(3,4) show ?thesis by simp
  qed
next
  fix s b s'
  assume b: "unat (bytes_written s) + length (xs @ ys) < 2 ^ 64" and s: "accepts s" "chk_run m f s = Some (Some b, s')"
  then have bx: "unat (bytes_written s) + length xs < 2 ^ 64" by simp
  obtain a s1 where r: "m s = Some (Some a, s1)" "f a s1 = Some (Some b, s')" using s(2) by (rule chk_run_SomeE)
  note d = sends_done [OF m bx s(1) r(1)]
  have "unat (bytes_written s1) + length ys < 2 ^ 64" using d(4) b by simp
  note e = sends_done [OF f this d(1) r(2)]
  show "accepts s' \<and> wrote (sink s) (xs @ ys) (sink s') \<and> max_size s' = max_size s \<and>
      unat (bytes_written s') = unat (bytes_written s) + length (xs @ ys)"
    using d e wrote_append by simp
next
  fix s :: "'s ostream"
  assume b: "unat (bytes_written s) + length (xs @ ys) < 2 ^ 64" and s: "sink s = Sizing"
  let ?t = "s\<lparr>bytes_written := bytes_written s + of_nat (length xs)\<rparr>"
  have "unat (bytes_written s) + length xs < 2 ^ 64" using b by simp
  then obtain a where a: "m s = Some (Some a, ?t)" using sends_sizing [OF m _ s] by blast
  have "unat (bytes_written ?t) + length ys < 2 ^ 64" using b by (simp add: unat_word_ariths unat_of_nat)
  from sends_sizing [OF f this, of a] s a
  show "\<exists>c. chk_run m f s = Some (Some c, s\<lparr>bytes_written := bytes_written s + of_nat (length (xs @ ys))\<rparr>)"
    by (auto simp: add.assoc)
qed

text \<open>A run does what an outcome says.\<close>

definition rejects :: "('s ostream, 'a) run \<Rightarrow> bool" where
  "rejects m \<longleftrightarrow> (\<forall>s. \<exists>s'. m s = Some (None, s'))"

definition meets :: "('s ostream, 'a) run \<Rightarrow> bytes outcome \<Rightarrow> bool" where
  "meets m r = (case r of Undefined \<Rightarrow> True | Rejected \<Rightarrow> rejects m | Accepted xs \<Rightarrow> sends m xs)"

lemma meets_simps [simp]: "meets m Undefined" "meets m Rejected = rejects m" "meets m (Accepted xs) = sends m xs"
  by (simp_all add: meets_def)

lemma rejects_chk: "rejects m \<Longrightarrow> rejects (chk_run m f)"
  unfolding rejects_def by (metis chk_run_simps(2))

lemma rejects_behind: "sends m xs \<Longrightarrow> (\<And>a. rejects (f a)) \<Longrightarrow> rejects (chk_run m f)"
  unfolding rejects_def
proof
  fix s
  assume m: "sends m xs" and f: "\<And>a. \<forall>s. \<exists>s'. f a s = Some (None, s')"
  obtain r s' where "m s = Some (r, s')" using sends_total [OF m] by blast
  with f show "\<exists>s'. chk_run m f s = Some (None, s')" by (cases r) auto
qed

lemma meets_chk:
  assumes "meets m r" and "\<And>a. meets (f a) q"
  shows "meets (chk_run m f) (bind_outcome r (\<lambda>xs. map_result ((@) xs) q))"
proof (cases r)
  case (Accepted xs)
  with assms show ?thesis by (cases q) (auto intro: sends_chk rejects_behind)
qed (use assms in \<open>auto intro: rejects_chk\<close>)

end

section \<open>Submessages and values\<close>

context byte_sink
begin

lemma write_submessage_total: "sends (enc t a) xs \<Longrightarrow> \<exists>r s'. write_submessage enc t a sz s = Some (r, s')"
proof -
  assume "sends (enc t a) xs"
  then obtain r t1 where "enc t a \<lparr>sink = sink s, max_size = sz, bytes_written = 0, oerrmsg = None\<rparr> = Some (r, t1)"
    using sends_total by blast
  then show ?thesis by (simp add: write_submessage_def Let_def)
qed

lemma sends_write_submessage:
  assumes m: "sends (enc t a) xs" and n: "length xs < 2 ^ 64"
  shows "sends (write_submessage enc t a (of_nat (length xs))) xs"
proof (rule sendsI)
  let ?sz = "of_nat (length xs) :: size_t"
  have sz: "unat ?sz = length xs" by (rule unat_of_nat_size [OF n])
  fix s :: "'s ostream"
  let ?sub = "\<lparr>sink = sink s, max_size = ?sz, bytes_written = 0, oerrmsg = None\<rparr> :: 's ostream"
  let ?body = "write_submessage enc t a ?sz"
  show "\<exists>r s'. ?body s = Some (r, s')" by (rule write_submessage_total [of enc t a, OF m])
  obtain status t1 where sub: "enc t a ?sub = Some (status, t1)" using sends_total [OF m] by blast
  assume b: "unat (bytes_written s) + length xs < 2 ^ 64"
  show "\<exists>c. ?body s = Some (Some c, s\<lparr>bytes_written := bytes_written s + ?sz\<rparr>)" if "sink s = Sizing"
    using that by (simp add: write_submessage_def pb_write_n_def)
  have sum: "unat (bytes_written s + ?sz) = unat (bytes_written s) + length xs"
    using b sz by (simp add: unat_word_ariths)
  assume acc: "accepts s"
  then have ns: "sink s \<noteq> Sizing" by (simp add: accepts_def)
  have fits: "bytes_written s + ?sz > max_size s \<longleftrightarrow> \<not> unat (bytes_written s) + length xs \<le> unat (max_size s)"
    by (simp only: not_le word_less_nat_alt sum)
  have run: "?body s = Some (status, s\<lparr>bytes_written := bytes_written s + ?sz, sink := sink t1, oerrmsg := oerrmsg t1\<rparr>)"
      "status \<noteq> None" "wrote (sink s) xs (sink t1)" if f: "unat (bytes_written s) + length xs \<le> unat (max_size s)"
  proof -
    have asub: "accepts ?sub" using acc f sz by (simp add: accepts_def)
    have bsub: "unat (bytes_written ?sub) + length xs < 2 ^ 64" using n by simp
    show "status \<noteq> None" using sends_full [OF m bsub asub] sub sz by fastforce
    then obtain u where u: "status = Some u" by blast
    note d = sends_done [OF m bsub asub sub [unfolded u]]
    have "bytes_written t1 = ?sz" using d(4) sz by (simp add: word_unat_eq_iff)
    with fits f ns sub
    show "?body s = Some (status, s\<lparr>bytes_written := bytes_written s + ?sz, sink := sink t1, oerrmsg := oerrmsg t1\<rparr>)"
      by (simp add: write_submessage_def Let_def)
    from d(2) show "wrote (sink s) xs (sink t1)" by simp
  qed
  have full: "?body s = Some (ostream_error ''stream full'' s)" if "\<not> unat (bytes_written s) + length xs \<le> unat (max_size s)"
    using that fits ns by (simp add: write_submessage_def)
  show "unat (max_size s) < unat (bytes_written s) + length xs" if "?body s = Some (None, s')" for s'
    using run(1,2) that by (cases "unat (bytes_written s) + length xs \<le> unat (max_size s)") auto
  show "accepts s' \<and> wrote (sink s) xs (sink s') \<and> max_size s' = max_size s \<and>
      unat (bytes_written s') = unat (bytes_written s) + length xs" if r: "?body s = Some (Some c, s')" for c s'
  proof -
    have f: "unat (bytes_written s) + length xs \<le> unat (max_size s)"
      using r full by (cases "unat (bytes_written s) + length xs \<le> unat (max_size s)") (simp_all add: ostream_error_def)
    from run(1) [OF f] r have s': "s' = s\<lparr>bytes_written := bytes_written s + ?sz, sink := sink t1, oerrmsg := oerrmsg t1\<rparr>"
      by simp
    note w = run(3) [OF f]
    from w wrote_room [OF w] wrote_kind [OF w] acc f sum show ?thesis
      unfolding s' by (simp add: accepts_def word_le_nat_alt)
  qed
qed

lemma rejects_error [simp]: "rejects (run_op (ostream_error msg))"
  by (simp add: rejects_def ostream_error_def)

text \<open>A size and a part of that size; nothing is known of it when the size does not fit.\<close>

lemma sends_delimited:
  assumes total: "\<And>s. \<exists>r s'. w s = Some (r, s')"
    and fits: "length xs < 2 ^ 64 \<Longrightarrow> sz = of_nat (length xs) \<and> sends w xs"
  shows "sends (chk_run (run_op (pb_encode_varint sz)) (\<lambda>_. w)) (delimited xs)"
proof (cases "length xs < 2 ^ 64")
  case True
  have "sends (run_op (pb_encode_varint sz)) (varint (length xs))"
    using sends_op [OF emits_varint, of "of_nat (length xs)"] fits [OF True] by (simp only: unat_of_nat_size [OF True])
  with fits [OF True] show ?thesis unfolding delimited_def by (blast intro: sends_chk)
next
  case False
  show ?thesis
  proof (rule sendsI)
    show "\<exists>r s'. chk_run (run_op (pb_encode_varint sz)) (\<lambda>_. w) s = Some (r, s')" for s
      by (rule chk_run_total) (simp_all add: total)
  qed (use False in \<open>auto simp: delimited_def\<close>)
qed

lemma sends_submessage:
  assumes m: "sends (enc t a) xs"
  shows "sends (pb_encode_submessage enc t a) (delimited xs)"
proof -
  obtain r t0 where t0: "enc t a PB_OSTREAM_SIZING = Some (r, t0)" using sends_total [OF m] by blast
  have fits: "bytes_written t0 = of_nat (length xs) \<and> r \<noteq> None" if "length xs < 2 ^ 64"
    using sends_sizing [OF m, of PB_OSTREAM_SIZING] t0 that by (auto simp: PB_OSTREAM_SIZING_def)
  show ?thesis
  proof (cases r)
    case (Some c)
    with t0 have e: "pb_encode_submessage enc t a =
        chk_run (run_op (pb_encode_varint (bytes_written t0))) (\<lambda>_. write_submessage enc t a (bytes_written t0))"
      by (intro ext) (simp add: pb_encode_submessage_def Let_def)
    show ?thesis unfolding e
    proof (rule sends_delimited)
      show "\<exists>r s'. write_submessage enc t a (bytes_written t0) s = Some (r, s')" for s
        by (rule write_submessage_total [of enc t a, OF m])
      show "bytes_written t0 = of_nat (length xs) \<and> sends (write_submessage enc t a (bytes_written t0)) xs"
        if "length xs < 2 ^ 64" using fits [OF that] sends_write_submessage [of enc t a, OF m that] by simp
    qed
  next
    case None
    with fits have "\<not> length xs < 2 ^ 64" by blast
    with None t0 show ?thesis
      by (intro sendsI) (auto simp: pb_encode_submessage_def delimited_def)
  qed
qed

lemma meets_submessage: "meets (enc t a) r \<Longrightarrow> meets (pb_encode_submessage enc t a) (map_result delimited r)"
proof (cases r)
  case Rejected
  assume "meets (enc t a) r"
  with Rejected obtain s' where "enc t a PB_OSTREAM_SIZING = Some (None, s')" by (auto simp: rejects_def)
  with Rejected show ?thesis by (simp add: rejects_def pb_encode_submessage_def)
qed (simp_all add: sends_submessage)

end

section \<open>Values, arrays and fields\<close>

lemma string_length_take:
  "sz \<le> limit \<Longrightarrow> mem_bytes m p (unat (string_length m limit sz p - sz)) = takeWhile (\<lambda>x. x \<noteq> 0) (mem_bytes m p (unat (limit - sz))) \<and>
     sz \<le> string_length m limit sz p"
proof (induction m limit sz p rule: string_length.induct)
  case (1 m limit sz p)
  have Cons: "mem_bytes m p (Suc n) = m p # mem_bytes m (p + 1) n" for n
    by (simp add: mem_bytes_def map_upt_Suc algebra_simps del: upt_Suc)
  show ?case
  proof (cases "sz < limit \<and> m p \<noteq> 0")
    case True
    let ?e = "string_length m limit (sz + 1) (p + 1)"
    have nt: "unat sz < 2 ^ 64 - 1" using True unat_lt_size_max [of limit] by (simp add: word_less_nat_alt)
    then have s1: "unat (sz + 1) = unat sz + 1" by (simp add: unat_word_ariths)
    have le: "sz + 1 \<le> limit" using True s1 by (simp add: word_le_nat_alt word_less_nat_alt)
    note IH = "1.IH" [OF True le]
    have le2: "sz \<le> ?e" using IH s1 by (simp add: word_le_nat_alt)
    have suc: "unat (x - sz) = Suc (unat (x - (sz + 1)))" if "sz + 1 \<le> x" for x
    proof -
      have "Suc (unat sz) \<le> unat x" using that s1 by (simp add: word_le_nat_alt)
      moreover have "unat (x - (sz + 1)) = unat x - Suc (unat sz)" "unat (x - sz) = unat x - unat sz"
        using that s1 calculation by (simp_all add: unat_sub_le word_le_nat_alt)
      ultimately show ?thesis by simp
    qed
    have "unat (?e - sz) = Suc (unat (?e - (sz + 1)))" using IH by (intro suc) simp
    moreover have "unat (limit - sz) = Suc (unat (limit - (sz + 1)))" by (rule suc [OF le])
    ultimately show ?thesis using True IH le2 by (subst (1 2) string_length.simps) (simp add: Cons)
  next
    case False
    have e: "string_length m limit sz p = sz" by (subst string_length.simps) (simp only: False if_False)
    show ?thesis
    proof (cases "sz < limit")
      case True
      then obtain n where "unat (limit - sz) = Suc n"
        by (metis not0_implies_Suc unat_eq_0 right_minus_eq less_irrefl)
      then show ?thesis using False True e by (simp add: Cons mem_bytes_def [of _ _ 0])
    next
      case ge: False
      then show ?thesis using "1.prems" e by (simp add: mem_bytes_def)
    qed
  qed
qed

lemma string_at_eq:
  assumes "a \<noteq> 0"
  shows "mem_bytes m a (unat (string_length m (if PB_ATYPE (f_type field) = PB_ATYPE_POINTER then - 1 else ucast (f_data_size field)) 0 a)) =
    string_at m field a"
proof -
  have "unat (- 1 :: size_t) = 2 ^ 64 - 1" by (simp only: unsigned_minus_1_eq_mask mask_eq_exp_minus_1) simp
  then show ?thesis using assms string_length_take [of 0 _ m a] by (simp add: string_at_def unat_ucast_up)
qed

definition valid_ltype :: "u8 \<Rightarrow> bool" where
  "valid_ltype l \<longleftrightarrow> l \<in> {PB_LTYPE_BOOL, PB_LTYPE_VARINT, PB_LTYPE_UVARINT, PB_LTYPE_SVARINT, PB_LTYPE_FIXED32, PB_LTYPE_FIXED64,
     PB_LTYPE_BYTES, PB_LTYPE_STRING, PB_LTYPE_SUBMESSAGE, PB_LTYPE_FIXED_LENGTH_BYTES}"

lemma ltypes_cases [consumes 1]:
  assumes "valid_ltype l"
  obtains "l = PB_LTYPE_BOOL" | "l = PB_LTYPE_VARINT" | "l = PB_LTYPE_UVARINT" | "l = PB_LTYPE_SVARINT" | "l = PB_LTYPE_FIXED32"
    | "l = PB_LTYPE_FIXED64" | "l = PB_LTYPE_BYTES" | "l = PB_LTYPE_STRING" | "l = PB_LTYPE_SUBMESSAGE"
    | "l = PB_LTYPE_FIXED_LENGTH_BYTES"
  using assms by (auto simp: valid_ltype_def)

context byte_sink
begin

lemma sends_varint: "sends (run_op (pb_encode_varint v)) (value_octets (Varint_value v))"
  using sends_op [OF emits_varint] by simp

lemma sends_svarint: "sends (run_op (pb_encode_svarint v)) (value_octets (Varint_value (zigzag v)))"
  using sends_op [OF emits_svarint] by simp

lemma sends_string: "unat (n :: size_t) = length xs \<Longrightarrow> sends (run_op (pb_encode_string xs n)) (delimited xs)"
proof -
  assume n: "unat n = length xs"
  then have "length xs < 2 ^ 64" "n = of_nat (length xs)" using unat_lt_size_max [of n] by (simp_all flip: n)
  from sends_op [OF emits_string [OF this(1)]] this(2) show ?thesis by (simp add: delimited_def)
qed

lemma meets_sized:
  assumes "\<And>v. sends (f v) (value_octets (g v))"
  shows "meets (if f_data_size field = 1 then f v1 else if f_data_size field = 2 then f v2
      else if f_data_size field = 4 then f v4 else if f_data_size field = 8 then f v8
      else run_op (ostream_error msg)) (map_result value_octets (sized field g v1 v2 v4 v8))"
  using assms by (simp add: sized_def)

lemma meets_bytes: "meets (pb_enc_bytes E field a) (map_result value_octets (bytes_at (heap E) field a))"
proof (cases "a = 0")
  case True
  then show ?thesis using sends_string [of 0 "[]"] by (simp add: pb_enc_bytes_def bytes_at_def)
next
  case False
  let ?n = "load32 (heap E) a"
  have n: "unat (ucast ?n :: size_t) = unat ?n" by (simp add: unat_ucast_up)
  have lt: "unat ?n < 2 ^ 32" using unsigned_less [of ?n, where 'a = nat] by simp
  then have al: "unat (PB_BYTES_ARRAY_T_ALLOCSIZE ?n) = unat ?n + 4"
    by (simp add: PB_BYTES_ARRAY_T_ALLOCSIZE_def unat_word_ariths n)
  have s: "sends (run_op (pb_encode_string (mem_bytes (heap E) (a + 4) (unat ?n)) (ucast ?n)))
      (delimited (mem_bytes (heap E) (a + 4) (unat ?n)))"
    by (rule sends_string) (simp add: n)
  show ?thesis
    using False s al n by (simp add: pb_enc_bytes_def bytes_at_def Let_def word_less_nat_alt unat_ucast_up)
qed

end

text \<open>What a message encoder \<open>enc\<close> does is what the view \<open>sub\<close> says.\<close>

lemma traverse_map: "traverse f (map h xs) = traverse (\<lambda>x. f (h x)) xs"
  by (induction xs) simp_all

lemma traverse_Accepted: "traverse (\<lambda>x. Accepted (g x)) xs = Accepted (map g xs)"
  by (induction xs) simp_all

lemma length_le_octets: "length (le_octets k w) = k"
  by (simp add: le_octets_def)

lemma bind_assoc: "bind_outcome (bind_outcome r f) g = bind_outcome r (\<lambda>a. bind_outcome (f a) g)"
  by (cases r) simp_all

context byte_sink
begin

definition follows :: "'s message_encoder \<Rightarrow> view \<Rightarrow> bool" where
  "follows enc sub \<longleftrightarrow> (\<forall>t a. meets (enc t a) (map_result message_octets (sub t a)))"

lemma meets_value:
  assumes "follows enc sub" and "valid_ltype (PB_LTYPE (f_type field))"
  shows "meets (PB_ENCODERS E enc (PB_LTYPE (f_type field)) field a) (map_result value_octets (value_at E sub field a))"
  using assms(2)
proof (cases rule: ltypes_cases)
  case 1
  then show ?thesis using sends_varint
    by (simp add: PB_ENCODERS_def value_at_def pb_enc_bool_def safe_read_bool_def del: value_octets.simps)
next
  case 2
  then have e: "PB_ENCODERS E enc (PB_LTYPE (f_type field)) = pb_enc_varint E"
    "value_at E sub field a = signed_at (heap E) field Varint_value a"
    by (simp_all add: PB_ENCODERS_def value_at_def ltypes Let_def)
  show ?thesis unfolding e pb_enc_varint_def by (rule meets_sized [of "\<lambda>v. run_op (pb_encode_varint v)" Varint_value, OF sends_varint])
next
  case 3
  then have e: "PB_ENCODERS E enc (PB_LTYPE (f_type field)) = pb_enc_uvarint E"
    "value_at E sub field a = unsigned_at (heap E) field Varint_value a"
    by (simp_all add: PB_ENCODERS_def value_at_def ltypes Let_def)
  show ?thesis unfolding e pb_enc_uvarint_def by (rule meets_sized [of "\<lambda>v. run_op (pb_encode_varint v)" Varint_value, OF sends_varint])
next
  case 4
  then have e: "PB_ENCODERS E enc (PB_LTYPE (f_type field)) = pb_enc_svarint E"
    "value_at E sub field a = signed_at (heap E) field (\<lambda>v. Varint_value (zigzag v)) a"
    by (simp_all add: PB_ENCODERS_def value_at_def ltypes Let_def)
  show ?thesis unfolding e pb_enc_svarint_def by (rule meets_sized [of "\<lambda>v. run_op (pb_encode_svarint v)" "\<lambda>v. Varint_value (zigzag v)", OF sends_svarint])
next
  case 5
  then show ?thesis using sends_op [OF emits_fixed32]
    by (simp add: PB_ENCODERS_def value_at_def pb_enc_fixed32_def ltypes)
next
  case 6
  then show ?thesis using sends_op [OF emits_fixed64]
    by (simp add: PB_ENCODERS_def value_at_def pb_enc_fixed64_def ltypes)
next
  case 7
  then show ?thesis using meets_bytes by (simp add: PB_ENCODERS_def value_at_def ltypes)
next
  case 8
  let ?limit = "if PB_ATYPE (f_type field) = PB_ATYPE_POINTER then - 1 else ucast (f_data_size field) :: size_t"
  let ?sz = "if a = 0 then 0 else string_length (heap E) ?limit 0 a"
  from 8 have e: "PB_ENCODERS E enc (PB_LTYPE (f_type field)) = pb_enc_string E"
    "value_at E sub field a = Accepted (Octets_value (string_at (heap E) field a))"
    by (simp_all add: PB_ENCODERS_def value_at_def ltypes Let_def)
  have x: "mem_bytes (heap E) a (unat ?sz) = string_at (heap E) field a"
  proof (cases "a = 0")
    case True
    then show ?thesis by (simp add: string_at_def mem_bytes_def)
  next
    case False
    then show ?thesis unfolding if_not_P [OF False] by (rule string_at_eq)
  qed
  have "sends (run_op (pb_encode_string (mem_bytes (heap E) a (unat ?sz)) ?sz)) (delimited (string_at (heap E) field a))"
    unfolding x by (rule sends_string) (simp only: x [symmetric] length_mem_bytes)
  then show ?thesis
    unfolding e pb_enc_string_def Let_def by (simp only: bind_outcome.simps value_octets.simps meets_simps)
next
  case 9
  show ?thesis
  proof (cases "f_ptr field")
    case (Submessage t)
    have "meets (enc t a) (map_result message_octets (sub t a))" using assms(1) by (simp add: follows_def)
    from meets_submessage [of enc t a, OF this] 9 Submessage show ?thesis
      by (simp add: PB_ENCODERS_def value_at_def pb_enc_submessage_def ltypes bind_assoc message_octets_def [abs_def])
  qed (use 9 in \<open>simp_all add: PB_ENCODERS_def value_at_def pb_enc_submessage_def ltypes\<close>)
next
  case 10
  have "sends (run_op (pb_encode_string (mem_bytes (heap E) a (unat (f_data_size field))) (ucast (f_data_size field))))
      (delimited (mem_bytes (heap E) a (unat (f_data_size field))))"
    by (rule sends_string) (simp add: unat_ucast_up)
  with 10 show ?thesis by (simp add: PB_ENCODERS_def value_at_def pb_enc_fixed_length_bytes_def ltypes)
qed

end

lemma le_5_cases: "(l :: u8) \<le> 5 \<Longrightarrow> l = 0 \<or> l = 1 \<or> l = 2 \<or> l = 3 \<or> l = 4 \<or> l = 5"
proof -
  assume "l \<le> 5"
  then have "unat l < 6" by (simp add: word_le_nat_alt)
  then have "unat l = 0 \<or> unat l = 1 \<or> unat l = 2 \<or> unat l = 3 \<or> unat l = 4 \<or> unat l = 5" by arith
  then show ?thesis by (simp add: word_unat_eq_iff)
qed

lemma value_wire_at:
  assumes "value_at E sub field a = Accepted v"
  shows "pb_encode_tag_for_field field = pb_encode_tag (value_wire v) (f_tag field) \<and> valid_ltype (PB_LTYPE (f_type field))"
proof -
  have "valid_ltype (PB_LTYPE (f_type field))"
    using assms by (simp add: value_at_def valid_ltype_def Let_def split: if_splits)
  then show ?thesis
    using assms
    by (cases rule: ltypes_cases)
      (auto simp: value_at_def pb_encode_tag_for_field_def valid_ltype_def ltypes sized_def bytes_at_def wire_types Let_def
        split: if_splits pb_ptr.splits elim!: bind_outcome.elims)
qed

lemma value_wire_small: "unat (value_wire v) < 8"
  by (cases v) (simp_all add: wire_types)

lemma invalid_ltype:
  assumes "\<not> valid_ltype (PB_LTYPE (f_type field))"
  shows "value_at E sub field a = Rejected" "pb_encode_tag_for_field field = ostream_error ''invalid field type''"
  using assms by (auto simp: valid_ltype_def value_at_def pb_encode_tag_for_field_def Let_def)

context byte_sink
begin

lemma tag_total: "valid_ltype (PB_LTYPE (f_type field)) \<Longrightarrow> \<exists>xs. sends (run_op (pb_encode_tag_for_field field)) xs"
proof -
  assume "valid_ltype (PB_LTYPE (f_type field))"
  then have "\<exists>w \<in> {PB_WT_VARINT, PB_WT_32BIT, PB_WT_64BIT, PB_WT_STRING}.
      pb_encode_tag_for_field field = (pb_encode_tag w (f_tag field) :: ('s ostream, unit) op)"
    by (cases rule: ltypes_cases) (simp_all add: pb_encode_tag_for_field_def ltypes)
  then obtain w where v: "w \<in> {PB_WT_VARINT, PB_WT_32BIT, PB_WT_64BIT, PB_WT_STRING}"
    and e: "pb_encode_tag_for_field field = (pb_encode_tag w (f_tag field) :: ('s ostream, unit) op)" by blast
  from v have w: "unat w < 8" by (auto simp: wire_types)
  from sends_op [OF emits_tag [OF w]] show ?thesis unfolding e by blast
qed

text \<open>A tag and the value behind it; \<open>b\<close> is where the value is.\<close>

lemma meets_tagged:
  assumes "follows enc sub"
  shows "meets (chk_run (run_op (pb_encode_tag_for_field field)) (\<lambda>_. PB_ENCODERS E enc (PB_LTYPE (f_type field)) field b))
    (map_result (\<lambda>v. item_octets (Item (f_tag field) v)) (value_at E sub field b))"
proof (cases "valid_ltype (PB_LTYPE (f_type field))")
  case True
  note m = meets_value [OF assms True, of E b]
  show ?thesis
  proof (cases "value_at E sub field b")
    case Rejected
    with m tag_total [OF True] show ?thesis by (auto intro: rejects_behind)
  next
    case (Accepted v)
    then have t: "pb_encode_tag_for_field field = pb_encode_tag (value_wire v) (f_tag field)" using value_wire_at by blast
    from Accepted m sends_chk [OF sends_op [OF emits_tag [OF value_wire_small]]] show ?thesis by (simp add: t)
  qed simp
next
  case False
  then show ?thesis by (simp add: invalid_ltype rejects_chk)
qed

lemma meets_items:
  assumes "\<And>i. i < n \<Longrightarrow> meets (f (p + of_nat i * sz)) (map_result oct (g i))"
  shows "meets (for_items n sz f p) (map_result (\<lambda>ys. concat (map oct ys)) (traverse g [0..<n]))"
  using assms
proof (induction n arbitrary: p g)
  case 0
  show ?case
    by (simp only: for_items.simps upt_0 traverse.simps bind_outcome.simps list.map concat.simps meets_simps)
      (rule sends_op [OF emits_succeed])
next
  case (Suc n)
  have e: "traverse g [0..<Suc n] = bind_outcome (g 0) (\<lambda>y. map_result ((#) y) (traverse (\<lambda>i. g (Suc i)) [0..<n]))"
    by (simp add: upt_conv_Cons map_Suc_upt [symmetric] traverse_map del: upt_Suc)
  have "meets (f (p + sz + of_nat i * sz)) (map_result oct (g (Suc i)))" if "i < n" for i
    using Suc.prems [of "Suc i"] that by (simp add: algebra_simps)
  from Suc.IH [of "p + sz" "\<lambda>i. g (Suc i)", OF this]
  have "meets (for_items (Suc n) sz f p)
      (bind_outcome (map_result oct (g 0))
        (\<lambda>xs. map_result ((@) xs) (map_result (\<lambda>ys. concat (map oct ys)) (traverse (\<lambda>i. g (Suc i)) [0..<n]))))"
    unfolding for_items.simps using Suc.prems [of 0] by (intro meets_chk) simp_all
  then show ?case unfolding e by (simp add: bind_assoc)
qed

end

context byte_sink
begin

lemma sends_second_pass:
  assumes m: "sends m xs"
  shows "sends (\<lambda>s. if sink s = Sizing then run_op (pb_write_n [] (of_nat (length xs))) s else m s) xs"
  unfolding sends_def
proof
  fix s
  show "\<exists>r s'. (if sink s = Sizing then run_op (pb_write_n [] (of_nat (length xs))) s else m s) = Some (r, s') \<and> sent s xs r s'"
  proof (cases "sink s = Sizing")
    case True
    then show ?thesis by (simp add: sent_def accepts_def pb_write_n_def)
  next
    case False
    with m show ?thesis by (simp add: sends_def)
  qed
qed

lemma packed_size_eq:
  fixes E :: "'s pb_env" and enc :: "'s message_encoder" and count :: size_t
  assumes packable: "PB_LTYPE (f_type field) \<le> PB_LTYPE_LAST_PACKABLE"
  defines "func \<equiv> PB_ENCODERS E enc (PB_LTYPE (f_type field))"
  assumes items: "meets (for_items (unat count) (ucast (f_data_size field)) (func field) a)
      (map_result (\<lambda>vs. concat (map value_octets vs)) (items_at E sub field a (unat count)))"
  shows "items_at E sub field a (unat count) = Rejected \<Longrightarrow> packed_size field a count func = Some None"
    "items_at E sub field a (unat count) = Accepted vs \<Longrightarrow>
      \<exists>q. packed_size field a count func = Some q \<and>
        (length (concat (map value_octets vs)) < 2 ^ 64 \<longrightarrow> q = Some (of_nat (length (concat (map value_octets vs)))))"
proof -
  have nd: "PB_LTYPE (f_type field) \<notin> {PB_LTYPE_STRING, PB_LTYPE_BYTES}" using packable by (auto simp: ltypes)
  let ?p = "\<lambda>i. a + of_nat i * ucast (f_data_size field)"
  consider (w32) "PB_LTYPE (f_type field) = PB_LTYPE_FIXED32" | (w64) "PB_LTYPE (f_type field) = PB_LTYPE_FIXED64"
    | (other) "PB_LTYPE (f_type field) \<noteq> PB_LTYPE_FIXED32" "PB_LTYPE (f_type field) \<noteq> PB_LTYPE_FIXED64" by blast
  then have "(items_at E sub field a (unat count) = Rejected \<longrightarrow> packed_size field a count func = Some None) \<and>
    (items_at E sub field a (unat count) = Accepted vs \<longrightarrow>
      (\<exists>q. packed_size field a count func = Some q \<and>
        (length (concat (map value_octets vs)) < 2 ^ 64 \<longrightarrow> q = Some (of_nat (length (concat (map value_octets vs)))))))"
  proof cases
    case w32
    have "items_at E sub field a (unat count) = Accepted (map (\<lambda>i. Fixed32_value (load32 (heap E) (?p i))) [0..<unat count])"
      using nd w32 by (simp add: items_at_def value_at_def ltypes traverse_Accepted)
    then show ?thesis using w32 by (auto simp: packed_size_def length_concat comp_def length_le_octets sum_list_triv)
  next
    case w64
    have "items_at E sub field a (unat count) = Accepted (map (\<lambda>i. Fixed64_value (load64 (heap E) (?p i))) [0..<unat count])"
      using nd w64 by (simp add: items_at_def value_at_def ltypes traverse_Accepted)
    then show ?thesis using w64 by (auto simp: packed_size_def ltypes length_concat comp_def length_le_octets sum_list_triv)
  next
    case other
    let ?m = "for_items (unat count) (ucast (f_data_size field)) (func field) a"
    have run: "packed_size field a count func =
        (case ?m PB_OSTREAM_SIZING of None \<Rightarrow> None | Some (None, _) \<Rightarrow> Some None
         | Some (Some _, sizestream) \<Rightarrow> Some (Some (bytes_written sizestream)))"
      using other by (simp add: packed_size_def)
    have "packed_size field a count func = Some None" if "items_at E sub field a (unat count) = Rejected"
    proof -
      from items that obtain s' where "?m PB_OSTREAM_SIZING = Some (None, s')" by (auto simp: rejects_def)
      then show ?thesis unfolding run by simp
    qed
    moreover have "\<exists>q. packed_size field a count func = Some q \<and> (length xs < 2 ^ 64 \<longrightarrow> q = Some (of_nat (length xs)))"
      if "items_at E sub field a (unat count) = Accepted vs" "xs = concat (map value_octets vs)" for xs
    proof -
      have m: "sends ?m xs" using items that by simp
      obtain r s' where r: "?m PB_OSTREAM_SIZING = Some (r, s')" using sends_total [OF m] by blast
      have "length xs < 2 ^ 64 \<longrightarrow> r \<noteq> None \<and> bytes_written s' = of_nat (length xs)"
        using sends_sizing [OF m, of PB_OSTREAM_SIZING] r by (auto simp: PB_OSTREAM_SIZING_def)
      then show ?thesis using r unfolding run by (cases r) auto
    qed
    ultimately show ?thesis by blast
  qed
  then show "items_at E sub field a (unat count) = Rejected \<Longrightarrow> packed_size field a count func = Some None"
    "items_at E sub field a (unat count) = Accepted vs \<Longrightarrow>
      \<exists>q. packed_size field a count func = Some q \<and>
        (length (concat (map value_octets vs)) < 2 ^ 64 \<longrightarrow> q = Some (of_nat (length (concat (map value_octets vs)))))"
    by blast+
qed

end

context byte_sink
begin

lemma sends_failing: "\<not> length xs < 2 ^ 64 \<Longrightarrow> sends (\<lambda>s. Some (None, s)) xs"
  by (auto simp: sends_def sent_def)

lemma meets_packed:
  fixes E :: "'s pb_env" and count :: size_t
  assumes sub: "follows enc sub" and packable: "PB_LTYPE (f_type field) \<le> PB_LTYPE_LAST_PACKABLE"
  defines "func \<equiv> PB_ENCODERS E enc (PB_LTYPE (f_type field))"
  shows "meets (\<lambda>s. case packed_size field a count func of
            None \<Rightarrow> None
          | Some None \<Rightarrow> Some (None, s)
          | Some (Some sz) \<Rightarrow>
              chk_run (run_op (pb_encode_varint sz)) (\<lambda>_ s.
                if sink s = Sizing then run_op (pb_write_n [] sz) s
                else for_items (unat count) (ucast (f_data_size field)) (func field) a s) s)
    (map_result (\<lambda>vs. value_octets (Packed_values vs)) (items_at E sub field a (unat count)))"
proof -
  let ?m = "for_items (unat count) (ucast (f_data_size field)) (func field) a"
  have valid: "valid_ltype (PB_LTYPE (f_type field))"
    using packable unfolding valid_ltype_def ltypes by (auto dest: le_5_cases)
  have plain: "PB_LTYPE (f_type field) \<notin> {PB_LTYPE_STRING, PB_LTYPE_BYTES}" using packable by (auto simp: ltypes)
  have items: "meets ?m (map_result (\<lambda>vs. concat (map value_octets vs)) (items_at E sub field a (unat count)))"
    unfolding items_at_def func_def Let_def using plain
    by (intro meets_items) (simp add: meets_value [OF sub valid])
  note size = packed_size_eq [OF packable, of count E enc a sub, folded func_def, OF items]
  show ?thesis
  proof (cases "items_at E sub field a (unat count)")
    case Rejected
    with size(1) show ?thesis by (simp add: rejects_def)
  next
    case (Accepted vs)
    let ?xs = "concat (map value_octets vs)"
    obtain q where q: "packed_size field a count func = Some q" "length ?xs < 2 ^ 64 \<longrightarrow> q = Some (of_nat (length ?xs))"
      using size(2) [OF Accepted] by blast
    have m: "sends ?m ?xs" using items Accepted by simp
    show ?thesis
    proof (cases q)
      case None
      with q(2) have "\<not> length (delimited ?xs) < 2 ^ 64" by (auto simp: delimited_def)
      from sends_failing [OF this] None q(1) Accepted show ?thesis by simp
    next
      case (Some sz)
      have "sends (chk_run (run_op (pb_encode_varint sz))
          (\<lambda>_ s. if sink s = Sizing then run_op (pb_write_n [] sz) s else ?m s)) (delimited ?xs)"
      proof (rule sends_delimited)
        show "\<exists>r s'. (if sink s = Sizing then run_op (pb_write_n [] sz) s else ?m s) = Some (r, s')" for s
          using sends_total [OF m] by simp
        show "sz = of_nat (length ?xs) \<and> sends (\<lambda>s. if sink s = Sizing then run_op (pb_write_n [] sz) s else ?m s) ?xs"
          if "length ?xs < 2 ^ 64"
        proof -
          have e: "sz = of_nat (length ?xs)" using q(2) that Some by simp
          show ?thesis unfolding e by (intro conjI refl sends_second_pass m)
        qed
      qed
      with Some q(1) Accepted show ?thesis by simp
    qed
  qed simp
qed

lemma meets_array:
  assumes sub: "follows enc sub"
  shows "meets (encode_array E field a count (PB_ENCODERS E enc (PB_LTYPE (f_type field))))
    (map_result message_octets (array_at E sub field a (unat count)))"
proof -
  let ?func = "PB_ENCODERS E enc (PB_LTYPE (f_type field))"
  have none: "meets (run_op (succeed ())) (Accepted [])" using sends_op [OF emits_succeed] by (simp only: meets_simps)
  have big: "count > ucast (f_array_size field) \<longleftrightarrow> unat count > unat (f_array_size field)"
    by (simp add: word_less_nat_alt unat_ucast_up)
  have zero: "unat count = 0 \<longleftrightarrow> count = 0" by (simp add: unat_eq_0)
  consider (trivial) "count = 0 \<or> PB_ATYPE (f_type field) \<noteq> PB_ATYPE_POINTER \<and> count > ucast (f_array_size field)"
    | (packed) "count \<noteq> 0" "\<not> (PB_ATYPE (f_type field) \<noteq> PB_ATYPE_POINTER \<and> count > ucast (f_array_size field))"
        "PB_LTYPE (f_type field) \<le> PB_LTYPE_LAST_PACKABLE"
    | (plain) "count \<noteq> 0" "\<not> (PB_ATYPE (f_type field) \<noteq> PB_ATYPE_POINTER \<and> count > ucast (f_array_size field))"
        "\<not> PB_LTYPE (f_type field) \<le> PB_LTYPE_LAST_PACKABLE" by blast
  then show ?thesis
  proof cases
    case trivial
    then show ?thesis using none unfolding encode_array_def array_at_def zero big by auto
  next
    case packed
    have tag: "meets (run_op (pb_encode_tag PB_WT_STRING (f_tag field))) (Accepted (varint (tag_number PB_WT_STRING (f_tag field))))"
      using sends_op [OF emits_tag] by (simp add: wire_types)
    from meets_chk [OF tag meets_packed [where E = E and count = count and a = a, OF sub packed(3)]] packed show ?thesis
      unfolding encode_array_def array_at_def zero big
      by (cases "PB_ATYPE (f_type field) = PB_ATYPE_POINTER") (simp_all add: bind_assoc)
  next
    case plain
    let ?deref = "PB_ATYPE (f_type field) = PB_ATYPE_POINTER \<and> PB_LTYPE (f_type field) \<in> {PB_LTYPE_STRING, PB_LTYPE_BYTES}"
    let ?f = "\<lambda>p. chk_run (run_op (pb_encode_tag_for_field field))
        (\<lambda>_. ?func field (if ?deref then load64 (heap E) p else p))"
    let ?g = "\<lambda>i. let p = a + of_nat i * ucast (f_data_size field) in value_at E sub field (if ?deref then load64 (heap E) p else p)"
    have "meets (for_items (unat count) (ucast (f_data_size field)) ?f a)
        (map_result (\<lambda>ys. concat (map (\<lambda>v. item_octets (Item (f_tag field) v)) ys)) (traverse ?g [0..<unat count]))"
      unfolding Let_def by (intro meets_items meets_tagged sub)
    moreover have "encode_array E field a count ?func = for_items (unat count) (ucast (f_data_size field)) ?f a"
    proof -
      have e: "?func field (if ?deref then load64 (heap E) p else p) =
          (if PB_ATYPE (f_type field) = PB_ATYPE_POINTER \<and>
             (PB_LTYPE (f_type field) = PB_LTYPE_STRING \<or> PB_LTYPE (f_type field) = PB_LTYPE_BYTES)
           then ?func field (load64 (heap E) p) else ?func field p)" for p
        by auto
      from plain show ?thesis unfolding e encode_array_def by (simp only: if_False)
    qed
    moreover have "items_at E sub field a (unat count) = traverse ?g [0..<unat count]"
      unfolding items_at_def Let_def by (rule arg_cong [where f = "\<lambda>f. traverse f _"]) (auto simp: fun_eq_iff)
    ultimately show ?thesis
      using plain unfolding array_at_def zero big
      by (cases "PB_ATYPE (f_type field) = PB_ATYPE_POINTER") (simp_all add: bind_assoc message_octets_def comp_def)
  qed
qed

end

lemma for_fields_eq: "for_fields body it = chk_run (body it)
    (\<lambda>_. case pb_field_iter_next it of (True, it) \<Rightarrow> for_fields body it | (False, _) \<Rightarrow> run_op (succeed ()))"
  by (rule ext, subst for_fields.simps) (rule refl)

section \<open>Whole messages\<close>

text \<open>The callbacks and the extension encoders write \<open>C\<close> and \<open>X\<close>, whatever the stream, or always fail.\<close>

context byte_sink
begin

definition writes_octets :: "('s ostream, unit) op \<Rightarrow> bytes option \<Rightarrow> bool" where
  "writes_octets m r = (case r of None \<Rightarrow> (\<forall>s. fst (m s) = None) | Some xs \<Rightarrow> emits m xs)"

definition callbacks_write :: "'s pb_env \<Rightarrow> callback_octets \<Rightarrow> extension_octets \<Rightarrow> bool" where
  "callbacks_write E C X \<longleftrightarrow>
     (\<forall>f field a. writes_octets (callbacks E f field a) (C f field a)) \<and>
     (\<forall>f a. writes_octets (extension_encoders E f a) (X f a))"

lemma none_written: "sends (run_op (succeed ())) []"
  by (rule sends_op [OF emits_succeed])

lemma meets_raw: "writes_octets m r \<Longrightarrow> meets (run_op m) (map_result message_octets (raw r))"
  by (cases r) (auto simp: writes_octets_def raw_def rejects_def sends_op prod_eq_iff)

lemma meets_if:
  assumes "meets m (map_result oct r)" and "meets m' (map_result oct r')"
  shows "meets (if c then m else m') (map_result oct (if c then r else r'))"
  using assms by simp

lemma meets_field:
  assumes sub: "follows enc sub"
  shows "meets (encode_basic_field E d enc field a) (map_result message_octets (field_at E d sub field a))"
proof -
  let ?b = "if PB_ATYPE (f_type field) = PB_ATYPE_POINTER then load64 (heap E) a else a"
  let ?both = "chk_run (run_op (pb_encode_tag_for_field field)) (\<lambda>_. PB_ENCODERS E enc (PB_LTYPE (f_type field)) field ?b)"
  let ?one = "map_result (\<lambda>v. [Item (f_tag field) v]) (value_at E sub field ?b)"
  have one: "meets ?both (map_result message_octets ?one)"
    using meets_tagged [OF sub, of field E ?b] by (simp add: bind_assoc)
  have arr: "meets (encode_array E field ?b (ucast n) (PB_ENCODERS E enc (PB_LTYPE (f_type field))))
      (map_result message_octets (array_at E sub field ?b (unat n)))" for n :: u32
    using meets_array [OF sub, of E field ?b "ucast n"] by (simp add: unat_ucast_up)
  have none: "meets (run_op (succeed ())) (map_result message_octets (Accepted []))"
    unfolding bind_outcome.simps message_octets_simps meets_simps by (rule none_written)
  let ?sz = "a + scast (f_size_offset field)"
  let ?default = "pb_check_proto3_default_value E d field a"
  consider (required) "PB_HTYPE (f_type field) = PB_HTYPE_REQUIRED" | (optional) "PB_HTYPE (f_type field) = PB_HTYPE_OPTIONAL"
    | (repeated) "PB_HTYPE (f_type field) = PB_HTYPE_REPEATED"
    | (oneof) "PB_HTYPE (f_type field) \<noteq> PB_HTYPE_REQUIRED" "PB_HTYPE (f_type field) \<noteq> PB_HTYPE_OPTIONAL"
        "PB_HTYPE (f_type field) \<noteq> PB_HTYPE_REPEATED" by blast
  then show ?thesis
  proof cases
    case required
    then have e: "encode_basic_field E d enc field a = (if ?b = 0 then run_op (ostream_error ''missing required field'') else ?both)"
      "field_at E d sub field a = (if ?b = 0 then Rejected else ?one)"
      by (simp_all only: encode_basic_field_def field_at_def Let_def htypes) simp_all
    show ?thesis unfolding e by (rule meets_if [OF _ one]) simp
  next
    case optional
    show ?thesis
    proof (cases "f_size_offset field = 0")
      case False
      with optional have e: "encode_basic_field E d enc field a = (if heap E ?sz \<noteq> 0 then ?both else run_op (succeed ()))"
        "field_at E d sub field a = (if heap E ?sz \<noteq> 0 then ?one else Accepted [])"
        by (simp_all add: encode_basic_field_def field_at_def Let_def htypes safe_read_bool_def)
      show ?thesis unfolding e by (rule meets_if [OF one none])
    next
      case True
      show ?thesis
      proof (cases ?default)
        case None
        with True optional show ?thesis by (simp add: field_at_def Let_def htypes)
      next
        case (Some zero)
        let ?has = "if PB_ATYPE (f_type field) = PB_ATYPE_POINTER then ?b \<noteq> 0 else \<not> zero"
        from Some True optional have e: "encode_basic_field E d enc field a = (if ?has then ?both else run_op (succeed ()))"
          "field_at E d sub field a = (if ?has then ?one else Accepted [])"
          by (simp_all add: encode_basic_field_def field_at_def Let_def htypes)
        show ?thesis unfolding e by (rule meets_if [OF one none])
      qed
    qed
  next
    case repeated
    let ?n = "if f_size_offset field \<noteq> 0 then load32 (heap E) ?sz else f_array_size field"
    from repeated have "encode_basic_field E d enc field a =
        encode_array E field ?b (ucast ?n) (PB_ENCODERS E enc (PB_LTYPE (f_type field)))"
      "field_at E d sub field a = array_at E sub field ?b (unat ?n)"
      by (simp_all add: encode_basic_field_def field_at_def Let_def htypes)
    with arr [of ?n] show ?thesis by (simp only:)
  next
    case oneof
    show ?thesis
    proof (cases "f_size_offset field = 0")
      case True
      with oneof show ?thesis by (simp add: field_at_def Let_def)
    next
      case False
      with oneof have e: "encode_basic_field E d enc field a =
          (if load32 (heap E) ?sz = f_tag field then ?both else run_op (succeed ()))"
        "field_at E d sub field a = (if load32 (heap E) ?sz = f_tag field then ?one else Accepted [])"
        by (simp_all add: encode_basic_field_def field_at_def Let_def)
      show ?thesis unfolding e by (rule meets_if [OF one none])
    qed
  qed
qed

end

context byte_sink
begin

lemma meets_callback:
  assumes "callbacks_write E C X" and "load64 (heap E) a \<noteq> 0"
  shows "meets (encode_callback_field E field a) (map_result message_octets (raw (C (load64 (heap E) a) field (a + 8))))"
proof -
  let ?m = "callbacks E (load64 (heap E) a) field (a + 8)"
  let ?wrap = "\<lambda>s. case ?m s of (None, s) \<Rightarrow> ostream_error ''callback error'' s | (Some _, s) \<Rightarrow> (Some (), s)"
  have w: "writes_octets ?m (C (load64 (heap E) a) field (a + 8))" using assms(1) by (simp add: callbacks_write_def)
  have e: "encode_callback_field E field a = run_op ?wrap" using assms(2) by (simp add: encode_callback_field_def)
  have "writes_octets ?wrap (C (load64 (heap E) a) field (a + 8))"
  proof (cases "C (load64 (heap E) a) field (a + 8)")
    case None
    have "fst (?wrap s) = None" for s
    proof -
      have "fst (?m s) = None" using w None by (simp add: writes_octets_def)
      then show ?thesis by (cases "?m s") (simp add: ostream_error_def)
    qed
    then show ?thesis using None by (simp add: writes_octets_def)
  next
    case (Some xs)
    then have m: "emits ?m xs" using w by (simp add: writes_octets_def)
    have "emits ?wrap xs"
    proof (rule emitsI)
      fix s s'
      assume s: "accepts s"
      show "unat (max_size s) < unat (bytes_written s) + length xs" if "?wrap s = (None, s')"
        using that emits_full [OF m s] by (cases "?m s"; cases "fst (?m s)") auto
      show "accepts s' \<and> wrote (sink s) xs (sink s') \<and> max_size s' = max_size s \<and>
          unat (bytes_written s') = unat (bytes_written s) + length xs" if "?wrap s = (Some c, s')" for c
        using that emits_done [OF m s] by (cases "?m s"; cases "fst (?m s)") (auto simp: ostream_error_def)
    next
      fix s :: "'s ostream"
      assume "sink s = Sizing"
      from emits_sizing [OF m this]
      show "\<exists>c. ?wrap s = (Some c, s\<lparr>bytes_written := bytes_written s + of_nat (length xs)\<rparr>)" by auto
    qed
    with Some show ?thesis by (simp add: writes_octets_def)
  qed
  then show ?thesis unfolding e by (rule meets_raw)
qed

lemma meets_entry:
  assumes "follows enc sub" and "callbacks_write E C X"
  shows "meets (encode_field E d enc field a) (map_result message_octets (entry_at E C d sub field a))"
proof -
  have "meets (encode_callback_field E field a)
      (map_result message_octets (if load64 (heap E) a = 0 then Accepted [] else raw (C (load64 (heap E) a) field (a + 8))))"
  proof (cases "load64 (heap E) a = 0")
    case True
    have "meets (run_op (succeed ())) (Accepted [])" unfolding meets_simps by (rule none_written)
    then show ?thesis using True by (simp only: encode_callback_field_def bind_outcome.simps message_octets_simps if_True simp_thms if_False)
  next
    case False
    then show ?thesis using meets_callback [OF assms(2) False, of field] by simp
  qed
  with meets_field [OF assms(1), of E d field a] show ?thesis
    by (simp add: encode_field_def entry_at_def Let_def)
qed

lemma meets_extensions:
  assumes "follows enc sub" and "callbacks_write E C X"
  shows "meets (encode_extensions E d enc n a) (map_result message_octets (extensions_at E C X d sub n a))"
proof (induction n arbitrary: a)
  case 0
  have "meets (run_op (succeed ())) (Accepted [])" unfolding meets_simps by (rule none_written)
  then show ?case by (simp only: encode_extensions.simps extensions_at.simps split: if_split) simp
next
  case (Suc n)
  obtain encode field where t: "extension_type E (load64 (heap E) a) = (encode, field)" by (cases "extension_type E (load64 (heap E) a)")
  let ?p = "if PB_ATYPE (f_type field) = PB_ATYPE_POINTER then a + 8 else load64 (heap E) (a + 8)"
  have d: "default_extension_encoder E d enc a = encode_field E d enc field ?p"
    by (simp add: default_extension_encoder_def t)
  have x: "meets (if encode \<noteq> 0 then run_op (extension_encoders E encode a) else default_extension_encoder E d enc a)
      (map_result message_octets (if encode \<noteq> 0 then raw (X encode a) else entry_at E C d sub field ?p))"
    using meets_raw [of "extension_encoders E encode a" "X encode a"] meets_entry [OF assms, of d field ?p] assms(2)
    unfolding d by (simp add: callbacks_write_def)
  have none: "meets (run_op (succeed ())) (Accepted [])" unfolding meets_simps by (rule none_written)
  show ?case
  proof (cases "a = 0")
    case True
    show ?thesis
      unfolding encode_extensions.simps extensions_at.simps if_P [OF True] bind_outcome.simps message_octets_simps
      by (rule none)
  next
    case False
    from meets_chk [OF x Suc.IH] show ?thesis using False by (simp add: t bind_assoc del: if_not_P)
  qed
qed

lemma meets_all_fields:
  assumes "\<And>i. i < n_fields tbl \<Longrightarrow> meets (body (iter_at tbl a i)) (map_result message_octets (g i))"
    and "j < n_fields tbl"
  shows "meets (for_fields body (iter_at tbl a j)) (map_result message_octets (map_result concat (traverse g [j..<n_fields tbl])))"
  using assms(2)
proof (induction rule: strict_inc_induct)
  case (base j)
  then have "j < n_fields tbl" "\<not> Suc j < n_fields tbl" "[j..<n_fields tbl] = [j]"
    using upt_conv_Cons [of j "n_fields tbl"] by auto
  moreover have none: "meets (run_op (succeed ())) (Accepted [])" unfolding meets_simps by (rule none_written)
  moreover note meets_chk [OF assms(1) [of j] none]
  ultimately show ?case
    by (subst for_fields_eq) (simp add: next_iter_at bind_assoc)
next
  case (step j)
  then have "[j..<n_fields tbl] = j # [Suc j..<n_fields tbl]" by (simp add: upt_conv_Cons)
  moreover note meets_chk [OF assms(1) [of j] step.IH]
  ultimately show ?case using step.hyps
    by (subst for_fields_eq) (simp add: next_iter_at bind_assoc del: iter_at.simps)
qed

lemma pb_encode_follows:
  assumes "callbacks_write E C X"
  shows "follows (pb_encode E d) (message_at E C X d)"
proof (induction d)
  case 0
  show ?case by (simp add: follows_def)
next
  case (Suc d)
  show ?case
    unfolding follows_def
  proof (intro allI)
    fix t a
    let ?tbl = "types E t"
    let ?body = "\<lambda>it. if PB_LTYPE (f_type (it_field it)) = PB_LTYPE_EXTENSION
           then encode_extension_field E d (pb_encode E d) (it_pData it)
           else encode_field E d (pb_encode E d) (it_field it) (it_pData it)"
    let ?g = "\<lambda>i. let field = descriptor ?tbl i; p = it_pData (iter_at ?tbl a i); sub = message_at E C X d in
          if PB_LTYPE (f_type field) = PB_LTYPE_EXTENSION
          then extensions_at E C X d sub d (load64 (heap E) p)
          else entry_at E C d sub field p"
    have body: "meets (?body (iter_at ?tbl a i)) (map_result message_octets (?g i))" if "i < n_fields ?tbl" for i
      using meets_entry [OF Suc assms, of d] meets_extensions [OF Suc assms, of d d]
      by (simp add: iter_at_field [OF that] encode_extension_field_def Let_def)
    show "meets (pb_encode E (Suc d) t a) (map_result message_octets (message_at E C X (Suc d) t a))"
    proof (cases "n_fields ?tbl")
      case 0
      have "f_tag (descriptor ?tbl 0) = 0" using n_fields_end [of ?tbl] 0 by simp
      moreover have none: "meets (run_op (succeed ())) (Accepted [])" unfolding meets_simps by (rule none_written)
      ultimately show ?thesis using 0 by (simp add: pb_field_iter_begin_def Let_def del: run_op_apply)
    next
      case (Suc n)
      then have "f_tag (descriptor ?tbl 0) \<noteq> 0" using n_fields_tag [of 0 ?tbl] by simp
      then have "pb_field_iter_begin ?tbl a = (True, iter_at ?tbl a 0)" by (simp add: pb_field_iter_begin_def Let_def)
      with meets_all_fields [of ?tbl ?body a ?g 0, OF body] Suc show ?thesis by (simp add: Let_def del: iter_at.simps)
    qed
  qed
qed

end

section \<open>Properties\<close>

text \<open>Into a block of memory, and without writing.\<close>

lemma block_sends:
  assumes m: "block.sends m xs" and b: "length b = unat n" and l: "length xs < 2 ^ 64"
  shows "\<exists>r s. m (pb_ostream_from_buffer b n) = Some (r, s) \<and>
    (case r of None \<Rightarrow> length b < length xs
     | Some _ \<Rightarrow> length xs \<le> length b \<and> sink s = Block (xs @ drop (length xs) b) (length xs) \<and>
         unat (bytes_written s) = length xs)"
proof -
  let ?s = "pb_ostream_from_buffer b n"
  have ok: "block.accepts ?s" using b by (simp add: block.accepts_def pb_ostream_from_buffer_def block_room_def)
  have w: "unat (bytes_written ?s) + length xs < 2 ^ 64" using l by (simp add: pb_ostream_from_buffer_def)
  obtain r s where r: "m ?s = Some (r, s)" using block.sends_total [OF m] by blast
  show ?thesis
  proof (cases r)
    case None
    with r block.sends_full [OF m w ok] b show ?thesis by (auto simp: pb_ostream_from_buffer_def)
  next
    case (Some a)
    note d = block.sends_done [OF m w ok r [unfolded Some]]
    have "length xs \<le> length b"
      using d(1,3,4) b by (simp add: block.accepts_def pb_ostream_from_buffer_def word_le_nat_alt)
    with r Some d(2,4) show ?thesis by (auto simp: pb_ostream_from_buffer_def block_wrote_def)
  qed
qed

lemma encode_sends:
  assumes "block.callbacks_write E C X" and "message_at E C X d t a = Accepted its"
  shows "block.sends (pb_encode E d t a) (message_octets its)"
proof -
  have "block.meets (pb_encode E d t a) (map_result message_octets (message_at E C X d t a))"
    using block.pb_encode_follows [OF assms(1), of d] by (simp add: block.follows_def)
  with assms(2) show ?thesis by simp
qed

text \<open>
  C28: \<open>pb_encode\<close> writes the message that is in memory: the octets of its fields in the order of the descriptors,
  with the fields that are absent or at their default left out, arrays of numbers packed, submessages and strings
  with their length in front. It fails exactly when the block has no room for them, and writes nothing behind them.
\<close>

theorem encode_writes_message:
  assumes "block.callbacks_write E C X" and "message_at E C X d t a = Accepted its"
    and "length (message_octets its) < 2 ^ 64" and "length b = unat n"
  shows "\<exists>r s. pb_encode E d t a (pb_ostream_from_buffer b n) = Some (r, s) \<and>
    (case r of None \<Rightarrow> length b < length (message_octets its)
     | Some _ \<Rightarrow> length (message_octets its) \<le> length b \<and>
         sink s = Block (message_octets its @ drop (length (message_octets its)) b) (length (message_octets its)) \<and>
         unat (bytes_written s) = length (message_octets its))"
  by (rule block_sends [OF encode_sends [OF assms(1,2)] assms(4,3)])

text \<open>
  C29: The size that \<open>pb_get_encoded_size\<close> counts is the size that \<open>pb_encode\<close> needs: a block of that size is
  enough, and no smaller one is.
\<close>

theorem encoded_size_exact:
  assumes "block.callbacks_write E C X" and "message_at E C X d t a = Accepted its"
    and "length (message_octets its) < 2 ^ 64"
  shows "\<exists>sz. pb_get_encoded_size E d t a = Some (Some sz) \<and> unat sz = length (message_octets its) \<and>
    (\<forall>b n. length b = unat n \<longrightarrow>
      (\<exists>r s. pb_encode E d t a (pb_ostream_from_buffer b n) = Some (r, s) \<and> (r \<noteq> None \<longleftrightarrow> sz \<le> n)))"
proof -
  let ?xs = "message_octets its" and ?sz = "of_nat (length (message_octets its)) :: size_t"
  note m = encode_sends [OF assms(1,2)]
  have u: "unat ?sz = length ?xs" by (rule unat_of_nat_size [OF assms(3)])
  have size: "pb_get_encoded_size E d t a = Some (Some ?sz)"
    using block.sends_sizing [OF m, of PB_OSTREAM_SIZING] assms(3)
    by (auto simp: pb_get_encoded_size_def PB_OSTREAM_SIZING_def)
  moreover have "\<exists>r s. pb_encode E d t a (pb_ostream_from_buffer b n) = Some (r, s) \<and> (r \<noteq> None \<longleftrightarrow> ?sz \<le> n)"
    if "length b = unat n" for b n
    using block_sends [OF m that assms(3)] that u by (auto simp: word_le_nat_alt split: option.splits)
  ultimately show ?thesis using u by blast
qed

text \<open>
  C33: A message that cannot be encoded - a required pointer that is null, an array with more items than it may have,
  a byte string larger than its field, a number of an unknown width, a callback that fails - is refused on every
  stream, with or without a length or a terminator, and has no encoded size.
\<close>

theorem encode_rejects:
  assumes "block.callbacks_write E C X" and "message_at E C X d t a = Rejected"
  shows "(\<exists>s'. pb_encode E d t a s = Some (None, s')) \<and> (\<exists>s'. pb_encode_delimited E d t a s = Some (None, s')) \<and>
    (\<exists>s'. pb_encode_nullterminated E d t a s = Some (None, s')) \<and> pb_get_encoded_size E d t a = Some None"
proof -
  have m: "block.rejects (pb_encode E d t a)"
    using block.pb_encode_follows [OF assms(1), of d] assms(2)
    by (metis block.follows_def block.meets_simps(2) bind_outcome.simps(2))
  then have "\<forall>s. \<exists>s'. pb_encode E d t a s = Some (None, s')" unfolding block.rejects_def .
  moreover have "block.meets (pb_encode_delimited E d t a) (map_result delimited Rejected)"
    unfolding pb_encode_delimited_def by (rule block.meets_submessage) (simp add: m)
  moreover have "block.rejects (pb_encode_nullterminated E d t a)"
    unfolding pb_encode_nullterminated_def by (rule block.rejects_chk [OF m])
  moreover obtain s0 where "pb_encode E d t a PB_OSTREAM_SIZING = Some (None, s0)" using calculation(1) by blast
  ultimately show ?thesis by (simp add: block.rejects_def pb_get_encoded_size_def)
qed

text \<open>
  \<open>pb_encode_delimited\<close> writes the same octets behind their number, \<open>pb_encode_nullterminated\<close> in front of a
  zero octet.
\<close>

theorem encode_framed:
  assumes "block.callbacks_write E C X" and "message_at E C X d t a = Accepted its"
    and "length (message_octets its) + 10 < 2 ^ 64" and "length b = unat n"
    and "length (message_octets its) + 10 \<le> length b"
  shows "(\<exists>s. pb_encode_delimited E d t a (pb_ostream_from_buffer b n) = Some (Some (), s) \<and>
      (\<exists>rest. sink s = Block (varint (length (message_octets its)) @ message_octets its @ rest) (unat (bytes_written s)))) \<and>
    (\<exists>s. pb_encode_nullterminated E d t a (pb_ostream_from_buffer b n) = Some (Some (), s) \<and>
      (\<exists>rest. sink s = Block (message_octets its @ 0 # rest) (unat (bytes_written s))))"
proof -
  let ?xs = "message_octets its"
  note m = encode_sends [OF assms(1,2)]
  have "length (varint (unat (of_nat (length ?xs) :: u64))) \<le> 10" by (rule varint_length_u64)
  then have v: "length (varint (length ?xs)) \<le> 10" using assms(3) by (simp only: unat_of_nat_size)
  have "block.sends (pb_encode_delimited E d t a) (delimited ?xs)"
    unfolding pb_encode_delimited_def by (rule block.sends_submessage, rule m)
  from block_sends [OF this assms(4)] v assms(3,5) have
    "\<exists>s. pb_encode_delimited E d t a (pb_ostream_from_buffer b n) = Some (Some (), s) \<and>
      (\<exists>rest. sink s = Block (varint (length ?xs) @ ?xs @ rest) (unat (bytes_written s)))"
    by (auto simp: delimited_def split: option.splits)
  moreover have "block.sends (pb_encode_nullterminated E d t a) (?xs @ [0])"
    unfolding pb_encode_nullterminated_def by (rule block.sends_chk [OF m block.sends_op [OF block.emits_write]]) simp
  from block_sends [OF this assms(4)] assms(3,5) have
    "\<exists>s. pb_encode_nullterminated E d t a (pb_ostream_from_buffer b n) = Some (Some (), s) \<and>
      (\<exists>rest. sink s = Block (?xs @ 0 # rest) (unat (bytes_written s)))"
    by (auto split: option.splits)
  ultimately show ?thesis ..
qed

section \<open>A message\<close>

text \<open>
  Four fields: a required number, a submessage without a has-flag, an array of at most four numbers, and a callback.
  The submessage has one optional pointer to a \<open>bool\<close>.
\<close>

definition sample_types :: "nat \<Rightarrow> pb_field list" where
  "sample_types t =
     (if t = 0 then
        [\<lparr>f_tag = 1, f_type = 0x02, f_data_offset = 0, f_size_offset = 0, f_data_size = 4, f_array_size = 0, f_ptr = Null\<rparr>,
         \<lparr>f_tag = 2, f_type = 0x18, f_data_offset = 4, f_size_offset = 0, f_data_size = 8, f_array_size = 0, f_ptr = Submessage 1\<rparr>,
         \<lparr>f_tag = 3, f_type = 0x22, f_data_offset = 4, f_size_offset = - 4, f_data_size = 4, f_array_size = 4, f_ptr = Null\<rparr>,
         \<lparr>f_tag = 4, f_type = 0x57, f_data_offset = 4, f_size_offset = 0, f_data_size = 16, f_array_size = 0, f_ptr = Null\<rparr>]
      else
        [\<lparr>f_tag = 1, f_type = 0x90, f_data_offset = 0, f_size_offset = 0, f_data_size = 1, f_array_size = 0, f_ptr = Null\<rparr>])"

definition blocks :: "(address \<times> bytes) list \<Rightarrow> memory" where
  "blocks bs a =
     (case find (\<lambda>(b, xs). a - b < of_nat (length xs)) bs of Some (b, xs) \<Rightarrow> xs ! unat (a - b) | None \<Rightarrow> 0)"

definition sample_heap :: "u8 \<Rightarrow> memory" where
  "sample_heap low = blocks
     [(0x1000, [150, 0, 0, 0, 0, 0, 0, 0, low, 0x20, 0, 0, 0, 0, 0, 0]),
      (0x1010, [2, 0, 0, 0, 5, 0, 0, 0, 44, 1, 0, 0, 0, 0, 0, 0, 0, 0, 0, 0]),
      (0x1028, [0, 0x50, 0, 0, 0, 0, 0, 0]),
      (0x2000, [1, 1])]"

definition write_hi :: "u64 \<Rightarrow> pb_field \<Rightarrow> address \<Rightarrow> ('s ostream, unit) op" where
  "write_hi f field a = chk (pb_encode_tag PB_WT_STRING (f_tag field)) (\<lambda>_. pb_encode_string [104, 105] 2)"

definition sample :: "u8 \<Rightarrow> 's pb_env" where
  "sample low = \<lparr>types = sample_types, heap = sample_heap low, callbacks = write_hi,
     extension_type = (\<lambda>_. (0, PB_LAST_FIELD)), extension_encoders = (\<lambda>_ _. failure)\<rparr>"

definition hi_octets :: callback_octets where
  "hi_octets f field a = Some (varint (tag_number PB_WT_STRING (f_tag field)) @ delimited [104, 105])"

lemma sample_callbacks: "block.callbacks_write (sample low :: 's pb_env) hi_octets (\<lambda>_ _. None)"
proof -
  have "block.emits (write_hi f field a :: ('s ostream, unit) op) (varint (tag_number PB_WT_STRING (f_tag field)) @ delimited [104, 105])" for f field a
    unfolding write_hi_def delimited_def using block.emits_string [of "[104, 105]"]
    by (intro block.emits_chk block.emits_tag) (simp_all add: wire_types)
  then show ?thesis
    by (simp add: block.callbacks_write_def block.writes_octets_def sample_def hi_octets_def failure_def)
qed

lemma sample_message: "message_at (sample 1) hi_octets (\<lambda>_ _. None) 3 0 0x1000 = Accepted
    [Item 1 (Varint_value 150), Item 2 (Message_value [Item 1 (Varint_value 1)]),
     Item 3 (Packed_values [Varint_value 5, Varint_value 300]), Raw [0x22, 2, 104, 105]]"
  by code_simp

lemma sample_octets: "message_octets [Item 1 (Varint_value 150), Item 2 (Message_value [Item 1 (Varint_value 1)]),
     Item 3 (Packed_values [Varint_value 5, Varint_value 300]), Raw [0x22, 2, 104, 105]] =
   [8, 0x96, 1, 0x12, 2, 8, 1, 0x1A, 3, 5, 0xAC, 2, 0x22, 2, 104, 105]"
  by (simp add: delimited_def tag_number_def wire_types varint.simps)

lemma sample_length: "length [8, 0x96, 1, 0x12, 2, 8, 1, 0x1A, 3, 5, 0xAC, 2, 0x22, 2, 104, 105 :: u8] = 16"
  by simp

theorem encode_writes_message_witness:
  "\<exists>s. pb_encode (sample 1 :: unit pb_env) 3 0 0x1000 (pb_ostream_from_buffer (replicate 18 7) 18) = Some (Some (), s) \<and>
     sink s = Block ([8, 0x96, 1, 0x12, 2, 8, 1, 0x1A, 3, 5, 0xAC, 2, 0x22, 2, 104, 105] @ replicate 2 7) 16"
  using encode_writes_message [OF sample_callbacks sample_message, unfolded sample_octets sample_length, of "replicate 18 7" 18]
  by (auto split: option.splits)

theorem encoded_size_exact_witness:
  "pb_get_encoded_size (sample 1 :: unit pb_env) 3 0 0x1000 = Some (Some 16)"
proof -
  obtain sz where "pb_get_encoded_size (sample 1 :: unit pb_env) 3 0 0x1000 = Some (Some sz)" "unat sz = 16"
    using encoded_size_exact [OF sample_callbacks sample_message, unfolded sample_octets sample_length] by auto
  then show ?thesis by (simp add: word_unat_eq_iff)
qed

lemma sample_rejected: "message_at (sample 1) hi_octets (\<lambda>_ _. None) 3 0 0x1004 = Rejected"
  by code_simp

theorem encode_rejects_witness:
  "pb_get_encoded_size (sample 1 :: unit pb_env) 3 0 0x1004 = Some None"
  using encode_rejects [OF sample_callbacks sample_rejected, of PB_OSTREAM_SIZING] by blast

theorem encode_framed_witness:
  "\<exists>s rest. pb_encode_delimited (sample 1 :: unit pb_env) 3 0 0x1000 (pb_ostream_from_buffer (replicate 26 0) 26) = Some (Some (), s) \<and>
     sink s = Block ([16] @ [8, 0x96, 1, 0x12, 2, 8, 1, 0x1A, 3, 5, 0xAC, 2, 0x22, 2, 104, 105] @ rest) (unat (bytes_written s))"
proof -
  have v: "varint 16 = [16]" by (simp add: varint_small)
  have p: "16 + 10 < (2 :: nat) ^ 64" "length (replicate 26 (0 :: u8)) = unat (26 :: size_t)"
    "16 + 10 \<le> length (replicate 26 (0 :: u8))" by simp_all
  from encode_framed [OF sample_callbacks sample_message, unfolded sample_octets sample_length, OF p]
  show ?thesis unfolding v by blast
qed

lemma sample_inner: "message_at (sample 0) hi_octets (\<lambda>_ _. None) 3 1 0x1008 = Accepted [Item 1 (Varint_value 1)]"
  by code_simp

lemma sample_outer: "message_at (sample 0) hi_octets (\<lambda>_ _. None) 3 0 0x1000 = Accepted
    [Item 1 (Varint_value 150), Item 3 (Packed_values [Varint_value 5, Varint_value 300]), Raw [0x22, 2, 104, 105]]"
  by code_simp

text \<open>
  C34: A submessage can be lost. \<open>pb_check_proto3_default_value\<close> compares \<open>data_size\<close> bytes with zero also for a
  pointer to a number, where \<open>data_size\<close> is the size of the number: with the \<open>bool\<close> of the sample at an address
  whose last byte is zero, its submessage by itself is encoded as two octets, but counts as empty in the message
  around it, which is encoded without it.
\<close>

theorem pointer_taken_for_default:
  "(\<exists>s. pb_encode (sample 0 :: unit pb_env) 3 1 0x1008 (pb_ostream_from_buffer [0, 0] 2) = Some (Some (), s) \<and>
      sink s = Block [8, 1] 2) \<and>
   (\<exists>s. pb_encode (sample 0 :: unit pb_env) 3 0 0x1000 (pb_ostream_from_buffer (replicate 12 0) 12) = Some (Some (), s) \<and>
      sink s = Block [8, 0x96, 1, 0x1A, 3, 5, 0xAC, 2, 0x22, 2, 104, 105] 12)"
proof
  have inner: "message_octets [Item 1 (Varint_value 1)] = [8, 1]" "length [8, 1 :: u8] = 2"
    by (simp_all add: tag_number_def wire_types varint.simps)
  have outer: "message_octets [Item 1 (Varint_value 150), Item 3 (Packed_values [Varint_value 5, Varint_value 300]),
      Raw [0x22, 2, 104, 105]] = [8, 0x96, 1, 0x1A, 3, 5, 0xAC, 2, 0x22, 2, 104, 105]"
    "length [8, 0x96, 1, 0x1A, 3, 5, 0xAC, 2, 0x22, 2, 104, 105 :: u8] = 12"
    by (simp_all add: delimited_def tag_number_def wire_types varint.simps)
  show "\<exists>s. pb_encode (sample 0 :: unit pb_env) 3 1 0x1008 (pb_ostream_from_buffer [0, 0] 2) = Some (Some (), s) \<and>
      sink s = Block [8, 1] 2"
    using block_sends [OF encode_sends [OF sample_callbacks sample_inner], unfolded inner, of "[0, 0]" 2]
    by (auto split: option.splits)
  show "\<exists>s. pb_encode (sample 0 :: unit pb_env) 3 0 0x1000 (pb_ostream_from_buffer (replicate 12 0) 12) = Some (Some (), s) \<and>
      sink s = Block [8, 0x96, 1, 0x1A, 3, 5, 0xAC, 2, 0x22, 2, 104, 105] 12"
    using block_sends [OF encode_sends [OF sample_callbacks sample_outer], unfolded outer, of "replicate 12 0" 12]
    by (auto split: option.splits)
qed

end
