(* ===== verification/Pb_Total.thy ===== *)
theory Pb_Total
  imports Pb_Message
begin

text \<open>
  The encoder returns: a bound on the nesting of the message types is a bound on the recursion of \<open>pb_encode\<close>.
\<close>

section \<open>Runs that return\<close>

definition returns :: "('s, 'a) run \<Rightarrow> bool" where
  "returns m \<longleftrightarrow> (\<forall>s. m s \<noteq> None)"

named_theorems returning

lemma returns_op [returning]: "returns (run_op m)"
  by (simp add: returns_def)

lemma run_returns_chk [returning]: "returns m \<Longrightarrow> (\<And>a. returns (f a)) \<Longrightarrow> returns (chk_run m f)"
  unfolding returns_def
proof
  fix s
  assume m: "\<forall>s. m s \<noteq> None" and f: "\<And>a. \<forall>s. f a s \<noteq> None"
  obtain r s' where "m s = Some (r, s')" using m by (metis not_None_eq surj_pair)
  with f show "chk_run m f s \<noteq> None" by (cases r) auto
qed

lemma returns_if [returning]: "returns m \<Longrightarrow> returns m' \<Longrightarrow> returns (if c then m else m')"
  by simp

lemma returns_items [returning]: "(\<And>p. returns (f p)) \<Longrightarrow> returns (for_items n sz f p)"
  by (induction n arbitrary: p) (auto intro!: returning)

lemma returns_apply: "returns m \<Longrightarrow> \<exists>r s'. m s = Some (r, s')"
  unfolding returns_def by (metis not_None_eq surj_pair)

lemma returns_submessage:
  assumes "returns (enc t a)"
  shows "returns (pb_encode_submessage enc t a)"
proof -
  have w: "returns (write_submessage enc t a sz)" for sz
    unfolding returns_def
  proof
    fix s
    show "write_submessage enc t a sz s \<noteq> None"
      using returns_apply [OF assms, of "\<lparr>sink = sink s, max_size = sz, bytes_written = 0, oerrmsg = None\<rparr>"]
      by (auto simp: write_submessage_def Let_def)
  qed
  show ?thesis
    unfolding returns_def
  proof
    fix s
    obtain r sub where sub: "enc t a PB_OSTREAM_SIZING = Some (r, sub)" using returns_apply [OF assms] by blast
    have "returns (chk_run (run_op (pb_encode_varint (bytes_written sub))) (\<lambda>_. write_submessage enc t a (bytes_written sub)))"
      by (intro returning w)
    then show "pb_encode_submessage enc t a s \<noteq> None"
      using sub by (cases r) (simp_all add: pb_encode_submessage_def Let_def returns_def)
  qed
qed

lemma returns_encoder:
  assumes "valid_ltype (PB_LTYPE (f_type field))"
    and "PB_LTYPE (f_type field) = PB_LTYPE_SUBMESSAGE \<Longrightarrow> \<exists>t. f_ptr field = Submessage t \<and> (\<forall>a. returns (enc t a))"
  shows "returns (PB_ENCODERS E enc (PB_LTYPE (f_type field)) field a)"
  using assms(1)
proof (cases rule: ltypes_cases)
  case 9
  with assms(2) obtain t where "f_ptr field = Submessage t" "\<forall>a. returns (enc t a)" by blast
  with 9 returns_submessage [of enc t a] show ?thesis by (simp add: PB_ENCODERS_def pb_enc_submessage_def ltypes)
qed (simp_all add: PB_ENCODERS_def ltypes pb_enc_bool_def pb_enc_varint_def pb_enc_uvarint_def pb_enc_svarint_def
    pb_enc_fixed32_def pb_enc_fixed64_def pb_enc_bytes_def pb_enc_string_def pb_enc_fixed_length_bytes_def Let_def returning)

lemma returns_array:
  assumes f: "\<And>p. returns (func field p)"
  shows "returns (encode_array E field a count func)"
proof -
  have p: "packed_size field a count func \<noteq> None"
    using returns_apply [OF returns_items [of "func field"], OF f, of "unat count" "ucast (f_data_size field)" a PB_OSTREAM_SIZING]
    by (auto simp: packed_size_def split: option.splits)
  have b: "returns (\<lambda>s. if sink s = Sizing then run_op (pb_write_n [] sz) s
      else for_items (unat count) (ucast (f_data_size field)) (func field) a s)" for sz
    using returns_items [of "func field", OF f] by (simp add: returns_def)
  have "returns (\<lambda>s. case packed_size field a count func of
          None \<Rightarrow> None
        | Some None \<Rightarrow> Some (None, s)
        | Some (Some sz) \<Rightarrow>
            chk_run (run_op (pb_encode_varint sz)) (\<lambda>_ s.
              if sink s = Sizing then run_op (pb_write_n [] sz) s
              else for_items (unat count) (ucast (f_data_size field)) (func field) a s) s)"
  proof (cases "packed_size field a count func")
    case (Some q)
    show ?thesis
    proof (cases q)
      case (Some sz)
      with run_returns_chk [OF returns_op b, of "pb_encode_varint sz" "\<lambda>_. sz"] \<open>packed_size field a count func = Some q\<close>
      show ?thesis by (simp only: option.case returns_def not_False_eq_True simp_thms)
    qed (use Some in \<open>simp add: returns_def\<close>)
  qed (use p in simp)
  then show ?thesis unfolding encode_array_def by (intro returning f)
qed

lemma all_fields_returns:
  assumes "\<And>i. i < n_fields tbl \<Longrightarrow> body (iter_at tbl a i) \<noteq> None" and "j < n_fields tbl"
  shows "all_fields body (iter_at tbl a j) \<noteq> None"
  using assms(2)
proof (induction rule: strict_inc_induct)
  case (base j)
  then have j: "\<not> Suc j < n_fields tbl" "j < n_fields tbl" by auto
  obtain c where "body (iter_at tbl a j) = Some c" using assms(1) [OF j(2)] by blast
  then show ?case using j by (subst all_fields.simps, cases c) (simp_all add: next_iter_at)
next
  case (step j)
  obtain c where "body (iter_at tbl a j) = Some c" using assms(1) [of j] step.hyps by auto
  then show ?case using step by (subst all_fields.simps, cases c) (simp_all add: next_iter_at del: iter_at.simps)
qed

lemma for_fields_returns:
  assumes "\<And>i. i < n_fields tbl \<Longrightarrow> returns (body (iter_at tbl a i))" and "j < n_fields tbl"
  shows "returns (for_fields body (iter_at tbl a j))"
  using assms(2)
proof (induction rule: strict_inc_induct)
  case (base j)
  then have "\<not> Suc j < n_fields tbl" "j < n_fields tbl" by auto
  then show ?case
    using assms(1) [of j] by (subst for_fields_eq) (simp add: next_iter_at returning del: run_op_apply)
next
  case (step j)
  then show ?case
    using assms(1) [of j] by (subst for_fields_eq) (simp add: next_iter_at returning del: iter_at.simps)
qed

lemma begin_iter_at: "pb_field_iter_begin tbl a = (n_fields tbl \<noteq> 0, iter_at tbl a 0)"
proof -
  have "f_tag (descriptor tbl 0) \<noteq> 0 \<longleftrightarrow> n_fields tbl \<noteq> 0"
    using n_fields_tag [of 0 tbl] n_fields_end [of tbl] by (cases "n_fields tbl = 0") auto
  then show ?thesis by (simp add: pb_field_iter_begin_def Let_def)
qed

section \<open>Message types that do not contain themselves\<close>

text \<open>
  Every submessage has a lower rank than its message. Types with extensions are left out: how many there are is
  not a matter of the types.
\<close>

definition ranked :: "(nat \<Rightarrow> pb_field list) \<Rightarrow> (nat \<Rightarrow> nat) \<Rightarrow> bool" where
  "ranked tps rank \<longleftrightarrow>
     (\<forall>t. \<forall>f \<in> set (tps t). valid_ltype (PB_LTYPE (f_type f)) \<and>
        (PB_LTYPE (f_type f) = PB_LTYPE_SUBMESSAGE \<longrightarrow> (\<exists>t'. f_ptr f = Submessage t' \<and> rank t' < rank t)) \<and>
        (PB_HTYPE (f_type f) = PB_HTYPE_ONEOF \<longrightarrow> f_size_offset f \<noteq> 0))"

lemma ranked_descriptor:
  assumes "ranked tps rank" and "i < n_fields (tps t)"
  shows "valid_ltype (PB_LTYPE (f_type (descriptor (tps t) i)))"
    "PB_LTYPE (f_type (descriptor (tps t) i)) = PB_LTYPE_SUBMESSAGE \<Longrightarrow>
      \<exists>t'. f_ptr (descriptor (tps t) i) = Submessage t' \<and> rank t' < rank t"
    "PB_HTYPE (f_type (descriptor (tps t) i)) = PB_HTYPE_ONEOF \<Longrightarrow> f_size_offset (descriptor (tps t) i) \<noteq> 0"
proof -
  have "i < length (tps t)" using assms(2) length_takeWhile_le [of _ "tps t"] by (auto simp: n_fields_def intro: less_le_trans)
  then have "descriptor (tps t) i \<in> set (tps t)" by (simp add: descriptor_def)
  with assms(1) show "valid_ltype (PB_LTYPE (f_type (descriptor (tps t) i)))"
    "PB_LTYPE (f_type (descriptor (tps t) i)) = PB_LTYPE_SUBMESSAGE \<Longrightarrow>
      \<exists>t'. f_ptr (descriptor (tps t) i) = Submessage t' \<and> rank t' < rank t"
    "PB_HTYPE (f_type (descriptor (tps t) i)) = PB_HTYPE_ONEOF \<Longrightarrow> f_size_offset (descriptor (tps t) i) \<noteq> 0"
    by (auto simp: ranked_def)
qed

lemma default_check_returns:
  assumes "ranked (types E) rank"
  shows "i < n_fields (types E t) \<Longrightarrow> rank t < d \<Longrightarrow>
    pb_check_proto3_default_value E d (descriptor (types E t) i) a \<noteq> None"
proof (induction d arbitrary: i t a)
  case (Suc d)
  let ?f = "descriptor (types E t) i"
  have "all_fields (\<lambda>it. pb_check_proto3_default_value E d (it_field it) (it_pData it)) (iter_at (types E t') a 0) \<noteq> None"
    if "f_ptr ?f = Submessage t'" "rank t' < rank t" "n_fields (types E t') \<noteq> 0" for t'
    using that Suc by (intro all_fields_returns) (simp_all add: iter_at_field)
  then have sub: "(case pb_field_iter_begin (types E t') a of
      (True, it) \<Rightarrow> all_fields (\<lambda>it. pb_check_proto3_default_value E d (it_field it) (it_pData it)) it
    | (False, _) \<Rightarrow> Some True) \<noteq> None" if "f_ptr ?f = Submessage t'" "rank t' < rank t" for t'
    using that by (cases "n_fields (types E t') = 0") (simp_all add: begin_iter_at del: iter_at.simps)
  show ?case
  proof (cases "PB_LTYPE (f_type ?f) = PB_LTYPE_SUBMESSAGE")
    case True
    then obtain t' where "f_ptr ?f = Submessage t'" "rank t' < rank t" using ranked_descriptor(2) [OF assms Suc.prems(1)] by blast
    with sub [of t'] show ?thesis by (simp add: Let_def del: not_None_eq)
  next
    case False
    then show ?thesis by (simp add: Let_def del: not_None_eq)
  qed
qed simp

lemma htype_cases: "PB_HTYPE x \<in> {PB_HTYPE_REQUIRED, PB_HTYPE_OPTIONAL, PB_HTYPE_REPEATED, PB_HTYPE_ONEOF}"
proof -
  have "x AND 0x30 = (if bit x 4 then 0x10 else 0) OR (if bit x 5 then 0x20 else 0)"
    by (rule u8_eqI) (auto simp: bit_simps)
  then show ?thesis by (auto simp: type_masks htypes)
qed

lemma basic_field_returns:
  assumes func: "\<And>p. returns (PB_ENCODERS E enc (PB_LTYPE (f_type field)) field p)"
    and check: "pb_check_proto3_default_value E d field a \<noteq> None"
    and oneof: "PB_HTYPE (f_type field) = PB_HTYPE_ONEOF \<Longrightarrow> f_size_offset field \<noteq> 0"
  shows "returns (encode_basic_field E d enc field a)"
proof -
  obtain zero where z: "pb_check_proto3_default_value E d field a = Some zero" using check by blast
  have h: "PB_HTYPE (f_type field) \<in> {PB_HTYPE_REQUIRED, PB_HTYPE_OPTIONAL, PB_HTYPE_REPEATED, PB_HTYPE_ONEOF}"
    by (rule htype_cases)
  show ?thesis
    using h oneof func
    by (auto simp: encode_basic_field_def z Let_def htypes intro!: returning returns_array split: if_splits)
qed

text \<open>
  C30: \<open>pb_encode\<close> returns. When the types of the submessages of every type have a lower rank than it, two more
  than the rank is enough of a bound, whatever is in memory, on every stream and with all callbacks.
\<close>

theorem encode_returns:
  assumes "ranked (types E) rank" and "rank t + 2 \<le> d"
  shows "\<exists>r s'. pb_encode E d t a s = Some (r, s')"
proof -
  have "returns (pb_encode E d t a)" using assms(2)
  proof (induction d arbitrary: t a)
    case (Suc d)
    let ?tbl = "types E t"
    let ?body = "\<lambda>it. if PB_LTYPE (f_type (it_field it)) = PB_LTYPE_EXTENSION
           then encode_extension_field E d (pb_encode E d) (it_pData it)
           else encode_field E d (pb_encode E d) (it_field it) (it_pData it)"
    have body: "returns (?body (iter_at ?tbl a i))" if i: "i < n_fields ?tbl" for i
    proof -
      let ?f = "descriptor ?tbl i"
      note rd = ranked_descriptor [OF assms(1) i]
      have "\<forall>p. returns (pb_encode E d t' p)" if "rank t' < rank t" for t'
        using Suc.IH [of t'] Suc.prems that by simp
      then have func: "returns (PB_ENCODERS E (pb_encode E d) (PB_LTYPE (f_type ?f)) ?f p)" for p
        using returns_encoder [OF rd(1), of "pb_encode E d" E p] rd(2) by blast
      have check: "pb_check_proto3_default_value E d ?f p \<noteq> None" for p
        by (rule default_check_returns [OF assms(1) i]) (use Suc.prems in simp)
      have "returns (encode_field E d (pb_encode E d) ?f p)" for p
        unfolding encode_field_def encode_callback_field_def
        by (intro returning basic_field_returns func check rd(3))
      moreover have "PB_LTYPE (f_type ?f) \<noteq> PB_LTYPE_EXTENSION"
        using rd(1) by (auto simp: valid_ltype_def ltypes)
      ultimately show ?thesis by (simp add: iter_at_field [OF i])
    qed
    show ?case
    proof (cases "n_fields ?tbl = 0")
      case True
      then show ?thesis unfolding pb_encode.simps begin_iter_at by (simp only: prod.case simp_thms bool.case) (rule returns_op)
    next
      case False
      then have "returns (for_fields ?body (iter_at ?tbl a 0))" by (intro for_fields_returns body) simp_all
      with False show ?thesis unfolding pb_encode.simps begin_iter_at by (simp only: prod.case simp_thms bool.case)
    qed
  qed simp
  then show ?thesis by (rule returns_apply)
qed

theorem encode_returns_witness:
  "\<exists>r s'. pb_encode (sample 1 :: unit pb_env) 3 0 0x77 PB_OSTREAM_SIZING = Some (r, s')"
proof -
  have "ranked (types (sample 1 :: unit pb_env)) (\<lambda>t. if t = 0 then 1 else 0)"
    by (simp add: ranked_def sample_def sample_types_def valid_ltype_def type_masks ltypes htypes)
  from encode_returns [OF this, of 0 3] show ?thesis by simp
qed

end
