(* ===== verification/Pb_Decode.thy ===== *)
theory Pb_Decode
  imports Pb_Encode
begin

text \<open>
  The decoder of \<open>pb_decode.c\<close>, which fills a message in memory as its descriptors say, sets messages to their
  default values, and releases what it has allocated.
\<close>

section \<open>Memory that changes\<close>

definition store_bytes :: "memory \<Rightarrow> address \<Rightarrow> bytes \<Rightarrow> memory" where
  "store_bytes m a xs = (\<lambda>b. if b - a < of_nat (length xs) then xs ! unat (b - a) else m b)"

definition store8 :: "address \<Rightarrow> u8 \<Rightarrow> memory \<Rightarrow> memory" where "store8 a v m = store_bytes m a [v]"
definition store16 :: "address \<Rightarrow> 16 word \<Rightarrow> memory \<Rightarrow> memory" where "store16 a v m = store_bytes m a (le_octets 2 v)"
definition store32 :: "address \<Rightarrow> u32 \<Rightarrow> memory \<Rightarrow> memory" where "store32 a v m = store_bytes m a (le_octets 4 v)"
definition store64 :: "address \<Rightarrow> u64 \<Rightarrow> memory \<Rightarrow> memory" where "store64 a v m = store_bytes m a (le_octets 8 v)"

text \<open>\<open>memset(a, 0, n)\<close>.\<close>

definition clear :: "address \<Rightarrow> u32 \<Rightarrow> memory \<Rightarrow> memory" where
  "clear a n m = store_bytes m a (replicate (unat n) 0)"

text \<open>Memory, and what the allocator knows about it.\<close>

record 'h world =
  ram :: memory
  arena :: 'h

text \<open>
  Around a message: the types by number; \<open>realloc\<close>, 0 being the null pointer, and \<open>free\<close>; the decoding callbacks by the
  address of their code; for an extension type at an address, its decoding function and the descriptor \<open>arg\<close> points to;
  the addresses of the local variable \<open>fixed_count_size\<close>, for each of the activations of \<open>pb_decode_noinit\<close>.
\<close>

record ('s, 'h) pb_surroundings =
  message_types :: "nat \<Rightarrow> pb_field list"
  pb_realloc :: "address \<Rightarrow> size_t \<Rightarrow> 'h world \<Rightarrow> address \<times> 'h world"
  pb_free :: "address \<Rightarrow> 'h world \<Rightarrow> 'h world"
  decoding_callbacks :: "u64 \<Rightarrow> pb_field \<Rightarrow> address \<Rightarrow> ('s istream \<times> 'h world, unit) op"
  decoding_type :: "address \<Rightarrow> u64 \<times> pb_field"
  extension_decoders :: "u64 \<Rightarrow> address \<Rightarrow> u32 \<Rightarrow> u32 \<Rightarrow> ('s istream \<times> 'h world, unit) op"
  fixed_count_at :: "nat \<Rightarrow> address"

type_synonym ('s, 'h, 'a) decoding = "('s istream \<times> 'h world, 'a) run"

definition on_stream :: "('s istream, 'a) op \<Rightarrow> ('s, 'h, 'a) decoding" where
  "on_stream m sw = (case m (fst sw) of (r, s) \<Rightarrow> Some (r, (s, snd sw)))"

definition on_world :: "('h world, 'a) run \<Rightarrow> ('s, 'h, 'a) decoding" where
  "on_world m sw = (case m (snd sw) of None \<Rightarrow> None | Some (r, w) \<Rightarrow> Some (r, (fst sw, w)))"

definition store :: "(memory \<Rightarrow> memory) \<Rightarrow> ('h world, unit) run" where
  "store f w = Some (Some (), w\<lparr>ram := f (ram w)\<rparr>)"

definition get :: "(memory \<Rightarrow> 'a) \<Rightarrow> ('h world, 'a) run" where
  "get f w = Some (Some (f (ram w)), w)"

abbreviation setting :: "(memory \<Rightarrow> memory) \<Rightarrow> ('s, 'h, unit) decoding" where
  "setting f \<equiv> on_world (store f)"

abbreviation getting :: "(memory \<Rightarrow> 'a) \<Rightarrow> ('s, 'h, 'a) decoding" where
  "getting f \<equiv> on_world (get f)"

abbreviation decode_error :: "string \<Rightarrow> ('s, 'h, 'a) decoding" where
  "decode_error msg \<equiv> on_stream (istream_error msg)"

text \<open>\<open>pb_read(stream, dest, count)\<close>. What a callback that fails leaves in its buffer is not modelled.\<close>

definition pb_read_to :: "address \<Rightarrow> size_t \<Rightarrow> ('s, 'h, unit) decoding" where
  "pb_read_to dest count = chk_run (on_stream (pb_read count)) (\<lambda>xs. setting (\<lambda>m. store_bytes m dest xs))"

text \<open>
  \<open>pb_close_string_substream\<close> once a run on the substream has ended; the result of the run is lost when closing
  fails.
\<close>

definition closing :: "'s istream \<Rightarrow> ('s, 'h, 'a) decoding \<Rightarrow> ('s, 'h, 'a) decoding" where
  "closing substream body sw =
     (case body (substream, snd sw) of
        None \<Rightarrow> None
      | Some (status, (substream, w)) \<Rightarrow>
          (case pb_close_string_substream (fst sw) substream of
             (ok, stream, _) \<Rightarrow> Some (if ok then status else None, (stream, w))))"

section \<open>Allocation\<close>

definition allocate_field :: "('s, 'h) pb_surroundings \<Rightarrow> address \<Rightarrow> size_t \<Rightarrow> size_t \<Rightarrow> ('s, 'h, unit) decoding" where
  "allocate_field E pData data_size array_size =
     chk_run (getting (\<lambda>m. load64 m pData)) (\<lambda>ptr.
       if data_size = 0 \<or> array_size = 0 then decode_error ''invalid size''
       else
         (let check_limit = push_bit 32 1; size_max = - 1 in
          if (data_size \<ge> check_limit \<or> array_size \<ge> check_limit) \<and> size_max div array_size < data_size
          then decode_error ''size too large''
          else
            chk_run (on_world (\<lambda>w. case pb_realloc E ptr (array_size * data_size) w of (p, w) \<Rightarrow> Some (Some p, w))) (\<lambda>ptr.
              if ptr = 0 then decode_error ''realloc failed'' else setting (store64 pData ptr))))"

definition freeing :: "('s, 'h) pb_surroundings \<Rightarrow> address \<Rightarrow> ('h world, unit) run" where
  "freeing E p w = Some (Some (), pb_free E p w)"

section \<open>Extensions\<close>

text \<open>
  The iterator that stands for an extension, whose \<open>dest\<close> is at 8 and \<open>found\<close> at 24. Its field is alone in its
  array.
\<close>

definition iter_from_extension :: "('s, 'h) pb_surroundings \<Rightarrow> memory \<Rightarrow> address \<Rightarrow> pb_field_iter" where
  "iter_from_extension E m extension =
     (let field = snd (decoding_type E (load64 m extension)); dest = load64 m (extension + 8);
          it = snd (pb_field_iter_begin [field] dest)
      in it\<lparr>it_pData := (if PB_ATYPE (f_type field) = PB_ATYPE_POINTER then extension + 8 else dest),
            it_pSize := extension + 24\<rparr>)"

text \<open>A loop over a list of extensions, of at most \<open>n\<close>.\<close>

primrec for_extensions :: "(address \<Rightarrow> ('h world, unit) run) \<Rightarrow> nat \<Rightarrow> address \<Rightarrow> ('h world, unit) run" where
  "for_extensions body 0 ext = (if ext = 0 then run_op (succeed ()) else stuck)"
| "for_extensions body (Suc n) ext =
     (if ext = 0 then run_op (succeed ())
      else chk_run (body ext) (\<lambda>_. chk_run (get (\<lambda>m. load64 m (ext + 16))) (for_extensions body n)))"

section \<open>Default values\<close>

definition set_fields :: "('s, 'h) pb_surroundings \<Rightarrow> (pb_field_iter \<Rightarrow> ('h world, unit) run) \<Rightarrow> nat \<Rightarrow> address \<Rightarrow> ('h world, unit) run" where
  "set_fields E body t dest =
     (case pb_field_iter_begin (message_types E t) dest of
        (False, _) \<Rightarrow> run_op (succeed ())
      | (True, it) \<Rightarrow> for_fields body it)"

text \<open>The bound is on the nesting of submessages and on the length of lists of extensions.\<close>

primrec pb_field_set_to_default :: "('s, 'h) pb_surroundings \<Rightarrow> nat \<Rightarrow> pb_field_iter \<Rightarrow> ('h world, unit) run" where
  "pb_field_set_to_default E 0 = (\<lambda>it. stuck)"
| "pb_field_set_to_default E (Suc d) = (\<lambda>it.
     let field = it_field it; type = f_type field in
     if PB_LTYPE type = PB_LTYPE_EXTENSION then
       chk_run (get (\<lambda>m. load64 m (it_pData it)))
         (for_extensions (\<lambda>ext.
            chk_run (store (store8 (ext + 24) 0)) (\<lambda>_.
              chk_run (get (\<lambda>m. iter_from_extension E m ext)) (pb_field_set_to_default E d))) d)
     else if PB_ATYPE type = PB_ATYPE_STATIC then
       chk_run
         (if PB_HTYPE type = PB_HTYPE_OPTIONAL \<and> it_pSize it \<noteq> it_pData it then store (store8 (it_pSize it) 0)
          else if PB_HTYPE type = PB_HTYPE_REPEATED \<or> PB_HTYPE type = PB_HTYPE_ONEOF then store (store32 (it_pSize it) 0)
          else run_op (succeed ()))
         (\<lambda>_.
            if PB_HTYPE type = PB_HTYPE_REPEATED \<or> PB_HTYPE type = PB_HTYPE_ONEOF then run_op (succeed ())
            else if PB_LTYPE type = PB_LTYPE_SUBMESSAGE then
              (case f_ptr field of
                 Submessage t \<Rightarrow> set_fields E (pb_field_set_to_default E d) t (it_pData it)
               | _ \<Rightarrow> stuck)
            else
              (case f_ptr field of
                 Default_value bs \<Rightarrow>
                   (if length bs < unat (f_data_size field) then stuck
                    else store (\<lambda>m. store_bytes m (it_pData it) (take (unat (f_data_size field)) bs)))
               | Null \<Rightarrow> store (clear (it_pData it) (f_data_size field))
               | Submessage _ \<Rightarrow> stuck))
     else if PB_ATYPE type = PB_ATYPE_POINTER then
       chk_run (store (store64 (it_pData it) 0)) (\<lambda>_.
         if PB_HTYPE type = PB_HTYPE_REPEATED \<or> PB_HTYPE type = PB_HTYPE_ONEOF then store (store32 (it_pSize it) 0)
         else run_op (succeed ()))
     else run_op (succeed ()))"

definition pb_message_set_to_defaults :: "('s, 'h) pb_surroundings \<Rightarrow> nat \<Rightarrow> nat \<Rightarrow> address \<Rightarrow> ('h world, unit) run" where
  "pb_message_set_to_defaults E d = set_fields E (pb_field_set_to_default E d)"

text \<open>\<open>(const pb_field_t*)field->ptr\<close>.\<close>

definition submessage_defaults :: "('s, 'h) pb_surroundings \<Rightarrow> nat \<Rightarrow> pb_field \<Rightarrow> address \<Rightarrow> ('h world, unit) run" where
  "submessage_defaults E d field dest =
     (case f_ptr field of Submessage t \<Rightarrow> pb_message_set_to_defaults E d t dest | _ \<Rightarrow> stuck)"

section \<open>Release\<close>

text \<open>The entries of an array of strings: \<open>pb_free(*pItem); *pItem++ = NULL\<close>.\<close>

definition release_entry :: "('s, 'h) pb_surroundings \<Rightarrow> address \<Rightarrow> ('h world, unit) run" where
  "release_entry E pItem =
     chk_run (get (\<lambda>m. load64 m pItem)) (\<lambda>p. chk_run (freeing E p) (\<lambda>_. store (store64 pItem 0)))"

definition release_count :: "pb_field_iter \<Rightarrow> memory \<Rightarrow> u32" where
  "release_count it m =
     (let field = it_field it; type = f_type field in
      if PB_HTYPE type = PB_HTYPE_REPEATED then
        (let count = (if PB_ATYPE type = PB_ATYPE_STATIC \<and> it_pSize it = it_pData it then f_array_size field
                      else load32 m (it_pSize it))
         in if PB_ATYPE type = PB_ATYPE_STATIC \<and> count > f_array_size field then f_array_size field else count)
      else 1)"

definition release_pointer :: "('s, 'h) pb_surroundings \<Rightarrow> pb_field_iter \<Rightarrow> ('h world, unit) run" where
  "release_pointer E it =
     (let type = f_type (it_field it) in
      chk_run
        (if PB_HTYPE type = PB_HTYPE_REPEATED \<and> (PB_LTYPE type = PB_LTYPE_STRING \<or> PB_LTYPE type = PB_LTYPE_BYTES) then
           chk_run (get (\<lambda>m. (load64 m (it_pData it), load32 m (it_pSize it))))
             (\<lambda>(pItem, count). for_items (unat count) 8 (release_entry E) pItem)
         else run_op (succeed ()))
        (\<lambda>_. chk_run (if PB_HTYPE type = PB_HTYPE_REPEATED then store (store32 (it_pSize it) 0) else run_op (succeed ()))
          (\<lambda>_. chk_run (get (\<lambda>m. load64 m (it_pData it))) (\<lambda>p.
            chk_run (freeing E p) (\<lambda>_. store (store64 (it_pData it) 0))))))"

definition pb_release_with ::
  "('s, 'h) pb_surroundings \<Rightarrow> (pb_field_iter \<Rightarrow> ('h world, unit) run) \<Rightarrow> nat \<Rightarrow> address \<Rightarrow> ('h world, unit) run" where
  "pb_release_with E body t dest = (if dest = 0 then run_op (succeed ()) else set_fields E body t dest)"

primrec pb_release_single_field :: "('s, 'h) pb_surroundings \<Rightarrow> nat \<Rightarrow> pb_field_iter \<Rightarrow> ('h world, unit) run" where
  "pb_release_single_field E 0 = (\<lambda>it. stuck)"
| "pb_release_single_field E (Suc d) = (\<lambda>it.
     let field = it_field it; type = f_type field in
     chk_run (get (\<lambda>m. PB_HTYPE type = PB_HTYPE_ONEOF \<and> load32 m (it_pSize it) \<noteq> f_tag field)) (\<lambda>other.
       if other then run_op (succeed ())
       else
         chk_run
           (if PB_LTYPE type = PB_LTYPE_EXTENSION then
              chk_run (get (\<lambda>m. load64 m (it_pData it)))
                (for_extensions (\<lambda>ext.
                   chk_run (get (\<lambda>m. iter_from_extension E m ext)) (pb_release_single_field E d)) d)
            else if PB_LTYPE type = PB_LTYPE_SUBMESSAGE \<and> PB_ATYPE type \<noteq> PB_ATYPE_CALLBACK then
              chk_run (get (\<lambda>m. (if PB_ATYPE type = PB_ATYPE_POINTER then load64 m (it_pData it) else it_pData it,
                                 release_count it m))) (\<lambda>(pItem, count).
                if pItem = 0 then run_op (succeed ())
                else
                  for_items (unat count) (ucast (f_data_size field)) (\<lambda>pItem.
                    case f_ptr field of
                      Submessage t \<Rightarrow> pb_release_with E (pb_release_single_field E d) t pItem
                    | _ \<Rightarrow> if pItem = 0 then run_op (succeed ()) else stuck) pItem)
            else run_op (succeed ()))
           (\<lambda>_. if PB_ATYPE type = PB_ATYPE_POINTER then release_pointer E it else run_op (succeed ()))))"

definition pb_release :: "('s, 'h) pb_surroundings \<Rightarrow> nat \<Rightarrow> nat \<Rightarrow> address \<Rightarrow> ('h world, unit) run" where
  "pb_release E d = pb_release_with E (pb_release_single_field E d)"

text \<open>The value is the iterator, which ends at a field with its old tag.\<close>

definition pb_release_union_field :: "('s, 'h) pb_surroundings \<Rightarrow> nat \<Rightarrow> pb_field_iter \<Rightarrow> ('s, 'h, pb_field_iter) decoding" where
  "pb_release_union_field E d it =
     chk_run (getting (\<lambda>m. load32 m (it_pSize it))) (\<lambda>old_tag.
       let new_tag = f_tag (it_field it) in
       if old_tag = 0 \<or> old_tag = new_tag then run_op (succeed it)
       else
         (case pb_field_iter_find it old_tag of
            None \<Rightarrow> stuck
          | Some (False, _) \<Rightarrow> decode_error ''invalid union tag''
          | Some (True, it) \<Rightarrow>
              chk_run (on_world (pb_release_single_field E d it)) (\<lambda>_.
                case pb_field_iter_find it new_tag of
                  None \<Rightarrow> stuck
                | Some (False, _) \<Rightarrow> decode_error ''iterator error''
                | Some (True, it) \<Rightarrow>
                    chk_run (if PB_ATYPE (f_type (it_field it)) = PB_ATYPE_POINTER then setting (store64 (it_pData it) 0)
                             else run_op (succeed ()))
                      (\<lambda>_. run_op (succeed it)))))"

section \<open>Values\<close>

text \<open>A decoder stores the value at an address as its descriptor says; a message decoder, a message.\<close>

type_synonym ('s, 'h) decoder = "pb_field \<Rightarrow> address \<Rightarrow> ('s, 'h, unit) decoding"

type_synonym ('s, 'h) message_decoder = "nat \<Rightarrow> address \<Rightarrow> ('s, 'h, unit) decoding"

definition pb_dec_bool_to :: "('s, 'h) decoder" where
  "pb_dec_bool_to field dest = chk_run (on_stream pb_dec_bool) (\<lambda>v. setting (store8 dest (if v then 1 else 0)))"

text \<open>
  The assignments \<open>clamped = *(T* )dest = (T)svalue\<close> for the widths of \<open>T\<close>, and the test that follows. \<open>ext\<close> widens to
  64 bits, with sign or without.
\<close>

definition store_clamped :: "(nat \<Rightarrow> u64 \<Rightarrow> u64) \<Rightarrow> u64 \<Rightarrow> ('s, 'h) decoder" where
  "store_clamped ext val field dest =
     (let test = (\<lambda>clamped. if clamped \<noteq> val then decode_error ''integer too large'' else run_op (succeed ())) in
      if f_data_size field = 8 then chk_run (setting (store64 dest val)) (\<lambda>_. test val)
      else if f_data_size field = 4 then chk_run (setting (store32 dest (ucast val))) (\<lambda>_. test (ext 32 val))
      else if f_data_size field = 2 then chk_run (setting (store16 dest (ucast val))) (\<lambda>_. test (ext 16 val))
      else if f_data_size field = 1 then chk_run (setting (store8 dest (ucast val))) (\<lambda>_. test (ext 8 val))
      else decode_error ''invalid data_size'')"

definition pb_dec_varint :: "('s, 'h) decoder" where
  "pb_dec_varint field dest =
     chk_run (on_stream pb_decode_varint) (\<lambda>val.
       store_clamped (\<lambda>n. signed_take_bit (n - 1)) (if f_data_size field = 8 then val else scast (ucast val :: u32))
         field dest)"

definition pb_dec_uvarint :: "('s, 'h) decoder" where
  "pb_dec_uvarint field dest =
     chk_run (on_stream pb_decode_varint) (\<lambda>val. store_clamped take_bit val field dest)"

definition pb_dec_svarint :: "('s, 'h) decoder" where
  "pb_dec_svarint field dest =
     chk_run (on_stream pb_decode_svarint) (\<lambda>val. store_clamped (\<lambda>n. signed_take_bit (n - 1)) val field dest)"

definition pb_dec_fixed32 :: "('s, 'h) decoder" where
  "pb_dec_fixed32 field dest = chk_run (on_stream pb_decode_fixed32) (\<lambda>v. setting (store32 dest v))"

definition pb_dec_fixed64 :: "('s, 'h) decoder" where
  "pb_dec_fixed64 field dest = chk_run (on_stream pb_decode_fixed64) (\<lambda>v. setting (store64 dest v))"

text \<open>\<open>stream->bytes_left < size\<close> with a run for the other case.\<close>

definition if_left :: "size_t \<Rightarrow> ('s, 'h, 'a) decoding \<Rightarrow> ('s, 'h, 'a) decoding" where
  "if_left sz m sw = (if bytes_left (fst sw) < sz then decode_error ''end-of-stream'' sw else m sw)"

definition pb_dec_bytes :: "('s, 'h) pb_surroundings \<Rightarrow> ('s, 'h) decoder" where
  "pb_dec_bytes E field dest =
     chk_run (on_stream pb_decode_varint32) (\<lambda>sz.
       if sz > PB_SIZE_MAX then decode_error ''bytes overflow''
       else
         (let alloc_size = PB_BYTES_ARRAY_T_ALLOCSIZE sz in
          if ucast sz > alloc_size then decode_error ''size too large''
          else
            chk_run
              (if PB_ATYPE (f_type field) = PB_ATYPE_POINTER then
                 if_left (ucast sz)
                   (chk_run (allocate_field E dest alloc_size 1) (\<lambda>_. getting (\<lambda>m. load64 m dest)))
               else if alloc_size > ucast (f_data_size field) then decode_error ''bytes overflow''
               else run_op (succeed dest))
              (\<lambda>bdest. chk_run (setting (store32 bdest sz)) (\<lambda>_. pb_read_to (bdest + 4) (ucast sz)))))"

text \<open>The terminator is stored whether reading succeeds or not.\<close>

definition read_terminated :: "address \<Rightarrow> size_t \<Rightarrow> ('s, 'h, unit) decoding" where
  "read_terminated dest sz sw =
     (case pb_read_to dest sz sw of
        None \<Rightarrow> None
      | Some (status, sw) \<Rightarrow> chk_run (setting (store8 (dest + sz) 0)) (\<lambda>_ sw. Some (status, sw)) sw)"

definition pb_dec_string :: "('s, 'h) pb_surroundings \<Rightarrow> ('s, 'h) decoder" where
  "pb_dec_string E field dest =
     chk_run (on_stream pb_decode_varint32) (\<lambda>sz.
       let alloc_size = ucast (sz + 1) :: size_t in
       if alloc_size < ucast sz then decode_error ''size too large''
       else
         chk_run
           (if PB_ATYPE (f_type field) = PB_ATYPE_POINTER then
              if_left (ucast sz)
                (chk_run (allocate_field E dest alloc_size 1) (\<lambda>_. getting (\<lambda>m. load64 m dest)))
            else if alloc_size > ucast (f_data_size field) then decode_error ''string overflow''
            else run_op (succeed dest))
           (\<lambda>dest. read_terminated dest (ucast sz)))"

definition pb_dec_submessage :: "('s, 'h) message_decoder \<Rightarrow> ('s, 'h) message_decoder \<Rightarrow> ('s, 'h) decoder" where
  "pb_dec_submessage pb_decode pb_decode_noinit field dest =
     chk_run (on_stream pb_make_string_substream) (\<lambda>substream.
       case f_ptr field of
         Null \<Rightarrow> decode_error ''invalid field descriptor''
       | Submessage t \<Rightarrow>
           closing substream
             (if PB_HTYPE (f_type field) = PB_HTYPE_REPEATED then pb_decode t dest else pb_decode_noinit t dest)
       | Default_value _ \<Rightarrow> stuck)"

definition pb_dec_fixed_length_bytes :: "('s, 'h) decoder" where
  "pb_dec_fixed_length_bytes field dest =
     chk_run (on_stream pb_decode_varint32) (\<lambda>sz.
       if sz > PB_SIZE_MAX then decode_error ''bytes overflow''
       else if sz = 0 then setting (clear dest (f_data_size field))
       else if sz \<noteq> f_data_size field then decode_error ''incorrect fixed length bytes size''
       else pb_read_to dest (ucast (f_data_size field)))"

text \<open>The table of the decoders; there is none for extensions.\<close>

definition PB_DECODERS ::
  "('s, 'h) pb_surroundings \<Rightarrow> ('s, 'h) message_decoder \<Rightarrow> ('s, 'h) message_decoder \<Rightarrow> u8 \<Rightarrow> ('s, 'h) decoder" where
  "PB_DECODERS E pb_decode pb_decode_noinit ltype =
     (if ltype = PB_LTYPE_BOOL then pb_dec_bool_to
      else if ltype = PB_LTYPE_VARINT then pb_dec_varint
      else if ltype = PB_LTYPE_UVARINT then pb_dec_uvarint
      else if ltype = PB_LTYPE_SVARINT then pb_dec_svarint
      else if ltype = PB_LTYPE_FIXED32 then pb_dec_fixed32
      else if ltype = PB_LTYPE_FIXED64 then pb_dec_fixed64
      else if ltype = PB_LTYPE_BYTES then pb_dec_bytes E
      else if ltype = PB_LTYPE_STRING then pb_dec_string E
      else if ltype = PB_LTYPE_SUBMESSAGE then pb_dec_submessage pb_decode pb_decode_noinit
      else if ltype = PB_LTYPE_FIXED_LENGTH_BYTES then pb_dec_fixed_length_bytes
      else (\<lambda>_ _. stuck))"

section \<open>Fields\<close>

lemma chk_run_mono [partial_function_mono]:
  assumes "mono_option (\<lambda>f. m f s)" and "\<And>a s. mono_option (\<lambda>f. g f a s)"
  shows "mono_option (\<lambda>f. chk_run (m f) (g f) s)"
proof -
  let ?next = "\<lambda>f p. case fst p of None \<Rightarrow> Some (None, snd p) | Some a \<Rightarrow> g f a (snd p)"
  have e: "chk_run (m f) (g f) s = Option.bind (m f s) (?next f)" for f
    by (cases "m f s") (auto simp: chk_run_def split: option.split)
  have "mono_option (\<lambda>f. ?next f p)" for p
    by (cases "fst p") (simp_all add: assms(2) option.const_mono)
  then show ?thesis unfolding e by (rule bind_mono [OF assms(1)])
qed

text \<open>The place of the item with the number in \<open>*size\<close>.\<close>

definition pItem :: "pb_field \<Rightarrow> address \<Rightarrow> u32 \<Rightarrow> address" where
  "pItem field pData sz = pData + ucast (f_data_size field * sz)"

text \<open>The loop over a packed array, on the substream.\<close>

partial_function (option) packed_items :: "('s, 'h) decoder \<Rightarrow> pb_field_iter \<Rightarrow> ('s, 'h, unit) decoding" where
  "packed_items func it sw =
     (let sz = load32 (ram (snd sw)) (it_pSize it) in
      if bytes_left (fst sw) > 0 \<and> sz < f_array_size (it_field it) then
        chk_run (func (it_field it) (pItem (it_field it) (it_pData it) sz))
          (\<lambda>_. chk_run (setting (\<lambda>m. store32 (it_pSize it) (load32 m (it_pSize it) + 1) m)) (\<lambda>_. packed_items func it)) sw
      else Some (Some (), sw))"

declare packed_items.simps [code]

definition decode_packed :: "('s, 'h) decoder \<Rightarrow> pb_field_iter \<Rightarrow> ('s, 'h, unit) decoding" where
  "decode_packed func it =
     chk_run (on_stream pb_make_string_substream) (\<lambda>substream (stream, w).
       case packed_items func it (substream, w) of
         None \<Rightarrow> None
       | Some (status, (substream, w)) \<Rightarrow>
           if bytes_left substream \<noteq> 0 then decode_error ''array overflow'' (stream, w)
           else closing substream (\<lambda>sw. Some (status, sw)) (stream, w))"

definition decode_static_field ::
  "('s, 'h) pb_surroundings \<Rightarrow> nat \<Rightarrow> ('s, 'h) decoder \<Rightarrow> u32 \<Rightarrow> pb_field_iter \<Rightarrow> ('s, 'h, unit) decoding" where
  "decode_static_field E d func wire_type it =
     (let field = it_field it; type = f_type field in
      if PB_HTYPE type = PB_HTYPE_REQUIRED then func field (it_pData it)
      else if PB_HTYPE type = PB_HTYPE_OPTIONAL then
        chk_run (if it_pSize it \<noteq> it_pData it then setting (store8 (it_pSize it) 1) else run_op (succeed ()))
          (\<lambda>_. func field (it_pData it))
      else if PB_HTYPE type = PB_HTYPE_REPEATED then
        (if wire_type = PB_WT_STRING \<and> PB_LTYPE type \<le> PB_LTYPE_LAST_PACKABLE then decode_packed func it
         else
           chk_run (getting (\<lambda>m. load32 m (it_pSize it))) (\<lambda>sz.
             chk_run (setting (store32 (it_pSize it) (sz + 1))) (\<lambda>_.
               if sz \<ge> f_array_size field then decode_error ''array overflow''
               else func field (pItem field (it_pData it) sz))))
      else
        chk_run (getting (\<lambda>m. load32 m (it_pSize it))) (\<lambda>which.
          chk_run
            (if PB_LTYPE type = PB_LTYPE_SUBMESSAGE \<and> which \<noteq> f_tag field then
               chk_run (setting (clear (it_pData it) (f_data_size field)))
                 (\<lambda>_. on_world (submessage_defaults E d field (it_pData it)))
             else run_op (succeed ()))
            (\<lambda>_. chk_run (setting (store32 (it_pSize it) (f_tag field))) (\<lambda>_. func field (it_pData it)))))"

definition initialize_pointer_field :: "('s, 'h) pb_surroundings \<Rightarrow> nat \<Rightarrow> address \<Rightarrow> pb_field \<Rightarrow> ('h world, unit) run" where
  "initialize_pointer_field E d p field =
     (let ltype = PB_LTYPE (f_type field) in
      if ltype = PB_LTYPE_STRING \<or> ltype = PB_LTYPE_BYTES then store (store64 p 0)
      else if ltype = PB_LTYPE_SUBMESSAGE then
        chk_run (store (clear p (f_data_size field))) (\<lambda>_. submessage_defaults E d field p)
      else run_op (succeed ()))"

text \<open>
  The loop over a packed array that is allocated; the value is whether all entries are there, and not too many.
\<close>

partial_function (option) packed_entries ::
  "('s, 'h) pb_surroundings \<Rightarrow> nat \<Rightarrow> ('s, 'h) decoder \<Rightarrow> pb_field_iter \<Rightarrow> size_t \<Rightarrow> ('s, 'h, bool) decoding" where
  "packed_entries E d func it allocated_size sw =
     (let field = it_field it; sz = load32 (ram (snd sw)) (it_pSize it) in
      if bytes_left (fst sw) = 0 then Some (Some True, sw)
      else if sz = PB_SIZE_MAX then Some (Some False, sw)
      else
        (let grow = ucast sz + 1 > allocated_size;
             remain = (bytes_left (fst sw) - 1) div ucast (f_data_size field) + 1;
             allocated_size =
               (if \<not> grow then allocated_size
                else if remain < ucast PB_SIZE_MAX - allocated_size then allocated_size + remain
                else allocated_size + 1)
         in if grow \<and> f_data_size field = 0 then None
            else
              chk_run
                (if grow then allocate_field E (it_pData it) (ucast (f_data_size field)) allocated_size
                 else run_op (succeed ()))
                (\<lambda>_. chk_run (getting (\<lambda>m. pItem field (load64 m (it_pData it)) (load32 m (it_pSize it)))) (\<lambda>p.
                   chk_run (on_world (initialize_pointer_field E d p field)) (\<lambda>_.
                     chk_run (func field p) (\<lambda>_.
                       chk_run (setting (\<lambda>m. store32 (it_pSize it) (load32 m (it_pSize it) + 1) m))
                         (\<lambda>_. packed_entries E d func it allocated_size))))) sw))"

declare packed_entries.simps [code]

text \<open>\<open>stream->errmsg\<close> is set for too many entries, and replaced by that of the substream when this closes.\<close>

definition decode_packed_entries ::
  "('s, 'h) pb_surroundings \<Rightarrow> nat \<Rightarrow> ('s, 'h) decoder \<Rightarrow> pb_field_iter \<Rightarrow> ('s, 'h, unit) decoding" where
  "decode_packed_entries E d func it =
     chk_run (getting (\<lambda>m. load32 m (it_pSize it))) (\<lambda>sz.
       chk_run (on_stream pb_make_string_substream) (\<lambda>substream (stream, w).
         case packed_entries E d func it (ucast sz) (substream, w) of
           None \<Rightarrow> None
         | Some (status, (substream, w)) \<Rightarrow>
             (let stream = (if status = Some False then stream\<lparr>errmsg := Some ''too many array entries''\<rparr> else stream) in
              closing substream (\<lambda>sw. Some (if status = Some True then Some () else None, sw)) (stream, w))))"

definition decode_pointer_field ::
  "('s, 'h) pb_surroundings \<Rightarrow> nat \<Rightarrow> ('s, 'h) decoder \<Rightarrow> u32 \<Rightarrow> pb_field_iter \<Rightarrow> ('s, 'h, unit) decoding" where
  "decode_pointer_field E d func wire_type it =
     (let field = it_field it; type = f_type field; ltype = PB_LTYPE type in
      if PB_HTYPE type = PB_HTYPE_REPEATED then
        (if wire_type = PB_WT_STRING \<and> ltype \<le> PB_LTYPE_LAST_PACKABLE then decode_packed_entries E d func it
         else
           chk_run (getting (\<lambda>m. load32 m (it_pSize it))) (\<lambda>sz.
             if sz = PB_SIZE_MAX then decode_error ''too many array entries''
             else
               chk_run (allocate_field E (it_pData it) (ucast (f_data_size field)) (ucast (sz + 1))) (\<lambda>_.
                 chk_run (getting (\<lambda>m. pItem field (load64 m (it_pData it)) (load32 m (it_pSize it)))) (\<lambda>p.
                   chk_run (setting (\<lambda>m. store32 (it_pSize it) (load32 m (it_pSize it) + 1) m)) (\<lambda>_.
                     chk_run (on_world (initialize_pointer_field E d p field)) (\<lambda>_. func field p))))))
      else
        chk_run (getting (\<lambda>m. load64 m (it_pData it))) (\<lambda>p.
          chk_run
            (if ltype = PB_LTYPE_SUBMESSAGE \<and> p \<noteq> 0 then on_world (pb_release_single_field E d it)
             else run_op (succeed ()))
            (\<lambda>_. chk_run
              (if PB_HTYPE type = PB_HTYPE_ONEOF then setting (store32 (it_pSize it) (f_tag field))
               else run_op (succeed ()))
              (\<lambda>_. if ltype = PB_LTYPE_STRING \<or> ltype = PB_LTYPE_BYTES then func field (it_pData it)
                 else
                   chk_run (allocate_field E (it_pData it) (ucast (f_data_size field)) 1) (\<lambda>_.
                     chk_run (getting (\<lambda>m. load64 m (it_pData it))) (\<lambda>p.
                       chk_run (on_world (initialize_pointer_field E d p field)) (\<lambda>_.
                         chk_run (getting (\<lambda>m. load64 m (it_pData it))) (func field))))))))"

text \<open>
  A \<open>pb_callback_t\<close> is the address of the function and its argument, of eight bytes each. The address is read for
  every call.
\<close>

definition call_callback :: "('s, 'h) pb_surroundings \<Rightarrow> pb_field_iter \<Rightarrow> ('s, 'h, unit) decoding" where
  "call_callback E it sw =
     (let decode = load64 (ram (snd sw)) (it_pData it) in
      if decode = 0 then None else Some (decoding_callbacks E decode (it_field it) (it_pData it + 8) sw))"

text \<open>\<open>do { ... } while (substream.bytes_left)\<close>; the value is whether the callback never failed.\<close>

partial_function (option) callback_loop :: "('s, 'h) pb_surroundings \<Rightarrow> pb_field_iter \<Rightarrow> ('s, 'h, bool) decoding" where
  "callback_loop E it sw =
     (case call_callback E it sw of
        None \<Rightarrow> None
      | Some (None, sw) \<Rightarrow> Some (Some False, sw)
      | Some (Some _, sw) \<Rightarrow> if bytes_left (fst sw) \<noteq> 0 then callback_loop E it sw else Some (Some True, sw))"

declare callback_loop.simps [code]

definition decode_callback_field :: "('s, 'h) pb_surroundings \<Rightarrow> u32 \<Rightarrow> pb_field_iter \<Rightarrow> ('s, 'h, unit) decoding" where
  "decode_callback_field E wire_type it =
     chk_run (getting (\<lambda>m. load64 m (it_pData it))) (\<lambda>decode.
       if it_pData it = 0 \<or> decode = 0 then on_stream (pb_skip_field wire_type)
       else if wire_type = PB_WT_STRING then
         chk_run (on_stream pb_make_string_substream) (\<lambda>substream (stream, w).
           case callback_loop E it (substream, w) of
             None \<Rightarrow> None
           | Some (status, (substream, w)) \<Rightarrow>
               if status = Some True then closing substream (run_op (succeed ())) (stream, w)
               else decode_error ''callback failed'' (stream, w))
       else
         chk_run (on_stream (read_raw_value wire_type 10)) (\<lambda>buffer (stream, w).
           case call_callback E it (pb_istream_from_buffer buffer (of_nat (length buffer)), w) of
             None \<Rightarrow> None
           | Some (status, (_, w)) \<Rightarrow> Some (status, (stream, w))))"

text \<open>The value is the iterator, as \<open>pb_release_union_field\<close> leaves it.\<close>

definition decode_field ::
  "('s, 'h) pb_surroundings \<Rightarrow> nat \<Rightarrow> ('s, 'h) message_decoder \<Rightarrow> ('s, 'h) message_decoder \<Rightarrow> u32 \<Rightarrow> pb_field_iter \<Rightarrow>
    ('s, 'h, pb_field_iter) decoding" where
  "decode_field E d pb_decode pb_decode_noinit wire_type it =
     chk_run
       (if PB_HTYPE (f_type (it_field it)) = PB_HTYPE_ONEOF then pb_release_union_field E d it else run_op (succeed it))
       (\<lambda>it.
          let type = f_type (it_field it); func = PB_DECODERS E pb_decode pb_decode_noinit (PB_LTYPE type) in
          chk_run
            (if PB_ATYPE type = PB_ATYPE_STATIC then decode_static_field E d func wire_type it
             else if PB_ATYPE type = PB_ATYPE_POINTER then decode_pointer_field E d func wire_type it
             else if PB_ATYPE type = PB_ATYPE_CALLBACK then decode_callback_field E wire_type it
             else decode_error ''invalid field type'')
            (\<lambda>_. run_op (succeed it)))"

definition default_extension_decoder ::
  "('s, 'h) pb_surroundings \<Rightarrow> nat \<Rightarrow> ('s, 'h) message_decoder \<Rightarrow> ('s, 'h) message_decoder \<Rightarrow> address \<Rightarrow> u32 \<Rightarrow> u32 \<Rightarrow>
    ('s, 'h, unit) decoding" where
  "default_extension_decoder E d pb_decode pb_decode_noinit extension tag wire_type =
     chk_run (getting (\<lambda>m. (snd (decoding_type E (load64 m extension)), iter_from_extension E m extension)))
       (\<lambda>(field, it).
          if f_tag field \<noteq> tag then run_op (succeed ())
          else
            chk_run (setting (store8 (extension + 24) 1)) (\<lambda>_.
              chk_run (decode_field E d pb_decode pb_decode_noinit wire_type it) (\<lambda>_. run_op (succeed ()))))"

text \<open>The loop over the list of the extensions, until one has read something, of at most \<open>n\<close> of them.\<close>

primrec try_extensions ::
  "('s, 'h) pb_surroundings \<Rightarrow> (address \<Rightarrow> ('s, 'h, unit) decoding) \<Rightarrow> u32 \<Rightarrow> u32 \<Rightarrow> size_t \<Rightarrow> nat \<Rightarrow> address \<Rightarrow>
    ('s, 'h, unit) decoding" where
  "try_extensions E handler tag wire_type pos 0 extension sw =
     (if extension \<noteq> 0 \<and> pos = bytes_left (fst sw) then None else Some (Some (), sw))"
| "try_extensions E handler tag wire_type pos (Suc n) extension sw =
     (if extension \<noteq> 0 \<and> pos = bytes_left (fst sw) then
        chk_run (getting (\<lambda>m. fst (decoding_type E (load64 m extension)))) (\<lambda>decode.
          chk_run (if decode \<noteq> 0 then run_op (extension_decoders E decode extension tag wire_type) else handler extension)
            (\<lambda>_. chk_run (getting (\<lambda>m. load64 m (extension + 16))) (try_extensions E handler tag wire_type pos n))) sw
      else Some (Some (), sw))"

definition decode_extension ::
  "('s, 'h) pb_surroundings \<Rightarrow> nat \<Rightarrow> ('s, 'h) message_decoder \<Rightarrow> ('s, 'h) message_decoder \<Rightarrow> u32 \<Rightarrow> u32 \<Rightarrow>
    pb_field_iter \<Rightarrow> ('s, 'h, unit) decoding" where
  "decode_extension E d pb_decode pb_decode_noinit tag wire_type it sw =
     chk_run (getting (\<lambda>m. load64 m (it_pData it)))
       (try_extensions E (\<lambda>ext. default_extension_decoder E d pb_decode pb_decode_noinit ext tag wire_type) tag wire_type
          (bytes_left (fst sw)) d) sw"

section \<open>Whole messages\<close>

definition PB_MAX_REQUIRED_FIELDS :: u32 where "PB_MAX_REQUIRED_FIELDS = 64"

text \<open>
  No field has the tag. The value is the iterator and \<open>extension_range_start\<close>.
\<close>

definition decode_unknown ::
  "('s, 'h) pb_surroundings \<Rightarrow> nat \<Rightarrow> ('s, 'h) message_decoder \<Rightarrow> ('s, 'h) message_decoder \<Rightarrow> u32 \<Rightarrow> u32 \<Rightarrow>
    pb_field_iter \<Rightarrow> u32 \<Rightarrow> ('s, 'h, pb_field_iter \<times> u32) decoding" where
  "decode_unknown E d pb_decode pb_decode_noinit tag wire_type it start sw =
     (let skip = (\<lambda>r. chk_run (on_stream (pb_skip_field wire_type)) (\<lambda>_. run_op (succeed r))) in
      if tag \<ge> start then
        (case find_extension_field it of
           None \<Rightarrow> None
         | Some (found, it) \<Rightarrow>
             (let start = (if found then f_tag (it_field it) else - 1); pos = bytes_left (fst sw) in
              if tag \<ge> start then
                chk_run (decode_extension E d pb_decode pb_decode_noinit tag wire_type it) (\<lambda>_ sw.
                  if pos \<noteq> bytes_left (fst sw) then Some (Some (it, start), sw) else skip (it, start) sw) sw
              else skip (it, start) sw))
      else skip (it, start) sw)"

text \<open>
  A repeated field without a counter is counted in \<open>fixed_count_size\<close>. \<open>fixed\<close> is the number of
  \<open>fixed_count_field\<close>.
\<close>

definition fixed_count_wrong :: "pb_field_iter \<Rightarrow> nat option \<Rightarrow> u32 \<Rightarrow> bool" where
  "fixed_count_wrong it fixed fixed_count_size =
     (case fixed of None \<Rightarrow> False | Some p \<Rightarrow> fixed_count_size \<noteq> f_array_size (descriptor (it_start it) p))"

definition enter_fixed_count ::
  "address \<Rightarrow> pb_field_iter \<Rightarrow> nat option \<Rightarrow> ('s, 'h, pb_field_iter \<times> nat option) decoding" where
  "enter_fixed_count counter it fixed =
     (if PB_HTYPE (f_type (it_field it)) = PB_HTYPE_REPEATED \<and> it_pSize it = it_pData it then
        chk_run
          (if fixed \<noteq> Some (it_pos it) then
             chk_run (getting (\<lambda>m. load32 m counter)) (\<lambda>fixed_count_size.
               if fixed_count_wrong it fixed fixed_count_size
               then decode_error ''wrong size for fixed count field''
               else setting (store32 counter 0))
           else run_op (succeed ()))
          (\<lambda>_. run_op (succeed (it\<lparr>it_pSize := counter\<rparr>, Some (it_pos it))))
      else run_op (succeed (it, fixed)))"

definition mark_seen :: "pb_field_iter \<Rightarrow> u32 list \<Rightarrow> u32 list" where
  "mark_seen it seen =
     (let i = required_field_index it in
      if PB_HTYPE (f_type (it_field it)) = PB_HTYPE_REQUIRED \<and> i < PB_MAX_REQUIRED_FIELDS
      then (let w = unat (drop_bit 5 i) in seen[w := seen ! w OR push_bit (unat (i AND 31)) 1])
      else seen)"

text \<open>The loop; the value is the iterator, \<open>fields_seen\<close> and the number of \<open>fixed_count_field\<close>.\<close>

partial_function (option) decode_fields ::
  "('s, 'h) pb_surroundings \<Rightarrow> nat \<Rightarrow> ('s, 'h) message_decoder \<Rightarrow> ('s, 'h) message_decoder \<Rightarrow> address \<Rightarrow>
    pb_field_iter \<Rightarrow> u32 list \<Rightarrow> u32 \<Rightarrow> nat option \<Rightarrow> ('s, 'h, pb_field_iter \<times> u32 list \<times> nat option) decoding" where
  "decode_fields E d pb_decode pb_decode_noinit counter it seen start fixed sw =
     (if bytes_left (fst sw) = 0 then Some (Some (it, seen, fixed), sw)
      else
        (case pb_decode_tag (fst sw) of
           ((None, eof), stream) \<Rightarrow> Some (if eof then Some (it, seen, fixed) else None, (stream, snd sw))
         | ((Some (wire_type, tag), _), stream) \<Rightarrow>
             (case pb_field_iter_find it tag of
                None \<Rightarrow> None
              | Some (found, it) \<Rightarrow>
                  if \<not> found then chk_run (decode_unknown E d pb_decode pb_decode_noinit tag wire_type it start)
                    (\<lambda>r sw. case r of (it, start) \<Rightarrow> decode_fields E d pb_decode pb_decode_noinit counter it seen start fixed sw)
                    (stream, snd sw)
                  else chk_run (enter_fixed_count counter it fixed) (\<lambda>r sw. case r of (it, fixed) \<Rightarrow>
                    chk_run (decode_field E d pb_decode pb_decode_noinit wire_type it)
                      (\<lambda>it'. decode_fields E d pb_decode pb_decode_noinit counter it' (mark_seen it seen) start fixed) sw)
                    (stream, snd sw))))"

declare decode_fields.simps [code]

text \<open>The walk to the last field: \<open>req_field_count\<close>, \<open>last_type\<close> and the iterator.\<close>

function to_last :: "pb_field_iter \<Rightarrow> u32 \<times> u8 \<times> pb_field_iter" where
  "to_last it =
     (case pb_field_iter_next it of
        (True, it') \<Rightarrow> to_last it'
      | (False, it') \<Rightarrow> (required_field_index it, f_type (it_field it), it'))"
  by pat_completeness auto
termination
  by (relation "measure (\<lambda>it. length (it_start it) - it_pos it)") (auto dest: next_True [OF sym])

declare to_last.simps [simp del]

definition required_seen :: "pb_field_iter \<Rightarrow> u32 list \<Rightarrow> bool" where
  "required_seen it seen =
     (case to_last it of
        (req_field_count, last_type, it) \<Rightarrow>
          (let n = (if PB_HTYPE last_type = PB_HTYPE_REQUIRED \<and> f_tag (it_field it) \<noteq> 0 then req_field_count + 1
                    else req_field_count);
               n = (if n > PB_MAX_REQUIRED_FIELDS then PB_MAX_REQUIRED_FIELDS else n);
               whole = unat (drop_bit 5 n); rest = unat (n AND 31)
           in n > 0 \<longrightarrow>
                list_all (\<lambda>i. seen ! i = - 1) [0..<whole] \<and>
                (rest \<noteq> 0 \<longrightarrow> seen ! whole = drop_bit (32 - rest) (- 1))))"

definition noinit_with ::
  "('s, 'h) pb_surroundings \<Rightarrow> nat \<Rightarrow> ('s, 'h) message_decoder \<Rightarrow> ('s, 'h) message_decoder \<Rightarrow> ('s, 'h) message_decoder" where
  "noinit_with E d pb_decode pb_decode_noinit t dest =
     (let counter = fixed_count_at E d in
      chk_run (setting (store32 counter 0)) (\<lambda>_.
        chk_run
          (decode_fields E d pb_decode pb_decode_noinit counter (snd (pb_field_iter_begin (message_types E t) dest)) [0, 0] 0 None)
          (\<lambda>(it, seen, fixed).
             chk_run (getting (\<lambda>m. load32 m counter)) (\<lambda>fixed_count_size.
               if fixed_count_wrong it fixed fixed_count_size
               then decode_error ''wrong size for fixed count field''
               else if \<not> required_seen it seen then decode_error ''missing required field''
               else run_op (succeed ())))))"

definition decode_with :: "('s, 'h) pb_surroundings \<Rightarrow> nat \<Rightarrow> ('s, 'h) message_decoder \<Rightarrow> ('s, 'h) message_decoder" where
  "decode_with E d pb_decode_noinit t dest =
     chk_run (on_world (pb_message_set_to_defaults E d t dest)) (\<lambda>_ sw.
       case pb_decode_noinit t dest sw of
         Some (None, sw) \<Rightarrow> chk_run (on_world (pb_release E d t dest)) (\<lambda>_ sw. Some (None, sw)) sw
       | r \<Rightarrow> r)"

text \<open>The bound is on the nesting of submessages and on the length of lists of extensions.\<close>

primrec pb_decode_noinit :: "('s, 'h) pb_surroundings \<Rightarrow> nat \<Rightarrow> ('s, 'h) message_decoder" where
  "pb_decode_noinit E 0 = (\<lambda>t dest. stuck)"
| "pb_decode_noinit E (Suc d) = noinit_with E d (decode_with E d (pb_decode_noinit E d)) (pb_decode_noinit E d)"

definition pb_decode :: "('s, 'h) pb_surroundings \<Rightarrow> nat \<Rightarrow> ('s, 'h) message_decoder" where
  "pb_decode E d = decode_with E d (pb_decode_noinit E d)"

definition pb_decode_delimited_noinit :: "('s, 'h) pb_surroundings \<Rightarrow> nat \<Rightarrow> ('s, 'h) message_decoder" where
  "pb_decode_delimited_noinit E d t dest =
     chk_run (on_stream pb_make_string_substream) (\<lambda>substream. closing substream (pb_decode_noinit E d t dest))"

definition pb_decode_delimited :: "('s, 'h) pb_surroundings \<Rightarrow> nat \<Rightarrow> ('s, 'h) message_decoder" where
  "pb_decode_delimited E d t dest =
     chk_run (on_stream pb_make_string_substream) (\<lambda>substream. closing substream (pb_decode E d t dest))"

definition pb_decode_nullterminated :: "('s, 'h) pb_surroundings \<Rightarrow> nat \<Rightarrow> ('s, 'h) message_decoder" where
  "pb_decode_nullterminated = pb_decode"

end
