(* ===== verification/Pb_Safe.thy ===== *)
theory Pb_Safe
  imports Pb_Total Pb_Decode
begin

text \<open>
  Decoding stays inside: whatever the input is, \<open>pb_decode\<close> returns, and writes nowhere but in the structure it is
  given, when the fields of the message types lie in their structures. The last sections are about two cases that
  this excludes or is silent on: arrays without a counter that are shorter than one, and types without fields.
\<close>

section \<open>Regions of memory\<close>

definition region :: "address \<Rightarrow> nat \<Rightarrow> address set" where
  "region a n = {x. unat (x - a) < n}"

definition keeps :: "address set \<Rightarrow> memory \<Rightarrow> memory \<Rightarrow> bool" where
  "keeps R m m' \<longleftrightarrow> (\<forall>x. x \<notin> R \<longrightarrow> m' x = m x)"

lemma keeps_refl [simp]: "keeps R m m"
  by (simp add: keeps_def)

lemma keeps_trans: "keeps R m m' \<Longrightarrow> keeps R m' m'' \<Longrightarrow> keeps R m m''"
  by (simp add: keeps_def)

lemma region_sub:
  assumes "unat off + k \<le> n"
  shows "region (a + off) k \<subseteq> region a n"
proof
  fix x
  assume x: "x \<in> region (a + off) k"
  have "x - a = off + (x - (a + off))" by simp
  then have "unat (x - a) = (unat off + unat (x - (a + off))) mod 2 ^ 64"
    using unat_word_ariths(1) [of off "x - (a + off)"] by simp
  then have "unat (x - a) \<le> unat off + unat (x - (a + off))" by (simp only: mod_less_eq_dividend)
  with x assms show "x \<in> region a n" by (simp add: region_def)
qed

lemma region_mono: "k \<le> n \<Longrightarrow> region a k \<subseteq> region a n"
  using region_sub [of 0 k n a] by simp

lemma keeps_store_bytes:
  assumes "region a (length xs) \<subseteq> R"
  shows "keeps R m (store_bytes m a xs)"
proof -
  have "x \<in> region a (length xs)" if "x - a < of_nat (length xs)" for x
    using that mod_less_eq_dividend [of "length xs" "2 ^ 64"]
    by (simp add: region_def word_less_nat_alt unat_of_nat)
  with assms show ?thesis by (auto simp: keeps_def store_bytes_def)
qed

lemma keeps_store [intro]:
  "region a 1 \<subseteq> R \<Longrightarrow> keeps R m (store8 a b m)"
  "region a 2 \<subseteq> R \<Longrightarrow> keeps R m (store16 a h m)"
  "region a 4 \<subseteq> R \<Longrightarrow> keeps R m (store32 a v m)"
  "region a 8 \<subseteq> R \<Longrightarrow> keeps R m (store64 a w m)"
  "region a (unat n) \<subseteq> R \<Longrightarrow> keeps R m (clear a n m)"
  by (simp_all add: store8_def store16_def store32_def store64_def clear_def keeps_store_bytes length_le_octets)

section \<open>Streams that shrink\<close>

text \<open>A callback does not deliver more than it is asked for.\<close>

definition sound_source :: "'s source \<Rightarrow> bool" where
  "sound_source c \<longleftrightarrow>
     (case c of Buffer _ \<Rightarrow> True
      | Callback f _ \<Rightarrow> \<forall>n st out st'. f n st = Data out st' \<longrightarrow> length out \<le> unat n)"

definition shrinks :: "'s istream \<Rightarrow> 's istream \<Rightarrow> bool" where
  "shrinks s s' \<longleftrightarrow> sound_source (source s') \<and> bytes_left s' \<le> bytes_left s"

text \<open>A reading operation only shrinks its stream, and its value satisfies \<open>P\<close>.\<close>

definition calm :: "('s istream, 'a) op \<Rightarrow> ('a \<Rightarrow> bool) \<Rightarrow> bool" where
  "calm m P \<longleftrightarrow> (\<forall>s. sound_source (source s) \<longrightarrow> (case m s of (r, s') \<Rightarrow> shrinks s s' \<and> pred_option P r))"

named_theorems calming

lemma calmD:
  assumes "calm m P" "sound_source (source s)" "m s = (r, s')"
  shows "sound_source (source s')" "bytes_left s' \<le> bytes_left s" "r = Some a \<Longrightarrow> P a"
  using assms by (auto simp: calm_def shrinks_def)

lemma calmI:
  assumes "\<And>s r s'. sound_source (source s) \<Longrightarrow> m s = (r, s') \<Longrightarrow> shrinks s s' \<and> pred_option P r"
  shows "calm m P"
  using assms by (auto simp: calm_def)

lemma calm_weaken: "calm m P \<Longrightarrow> (\<And>a. P a \<Longrightarrow> Q a) \<Longrightarrow> calm m Q"
  by (auto simp: calm_def pred_option_def split: prod.splits)

lemma calm_chk [calming]: "calm m P \<Longrightarrow> (\<And>a. P a \<Longrightarrow> calm (f a) Q) \<Longrightarrow> calm (chk m f) Q"
proof (rule calmI)
  fix s r s'
  assume m: "calm m P" and f: "\<And>a. P a \<Longrightarrow> calm (f a) Q" and s: "sound_source (source s)" and r: "chk m f s = (r, s')"
  obtain r1 s1 where 1: "m s = (r1, s1)" by fastforce
  note c = calmD [OF m s 1]
  show "shrinks s s' \<and> pred_option Q r"
  proof (cases r1)
    case None
    with 1 r c show ?thesis by (auto simp: shrinks_def)
  next
    case (Some a)
    with 1 r have "f a s1 = (r, s')" by simp
    with calmD [OF f [OF c(3) [OF Some]] c(1) this] c(2) show ?thesis by (cases r) (auto simp: shrinks_def)
  qed
qed

lemma calm_succeed [calming]: "P a \<Longrightarrow> calm (succeed a) P"
  by (auto simp: calm_def shrinks_def succeed_def)

lemma calm_any: "calm (succeed a) (\<lambda>_. True)"
  by (rule calm_succeed) (rule TrueI)

lemma calm_error [calming]: "calm (istream_error msg) P"
  by (auto simp: calm_def shrinks_def istream_error_def)

lemma calm_if [calming]: "calm m P \<Longrightarrow> calm m' P \<Longrightarrow> calm (if c then m else m') P"
  by simp

lemma calm_callback: "calm (run_callback n) (\<lambda>out. length out \<le> unat n)"
proof (rule calmI)
  fix s :: "'a istream" and r s'
  assume s: "sound_source (source s)" and r: "run_callback n s = (r, s')"
  show "shrinks s s' \<and> pred_option (\<lambda>out. length out \<le> unat n) r"
  proof (cases "source s")
    case (Callback f st)
    with s have "\<And>st out st'. f n st = Data out st' \<Longrightarrow> length out \<le> unat n" by (auto simp: sound_source_def)
    with s r Callback show ?thesis
      by (auto simp: run_callback_def shrinks_def sound_source_def split: reading.splits)
  qed (use r in \<open>auto simp: run_callback_def shrinks_def sound_source_def buf_read_def\<close>)
qed

text \<open>On success it takes off \<open>count\<close>, and this was there.\<close>

lemma calm_take:
  assumes "sound_source (source s)" and "count \<le> bytes_left s" and "run_callback count s = (r, s1)"
    and "(case r of None \<Rightarrow> istream_error msg s1 | Some out \<Rightarrow> (Some (f out), s1\<lparr>bytes_left := bytes_left s1 - count\<rparr>)) = (r', s')"
  shows "shrinks s s' \<and> pred_option (\<lambda>v. \<exists>out. length out \<le> unat count \<and> v = f out) r'"
proof (cases r)
  case None
  with assms(4) calmD [OF calm_callback assms(1,3)] show ?thesis by (auto simp: shrinks_def istream_error_def)
next
  case (Some out)
  note c = calmD [OF calm_callback assms(1,3)]
  have "bytes_left s1 = bytes_left s" using run_callback_left assms(3) Some by blast
  moreover have "bytes_left s - count \<le> bytes_left s" using assms(2) by (simp add: word_sub_le)
  ultimately show ?thesis using Some assms(4) c(1) c(3) [OF Some] by (auto simp: shrinks_def)
qed

lemma calm_read_direct: "calm (pb_read_direct count) (\<lambda>out. length out \<le> unat count)"
proof (rule calmI)
  fix s :: "'a istream" and r s'
  assume s: "sound_source (source s)" and r: "pb_read_direct count s = (r, s')"
  obtain r1 s1 where 1: "run_callback count s = (r1, s1)" by fastforce
  show "shrinks s s' \<and> pred_option (\<lambda>out. length out \<le> unat count) r"
  proof (cases "count = 0 \<or> bytes_left s < count")
    case True
    with r s show ?thesis by (auto simp: pb_read_direct_def istream_error_def shrinks_def split: if_splits)
  next
    case False
    with r 1 have "(case r1 of None \<Rightarrow> istream_error ''io error'' s1
        | Some out \<Rightarrow> (Some (id out), s1\<lparr>bytes_left := bytes_left s1 - count\<rparr>)) = (r, s')"
      by (auto simp: pb_read_direct_def split: option.splits)
    from calm_take [OF s _ 1 this] False show ?thesis by (auto simp: not_less pred_option_def)
  qed
qed

lemma calm_read [calming]: "calm (pb_read count) (\<lambda>out. length out \<le> unat count)"
  by (simp add: pb_read_def calm_read_direct)

lemma calm_readbyte: "calm pb_readbyte (\<lambda>_. True)"
proof (rule calmI)
  fix s :: "'a istream" and r s'
  assume s: "sound_source (source s)" and r: "pb_readbyte s = (r, s')"
  obtain r1 s1 where 1: "run_callback 1 s = (r1, s1)" by fastforce
  show "shrinks s s' \<and> pred_option (\<lambda>_. True) r"
  proof (cases "bytes_left s = 0")
    case True
    with r s show ?thesis by (auto simp: pb_readbyte_def istream_error_def shrinks_def)
  next
    case False
    with r 1 have "(case r1 of None \<Rightarrow> istream_error ''io error'' s1
        | Some out \<Rightarrow> (Some (hd out), s1\<lparr>bytes_left := bytes_left s1 - 1\<rparr>)) = (r, s')"
      by (auto simp: pb_readbyte_def split: option.splits)
    moreover have "1 \<le> bytes_left s" using False by (simp add: word_le_nat_alt unat_gt_0 Suc_le_eq)
    ultimately show ?thesis using calm_take [OF s _ 1] by (fastforce simp: pred_option_def)
  qed
qed

lemma shrinks_trans: "shrinks s s1 \<Longrightarrow> shrinks s1 s2 \<Longrightarrow> shrinks s s2"
  by (auto simp: shrinks_def)

lemma shrinks_byte:
  assumes "sound_source (source s)" and "pb_readbyte s = (r, s1)"
  shows "shrinks s s1" "sound_source (source s1)"
  using calmD [OF calm_readbyte assms] by (auto simp: shrinks_def)

lemma shrinks_error: "sound_source (source s) \<Longrightarrow> istream_error msg s = (r, s') \<Longrightarrow> shrinks s s' \<and> r = None"
  by (auto simp: shrinks_def istream_error_def)

lemma shrinks_varint32_loop:
  "sound_source (source s) \<Longrightarrow> varint32_loop bitpos result s = (r, s') \<Longrightarrow> shrinks s s'"
proof (induction "unat (bytes_left s)" arbitrary: bitpos result s r s' rule: less_induct)
  case less
  obtain rb s1 where b: "pb_readbyte s = (rb, s1)" by fastforce
  note s1 = shrinks_byte [OF less.prems(1) b]
  show ?case
  proof (cases rb)
    case None
    with less.prems(2) b s1 show ?thesis by (simp add: varint32_loop.simps)
  next
    case (Some byte)
    note IH = less.hyps [OF readbyte_left [OF b [unfolded Some]] s1(2)]
    have "istream_error ''varint overflow'' s1 = (r, s') \<or> (\<exists>b' q'. varint32_loop b' q' s1 = (r, s')) \<or> s' = s1"
      using less.prems(2) b Some by (auto simp: varint32_loop.simps [of _ _ s] Let_def split: if_splits)
    with shrinks_error [OF s1(2)] IH s1(2) have "shrinks s1 s'" by (auto simp: shrinks_def)
    with s1(1) show ?thesis by (rule shrinks_trans)
  qed
qed

lemma shrinks_varint_loop:
  "sound_source (source s) \<Longrightarrow> varint_loop bitpos result s = (r, s') \<Longrightarrow> shrinks s s'"
proof (induction "unat (bytes_left s)" arbitrary: bitpos result s r s' rule: less_induct)
  case less
  obtain rb s1 where b: "pb_readbyte s = (rb, s1)" by fastforce
  note s1 = shrinks_byte [OF less.prems(1) b]
  show ?case
  proof (cases rb)
    case None
    with less.prems b s1 shrinks_error [OF less.prems(1), of "''varint overflow''" r s'] show ?thesis
      by (auto simp: varint_loop.simps split: if_splits)
  next
    case (Some byte)
    note IH = less.hyps [OF readbyte_left [OF b [unfolded Some]] s1(2)]
    have "istream_error ''varint overflow'' s = (r, s') \<or> (\<exists>b' q'. varint_loop b' q' s1 = (r, s')) \<or> s' = s1"
      using less.prems(2) b Some by (auto simp: varint_loop.simps [of _ _ s] Let_def split: if_splits)
    with shrinks_error [OF less.prems(1)] IH s1 show ?thesis by (auto intro: shrinks_trans)
  qed
qed

lemma shrinks_varint32_eof:
  "sound_source (source s) \<Longrightarrow> pb_decode_varint32_eof s = (r, s') \<Longrightarrow> shrinks s s'"
proof -
  assume s: "sound_source (source s)" and r: "pb_decode_varint32_eof s = (r, s')"
  obtain rb s1 where b: "pb_readbyte s = (rb, s1)" by fastforce
  note s1 = shrinks_byte [OF s b]
  obtain rl s2 where l: "varint32_loop 7 (ucast (the rb AND 0x7F)) s1 = (rl, s2)" by fastforce
  note s2 = shrinks_varint32_loop [OF s1(2) l]
  obtain re s3 where e: "istream_error ''varint overflow'' s2 = (re :: u32 option, s3)" by fastforce
  have "shrinks s2 s3" using shrinks_error [OF _ e] s2 by (auto simp: shrinks_def)
  then have "shrinks s s2" "shrinks s s3" using shrinks_trans [OF s1(1) s2] by (auto intro: shrinks_trans)
  with s1 r b l e show ?thesis
    by (auto simp: pb_decode_varint32_eof_def split: option.splits if_splits prod.splits)
qed

lemma calm_varint32 [calming]: "calm pb_decode_varint32 (\<lambda>_. True)"
  by (rule calmI) (auto simp: pb_decode_varint32_def pred_option_def split: prod.splits dest: shrinks_varint32_eof)

lemma calm_varint [calming]: "calm pb_decode_varint (\<lambda>_. True)"
  by (rule calmI) (auto simp: pb_decode_varint_def pred_option_def dest: shrinks_varint_loop)

lemma calm_svarint [calming]: "calm pb_decode_svarint (\<lambda>_. True)"
  unfolding pb_decode_svarint_def by (intro calm_chk [OF calm_varint] calming TrueI)

lemma calm_fixed [calming]: "calm pb_decode_fixed32 (\<lambda>_. True)" "calm pb_decode_fixed64 (\<lambda>_. True)"
  unfolding pb_decode_fixed32_def pb_decode_fixed64_def by (intro calm_chk [OF calm_read] calming TrueI)+

lemma calm_bool [calming]: "calm pb_dec_bool (\<lambda>_. True)"
  unfolding pb_dec_bool_def by (intro calm_chk [OF calm_varint32] calming TrueI)

lemma calm_skip_chunks: "calm (skip_chunks count) (\<lambda>_. True)"
proof (rule calmI)
  fix s :: "'a istream" and r s'
  show "sound_source (source s) \<Longrightarrow> skip_chunks count s = (r, s') \<Longrightarrow> shrinks s s' \<and> pred_option (\<lambda>_. True) r"
  proof (induction "unat count" arbitrary: count s r s' rule: less_induct)
    case less
    show ?case
    proof (cases "count > 16")
      case True
      obtain r1 s1 where 1: "pb_read_direct 16 s = (r1, s1)" by fastforce
      note c = calmD [OF calm_read_direct less.prems(1) 1]
      have lt: "unat (count - 16) < unat count" using True by (simp add: unat_sub_le word_le_nat_alt word_less_nat_alt)
      show ?thesis
        using less.prems(2) True 1 c less.hyps [OF lt c(1), of r s']
        by (cases r1) (auto simp: skip_chunks.simps [of count] shrinks_def)
    next
      case False
      have "calm (chk (pb_read_direct count) (\<lambda>_. succeed ())) (\<lambda>_. True)"
        by (intro calm_chk [OF calm_read_direct] calming TrueI)
      with calmD [OF this less.prems(1), of r s'] less.prems(2) False show ?thesis
        by (simp add: skip_chunks.simps [of count] shrinks_def pred_option_def)
    qed
  qed
qed

lemma calm_skip [calming]: "calm (pb_skip count) (\<lambda>_. True)"
proof -
  have "calm (chk (pb_read_direct count) (\<lambda>_. succeed ())) (\<lambda>_. True)"
    by (intro calm_chk [OF calm_read_direct] calming TrueI)
  note d = calmD [OF this] calmD [OF calm_skip_chunks]
  show ?thesis
  proof (rule calmI)
    fix s :: "'a istream" and r s'
    assume s: "sound_source (source s)" and r: "pb_skip count s = (r, s')"
    have "chk (pb_read_direct count) (\<lambda>_. succeed ()) s = (r, s') \<or> skip_chunks count s = (r, s') \<or> s' = s"
      using r by (auto simp: pb_skip_def split: source.splits if_splits)
    with d [OF s] s show "shrinks s s' \<and> pred_option (\<lambda>_. True) r" by (auto simp: shrinks_def pred_option_def)
  qed
qed

lemma calm_skip_string [calming]: "calm pb_skip_string (\<lambda>_. True)"
  unfolding pb_skip_string_def by (intro calm_chk [OF calm_varint32] calming TrueI)

lemma calm_skip_varint [calming]: "calm pb_skip_varint (\<lambda>_. True)"
proof (rule calmI)
  fix s :: "'a istream" and r s'
  show "sound_source (source s) \<Longrightarrow> pb_skip_varint s = (r, s') \<Longrightarrow> shrinks s s' \<and> pred_option (\<lambda>_. True) r"
  proof (induction "unat (bytes_left s)" arbitrary: s r s' rule: less_induct)
    case less
    obtain r1 s1 where 1: "pb_read 1 s = (r1, s1)" by fastforce
    note c = calmD [OF calm_read less.prems(1) 1]
    show ?case
    proof (cases r1)
      case (Some b)
      with less.prems(2) 1 c less.hyps [OF read1_left [OF 1 [unfolded Some]] c(1), of r s'] show ?thesis
        by (auto simp: pb_skip_varint.simps [of s] shrinks_def split: if_splits)
    qed (use less.prems(2) 1 c in \<open>auto simp: pb_skip_varint.simps [of s] shrinks_def\<close>)
  qed
qed

lemma calm_skip_field [calming]: "calm (pb_skip_field wire_type) (\<lambda>_. True)"
  unfolding pb_skip_field_def by (intro calming)

lemma calm_make_substream: "calm pb_make_string_substream (\<lambda>sub. sound_source (source sub))"
proof -
  have "calm (\<lambda>stream. if bytes_left stream < ucast sz then istream_error ''parent stream too short'' stream
      else (Some (stream\<lparr>bytes_left := ucast sz\<rparr>), stream\<lparr>bytes_left := bytes_left stream - ucast sz\<rparr>))
    (\<lambda>sub. sound_source (source sub))" for sz :: u32
    by (auto simp: calm_def shrinks_def istream_error_def word_sub_le not_less)
  then show ?thesis unfolding pb_make_string_substream_def Let_def by (intro calm_chk [OF calm_varint32])
qed

lemma close_substream_shrinks:
  assumes "sound_source (source s)" and "sound_source (source sub)" and "pb_close_string_substream s sub = (ok, s', sub')"
  shows "shrinks s s'"
proof -
  obtain r sub1 where 1: "(if bytes_left sub \<noteq> 0 then pb_skip (bytes_left sub) sub else (Some (), sub)) = (r, sub1)" by fastforce
  have "sound_source (source sub1)"
    using 1 assms(2) calmD(1) [OF calm_skip assms(2)] by (auto split: if_splits)
  with 1 assms show ?thesis
    by (auto simp: pb_close_string_substream_def shrinks_def simp del: if_split_asm split: option.splits)
qed

text \<open>A successful read of these takes at least one byte.\<close>

definition eats :: "('s istream, 'a) op \<Rightarrow> bool" where
  "eats m \<longleftrightarrow> (\<forall>s a s'. sound_source (source s) \<longrightarrow> m s = (Some a, s') \<longrightarrow> bytes_left s' < bytes_left s)"

lemma eats_chk: "eats m \<Longrightarrow> calm m P \<Longrightarrow> (\<And>a. P a \<Longrightarrow> calm (f a) Q) \<Longrightarrow> eats (chk m f)"
  unfolding eats_def
proof (intro allI impI)
  fix s a s'
  assume m: "\<forall>s a s'. sound_source (source s) \<longrightarrow> m s = (Some a, s') \<longrightarrow> bytes_left s' < bytes_left s" and c: "calm m P"
    and f: "\<And>a. P a \<Longrightarrow> calm (f a) Q" and s: "sound_source (source s)" and r: "chk m f s = (Some a, s')"
  obtain b s1 where 1: "m s = (Some b, s1)" "f b s1 = (Some a, s')" using r by (auto elim: chk_SomeE)
  note c = calmD [OF c s 1(1)]
  from m s 1(1) have "bytes_left s1 < bytes_left s" by blast
  with calmD(2) [OF f [OF c(3) [OF refl]] c(1) 1(2)] show "bytes_left s' < bytes_left s"
    by (simp add: word_less_nat_alt word_le_nat_alt)
qed

lemma eats_readbyte: "eats pb_readbyte"
  by (auto simp: eats_def word_less_nat_alt dest: readbyte_left)

lemma varint32_eof_left:
  assumes "sound_source (source s)" and "pb_decode_varint32_eof s = ((Some v, eof), s')"
  shows "bytes_left s' < bytes_left s"
proof -
  obtain b s1 where b: "pb_readbyte s = (Some b, s1)"
    using assms(2) by (cases "pb_readbyte s") (auto simp: pb_decode_varint32_eof_def split: option.splits)
  have "bytes_left s' \<le> bytes_left s1"
    using assms(2) b shrinks_byte(2) [OF assms(1) b] shrinks_varint32_loop [OF shrinks_byte(2) [OF assms(1) b]]
    by (auto simp: pb_decode_varint32_eof_def istream_error_def shrinks_def split: option.splits if_splits prod.splits)
  moreover have "bytes_left s1 < bytes_left s" using readbyte_left [OF b] by (simp add: word_less_nat_alt)
  ultimately show ?thesis by (simp add: word_less_nat_alt word_le_nat_alt)
qed

lemma eats_varint32: "eats pb_decode_varint32"
  by (auto simp: eats_def pb_decode_varint32_def split: prod.splits dest: varint32_eof_left)

lemma eats_varint: "eats pb_decode_varint"
  unfolding eats_def
proof (intro allI impI)
  fix s :: "'a istream" and v s'
  assume s: "sound_source (source s)" and v: "pb_decode_varint s = (Some v, s')"
  obtain b s1 where b: "pb_readbyte s = (Some b, s1)"
    using v by (cases "pb_readbyte s") (auto simp: pb_decode_varint_def varint_loop.simps [of _ _ s] split: option.splits)
  have "bytes_left s' \<le> bytes_left s1"
    using v b shrinks_varint_loop [OF shrinks_byte(2) [OF s b]] shrinks_byte(2) [OF s b]
    by (auto simp: pb_decode_varint_def varint_loop.simps [of _ _ s] shrinks_def Let_def split: if_splits)
  moreover have "bytes_left s1 < bytes_left s" using readbyte_left [OF b] by (simp add: word_less_nat_alt)
  ultimately show "bytes_left s' < bytes_left s" by (simp add: word_less_nat_alt word_le_nat_alt)
qed

lemma eats_read: "n \<noteq> 0 \<Longrightarrow> eats (pb_read n)"
proof -
  assume n: "n \<noteq> 0"
  have "bytes_left s' = bytes_left s - n \<and> n \<le> bytes_left s" if "pb_read n s = (Some out, s')" for s :: "'a istream" and out s'
    using that n run_callback_left [of n s]
    by (auto simp: pb_read_def pb_read_direct_def istream_error_def not_less split: if_splits option.splits prod.splits)
  moreover have "b - n < b" if "n \<le> b" for b :: u64
  proof -
    have "0 < unat n" "unat n \<le> unat b" using n that by (simp_all add: unat_gt_0 word_le_nat_alt)
    then show ?thesis by (simp add: word_less_nat_alt word_le_nat_alt unat_sub_le)
  qed
  ultimately show ?thesis unfolding eats_def by metis
qed

lemma eats_fixed: "eats pb_decode_fixed32" "eats pb_decode_fixed64"
  unfolding pb_decode_fixed32_def pb_decode_fixed64_def
  by (rule eats_chk [OF eats_read calm_read calm_any]; simp)+

lemma eats_svarint: "eats pb_decode_svarint" and eats_bool: "eats pb_dec_bool"
  unfolding pb_decode_svarint_def pb_dec_bool_def
  by (rule eats_chk [OF eats_varint calm_varint calm_any],
      rule eats_chk [OF eats_varint32 calm_varint32 calm_any])

section \<open>Runs that stay inside\<close>

text \<open>
  On memory: a run returns, changes nothing outside of \<open>R\<close> and nothing that the allocator knows; its value
  satisfies \<open>P\<close>.
\<close>

definition inside :: "address set \<Rightarrow> ('h world, 'a) run \<Rightarrow> ('a \<Rightarrow> bool) \<Rightarrow> bool" where
  "inside R m P \<longleftrightarrow>
     (\<forall>w. \<exists>r w'. m w = Some (r, w') \<and> keeps R (ram w) (ram w') \<and> arena w' = arena w \<and> pred_option P r)"

text \<open>With a stream, which only shrinks.\<close>

definition stays :: "address set \<Rightarrow> ('s, 'h, 'a) decoding \<Rightarrow> ('a \<Rightarrow> bool) \<Rightarrow> bool" where
  "stays R m P \<longleftrightarrow>
     (\<forall>s w. sound_source (source s) \<longrightarrow>
        (\<exists>r s' w'. m (s, w) = Some (r, (s', w')) \<and> shrinks s s' \<and> keeps R (ram w) (ram w') \<and> arena w' = arena w \<and>
          pred_option P r))"

named_theorems staying

lemma insideE:
  assumes "inside R m P"
  obtains r w' where "m w = Some (r, w')" "keeps R (ram w) (ram w')" "arena w' = arena w" "pred_option P r"
  using assms unfolding inside_def by blast

lemma staysE:
  assumes "stays R m P" and "sound_source (source s)"
  obtains r s' w' where "m (s, w) = Some (r, (s', w'))" "shrinks s s'" "keeps R (ram w) (ram w')" "arena w' = arena w"
    "pred_option P r"
  using assms unfolding stays_def by blast

lemma inside_chk [staying]:
  assumes "inside R m P" and "\<And>a. P a \<Longrightarrow> inside R (f a) Q"
  shows "inside R (chk_run m f) Q"
  unfolding inside_def
proof
  fix w
  obtain r w1 where 1: "m w = Some (r, w1)" "keeps R (ram w) (ram w1)" "arena w1 = arena w" "pred_option P r"
    by (rule insideE [OF assms(1)])
  show "\<exists>r w'. chk_run m f w = Some (r, w') \<and> keeps R (ram w) (ram w') \<and> arena w' = arena w \<and> pred_option Q r"
  proof (cases r)
    case None
    with 1 show ?thesis by simp
  next
    case (Some a)
    obtain r' w2 where 2: "f a w1 = Some (r', w2)" "keeps R (ram w1) (ram w2)" "arena w2 = arena w1" "pred_option Q r'"
      by (rule insideE [OF assms(2)]) (use 1(4) Some in simp)
    with 1 Some show ?thesis by (auto intro: keeps_trans)
  qed
qed

lemma stays_chk [staying]:
  assumes "stays R m P" and "\<And>a. P a \<Longrightarrow> stays R (f a) Q"
  shows "stays R (chk_run m f) Q"
  unfolding stays_def
proof (intro allI impI)
  fix s :: "'a istream" and w :: "'b world"
  assume s: "sound_source (source s)"
  obtain r s1 w1 where 1: "m (s, w) = Some (r, (s1, w1))" "shrinks s s1" "keeps R (ram w) (ram w1)" "arena w1 = arena w"
    "pred_option P r" by (rule staysE [OF assms(1) s])
  show "\<exists>r s' w'. chk_run m f (s, w) = Some (r, (s', w')) \<and> shrinks s s' \<and> keeps R (ram w) (ram w') \<and> arena w' = arena w \<and>
    pred_option Q r"
  proof (cases r)
    case None
    with 1 show ?thesis by simp
  next
    case (Some a)
    have s1: "sound_source (source s1)" using 1(2) by (simp add: shrinks_def)
    obtain r' s2 w2 where 2: "f a (s1, w1) = Some (r', (s2, w2))" "shrinks s1 s2" "keeps R (ram w1) (ram w2)"
      "arena w2 = arena w1" "pred_option Q r'"
      by (rule staysE [OF assms(2) s1]) (use 1(5) Some in simp)
    with 1 Some show ?thesis by (auto intro: keeps_trans shrinks_trans)
  qed
qed

lemma inside_op [staying]: "P a \<Longrightarrow> inside R (run_op (succeed a)) P"
  by (auto simp: inside_def succeed_def)

lemma stays_op [staying]: "P a \<Longrightarrow> stays R (run_op (succeed a)) P"
  by (auto simp: stays_def succeed_def shrinks_def)

lemma inside_done: "inside R (run_op (succeed a)) (\<lambda>_. True)" and stays_done: "stays R' (run_op (succeed a)) (\<lambda>_. True)"
  by (simp_all add: inside_op stays_op)

lemma inside_store [staying]: "(\<And>m. keeps R m (f m)) \<Longrightarrow> inside R (store f) (\<lambda>_. True)"
  by (auto simp: inside_def store_def)

lemma inside_get: "inside R (get f) (\<lambda>a. \<exists>m. a = f m)"
  by (auto simp: inside_def get_def)

lemma stays_world [staying]: "inside R m P \<Longrightarrow> stays R (on_world m) P"
  unfolding stays_def
proof (intro allI impI)
  fix s :: "'c istream" and w :: "'a world"
  assume m: "inside R m P" and s: "sound_source (source s)"
  obtain r w' where "m w = Some (r, w')" "keeps R (ram w) (ram w')" "arena w' = arena w" "pred_option P r"
    by (rule insideE [OF m])
  with s show "\<exists>r s' w'. on_world m (s, w) = Some (r, s', w') \<and> shrinks s s' \<and> keeps R (ram w) (ram w') \<and>
      arena w' = arena w \<and> pred_option P r"
    by (simp add: on_world_def shrinks_def)
qed

lemma stays_stream [staying]: "calm m P \<Longrightarrow> stays R (on_stream m) P"
  unfolding stays_def on_stream_def by (auto simp: calm_def split: prod.splits)

lemma stays_get: "stays R (getting f) (\<lambda>a. \<exists>m. a = f m)"
  by (rule stays_world [OF inside_get])

lemma stays_error [staying]: "stays R (decode_error msg) P"
  by (rule stays_stream [OF calm_error])

lemma stays_if [staying]: "(c \<Longrightarrow> stays R m P) \<Longrightarrow> (\<not> c \<Longrightarrow> stays R m' P) \<Longrightarrow> stays R (if c then m else m') P"
  by simp

lemma inside_if [staying]: "(c \<Longrightarrow> inside R m P) \<Longrightarrow> (\<not> c \<Longrightarrow> inside R m' P) \<Longrightarrow> inside R (if c then m else m') P"
  by simp

lemma keeps_mono: "keeps R m m' \<Longrightarrow> R \<subseteq> R' \<Longrightarrow> keeps R' m m'"
  by (auto simp: keeps_def)

lemma pred_option_weaken: "pred_option P r \<Longrightarrow> (\<And>a. P a \<Longrightarrow> Q a) \<Longrightarrow> pred_option Q r"
  by (cases r) auto

lemma inside_weaken:
  assumes "inside R m P" and "R \<subseteq> R'" and "\<And>a. P a \<Longrightarrow> Q a"
  shows "inside R' m Q"
  unfolding inside_def
proof
  fix w
  obtain r w' where "m w = Some (r, w')" "keeps R (ram w) (ram w')" "arena w' = arena w" "pred_option P r"
    by (rule insideE [OF assms(1)])
  with keeps_mono [OF _ assms(2)] pred_option_weaken [of P r Q] assms(3)
  show "\<exists>r w'. m w = Some (r, w') \<and> keeps R' (ram w) (ram w') \<and> arena w' = arena w \<and> pred_option Q r" by blast
qed

text \<open>The rules for a run before another, by what is before.\<close>

lemmas stays_after_get = stays_chk [OF stays_get]

lemmas inside_after_get = inside_chk [OF inside_get]

lemma stays_then [staying]: "stays R m (\<lambda>_. True) \<Longrightarrow> (\<And>a. stays R (f a) Q) \<Longrightarrow> stays R (chk_run m f) Q"
  by (rule stays_chk)

lemma inside_then [staying]: "inside R m (\<lambda>_. True) \<Longrightarrow> (\<And>a. inside R (f a) Q) \<Longrightarrow> inside R (chk_run m f) Q"
  by (rule inside_chk)

lemma stays_read_to [staying]: "region dest (unat n) \<subseteq> R \<Longrightarrow> stays R (pb_read_to dest n) (\<lambda>_. True)"
  unfolding pb_read_to_def
proof (rule stays_chk [OF stays_stream [OF calm_read]])
  fix out :: bytes
  assume "region dest (unat n) \<subseteq> R" "length out \<le> unat n"
  then have "region dest (length out) \<subseteq> R" using region_mono by blast
  then show "stays R (setting (\<lambda>m. store_bytes m dest out)) (\<lambda>_. True)" by (intro staying keeps_store_bytes)
qed

lemma stays_closing [staying]:
  assumes "sound_source (source sub)" and "stays R body P"
  shows "stays R (closing sub body) P"
  unfolding stays_def
proof (intro allI impI)
  fix s :: "'a istream" and w :: "'b world"
  assume s: "sound_source (source s)"
  obtain r sub1 w1 where 1: "body (sub, w) = Some (r, (sub1, w1))" "shrinks sub sub1" "keeps R (ram w) (ram w1)"
    "arena w1 = arena w" "pred_option P r" by (rule staysE [OF assms(2,1)])
  obtain ok s1 sub2 where 2: "pb_close_string_substream s sub1 = (ok, s1, sub2)" by (metis prod_cases3)
  have "shrinks s s1" using close_substream_shrinks [OF s _ 2] 1(2) by (simp add: shrinks_def)
  with 1 2 show "\<exists>r s' w'. closing sub body (s, w) = Some (r, (s', w')) \<and> shrinks s s' \<and> keeps R (ram w) (ram w') \<and>
      arena w' = arena w \<and> pred_option P r"
    by (auto simp: closing_def)
qed

section \<open>Values\<close>

text \<open>There is room for the values that do not look at \<open>data_size\<close>.\<close>

definition value_room :: "(nat \<Rightarrow> nat) \<Rightarrow> pb_field \<Rightarrow> bool" where
  "value_room sz f \<longleftrightarrow>
     (let l = PB_LTYPE (f_type f); n = unat (f_data_size f) in
      valid_ltype l \<and>
      (l = PB_LTYPE_BOOL \<longrightarrow> 1 \<le> n) \<and> (l = PB_LTYPE_FIXED32 \<longrightarrow> 4 \<le> n) \<and> (l = PB_LTYPE_FIXED64 \<longrightarrow> 8 \<le> n) \<and>
      (case f_ptr f of
         Null \<Rightarrow> l \<noteq> PB_LTYPE_SUBMESSAGE
       | Default_value bs \<Rightarrow> l \<noteq> PB_LTYPE_SUBMESSAGE \<and> n \<le> length bs
       | Submessage t \<Rightarrow> l = PB_LTYPE_SUBMESSAGE \<and> sz t \<le> n))"

lemma stays_clamped:
  assumes "region dest (unat (f_data_size field)) \<subseteq> R"
  shows "stays R (store_clamped ext val field dest) (\<lambda>_. True)"
proof -
  have "f_data_size field = 8 \<Longrightarrow> region dest 8 \<subseteq> R" "f_data_size field = 4 \<Longrightarrow> region dest 4 \<subseteq> R"
    "f_data_size field = 2 \<Longrightarrow> region dest 2 \<subseteq> R" "f_data_size field = 1 \<Longrightarrow> region dest 1 \<subseteq> R"
    using assms by auto
  then show ?thesis
    unfolding store_clamped_def Let_def
    by (intro stays_if stays_then stays_error stays_op stays_world inside_store keeps_store TrueI)
qed

lemma stays_if_left [staying]: "stays R m P \<Longrightarrow> stays R (if_left n m) P"
  by (auto simp: stays_def if_left_def on_stream_def istream_error_def shrinks_def)

lemma stays_terminated [staying]:
  assumes "region dest (unat n + 1) \<subseteq> R"
  shows "stays R (read_terminated dest n) (\<lambda>_. True)"
  unfolding stays_def
proof (intro allI impI)
  fix s :: "'a istream" and w :: "'b world"
  assume s: "sound_source (source s)"
  have "region dest (unat n) \<subseteq> R" using region_mono [of "unat n" "unat n + 1" dest] assms by auto
  then obtain r s1 w1 where 1: "pb_read_to dest n (s, w) = Some (r, (s1, w1))" "shrinks s s1" "keeps R (ram w) (ram w1)"
    "arena w1 = arena w" by (rule staysE [OF stays_read_to s])
  have "region (dest + n) 1 \<subseteq> R" using region_sub [of n 1 "unat n + 1" dest] assms by simp
  then have "keeps R (ram w1) (store8 (dest + n) 0 (ram w1))" by (rule keeps_store)
  with 1 show "\<exists>r s' w'. read_terminated dest n (s, w) = Some (r, s', w') \<and> shrinks s s' \<and> keeps R (ram w) (ram w') \<and>
      arena w' = arena w \<and> pred_option (\<lambda>_. True) r"
    by (auto simp: read_terminated_def on_world_def store_def pred_option_def intro: keeps_trans)
qed

lemma stays_bytes:
  assumes static: "PB_ATYPE (f_type field) \<noteq> PB_ATYPE_POINTER" and R: "region dest (unat (f_data_size field)) \<subseteq> R"
  shows "stays R (pb_dec_bytes E field dest) (\<lambda>_. True)"
proof -
  have fits: "region dest 4 \<subseteq> R" "region (dest + 4) (unat (ucast sz :: size_t)) \<subseteq> R"
    if "\<not> PB_BYTES_ARRAY_T_ALLOCSIZE sz > ucast (f_data_size field)" for sz :: u32
  proof -
    have "unat sz < 2 ^ 32" using unsigned_less [of sz, where 'a = nat] by simp
    then have "unat sz + 4 \<le> unat (f_data_size field)"
      using that by (simp add: PB_BYTES_ARRAY_T_ALLOCSIZE_def not_less word_le_nat_alt unat_word_ariths unat_ucast_up)
    then have "region dest (4 + unat sz) \<subseteq> region dest (unat (f_data_size field))" by (intro region_mono) simp
    with R have s: "region dest (4 + unat sz) \<subseteq> R" by blast
    with region_mono [of 4 "4 + unat sz" dest] region_sub [of 4 "unat sz" "4 + unat sz" dest]
    show "region dest 4 \<subseteq> R" "region (dest + 4) (unat (ucast sz :: size_t)) \<subseteq> R" by (auto simp: unat_ucast_up)
  qed
  show ?thesis
    unfolding pb_dec_bytes_def Let_def if_not_P [OF static]
    by (intro stays_chk [OF stays_stream [OF calm_varint32]] stays_if stays_error
        stays_chk [where P = "\<lambda>b. b = dest \<and> \<not> PB_BYTES_ARRAY_T_ALLOCSIZE _ > ucast (f_data_size field)"] stays_op)
      (auto intro!: staying keeps_store fits)
qed

lemma stays_string:
  assumes static: "PB_ATYPE (f_type field) \<noteq> PB_ATYPE_POINTER" and R: "region dest (unat (f_data_size field)) \<subseteq> R"
  shows "stays R (pb_dec_string E field dest) (\<lambda>_. True)"
proof -
  have fits: "stays R (read_terminated dest (ucast sz)) (\<lambda>_. True)"
    if "\<not> (ucast (sz + 1) :: size_t) < ucast sz" "\<not> (ucast (sz + 1) :: size_t) > ucast (f_data_size field)" for sz :: u32
  proof -
    have "unat sz \<le> unat (sz + 1)" "unat (sz + 1) \<le> unat (f_data_size field)"
      using that by (simp_all add: not_less word_le_nat_alt unat_ucast_up)
    moreover have "unat (sz + 1) = (if unat sz + 1 = 2 ^ 32 then 0 else unat sz + 1)"
      using unsigned_less [of sz, where 'a = nat] by (auto simp: unat_word_ariths)
    ultimately have "unat sz + 1 \<le> unat (f_data_size field)" by (simp split: if_splits)
    then have "region dest (unat sz + 1) \<subseteq> region dest (unat (f_data_size field))" by (rule region_mono)
    with R show ?thesis by (intro stays_terminated) (simp add: unat_ucast_up)
  qed
  show ?thesis
    unfolding pb_dec_string_def Let_def if_not_P [OF static]
    by (intro stays_chk [OF stays_stream [OF calm_varint32]] stays_if stays_error
        stays_chk [where P = "\<lambda>b. b = dest \<and> \<not> ucast (_ + 1) > ucast (f_data_size field)"] stays_op)
      (auto intro!: fits)
qed

lemma stays_decoder:
  assumes room: "value_room sz field" and static: "PB_ATYPE (f_type field) \<noteq> PB_ATYPE_POINTER"
    and R: "region dest (unat (f_data_size field)) \<subseteq> R"
    and sub: "\<And>t. f_ptr field = Submessage t \<Longrightarrow> stays R (dec t dest) (\<lambda>_. True) \<and> stays R (noinit t dest) (\<lambda>_. True)"
  shows "stays R (PB_DECODERS E dec noinit (PB_LTYPE (f_type field)) field dest) (\<lambda>_. True)"
proof -
  have R': "region dest k \<subseteq> R" if "k \<le> unat (f_data_size field)" for k
    using region_mono [OF that] R by blast
  from room have "valid_ltype (PB_LTYPE (f_type field))" by (simp add: value_room_def Let_def)
  then show ?thesis
  proof (cases rule: ltypes_cases)
    case 1
    with room have "region dest 1 \<subseteq> R" by (intro R') (simp add: value_room_def Let_def)
    with 1 show ?thesis by (simp add: PB_DECODERS_def pb_dec_bool_to_def del: One_nat_def) (intro stays_chk [OF stays_stream [OF calm_bool]] staying keeps_store)
  next
    case 5
    with room have "region dest 4 \<subseteq> R" by (intro R') (simp add: value_room_def Let_def)
    with 5 show ?thesis
      by (simp add: PB_DECODERS_def pb_dec_fixed32_def ltypes) (intro stays_chk [OF stays_stream [OF calm_fixed(1)]] staying keeps_store)
  next
    case 6
    with room have "region dest 8 \<subseteq> R" by (intro R') (simp add: value_room_def Let_def)
    with 6 show ?thesis
      by (simp add: PB_DECODERS_def pb_dec_fixed64_def ltypes) (intro stays_chk [OF stays_stream [OF calm_fixed(2)]] staying keeps_store)
  next
    case 7
    with stays_bytes [OF static R] show ?thesis by (simp add: PB_DECODERS_def ltypes)
  next
    case 8
    with stays_string [OF static R] show ?thesis by (simp add: PB_DECODERS_def ltypes)
  next
    case 9
    with room obtain t where "f_ptr field = Submessage t" by (auto simp: value_room_def Let_def split: pb_ptr.splits)
    with 9 sub [OF this] show ?thesis
      by (simp add: PB_DECODERS_def pb_dec_submessage_def ltypes)
        (intro conjI impI stays_chk [OF stays_stream [OF calm_make_substream]] staying; simp)
  next
    case 10
    have "stays R (pb_read_to dest (ucast (f_data_size field))) (\<lambda>_. True)"
      by (intro stays_read_to) (simp add: R unat_ucast_up)
    with 10 R show ?thesis
      by (simp add: PB_DECODERS_def pb_dec_fixed_length_bytes_def ltypes)
        (intro stays_chk [OF stays_stream [OF calm_varint32]] stays_if stays_error stays_world inside_store keeps_store; simp)
  next
    case 2
    then show ?thesis
      by (simp add: PB_DECODERS_def pb_dec_varint_def ltypes)
        (intro stays_chk [OF stays_stream [OF calm_varint]] stays_clamped R)
  next
    case 3
    then show ?thesis
      by (simp add: PB_DECODERS_def pb_dec_uvarint_def ltypes)
        (intro stays_chk [OF stays_stream [OF calm_varint]] stays_clamped R)
  next
    case 4
    then show ?thesis
      by (simp add: PB_DECODERS_def pb_dec_svarint_def ltypes)
        (intro stays_chk [OF stays_stream [OF calm_svarint]] stays_clamped R)
  qed
qed

section \<open>Fields\<close>

text \<open>The field an iterator is at lies inside \<open>R\<close>, with its counter.\<close>

definition sits :: "address set \<Rightarrow> (nat \<Rightarrow> nat) \<Rightarrow> pb_field_iter \<Rightarrow> bool" where
  "sits R sz it \<longleftrightarrow>
     (let f = it_field it; h = PB_HTYPE (f_type f) in
      PB_ATYPE (f_type f) = PB_ATYPE_STATIC \<and> value_room sz f \<and>
      region (it_pData it) (unat (f_data_size f) * (if h = PB_HTYPE_REPEATED then unat (f_array_size f) else 1)) \<subseteq> R \<and>
      (h = PB_HTYPE_OPTIONAL \<and> it_pSize it \<noteq> it_pData it \<longrightarrow> region (it_pSize it) 1 \<subseteq> R) \<and>
      (h = PB_HTYPE_REPEATED \<or> h = PB_HTYPE_ONEOF \<longrightarrow> region (it_pSize it) 4 \<subseteq> R))"

lemma static_not_pointer: "PB_ATYPE x = PB_ATYPE_STATIC \<Longrightarrow> PB_ATYPE x \<noteq> PB_ATYPE_POINTER"
  by (simp add: atypes)

lemma sits_item:
  assumes "sits R sz it" and "PB_HTYPE (f_type (it_field it)) = PB_HTYPE_REPEATED" and "n < f_array_size (it_field it)"
  shows "region (pItem (it_field it) (it_pData it) n) (unat (f_data_size (it_field it))) \<subseteq> R"
proof -
  let ?f = "it_field it"
  have "unat (ucast (f_data_size ?f * n) :: size_t) \<le> unat (f_data_size ?f) * unat n"
    by (simp add: unat_ucast_up unat_word_ariths)
  then have "unat (ucast (f_data_size ?f * n) :: size_t) + unat (f_data_size ?f) \<le> unat (f_data_size ?f) * Suc (unat n)" by simp
  also have "\<dots> \<le> unat (f_data_size ?f) * unat (f_array_size ?f)"
    using assms(3) by (intro mult_le_mono2) (simp add: word_less_nat_alt Suc_le_eq)
  finally have "region (pItem ?f (it_pData it) n) (unat (f_data_size ?f)) \<subseteq>
      region (it_pData it) (unat (f_data_size ?f) * unat (f_array_size ?f))"
    unfolding pItem_def by (rule region_sub)
  with assms(1,2) show ?thesis by (auto simp: sits_def Let_def)
qed

text \<open>What is known of the decoders and defaults of the submessages.\<close>

definition sub_stays :: "address set \<Rightarrow> (nat \<Rightarrow> nat) \<Rightarrow> ('s, 'h) pb_surroundings \<Rightarrow> nat \<Rightarrow> ('s, 'h) message_decoder \<Rightarrow>
    ('s, 'h) message_decoder \<Rightarrow> nat \<Rightarrow> bool" where
  "sub_stays R sz E d dec noinit t \<longleftrightarrow>
     (\<forall>p. region p (sz t) \<subseteq> R \<longrightarrow>
        stays R (dec t p) (\<lambda>_. True) \<and> stays R (noinit t p) (\<lambda>_. True) \<and>
        inside R (pb_message_set_to_defaults E d t p) (\<lambda>_. True))"

abbreviation field_decoder :: "('s, 'h) pb_surroundings \<Rightarrow> ('s, 'h) message_decoder \<Rightarrow> ('s, 'h) message_decoder \<Rightarrow> pb_field_iter \<Rightarrow>
    ('s, 'h) decoder" where
  "field_decoder E dec noinit it \<equiv> PB_DECODERS E dec noinit (PB_LTYPE (f_type (it_field it)))"

lemma sitsD:
  assumes "sits R sz it"
  shows "PB_ATYPE (f_type (it_field it)) = PB_ATYPE_STATIC" "value_room sz (it_field it)"
    "PB_HTYPE (f_type (it_field it)) \<noteq> PB_HTYPE_REPEATED \<Longrightarrow> region (it_pData it) (unat (f_data_size (it_field it))) \<subseteq> R"
    "PB_HTYPE (f_type (it_field it)) = PB_HTYPE_OPTIONAL \<Longrightarrow> it_pSize it \<noteq> it_pData it \<Longrightarrow> region (it_pSize it) 1 \<subseteq> R"
    "PB_HTYPE (f_type (it_field it)) = PB_HTYPE_REPEATED \<Longrightarrow> region (it_pSize it) 4 \<subseteq> R"
    "PB_HTYPE (f_type (it_field it)) = PB_HTYPE_ONEOF \<Longrightarrow> region (it_pSize it) 4 \<subseteq> R"
  using assms by (auto simp: sits_def Let_def)

lemma value_room_sub: "value_room sz f \<Longrightarrow> f_ptr f = Submessage t \<Longrightarrow> sz t \<le> unat (f_data_size f)"
  by (simp add: value_room_def Let_def)

lemma room_not_extension: "value_room sz f \<Longrightarrow> PB_LTYPE (f_type f) \<noteq> PB_LTYPE_EXTENSION"
  by (auto simp: value_room_def Let_def valid_ltype_def ltypes)

lemma value_room_submessage:
  assumes "value_room sz f" and "PB_LTYPE (f_type f) = PB_LTYPE_SUBMESSAGE"
  obtains t where "f_ptr f = Submessage t"
  using assms by (cases "f_ptr f") (simp_all add: value_room_def Let_def)

lemma func_stays:
  assumes sits: "sits R sz it" and sub: "\<And>t. f_ptr (it_field it) = Submessage t \<Longrightarrow> sub_stays R sz E d dec noinit t"
    and p: "region p (unat (f_data_size (it_field it))) \<subseteq> R"
  shows "stays R (field_decoder E dec noinit it (it_field it) p) (\<lambda>_. True)"
proof (rule stays_decoder [OF sitsD(2) [OF sits] static_not_pointer [OF sitsD(1) [OF sits]] p])
  fix t assume t: "f_ptr (it_field it) = Submessage t"
  with p region_mono [OF value_room_sub [OF sitsD(2) [OF sits]]] have "region p (sz t) \<subseteq> R" by blast
  with sub [OF t] show "stays R (dec t p) (\<lambda>_. True) \<and> stays R (noinit t p) (\<lambda>_. True)" by (simp add: sub_stays_def)
qed

lemma defaults_stay:
  assumes sits: "sits R sz it" and sub: "\<And>t. f_ptr (it_field it) = Submessage t \<Longrightarrow> sub_stays R sz E d dec noinit t"
    and "PB_LTYPE (f_type (it_field it)) = PB_LTYPE_SUBMESSAGE" and "PB_HTYPE (f_type (it_field it)) \<noteq> PB_HTYPE_REPEATED"
  shows "inside R (submessage_defaults E d (it_field it) (it_pData it)) (\<lambda>_. True)"
proof -
  from assms(3) sitsD(2) [OF sits] obtain t where t: "f_ptr (it_field it) = Submessage t" "sz t \<le> unat (f_data_size (it_field it))"
    by (auto simp: value_room_def Let_def split: pb_ptr.splits)
  have "region (it_pData it) (sz t) \<subseteq> R" using region_mono [OF t(2)] sitsD(3) [OF sits assms(4)] by blast
  with sub [OF t(1)] t(1) show ?thesis by (simp add: submessage_defaults_def sub_stays_def)
qed

lemma packed_items_stay:
  fixes func :: "('s, 'h) decoder"
  assumes func: "\<And>n. n < f_array_size (it_field it) \<Longrightarrow> stays R (func (it_field it) (pItem (it_field it) (it_pData it) n)) (\<lambda>_. True)"
    and counter: "region (it_pSize it) 4 \<subseteq> R"
    and eats: "\<And>p s w u s' w'. sound_source (source s) \<Longrightarrow> func (it_field it) p (s, w) = Some (Some u, (s', w')) \<Longrightarrow>
      bytes_left s' < bytes_left s"
  shows "stays R (packed_items func it) (\<lambda>_. True)"
  unfolding stays_def
proof (intro allI impI)
  fix s :: "'s istream" and w :: "'h world"
  show "sound_source (source s) \<Longrightarrow> \<exists>r s' w'. packed_items func it (s, w) = Some (r, (s', w')) \<and> shrinks s s' \<and>
    keeps R (ram w) (ram w') \<and> arena w' = arena w \<and> pred_option (\<lambda>_. True) r"
  proof (induction "unat (bytes_left s)" arbitrary: s w rule: less_induct)
    case less
    let ?n = "load32 (ram w) (it_pSize it)"
    let ?step = "\<lambda>w. w\<lparr>ram := store32 (it_pSize it) (load32 (ram w) (it_pSize it) + 1) (ram w)\<rparr>"
    show ?case
    proof (cases "0 < bytes_left s \<and> ?n < f_array_size (it_field it)")
      case True
      obtain r s1 w1 where 1: "func (it_field it) (pItem (it_field it) (it_pData it) ?n) (s, w) = Some (r, (s1, w1))"
        "shrinks s s1" "keeps R (ram w) (ram w1)" "arena w1 = arena w"
        by (rule staysE [OF func less.prems]) (use True in auto)
      show ?thesis
      proof (cases r)
        case None
        with 1 True show ?thesis by (subst packed_items.simps) (auto simp: Let_def)
      next
        case (Some u)
        have s1: "sound_source (source s1)" using 1(2) by (simp add: shrinks_def)
        have "unat (bytes_left s1) < unat (bytes_left s)"
          using eats [OF less.prems 1(1) [unfolded Some]] by (simp add: word_less_nat_alt)
        from less.hyps [OF this s1, of "?step w1"] obtain r2 s2 w2 where 2: "packed_items func it (s1, ?step w1) = Some (r2, (s2, w2))"
          "shrinks s1 s2" "keeps R (ram (?step w1)) (ram w2)" "arena w2 = arena w1" by auto
        have "keeps R (ram w1) (ram (?step w1))" using counter by (auto intro: keeps_store)
        with 1 2 have "keeps R (ram w) (ram w2)" by (blast intro: keeps_trans)
        moreover have "packed_items func it (s, w) = Some (r2, (s2, w2))"
          using 1(1) 2(1) True Some by (subst packed_items.simps) (simp add: Let_def on_world_def store_def)
        ultimately show ?thesis using 1 2 by (auto simp: pred_option_def intro: shrinks_trans)
      qed
    next
      case False
      with less.prems show ?thesis by (subst packed_items.simps) (auto simp: Let_def shrinks_def)
    qed
  qed
qed

text \<open>The decoders of what can be packed read something.\<close>

lemma decoding_SomeE:
  assumes "chk_run m f s = Some (Some b, s')"
  obtains a s1 where "m s = Some (Some a, s1)" "f a s1 = Some (Some b, s')"
  using assms by (auto simp: chk_run_def split: option.splits prod.splits)

lemma on_world_stream: "on_world m sw = Some (r, sw') \<Longrightarrow> fst sw' = fst sw"
  by (auto simp: on_world_def split: option.splits)

lemma clamped_stream: "store_clamped ext v field p sw = Some (Some u, sw') \<Longrightarrow> fst sw' = fst sw"
  by (auto simp: store_clamped_def Let_def on_stream_def istream_error_def elim!: decoding_SomeE split: if_splits dest: on_world_stream)

lemma stream_then_eats:
  assumes "eats m" and "chk_run (on_stream m) f (s, w) = Some (Some u, sw')"
    and "\<And>a sw sw'. f a sw = Some (Some u, sw') \<Longrightarrow> fst sw' = fst sw" and "sound_source (source s)"
  shows "bytes_left (fst sw') < bytes_left s"
proof -
  obtain a s1 where 1: "m s = (Some a, s1)" "f a (s1, w) = Some (Some u, sw')"
    using assms(2) by (elim decoding_SomeE) (auto simp: on_stream_def split: prod.splits)
  with assms(1,4) assms(3) [OF 1(2)] show ?thesis unfolding eats_def by auto
qed

lemma packable_eats:
  assumes "valid_ltype l" and "l \<le> PB_LTYPE_LAST_PACKABLE" and "sound_source (source s)"
    and "PB_DECODERS E dec noinit l field p (s, w) = Some (Some u, (s', w'))"
  shows "bytes_left s' < bytes_left s"
proof -
  note eat = stream_then_eats [OF _ _ _ assms(3)]
  show ?thesis
    using assms(1)
  proof (cases rule: ltypes_cases)
    case 1
    then have "PB_DECODERS E dec noinit l field p = chk_run (on_stream pb_dec_bool)
        (\<lambda>v. setting (store8 p (if v then 1 else 0)))"
      by (simp add: PB_DECODERS_def ltypes pb_dec_bool_to_def fun_eq_iff)
    from eat [OF eats_bool assms(4) [unfolded this] on_world_stream] show ?thesis by simp
  next
    case 2
    then have "PB_DECODERS E dec noinit l field p = chk_run (on_stream pb_decode_varint)
        (\<lambda>val. store_clamped (\<lambda>n. signed_take_bit (n - 1)) (if f_data_size field = 8 then val else scast (ucast val :: u32)) field p)"
      by (simp add: PB_DECODERS_def ltypes pb_dec_varint_def fun_eq_iff)
    from eat [OF eats_varint assms(4) [unfolded this] clamped_stream] show ?thesis by simp
  next
    case 3
    then have "PB_DECODERS E dec noinit l field p = chk_run (on_stream pb_decode_varint)
        (\<lambda>val. store_clamped take_bit val field p)"
      by (simp add: PB_DECODERS_def ltypes pb_dec_uvarint_def fun_eq_iff)
    from eat [OF eats_varint assms(4) [unfolded this] clamped_stream] show ?thesis by simp
  next
    case 4
    then have "PB_DECODERS E dec noinit l field p = chk_run (on_stream pb_decode_svarint)
        (\<lambda>val. store_clamped (\<lambda>n. signed_take_bit (n - 1)) val field p)"
      by (simp add: PB_DECODERS_def ltypes pb_dec_svarint_def fun_eq_iff)
    from eat [OF eats_svarint assms(4) [unfolded this] clamped_stream] show ?thesis by simp
  next
    case 5
    then have "PB_DECODERS E dec noinit l field p = chk_run (on_stream pb_decode_fixed32)
        (\<lambda>v. setting (store32 p v))"
      by (simp add: PB_DECODERS_def ltypes pb_dec_fixed32_def fun_eq_iff)
    from eat [OF eats_fixed(1) assms(4) [unfolded this] on_world_stream] show ?thesis by simp
  next
    case 6
    then have "PB_DECODERS E dec noinit l field p = chk_run (on_stream pb_decode_fixed64)
        (\<lambda>v. setting (store64 p v))"
      by (simp add: PB_DECODERS_def ltypes pb_dec_fixed64_def fun_eq_iff)
    from eat [OF eats_fixed(2) assms(4) [unfolded this] on_world_stream] show ?thesis by simp
  qed (use assms(2) in \<open>simp_all add: ltypes\<close>)
qed

lemma stays_packed [staying]:
  assumes "stays R (packed_items func it) (\<lambda>_. True)"
  shows "stays R (decode_packed func it) (\<lambda>_. True)"
  unfolding decode_packed_def
proof (rule stays_chk [OF stays_stream [OF calm_make_substream]])
  fix sub :: "'a istream"
  assume sub: "sound_source (source sub)"
  show "stays R (\<lambda>(stream, w). case packed_items func it (sub, w) of None \<Rightarrow> None
      | Some (status, substream, w) \<Rightarrow>
          if bytes_left substream \<noteq> 0 then decode_error ''array overflow'' (stream, w)
          else closing substream (\<lambda>sw. Some (status, sw)) (stream, w)) (\<lambda>_. True)"
    unfolding stays_def
  proof (intro allI impI)
    fix s :: "'a istream" and w :: "'b world"
    assume s: "sound_source (source s)"
    obtain r sub1 w1 where 1: "packed_items func it (sub, w) = Some (r, (sub1, w1))" "shrinks sub sub1"
      "keeps R (ram w) (ram w1)" "arena w1 = arena w" by (rule staysE [OF assms sub])
    have "stays R (closing sub1 (\<lambda>sw. Some (r, sw))) (\<lambda>_. True)"
      using 1(2) by (intro stays_closing) (auto simp: shrinks_def stays_def pred_option_def)
    then have "stays R (if bytes_left sub1 \<noteq> 0 then decode_error ''array overflow''
        else closing sub1 (\<lambda>sw. Some (r, sw))) (\<lambda>_. True)" by (intro stays_if stays_error)
    then obtain r2 s2 w2 where "(if bytes_left sub1 \<noteq> 0 then decode_error ''array overflow'' else closing sub1 (\<lambda>sw. Some (r, sw)))
        (s, w1) = Some (r2, (s2, w2))" "shrinks s s2" "keeps R (ram w1) (ram w2)" "arena w2 = arena w1"
      by (rule staysE [OF _ s])
    with 1 show "\<exists>r s' w'. (case (s, w) of (stream, w) \<Rightarrow> case packed_items func it (sub, w) of None \<Rightarrow> None
        | Some (status, substream, w) \<Rightarrow>
            if bytes_left substream \<noteq> 0 then decode_error ''array overflow'' (stream, w)
            else closing substream (\<lambda>sw. Some (status, sw)) (stream, w)) = Some (r, s', w') \<and>
        shrinks s s' \<and> keeps R (ram w) (ram w') \<and> arena w' = arena w \<and> pred_option (\<lambda>_. True) r"
      by (auto simp: pred_option_def intro: keeps_trans)
  qed
qed

lemma stays_static_field:
  assumes sits: "sits R sz it" and sub: "\<And>t. f_ptr (it_field it) = Submessage t \<Longrightarrow> sub_stays R sz E d dec noinit t"
  shows "stays R (decode_static_field E d (field_decoder E dec noinit it) wire_type it) (\<lambda>_. True)"
proof -
  let ?f = "it_field it" and ?func = "field_decoder E dec noinit it"
  note func = func_stays [OF sits sub] and sd = sitsD [OF sits]
  have valid: "valid_ltype (PB_LTYPE (f_type ?f))" using sd(2) by (simp add: value_room_def Let_def)
  consider "PB_HTYPE (f_type ?f) = PB_HTYPE_REQUIRED" | "PB_HTYPE (f_type ?f) = PB_HTYPE_OPTIONAL"
    | "PB_HTYPE (f_type ?f) = PB_HTYPE_REPEATED" | "PB_HTYPE (f_type ?f) = PB_HTYPE_ONEOF"
    using htype_cases [of "f_type ?f"] by auto
  then show ?thesis
  proof cases
    case 1
    then show ?thesis using func [OF _ sd(3)] by (simp add: decode_static_field_def htypes Let_def)
  next
    case 2
    have n: "PB_HTYPE (f_type ?f) \<noteq> PB_HTYPE_REPEATED" using 2 by (simp add: htypes)
    have "stays R (chk_run (if it_pSize it \<noteq> it_pData it then setting (store8 (it_pSize it) 1) else run_op (succeed ()))
        (\<lambda>_. ?func ?f (it_pData it))) (\<lambda>_. True)"
      by (intro stays_then stays_if stays_world [OF inside_store] keeps_store sd(4) [OF 2] stays_op func sd(3) [OF n] TrueI)
    with 2 show ?thesis by (simp only: decode_static_field_def Let_def htypes) simp
  next
    case 3
    have item: "n < f_array_size ?f \<Longrightarrow> stays R (?func ?f (pItem ?f (it_pData it) n)) (\<lambda>_. True)" for n
      by (intro func sits_item [OF sits 3])
    show ?thesis
    proof (cases "wire_type = PB_WT_STRING \<and> PB_LTYPE (f_type ?f) \<le> PB_LTYPE_LAST_PACKABLE")
      case True
      have "stays R (packed_items ?func it) (\<lambda>_. True)"
        by (rule packed_items_stay) (use item sd(5) [OF 3] packable_eats [OF valid] True in blast)+
      with True 3 show ?thesis by (simp add: decode_static_field_def Let_def htypes stays_packed)
    next
      case False
      have "stays R (chk_run (getting (\<lambda>m. load32 m (it_pSize it))) (\<lambda>n.
             chk_run (setting (store32 (it_pSize it) (n + 1))) (\<lambda>_.
               if n \<ge> f_array_size ?f then decode_error ''array overflow''
               else ?func ?f (pItem ?f (it_pData it) n)))) (\<lambda>_. True)"
        by (intro stays_after_get stays_then stays_world [OF inside_store] keeps_store sd(5) [OF 3] stays_if stays_error item)
          (simp add: not_le)
      with False 3 show ?thesis by (auto simp: decode_static_field_def Let_def htypes)
    qed
  next
    case 4
    then have n: "PB_HTYPE (f_type ?f) \<noteq> PB_HTYPE_REPEATED" by (simp add: htypes)
    have "stays R (chk_run (getting (\<lambda>m. load32 m (it_pSize it))) (\<lambda>which.
          chk_run
            (if PB_LTYPE (f_type ?f) = PB_LTYPE_SUBMESSAGE \<and> which \<noteq> f_tag ?f then
               chk_run (setting (clear (it_pData it) (f_data_size ?f)))
                 (\<lambda>_. on_world (submessage_defaults E d ?f (it_pData it)))
             else run_op (succeed ()))
            (\<lambda>_. chk_run (setting (store32 (it_pSize it) (f_tag ?f))) (\<lambda>_. ?func ?f (it_pData it))))) (\<lambda>_. True)"
      by (intro stays_after_get stays_then stays_world [OF inside_store] keeps_store sd(6) [OF 4] sd(3) [OF n] stays_if
          stays_world [OF defaults_stay [OF sits sub _ n]] func stays_op TrueI) simp_all
    with 4 show ?thesis by (simp add: decode_static_field_def Let_def htypes)
  qed
qed

section \<open>Layouts\<close>

text \<open>
  \<open>sz\<close> is the size of the structure of every type, and \<open>rank\<close> bounds their nesting. All fields are static and lie
  in their structure, with what tells whether they are there. A repeated field without a counter of its own has room
  for one: \<open>pb_field_set_to_default\<close> clears one at the start of the array.
\<close>

definition field_lies :: "(nat \<Rightarrow> nat) \<Rightarrow> nat \<Rightarrow> pb_field \<Rightarrow> nat \<Rightarrow> nat \<Rightarrow> bool" where
  "field_lies sz n f data counter \<longleftrightarrow>
     (let h = PB_HTYPE (f_type f) in
      PB_ATYPE (f_type f) = PB_ATYPE_STATIC \<and> value_room sz f \<and>
      data + unat (f_data_size f) * (if h = PB_HTYPE_REPEATED then unat (f_array_size f) else 1) \<le> n \<and>
      (h = PB_HTYPE_OPTIONAL \<and> counter \<noteq> data \<longrightarrow> counter + 1 \<le> n) \<and>
      (h = PB_HTYPE_REPEATED \<or> h = PB_HTYPE_ONEOF \<longrightarrow> counter + 4 \<le> n))"

definition laid_out :: "(nat \<Rightarrow> pb_field list) \<Rightarrow> (nat \<Rightarrow> nat) \<Rightarrow> (nat \<Rightarrow> nat) \<Rightarrow> bool" where
  "laid_out tps sz rank \<longleftrightarrow>
     (\<forall>t. 0 < sz t \<and> (\<forall>f\<in>set (tps t). f_tag f \<noteq> 0 \<and> (\<forall>t'. f_ptr f = Submessage t' \<longrightarrow> rank t' < rank t)) \<and>
        (\<forall>i<length (tps t). let it = iter_at (tps t) 0 i in
           field_lies sz (sz t) (tps t ! i) (unat (it_pData it)) (unat (it_pSize it))))"

definition shifted :: "address \<Rightarrow> pb_field_iter \<Rightarrow> pb_field_iter" where
  "shifted a it = it\<lparr>dest_struct := a + dest_struct it, it_pData := a + it_pData it, it_pSize := a + it_pSize it\<rparr>"

lemma next_shifted: "snd (pb_field_iter_next (shifted a it)) = shifted a (snd (pb_field_iter_next it))"
  by (simp add: pb_field_iter_next_def pb_field_iter_begin_def shifted_def Let_def add.assoc)

lemma iter_at_shifted: "iter_at tbl a i = shifted a (iter_at tbl 0 i)"
  by (induction i) (simp_all add: next_shifted, simp add: pb_field_iter_begin_def shifted_def Let_def add.assoc)

lemma iter_at_addresses:
  "it_pData (iter_at tbl a i) = a + it_pData (iter_at tbl 0 i)" "it_pSize (iter_at tbl a i) = a + it_pSize (iter_at tbl 0 i)"
  by (simp_all add: iter_at_shifted [of tbl a] shifted_def)

lemma laid_outD:
  assumes "laid_out tps sz rank"
  shows "0 < sz t" "n_fields (tps t) = length (tps t)"
    "i < n_fields (tps t) \<Longrightarrow> field_lies sz (sz t) (descriptor (tps t) i)
      (unat (it_pData (iter_at (tps t) 0 i))) (unat (it_pSize (iter_at (tps t) 0 i)))"
    "i < n_fields (tps t) \<Longrightarrow> f_ptr (descriptor (tps t) i) = Submessage t' \<Longrightarrow> rank t' < rank t"
proof -
  from assms have t: "0 < sz t" "\<forall>f\<in>set (tps t). f_tag f \<noteq> 0 \<and> (\<forall>t'. f_ptr f = Submessage t' \<longrightarrow> rank t' < rank t)"
    "\<forall>i<length (tps t). field_lies sz (sz t) (tps t ! i)
      (unat (it_pData (iter_at (tps t) 0 i))) (unat (it_pSize (iter_at (tps t) 0 i)))"
    unfolding laid_out_def Let_def by blast+
  from t(2) show n: "n_fields (tps t) = length (tps t)" by (simp add: n_fields_def takeWhile_eq_all_conv [THEN iffD2])
  show "0 < sz t" by (rule t(1))
  show "i < n_fields (tps t) \<Longrightarrow> field_lies sz (sz t) (descriptor (tps t) i)
      (unat (it_pData (iter_at (tps t) 0 i))) (unat (it_pSize (iter_at (tps t) 0 i)))"
    using t(3) n by (simp add: descriptor_def)
  show "i < n_fields (tps t) \<Longrightarrow> f_ptr (descriptor (tps t) i) = Submessage t' \<Longrightarrow> rank t' < rank t"
    using t(2) n nth_mem [of i "tps t"] by (auto simp: descriptor_def)
qed

lemma laid_out_sits:
  assumes "laid_out tps sz rank" and i: "i < n_fields (tps t)" and R: "region dest (sz t) \<subseteq> R"
  shows "sits R sz (iter_at (tps t) dest i)"
    "PB_HTYPE (f_type (descriptor (tps t) i)) = PB_HTYPE_REPEATED \<Longrightarrow> region c 4 \<subseteq> R \<Longrightarrow>
      sits R sz ((iter_at (tps t) dest i)\<lparr>it_pSize := c\<rparr>)"
proof -
  let ?f = "descriptor (tps t) i" and ?it = "iter_at (tps t) dest i"
  let ?data = "it_pData (iter_at (tps t) 0 i)" and ?counter = "it_pSize (iter_at (tps t) 0 i)"
  note lies = laid_outD(3) [OF assms(1) i]
  have R': "region (dest + off) k \<subseteq> R" if "unat off + k \<le> sz t" for off k
    using region_sub [OF that] R by blast
  have f: "it_field ?it = ?f" by (rule iter_at_field [OF i])
  have neq: "dest + ?counter \<noteq> dest + ?data \<Longrightarrow> unat ?counter \<noteq> unat ?data" by (auto dest: unsigned_word_eqI)
  from lies R' neq show "sits R sz ?it"
    unfolding sits_def f field_lies_def Let_def iter_at_addresses [of _ dest] by blast
  from lies R' show "sits R sz (?it\<lparr>it_pSize := c\<rparr>)"
    if "PB_HTYPE (f_type ?f) = PB_HTYPE_REPEATED" "region c 4 \<subseteq> R"
    using that f unfolding sits_def field_lies_def Let_def by (simp add: iter_at_addresses [of _ dest] htypes)
qed

section \<open>Defaults and release\<close>

lemma inside_for_fields:
  assumes "\<And>i. i < n_fields tbl \<Longrightarrow> inside R (body (iter_at tbl a i)) (\<lambda>_. True)" and "j < n_fields tbl"
  shows "inside R (for_fields body (iter_at tbl a j)) (\<lambda>_. True)"
  using assms(2)
proof (induction rule: strict_inc_induct)
  case (base j)
  then have "\<not> Suc j < n_fields tbl" "j < n_fields tbl" by auto
  then show ?case
    using assms(1) [of j] by (subst for_fields_eq) (simp add: next_iter_at inside_then inside_op del: run_op_apply)
next
  case (step j)
  then show ?case
    using assms(1) [of j] by (subst for_fields_eq) (simp add: next_iter_at inside_then del: iter_at.simps)
qed

lemma inside_set_fields:
  assumes "\<And>i. i < n_fields (message_types E t) \<Longrightarrow> inside R (body (iter_at (message_types E t) a i)) (\<lambda>_. True)"
  shows "inside R (set_fields E body t a) (\<lambda>_. True)"
  using inside_for_fields [of "message_types E t" R body a 0, OF assms] inside_op [of "\<lambda>_. True" "()" R]
  by (cases "n_fields (message_types E t) = 0") (simp_all add: set_fields_def begin_iter_at del: iter_at.simps)

lemma inside_items:
  "(\<And>p. inside R (f p) (\<lambda>_. True)) \<Longrightarrow> inside R (for_items n k f p) (\<lambda>_. True)"
  by (induction n arbitrary: p) (auto intro!: inside_then inside_op)

lemma default_inside:
  assumes l: "laid_out (message_types E) sz rank"
  shows "rank t < d \<Longrightarrow> i < n_fields (message_types E t) \<Longrightarrow> region dest (sz t) \<subseteq> R \<Longrightarrow>
    inside R (pb_field_set_to_default E d (iter_at (message_types E t) dest i)) (\<lambda>_. True)"
proof (induction d arbitrary: t i dest)
  case (Suc d)
  let ?it = "iter_at (message_types E t) dest i"
  let ?f = "it_field ?it"
  have sits: "sits R sz ?it" by (rule laid_out_sits(1) [OF l Suc.prems(2,3)])
  note sd = sitsD [OF sits]
  have ext: "PB_LTYPE (f_type ?f) \<noteq> PB_LTYPE_EXTENSION"
    by (rule room_not_extension [OF sd(2)])
  have sub: "inside R (set_fields E (pb_field_set_to_default E d) t' (it_pData ?it)) (\<lambda>_. True)"
    if "f_ptr ?f = Submessage t'" "PB_HTYPE (f_type ?f) \<noteq> PB_HTYPE_REPEATED" for t'
  proof (rule inside_set_fields)
    fix j assume j: "j < n_fields (message_types E t')"
    have "rank t' < rank t" using laid_outD(4) [OF l Suc.prems(2)] that(1) by (simp only: iter_at_field [OF Suc.prems(2)])
    moreover have "region (it_pData ?it) (sz t') \<subseteq> R"
      using sd(3) [OF that(2)] region_mono [OF value_room_sub [OF sd(2) that(1)]] by blast
    ultimately show "inside R (pb_field_set_to_default E d (iter_at (message_types E t') (it_pData ?it) j)) (\<lambda>_. True)"
      using Suc.IH Suc.prems(1) j by simp
  qed
  have bytes: "inside R (store (\<lambda>m. store_bytes m (it_pData ?it) (take (unat (f_data_size ?f)) bs))) (\<lambda>_. True)"
    if "PB_HTYPE (f_type ?f) \<noteq> PB_HTYPE_REPEATED" for bs
  proof (intro inside_store keeps_store_bytes)
    have "region (it_pData ?it) (length (take (unat (f_data_size ?f)) bs)) \<subseteq> region (it_pData ?it) (unat (f_data_size ?f))"
      by (intro region_mono) simp
    with sd(3) [OF that] show "region (it_pData ?it) (length (take (unat (f_data_size ?f)) bs)) \<subseteq> R" by blast
  qed
  have clr: "inside R (store (clear (it_pData ?it) (f_data_size ?f))) (\<lambda>_. True)"
    if "PB_HTYPE (f_type ?f) \<noteq> PB_HTYPE_REPEATED"
    by (intro inside_store keeps_store sd(3) that)
  have val: "inside R
      (if PB_LTYPE (f_type ?f) = PB_LTYPE_SUBMESSAGE then
         (case f_ptr ?f of
            Submessage t \<Rightarrow> set_fields E (pb_field_set_to_default E d) t (it_pData ?it)
          | _ \<Rightarrow> stuck)
       else
         (case f_ptr ?f of
            Default_value bs \<Rightarrow>
              (if length bs < unat (f_data_size ?f) then stuck
               else store (\<lambda>m. store_bytes m (it_pData ?it) (take (unat (f_data_size ?f)) bs)))
          | Null \<Rightarrow> store (clear (it_pData ?it) (f_data_size ?f))
          | Submessage _ \<Rightarrow> stuck)) (\<lambda>_. True)"
    if "PB_HTYPE (f_type ?f) \<noteq> PB_HTYPE_REPEATED"
    using sd(2) sub [OF _ that] bytes [OF that] clr [OF that] by (auto simp: value_room_def Let_def split: pb_ptr.splits)
  have "inside R
      (chk_run
         (if PB_HTYPE (f_type ?f) = PB_HTYPE_OPTIONAL \<and> it_pSize ?it \<noteq> it_pData ?it then store (store8 (it_pSize ?it) 0)
          else if PB_HTYPE (f_type ?f) = PB_HTYPE_REPEATED \<or> PB_HTYPE (f_type ?f) = PB_HTYPE_ONEOF
          then store (store32 (it_pSize ?it) 0) else run_op (succeed ()))
         (\<lambda>_. if PB_HTYPE (f_type ?f) = PB_HTYPE_REPEATED \<or> PB_HTYPE (f_type ?f) = PB_HTYPE_ONEOF then run_op (succeed ())
            else if PB_LTYPE (f_type ?f) = PB_LTYPE_SUBMESSAGE then
              (case f_ptr ?f of
                 Submessage t \<Rightarrow> set_fields E (pb_field_set_to_default E d) t (it_pData ?it)
               | _ \<Rightarrow> stuck)
            else
              (case f_ptr ?f of
                 Default_value bs \<Rightarrow>
                   (if length bs < unat (f_data_size ?f) then stuck
                    else store (\<lambda>m. store_bytes m (it_pData ?it) (take (unat (f_data_size ?f)) bs)))
               | Null \<Rightarrow> store (clear (it_pData ?it) (f_data_size ?f))
               | Submessage _ \<Rightarrow> stuck))) (\<lambda>_. True)"
    by (rule inside_then, (intro inside_if inside_store keeps_store inside_op TrueI; (use sd(4,5,6) in blast)),
        rule inside_if, rule inside_done, rule val, blast)
  with ext sd(1) show ?case by (simp only: pb_field_set_to_default.simps Let_def simp_thms if_False if_True)
qed simp

lemma release_inside:
  assumes l: "laid_out (message_types E) sz rank"
  shows "rank t < d \<Longrightarrow> i < n_fields (message_types E t) \<Longrightarrow> it_field it = descriptor (message_types E t) i \<Longrightarrow>
    inside {} (pb_release_single_field E d it) (\<lambda>_. True)"
proof (induction d arbitrary: t i it)
  case (Suc d)
  let ?f = "descriptor (message_types E t) i"
  have lies: "PB_ATYPE (f_type ?f) = PB_ATYPE_STATIC" "value_room sz ?f"
    using laid_outD(3) [OF l Suc.prems(2)] by (simp_all add: field_lies_def Let_def)
  have ext: "PB_LTYPE (f_type ?f) \<noteq> PB_LTYPE_EXTENSION"
    by (rule room_not_extension [OF lies(2)])
  have sub: "inside {} (case f_ptr ?f of Submessage t \<Rightarrow> pb_release_with E (pb_release_single_field E d) t p
      | _ \<Rightarrow> if p = 0 then run_op (succeed ()) else stuck) (\<lambda>_. True)"
    if "PB_LTYPE (f_type ?f) = PB_LTYPE_SUBMESSAGE" for p
  proof -
    obtain t' where t': "f_ptr ?f = Submessage t'"
      using value_room_submessage [OF lies(2) \<open>PB_LTYPE (f_type ?f) = PB_LTYPE_SUBMESSAGE\<close>] by blast
    have "inside {} (set_fields E (pb_release_single_field E d) t' p) (\<lambda>_. True)"
    proof (rule inside_set_fields)
      fix j assume j: "j < n_fields (message_types E t')"
      show "inside {} (pb_release_single_field E d (iter_at (message_types E t') p j)) (\<lambda>_. True)"
        using Suc.IH [OF _ j iter_at_field [OF j]] laid_outD(4) [OF l Suc.prems(2) t'] Suc.prems(1) by simp
    qed
    then have "inside {} (pb_release_with E (pb_release_single_field E d) t' p) (\<lambda>_. True)"
      unfolding pb_release_with_def by (intro inside_if inside_op TrueI)
    with t' show ?thesis by simp
  qed
  have "inside {} (chk_run (get (\<lambda>m. PB_HTYPE (f_type ?f) = PB_HTYPE_ONEOF \<and> load32 m (it_pSize it) \<noteq> f_tag ?f)) (\<lambda>other.
      if other then run_op (succeed ())
      else chk_run (if PB_LTYPE (f_type ?f) = PB_LTYPE_SUBMESSAGE \<and> PB_ATYPE (f_type ?f) \<noteq> PB_ATYPE_CALLBACK then
              chk_run (get (\<lambda>m. (if PB_ATYPE (f_type ?f) = PB_ATYPE_POINTER then load64 m (it_pData it) else it_pData it,
                                 release_count it m))) (\<lambda>(pItem, count).
                if pItem = 0 then run_op (succeed ())
                else
                  for_items (unat count) (ucast (f_data_size ?f)) (\<lambda>pItem.
                    case f_ptr ?f of
                      Submessage t \<Rightarrow> pb_release_with E (pb_release_single_field E d) t pItem
                    | _ \<Rightarrow> if pItem = 0 then run_op (succeed ()) else stuck) pItem)
            else run_op (succeed ()))
           (\<lambda>_. run_op (succeed ())))) (\<lambda>_. True)"
    by (intro inside_after_get inside_if inside_op inside_then TrueI)
      (auto intro!: inside_if inside_op inside_items sub)
  with ext static_not_pointer [OF lies(1)] Suc.prems(3) show ?case
    by (simp only: pb_release_single_field.simps Let_def simp_thms if_False)
qed simp

section \<open>Where the iterator of the decoder can be\<close>

text \<open>At a field of the message, or at a repeated one with its counter at \<open>c\<close>; at the start when there is none.\<close>

definition placed :: "address \<Rightarrow> pb_field list \<Rightarrow> address \<Rightarrow> pb_field_iter \<Rightarrow> bool" where
  "placed c tbl dest it \<longleftrightarrow>
     (\<exists>i. (i < n_fields tbl \<or> i = 0 \<and> tbl = []) \<and>
        (it = iter_at tbl dest i \<or>
         PB_HTYPE (f_type (descriptor tbl i)) = PB_HTYPE_REPEATED \<and> it = (iter_at tbl dest i)\<lparr>it_pSize := c\<rparr>))"

lemma last_field_types:
  "PB_HTYPE (f_type PB_LAST_FIELD) = PB_HTYPE_REQUIRED" "PB_ATYPE (f_type PB_LAST_FIELD) = PB_ATYPE_STATIC"
  "PB_LTYPE (f_type PB_LAST_FIELD) = PB_LTYPE_BOOL"
  by (simp_all add: PB_LAST_FIELD_def type_masks htypes atypes ltypes)

lemma placed_iter_at: "i < n_fields tbl \<or> i = 0 \<and> tbl = [] \<Longrightarrow> placed c tbl dest (iter_at tbl dest i)"
  by (auto simp: placed_def)

lemma placed_empty: "placed c [] dest it \<Longrightarrow> it = iter_at [] dest 0"
  by (auto simp: placed_def n_fields_def descriptor_def last_field_types htypes)

lemma next_recounts:
  "PB_HTYPE (f_type (it_field it)) = PB_HTYPE_REPEATED \<Longrightarrow> f_tag (it_field it) \<noteq> 0 \<Longrightarrow>
   snd (pb_field_iter_next (it\<lparr>it_pSize := c\<rparr>)) = snd (pb_field_iter_next it)"
  by (simp add: pb_field_iter_next_def Let_def htypes)

lemma search_result_placed:
  assumes "i < n_fields tbl" and "search_result P tbl dest i ([i..<n_fields tbl] @ [0..<i]) = (b, it')"
  shows "placed c tbl dest it' \<and> (b \<longrightarrow> P (it_field it'))"
proof (cases "find (\<lambda>j. P (descriptor tbl j)) ([i..<n_fields tbl] @ [0..<i])")
  case None
  with assms show ?thesis by (auto simp: search_result_def intro: placed_iter_at)
next
  case (Some j)
  then have "j < n_fields tbl" "P (descriptor tbl j)" using assms(1) by (auto simp: find_Some_iff2 find_Some_iff nth_append)
  with Some assms(2) show ?thesis by (auto simp: search_result_def iter_at_field intro: placed_iter_at)
qed

lemma search_placed:
  assumes "placed c tbl dest it"
  shows "\<exists>b it'. search P (it_pos it) it = Some (b, it') \<and> placed c tbl dest it' \<and> (b \<longrightarrow> P (it_field it'))"
proof (cases "tbl = []")
  case True
  with assms have it: "it = iter_at [] dest 0" using placed_empty by blast
  have "n_fields [] = 0" by (simp add: n_fields_def)
  with search_empty [of "[]" P dest] it True placed_iter_at [of 0 "[]" c dest] show ?thesis
    by (simp add: begin_props)
next
  case False
  then obtain i where i: "i < n_fields tbl" and it: "it = iter_at tbl dest i \<or>
      PB_HTYPE (f_type (descriptor tbl i)) = PB_HTYPE_REPEATED \<and> it = (iter_at tbl dest i)\<lparr>it_pSize := c\<rparr>"
    using assms by (auto simp: placed_def)
  let ?it = "iter_at tbl dest i"
  obtain b it' where r: "search_result P tbl dest i ([i..<n_fields tbl] @ [0..<i]) = (b, it')" by fastforce
  have s: "search P i ?it = Some (b, it')" using search_behind [OF order_refl i, of P dest] r by simp
  note f = iter_at_field [OF i] and p = iter_at_props [of i tbl dest]
  show ?thesis
  proof (cases "it = ?it")
    case True
    then show ?thesis using s p i search_result_placed [OF i r] by auto
  next
    case False
    with it have c: "PB_HTYPE (f_type (descriptor tbl i)) = PB_HTYPE_REPEATED" "it = ?it\<lparr>it_pSize := c\<rparr>" by auto
    have nx: "snd (pb_field_iter_next it) = snd (pb_field_iter_next ?it)"
      unfolding c(2) by (rule next_recounts) (simp_all add: f c(1) n_fields_tag [OF i])
    show ?thesis
    proof (cases "P (descriptor tbl i)")
      case True
      then have "search P (it_pos it) it = Some (True, it)" using c(2) f by (subst search.simps) simp
      then show ?thesis using assms True c(2) f by auto
    next
      case no: False
      have "search P i it = search P i ?it"
        using no f p i c(2) by (subst (1 2) search.simps) (simp add: nx [unfolded c(2)])
      then show ?thesis using s p i c(2) search_result_placed [OF i r] by auto
    qed
  qed
qed

lemma find_placed:
  assumes "placed c tbl dest it"
  obtains b it' where "pb_field_iter_find it tag = Some (b, it')" "placed c tbl dest it'"
  using search_placed [OF assms] unfolding pb_field_iter_find_def by blast

lemma extension_placed:
  assumes "placed c tbl dest it" and "\<And>i. i < n_fields tbl \<Longrightarrow> PB_LTYPE (f_type (descriptor tbl i)) \<noteq> PB_LTYPE_EXTENSION"
  obtains it' where "find_extension_field it = Some (False, it')" "placed c tbl dest it'"
proof -
  obtain b it' where s: "find_extension_field it = Some (b, it')" "placed c tbl dest it'"
    "b \<longrightarrow> PB_LTYPE (f_type (it_field it')) = PB_LTYPE_EXTENSION"
    using search_placed [OF assms(1)] unfolding find_extension_field_def by blast
  have "PB_LTYPE (f_type (it_field it')) \<noteq> PB_LTYPE_EXTENSION"
  proof (cases "tbl = []")
    case True
    with s(2) have "it' = iter_at [] dest 0" using placed_empty by blast
    then have "it_field it' = PB_LAST_FIELD" by (simp add: begin_props descriptor_def)
    then show ?thesis by (simp add: last_field_types ltypes)
  next
    case False
    with s(2) show ?thesis using assms(2) by (auto simp: placed_def iter_at_field)
  qed
  with s(3) have "b = False" by auto
  with s(1,2) that show ?thesis by simp
qed

lemma placed_cases:
  assumes "placed c tbl dest it"
  obtains "tbl = []" "it = iter_at [] dest 0"
    | i where "i < n_fields tbl" "it_field it = descriptor tbl i" "it = iter_at tbl dest i"
    | i where "i < n_fields tbl" "it_field it = descriptor tbl i" "PB_HTYPE (f_type (descriptor tbl i)) = PB_HTYPE_REPEATED"
        "it = (iter_at tbl dest i)\<lparr>it_pSize := c\<rparr>"
proof (cases "tbl = []")
  case True
  with assms that(1) show ?thesis using placed_empty by blast
next
  case False
  with assms that(2,3) show ?thesis by (auto simp: placed_def iter_at_field)
qed

section \<open>Whole messages\<close>

definition counters :: "('s, 'h) pb_surroundings \<Rightarrow> address set" where
  "counters E = (\<Union>d. region (fixed_count_at E d) 4)"

lemma counter_in: "region (fixed_count_at E d) 4 \<subseteq> counters E"
  by (auto simp: counters_def)

text \<open>What all steps of the decoder of a message of type \<open>t\<close> at \<open>dest\<close> know.\<close>

definition decoding_inside :: "('s, 'h) pb_surroundings \<Rightarrow> nat \<Rightarrow> (nat \<Rightarrow> nat) \<Rightarrow> (nat \<Rightarrow> nat) \<Rightarrow> address set \<Rightarrow>
    ('s, 'h) message_decoder \<Rightarrow> ('s, 'h) message_decoder \<Rightarrow> nat \<Rightarrow> address \<Rightarrow> bool" where
  "decoding_inside E d sz rank R dec noinit t dest \<longleftrightarrow>
     laid_out (message_types E) sz rank \<and> rank t < d \<and> region dest (sz t) \<subseteq> R \<and> counters E \<subseteq> R \<and>
     (\<forall>t'. rank t' < rank t \<longrightarrow> sub_stays R sz E d dec noinit t')"

lemma stays_weaken:
  assumes "stays R m P" and "R \<subseteq> R'" and "\<And>a. P a \<Longrightarrow> Q a"
  shows "stays R' m Q"
  unfolding stays_def
proof (intro allI impI)
  fix s :: "'a istream" and w :: "'b world"
  assume s: "sound_source (source s)"
  obtain r s' w' where "m (s, w) = Some (r, (s', w'))" "shrinks s s'" "keeps R (ram w) (ram w')" "arena w' = arena w"
    "pred_option P r" by (rule staysE [OF assms(1) s])
  with keeps_mono [OF _ assms(2)] pred_option_weaken [of P r Q] assms(3)
  show "\<exists>r s' w'. m (s, w) = Some (r, (s', w')) \<and> shrinks s s' \<and> keeps R' (ram w) (ram w') \<and> arena w' = arena w \<and>
    pred_option Q r" by blast
qed

lemma placed_sits:
  assumes "decoding_inside E d sz rank R dec noinit t dest" and "region c 4 \<subseteq> R"
    and "placed c (message_types E t) dest it" and "message_types E t \<noteq> []"
  shows "sits R sz it"
proof -
  from assms(1) have l: "laid_out (message_types E) sz rank" and R: "region dest (sz t) \<subseteq> R" by (auto simp: decoding_inside_def)
  from assms(3) show ?thesis
    by (cases rule: placed_cases) (use assms(2,4) laid_out_sits [OF l _ R] in auto)
qed

lemma placed_sub:
  assumes "decoding_inside E d sz rank R dec noinit t dest" and "placed c (message_types E t) dest it"
    and "f_ptr (it_field it) = Submessage t'"
  shows "sub_stays R sz E d dec noinit t'"
proof -
  from assms(1) have l: "laid_out (message_types E) sz rank" by (simp add: decoding_inside_def)
  from assms(2) have "rank t' < rank t"
  proof (cases rule: placed_cases)
    case 1
    with assms(3) show ?thesis by (simp add: begin_props descriptor_def PB_LAST_FIELD_def)
  qed (use assms(3) laid_outD(4) [OF l] in auto)
  with assms(1) show ?thesis by (simp add: decoding_inside_def)
qed

lemma stays_union:
  assumes "decoding_inside E d sz rank R dec noinit t dest" and "placed c (message_types E t) dest it"
    and "message_types E t \<noteq> []" and "region c 4 \<subseteq> R"
  shows "stays R (pb_release_union_field E d it) (placed c (message_types E t) dest)"
proof -
  let ?tbl = "message_types E t"
  have l: "laid_out (message_types E) sz rank" and d: "rank t < d" using assms(1) by (simp_all add: decoding_inside_def)
  have rel: "inside R (pb_release_single_field E d it1) (\<lambda>_. True)" if "placed c ?tbl dest it1" for it1
    using that
  proof (cases rule: placed_cases)
    case 1
    with assms(3) show ?thesis by simp
  qed (use inside_weaken [OF release_inside [OF l d]] in auto)
  have static: "PB_ATYPE (f_type (it_field it1)) \<noteq> PB_ATYPE_POINTER" if "placed c ?tbl dest it1" for it1
    using sitsD(1) [OF placed_sits [OF assms(1,4) that assms(3)]] by (rule static_not_pointer)
  have again: "stays R (case pb_field_iter_find it1 new_tag of
      None \<Rightarrow> stuck
    | Some (False, _) \<Rightarrow> decode_error ''iterator error''
    | Some (True, it) \<Rightarrow>
        chk_run (if PB_ATYPE (f_type (it_field it)) = PB_ATYPE_POINTER then setting (store64 (it_pData it) 0)
                 else run_op (succeed ()))
          (\<lambda>_. run_op (succeed it))) (placed c ?tbl dest)" if it1: "placed c ?tbl dest it1" for it1 new_tag
  proof -
    obtain b it2 where "pb_field_iter_find it1 new_tag = Some (b, it2)" "placed c ?tbl dest it2"
      by (rule find_placed [OF it1])
    then show ?thesis
      by (cases b) (simp_all add: static stays_error stays_then stays_done stays_op)
  qed
  have "stays R (case pb_field_iter_find it old_tag of
      None \<Rightarrow> stuck
    | Some (False, _) \<Rightarrow> decode_error ''invalid union tag''
    | Some (True, it) \<Rightarrow>
        chk_run (on_world (pb_release_single_field E d it)) (\<lambda>_.
          case pb_field_iter_find it new_tag of
            None \<Rightarrow> stuck
          | Some (False, _) \<Rightarrow> decode_error ''iterator error''
          | Some (True, it) \<Rightarrow>
              chk_run (if PB_ATYPE (f_type (it_field it)) = PB_ATYPE_POINTER then setting (store64 (it_pData it) 0)
                       else run_op (succeed ()))
                (\<lambda>_. run_op (succeed it)))) (placed c ?tbl dest)" for old_tag new_tag
  proof -
    obtain b it1 where "pb_field_iter_find it old_tag = Some (b, it1)" "placed c ?tbl dest it1"
      by (rule find_placed [OF assms(2)])
    then show ?thesis
      using stays_then [OF stays_world [OF rel] again] by (cases b) (simp_all add: stays_error)
  qed
  then show ?thesis
    unfolding pb_release_union_field_def Let_def using assms(2) by (intro stays_after_get stays_if stays_op)
qed

lemma chk_run_succeed: "chk_run (run_op (succeed a)) f = f a"
  by (simp add: fun_eq_iff chk_run_def succeed_def)

lemma stays_decode_field:
  assumes i: "decoding_inside E d sz rank R dec noinit t dest" and it: "placed c (message_types E t) dest it"
    and c: "region c 4 \<subseteq> R"
  shows "stays R (decode_field E d dec noinit wire_type it) (placed c (message_types E t) dest)"
proof (cases "message_types E t = []")
  case True
  with it have e: "it = iter_at [] dest 0" using placed_empty by simp
  then have f: "it_field it = PB_LAST_FIELD" by (simp add: begin_props descriptor_def)
  have a: "it_pData it = dest" by (simp add: e pb_field_iter_begin_def Let_def descriptor_def PB_LAST_FIELD_def)
  have "0 < sz t" "region dest (sz t) \<subseteq> R" using i laid_outD(1) by (auto simp: decoding_inside_def)
  then have R: "region dest 1 \<subseteq> R" using region_mono [of 1 "sz t" dest] by auto
  have "stays R (chk_run (pb_dec_bool_to PB_LAST_FIELD dest) (\<lambda>_. run_op (succeed it))) (placed c (message_types E t) dest)"
    unfolding pb_dec_bool_to_def using it
    by (intro stays_then stays_chk [OF stays_stream [OF calm_bool]] stays_world [OF inside_store] keeps_store R stays_op)
  then show ?thesis
    by (simp add: decode_field_def chk_run_succeed f last_field_types decode_static_field_def PB_DECODERS_def Let_def a htypes)
next
  case False
  have after: "stays R (let type = f_type (it_field it1); func = PB_DECODERS E dec noinit (PB_LTYPE type) in
          chk_run
            (if PB_ATYPE type = PB_ATYPE_STATIC then decode_static_field E d func wire_type it1
             else if PB_ATYPE type = PB_ATYPE_POINTER then decode_pointer_field E d func wire_type it1
             else if PB_ATYPE type = PB_ATYPE_CALLBACK then decode_callback_field E wire_type it1
             else decode_error ''invalid field type'')
            (\<lambda>_. run_op (succeed it1))) (placed c (message_types E t) dest)"
    if it1: "placed c (message_types E t) dest it1" for it1
  proof -
    have sits: "sits R sz it1" by (rule placed_sits [OF i c it1 False])
    have "stays R (chk_run (decode_static_field E d (field_decoder E dec noinit it1) wire_type it1)
        (\<lambda>_. run_op (succeed it1))) (placed c (message_types E t) dest)"
      by (intro stays_then stays_static_field [OF sits placed_sub [OF i it1]] stays_op it1)
    with sitsD(1) [OF sits] show ?thesis by (simp add: Let_def)
  qed
  show ?thesis
    unfolding decode_field_def
    by (rule stays_chk [where P = "placed c (message_types E t) dest", OF _ after], intro stays_if stays_union [OF i it False c] stays_op it)
qed

lemma stays_unknown:
  assumes i: "decoding_inside E d sz rank R dec noinit t dest" and it: "placed c (message_types E t) dest it"
    and tag: "tag \<noteq> - 1"
  shows "stays R (decode_unknown E d dec noinit tag wire_type it start) (\<lambda>(it', _). placed c (message_types E t) dest it')"
proof -
  from i have l: "laid_out (message_types E) sz rank" by (simp add: decoding_inside_def)
  have not_ext: "PB_LTYPE (f_type (descriptor (message_types E t) j)) \<noteq> PB_LTYPE_EXTENSION" if "j < n_fields (message_types E t)" for j
    using laid_outD(3) [OF l that] by (intro room_not_extension [of sz]) (simp add: field_lies_def Let_def)
  obtain it' where f: "find_extension_field it = Some (False, it')" "placed c (message_types E t) dest it'"
    by (rule extension_placed [OF it not_ext])
  have nt: "\<not> - 1 \<le> tag" using tag order_antisym [OF word_order.extremum [of tag]] by blast
  have skip: "stays R (chk_run (on_stream (pb_skip_field wire_type)) (\<lambda>_. run_op (succeed (it1, n))))
      (\<lambda>(it', _). placed c (message_types E t) dest it')" if "placed c (message_types E t) dest it1" for it1 n
    using that by (intro stays_then stays_stream calm_skip_field stays_op) simp
  show ?thesis
  proof (cases "start \<le> tag")
    case True
    have "decode_unknown E d dec noinit tag wire_type it start =
        chk_run (on_stream (pb_skip_field wire_type)) (\<lambda>_. run_op (succeed (it', - 1)))"
      by (rule ext) (unfold decode_unknown_def Let_def if_P [OF True] f(1) option.case prod.case if_False if_not_P [OF nt], rule refl)
    then show ?thesis by (simp only: skip [OF f(2)])
  next
    case False
    have "decode_unknown E d dec noinit tag wire_type it start =
        chk_run (on_stream (pb_skip_field wire_type)) (\<lambda>_. run_op (succeed (it, start)))"
      by (rule ext) (unfold decode_unknown_def Let_def if_not_P [OF False], rule refl)
    then show ?thesis by (simp only: skip [OF it])
  qed
qed

lemma stays_enter:
  assumes "placed c tbl dest it" and "tbl \<noteq> []" and c: "region c 4 \<subseteq> R"
  shows "stays R (enter_fixed_count c it fixed) (\<lambda>(it', _). placed c tbl dest it')"
proof -
  have p: "placed c tbl dest (it\<lparr>it_pSize := c\<rparr>)" if "PB_HTYPE (f_type (it_field it)) = PB_HTYPE_REPEATED"
    using assms(1)
  proof (cases rule: placed_cases)
    case 1
    with assms(2) show ?thesis by simp
  next
    case (2 i)
    with that have "PB_HTYPE (f_type (descriptor tbl i)) = PB_HTYPE_REPEATED" by metis
    with 2(1) show ?thesis unfolding placed_def 2(3) by blast
  next
    case (3 i)
    then have "it\<lparr>it_pSize := c\<rparr> = it" by simp
    with assms(1) show ?thesis by simp
  qed
  have start: "stays R (if fixed \<noteq> Some (it_pos it) then
       chk_run (getting (\<lambda>m. load32 m c)) (\<lambda>n.
         if fixed_count_wrong it fixed n then decode_error msg else setting (store32 c 0))
     else run_op (succeed ())) (\<lambda>_. True)" for msg
    by (rule stays_if, rule stays_after_get, rule stays_if, rule stays_error, rule stays_world, rule inside_store, rule keeps_store, rule c, rule stays_done)
  have yes: "stays R (run_op (succeed (it\<lparr>it_pSize := c\<rparr>, Some (it_pos it)))) (\<lambda>(it', _). placed c tbl dest it')"
    if "PB_HTYPE (f_type (it_field it)) = PB_HTYPE_REPEATED"
    using p [OF that] by (intro stays_op) simp
  have no: "stays R (run_op (succeed (it, fixed))) (\<lambda>(it', _). placed c tbl dest it')"
    using assms(1) by (intro stays_op) simp
  show ?thesis
    unfolding enter_fixed_count_def by (rule stays_if, rule stays_then, rule start, rule yes, blast, rule no)
qed

lemma decode_tag_stream:
  assumes "sound_source (source s)" and "pb_decode_tag s = ((r, eof), s')"
  shows "shrinks s s'" "r = Some (wire_type, tag) \<Longrightarrow> unat (bytes_left s') < unat (bytes_left s) \<and> tag \<noteq> - 1"
proof -
  obtain rv e s1 where v: "pb_decode_varint32_eof s = ((rv, e), s1)" by (metis prod.collapse)
  have s': "s' = s1" and r: "r = Some (wire_type, tag) \<Longrightarrow> \<exists>temp. rv = Some temp \<and> tag = drop_bit 3 temp"
    using assms(2) v by (auto simp: pb_decode_tag_def split: option.splits if_splits)
  show "shrinks s s'" using shrinks_varint32_eof [OF assms(1) v] s' by simp
  assume "r = Some (wire_type, tag)"
  with r obtain temp where t: "rv = Some temp" "tag = drop_bit 3 temp" by blast
  have "\<not> bit tag 31" using bit_imp_le_length [of temp 34] by (auto simp: t(2) bit_simps)
  moreover have "bit (- 1 :: u32) 31" by simp
  ultimately have "tag \<noteq> - 1" by metis
  with varint32_eof_left [OF assms(1) v [unfolded t(1)]] s' show "unat (bytes_left s') < unat (bytes_left s) \<and> tag \<noteq> - 1"
    by (simp add: word_less_nat_alt)
qed

lemma stays_fields:
  assumes i: "decoding_inside E d sz rank R dec noinit t dest" and c: "region c 4 \<subseteq> R"
    and it: "placed c (message_types E t) dest it"
  shows "stays R (decode_fields E d dec noinit c it seen start fixed) (\<lambda>_. True)"
  unfolding stays_def
proof (intro allI impI)
  fix s :: "'a istream" and w :: "'b world"
  let ?goal = "\<lambda>it seen start fixed s w. \<exists>r s' w'. decode_fields E d dec noinit c it seen start fixed (s, w) = Some (r, (s', w')) \<and>
      shrinks s s' \<and> keeps R (ram w) (ram w') \<and> arena w' = arena w \<and> pred_option (\<lambda>_. True) r"
  show "sound_source (source s) \<Longrightarrow> ?goal it seen start fixed s w"
    using it
  proof (induction "unat (bytes_left s)" arbitrary: it seen start fixed s w rule: less_induct)
    case less
    note s = less.prems(1) and it = less.prems(2)
    show ?case
    proof (cases "bytes_left s = 0")
      case True
      with s show ?thesis by (subst decode_fields.simps) (simp add: shrinks_def pred_option_def)
    next
      case False
      obtain r eof s1 where tag: "pb_decode_tag s = ((r, eof), s1)" by (metis prod.collapse)
      note s1 = decode_tag_stream(1) [OF s tag]
      show ?thesis
      proof (cases r)
        case None
        with tag False s1 show ?thesis by (subst decode_fields.simps) (simp add: pred_option_def)
      next
        case (Some p)
        obtain wire_type field_tag where p: "p = (wire_type, field_tag)" by fastforce
        note lt = decode_tag_stream(2) [OF s tag Some [unfolded p]]
        obtain found it1 where find: "pb_field_iter_find it field_tag = Some (found, it1)" "placed c (message_types E t) dest it1"
          by (rule find_placed [OF it])
        have again: "?goal it2 seen2 start2 fixed2 s2 w2"
          if "shrinks s1 s2" "placed c (message_types E t) dest it2" for it2 seen2 start2 fixed2 s2 w2
          using less.hyps [of s2 it2] that lt by (auto simp: shrinks_def word_le_nat_alt)
        define step where "step = (if \<not> found then chk_run (decode_unknown E d dec noinit field_tag wire_type it1 start)
            (\<lambda>r sw. case r of (it, start) \<Rightarrow> decode_fields E d dec noinit c it seen start fixed sw)
          else chk_run (enter_fixed_count c it1 fixed) (\<lambda>r sw. case r of (it, fixed) \<Rightarrow>
            chk_run (decode_field E d dec noinit wire_type it)
              (\<lambda>it'. decode_fields E d dec noinit c it' (mark_seen it seen) start fixed) sw))"
        have e: "decode_fields E d dec noinit c it seen start fixed (s, w) = step (s1, w)"
          using False tag Some p find(1) by (subst decode_fields.simps) (simp add: step_def)
        have "\<exists>r s' w'. step (s1, w) = Some (r, (s', w')) \<and> shrinks s1 s' \<and> keeps R (ram w) (ram w') \<and> arena w' = arena w"
        proof (cases found)
          case no: False
          have "sound_source (source s1)" using s1 by (simp add: shrinks_def)
          then obtain r2 s2 w2 where 2: "decode_unknown E d dec noinit field_tag wire_type it1 start (s1, w) = Some (r2, (s2, w2))"
            "shrinks s1 s2" "keeps R (ram w) (ram w2)" "arena w2 = arena w"
            "pred_option (\<lambda>(it', _). placed c (message_types E t) dest it') r2"
            by (rule staysE [OF stays_unknown [OF i find(2) conjunct2 [OF lt]]])
          show ?thesis
          proof (cases r2)
            case None
            with no 2 show ?thesis by (simp add: step_def)
          next
            case (Some q)
            obtain it2 start2 where q: "q = (it2, start2)" by fastforce
            with Some 2(5) have "placed c (message_types E t) dest it2" by simp
            with again [OF 2(2) this, of seen start2 fixed w2] 2 no Some q show ?thesis
              by (auto simp: step_def intro: shrinks_trans keeps_trans)
          qed
        next
          case yes: True
          have s1': "sound_source (source s1)" using s1 by (simp add: shrinks_def)
          have enter: "stays R (enter_fixed_count c it1 fixed) (\<lambda>(it', _). placed c (message_types E t) dest it')"
          proof (cases "message_types E t = []")
            case True
            with find(2) have "it1 = iter_at [] dest 0" using placed_empty by simp
            then have "it_field it1 = PB_LAST_FIELD" by (simp add: begin_props descriptor_def)
            with find(2) show ?thesis
              by (simp add: enter_fixed_count_def last_field_types htypes) (intro stays_op, simp)
          qed (rule stays_enter [OF find(2) _ c])
          obtain r2 s2 w2 where 2: "enter_fixed_count c it1 fixed (s1, w) = Some (r2, (s2, w2))"
            "shrinks s1 s2" "keeps R (ram w) (ram w2)" "arena w2 = arena w"
            "pred_option (\<lambda>(it', _). placed c (message_types E t) dest it') r2"
            by (rule staysE [OF enter s1'])
          show ?thesis
          proof (cases r2)
            case None
            with yes 2 show ?thesis by (simp add: step_def)
          next
            case (Some q)
            obtain it2 fixed2 where q: "q = (it2, fixed2)" by fastforce
            with Some 2(5) have it2: "placed c (message_types E t) dest it2" by simp
            have "sound_source (source s2)" using 2(2) by (simp add: shrinks_def)
            then obtain r3 s3 w3 where 3: "decode_field E d dec noinit wire_type it2 (s2, w2) = Some (r3, (s3, w3))"
              "shrinks s2 s3" "keeps R (ram w2) (ram w3)" "arena w3 = arena w2"
              "pred_option (placed c (message_types E t) dest) r3"
              by (rule staysE [OF stays_decode_field [OF i it2 c]])
            show ?thesis
            proof (cases r3)
              case None
              with yes Some q 2 3 show ?thesis by (auto simp: step_def intro: shrinks_trans keeps_trans)
            next
              case it3: (Some it3)
              have "shrinks s1 s3" using 2(2) 3(2) by (rule shrinks_trans)
              moreover have "placed c (message_types E t) dest it3" using 3(5) it3 by simp
              ultimately obtain r4 s4 w4 where "decode_fields E d dec noinit c it3 (mark_seen it2 seen) start fixed2 (s3, w3) =
                  Some (r4, (s4, w4))" "shrinks s3 s4" "keeps R (ram w3) (ram w4)" "arena w4 = arena w3"
                using again by blast
              with yes Some q it3 2 3 \<open>shrinks s1 s3\<close> show ?thesis
                by (auto simp: step_def intro: shrinks_trans keeps_trans)
            qed
          qed
        qed
        with e s1 show ?thesis by (auto simp: pred_option_def intro: shrinks_trans)
      qed
    qed
  qed
qed

lemma stays_noinit_with:
  assumes i: "decoding_inside E d sz rank R dec noinit t dest"
  shows "stays R (noinit_with E d dec noinit t dest) (\<lambda>_. True)"
proof -
  let ?c = "fixed_count_at E d"
  have c: "region ?c 4 \<subseteq> R" using i counter_in [of E d] by (auto simp: decoding_inside_def)
  have l: "laid_out (message_types E) sz rank" using i by (simp add: decoding_inside_def)
  have "n_fields (message_types E t) = length (message_types E t)" by (rule laid_outD(2) [OF l])
  then have "placed ?c (message_types E t) dest (iter_at (message_types E t) dest 0)"
    by (intro placed_iter_at) (cases "message_types E t"; simp)
  then have "placed ?c (message_types E t) dest (snd (pb_field_iter_begin (message_types E t) dest))" by simp
  from stays_fields [OF i c this] have f: "stays R (decode_fields E d dec noinit ?c
      (snd (pb_field_iter_begin (message_types E t) dest)) [0, 0] 0 None) (\<lambda>_. True)" .
  show ?thesis
    unfolding noinit_with_def Let_def
    by (rule stays_then, rule stays_world, rule inside_store, rule keeps_store, rule c, rule stays_then, rule f,
        clarify, rule stays_after_get, intro stays_if stays_error stays_done)
qed

lemma stays_with:
  fixes noinit :: "('s, 'h) message_decoder"
  assumes defaults: "inside R (pb_message_set_to_defaults E d t dest) (\<lambda>_. True)"
    and noinit: "stays R (noinit t dest) (\<lambda>_. True)" and rel: "inside R (pb_release E d t dest) (\<lambda>_. True)"
  shows "stays R (decode_with E d noinit t dest) (\<lambda>_. True)"
proof -
  have "stays R (\<lambda>sw. case noinit t dest sw of
         Some (None, sw) \<Rightarrow> chk_run (on_world (pb_release E d t dest)) (\<lambda>_ sw. Some (None, sw)) sw
       | r \<Rightarrow> r) (\<lambda>_. True)"
    unfolding stays_def
  proof (intro allI impI)
    fix s :: "'s istream" and w :: "'h world"
    assume s: "sound_source (source s)"
    obtain r s1 w1 where 1: "noinit t dest (s, w) = Some (r, (s1, w1))" "shrinks s s1" "keeps R (ram w) (ram w1)"
      "arena w1 = arena w" by (rule staysE [OF noinit s])
    obtain r2 w2 where 2: "pb_release E d t dest w1 = Some (r2, w2)" "keeps R (ram w1) (ram w2)" "arena w2 = arena w1"
      by (rule insideE [OF rel])
    have "keeps R (ram w) (ram w2)" using 1(3) 2(2) by (rule keeps_trans)
    with 1 2 show "\<exists>r s' w'. (case noinit t dest (s, w) of
         Some (None, sw) \<Rightarrow> chk_run (on_world (pb_release E d t dest)) (\<lambda>_ sw. Some (None, sw)) sw
       | r \<Rightarrow> r) = Some (r, s', w') \<and> shrinks s s' \<and> keeps R (ram w) (ram w') \<and> arena w' = arena w \<and>
        pred_option (\<lambda>_. True) r"
      by (cases r; cases r2) (simp_all add: on_world_def pred_option_def)
  qed
  with defaults show ?thesis unfolding decode_with_def by (intro stays_then stays_world)
qed

lemma decoders_stay:
  assumes l: "laid_out (message_types E) sz rank" and c: "counters E \<subseteq> R"
  shows "region dest (sz t) \<subseteq> R \<Longrightarrow> rank t + 2 \<le> d \<Longrightarrow>
    stays R (pb_decode_noinit E d t dest) (\<lambda>_. True) \<and> stays R (decode_with E d (pb_decode_noinit E d) t dest) (\<lambda>_. True)"
proof (induction d arbitrary: t dest)
  case (Suc d)
  have def: "inside R (pb_message_set_to_defaults E k t' p) (\<lambda>_. True)" if "rank t' < k" "region p (sz t') \<subseteq> R" for k t' p
    unfolding pb_message_set_to_defaults_def by (intro inside_set_fields default_inside [OF l that(1) _ that(2)])
  have rel: "inside R (pb_release E k t' p) (\<lambda>_. True)" if "rank t' < k" for k t' p
  proof -
    have "inside {} (pb_release E k t' p) (\<lambda>_. True)"
      unfolding pb_release_def pb_release_with_def
      by (intro inside_if inside_done inside_set_fields release_inside [OF l that _ iter_at_field])
    then show ?thesis by (rule inside_weaken) simp_all
  qed
  have "sub_stays R sz E d (decode_with E d (pb_decode_noinit E d)) (pb_decode_noinit E d) t'" if "rank t' < rank t" for t'
    unfolding sub_stays_def using Suc.IH [of _ t'] Suc.prems(2) that def [of t' d] by auto
  with l c Suc.prems have "decoding_inside E d sz rank R (decode_with E d (pb_decode_noinit E d)) (pb_decode_noinit E d) t dest"
    by (simp add: decoding_inside_def)
  then have noinit: "stays R (pb_decode_noinit E (Suc d) t dest) (\<lambda>_. True)" by (simp add: stays_noinit_with)
  then show ?case using Suc.prems by (intro conjI stays_with def rel) simp_all
qed simp

section \<open>Properties\<close>

text \<open>
  C32: Whatever the input, \<open>pb_decode\<close> returns, and writes nowhere but in the structure it is given (and its own
  local variables), when all fields are static and lie in their structures, and the callback of the stream does not
  deliver more than it is asked for. A bound of two more than the rank is enough. Nothing is allocated, and the stream
  never gets longer.
\<close>

theorem decode_stays_inside:
  assumes "laid_out (message_types E) sz rank" and "rank t + 2 \<le> d" and "sound_source (source s)"
  shows "\<exists>r s' w'. pb_decode E d t dest (s, w) = Some (r, (s', w')) \<and> bytes_left s' \<le> bytes_left s \<and> arena w' = arena w \<and>
    (\<forall>x. x \<notin> region dest (sz t) \<union> counters E \<longrightarrow> ram w' x = ram w x)"
proof -
  have "stays (region dest (sz t) \<union> counters E) (pb_decode E d t dest) (\<lambda>_. True)"
    unfolding pb_decode_def using decoders_stay [OF assms(1) _ _ assms(2)] by blast
  then obtain r s' w' where "pb_decode E d t dest (s, w) = Some (r, (s', w'))" "shrinks s s'"
    "keeps (region dest (sz t) \<union> counters E) (ram w) (ram w')" "arena w' = arena w"
    by (rule staysE [OF _ assms(3)])
  then show ?thesis by (auto simp: shrinks_def keeps_def)
qed

text \<open>
  Types to decode: a required number and an optional submessage, with an array of up to six numbers of 16 bits; an
  array of two booleans without a counter; and a message without fields.
\<close>

definition decoded_types :: "nat \<Rightarrow> pb_field list" where
  "decoded_types t =
     (if t = 0 then
        [\<lparr>f_tag = 1, f_type = 0x02, f_data_offset = 0, f_size_offset = 0, f_data_size = 4, f_array_size = 0, f_ptr = Null\<rparr>,
         \<lparr>f_tag = 3, f_type = 0x18, f_data_offset = 4, f_size_offset = - 4, f_data_size = 16, f_array_size = 0,
          f_ptr = Submessage 1\<rparr>]
      else if t = 1 then
        [\<lparr>f_tag = 2, f_type = 0x21, f_data_offset = 4, f_size_offset = - 4, f_data_size = 2, f_array_size = 6, f_ptr = Null\<rparr>]
      else [])"

definition two_flags :: pb_field where
  "two_flags = \<lparr>f_tag = 1, f_type = 0x20, f_data_offset = 0, f_size_offset = 0, f_data_size = 1, f_array_size = 2,
     f_ptr = Null\<rparr>"

definition around :: "(nat \<Rightarrow> pb_field list) \<Rightarrow> ('s, unit) pb_surroundings" where
  "around tps = \<lparr>message_types = tps, pb_realloc = (\<lambda>_ _ w. (0, w)), pb_free = (\<lambda>_ w. w),
     decoding_callbacks = (\<lambda>_ _ _ s. (None, s)), decoding_type = (\<lambda>_. (0, PB_LAST_FIELD)),
     extension_decoders = (\<lambda>_ _ _ _ s. (None, s)), fixed_count_at = (\<lambda>d. 0x9000 + 16 * of_nat d)\<rparr>"

definition filled :: "u8 \<Rightarrow> unit world" where
  "filled b = \<lparr>ram = (\<lambda>_. b), arena = ()\<rparr>"

lemma decoded_types_laid_out:
  "laid_out (message_types (around decoded_types)) (\<lambda>t. if t = 0 then 24 else 16) (\<lambda>t. if t = 0 then 1 else 0)"
  by (auto simp: laid_out_def around_def decoded_types_def field_lies_def value_room_def valid_ltype_def type_masks ltypes
      htypes atypes less_Suc_eq pb_field_iter_begin_def pb_field_iter_next_def descriptor_def Let_def)

theorem decode_stays_inside_witness:
  "\<exists>r s' w'. pb_decode (around decoded_types) 3 0 0x1000
      (pb_istream_from_buffer [0x08, 5, 0x1A, 4, 0x12, 2, 3, 4] 8 :: unit istream, filled 0xAA) = Some (r, (s', w')) \<and>
    bytes_left s' \<le> 8 \<and> arena w' = () \<and>
    (\<forall>x. x \<notin> region 0x1000 24 \<union> counters (around decoded_types :: (unit, unit) pb_surroundings) \<longrightarrow> ram w' x = 0xAA)"
  using decode_stays_inside [OF decoded_types_laid_out, where t = 0 and d = 3 and dest = "0x1000" and w = "filled 0xAA"
      and s = "pb_istream_from_buffer [0x08, 5, 0x1A, 4, 0x12, 2, 3, 4] 8 :: unit istream"]
  by (simp add: pb_istream_from_buffer_def sound_source_def filled_def)

section \<open>Counters that are not there\<close>

lemma store32_zeros: "x \<in> region a 4 \<Longrightarrow> store32 a 0 m x = 0"
proof -
  assume x: "x \<in> region a 4"
  have "le_octets 4 (0 :: u32) = [0, 0, 0, 0]" by code_simp
  moreover have "[0, 0, 0, 0 :: u8] ! i = 0" if "i < 4" for i
    using that by (auto simp: less_Suc_eq numeral_eq_Suc)
  ultimately show ?thesis using x by (simp add: store32_def store_bytes_def region_def word_less_nat_alt)
qed

lemma store32_zeros_kept: "m x = 0 \<Longrightarrow> store32 a 0 m x = 0"
  using store32_zeros [of x a m] by (cases "x \<in> region a 4") (simp_all add: store32_def store_bytes_def region_def word_less_nat_alt
    length_le_octets)

text \<open>Types of static repeated fields only.\<close>

definition static_repeated :: "pb_field \<Rightarrow> bool" where
  "static_repeated f \<longleftrightarrow> PB_HTYPE (f_type f) = PB_HTYPE_REPEATED \<and> PB_ATYPE (f_type f) = PB_ATYPE_STATIC \<and>
     PB_LTYPE (f_type f) \<noteq> PB_LTYPE_EXTENSION \<and> f_tag f \<noteq> 0"

lemma repeated_fields:
  assumes "\<forall>f \<in> set tbl. static_repeated f"
  shows "n_fields tbl = length tbl" "i < length tbl \<Longrightarrow> static_repeated (descriptor tbl i)"
  using assms by (simp_all add: n_fields_def takeWhile_eq_all_conv [THEN iffD2] static_repeated_def descriptor_def)

lemma default_of_repeated:
  "static_repeated (it_field it) \<Longrightarrow> pb_field_set_to_default E (Suc d) it = store (store32 (it_pSize it) 0)"
  by (rule ext) (simp add: static_repeated_def Let_def chk_run_def store_def succeed_def htypes)

lemma defaults_of_repeated:
  assumes r: "\<forall>f \<in> set tbl. static_repeated f" and j: "j < length tbl"
  shows "\<exists>m. for_fields (pb_field_set_to_default E (Suc d)) (iter_at tbl a j) w = Some (Some (), w\<lparr>ram := m\<rparr>) \<and>
    (\<forall>x \<in> region (it_pSize (iter_at tbl a (length tbl - 1))) 4. m x = 0)"
  using j
proof (induction "length tbl - j" arbitrary: j w)
  case (Suc k)
  note n = repeated_fields(1) [OF r]
  have f: "it_field (iter_at tbl a j) = descriptor tbl j" using Suc.prems n iter_at_field by metis
  then have b: "pb_field_set_to_default E (Suc d) (iter_at tbl a j) = store (store32 (it_pSize (iter_at tbl a j)) 0)"
    using default_of_repeated repeated_fields(2) [OF r Suc.prems] by metis
  let ?w = "w\<lparr>ram := store32 (it_pSize (iter_at tbl a j)) 0 (ram w)\<rparr>"
  have e: "for_fields (pb_field_set_to_default E (Suc d)) (iter_at tbl a j) w =
      (if Suc j < length tbl then for_fields (pb_field_set_to_default E (Suc d)) (iter_at tbl a (Suc j)) ?w
       else Some (Some (), ?w))"
    using next_iter_at [of j tbl a] Suc.prems n
    by (subst for_fields_eq) (simp add: b chk_run_def store_def succeed_def del: iter_at.simps pb_field_set_to_default.simps)
  show ?case
  proof (cases "Suc j < length tbl")
    case True
    have "k = length tbl - Suc j" using Suc.hyps(2) by simp
    from Suc.hyps(1) [OF this True, of ?w] show ?thesis unfolding e using True by simp
  next
    case False
    then have "j = length tbl - 1" using Suc.prems by simp
    then show ?thesis unfolding e using False store32_zeros
      by (intro exI [of _ "ram ?w"]) (simp del: iter_at.simps)
  qed
qed simp

lemma required_index_0:
  "\<forall>f \<in> set tbl. static_repeated f \<Longrightarrow> i < length tbl \<Longrightarrow> required_field_index (iter_at tbl a i) = 0"
proof (induction i)
  case (Suc i)
  then have i: "i < n_fields tbl" using repeated_fields(1) by simp
  have "PB_HTYPE (f_type (descriptor tbl i)) = PB_HTYPE_REPEATED"
    using repeated_fields(2) [OF Suc.prems(1), of i] Suc.prems(2) by (simp add: static_repeated_def)
  then show ?case using Suc iter_at_field [OF i, of a]
    by (simp add: pb_field_iter_next_def pb_field_iter_begin_def Let_def htypes)
qed (simp add: pb_field_iter_begin_def Let_def)

lemma nothing_required:
  assumes "\<forall>f \<in> set tbl. static_repeated f" and "i < length tbl"
  shows "required_seen (iter_at tbl a i) seen"
  using assms(2)
proof (induction "length tbl - i" arbitrary: i)
  case (Suc k)
  note n = repeated_fields(1) [OF assms(1)]
  note x = next_iter_at [of i tbl a, unfolded n, OF Suc.prems]
  show ?case
  proof (cases "Suc i < length tbl")
    case True
    have "k = length tbl - Suc i" using Suc.hyps(2) by simp
    note IH = Suc.hyps(1) [OF this True]
    have "to_last (iter_at tbl a i) = to_last (iter_at tbl a (Suc i))"
      using x True by (subst to_last.simps) (simp del: iter_at.simps)
    with IH show ?thesis by (simp add: required_seen_def del: iter_at.simps)
  next
    case False
    have "PB_HTYPE (f_type (it_field (iter_at tbl a i))) = PB_HTYPE_REPEATED"
      using repeated_fields(2) [OF assms(1) Suc.prems] iter_at_field [of i tbl a] Suc.prems n by (simp add: static_repeated_def)
    moreover have "to_last (iter_at tbl a i) = (0, f_type (it_field (iter_at tbl a i)), iter_at tbl a 0)"
      using x False required_index_0 [OF assms(1) Suc.prems] by (subst to_last.simps) (simp del: iter_at.simps)
    ultimately show ?thesis by (simp add: required_seen_def htypes Let_def PB_MAX_REQUIRED_FIELDS_def del: iter_at.simps)
  qed
qed simp

lemma pSize_of_pData:
  assumes "\<forall>f \<in> set tbl. static_repeated f" and "i < length tbl"
  shows "it_pSize (iter_at tbl a i) = it_pData (iter_at tbl a i) + scast (f_size_offset (descriptor tbl i))"
proof (cases i)
  case (Suc j)
  then have j: "j < n_fields tbl" "j < length tbl" using assms repeated_fields(1) by simp_all
  have "static_repeated (descriptor tbl j)" "static_repeated (descriptor tbl (Suc j))"
    using repeated_fields(2) [OF assms(1)] j(2) assms(2) Suc by simp_all
  then show ?thesis using Suc iter_at_props [OF disjI1 [OF j(1)], of a]
    by (simp add: static_repeated_def pb_field_iter_next_def Let_def htypes)
qed (simp add: pb_field_iter_begin_def Let_def)

text \<open>
  C35: The default of a repeated field is written as a counter of four octets, also when the field has no counter: in a
  message type of static repeated fields the last of which is an array of less than four octets without a counter,
  \<open>pb_decode\<close> clears the octets behind that array, whatever is there. Here the stream is at its end, and the message is
  accepted.
\<close>

theorem fixed_count_overruns:
  assumes "\<forall>f \<in> set (message_types E t). static_repeated f" and "message_types E t \<noteq> []"
    and "it = iter_at (message_types E t) dest (length (message_types E t) - 1)" and "f_size_offset (it_field it) = 0"
    and "n = unat (f_data_size (it_field it) * f_array_size (it_field it))" and "n < 4" and "bytes_left s = 0"
  shows "\<exists>w'. pb_decode E (Suc d) t dest (s, w) = Some (Some (), (s, w')) \<and> arena w' = arena w \<and>
    (\<forall>x \<in> region (it_pData it) 4. ram w' x = 0) \<and> region (it_pData it) 4 - region (it_pData it) n \<noteq> {}"
proof -
  let ?tbl = "message_types E t"
  note n = repeated_fields(1) [OF assms(1)]
  have l: "length ?tbl - 1 < length ?tbl" "0 < length ?tbl" using assms(2) by simp_all
  have "length ?tbl - 1 < n_fields ?tbl" unfolding n by (rule l(1))
  then have "it_field it = descriptor ?tbl (length ?tbl - 1)" unfolding assms(3) by (rule iter_at_field)
  moreover have "it_pSize it = it_pData it + scast (f_size_offset (descriptor ?tbl (length ?tbl - 1)))"
    unfolding assms(3) by (rule pSize_of_pData [OF assms(1) l(1)])
  ultimately have p: "it_pSize it = it_pData it" using assms(4) by simp
  obtain m where m: "for_fields (pb_field_set_to_default E (Suc d)) (iter_at ?tbl dest 0) w = Some (Some (), w\<lparr>ram := m\<rparr>)"
    "\<forall>x \<in> region (it_pData it) 4. m x = 0"
    using defaults_of_repeated [OF assms(1) l(2), of E d dest w] unfolding assms(3) [symmetric] p by blast
  let ?m = "store32 (fixed_count_at E d) 0 m"
  have "f_tag (descriptor ?tbl 0) \<noteq> 0" using n_fields_tag [of 0 ?tbl] l(2) n by simp
  then have b: "pb_field_iter_begin ?tbl dest = (True, iter_at ?tbl dest 0)"
    by (simp add: pb_field_iter_begin_def Let_def)
  note seen = nothing_required [OF assms(1) l(2), of dest]
  have "pb_message_set_to_defaults E (Suc d) t dest w = Some (Some (), w\<lparr>ram := m\<rparr>)"
    unfolding pb_message_set_to_defaults_def set_fields_def b prod.case bool.case m(1) ..
  moreover have "pb_decode_noinit E (Suc d) t dest (s, w\<lparr>ram := m\<rparr>) = Some (Some (), (s, w\<lparr>ram := ?m\<rparr>))"
    using seen assms(7)
    by (simp add: b noinit_with_def Let_def chk_run_def on_world_def store_def get_def decode_fields.simps fixed_count_wrong_def
        succeed_def del: iter_at.simps pb_field_set_to_default.simps)
  ultimately have "pb_decode E (Suc d) t dest (s, w) = Some (Some (), (s, w\<lparr>ram := ?m\<rparr>))"
    by (simp add: pb_decode_def decode_with_def chk_run_def on_world_def del: pb_decode_noinit.simps)
  moreover have "?m x = 0" if "x \<in> region (it_pData it) 4" for x using m(2) that store32_zeros_kept by simp
  moreover have "it_pData it + 3 \<in> region (it_pData it) 4 - region (it_pData it) n"
    using assms(6) by (simp add: region_def)
  ultimately show ?thesis by (intro exI [of _ "w\<lparr>ram := ?m\<rparr>"]) auto
qed


text \<open>An array of two booleans at the end of its structure.\<close>

theorem fixed_count_overruns_witness:
  "\<exists>s w'. pb_decode (around (\<lambda>_. [two_flags])) 2 0 0x1000 (pb_istream_from_buffer [] 0 :: unit istream, filled 0xAA) =
      Some (Some (), (s, w')) \<and> ram w' 0x1002 = 0 \<and> ram w' 0x1003 = 0"
proof -
  let ?E = "around (\<lambda>_. [two_flags]) :: (unit, unit) pb_surroundings" and ?it = "iter_at [two_flags] 0x1000 0"
  let ?s = "pb_istream_from_buffer [] 0 :: unit istream"
  have tbl: "message_types ?E 0 = [two_flags]" by (simp add: around_def)
  have it: "it_field ?it = two_flags" "it_pData ?it = 0x1000"
    by (simp_all add: begin_props descriptor_def pb_field_iter_begin_def Let_def two_flags_def)
  have "\<exists>w'. pb_decode ?E (Suc 1) 0 0x1000 (?s, filled 0xAA) = Some (Some (), (?s, w')) \<and> arena w' = arena (filled 0xAA) \<and>
      (\<forall>x \<in> region (it_pData ?it) 4. ram w' x = 0) \<and> region (it_pData ?it) 4 - region (it_pData ?it) 2 \<noteq> {}"
  proof (rule fixed_count_overruns)
    show "\<forall>f \<in> set (message_types ?E 0). static_repeated f"
      unfolding tbl by (simp add: static_repeated_def two_flags_def type_masks htypes atypes ltypes)
    show "?it = iter_at (message_types ?E 0) 0x1000 (length (message_types ?E 0) - 1)" unfolding tbl by simp
    show "2 = unat (f_data_size (it_field ?it) * f_array_size (it_field ?it))" "f_size_offset (it_field ?it) = 0"
      unfolding it by (simp_all add: two_flags_def)
    show "message_types ?E 0 \<noteq> []" unfolding tbl by simp
  qed (simp_all add: pb_istream_from_buffer_def)
  then obtain w' where w': "pb_decode ?E (Suc 1) 0 0x1000 (?s, filled 0xAA) = Some (Some (), (?s, w'))"
    "\<forall>x \<in> region 0x1000 4. ram w' x = 0" unfolding it by blast
  then have "ram w' 0x1002 = 0" "ram w' 0x1003 = 0" by (simp_all add: region_def)
  with w'(1) show ?thesis unfolding Suc_1 by blast
qed

section \<open>A type without fields\<close>

lemma tag_zero_offers:
  fixes wire :: u32
  assumes "byte_source holds" and wire: "unat wire < 8" "wire \<noteq> 0"
    and s: "byte_source.offers holds s (varint (unat wire) @ ys) zs"
  shows "\<exists>s'. pb_decode_tag s = ((Some (wire, 0), False), s') \<and> byte_source.offers holds s' ys zs"
proof -
  have "unat wire < 2 ^ 32" using wire(1) by simp
  from byte_source.varint32_eof_offers [OF assms(1) this s] obtain s'
    where s': "pb_decode_varint32_eof s = ((Some wire, False), s')" "byte_source.offers holds s' ys zs" by auto
  have t: "tag_number wire 0 = unat wire" by (simp add: tag_number_def)
  have "wire AND 7 = wire" "drop_bit 3 wire = 0" using wire_tag_parts [of wire 0] wire(1) unfolding t by simp_all
  then show ?thesis using s' wire(2) by (simp add: pb_decode_tag_def)
qed

lemma find_in_empty: "pb_field_iter_find (iter_at [] dest 0) 0 = Some (True, iter_at [] dest 0)"
  by (subst pb_field_iter_find_def, subst search.simps)
    (simp add: begin_props descriptor_def PB_LAST_FIELD_def type_masks ltypes)

lemma decode_field_of_empty:
  "decode_field E d dec noinit wire (iter_at [] dest 0) =
     chk_run (pb_dec_bool_to PB_LAST_FIELD dest) (\<lambda>_. run_op (succeed (iter_at [] dest 0)))"
proof -
  have "decode_field E d dec noinit wire it = chk_run (pb_dec_bool_to PB_LAST_FIELD dest) (\<lambda>_. run_op (succeed it))"
    if f: "it_field it = PB_LAST_FIELD" and a: "it_pData it = dest" for it
    by (simp add: decode_field_def chk_run_succeed f last_field_types decode_static_field_def PB_DECODERS_def Let_def a htypes)
  then show ?thesis
    by (simp add: begin_props descriptor_def pb_field_iter_begin_def Let_def PB_LAST_FIELD_def)
qed

lemma decode_field_zero:
  assumes "v < 2 ^ 32" and "pb_decode_varint32 s = (Some (of_nat v), s')"
  shows "decode_field E d dec noinit wire (iter_at [] dest 0) (s, w) =
    Some (Some (iter_at [] dest 0), (s', w\<lparr>ram := store8 dest (if v = 0 then 0 else 1) (ram w)\<rparr>))"
proof -
  have "unat (of_nat v :: u32) = v" using assms(1) by (simp add: unat_of_nat)
  with unat_eq_zero [of "of_nat v :: u32"] have "(of_nat v :: u32) \<noteq> 0 \<longleftrightarrow> v \<noteq> 0" by (simp only: simp_thms)
  with assms(2) show ?thesis
    unfolding decode_field_of_empty
    by (cases "v = 0") (simp_all add: pb_dec_bool_to_def pb_dec_bool_def chk_run_def chk_def
        on_stream_def on_world_def store_def succeed_def del: iter_at.simps)
qed

lemma nothing_required_of_empty: "required_seen (iter_at [] dest 0) seen"
  by (simp add: required_seen_def to_last.simps pb_field_iter_next_def begin_props descriptor_def PB_LAST_FIELD_def
      pb_field_iter_begin_def Let_def PB_MAX_REQUIRED_FIELDS_def)

text \<open>
  C36: A message type without fields takes a field with the number 0, which is no field number, and whatever its wire
  type is: \<open>pb_decode\<close> reads it as a boolean and stores it where the message, which has no members, should be. It does so
  for all wire types but 0, those among them that \<open>pb_skip_field\<close> refuses.
\<close>

theorem empty_type_takes_zero:
  fixes wire :: u32
  assumes "byte_source holds" and "message_types E t = []" and "unat wire < 8" and "wire \<noteq> 0" and "v < 2 ^ 32"
    and "byte_source.offers holds s (varint (unat wire) @ varint v) zs"
  shows "\<exists>s' w'. pb_decode E (Suc d) t dest (s, w) = Some (Some (), (s', w')) \<and> byte_source.offers holds s' [] zs \<and>
    ram w' dest = (if v = 0 then 0 else 1) \<and>
    (\<forall>x. x \<noteq> dest \<and> x \<notin> region (fixed_count_at E d) 4 \<longrightarrow> ram w' x = ram w x)"
proof -
  note src = assms(1)
  define it where "it = iter_at [] dest 0"
  have b: "pb_field_iter_begin [] dest = (False, it)"
    by (simp add: it_def pb_field_iter_begin_def descriptor_def PB_LAST_FIELD_def Let_def)
  have no: "it_field it = PB_LAST_FIELD" by (simp add: it_def begin_props descriptor_def)
  note find = find_in_empty [of dest, folded it_def]
  obtain s1 where s1: "pb_decode_tag s = ((Some (wire, 0), False), s1)" "byte_source.offers holds s1 (varint v) zs"
    using tag_zero_offers [OF src assms(3,4,6)] by blast
  obtain s2 where s2: "pb_decode_varint32 s1 = (Some (of_nat v), s2)" "byte_source.offers holds s2 [] zs"
    using byte_source.readsD [OF src byte_source.reads_varint32 [OF src assms(5)], of s1 "[]" zs] s1(2) by auto
  have left: "bytes_left s2 = 0" "bytes_left s \<noteq> 0"
  proof -
    show "bytes_left s2 = 0" using byte_source.offers_length [OF src s2(2)] by (simp add: unat_eq_0)
    have "varint (unat wire) \<noteq> []" by (simp add: varint.simps [of "unat wire"])
    then show "bytes_left s \<noteq> 0" using byte_source.offers_length [OF src assms(6)] by auto
  qed
  define c where "c = fixed_count_at E d"
  define m0 where "m0 = store32 c 0 (ram w)"
  define m1 where "m1 = store8 dest (if v = 0 then 0 else 1) m0"
  have f: "decode_field E d dec noinit wire it (s1, w\<lparr>ram := m0\<rparr>) = Some (Some it, (s2, w\<lparr>ram := m1\<rparr>))" for dec noinit
    using decode_field_zero [OF assms(5) s2(1), of E d dec noinit wire dest "w\<lparr>ram := m0\<rparr>"] by (simp add: m1_def it_def)
  have e: "enter_fixed_count c it None (s1, w\<lparr>ram := m0\<rparr>) = Some (Some (it, None), (s1, w\<lparr>ram := m0\<rparr>))"
    by (simp add: enter_fixed_count_def no last_field_types htypes succeed_def)
  have fields: "decode_fields E d dec noinit c it [0, 0] 0 None (s, w\<lparr>ram := m0\<rparr>) =
      Some (Some (it, mark_seen it [0, 0], None), (s2, w\<lparr>ram := m1\<rparr>))" for dec noinit
  proof -
    have "decode_fields E d dec noinit c it (mark_seen it [0, 0]) 0 None (s2, w\<lparr>ram := m1\<rparr>) =
        Some (Some (it, mark_seen it [0, 0], None), (s2, w\<lparr>ram := m1\<rparr>))"
      using left(1) by (subst decode_fields.simps) simp
    then show ?thesis
      using left(2) s1(1) find f [of dec noinit] e
      by (subst decode_fields.simps) (simp add: chk_run_def succeed_def)
  qed
  have "pb_decode_noinit E (Suc d) t dest (s, w) = Some (Some (), (s2, w\<lparr>ram := m1\<rparr>))"
    using fields nothing_required_of_empty [of dest, folded it_def]
    by (simp add: assms(2) b noinit_with_def Let_def chk_run_def on_world_def store_def get_def fixed_count_wrong_def
        succeed_def flip: c_def m0_def)
  moreover have "pb_message_set_to_defaults E (Suc d) t dest w = Some (Some (), w)"
    by (simp add: pb_message_set_to_defaults_def set_fields_def assms(2) b succeed_def)
  ultimately have "pb_decode E (Suc d) t dest (s, w) = Some (Some (), (s2, w\<lparr>ram := m1\<rparr>))"
    by (simp add: pb_decode_def decode_with_def chk_run_def on_world_def del: pb_decode_noinit.simps)
  moreover have "m1 dest = (if v = 0 then 0 else 1)" by (simp add: m1_def store8_def store_bytes_def)
  moreover have "m1 x = ram w x" if "x \<noteq> dest" "x \<notin> region c 4" for x
    using that by (simp add: m1_def m0_def store8_def store32_def store_bytes_def region_def word_less_nat_alt length_le_octets
        unat_eq_0)
  ultimately show ?thesis using s2(2) unfolding c_def by (intro exI [of _ s2] exI [of _ "w\<lparr>ram := m1\<rparr>"]) simp
qed

theorem empty_type_takes_zero_witness:
  "\<exists>s' w'. pb_decode (around (\<lambda>_. [])) 2 0 0x1000 (pb_istream_from_buffer [0x02, 5] 2 :: unit istream, filled 0xAA) =
      Some (Some (), (s', w')) \<and> bytes_left s' = 0 \<and> ram w' 0x1000 = 1 \<and> ram w' 0x1001 = 0xAA"
proof -
  let ?E = "around (\<lambda>_. []) :: (unit, unit) pb_surroundings" and ?s = "pb_istream_from_buffer [0x02, 5] 2 :: unit istream"
  have src: "byte_source (\<lambda>c xs. c = Buffer xs)" by (rule buffer.byte_source_axioms)
  have tps: "message_types ?E 0 = []" by (simp add: around_def)
  have "varint (unat (2 :: u32)) @ varint 5 = [0x02, 5]" by (simp add: varint.simps)
  then have o: "byte_source.offers (\<lambda>c xs. c = Buffer xs) ?s (varint (unat (2 :: u32)) @ varint 5) []"
    by (simp add: buffer.offers_def pb_istream_from_buffer_def)
  obtain s' w' where r: "pb_decode ?E (Suc 1) 0 0x1000 (?s, filled 0xAA) = Some (Some (), (s', w'))"
    "buffer.offers s' [] []" "ram w' 0x1000 = 1"
    "\<forall>x. x \<noteq> 0x1000 \<and> x \<notin> region (fixed_count_at ?E 1) 4 \<longrightarrow> ram w' x = ram (filled 0xAA) x"
    using empty_type_takes_zero [OF src tps _ _ _ o, of 1 "0x1000" "filled 0xAA"] by auto
  have "bytes_left s' = 0" using buffer.offers_length [OF r(2)] by (simp add: unat_eq_0)
  moreover have "ram w' 0x1001 = 0xAA" using r(4) by (simp add: around_def region_def filled_def)
  ultimately show ?thesis using r(1,3) unfolding Suc_1 by blast
qed

end
