(* ===== verification/Spec2Isabelle.thy ===== *)
theory Spec2Isabelle
  imports Exchange Stack Lhash Buf Base64 Unicode Cbb_Set Pb_Safe
begin

text \<open>
  A verification development for the C code of this repository: the data-format layer of BoringSSL
  (\<open>src/BucketList/Pods/BoringSSL-GRPC/src/crypto\<close>, below \<open>crypto/\<close>) and nanopb, the protocol buffers runtime of
  Firebase (\<open>src/BucketList/Pods/nanopb\<close>). Everything the application receives from or sends to its servers goes
  through such code: certificates and keys as DER, events as protocol buffers.

  \<^bold>\<open>The program and its parts.\<close>

  \<^item> \<open>crypto/mem.c\<close> wraps the allocator and has the string helpers that the rest uses.
  \<^item> \<open>crypto/bytestring\<close> is the reader \<open>CBS\<close> (a pointer and a length) and the writer \<open>CBB\<close> (a buffer, with children
    whose length prefixes are filled in when they are flushed), with ASN.1 elements, integers and object identifiers,
    Unicode, the conversion of BER to DER and the sorting of SET OF on top.
  \<^item> \<open>crypto/stack\<close>, \<open>crypto/lhash\<close> and \<open>crypto/buf\<close> are the containers: arrays of pointers, chained hash tables and
    byte buffers.
  \<^item> \<open>crypto/base64\<close> encodes and decodes blocks and streams.
  \<^item> nanopb has streams with callbacks (\<open>pb_istream_t\<close>, \<open>pb_ostream_t\<close>), the wire format on top of them, and tables of
    field descriptors by which messages in memory are encoded and decoded.

  \<^bold>\<open>How the C is modelled.\<close> \<open>size_t\<close> is a 64-bit word, every other integer a word of its width, so all arithmetic
  wraps as in C; comparisons of \<open>int\<close> are signed where the code has them signed. A struct is a record, an operation a
  function that takes and returns its state; one that may fail returns \<open>None\<close> with the state it leaves behind
  (\<open>op\<close>, with the sequencing \<open>chk\<close>, in \<open>Prelude\<close>). Memory is not modelled below the level the code needs: a \<open>CBS\<close> is the
  bytes from its pointer on and a length, a \<open>CBB\<close> tree is the chain of its open children, and a stack or hash table
  holds abstract pointers, for which the callbacks are parameters. Only nanopb, which walks over structures by offsets,
  has a memory of bytes under 64-bit addresses. The allocator is a parameter, a function from the size asked for to whether
  it succeeds, or a state that says so; the theorems hold for every allocator unless they name one.

  \<^bold>\<open>Theories.\<close>

  \<^item> \<open>Prelude\<close>: machine types, failing operations, the allocator, lemmas on lists and words. \<open>Mem\<close>: \<open>crypto/mem.c\<close>.
  \<^item> \<open>Parsing\<close>: the abstract side of readers. The locale \<open>codec\<close> is a wire encoding with its parser; its laws are that
    the parser reads what was encoded and nothing else. \<open>nonempty_codec\<close> adds that encodings are not empty, so lists of
    them parse uniquely. A C reader \<open>refines\<close> a parser.
  \<^item> \<open>Cbs\<close>, \<open>Cbs_Asn1\<close>: all of \<open>cbs.c\<close>. \<open>Der\<close>, \<open>Der_Int\<close>: the DER encoding, with an interpretation of the locales for
    base-128 numbers, tags, lengths, elements, unsigned and signed integers and booleans, and the proofs that the
    readers refine them.
  \<^item> \<open>Cbb\<close>, \<open>Cbb_Asn1\<close>: \<open>cbb.c\<close>. \<open>Cbb_Spec\<close>: the view of a builder as the bytes a flush of it would give, and what each
    operation does to the view. \<open>Builder\<close>: client programs, nested to any depth, on buffers that can grow or are fixed.
    \<open>Oid\<close>: object identifiers from and to text. \<open>Exchange\<close>: writers and readers together.
  \<^item> \<open>Unicode\<close>: \<open>unicode.c\<close>. \<open>Ber\<close>: \<open>ber.c\<close>, on trees of BER values. \<open>Cbb_Set\<close>: \<open>CBB_flush_asn1_set_of\<close> and
    \<open>asn1_compat.c\<close>.
  \<^item> \<open>Stack\<close>: \<open>stack.c\<close>, refining lists, with the invariant that the sorted flag is true, also through sorting and copies. \<open>Lhash\<close>: \<open>lhash.c\<close>; the
    locales \<open>equality_contract\<close>, \<open>hash_contract\<close> and \<open>keyed_collection\<close> are what the callbacks promise and what the
    table provides, by a sublocale, with tables of strings as the interpretation. \<open>Buf\<close>: \<open>buf.c\<close>, refining byte strings.
  \<^item> \<open>Base64\<close>: \<open>base64.c\<close>, with the constant-time helpers of \<open>crypto/internal.h\<close>.
  \<^item> \<open>Pb_Stream\<close>: nanopb's streams, on memory blocks or callbacks. The locales \<open>byte_source\<close> and \<open>byte_sink\<close> are what
    the wire format needs of them, interpreted for blocks and for callbacks. \<open>Pb_Wire\<close>: the wire format.
  \<^item> \<open>Pb_Field\<close>: the descriptors of \<open>pb.h\<close> and the iterator of \<open>pb_common.c\<close>. \<open>Pb_Encode\<close>: the rest of
    \<open>pb_encode.c\<close>. \<open>Pb_Message\<close>: the message that lies in memory, and that the encoder writes it. \<open>Pb_Total\<close>: that
    the encoder returns. \<open>Pb_Decode\<close>: the rest of \<open>pb_decode.c\<close>, defaults and release included. \<open>Pb_Safe\<close>: that the
    decoder returns and where it writes.

  \<^bold>\<open>What the theorems show.\<close> Readers accept exactly the encodings, in their minimal form where DER asks for it, and leave
  what is behind them (C9, C10, C21, C23, C26, C38, C39). Writers write the encodings of what is added, and fail only
  when a value does not fit or memory runs out (C1, C2, C12, C19, C24, C27); a discarded child leaves nothing but the
  identifier octets of its element, if it is one (C13). Each round trip is closed: DER elements (C8), object identifiers
  (C11), base64 streams for every way of cutting them into calls (C5, C6, C7), character sets (C22), protocol buffers
  fields (C37). Containers behave as lists and byte strings under every sequence of operations (C3, C4, C20), search and
  keep their order (C14, C15), succeed when they can and report failure without losing what they hold (C18), and own
  what they copy (C17). The protocol buffers encoder writes exactly the message in memory (C28), in two passes whose
  sizes agree (C29), refuses what cannot be encoded (C33) and returns (C30), as does the search for a field (C31). The
  decoder returns on every input and writes nowhere but in the structure it is given (C32). C16, C25, C34, C35, C36 and
  C40 show where the code does not do what it means to, and so does \<open>bit_string_parts_joined\<close> in \<open>Ber\<close>: the DER of C24 is
  defined by the values of the strings, and a BIT STRING in parts is not joined to its value.

  The message of C28, C29 and C33 is read with two functions of the code, \<open>pb_field_iter_next\<close> and
  \<open>pb_check_proto3_default_value\<close>: where fields lie, and which are left out, is as these say. C31 and C34 are about them.

  \<^bold>\<open>Bounds.\<close> Loops over buffers, chains and tables are structural or have a measure, so they are total.
  \<open>cbs_find_ber\<close> and \<open>cbs_convert_ber\<close> recurse as the code does, up to its own limit \<open>kMaxDepth\<close>. The recursions of
  \<open>pb_encode\<close> and \<open>pb_decode\<close> over nested messages have no limit in the code; the model takes one, which also bounds the
  lists of extensions, and a run that goes deeper has no result. C30 and C32 say that two more than the rank of a message
  type is enough. Searches of the field iterator and the loops of the decoder are a \<open>partial_function\<close>; C31 and C32 say
  that they return.

  \<^bold>\<open>The decoder.\<close> The state of a decoding run is the input stream and the world: the memory, which changes, and what the
  allocator knows. \<open>realloc\<close>, \<open>free\<close>, the callbacks of fields and of extensions are parameters, in the record
  \<open>pb_surroundings\<close> with the descriptors and the addresses of the local variable \<open>fixed_count_size\<close>, which fields
  point to. C32 is for types whose fields are static: \<open>laid_out\<close> says that every field and its counter lie in the
  structure, that strings and blocks of bytes have room for their header, and that submessages have lower ranks. What a
  stream callback that fails leaves in its buffer is not modelled.

  \<^bold>\<open>Not modelled.\<close>

  \<^item> Formatted printing and the freeing functions of \<open>mem.c\<close>, and the functions that only release memory (\<open>sk_free\<close>,
    \<open>lh_free\<close>, \<open>BUF_MEM_free\<close>): they have no result.
  \<^item> Ciphers, hashes, public keys and big numbers: numeric kernels, many of them with assembly variants.
  \<^item> X.509, the ASN.1 templates and PEM: interpreters of templates over C structures that other files generate.
  \<^item> TLS, gRPC, Firebase, abseil and leveldb, which are C++ and Objective-C, and the application, which is Swift. upb
    works on generated layouts.
  \<^item> Settings of nanopb that the build does not use: \<open>PB_WITHOUT_64BIT\<close>, \<open>PB_BUFFER_ONLY\<close>,
    \<open>PB_ENCODE_ARRAYS_UNPACKED\<close>, \<open>PB_OLD_CALLBACK_STYLE\<close>, big-endian machines.
\<close>

end
